(* ===== verification/Go_Prelude.thy ===== *)
theory Go_Prelude
  imports Main "HOL-Library.List_Lexorder" "HOL-Library.Product_Lexorder" "HOL-Library.AList"
    "HOL-Library.Multiset" "HOL-Library.Char_ord" "HOL-Library.Sublist"
begin

text \<open>
  What the components share: Go's 64-bit integers with the wrap-around and the truncating
  division written out, instants and durations, strings as byte lists with the standard
  library's trimming, lower-casing and case-insensitive comparison, decimal parsing, and
  results that are an error or a value.

  A Go \<open>int\<close> or \<open>int64\<close> is an \<open>int\<close>, wrapped by \<open>s64\<close> where the code can overflow.
  A \<open>time.Time\<close> is the number of nanoseconds since Go's zero time, so \<open>t.IsZero()\<close> is
  \<open>t = 0\<close>, \<open>After\<close> and \<open>Before\<close> are the order, and a \<open>time.Duration\<close> is a number of
  nanoseconds. A Go string is a byte list, a \<open>char\<close> is a byte, and the order of strings is
  the bytewise lexicographic one. Lower-casing and folding treat the ASCII letters and the
  non-ASCII letters whose image is an ASCII letter (the Kelvin sign, the dotted capital I, the
  long s) as Go does, so a comparison with an ASCII constant is exact; other non-ASCII
  letters are left as they are.
\<close>

named_theorems time_simps "instants, durations and their units"
named_theorems str_simps "byte strings"

section \<open>Integers\<close>

definition s64 :: "int \<Rightarrow> int" where
  "s64 x = (x + 2 ^ 63) mod 2 ^ 64 - 2 ^ 63"

definition int64_max :: int where "int64_max = 2 ^ 63 - 1"

definition int64_min :: int where "int64_min = - (2 ^ 63)"

definition in_s64 :: "int \<Rightarrow> bool" where
  "in_s64 x \<longleftrightarrow> int64_min \<le> x \<and> x \<le> int64_max"

lemma s64_id: "in_s64 x \<Longrightarrow> s64 x = x"
  by (auto simp: s64_def in_s64_def int64_min_def int64_max_def)

lemma s64_range: "in_s64 (s64 x)"
  by (auto simp: s64_def in_s64_def int64_min_def int64_max_def)

text \<open>Go's integer division truncates towards zero.\<close>

definition go_quot :: "int \<Rightarrow> int \<Rightarrow> int" where
  "go_quot a b = sgn a * sgn b * (\<bar>a\<bar> div \<bar>b\<bar>)"

lemma go_quot_nonneg: "0 \<le> a \<Longrightarrow> 0 < b \<Longrightarrow> go_quot a b = a div b"
  by (cases "a = 0") (auto simp: go_quot_def)

section \<open>Instants and durations\<close>

type_synonym instant = int
type_synonym duration = int

definition microsecond :: duration where [time_simps]: "microsecond = 1000"

definition millisecond :: duration where [time_simps]: "millisecond = 1000000"

definition second :: duration where [time_simps]: "second = 1000000000"

definition minute :: duration where [time_simps]: "minute = 60000000000"

definition hour :: duration where [time_simps]: "hour = 3600000000000"

text \<open>\<open>t.Truncate(time.Microsecond)\<close> rounds down to a multiple since the zero time.\<close>

definition trunc_us :: "instant \<Rightarrow> instant" where
  "trunc_us t = t - t mod microsecond"

lemma trunc_us_idem [simp]: "trunc_us (trunc_us t) = trunc_us t"
  by (simp add: trunc_us_def microsecond_def mod_diff_left_eq)

lemma trunc_us_zero [simp]: "trunc_us 0 = 0"
  by (simp add: trunc_us_def)

lemma trunc_us_mono: "s \<le> t \<Longrightarrow> trunc_us s \<le> trunc_us t"
  by (simp add: trunc_us_def microsecond_def minus_mod_eq_mult_div zdiv_mono1)

lemma trunc_us_le: "trunc_us t \<le> t"
  by (simp add: trunc_us_def microsecond_def)

text \<open>\<open>t.Sub(u)\<close> saturates at the limits of a duration.\<close>

definition time_sub :: "instant \<Rightarrow> instant \<Rightarrow> duration" where
  "time_sub t u = max int64_min (min int64_max (t - u))"

section \<open>Results\<close>

text \<open>A Go \<open>(value, error)\<close> result is a sum; \<open>bindE\<close> is the early return on an error.\<close>

fun bindE :: "'e + 'a \<Rightarrow> ('a \<Rightarrow> 'e + 'b) \<Rightarrow> 'e + 'b" where
  "bindE (Inl e) f = Inl e"
| "bindE (Inr x) f = f x"

lemma bindE_Inr [simp]: "bindE m Inr = m"
  by (cases m) auto

lemma bindE_eq_Inr [simp]: "bindE m f = Inr y \<longleftrightarrow> (\<exists>x. m = Inr x \<and> f x = Inr y)"
  by (cases m) auto

text \<open>The body of a loop that may fail, over the elements in order.\<close>

fun foldE :: "('s \<Rightarrow> 'a \<Rightarrow> 'e + 's) \<Rightarrow> 's \<Rightarrow> 'a list \<Rightarrow> 'e + 's" where
  "foldE f s [] = Inr s"
| "foldE f s (x # xs) = bindE (f s x) (\<lambda>s'. foldE f s' xs)"

lemma foldE_append: "foldE f s (xs @ ys) = bindE (foldE f s xs) (\<lambda>s'. foldE f s' ys)"
proof (induction xs arbitrary: s)
  case (Cons x xs)
  then show ?case by (cases "f s x") auto
qed simp

lemma foldE_invariant:
  assumes "foldE f s xs = Inr t" and "P s"
    and "\<And>s x s'. x \<in> set xs \<Longrightarrow> P s \<Longrightarrow> f s x = Inr s' \<Longrightarrow> P s'"
  shows "P t"
  using assms
proof (induction xs arbitrary: s)
  case (Cons x xs)
  from Cons.prems(1) obtain s' where s': "f s x = Inr s'" "foldE f s' xs = Inr t" by auto
  with Cons.prems have "P s'" by auto
  with Cons.IH [OF s'(2)] Cons.prems(3) show ?case by auto
qed simp

fun mapE :: "('a \<Rightarrow> 'e + 'b) \<Rightarrow> 'a list \<Rightarrow> 'e + 'b list" where
  "mapE f [] = Inr []"
| "mapE f (x # xs) = bindE (f x) (\<lambda>y. bindE (mapE f xs) (\<lambda>ys. Inr (y # ys)))"

lemma mapE_set: "mapE f xs = Inr ys \<Longrightarrow> y \<in> set ys \<Longrightarrow> \<exists>x \<in> set xs. f x = Inr y"
  by (induction xs arbitrary: ys) auto

lemma mapE_length: "mapE f xs = Inr ys \<Longrightarrow> length ys = length xs"
  by (induction xs arbitrary: ys) auto

section \<open>Byte strings\<close>

text \<open>The UTF-8 encodings of the runes for which \<open>unicode.IsSpace\<close> holds.\<close>

definition space_runes :: "string list" where
  "space_runes =
     [[CHR 0x20], [CHR 0x09], [CHR 0x0A], [CHR 0x0B], [CHR 0x0C], [CHR 0x0D],
      [CHR 0xC2, CHR 0x85], [CHR 0xC2, CHR 0xA0], [CHR 0xE1, CHR 0x9A, CHR 0x80],
      [CHR 0xE2, CHR 0x80, CHR 0x80], [CHR 0xE2, CHR 0x80, CHR 0x81],
      [CHR 0xE2, CHR 0x80, CHR 0x82], [CHR 0xE2, CHR 0x80, CHR 0x83],
      [CHR 0xE2, CHR 0x80, CHR 0x84], [CHR 0xE2, CHR 0x80, CHR 0x85],
      [CHR 0xE2, CHR 0x80, CHR 0x86], [CHR 0xE2, CHR 0x80, CHR 0x87],
      [CHR 0xE2, CHR 0x80, CHR 0x88], [CHR 0xE2, CHR 0x80, CHR 0x89],
      [CHR 0xE2, CHR 0x80, CHR 0x8A], [CHR 0xE2, CHR 0x80, CHR 0xA8],
      [CHR 0xE2, CHR 0x80, CHR 0xA9], [CHR 0xE2, CHR 0x80, CHR 0xAF],
      [CHR 0xE2, CHR 0x81, CHR 0x9F], [CHR 0xE3, CHR 0x80, CHR 0x80]]"

text \<open>Dropping any of \<open>ps\<close> from the front, as long as one is there.\<close>

function strip :: "string list \<Rightarrow> string \<Rightarrow> string" where
  "strip ps s =
     (case find (\<lambda>p. p \<noteq> [] \<and> prefix p s) ps of
        None \<Rightarrow> s
      | Some p \<Rightarrow> strip ps (drop (length p) s))"
  by pat_completeness auto
termination
proof (relation "measure (\<lambda>(ps, s). length s)", goal_cases)
  case (2 ps s p)
  then have "p \<noteq> []" "prefix p s" by (auto simp: find_Some_iff)
  then have "p \<noteq> []" "length p \<le> length s" by (auto simp: prefix_length_le)
  then show ?case by (cases p) auto
qed auto

declare strip.simps [simp del]

text \<open>\<open>strings.TrimSpace\<close>.\<close>

definition trim_left :: "string \<Rightarrow> string" where
  "trim_left s = strip space_runes s"

definition trim_right :: "string \<Rightarrow> string" where
  "trim_right s = rev (strip (map rev space_runes) (rev s))"

definition trim_space :: "string \<Rightarrow> string" where
  "trim_space s = trim_right (trim_left s)"

definition clean :: "string list \<Rightarrow> string \<Rightarrow> bool" where
  "clean ps s \<longleftrightarrow> (\<forall>p \<in> set ps. p \<noteq> [] \<longrightarrow> \<not> prefix p s)"

lemma strip_clean: "clean ps (strip ps s)"
proof (induction ps s rule: strip.induct)
  case (1 ps s)
  show ?case
  proof (cases "find (\<lambda>p. p \<noteq> [] \<and> prefix p s) ps")
    case None
    then have "strip ps s = s" by (subst strip.simps) simp
    with None show ?thesis by (auto simp: clean_def find_None_iff)
  next
    case (Some p)
    with 1 show ?thesis by (subst strip.simps) auto
  qed
qed

lemma strip_id: "clean ps s \<Longrightarrow> strip ps s = s"
proof -
  assume "clean ps s"
  then have "find (\<lambda>p. p \<noteq> [] \<and> prefix p s) ps = None"
    by (auto simp: clean_def find_None_iff)
  then show ?thesis by (subst strip.simps) simp
qed

lemma strip_suffix: "suffix (strip ps s) s"
proof (induction ps s rule: strip.induct)
  case (1 ps s)
  show ?case
  proof (cases "find (\<lambda>p. p \<noteq> [] \<and> prefix p s) ps")
    case None
    then show ?thesis by (subst strip.simps) simp
  next
    case (Some p)
    then have "strip ps s = strip ps (drop (length p) s)" by (subst strip.simps) simp
    with 1 [OF Some] show ?thesis by (metis suffix_drop suffix_order.trans)
  qed
qed

lemma clean_prefix: "clean ps s \<Longrightarrow> prefix t s \<Longrightarrow> clean ps t"
  unfolding clean_def by (metis prefix_order.trans)

lemma trim_right_prefix: "prefix (trim_right s) s"
  using strip_suffix [of "map rev space_runes" "rev s"]
  by (simp add: trim_right_def suffix_to_prefix)

text \<open>Trimming twice is trimming once: the canonical forms below are fixed points.\<close>

lemma trim_space_idem [simp]: "trim_space (trim_space s) = trim_space s"
proof -
  let ?t = "trim_right (trim_left s)"
  have "clean space_runes ?t"
    using strip_clean trim_right_prefix clean_prefix unfolding trim_left_def by blast
  then have "trim_left ?t = ?t" by (simp add: trim_left_def strip_id)
  moreover have "clean (map rev space_runes) (rev ?t)"
    by (simp add: trim_right_def strip_clean)
  then have "trim_right ?t = ?t" unfolding trim_right_def [of ?t] by (simp add: strip_id)
  ultimately show ?thesis by (simp add: trim_space_def)
qed

lemma length_trim_space: "length (trim_space s) \<le> length s"
proof -
  have "length (trim_right (trim_left s)) \<le> length (trim_left s)"
    by (rule prefix_length_le [OF trim_right_prefix])
  also have "\<dots> \<le> length s"
    unfolding trim_left_def by (rule suffix_length_le [OF strip_suffix])
  finally show ?thesis by (simp add: trim_space_def)
qed

lemma strip_Nil [simp]: "strip ps [] = []"
  by (rule strip_id) (simp add: clean_def)

lemma trim_space_Nil [simp]: "trim_space [] = []"
  by (simp add: trim_space_def trim_left_def trim_right_def)

text \<open>Evaluation: on a closed string \<open>strip_eval\<close> unfolds one step at a time.\<close>

lemma strip_eval:
  "strip ps (c # cs) =
     (case find (\<lambda>p. p \<noteq> [] \<and> prefix p (c # cs)) ps of
        None \<Rightarrow> c # cs | Some p \<Rightarrow> strip ps (drop (length p) (c # cs)))"
  by (subst strip.simps) simp

lemmas trim_eval = trim_space_def trim_left_def trim_right_def strip_eval space_runes_def

subsection \<open>Case\<close>

text \<open>An ASCII capital and its small letter differ in bit 5.\<close>

definition ascii_lower :: "char \<Rightarrow> char" where
  "ascii_lower c =
     (case c of Char b0 b1 b2 b3 b4 b5 b6 b7 \<Rightarrow>
        (let n = of_char c :: nat in
         if 65 \<le> n \<and> n \<le> 90 then Char b0 b1 b2 b3 b4 True b6 b7 else c))"

text \<open>\<open>strings.ToLower\<close>: E2 84 AA is the Kelvin sign, C4 B0 the dotted capital I.\<close>

fun to_lower :: "string \<Rightarrow> string" where
  "to_lower [] = []"
| "to_lower (c # cs) =
     (if c = CHR 0xE2 \<and> take 2 cs = [CHR 0x84, CHR 0xAA] then CHR ''k'' # to_lower (drop 2 cs)
      else if c = CHR 0xC4 \<and> take 1 cs = [CHR 0xB0] then CHR ''i'' # to_lower (drop 1 cs)
      else ascii_lower c # to_lower cs)"

text \<open>\<open>strings.EqualFold\<close>: C5 BF is the long s, which folds with s.\<close>

fun fold_case :: "string \<Rightarrow> string" where
  "fold_case [] = []"
| "fold_case (c # cs) =
     (if c = CHR 0xE2 \<and> take 2 cs = [CHR 0x84, CHR 0xAA] then CHR ''k'' # fold_case (drop 2 cs)
      else if c = CHR 0xC5 \<and> take 1 cs = [CHR 0xBF] then CHR ''s'' # fold_case (drop 1 cs)
      else ascii_lower c # fold_case cs)"

definition equal_fold :: "string \<Rightarrow> string \<Rightarrow> bool" where
  "equal_fold s t \<longleftrightarrow> fold_case s = fold_case t"

lemma equal_fold_refl [simp]: "equal_fold s s"
  by (simp add: equal_fold_def)

lemma equal_fold_sym: "equal_fold s t \<longleftrightarrow> equal_fold t s"
  by (auto simp: equal_fold_def)

lemma equal_fold_trans: "equal_fold s t \<Longrightarrow> equal_fold t u \<Longrightarrow> equal_fold s u"
  by (simp add: equal_fold_def)

subsection \<open>Searching\<close>

definition contains :: "string \<Rightarrow> string \<Rightarrow> bool" where
  "contains s t \<longleftrightarrow> sublist t s"

text \<open>\<open>strings.LastIndex\<close> for a one-byte separator: the bytes before and after it.\<close>

fun split_last :: "char \<Rightarrow> string \<Rightarrow> (string \<times> string) option" where
  "split_last c [] = None"
| "split_last c (x # xs) =
     (case split_last c xs of
        Some (a, b) \<Rightarrow> Some (x # a, b)
      | None \<Rightarrow> (if x = c then Some ([], xs) else None))"

lemma split_last_None: "split_last c s = None \<longleftrightarrow> c \<notin> set s"
  by (induction s) (auto split: option.splits if_splits)

lemma split_last_append: "c \<notin> set b \<Longrightarrow> split_last c (a @ c # b) = Some (a, b)"
  by (induction a) (auto split: option.splits simp flip: split_last_None)

lemma split_last_Some: "split_last c s = Some (a, b) \<longleftrightarrow> s = a @ c # b \<and> c \<notin> set b"
proof
  assume "split_last c s = Some (a, b)"
  then show "s = a @ c # b \<and> c \<notin> set b"
  proof (induction s arbitrary: a)
    case (Cons x xs)
    then show ?case by (auto simp: split_last_None split: option.splits if_splits)
  qed simp
qed (auto simp: split_last_append)

subsection \<open>Decimal integers\<close>

definition digit_val :: "char \<Rightarrow> int option" where
  "digit_val c =
     (let n = of_char c :: nat in if 48 \<le> n \<and> n \<le> 57 then Some (int n - 48) else None)"

fun dec_val :: "int \<Rightarrow> string \<Rightarrow> int option" where
  "dec_val acc [] = Some acc"
| "dec_val acc (c # cs) =
     (case digit_val c of None \<Rightarrow> None | Some d \<Rightarrow> dec_val (10 * acc + d) cs)"

text \<open>
  \<open>strconv.Atoi\<close> on a 64-bit platform: an optional sign, at least one digit, and nothing but
  digits; \<open>None\<close> is an error, out of range included.
\<close>

fun atoi :: "string \<Rightarrow> int option" where
  "atoi [] = None"
| "atoi (c # cs) =
     (let neg = (c = CHR ''-'');
          ds = (if neg \<or> c = CHR ''+'' then cs else c # cs)
      in if ds = [] then None
         else case dec_val 0 ds of
                None \<Rightarrow> None
              | Some v \<Rightarrow> (let x = (if neg then - v else v) in if in_s64 x then Some x else None))"

lemma dec_val_nonneg: "0 \<le> acc \<Longrightarrow> dec_val acc s = Some v \<Longrightarrow> 0 \<le> v"
proof (induction s arbitrary: acc)
  case (Cons c s)
  then obtain d where d: "digit_val c = Some d" "dec_val (10 * acc + d) s = Some v"
    by (auto split: option.splits)
  then have "0 \<le> d" by (auto simp: digit_val_def Let_def split: if_splits)
  with Cons.prems(1) d(2) show ?case by (intro Cons.IH [of "10 * acc + d"]) auto
qed simp

lemma atoi_range: "atoi s = Some v \<Longrightarrow> in_s64 v"
  by (cases s) (auto simp: Let_def split: option.splits if_splits)

text \<open>\<open>strconv.Itoa\<close> of a non-negative integer.\<close>

definition digit_char :: "nat \<Rightarrow> char" where
  "digit_char d = char_of (48 + d)"

fun itoa :: "nat \<Rightarrow> string" where
  "itoa n = (if n < 10 then [digit_char n] else itoa (n div 10) @ [digit_char (n mod 10)])"

declare itoa.simps [simp del]

lemma digit_val_char: "d < 10 \<Longrightarrow> digit_val (digit_char d) = Some (int d)"
  by (simp add: digit_val_def digit_char_def Let_def)

lemma dec_val_append:
  "dec_val acc (s @ [c]) =
     (case dec_val acc s of None \<Rightarrow> None
      | Some v \<Rightarrow> (case digit_val c of None \<Rightarrow> None | Some d \<Rightarrow> Some (10 * v + d)))"
  by (induction s arbitrary: acc) (auto split: option.splits)

lemma dec_val_itoa: "dec_val 0 (itoa n) = Some (int n)"
proof (induction n rule: itoa.induct)
  case (1 n)
  show ?case
  proof (cases "n < 10")
    case True
    then show ?thesis by (subst itoa.simps) (simp add: digit_val_char)
  next
    case False
    then have e: "itoa n = itoa (n div 10) @ [digit_char (n mod 10)]" by (subst itoa.simps) simp
    have v: "10 * int (n div 10) + int (n mod 10) = int n"
      by (subst (3) mult_div_mod_eq [of 10 n, symmetric]) (simp only: of_nat_add of_nat_mult of_nat_numeral)
    have "digit_val (digit_char (n mod 10)) = Some (int (n mod 10))" by (rule digit_val_char) simp
    with 1 [OF False] v show ?thesis unfolding e dec_val_append by simp
  qed
qed

lemma itoa_inj: "itoa m = itoa n \<Longrightarrow> m = n"
  by (metis dec_val_itoa of_nat_eq_iff option.inject)

lemma itoa_no_colon: "CHR '':'' \<notin> set (itoa n)"
proof
  assume "CHR '':'' \<in> set (itoa n)"
  then obtain a b where s: "itoa n = a @ CHR '':'' # b" by (auto simp: in_set_conv_decomp)
  have "dec_val acc (a @ CHR '':'' # b) = None" for acc
    by (induction a arbitrary: acc) (auto simp: digit_val_def Let_def split: option.splits)
  with s dec_val_itoa [of n] show False by simp
qed

text \<open>A field written with its length before it: the encoding under every hash of the program.\<close>

definition hash_field :: "string \<Rightarrow> string" where
  "hash_field part = itoa (length part) @ '':'' @ part"

definition hash_fields :: "string list \<Rightarrow> string" where
  "hash_fields parts = concat (map hash_field parts)"

lemma hash_field_inj: "hash_field p @ x = hash_field q @ y \<Longrightarrow> p = q \<and> x = y"
proof -
  assume a: "hash_field p @ x = hash_field q @ y"
  have tw: "takeWhile (\<lambda>c. c \<noteq> CHR '':'') (hash_field p @ x) = itoa (length p)"
    "dropWhile (\<lambda>c. c \<noteq> CHR '':'') (hash_field p @ x) = CHR '':'' # p @ x" for p x
    using itoa_no_colon [of "length p"]
    by (auto simp: hash_field_def takeWhile_append dropWhile_append)
  from tw(1) [of p x] tw(1) [of q y] a have "length p = length q" by (simp add: itoa_inj)
  moreover from tw(2) [of p x] tw(2) [of q y] a have "p @ x = q @ y" by simp
  ultimately show ?thesis by simp
qed

lemma hash_fields_inj: "hash_fields ps = hash_fields qs \<Longrightarrow> ps = qs"
proof (induction ps arbitrary: qs)
  case Nil
  then show ?case by (cases qs) (auto simp: hash_fields_def hash_field_def)
next
  case (Cons p ps)
  then obtain q qs' where q: "qs = q # qs'"
    by (cases qs) (auto simp: hash_fields_def hash_field_def)
  with Cons.prems have "hash_field p @ hash_fields ps = hash_field q @ hash_fields qs'"
    by (simp add: hash_fields_def)
  from hash_field_inj [OF this] Cons.IH q show ?case by blast
qed

section \<open>Floating-point numbers\<close>

text \<open>
  A \<open>float64\<close>: not a number, an infinity (\<open>Inf True\<close> the positive one), or a finite value, held as
  an integer multiple of the least positive one, \<open>2\<close> to the power \<open>-1074\<close>. The two zeros are one
  value. A sum is rounded to 53 significant bits, ties to even.
\<close>

datatype go_float = NaN | Inf bool | Fin int

definition flt_of_int :: "int \<Rightarrow> go_float" where
  "flt_of_int n = Fin (n * 2 ^ 1074)"

fun fle :: "go_float \<Rightarrow> go_float \<Rightarrow> bool" where
  "fle NaN y = False"
| "fle x NaN = False"
| "fle (Inf False) y = True"
| "fle (Inf True) y = (y = Inf True)"
| "fle (Fin a) (Fin b) = (a \<le> b)"
| "fle (Fin a) (Inf s) = s"

definition flt :: "go_float \<Rightarrow> go_float \<Rightarrow> bool" where
  "flt x y \<longleftrightarrow> fle x y \<and> \<not> fle y x"

definition feq :: "go_float \<Rightarrow> go_float \<Rightarrow> bool" where
  "feq x y \<longleftrightarrow> fle x y \<and> fle y x"

fun bit_length :: "nat \<Rightarrow> nat" where
  "bit_length n = (if n = 0 then 0 else Suc (bit_length (n div 2)))"

declare bit_length.simps [simp del]

definition half_even :: "nat \<Rightarrow> nat \<Rightarrow> nat" where
  "half_even n k =
     (let q = n div 2 ^ k; r = 2 * (n mod 2 ^ k) in
      if r > 2 ^ k \<or> (r = 2 ^ k \<and> odd q) then q + 1 else q)"

definition round53 :: "int \<Rightarrow> int" where
  "round53 x =
     (let n = nat \<bar>x\<bar>; k = bit_length n - 53 in sgn x * int (half_even n k * 2 ^ k))"

fun fadd :: "go_float \<Rightarrow> go_float \<Rightarrow> go_float" where
  "fadd NaN y = NaN"
| "fadd x NaN = NaN"
| "fadd (Inf s) (Inf t) = (if s = t then Inf s else NaN)"
| "fadd (Inf s) y = Inf s"
| "fadd x (Inf t) = Inf t"
| "fadd (Fin a) (Fin b) =
     (let s = round53 (a + b) in
      if \<bar>s\<bar> \<ge> 2 ^ 53 * 2 ^ 2045 then Inf (s > 0) else Fin s)"

lemma bit_length_bounds: "n > 0 \<Longrightarrow> 2 ^ (bit_length n - 1) \<le> n \<and> n < 2 ^ bit_length n \<and> bit_length n > 0"
proof (induction n rule: bit_length.induct)
  case (1 n)
  show ?case
  proof (cases "n div 2 = 0")
    case True
    with 1 have "n = 1" by linarith
    then show ?thesis by (simp add: bit_length.simps [of "Suc 0"] bit_length.simps [of 0])
  next
    case False
    let ?b = "bit_length (n div 2)"
    from 1 False have ih: "2 ^ (?b - 1) \<le> n div 2" "n div 2 < 2 ^ ?b" "?b > 0" by auto
    then have "2 * 2 ^ (?b - 1) \<le> n" "n < 2 * 2 ^ ?b" by linarith+
    moreover from ih(3) have "2 * 2 ^ (?b - 1) = (2 :: nat) ^ ?b" by (cases ?b) auto
    moreover from False have "bit_length n = Suc ?b" by (subst bit_length.simps) simp
    ultimately show ?thesis by simp
  qed
qed

text \<open>A value with at most 53 significant bits is not changed by the rounding.\<close>

lemma round53_exact:
  assumes "\<bar>m\<bar> < 2 ^ 53"
  shows "round53 (m * 2 ^ j) = m * 2 ^ j"
proof (cases "m = 0")
  case True
  then show ?thesis by (simp add: round53_def)
next
  case False
  define n where "n = nat \<bar>m\<bar>"
  have n: "n > 0" "n < 2 ^ 53" using False assms by (auto simp: n_def nat_less_iff)
  have e: "nat \<bar>m * 2 ^ j\<bar> = n * 2 ^ j" by (simp add: n_def abs_mult nat_mult_distrib nat_power_eq)
  let ?k = "bit_length (n * 2 ^ j) - 53"
  have "2 ^ (bit_length (n * 2 ^ j) - 1) \<le> n * 2 ^ j"
    using bit_length_bounds [of "n * 2 ^ j"] n by simp
  also have "\<dots> < 2 ^ (53 + j)" using n by (simp add: power_add)
  finally have "?k \<le> j" by simp
  then have d: "2 ^ ?k dvd n * 2 ^ j" by (simp add: le_imp_power_dvd)
  then have "half_even (n * 2 ^ j) ?k * 2 ^ ?k = n * 2 ^ j"
    by (simp add: half_even_def)
  then have "round53 (m * 2 ^ j) = sgn (m * 2 ^ j) * int (n * 2 ^ j)"
    unfolding round53_def Let_def e by simp
  also have "\<dots> = sgn (m * 2 ^ j) * \<bar>m * 2 ^ j\<bar>" using e by (simp flip: e)
  finally show ?thesis by (simp only: sgn_mult_abs)
qed

text \<open>Small integers are exact: what the closed examples compute with.\<close>

lemma fle_flt_of_int [simp]: "fle (flt_of_int m) (flt_of_int n) \<longleftrightarrow> m \<le> n"
  by (simp add: flt_of_int_def)

lemma flt_flt_of_int [simp]: "flt (flt_of_int m) (flt_of_int n) \<longleftrightarrow> m < n"
  by (auto simp: flt_def)

lemma feq_flt_of_int [simp]: "feq (flt_of_int m) (flt_of_int n) \<longleftrightarrow> m = n"
  by (auto simp: feq_def)

lemma flt_of_int_eq_iff [simp]: "flt_of_int m = flt_of_int n \<longleftrightarrow> m = n"
  by (simp add: flt_of_int_def)

lemma fadd_flt_of_int:
  assumes "\<bar>m + n\<bar> < 2 ^ 53"
  shows "fadd (flt_of_int m) (flt_of_int n) = flt_of_int (m + n)"
proof -
  have e: "m * 2 ^ 1074 + n * 2 ^ 1074 = (m + n) * (2 :: int) ^ 1074" by (simp only: distrib_right)
  have r: "round53 (m * 2 ^ 1074 + n * 2 ^ 1074) = (m + n) * 2 ^ 1074"
    unfolding e by (rule round53_exact [OF assms])
  have "\<bar>(m + n) * 2 ^ 1074\<bar> = \<bar>m + n\<bar> * (2 :: int) ^ 1074" by (simp only: abs_mult abs_power2 abs_numeral power_abs)
  also have "\<dots> < 2 ^ 53 * 2 ^ 1074" using assms by (intro mult_strict_right_mono) simp_all
  also have "\<dots> \<le> 2 ^ 53 * 2 ^ 2045" by (intro mult_left_mono power_increasing) simp_all
  finally have "\<not> 2 ^ 53 * 2 ^ 2045 \<le> \<bar>(m + n) * (2 :: int) ^ 1074\<bar>" by (simp only: not_le)
  then show ?thesis unfolding flt_of_int_def fadd.simps r Let_def by (simp only: if_False)
qed

section \<open>Association lists\<close>

lemma map_of_delete: "map_of (AList.delete k al) j = (if j = k then None else map_of al j)"
  by (simp add: delete_conv')

lemma map_of_update: "map_of (AList.update k v al) j = (if j = k then Some v else map_of al j)"
  by (simp add: update_conv')

text \<open>An update of a key that is there replaces its value in place.\<close>

lemma update_in_place:
  "distinct (map fst al) \<Longrightarrow> k \<in> set (map fst al) \<Longrightarrow>
     AList.update k v al = map (\<lambda>(j, x). (j, if j = k then v else x)) al"
proof (induction al)
  case (Cons x al)
  show ?case
  proof (cases "fst x = k")
    case True
    with Cons.prems(1) have "k \<notin> fst ` set al" by simp
    then have "j \<noteq> k" if "(j, y) \<in> set al" for j y using that by force
    then have "map (\<lambda>(j, x). (j, if j = k then v else x)) al = al" by (auto intro!: map_idI)
    with True show ?thesis by (cases x) simp
  next
    case False
    with Cons show ?thesis by (cases x) auto
  qed
qed simp

end
