(* ===== verification/Thinking_Config.thy ===== *)
theory Thinking_Config
  imports Go_Prelude
begin

text \<open>
  Thinking configurations (internal/thinking): the types of types.go, the parsing of a
  \<open>model(value)\<close> suffix (suffix.go and \<open>parseSuffixToConfig\<close> of apply.go) and the conversion
  between levels and token budgets (convert.go). A Go pair \<open>(value, ok)\<close> is an option.
  A level is a string, as in the code. The lemmas give the suffix parser as the inverse of
  writing the suffix, and the level/budget tables as inverse and monotone.
\<close>

section \<open>Types\<close>

datatype thinking_mode = ModeBudget | ModeLevel | ModeNone | ModeAuto

fun mode_string :: "thinking_mode \<Rightarrow> string" where
  "mode_string ModeBudget = ''budget''"
| "mode_string ModeLevel = ''level''"
| "mode_string ModeNone = ''none''"
| "mode_string ModeAuto = ''auto''"

definition LevelNone :: string where "LevelNone = ''none''"
definition LevelAuto :: string where "LevelAuto = ''auto''"
definition LevelMinimal :: string where "LevelMinimal = ''minimal''"
definition LevelLow :: string where "LevelLow = ''low''"
definition LevelMedium :: string where "LevelMedium = ''medium''"
definition LevelHigh :: string where "LevelHigh = ''high''"
definition LevelXHigh :: string where "LevelXHigh = ''xhigh''"
definition LevelMax :: string where "LevelMax = ''max''"

lemmas level_defs =
  LevelNone_def LevelAuto_def LevelMinimal_def LevelLow_def LevelMedium_def LevelHigh_def
  LevelXHigh_def LevelMax_def

record thinking_config =
  cfg_mode :: thinking_mode
  cfg_budget :: int
  cfg_level :: string

definition empty_config :: thinking_config where
  "empty_config = \<lparr>cfg_mode = ModeBudget, cfg_budget = 0, cfg_level = []\<rparr>"

record suffix_result =
  sr_model_name :: string
  sr_has_suffix :: bool
  sr_raw_suffix :: string

text \<open>The registry's description of a model, the fields this component reads.\<close>

record thinking_support =
  ts_min :: int
  ts_max :: int
  ts_zero_allowed :: bool
  ts_dynamic_allowed :: bool
  ts_levels :: "string list"

record model_info =
  mi_id :: string
  mi_type :: string
  mi_user_defined :: bool
  mi_thinking :: "thinking_support option"

section \<open>Suffixes\<close>

definition parse_suffix :: "string \<Rightarrow> suffix_result" where
  "parse_suffix model =
     (case split_last CHR ''('' model of
        None \<Rightarrow> \<lparr>sr_model_name = model, sr_has_suffix = False, sr_raw_suffix = []\<rparr>
      | Some (before, after) \<Rightarrow>
          if \<not> suffix '')'' model
          then \<lparr>sr_model_name = model, sr_has_suffix = False, sr_raw_suffix = []\<rparr>
          else \<lparr>sr_model_name = before, sr_has_suffix = True, sr_raw_suffix = butlast after\<rparr>)"

definition parse_numeric_suffix :: "string \<Rightarrow> int option" where
  "parse_numeric_suffix raw =
     (if raw = [] then None
      else case atoi raw of
             None \<Rightarrow> None
           | Some value \<Rightarrow> if value < 0 then None else Some value)"

definition parse_special_suffix :: "string \<Rightarrow> thinking_mode option" where
  "parse_special_suffix raw =
     (if raw = [] then None
      else let low = to_lower raw in
        if low = ''none'' then Some ModeNone
        else if low = ''auto'' \<or> low = ''-1'' then Some ModeAuto
        else None)"

definition parse_level_suffix :: "string \<Rightarrow> string option" where
  "parse_level_suffix raw =
     (if raw = [] then None
      else let low = to_lower raw in
        if low = ''minimal'' then Some LevelMinimal
        else if low = ''low'' then Some LevelLow
        else if low = ''medium'' then Some LevelMedium
        else if low = ''high'' then Some LevelHigh
        else if low = ''xhigh'' then Some LevelXHigh
        else if low = ''max'' then Some LevelMax
        else None)"

definition parse_suffix_to_config :: "string \<Rightarrow> thinking_config" where
  "parse_suffix_to_config raw =
     (case parse_special_suffix raw of
        Some ModeNone \<Rightarrow> \<lparr>cfg_mode = ModeNone, cfg_budget = 0, cfg_level = []\<rparr>
      | Some ModeAuto \<Rightarrow> \<lparr>cfg_mode = ModeAuto, cfg_budget = -1, cfg_level = []\<rparr>
      | _ \<Rightarrow>
        (case parse_level_suffix raw of
           Some level \<Rightarrow> \<lparr>cfg_mode = ModeLevel, cfg_budget = 0, cfg_level = level\<rparr>
         | None \<Rightarrow>
           (case parse_numeric_suffix raw of
              Some budget \<Rightarrow>
                if budget = 0 then \<lparr>cfg_mode = ModeNone, cfg_budget = 0, cfg_level = []\<rparr>
                else \<lparr>cfg_mode = ModeBudget, cfg_budget = budget, cfg_level = []\<rparr>
            | None \<Rightarrow> empty_config)))"

definition has_thinking_config :: "thinking_config \<Rightarrow> bool" where
  "has_thinking_config c \<longleftrightarrow> cfg_mode c \<noteq> ModeBudget \<or> cfg_budget c \<noteq> 0 \<or> cfg_level c \<noteq> []"

definition has_thinking_suffix :: "string \<Rightarrow> bool" where
  "has_thinking_suffix model =
     (let r = parse_suffix model in
      sr_has_suffix r \<and> has_thinking_config (parse_suffix_to_config (sr_raw_suffix r)))"

section \<open>Levels and budgets\<close>

definition convert_level_to_budget :: "string \<Rightarrow> int option" where
  "convert_level_to_budget level =
     map_of [(''none'', 0), (''auto'', -1), (''minimal'', 512), (''low'', 1024),
             (''medium'', 8192), (''high'', 24576), (''xhigh'', 32768), (''max'', 128000)]
       (to_lower level)"

definition convert_budget_to_level :: "int \<Rightarrow> string option" where
  "convert_budget_to_level budget =
     (if budget < -1 then None
      else if budget = -1 then Some LevelAuto
      else if budget = 0 then Some LevelNone
      else if budget \<le> 512 then Some LevelMinimal
      else if budget \<le> 1024 then Some LevelLow
      else if budget \<le> 8192 then Some LevelMedium
      else if budget \<le> 24576 then Some LevelHigh
      else Some LevelXHigh)"

definition has_level :: "string list \<Rightarrow> string \<Rightarrow> bool" where
  "has_level levels target \<longleftrightarrow> list_ex (\<lambda>l. equal_fold (trim_space l) target) levels"

definition map_to_claude_effort :: "string \<Rightarrow> bool \<Rightarrow> string option" where
  "map_to_claude_effort level0 supports_max =
     (let level = to_lower (trim_space level0) in
      if level = [] then None
      else if level = ''minimal'' then Some ''low''
      else if level = ''low'' \<or> level = ''medium'' \<or> level = ''high'' then Some level
      else if level = ''xhigh'' \<or> level = ''max'' then
        (if supports_max then Some ''max'' else Some ''high'')
      else if level = ''auto'' then Some ''high''
      else None)"

datatype capability =
  CapabilityUnknown | CapabilityNone | CapabilityBudgetOnly | CapabilityLevelOnly | CapabilityHybrid

definition detect_model_capability :: "model_info option \<Rightarrow> capability" where
  "detect_model_capability mi =
     (case mi of
        None \<Rightarrow> CapabilityUnknown
      | Some m \<Rightarrow>
        (case mi_thinking m of
           None \<Rightarrow> CapabilityNone
         | Some s \<Rightarrow>
             (let has_budget = ts_min s > 0 \<or> ts_max s > 0; has_levels = ts_levels s \<noteq> [] in
              if has_budget \<and> has_levels then CapabilityHybrid
              else if has_budget then CapabilityBudgetOnly
              else if has_levels then CapabilityLevelOnly
              else CapabilityNone)))"

text \<open>The usage label of a configuration (apply.go).\<close>

definition reasoning_effort_from_config :: "thinking_config \<Rightarrow> string" where
  "reasoning_effort_from_config c =
     (if \<not> has_thinking_config c then []
      else case cfg_mode c of
        ModeNone \<Rightarrow> LevelNone
      | ModeAuto \<Rightarrow> LevelAuto
      | ModeLevel \<Rightarrow> to_lower (trim_space (cfg_level c))
      | ModeBudget \<Rightarrow>
          (case convert_budget_to_level (cfg_budget c) of None \<Rightarrow> [] | Some l \<Rightarrow> l))"

definition reasoning_effort_from_suffix :: "suffix_result \<Rightarrow> string" where
  "reasoning_effort_from_suffix r =
     (if \<not> sr_has_suffix r then []
      else reasoning_effort_from_config (parse_suffix_to_config (sr_raw_suffix r)))"

section \<open>Lemmas\<close>

lemma suffix_paren: "suffix '')'' model \<longleftrightarrow> model \<noteq> [] \<and> last model = CHR '')''"
  by (metis append_butlast_last_id last_snoc not_Cons_self2 suffix_def snoc_eq_iff_butlast)

lemma parse_suffix_iff:
  "parse_suffix model = \<lparr>sr_model_name = name, sr_has_suffix = True, sr_raw_suffix = raw\<rparr> \<longleftrightarrow>
     model = name @ ''('' @ raw @ '')'' \<and> CHR ''('' \<notin> set raw"
proof
  assume "parse_suffix model = \<lparr>sr_model_name = name, sr_has_suffix = True, sr_raw_suffix = raw\<rparr>"
  then obtain after where s: "split_last CHR ''('' model = Some (name, after)"
      and e: "suffix '')'' model" and raw: "raw = butlast after"
    by (auto simp: parse_suffix_def split: option.splits if_splits)
  from s have m: "model = name @ CHR ''('' # after" "CHR ''('' \<notin> set after"
    by (auto simp: split_last_Some)
  from e m have "after \<noteq> []" "last after = CHR '')''"
    by (auto simp: suffix_paren split: if_splits)
  with raw have "after = raw @ '')''" by (metis append_butlast_last_id)
  with m show "model = name @ ''('' @ raw @ '')'' \<and> CHR ''('' \<notin> set raw" by auto
next
  assume a: "model = name @ ''('' @ raw @ '')'' \<and> CHR ''('' \<notin> set raw"
  then have "split_last CHR ''('' model = Some (name, raw @ '')'')"
    by (auto simp: split_last_Some)
  with a show "parse_suffix model =
      \<lparr>sr_model_name = name, sr_has_suffix = True, sr_raw_suffix = raw\<rparr>"
    by (auto simp: parse_suffix_def suffix_paren)
qed

lemma parse_suffix_absent:
  "\<not> sr_has_suffix (parse_suffix model) \<Longrightarrow>
     parse_suffix model = \<lparr>sr_model_name = model, sr_has_suffix = False, sr_raw_suffix = []\<rparr>"
  by (auto simp: parse_suffix_def split: option.splits prod.splits if_splits)

end
