(* ===== verification/Thinking_Validate.thy ===== *)
theory Thinking_Validate
  imports Thinking_Config
begin

text \<open>
  \<open>ValidateConfig\<close> and its helpers (internal/thinking/validate.go), with the level mapping of
  user-defined models (apply.go). The function is split into its stages, in the code's order:
  \<open>vc_convert\<close> (conversion between level and budget), \<open>vc_special\<close> (the special values),
  \<open>vc_level_check\<close>, \<open>vc_strict_check\<close>, \<open>vc_auto\<close>, \<open>vc_final\<close>; \<open>validate_config\<close> composes
  them. Log calls are left out. The lemmas of each stage say what it guarantees about the mode,
  level and budget it hands on, and the properties compose them.
\<close>

section \<open>Errors\<close>

text \<open>\<open>ThinkingError\<close> by its code and the values its message carries.\<close>

datatype thinking_error =
    ThinkingNotSupported string
  | UnknownLevel string
  | BudgetNotConvertible int
  | LevelNotSupported string "string list"
  | BudgetOutOfRange int int int

fun error_code :: "thinking_error \<Rightarrow> string" where
  "error_code (ThinkingNotSupported _) = ''THINKING_NOT_SUPPORTED''"
| "error_code (UnknownLevel _) = ''UNKNOWN_LEVEL''"
| "error_code (BudgetNotConvertible _) = ''UNKNOWN_LEVEL''"
| "error_code (LevelNotSupported _ _) = ''LEVEL_NOT_SUPPORTED''"
| "error_code (BudgetOutOfRange _ _ _) = ''BUDGET_OUT_OF_RANGE''"

section \<open>Provider families\<close>

definition is_budget_capable_provider :: "string \<Rightarrow> bool" where
  "is_budget_capable_provider p \<longleftrightarrow>
     p = ''gemini'' \<or> p = ''gemini-cli'' \<or> p = ''antigravity'' \<or> p = ''claude''"

definition is_gemini_family :: "string \<Rightarrow> bool" where
  "is_gemini_family p \<longleftrightarrow> p = ''gemini'' \<or> p = ''gemini-cli'' \<or> p = ''antigravity''"

definition is_openai_family :: "string \<Rightarrow> bool" where
  "is_openai_family p \<longleftrightarrow> p = ''openai'' \<or> p = ''openai-response'' \<or> p = ''codex''"

definition is_same_provider_family :: "string \<Rightarrow> string \<Rightarrow> bool" where
  "is_same_provider_family from to \<longleftrightarrow>
     (if from = to then True
      else (is_gemini_family from \<and> is_gemini_family to) \<or>
           (is_openai_family from \<and> is_openai_family to))"

section \<open>Levels\<close>

definition standard_level_order :: "string list" where
  "standard_level_order = [LevelMinimal, LevelLow, LevelMedium, LevelHigh, LevelXHigh, LevelMax]"

fun level_index_from :: "int \<Rightarrow> string \<Rightarrow> string list \<Rightarrow> int" where
  "level_index_from i level [] = -1"
| "level_index_from i level (l # ls) =
     (if equal_fold level l then i else level_index_from (i + 1) level ls)"

definition level_index :: "string \<Rightarrow> int" where
  "level_index level = level_index_from 0 level standard_level_order"

definition is_level_supported :: "string \<Rightarrow> string list \<Rightarrow> bool" where
  "is_level_supported level supported \<longleftrightarrow> list_ex (\<lambda>s. equal_fold level (trim_space s)) supported"

definition normalize_levels :: "string list \<Rightarrow> string list" where
  "normalize_levels levels = map (\<lambda>l. to_lower (trim_space l)) levels"

definition lowest_step :: "int \<Rightarrow> string \<Rightarrow> int" where
  "lowest_step best s =
     (let idx = level_index (trim_space s) in
      if idx \<noteq> -1 \<and> (best = -1 \<or> idx < best) then idx else best)"

definition lowest_supported_level :: "string list \<Rightarrow> string option" where
  "lowest_supported_level supported =
     (let best = foldl lowest_step (-1) supported in
      if best \<ge> 0 then Some (standard_level_order ! nat best) else None)"

text \<open>One pass of the loop of \<open>clampLevel\<close> over \<open>(bestIdx, bestDist)\<close>.\<close>

definition clamp_step :: "int \<Rightarrow> int \<times> int \<Rightarrow> string \<Rightarrow> int \<times> int" where
  "clamp_step pos best s =
     (let idx = level_index (trim_space s); (best_idx, best_dist) = best in
      if idx \<noteq> -1 then
        (let dist = \<bar>pos - idx\<bar> in
         if dist < best_dist \<or> (dist = best_dist \<and> idx < best_idx) then (idx, dist) else best)
      else best)"

definition clamp_level :: "string \<Rightarrow> model_info option \<Rightarrow> string" where
  "clamp_level level mi =
     (let supported = (case mi of None \<Rightarrow> [] | Some m \<Rightarrow>
                        (case mi_thinking m of None \<Rightarrow> [] | Some s \<Rightarrow> ts_levels s)) in
      if supported = [] \<or> is_level_supported level supported then level
      else let pos = level_index level in
        if pos = -1 then level
        else let best = foldl (clamp_step pos) (-1, int (length standard_level_order) + 1) supported in
          if fst best \<ge> 0 then standard_level_order ! nat (fst best) else level)"

section \<open>Budgets\<close>

definition clamp_budget :: "int \<Rightarrow> model_info option \<Rightarrow> int" where
  "clamp_budget value mi =
     (case (case mi of None \<Rightarrow> None | Some m \<Rightarrow> mi_thinking m) of
        None \<Rightarrow> value
      | Some s \<Rightarrow>
          if value = -1 then value
          else if value = 0 \<and> \<not> ts_zero_allowed s then ts_min s
          else if ts_min s = 0 \<and> ts_max s = 0 then value
          else if value < ts_min s then
            (if value = 0 \<and> ts_zero_allowed s then 0 else ts_min s)
          else if value > ts_max s then ts_max s
          else value)"

definition convert_auto_to_mid_range :: "thinking_config \<Rightarrow> thinking_support \<Rightarrow> thinking_config" where
  "convert_auto_to_mid_range c s =
     (if ts_levels s \<noteq> [] \<and> ts_min s = 0 \<and> ts_max s = 0
      then c\<lparr>cfg_mode := ModeLevel, cfg_level := LevelMedium, cfg_budget := 0\<rparr>
      else let mid = go_quot (s64 (ts_min s + ts_max s)) 2 in
        if mid \<le> 0 \<and> ts_zero_allowed s then c\<lparr>cfg_mode := ModeNone, cfg_budget := 0\<rparr>
        else if mid \<le> 0 then c\<lparr>cfg_mode := ModeBudget, cfg_budget := ts_min s\<rparr>
        else c\<lparr>cfg_mode := ModeBudget, cfg_budget := mid\<rparr>)"

section \<open>ValidateConfig\<close>

definition model_family_mismatch :: "model_info \<Rightarrow> string \<Rightarrow> string \<Rightarrow> bool" where
  "model_family_mismatch m from to =
     (let ty = to_lower (trim_space (mi_type m)) in
      ty \<noteq> [] \<and>
      ((from \<noteq> [] \<and> \<not> is_same_provider_family from ty) \<or>
       (to \<noteq> [] \<and> \<not> is_same_provider_family to ty)))"

definition allow_clamp_unsupported :: "model_info \<Rightarrow> string \<Rightarrow> string \<Rightarrow> bool" where
  "allow_clamp_unsupported m from to =
     (let cap = detect_model_capability (Some m) in
      (cap = CapabilityLevelOnly \<or> cap = CapabilityHybrid) \<and>
      (\<not> is_same_provider_family from to \<or> model_family_mismatch m from to))"

definition strict_budget :: "model_info \<Rightarrow> string \<Rightarrow> string \<Rightarrow> bool \<Rightarrow> bool" where
  "strict_budget m from to from_suffix \<longleftrightarrow>
     \<not> from_suffix \<and> from \<noteq> [] \<and> is_same_provider_family from to \<and>
     \<not> model_family_mismatch m from to"

text \<open>The switch on the capability; the flag is \<open>budgetDerivedFromLevel\<close>.\<close>

definition vc_convert :: "thinking_config \<Rightarrow> model_info \<Rightarrow> thinking_error + thinking_config \<times> bool" where
  "vc_convert c m =
     (case detect_model_capability (Some m) of
        CapabilityBudgetOnly \<Rightarrow>
          if cfg_mode c = ModeLevel \<and> cfg_level c \<noteq> LevelAuto then
            (case convert_level_to_budget (cfg_level c) of
               None \<Rightarrow> Inl (UnknownLevel (cfg_level c))
             | Some b \<Rightarrow> Inr (c\<lparr>cfg_mode := ModeBudget, cfg_budget := b, cfg_level := []\<rparr>, True))
          else Inr (c, False)
      | CapabilityLevelOnly \<Rightarrow>
          if cfg_mode c = ModeBudget then
            (case convert_budget_to_level (cfg_budget c) of
               None \<Rightarrow> Inl (BudgetNotConvertible (cfg_budget c))
             | Some l \<Rightarrow>
                 Inr (c\<lparr>cfg_mode := ModeLevel, cfg_level := clamp_level l (Some m), cfg_budget := 0\<rparr>,
                      False))
          else Inr (c, False)
      | _ \<Rightarrow> Inr (c, False))"

definition vc_special :: "thinking_config \<Rightarrow> thinking_config" where
  "vc_special c0 =
     (let c1 = (if cfg_mode c0 = ModeLevel \<and> cfg_level c0 = LevelNone
                then c0\<lparr>cfg_mode := ModeNone, cfg_budget := 0, cfg_level := []\<rparr> else c0);
          c2 = (if cfg_mode c1 = ModeLevel \<and> cfg_level c1 = LevelAuto
                then c1\<lparr>cfg_mode := ModeAuto, cfg_budget := -1, cfg_level := []\<rparr> else c1)
      in if cfg_mode c2 = ModeBudget \<and> cfg_budget c2 = 0
         then c2\<lparr>cfg_mode := ModeNone, cfg_level := []\<rparr> else c2)"

definition vc_level_check ::
  "thinking_config \<Rightarrow> model_info \<Rightarrow> thinking_support \<Rightarrow> bool \<Rightarrow> thinking_error + thinking_config" where
  "vc_level_check c m s allow_clamp =
     (if ts_levels s \<noteq> [] \<and> cfg_mode c = ModeLevel \<and>
         \<not> is_level_supported (cfg_level c) (ts_levels s)
      then let c' = (if allow_clamp then c\<lparr>cfg_level := clamp_level (cfg_level c) (Some m)\<rparr> else c) in
        if \<not> is_level_supported (cfg_level c') (ts_levels s)
        then Inl (LevelNotSupported (to_lower (cfg_level c')) (normalize_levels (ts_levels s)))
        else Inr c'
      else Inr c)"

definition vc_strict_check ::
  "thinking_config \<Rightarrow> thinking_support \<Rightarrow> bool \<Rightarrow> bool \<Rightarrow> thinking_error + thinking_config" where
  "vc_strict_check c s strict derived =
     (if strict \<and> cfg_mode c = ModeBudget \<and> \<not> derived \<and> (ts_min s \<noteq> 0 \<or> ts_max s \<noteq> 0) \<and>
         (cfg_budget c < ts_min s \<or> cfg_budget c > ts_max s \<or>
          (cfg_budget c = 0 \<and> \<not> ts_zero_allowed s))
      then Inl (BudgetOutOfRange (cfg_budget c) (ts_min s) (ts_max s))
      else Inr c)"

definition vc_auto :: "thinking_config \<Rightarrow> thinking_support \<Rightarrow> thinking_config" where
  "vc_auto c s =
     (if cfg_mode c = ModeAuto \<and> \<not> ts_dynamic_allowed s then convert_auto_to_mid_range c s else c)"

definition vc_final ::
  "thinking_config \<Rightarrow> model_info \<Rightarrow> thinking_support \<Rightarrow> string \<Rightarrow> thinking_config" where
  "vc_final c m s to =
     (if cfg_mode c = ModeNone \<and> to = ''claude'' then
        (if \<not> ts_zero_allowed s then
           (case lowest_supported_level (ts_levels s) of
              Some lowest \<Rightarrow> c\<lparr>cfg_mode := ModeLevel, cfg_budget := 0, cfg_level := lowest\<rparr>
            | None \<Rightarrow> c\<lparr>cfg_budget := 0, cfg_level := []\<rparr>)
         else c\<lparr>cfg_budget := 0, cfg_level := []\<rparr>)
      else
        let c' = (if cfg_mode c = ModeLevel then c
                  else c\<lparr>cfg_budget := clamp_budget (cfg_budget c) (Some m)\<rparr>);
            cannot_disable = \<not> ts_zero_allowed s \<and> \<not> is_level_supported LevelNone (ts_levels s)
        in if cfg_mode c' = ModeNone \<and> ts_levels s \<noteq> [] \<and> (cfg_budget c' > 0 \<or> cannot_disable)
           then (case lowest_supported_level (ts_levels s) of
                   Some lowest \<Rightarrow> c'\<lparr>cfg_level := lowest\<rparr>
                 | None \<Rightarrow> c')
           else c')"

definition model_name :: "model_info option \<Rightarrow> string" where
  "model_name mi = (case mi of None \<Rightarrow> ''unknown'' | Some m \<Rightarrow> if mi_id m \<noteq> [] then mi_id m else ''unknown'')"

definition validate_config ::
  "thinking_config \<Rightarrow> model_info option \<Rightarrow> string \<Rightarrow> string \<Rightarrow> bool \<Rightarrow>
     thinking_error + thinking_config" where
  "validate_config c mi from0 to0 from_suffix =
     (let from = to_lower (trim_space from0); to = to_lower (trim_space to0) in
      case mi of
        None \<Rightarrow> if cfg_mode c \<noteq> ModeNone then Inl (ThinkingNotSupported (model_name mi)) else Inr c
      | Some m \<Rightarrow>
        (case mi_thinking m of
           None \<Rightarrow> if cfg_mode c \<noteq> ModeNone then Inl (ThinkingNotSupported (model_name mi)) else Inr c
         | Some s \<Rightarrow>
             bindE (vc_convert c m) (\<lambda>(c1, derived).
             bindE (vc_level_check (vc_special c1) m s (allow_clamp_unsupported m from to)) (\<lambda>c2.
             bindE (vc_strict_check c2 s (strict_budget m from to from_suffix) derived) (\<lambda>c3.
             Inr (vc_final (vc_auto c3 s) m s to))))))"

section \<open>Helpers of apply.go\<close>

definition thinking_is_fully_disabled :: "thinking_config \<Rightarrow> bool" where
  "thinking_is_fully_disabled c \<longleftrightarrow> cfg_mode c = ModeNone \<and> cfg_budget c = 0 \<and> cfg_level c = []"

definition thinking_requested_off :: "thinking_config \<Rightarrow> bool" where
  "thinking_requested_off c \<longleftrightarrow>
     cfg_mode c = ModeNone \<or> (cfg_mode c = ModeBudget \<and> cfg_budget c = 0)"

definition should_map_configured_high_intent :: "string \<Rightarrow> string \<Rightarrow> model_info option \<Rightarrow> bool" where
  "should_map_configured_high_intent from0 to0 mi =
     (let from = to_lower (trim_space from0); to = to_lower (trim_space to0) in
      if from \<noteq> to then True
      else case mi of
        None \<Rightarrow> False
      | Some m \<Rightarrow> (let ty = to_lower (trim_space (mi_type m)) in
                    ty \<noteq> [] \<and> \<not> is_same_provider_family to ty))"

definition first_supported :: "string \<Rightarrow> string list \<Rightarrow> string list \<Rightarrow> string" where
  "first_supported level candidates levels =
     (case find (\<lambda>c. is_level_supported c levels) candidates of None \<Rightarrow> level | Some c \<Rightarrow> c)"

definition map_configured_high_intent :: "string \<Rightarrow> model_info option \<Rightarrow> string" where
  "map_configured_high_intent level0 mi =
     (case (case mi of None \<Rightarrow> None | Some m \<Rightarrow> mi_thinking m) of
        None \<Rightarrow> level0
      | Some s \<Rightarrow>
          if ts_levels s = [] then level0
          else let level = to_lower (trim_space level0) in
            if level = LevelXHigh then first_supported level [LevelXHigh, LevelMax, LevelHigh] (ts_levels s)
            else if level = LevelMax then first_supported level [LevelMax, LevelXHigh, LevelHigh] (ts_levels s)
            else level)"

definition normalize_user_defined_config :: "thinking_config \<Rightarrow> string \<Rightarrow> thinking_config" where
  "normalize_user_defined_config c to =
     (if cfg_mode c \<noteq> ModeLevel then c
      else if to = ''claude'' then c
      else if \<not> is_budget_capable_provider to then c
      else case convert_level_to_budget (cfg_level c) of
        None \<Rightarrow> c
      | Some b \<Rightarrow> c\<lparr>cfg_mode := ModeBudget, cfg_budget := b, cfg_level := []\<rparr>)"

section \<open>Facts about levels\<close>

lemma level_index_from_Some:
  "level_index_from i l ls = -1 \<or>
     (\<exists>k < length ls. level_index_from i l ls = i + int k \<and> equal_fold l (ls ! k))"
proof (induction ls arbitrary: i)
  case (Cons x xs)
  show ?case
  proof (cases "equal_fold l x")
    case True
    then show ?thesis by (intro disjI2 exI [of _ 0]) simp
  next
    case False
    from Cons [of "i + 1"] show ?thesis
    proof
      assume "\<exists>k < length xs. level_index_from (i + 1) l xs = i + 1 + int k \<and> equal_fold l (xs ! k)"
      then obtain k where "k < length xs" "level_index_from (i + 1) l xs = i + 1 + int k"
          "equal_fold l (xs ! k)" by blast
      with False show ?thesis by (intro disjI2 exI [of _ "Suc k"]) simp
    qed (use False in simp)
  qed
qed simp

lemma level_index_cases:
  "level_index l = -1 \<or>
     (0 \<le> level_index l \<and> level_index l < 6 \<and> equal_fold l (standard_level_order ! nat (level_index l)))"
  using level_index_from_Some [of 0 l standard_level_order]
  by (auto simp: level_index_def standard_level_order_def)

lemma level_index_bounds: "-1 \<le> level_index l" "level_index l < 6"
  using level_index_cases [of l] by auto

lemma level_index_supported:
  assumes "s \<in> set levels" and "level_index (trim_space s) = i" and "i \<noteq> -1"
  shows "is_level_supported (standard_level_order ! nat i) levels"
  using assms level_index_cases [of "trim_space s"]
  by (auto simp: is_level_supported_def list_ex_iff equal_fold_sym)

lemma level_index_order [simp]:
  "level_index LevelMinimal = 0" "level_index LevelLow = 1" "level_index LevelMedium = 2"
  "level_index LevelHigh = 3" "level_index LevelXHigh = 4" "level_index LevelMax = 5"
  by (simp_all add: level_index_def standard_level_order_def level_defs equal_fold_def ascii_lower_def)

lemma standard_level_order_nonempty: "0 \<le> i \<Longrightarrow> i < 6 \<Longrightarrow> standard_level_order ! nat i \<noteq> []"
proof -
  assume "0 \<le> i" "i < 6"
  then have "i \<in> {0, 1, 2, 3, 4, 5}" by auto
  then show ?thesis by (auto simp: standard_level_order_def level_defs)
qed

text \<open>The loop of \<open>lowestSupportedLevel\<close> returns the least index that occurs.\<close>

definition level_indices :: "string list \<Rightarrow> int set" where
  "level_indices levels = {i. i \<noteq> -1 \<and> (\<exists>s \<in> set levels. level_index (trim_space s) = i)}"

lemma level_indices_simps [simp]:
  "level_indices [] = {}"
  "level_indices (s # ss) =
     (if level_index (trim_space s) = -1 then {} else {level_index (trim_space s)}) \<union> level_indices ss"
  by (auto simp: level_indices_def)

lemma level_indices_range: "i \<in> level_indices levels \<Longrightarrow> 0 \<le> i \<and> i < 6"
  using level_index_cases by (force simp: level_indices_def)

lemma level_indices_supported:
  "i \<in> level_indices levels \<Longrightarrow> is_level_supported (standard_level_order ! nat i) levels"
  by (auto simp: level_indices_def intro: level_index_supported)

lemma foldl_lowest_step:
  "(foldl lowest_step best levels = -1 \<longleftrightarrow> best = -1 \<and> level_indices levels = {}) \<and>
   (best \<noteq> -1 \<longrightarrow> foldl lowest_step best levels \<le> best) \<and>
   (foldl lowest_step best levels \<noteq> -1 \<longrightarrow>
      foldl lowest_step best levels \<in> level_indices levels \<union> {best} \<and>
      (\<forall>i \<in> level_indices levels. foldl lowest_step best levels \<le> i))"
proof (induction levels arbitrary: best)
  case (Cons s ss)
  let ?i = "level_index (trim_space s)"
  show ?case
  proof (cases "?i \<noteq> -1 \<and> (best = -1 \<or> ?i < best)")
    case True
    then have "lowest_step best s = ?i" by (simp add: lowest_step_def)
    with True Cons [of ?i] show ?thesis by auto
  next
    case False
    then have "lowest_step best s = best" by (auto simp: lowest_step_def Let_def)
    with False Cons [of best] show ?thesis by auto
  qed
qed simp

lemma lowest_supported_level_Some:
  "lowest_supported_level levels = Some l \<longleftrightarrow>
     (\<exists>i \<in> level_indices levels. (\<forall>j \<in> level_indices levels. i \<le> j) \<and> l = standard_level_order ! nat i)"
proof -
  let ?r = "foldl lowest_step (-1) levels"
  have "level_indices levels \<noteq> {} \<Longrightarrow> ?r \<in> level_indices levels \<and> (\<forall>j \<in> level_indices levels. ?r \<le> j)"
    using foldl_lowest_step [of "-1" levels] by auto
  moreover have "level_indices levels = {} \<Longrightarrow> ?r = -1"
    using foldl_lowest_step [of "-1" levels] by auto
  ultimately show ?thesis
    using level_indices_range
    by (auto simp: lowest_supported_level_def Let_def intro: order.antisym split: if_splits)
      (metis order.antisym)+
qed

lemma lowest_supported_level_supported:
  "lowest_supported_level levels = Some l \<Longrightarrow> is_level_supported l levels \<and> l \<noteq> []"
  using level_indices_supported level_indices_range standard_level_order_nonempty
  by (fastforce simp: lowest_supported_level_Some)

text \<open>The loop of \<open>clampLevel\<close> minimises the distance, and the index among equal distances.\<close>

definition nearer :: "int \<times> int \<Rightarrow> int \<times> int \<Rightarrow> bool" where
  "nearer a b \<longleftrightarrow> snd a < snd b \<or> (snd a = snd b \<and> fst a \<le> fst b)"

lemma nearer_trans: "nearer a b \<Longrightarrow> nearer b c \<Longrightarrow> nearer a c"
  by (auto simp: nearer_def)

lemma foldl_clamp_step:
  "foldl (clamp_step pos) best levels \<in> insert best ((\<lambda>i. (i, \<bar>pos - i\<bar>)) ` level_indices levels) \<and>
   nearer (foldl (clamp_step pos) best levels) best \<and>
   (\<forall>i \<in> level_indices levels. nearer (foldl (clamp_step pos) best levels) (i, \<bar>pos - i\<bar>))"
proof (induction levels arbitrary: best)
  case (Cons s ss)
  let ?i = "level_index (trim_space s)"
  let ?b = "clamp_step pos best s"
  have b: "?b = (if ?i \<noteq> -1 \<and> \<not> nearer best (?i, \<bar>pos - ?i\<bar>) then (?i, \<bar>pos - ?i\<bar>) else best)"
    by (cases best) (auto simp: clamp_step_def nearer_def Let_def)
  have near: "nearer ?b best" "?i \<noteq> -1 \<Longrightarrow> nearer ?b (?i, \<bar>pos - ?i\<bar>)"
    unfolding b by (auto simp: nearer_def)
  from Cons [of ?b] near show ?case
    unfolding foldl_Cons using b by (auto intro: nearer_trans split: if_splits)
qed (simp add: nearer_def)

text \<open>A known but unsupported level is clamped to a supported one at the least distance.\<close>

lemma clamp_level_nearest:
  assumes m: "mi_thinking m = Some s" and un: "\<not> is_level_supported level (ts_levels s)"
    and known: "level_index level \<noteq> -1" and some: "level_indices (ts_levels s) \<noteq> {}"
  obtains i where "i \<in> level_indices (ts_levels s)"
    and "clamp_level level (Some m) = standard_level_order ! nat i"
    and "\<forall>j \<in> level_indices (ts_levels s).
           \<bar>level_index level - i\<bar> < \<bar>level_index level - j\<bar> \<or>
           (\<bar>level_index level - i\<bar> = \<bar>level_index level - j\<bar> \<and> i \<le> j)"
proof -
  let ?pos = "level_index level"
  let ?start = "(-1, int (length standard_level_order) + 1)"
  let ?r = "foldl (clamp_step ?pos) ?start (ts_levels s)"
  have dist: "\<bar>?pos - j\<bar> < 6" if "j \<in> level_indices (ts_levels s)" for j
    using level_indices_range [OF that] level_index_cases [of level] known by auto
  from some obtain j where j: "j \<in> level_indices (ts_levels s)" by blast
  have "?r \<noteq> ?start"
  proof
    assume "?r = ?start"
    with foldl_clamp_step [of ?pos ?start "ts_levels s"] j
    have "nearer ?start (j, \<bar>?pos - j\<bar>)" by auto
    with dist [OF j] show False by (auto simp: nearer_def standard_level_order_def)
  qed
  then obtain i where i: "i \<in> level_indices (ts_levels s)" "?r = (i, \<bar>?pos - i\<bar>)"
    using foldl_clamp_step [of ?pos ?start "ts_levels s"] by auto
  have "ts_levels s \<noteq> []" using j by auto
  then have "clamp_level level (Some m) = standard_level_order ! nat i"
    using m un known i level_indices_range [OF i(1)] by (simp add: clamp_level_def)
  moreover have "\<forall>j \<in> level_indices (ts_levels s). nearer (i, \<bar>?pos - i\<bar>) (j, \<bar>?pos - j\<bar>)"
    using foldl_clamp_step [of ?pos ?start "ts_levels s"] i(2) by simp
  ultimately show thesis using that i(1) by (auto simp: nearer_def)
qed

section \<open>Facts about the stages\<close>

lemma vc_special_mode:
  "cfg_mode (vc_special c) = ModeBudget \<Longrightarrow> cfg_budget (vc_special c) \<noteq> 0"
  "cfg_mode (vc_special c) = ModeLevel \<Longrightarrow>
     cfg_level (vc_special c) \<noteq> LevelNone \<and> cfg_level (vc_special c) \<noteq> LevelAuto"
  by (auto simp: vc_special_def Let_def split: if_splits)

lemma vc_level_check_Inr:
  "vc_level_check c m s a = Inr c' \<Longrightarrow>
     cfg_mode c' = cfg_mode c \<and> cfg_budget c' = cfg_budget c \<and>
     (ts_levels s \<noteq> [] \<longrightarrow> cfg_mode c = ModeLevel \<longrightarrow> is_level_supported (cfg_level c') (ts_levels s))"
  by (auto simp: vc_level_check_def Let_def split: if_splits)

lemma vc_strict_check_Inr: "vc_strict_check c s a b = Inr c' \<Longrightarrow> c' = c"
  by (auto simp: vc_strict_check_def split: if_splits)

lemma vc_auto_level:
  assumes "cfg_mode c = ModeLevel \<longrightarrow> ts_levels s \<noteq> [] \<longrightarrow> is_level_supported (cfg_level c) (ts_levels s)"
    and "cfg_mode (vc_auto c s) = ModeLevel" and "ts_levels s \<noteq> []"
  shows "is_level_supported (cfg_level (vc_auto c s)) (ts_levels s) \<or>
    (cfg_mode c = ModeAuto \<and> \<not> ts_dynamic_allowed s \<and> ts_min s = 0 \<and> ts_max s = 0 \<and>
     cfg_level (vc_auto c s) = LevelMedium)"
  using assms by (auto simp: vc_auto_def convert_auto_to_mid_range_def Let_def split: if_splits)

lemma vc_auto_mode: "\<not> ts_dynamic_allowed s \<Longrightarrow> cfg_mode (vc_auto c s) \<noteq> ModeAuto"
  by (auto simp: vc_auto_def convert_auto_to_mid_range_def Let_def)

lemma vc_final_mode:
  "cfg_mode (vc_final c m s to) =
     (if cfg_mode c = ModeNone \<and> to = ''claude'' \<and> \<not> ts_zero_allowed s \<and>
         lowest_supported_level (ts_levels s) \<noteq> None
      then ModeLevel else cfg_mode c)"
  by (auto simp: vc_final_def Let_def split: option.splits)

lemma vc_final_level:
  "cfg_mode c = ModeLevel \<Longrightarrow> cfg_level (vc_final c m s to) = cfg_level c"
  by (auto simp: vc_final_def Let_def)

lemma vc_final_budget:
  "cfg_mode c = ModeBudget \<or> cfg_mode c = ModeAuto \<Longrightarrow>
     cfg_budget (vc_final c m s to) = clamp_budget (cfg_budget c) (Some m)"
  by (auto simp: vc_final_def Let_def)

lemma vc_final_claude_level:
  assumes "cfg_mode c = ModeNone" and "cfg_mode (vc_final c m s to) = ModeLevel"
  shows "is_level_supported (cfg_level (vc_final c m s to)) (ts_levels s)"
  using assms
  by (auto simp: vc_final_def Let_def dest: lowest_supported_level_supported
      split: option.splits if_splits)

text \<open>What a successful validation of a model with thinking support has gone through.\<close>

lemma validate_config_stages:
  assumes "validate_config c (Some m) from to fs = Inr c'" and "mi_thinking m = Some s"
  obtains c1 d c2 where "vc_convert c m = Inr (c1, d)"
    and "vc_level_check (vc_special c1) m s
           (allow_clamp_unsupported m (to_lower (trim_space from)) (to_lower (trim_space to))) = Inr c2"
    and "vc_strict_check c2 s
           (strict_budget m (to_lower (trim_space from)) (to_lower (trim_space to)) fs) d = Inr c2"
    and "c' = vc_final (vc_auto c2 s) m s (to_lower (trim_space to))"
  using assms by (auto simp: validate_config_def Let_def dest: vc_strict_check_Inr)

lemma clamp_budget_in_range:
  assumes "mi_thinking m = Some s" and "ts_min s \<le> ts_max s" and "b \<noteq> -1"
    and "b \<noteq> 0 \<or> \<not> ts_zero_allowed s" and "ts_min s \<noteq> 0 \<or> ts_max s \<noteq> 0"
  shows "ts_min s \<le> clamp_budget b (Some m) \<and> clamp_budget b (Some m) \<le> ts_max s"
  using assms by (auto simp: clamp_budget_def)

section \<open>Properties\<close>

text \<open>C40: The suffix parser is the inverse of writing \<open>model(value)\<close>: a model name parses to a
  suffix exactly when it is the name followed by the value in parentheses and the value has no
  opening parenthesis; otherwise the whole name is returned with no suffix.\<close>

theorem parse_suffix_inverse:
  "(parse_suffix model = \<lparr>sr_model_name = name, sr_has_suffix = True, sr_raw_suffix = raw\<rparr> \<longleftrightarrow>
      model = name @ ''('' @ raw @ '')'' \<and> CHR ''('' \<notin> set raw) \<and>
   (parse_suffix model = \<lparr>sr_model_name = model, sr_has_suffix = False, sr_raw_suffix = []\<rparr> \<longleftrightarrow>
      \<not> (CHR ''('' \<in> set model \<and> suffix '')'' model))"
proof -
  have "parse_suffix model = \<lparr>sr_model_name = model, sr_has_suffix = False, sr_raw_suffix = []\<rparr> \<longleftrightarrow>
      \<not> (CHR ''('' \<in> set model \<and> suffix '')'' model)"
  proof (cases "split_last CHR ''('' model")
    case None
    then have "CHR ''('' \<notin> set model" by (rule split_last_None [THEN iffD1])
    with None show ?thesis by (simp add: parse_suffix_def)
  next
    case (Some ab)
    then have "CHR ''('' \<in> set model" by (cases ab) (auto simp: split_last_Some)
    with Some show ?thesis by (auto simp: parse_suffix_def split: prod.splits)
  qed
  with parse_suffix_iff show ?thesis by simp
qed

text \<open>After a successful validation of a model that lists levels, a level configuration holds a
  supported level, the one exception being the fixed medium level that replaces automatic
  thinking on a level-only model.\<close>

theorem validate_config_level_supported:
  assumes "validate_config c (Some m) from to fs = Inr c'" and "mi_thinking m = Some s"
    and "ts_levels s \<noteq> []" and "cfg_mode c' = ModeLevel"
  shows "is_level_supported (cfg_level c') (ts_levels s) \<or>
    (cfg_level c' = LevelMedium \<and> \<not> ts_dynamic_allowed s \<and> ts_min s = 0 \<and> ts_max s = 0)"
proof -
  from assms obtain c1 d c2 where
      c2: "vc_level_check (vc_special c1) m s
             (allow_clamp_unsupported m (to_lower (trim_space from)) (to_lower (trim_space to))) = Inr c2"
    and c': "c' = vc_final (vc_auto c2 s) m s (to_lower (trim_space to))"
    by (auto elim: validate_config_stages)
  from vc_level_check_Inr [OF c2]
  have ok: "cfg_mode c2 = ModeLevel \<longrightarrow> ts_levels s \<noteq> [] \<longrightarrow> is_level_supported (cfg_level c2) (ts_levels s)"
    by auto
  show ?thesis
  proof (cases "cfg_mode (vc_auto c2 s) = ModeLevel")
    case True
    from vc_auto_level [OF ok True assms(3)] vc_final_level [OF True] c' show ?thesis by auto
  next
    case False
    with assms(4) c' have "cfg_mode (vc_auto c2 s) = ModeNone"
      by (auto simp: vc_final_mode split: if_splits)
    from vc_final_claude_level [OF this] assms(4) c' show ?thesis by auto
  qed
qed

lemma vc_auto_budget:
  assumes "cfg_mode c = ModeBudget \<longrightarrow> cfg_budget c \<noteq> 0" and "cfg_mode (vc_auto c s) = ModeBudget"
  shows "cfg_budget (vc_auto c s) \<noteq> 0 \<or> \<not> ts_zero_allowed s"
  using assms by (auto simp: vc_auto_def convert_auto_to_mid_range_def Let_def split: if_splits)


text \<open>Automatic thinking never survives validation on a model that does not allow it.\<close>

theorem validate_config_no_auto:
  assumes "validate_config c (Some m) from to fs = Inr c'" and "mi_thinking m = Some s"
    and "\<not> ts_dynamic_allowed s"
  shows "cfg_mode c' \<noteq> ModeAuto"
proof -
  from assms(1,2) obtain c2 where "c' = vc_final (vc_auto c2 s) m s (to_lower (trim_space to))"
    by (auto elim: validate_config_stages)
  with vc_auto_mode [OF assms(3), of c2] show ?thesis by (simp add: vc_final_mode)
qed

text \<open>A model that cannot be switched off is never handed a fully disabled configuration: when
  zero is not allowed, some standard level is listed and none is not, a successful validation
  leaves a level or a budget in place.\<close>

theorem validate_config_cannot_disable:
  assumes "validate_config c (Some m) from to fs = Inr c'" and "mi_thinking m = Some s"
    and "\<not> ts_zero_allowed s" and "lowest_supported_level (ts_levels s) = Some l"
    and "\<not> is_level_supported LevelNone (ts_levels s)"
  shows "\<not> thinking_is_fully_disabled c'"
proof
  assume d: "thinking_is_fully_disabled c'"
  have l: "l \<noteq> []" "ts_levels s \<noteq> []"
    using lowest_supported_level_supported [OF assms(4)] by (auto simp: is_level_supported_def)
  from assms(1,2) obtain c2 where c': "c' = vc_final (vc_auto c2 s) m s (to_lower (trim_space to))"
    by (auto elim: validate_config_stages)
  show False
    using d assms(3-5) l unfolding c'
    by (auto simp: vc_final_def thinking_is_fully_disabled_def Let_def split: if_splits)
qed

lemma vc_strict_reject:
  assumes "ts_min s > 0 \<or> ts_max s > 0" and "cfg_mode c = ModeBudget" and "cfg_budget c \<noteq> 0"
    and "mi_thinking m = Some s"
  shows "vc_convert c m = Inr (c, False)" and "vc_special c = c" and "vc_level_check c m s a = Inr c"
  using assms
  by (auto simp: vc_convert_def detect_model_capability_def vc_special_def vc_level_check_def Let_def)

lemma validate_config_suffix_never_rejects:
  "validate_config c mi from to True \<noteq> Inl (BudgetOutOfRange b lo hi)"
proof -
  have e: "vc_strict_check x s (strict_budget m f t True) d = Inr x" for x s m f t d
    by (simp add: vc_strict_check_def strict_budget_def)
  show ?thesis
    by (auto simp: validate_config_def e Let_def vc_convert_def vc_level_check_def
        split: option.splits capability.splits if_splits)
qed

text \<open>Strict validation rejects, suffixes clamp: a configuration taken from a model suffix never
  fails with an out-of-range budget, and a body budget outside the range of a model with
  budgets fails when source and target are of one known family.\<close>

theorem validate_config_strictness:
  assumes "mi_thinking m = Some s" and "ts_min s > 0 \<or> ts_max s > 0"
    and "cfg_mode c = ModeBudget" and "cfg_budget c \<noteq> 0"
    and "cfg_budget c < ts_min s \<or> cfg_budget c > ts_max s"
    and "strict_budget m (to_lower (trim_space from)) (to_lower (trim_space to)) False"
  shows "validate_config c (Some m) from to False =
           Inl (BudgetOutOfRange (cfg_budget c) (ts_min s) (ts_max s)) \<and>
         validate_config c (Some m) from to True \<noteq>
           Inl (BudgetOutOfRange (cfg_budget c) (ts_min s) (ts_max s))"
proof -
  have "validate_config c (Some m) from to False =
      Inl (BudgetOutOfRange (cfg_budget c) (ts_min s) (ts_max s))"
    using assms vc_strict_reject [OF assms(2-4,1)]
    by (auto simp: validate_config_def vc_strict_check_def Let_def)
  with validate_config_suffix_never_rejects show ?thesis by blast
qed

text \<open>The budget of every standard level converts back to that level, except that the largest
  level shares the conversion of the level below it, and the levels of growing budgets never
  decrease.\<close>

theorem level_budget_tables:
  "(\<forall>l b. convert_level_to_budget l = Some b \<longrightarrow>
      convert_budget_to_level b = Some (if to_lower l = LevelMax then LevelXHigh else to_lower l)) \<and>
   (\<forall>a b la lb. 1 \<le> a \<longrightarrow> a \<le> b \<longrightarrow> convert_budget_to_level a = Some la \<longrightarrow>
      convert_budget_to_level b = Some lb \<longrightarrow> level_index la \<le> level_index lb)"
proof (intro conjI allI impI)
  fix l b assume "convert_level_to_budget l = Some b"
  then show "convert_budget_to_level b = Some (if to_lower l = LevelMax then LevelXHigh else to_lower l)"
    unfolding convert_level_to_budget_def
    by (auto simp: convert_budget_to_level_def level_defs split: if_splits)
next
  fix a b :: int and la lb
  assume "1 \<le> a" "a \<le> b" "convert_budget_to_level a = Some la" "convert_budget_to_level b = Some lb"
  then show "level_index la \<le> level_index lb"
    by (auto simp: convert_budget_to_level_def split: if_splits)
qed

text \<open>C38: A known level that the model does not list is clamped to a listed level at the least
  distance in the standard order, the lower one of two equally near.\<close>

theorem clamp_level_is_nearest:
  assumes "mi_thinking m = Some s" and "\<not> is_level_supported level (ts_levels s)"
    and "level_index level \<noteq> -1" and "level_indices (ts_levels s) \<noteq> {}"
  shows "\<exists>i \<in> level_indices (ts_levels s).
    clamp_level level (Some m) = standard_level_order ! nat i \<and>
    is_level_supported (clamp_level level (Some m)) (ts_levels s) \<and>
    (\<forall>j \<in> level_indices (ts_levels s).
       \<bar>level_index level - i\<bar> < \<bar>level_index level - j\<bar> \<or>
       (\<bar>level_index level - i\<bar> = \<bar>level_index level - j\<bar> \<and> i \<le> j))"
  using clamp_level_nearest [OF assms] level_indices_supported by metis

section \<open>Witnesses\<close>

definition demo_support :: thinking_support where
  "demo_support = \<lparr>ts_min = 1024, ts_max = 32768, ts_zero_allowed = False, ts_dynamic_allowed = False,
     ts_levels = [''low'', '' High '']\<rparr>"

definition demo_model :: model_info where
  "demo_model = \<lparr>mi_id = ''demo'', mi_type = [], mi_user_defined = False, mi_thinking = Some demo_support\<rparr>"

definition demo_config :: "thinking_mode \<Rightarrow> int \<Rightarrow> string \<Rightarrow> thinking_config" where
  "demo_config mo b l = \<lparr>cfg_mode = mo, cfg_budget = b, cfg_level = l\<rparr>"

lemmas demo_eval =
  demo_support_def demo_model_def demo_config_def validate_config_def vc_convert_def vc_special_def
  vc_level_check_def vc_strict_check_def vc_auto_def vc_final_def convert_auto_to_mid_range_def
  detect_model_capability_def clamp_budget_def strict_budget_def allow_clamp_unsupported_def
  model_family_mismatch_def is_same_provider_family_def is_gemini_family_def is_openai_family_def
  is_level_supported_def lowest_supported_level_def lowest_step_def level_index_def clamp_level_def
  clamp_step_def standard_level_order_def level_defs equal_fold_def ascii_lower_def trim_eval
  go_quot_def s64_def

theorem validate_config_level_supported_witness:
  "is_level_supported ''low'' (ts_levels demo_support)"
  using validate_config_level_supported
    [of "demo_config ModeNone 0 []" demo_model "''openai''" "''claude''" False
        "demo_config ModeLevel 0 ''low''" demo_support]
  by (simp add: demo_eval)


theorem validate_config_no_auto_witness:
  "validate_config (demo_config ModeAuto (-1) []) (Some demo_model) ''openai'' ''gemini'' False =
     Inr (demo_config ModeBudget 16896 []) \<and> cfg_mode (demo_config ModeBudget 16896 []) \<noteq> ModeAuto"
proof -
  have r: "validate_config (demo_config ModeAuto (-1) []) (Some demo_model) ''openai'' ''gemini'' False =
     Inr (demo_config ModeBudget 16896 [])"
    by (simp add: demo_eval)
  with validate_config_no_auto [OF r, of demo_support] show ?thesis
    by (simp add: demo_model_def demo_support_def)
qed

theorem validate_config_cannot_disable_witness:
  "\<not> thinking_is_fully_disabled (demo_config ModeNone 1024 ''low'')"
proof -
  have r: "validate_config (demo_config ModeNone 0 []) (Some demo_model) ''openai'' ''gemini'' False =
     Inr (demo_config ModeNone 1024 ''low'')"
    by (simp add: demo_eval)
  have l: "lowest_supported_level (ts_levels demo_support) = Some LevelLow"
    and n: "\<not> is_level_supported LevelNone (ts_levels demo_support)"
    by (simp_all add: demo_eval)
  show ?thesis
    by (rule validate_config_cannot_disable [OF r _ _ l n]) (simp_all add: demo_model_def demo_support_def)
qed

theorem validate_config_strictness_witness:
  "validate_config (demo_config ModeBudget 99999 []) (Some demo_model) ''claude'' ''Claude'' False =
     Inl (BudgetOutOfRange 99999 1024 32768)"
proof -
  have st: "strict_budget demo_model (to_lower (trim_space ''claude'')) (to_lower (trim_space ''Claude'')) False"
    by (simp add: demo_eval)
  show ?thesis
    using validate_config_strictness [of demo_model demo_support "demo_config ModeBudget 99999 []",
        OF _ _ _ _ _ st]
    by (simp add: demo_model_def demo_support_def demo_config_def)
qed

theorem level_budget_tables_witness:
  "convert_budget_to_level 24576 = Some LevelHigh \<and> level_index LevelMinimal \<le> level_index LevelHigh"
proof
  have h: "convert_level_to_budget ''HIGH'' = Some 24576" "to_lower ''HIGH'' = LevelHigh"
    by (simp_all add: convert_level_to_budget_def ascii_lower_def level_defs)
  show "convert_budget_to_level 24576 = Some LevelHigh"
    using level_budget_tables h by (force simp: level_defs)
  have m: "convert_budget_to_level 1 = Some LevelMinimal" "convert_budget_to_level 24576 = Some LevelHigh"
    by (simp_all add: convert_budget_to_level_def)
  show "level_index LevelMinimal \<le> level_index LevelHigh"
    using level_budget_tables [THEN conjunct2, rule_format, of 1 24576, OF _ _ m] by simp
qed

theorem clamp_level_is_nearest_witness:
  "is_level_supported (clamp_level LevelMax (Some demo_model)) (ts_levels demo_support)"
proof -
  have un: "\<not> is_level_supported LevelMax (ts_levels demo_support)"
    by (simp add: demo_eval)
  have i: "level_indices (ts_levels demo_support) = {1, 3}"
    by (auto simp: demo_eval)
  show ?thesis
    using clamp_level_is_nearest [of demo_model demo_support LevelMax] un i
    by (auto simp: demo_model_def)
qed

end
