(* ===== verification/Quota_Types.thy ===== *)
theory Quota_Types
  imports Go_Prelude
begin

text \<open>
  The domain types of the quota monitor (internal/quotaalert/types.go) and their validation.
  A string type with named constants is a datatype with one constructor per constant and one for
  any other string; a provider stays a string. Each \<open>Normalize\<close> and \<open>Validate\<close> is a function
  into an error or a value, with the checks in the code's order. Hashing, the printing of floats
  and of times are the fields of a \<open>digest\<close>, which the definitions that hash take as an argument.
  The lemmas show that every normalised value satisfies its well-formedness predicate and is a
  fixed point, and that the keys separate identities.
\<close>

section \<open>Constants\<close>

definition DefaultPollInterval :: duration where "DefaultPollInterval = 5 * minute"
definition MinPollInterval :: duration where "MinPollInterval = minute"
definition MaxPollInterval :: duration where "MaxPollInterval = 24 * hour"
definition DefaultWarningThreshold :: go_float where "DefaultWarningThreshold = flt_of_int 10"
definition DefaultConfirmationSamples :: int where "DefaultConfirmationSamples = 1"
definition MaxConfirmationSamples :: int where "MaxConfirmationSamples = 10"
definition DefaultRecoveryMargin :: go_float where "DefaultRecoveryMargin = flt_of_int 0"
definition DefaultDegradedFailureThreshold :: int where "DefaultDegradedFailureThreshold = 3"
definition MaxDegradedFailureThreshold :: int where "MaxDegradedFailureThreshold = 100"
definition DefaultPageSize :: int where "DefaultPageSize = 50"
definition MaxPageSize :: int where "MaxPageSize = 100"
definition MaxFieldLength :: nat where "MaxFieldLength = 256"
definition MaxNotificationBatchEvents :: nat where "MaxNotificationBatchEvents = 100"

lemmas quota_consts =
  DefaultPollInterval_def MinPollInterval_def MaxPollInterval_def DefaultWarningThreshold_def
  DefaultConfirmationSamples_def MaxConfirmationSamples_def DefaultRecoveryMargin_def
  DefaultDegradedFailureThreshold_def MaxDegradedFailureThreshold_def DefaultPageSize_def
  MaxPageSize_def MaxFieldLength_def MaxNotificationBatchEvents_def time_simps

section \<open>Errors\<close>

text \<open>By what is wrong and the name of the field, as the messages give them.\<close>

datatype quota_error =
    Required string
  | TooLong string
  | OutOfRange string
  | Negative string
  | Invalid string string
  | Duplicate string string
  | Conflict string
  | BadTransition string string string
  | ProviderMismatch string string
  | StoreFailed string

type_synonym 'a result = "quota_error + 'a"

text \<open>\<open>check b e\<close> is \<open>if b { return e }\<close>.\<close>

definition reject :: "bool \<Rightarrow> quota_error \<Rightarrow> unit result" where
  "reject b e = (if b then Inl e else Inr ())"

lemma reject_Inr [simp]: "reject b e = Inr u \<longleftrightarrow> \<not> b"
  by (simp add: reject_def)

lemma reject_False [simp]: "reject False e = Inr ()"
  by (simp add: reject_def)

lemma reject_True [simp]: "reject True e = Inl e"
  by (simp add: reject_def)

section \<open>Providers and percentages\<close>

definition supported_providers :: "string list" where
  "supported_providers =
     [''claude'', ''codex'', ''gemini-cli'', ''antigravity'', ''kimi'', ''xai'', ''kiro'']"

definition provider_validate :: "string \<Rightarrow> unit result" where
  "provider_validate p = reject (p \<notin> set supported_providers) (Invalid ''provider'' p)"

definition percentage_validate :: "go_float \<Rightarrow> string \<Rightarrow> unit result" where
  "percentage_validate p field =
     reject (p = NaN \<or> (\<exists>s \<in> {False, True}. p = Inf s) \<or> flt p (flt_of_int 0) \<or> flt (flt_of_int 100) p)
       (OutOfRange field)"

fun normalize_percentage :: "go_float \<Rightarrow> go_float result" where
  "normalize_percentage NaN = Inl (OutOfRange ''quota percentage'')"
| "normalize_percentage (Inf s) = Inl (OutOfRange ''quota percentage'')"
| "normalize_percentage (Fin a) = Inr (Fin (min (100 * 2 ^ 1074) (max 0 a)))"

definition pct_ok :: "go_float \<Rightarrow> bool" where
  "pct_ok p = (case p of Fin a \<Rightarrow> 0 \<le> a \<and> a \<le> 100 * 2 ^ 1074 | _ \<Rightarrow> False)"

lemma percentage_validate_ok: "percentage_validate p field = Inr u \<longleftrightarrow> pct_ok p"
  by (cases p) (auto simp: percentage_validate_def pct_ok_def flt_def flt_of_int_def)

lemma normalize_percentage_ok: "normalize_percentage p = Inr q \<Longrightarrow> pct_ok q"
  by (cases p) (auto simp: pct_ok_def)

lemma normalize_percentage_id: "pct_ok p \<Longrightarrow> normalize_percentage p = Inr p"
  by (cases p) (auto simp: pct_ok_def)

lemma pct_ok_zero [simp]: "pct_ok (flt_of_int 0)"
  by (simp add: pct_ok_def flt_of_int_def)

lemma feq_iff [simp]: "pct_ok p \<Longrightarrow> pct_ok q \<Longrightarrow> feq p q \<longleftrightarrow> p = q"
  by (cases p; cases q) (auto simp: pct_ok_def feq_def)

lemma flt_zero_iff: "pct_ok p \<Longrightarrow> flt (flt_of_int 0) p \<longleftrightarrow> p \<noteq> flt_of_int 0"
  by (cases p) (auto simp: pct_ok_def flt_def flt_of_int_def)

section \<open>Settings\<close>

record provider_override =
  ov_provider :: string
  ov_enabled :: bool
  ov_threshold :: "go_float option"

record telegram_destination =
  tg_enabled :: bool
  tg_chat_id :: string
  tg_token_configured :: bool

record settings =
  set_revision :: int
  set_enabled :: bool
  set_poll_interval :: duration
  set_threshold :: go_float
  set_notify_recovery :: bool
  set_reminder :: duration
  set_confirmation :: int
  set_margin :: go_float
  set_degraded :: int
  set_overrides :: "provider_override list"
  set_telegram :: telegram_destination

definition default_settings :: settings where
  "default_settings =
     \<lparr>set_revision = 0, set_enabled = False, set_poll_interval = DefaultPollInterval,
      set_threshold = DefaultWarningThreshold, set_notify_recovery = False, set_reminder = 0,
      set_confirmation = DefaultConfirmationSamples, set_margin = DefaultRecoveryMargin,
      set_degraded = DefaultDegradedFailureThreshold, set_overrides = [],
      set_telegram = \<lparr>tg_enabled = False, tg_chat_id = [], tg_token_configured = False\<rparr>\<rparr>"

definition override_validate :: "provider_override \<Rightarrow> unit result" where
  "override_validate ov =
     bindE (provider_validate (ov_provider ov)) (\<lambda>_.
     case ov_threshold ov of
       None \<Rightarrow> Inr ()
     | Some t \<Rightarrow> percentage_validate t ''provider warning threshold'')"

definition telegram_validate :: "telegram_destination \<Rightarrow> unit result" where
  "telegram_validate d =
     (if length (tg_chat_id d) > MaxFieldLength then Inl (TooLong ''telegram chat ID'')
      else if \<not> tg_enabled d then Inr ()
      else if trim_space (tg_chat_id d) = [] then Inl (Required ''telegram chat ID'')
      else if \<not> tg_token_configured d then Inl (Required ''telegram bot token'')
      else Inr ())"

text \<open>The body of the loop over the overrides; the state is the set of providers seen.\<close>

definition override_step :: "go_float \<Rightarrow> string list \<Rightarrow> provider_override \<Rightarrow> string list result" where
  "override_step margin seen ov =
     bindE (override_validate ov) (\<lambda>_.
     bindE (reject (ov_provider ov \<in> set seen) (Duplicate ''provider override'' (ov_provider ov))) (\<lambda>_.
     bindE (case ov_threshold ov of
              None \<Rightarrow> Inr ()
            | Some t \<Rightarrow> reject (flt (flt_of_int 100) (fadd t margin)) (OutOfRange ''provider warning threshold plus recovery margin'')) (\<lambda>_.
     Inr (ov_provider ov # seen))))"

definition settings_validate :: "settings \<Rightarrow> unit result" where
  "settings_validate s =
     bindE (reject (set_revision s < 0) (Negative ''settings revision'')) (\<lambda>_.
     bindE (reject (set_poll_interval s < MinPollInterval \<or> set_poll_interval s > MaxPollInterval)
              (OutOfRange ''poll interval'')) (\<lambda>_.
     bindE (percentage_validate (set_threshold s) ''warning threshold'') (\<lambda>_.
     bindE (reject (set_reminder s < 0) (Negative ''reminder interval'')) (\<lambda>_.
     bindE (reject (set_reminder s > 0 \<and> set_reminder s < set_poll_interval s) (OutOfRange ''reminder interval'')) (\<lambda>_.
     bindE (reject (set_confirmation s < 1 \<or> set_confirmation s > MaxConfirmationSamples)
              (OutOfRange ''confirmation samples'')) (\<lambda>_.
     bindE (percentage_validate (set_margin s) ''recovery margin'') (\<lambda>_.
     bindE (reject (flt (flt_of_int 100) (fadd (set_threshold s) (set_margin s))) (OutOfRange ''warning threshold plus recovery margin'')) (\<lambda>_.
     bindE (reject (set_degraded s < 0 \<or> set_degraded s > MaxDegradedFailureThreshold)
              (OutOfRange ''degraded failure threshold'')) (\<lambda>_.
     bindE (foldE (override_step (set_margin s)) [] (set_overrides s)) (\<lambda>_.
     telegram_validate (set_telegram s)))))))))))"

section \<open>Identities\<close>

record state_identity =
  si_auth :: string
  si_provider :: string
  si_resource :: string
  si_window :: string

definition identity_normalize :: "state_identity \<Rightarrow> state_identity result" where
  "identity_normalize i0 =
     (let i = \<lparr>si_auth = trim_space (si_auth i0), si_provider = to_lower (trim_space (si_provider i0)),
               si_resource = trim_space (si_resource i0), si_window = trim_space (si_window i0)\<rparr> in
      bindE (reject (si_auth i = []) (Required ''persisted auth ID'')) (\<lambda>_.
      bindE (reject (length (si_auth i) > MaxFieldLength) (TooLong ''persisted auth ID'')) (\<lambda>_.
      bindE (provider_validate (si_provider i)) (\<lambda>_.
      bindE (reject (si_resource i = []) (Required ''quota resource'')) (\<lambda>_.
      bindE (reject (length (si_resource i) > MaxFieldLength) (TooLong ''quota resource'')) (\<lambda>_.
      bindE (reject (si_window i = []) (Required ''quota window'')) (\<lambda>_.
      bindE (reject (length (si_window i) > MaxFieldLength) (TooLong ''quota window'')) (\<lambda>_.
      Inr i))))))))"

text \<open>Hashing and printing: SHA-256 in hexadecimal, shortest floats, RFC 3339 times.\<close>

record digest =
  sha256_hex :: "string \<Rightarrow> string"
  format_float :: "go_float \<Rightarrow> string"
  format_time :: "instant \<Rightarrow> string"

definition identity_fields :: "state_identity \<Rightarrow> string list" where
  "identity_fields i = [si_auth i, si_provider i, si_resource i, si_window i]"

definition stable_key :: "digest \<Rightarrow> state_identity \<Rightarrow> string result" where
  "stable_key D i =
     bindE (identity_normalize i) (\<lambda>n. Inr (sha256_hex D (hash_fields (identity_fields n))))"

section \<open>Collection health\<close>

datatype collection_health = CollectionReliable | CollectionUnknown | OtherHealth string

datatype failure_code =
    FailureNone | FailureCollectorMissing | FailureCredentialMissing | FailureCredentialRejected
  | FailureUpstreamHTTP | FailureTimeout | FailureTransport | FailureDecode | FailureInternal
  | OtherFailure string

datatype alert_state = AlertHealthy | AlertWarning | AlertExhausted | AlertUnknown | OtherAlert string

datatype transition_kind =
    TransitionWarning | TransitionExhausted | TransitionRecovery | TransitionReminder
  | TransitionMonitorDegraded | OtherKind string

fun alert_string :: "alert_state \<Rightarrow> string" where
  "alert_string AlertHealthy = ''healthy''"
| "alert_string AlertWarning = ''warning''"
| "alert_string AlertExhausted = ''exhausted''"
| "alert_string AlertUnknown = ''unknown''"
| "alert_string (OtherAlert s) = s"

fun kind_string :: "transition_kind \<Rightarrow> string" where
  "kind_string TransitionWarning = ''warning''"
| "kind_string TransitionExhausted = ''exhausted''"
| "kind_string TransitionRecovery = ''recovery''"
| "kind_string TransitionReminder = ''reminder''"
| "kind_string TransitionMonitorDegraded = ''monitor_degraded''"
| "kind_string (OtherKind s) = s"

fun health_validate :: "collection_health \<Rightarrow> unit result" where
  "health_validate (OtherHealth s) = Inl (Invalid ''collection health'' s)"
| "health_validate _ = Inr ()"

fun failure_validate :: "failure_code \<Rightarrow> unit result" where
  "failure_validate (OtherFailure s) = Inl (Invalid ''collection failure code'' s)"
| "failure_validate _ = Inr ()"

fun alert_validate :: "alert_state \<Rightarrow> unit result" where
  "alert_validate (OtherAlert s) = Inl (Invalid ''alert state'' s)"
| "alert_validate _ = Inr ()"

fun kind_validate :: "transition_kind \<Rightarrow> unit result" where
  "kind_validate (OtherKind s) = Inl (Invalid ''transition kind'' s)"
| "kind_validate _ = Inr ()"

record health_key =
  hk_auth :: string
  hk_provider :: string

definition health_key_normalize :: "health_key \<Rightarrow> health_key result" where
  "health_key_normalize k0 =
     (let k = k0\<lparr>hk_auth := trim_space (hk_auth k0)\<rparr> in
      bindE (reject (hk_auth k = []) (Required ''collection health auth ID'')) (\<lambda>_.
      bindE (reject (length (hk_auth k) > MaxFieldLength) (TooLong ''collection health auth ID'')) (\<lambda>_.
      bindE (provider_validate (hk_provider k)) (\<lambda>_. Inr k))))"

record health_record =
  hr_key :: health_key
  hr_failures :: int
  hr_code :: failure_code
  hr_updated_at :: instant

definition health_record_normalize :: "health_record \<Rightarrow> health_record result" where
  "health_record_normalize h =
     bindE (health_key_normalize (hr_key h)) (\<lambda>key.
     bindE (reject (hr_failures h \<le> 0) (Required ''consecutive failure'')) (\<lambda>_.
     bindE (failure_validate (hr_code h)) (\<lambda>_.
     bindE (reject (hr_code h = FailureNone) (Required ''collection health failure code'')) (\<lambda>_.
     bindE (reject (hr_updated_at h = 0) (Required ''collection health updated time'')) (\<lambda>_.
     Inr (h\<lparr>hr_key := key, hr_updated_at := trunc_us (hr_updated_at h)\<rparr>))))))"

section \<open>Observations\<close>

record observation =
  ob_identity :: state_identity
  ob_label :: string
  ob_health :: collection_health
  ob_failure :: failure_code
  ob_remaining :: go_float
  ob_remaining_known :: bool
  ob_explicit :: bool
  ob_reset_at :: instant
  ob_reset_known :: bool
  ob_observed_at :: instant

definition zero_pct :: go_float where "zero_pct = flt_of_int 0"

text \<open>The known reset time, truncated, or the zero time when it is not known.\<close>

definition reset_normalize :: "bool \<Rightarrow> instant \<Rightarrow> string \<Rightarrow> instant result" where
  "reset_normalize known at field =
     (if known then bindE (reject (at = 0) (Required field)) (\<lambda>_. Inr (trunc_us at)) else Inr 0)"

definition label_normalize :: "string \<Rightarrow> string result" where
  "label_normalize l0 =
     (let l = trim_space l0 in
      bindE (reject (l = []) (Required ''auth label'')) (\<lambda>_.
      bindE (reject (length l > MaxFieldLength) (TooLong ''auth label'')) (\<lambda>_. Inr l)))"

text \<open>The known remaining quota, bounded, or zero when it is not known.\<close>

definition remaining_normalize :: "bool \<Rightarrow> go_float \<Rightarrow> go_float result" where
  "remaining_normalize known rem = (if known then normalize_percentage rem else Inr zero_pct)"

definition observation_normalize :: "observation \<Rightarrow> observation result" where
  "observation_normalize ob =
     bindE (identity_normalize (ob_identity ob)) (\<lambda>identity.
     bindE (label_normalize (ob_label ob)) (\<lambda>label.
     bindE (health_validate (ob_health ob)) (\<lambda>_.
     bindE (reject (ob_observed_at ob = 0) (Required ''observation time'')) (\<lambda>_.
     bindE (reset_normalize (ob_reset_known ob) (ob_reset_at ob) ''known reset time'') (\<lambda>reset_at.
     bindE (failure_validate (ob_failure ob)) (\<lambda>_.
     let o1 = ob\<lparr>ob_identity := identity, ob_label := label,
                ob_observed_at := trunc_us (ob_observed_at ob), ob_reset_at := reset_at\<rparr> in
     if ob_health o1 = CollectionUnknown then
       bindE (reject (ob_remaining_known o1 \<or> ob_explicit o1) (Conflict ''unknown collection'')) (\<lambda>_.
       Inr (o1\<lparr>ob_remaining := zero_pct\<rparr>))
     else
       bindE (reject (ob_failure o1 \<noteq> FailureNone) (Conflict ''reliable collection'')) (\<lambda>_.
       bindE (reject (\<not> ob_remaining_known o1 \<and> \<not> ob_explicit o1) (Required ''remaining quota'')) (\<lambda>_.
       bindE (remaining_normalize (ob_remaining_known o1) (ob_remaining o1)) (\<lambda>rem.
       bindE (reject (ob_explicit o1 \<and> ob_remaining_known o1 \<and> flt zero_pct rem)
                (Conflict ''explicit exhaustion'')) (\<lambda>_.
       Inr (o1\<lparr>ob_remaining := rem\<rparr>)))))))))))"

section \<open>Current states\<close>

record current_state =
  cs_identity :: state_identity
  cs_label :: string
  cs_alert :: alert_state
  cs_health :: collection_health
  cs_failure :: failure_code
  cs_last_reliable :: instant
  cs_below :: int
  cs_remaining :: go_float
  cs_remaining_known :: bool
  cs_reset_at :: instant
  cs_reset_known :: bool
  cs_observed_at :: instant
  cs_transitioned_at :: instant
  cs_updated_at :: instant
  cs_revision :: int

text \<open>\<open>Normalize\<close> in two parts: up to the order of the timestamps, and the rest.\<close>

definition state_normalize_head :: "current_state \<Rightarrow> current_state result" where
  "state_normalize_head s =
     bindE (identity_normalize (cs_identity s)) (\<lambda>identity.
     bindE (label_normalize (cs_label s)) (\<lambda>label.
     bindE (alert_validate (cs_alert s)) (\<lambda>_.
     bindE (health_validate (cs_health s)) (\<lambda>_.
     bindE (failure_validate (cs_failure s)) (\<lambda>_.
     bindE (reject (cs_health s = CollectionReliable \<and> cs_failure s \<noteq> FailureNone)
              (Conflict ''reliable current state'')) (\<lambda>_.
     bindE (reject (cs_below s < 0) (Negative ''consecutive-below counter'')) (\<lambda>_.
     bindE (reject (cs_revision s < 0) (Negative ''current state revision'')) (\<lambda>_.
     bindE (reject (cs_observed_at s = 0 \<or> cs_transitioned_at s = 0 \<or> cs_updated_at s = 0)
              (Required ''current state timestamps'')) (\<lambda>_.
     let s1 = s\<lparr>cs_identity := identity, cs_label := label,
                cs_last_reliable := trunc_us (cs_last_reliable s),
                cs_observed_at := trunc_us (cs_observed_at s),
                cs_transitioned_at := trunc_us (cs_transitioned_at s),
                cs_updated_at := trunc_us (cs_updated_at s)\<rparr> in
     bindE (reject (cs_transitioned_at s1 > cs_observed_at s1 \<or> cs_observed_at s1 > cs_updated_at s1)
              (OutOfRange ''current state timestamps'')) (\<lambda>_.
     Inr s1))))))))))"

definition state_normalize_tail :: "current_state \<Rightarrow> current_state result" where
  "state_normalize_tail s =
     bindE (reject (cs_health s = CollectionReliable \<and> cs_alert s \<noteq> AlertExhausted \<and> \<not> cs_remaining_known s)
              (Required ''known remaining quota'')) (\<lambda>_.
     bindE (remaining_normalize (cs_remaining_known s) (cs_remaining s)) (\<lambda>rem.
     bindE (reset_normalize (cs_reset_known s) (cs_reset_at s) ''known current state reset time'') (\<lambda>reset_at.
     bindE (reject (cs_alert s = AlertUnknown \<and> cs_health s \<noteq> CollectionUnknown)
              (Conflict ''unknown alert state health'')) (\<lambda>_.
     bindE (reject (cs_alert s = AlertUnknown \<and> cs_remaining_known s)
              (Conflict ''unknown alert state remaining'')) (\<lambda>_.
     bindE (reject (cs_remaining_known s \<and> feq rem zero_pct \<and> cs_alert s \<noteq> AlertExhausted)
              (Required ''exhausted alert state'')) (\<lambda>_.
     bindE (reject (cs_alert s = AlertExhausted \<and> cs_remaining_known s \<and> flt zero_pct rem)
              (Conflict ''exhausted alert state'')) (\<lambda>_.
     Inr (s\<lparr>cs_remaining := rem, cs_reset_at := reset_at\<rparr>))))))))"

definition state_normalize :: "current_state \<Rightarrow> current_state result" where
  "state_normalize s = bindE (state_normalize_head s) state_normalize_tail"

section \<open>Transition events\<close>

record transition_event =
  ev_id :: string
  ev_identity :: state_identity
  ev_label :: string
  ev_kind :: transition_kind
  ev_from :: alert_state
  ev_to :: alert_state
  ev_remaining :: go_float
  ev_remaining_known :: bool
  ev_reset_at :: instant
  ev_reset_known :: bool
  ev_occurred_at :: instant
  ev_acknowledged_at :: instant

fun valid_transition :: "transition_kind \<Rightarrow> alert_state \<Rightarrow> alert_state \<Rightarrow> bool" where
  "valid_transition TransitionWarning from to \<longleftrightarrow>
     to = AlertWarning \<and> (from = AlertHealthy \<or> from = AlertUnknown)"
| "valid_transition TransitionExhausted from to \<longleftrightarrow>
     to = AlertExhausted \<and> (from = AlertHealthy \<or> from = AlertWarning \<or> from = AlertUnknown)"
| "valid_transition TransitionRecovery from to \<longleftrightarrow>
     to = AlertHealthy \<and> (from = AlertWarning \<or> from = AlertExhausted)"
| "valid_transition TransitionReminder from to \<longleftrightarrow>
     from = to \<and> (to = AlertWarning \<or> to = AlertExhausted)"
| "valid_transition TransitionMonitorDegraded from to \<longleftrightarrow> from = to \<and> to = AlertUnknown"
| "valid_transition (OtherKind s) from to \<longleftrightarrow> False"

definition event_remaining :: "transition_event \<Rightarrow> go_float result" where
  "event_remaining e =
     (if ev_remaining_known e then
        bindE (percentage_validate (ev_remaining e) ''event remaining quota'') (\<lambda>_.
        bindE (reject (feq (ev_remaining e) zero_pct \<and> ev_to e \<noteq> AlertExhausted)
                 (Required ''exhausted event target'')) (\<lambda>_.
        bindE (reject (ev_to e = AlertExhausted \<and> flt zero_pct (ev_remaining e))
                 (Conflict ''exhausted event target'')) (\<lambda>_.
        Inr (ev_remaining e))))
      else Inr zero_pct)"

definition event_normalize :: "transition_event \<Rightarrow> transition_event result" where
  "event_normalize e =
     (let eid = trim_space (ev_id e) in
      bindE (reject (eid = []) (Required ''transition event ID'')) (\<lambda>_.
      bindE (reject (length eid > MaxFieldLength) (TooLong ''transition event ID'')) (\<lambda>_.
      bindE (identity_normalize (ev_identity e)) (\<lambda>identity.
      bindE (label_normalize (ev_label e)) (\<lambda>label.
      bindE (kind_validate (ev_kind e)) (\<lambda>_.
      bindE (alert_validate (ev_from e)) (\<lambda>_.
      bindE (alert_validate (ev_to e)) (\<lambda>_.
      bindE (reject (\<not> valid_transition (ev_kind e) (ev_from e) (ev_to e))
               (BadTransition (kind_string (ev_kind e)) (alert_string (ev_from e)) (alert_string (ev_to e)))) (\<lambda>_.
      bindE (event_remaining e) (\<lambda>rem.
      bindE (reset_normalize (ev_reset_known e) (ev_reset_at e) ''known event reset time'') (\<lambda>reset_at.
      bindE (reject (ev_occurred_at e = 0) (Required ''transition event time'')) (\<lambda>_.
      Inr (e\<lparr>ev_id := eid, ev_identity := identity, ev_label := label, ev_remaining := rem,
              ev_reset_at := reset_at, ev_occurred_at := trunc_us (ev_occurred_at e),
              ev_acknowledged_at := trunc_us (ev_acknowledged_at e)\<rparr>)))))))))))))"

section \<open>Normal forms\<close>

text \<open>What a normalised value satisfies, and that normalising it again changes nothing.\<close>

definition field_ok :: "string \<Rightarrow> bool" where
  "field_ok s \<longleftrightarrow> s \<noteq> [] \<and> length s \<le> MaxFieldLength \<and> trim_space s = s"

definition identity_wf :: "state_identity \<Rightarrow> bool" where
  "identity_wf i \<longleftrightarrow> field_ok (si_auth i) \<and> si_provider i \<in> set supported_providers \<and>
     field_ok (si_resource i) \<and> field_ok (si_window i)"

lemma supported_provider_canonical:
  "p \<in> set supported_providers \<Longrightarrow> to_lower (trim_space p) = p"
  by (auto simp: supported_providers_def trim_eval ascii_lower_def)

lemma identity_normalize_wf: "identity_normalize i = Inr n \<Longrightarrow> identity_wf n"
  by (auto simp: identity_normalize_def identity_wf_def field_ok_def provider_validate_def Let_def)

lemma identity_normalize_id: "identity_wf i \<Longrightarrow> identity_normalize i = Inr i"
  by (auto simp: identity_normalize_def identity_wf_def field_ok_def provider_validate_def
      supported_provider_canonical)

lemma identity_normalize_idem: "identity_normalize i = Inr n \<Longrightarrow> identity_normalize n = Inr n"
  by (blast intro: identity_normalize_id identity_normalize_wf)

lemma label_normalize_ok: "label_normalize l = Inr n \<Longrightarrow> field_ok n"
  by (auto simp: label_normalize_def field_ok_def Let_def)

lemma label_normalize_id: "field_ok l \<Longrightarrow> label_normalize l = Inr l"
  by (auto simp: label_normalize_def field_ok_def Let_def)

lemma reset_normalize_Inr:
  "reset_normalize k at f = Inr r \<longleftrightarrow> (if k then at \<noteq> 0 \<and> r = trunc_us at else r = 0)"
  by (auto simp: reset_normalize_def)

lemma health_validate_Inr: "health_validate h = Inr u \<longleftrightarrow> h = CollectionReliable \<or> h = CollectionUnknown"
  by (cases h) auto

lemma failure_validate_Inr: "failure_validate c = Inr u \<longleftrightarrow> (\<forall>s. c \<noteq> OtherFailure s)"
  by (cases c) auto

lemma alert_validate_Inr: "alert_validate a = Inr u \<longleftrightarrow> (\<forall>s. a \<noteq> OtherAlert s)"
  by (cases a) auto

lemma kind_validate_Inr: "kind_validate k = Inr u \<longleftrightarrow> (\<forall>s. k \<noteq> OtherKind s)"
  by (cases k) auto

lemmas validate_Inr =
  health_validate_Inr failure_validate_Inr alert_validate_Inr kind_validate_Inr

definition reset_wf :: "bool \<Rightarrow> instant \<Rightarrow> bool" where
  "reset_wf known at \<longleftrightarrow> trunc_us at = at \<and> (known \<or> at = 0)"

lemma pct_ok_zero_pct [simp]: "pct_ok zero_pct"
  by (simp add: zero_pct_def)

lemma flt_zero_pct [simp]: "pct_ok p \<Longrightarrow> flt zero_pct p \<longleftrightarrow> p \<noteq> zero_pct"
  by (simp add: zero_pct_def flt_zero_iff)

lemma reset_normalize_wf: "reset_normalize k at f = Inr r \<Longrightarrow> reset_wf k r"
  by (auto simp: reset_normalize_Inr reset_wf_def split: if_splits)

definition remaining_wf :: "bool \<Rightarrow> go_float \<Rightarrow> bool" where
  "remaining_wf known rem \<longleftrightarrow> pct_ok rem \<and> (known \<or> rem = zero_pct)"

lemma remaining_normalize_wf: "remaining_normalize k p = Inr r \<Longrightarrow> remaining_wf k r"
  by (auto simp: remaining_normalize_def remaining_wf_def dest: normalize_percentage_ok split: if_splits)

lemma remaining_normalize_id: "remaining_wf k r \<Longrightarrow> remaining_normalize k r = Inr r"
  by (auto simp: remaining_normalize_def remaining_wf_def normalize_percentage_id)

lemma remaining_wf_pct: "remaining_wf k r \<Longrightarrow> pct_ok r"
  by (simp add: remaining_wf_def)

lemma reset_normalize_id: "reset_wf k at \<Longrightarrow> (k \<longrightarrow> at \<noteq> 0) \<Longrightarrow> reset_normalize k at f = Inr at"
  by (auto simp: reset_normalize_def reset_wf_def)

definition observation_wf :: "observation \<Rightarrow> bool" where
  "observation_wf ob \<longleftrightarrow>
     identity_wf (ob_identity ob) \<and> field_ok (ob_label ob) \<and>
     (ob_health ob = CollectionReliable \<or> ob_health ob = CollectionUnknown) \<and>
     (\<forall>s. ob_failure ob \<noteq> OtherFailure s) \<and> trunc_us (ob_observed_at ob) = ob_observed_at ob \<and>
     reset_wf (ob_reset_known ob) (ob_reset_at ob) \<and> 
     remaining_wf (ob_remaining_known ob) (ob_remaining ob) \<and>
     (ob_health ob = CollectionUnknown \<longrightarrow> \<not> ob_remaining_known ob \<and> \<not> ob_explicit ob) \<and>
     (ob_health ob = CollectionReliable \<longrightarrow>
        ob_failure ob = FailureNone \<and> (ob_remaining_known ob \<or> ob_explicit ob) \<and>
        (ob_explicit ob \<longrightarrow> ob_remaining ob = zero_pct))"

lemma observation_normalize_wf: "observation_normalize ob = Inr n \<Longrightarrow> observation_wf n"
proof -
  assume a: "observation_normalize ob = Inr n"
  then obtain i l at where
      h: "identity_normalize (ob_identity ob) = Inr i" "label_normalize (ob_label ob) = Inr l"
        "ob_health ob = CollectionReliable \<or> ob_health ob = CollectionUnknown"
        "reset_normalize (ob_reset_known ob) (ob_reset_at ob) ''known reset time'' = Inr at"
        "\<forall>s. ob_failure ob \<noteq> OtherFailure s"
    by (simp add: observation_normalize_def validate_Inr) blast
  note w = identity_normalize_wf [OF h(1)] label_normalize_ok [OF h(2)] reset_normalize_wf [OF h(4)] h(5)
  from h(3) show ?thesis
  proof
    assume "ob_health ob = CollectionUnknown"
    with a h w show ?thesis
      by (simp add: observation_normalize_def Let_def observation_wf_def) (clarsimp simp: remaining_wf_def)
  next
    assume r: "ob_health ob = CollectionReliable"
    with a h obtain rem where
        rem: "remaining_normalize (ob_remaining_known ob) (ob_remaining ob) = Inr rem"
      and x: "ob_failure ob = FailureNone" "ob_remaining_known ob \<or> ob_explicit ob"
        "\<not> (ob_explicit ob \<and> ob_remaining_known ob \<and> flt zero_pct rem)"
      and n: "n = ob\<lparr>ob_identity := i, ob_label := l, ob_observed_at := trunc_us (ob_observed_at ob),
                ob_reset_at := at, ob_remaining := rem\<rparr>"
      by (simp add: observation_normalize_def Let_def) blast
    from remaining_normalize_wf [OF rem] have rw: "remaining_wf (ob_remaining_known ob) rem" .
    then have "ob_explicit ob \<longrightarrow> rem = zero_pct" using x(3) by (auto simp: remaining_wf_def)
    with n r w x(1,2) rw show ?thesis by (simp add: observation_wf_def)
  qed
qed

definition state_wf :: "current_state \<Rightarrow> bool" where
  "state_wf s \<longleftrightarrow>
     identity_wf (cs_identity s) \<and> field_ok (cs_label s) \<and>
     (\<forall>a. cs_alert s \<noteq> OtherAlert a) \<and>
     (cs_health s = CollectionReliable \<or> cs_health s = CollectionUnknown) \<and>
     (\<forall>c. cs_failure s \<noteq> OtherFailure c) \<and>
     (cs_health s = CollectionReliable \<longrightarrow> cs_failure s = FailureNone) \<and>
     0 \<le> cs_below s \<and> 0 \<le> cs_revision s \<and>
     trunc_us (cs_last_reliable s) = cs_last_reliable s \<and>
     trunc_us (cs_observed_at s) = cs_observed_at s \<and>
     trunc_us (cs_transitioned_at s) = cs_transitioned_at s \<and>
     trunc_us (cs_updated_at s) = cs_updated_at s \<and>
     cs_transitioned_at s \<le> cs_observed_at s \<and> cs_observed_at s \<le> cs_updated_at s \<and>
     remaining_wf (cs_remaining_known s) (cs_remaining s) \<and>
     reset_wf (cs_reset_known s) (cs_reset_at s) \<and>
     (cs_health s = CollectionReliable \<longrightarrow> cs_alert s = AlertExhausted \<or> cs_remaining_known s) \<and>
     (cs_alert s = AlertUnknown \<longrightarrow> cs_health s = CollectionUnknown \<and> \<not> cs_remaining_known s) \<and>
     (cs_remaining_known s \<longrightarrow> (cs_remaining s = zero_pct \<longleftrightarrow> cs_alert s = AlertExhausted))"

lemma state_normalize_head_Inr:
  "state_normalize_head s = Inr n \<longleftrightarrow>
     (\<exists>i l. identity_normalize (cs_identity s) = Inr i \<and> label_normalize (cs_label s) = Inr l \<and>
        (\<forall>a. cs_alert s \<noteq> OtherAlert a) \<and>
        (cs_health s = CollectionReliable \<or> cs_health s = CollectionUnknown) \<and>
        (\<forall>c. cs_failure s \<noteq> OtherFailure c) \<and>
        (cs_health s = CollectionReliable \<longrightarrow> cs_failure s = FailureNone) \<and>
        0 \<le> cs_below s \<and> 0 \<le> cs_revision s \<and>
        cs_observed_at s \<noteq> 0 \<and> cs_transitioned_at s \<noteq> 0 \<and> cs_updated_at s \<noteq> 0 \<and>
        trunc_us (cs_transitioned_at s) \<le> trunc_us (cs_observed_at s) \<and>
        trunc_us (cs_observed_at s) \<le> trunc_us (cs_updated_at s) \<and>
        n = s\<lparr>cs_identity := i, cs_label := l, cs_last_reliable := trunc_us (cs_last_reliable s),
              cs_observed_at := trunc_us (cs_observed_at s),
              cs_transitioned_at := trunc_us (cs_transitioned_at s),
              cs_updated_at := trunc_us (cs_updated_at s)\<rparr>)"
  by (simp add: state_normalize_head_def Let_def validate_Inr not_less not_le) blast

lemma state_normalize_tail_Inr:
  "state_normalize_tail s = Inr n \<longleftrightarrow>
     (\<exists>rem at. remaining_normalize (cs_remaining_known s) (cs_remaining s) = Inr rem \<and>
        reset_normalize (cs_reset_known s) (cs_reset_at s) ''known current state reset time'' = Inr at \<and>
        (cs_health s = CollectionReliable \<longrightarrow> cs_alert s = AlertExhausted \<or> cs_remaining_known s) \<and>
        (cs_alert s = AlertUnknown \<longrightarrow> cs_health s = CollectionUnknown \<and> \<not> cs_remaining_known s) \<and>
        (cs_remaining_known s \<longrightarrow> (rem = zero_pct \<longleftrightarrow> cs_alert s = AlertExhausted)) \<and>
        n = s\<lparr>cs_remaining := rem, cs_reset_at := at\<rparr>)"
proof -
  have "remaining_normalize (cs_remaining_known s) (cs_remaining s) = Inr rem \<Longrightarrow> pct_ok rem" for rem
    using remaining_normalize_wf remaining_wf_pct by blast
  then have z: "remaining_normalize (cs_remaining_known s) (cs_remaining s) = Inr rem \<Longrightarrow>
      (\<not> (cs_remaining_known s \<and> feq rem zero_pct \<and> cs_alert s \<noteq> AlertExhausted) \<and>
       \<not> (cs_alert s = AlertExhausted \<and> cs_remaining_known s \<and> flt zero_pct rem)) =
      (cs_remaining_known s \<longrightarrow> (rem = zero_pct \<longleftrightarrow> cs_alert s = AlertExhausted))" for rem
    by auto
  show ?thesis
    unfolding state_normalize_tail_def bindE_eq_Inr reject_Inr
    using z by (intro iffI; elim exE conjE; intro exI conjI) (assumption | blast | simp)+
qed

lemma state_normalize_wf: "state_normalize s = Inr n \<Longrightarrow> state_wf n"
  by (clarsimp simp: state_normalize_def state_normalize_head_Inr state_normalize_tail_Inr state_wf_def
      identity_normalize_wf label_normalize_ok reset_normalize_wf remaining_normalize_wf)

text \<open>The times a well-formed value needs beside: none within a microsecond of the zero time.\<close>

definition state_times :: "current_state \<Rightarrow> bool" where
  "state_times s \<longleftrightarrow> cs_observed_at s \<noteq> 0 \<and> cs_transitioned_at s \<noteq> 0 \<and> cs_updated_at s \<noteq> 0 \<and>
     (cs_reset_known s \<longrightarrow> cs_reset_at s \<noteq> 0)"

lemma state_normalize_id: "state_wf s \<Longrightarrow> state_times s \<Longrightarrow> state_normalize s = Inr s"
  by (simp add: state_normalize_def state_normalize_head_Inr state_normalize_tail_Inr state_wf_def
      state_times_def identity_normalize_id label_normalize_id remaining_normalize_id
      reset_normalize_id)

lemma state_normalize_fields:
  "state_normalize s = Inr n \<Longrightarrow>
     cs_alert n = cs_alert s \<and> cs_health n = cs_health s \<and> cs_failure n = cs_failure s \<and>
     cs_below n = cs_below s \<and> cs_remaining_known n = cs_remaining_known s \<and>
     cs_reset_known n = cs_reset_known s \<and> cs_revision n = cs_revision s \<and>
     identity_normalize (cs_identity s) = Inr (cs_identity n) \<and>
     cs_observed_at n = trunc_us (cs_observed_at s) \<and>
     cs_transitioned_at n = trunc_us (cs_transitioned_at s) \<and>
     cs_updated_at n = trunc_us (cs_updated_at s) \<and>
     cs_last_reliable n = trunc_us (cs_last_reliable s)"
  by (clarsimp simp: state_normalize_def state_normalize_head_Inr state_normalize_tail_Inr)

definition event_wf :: "transition_event \<Rightarrow> bool" where
  "event_wf e \<longleftrightarrow>
     field_ok (ev_id e) \<and> identity_wf (ev_identity e) \<and> field_ok (ev_label e) \<and>
     (\<forall>k. ev_kind e \<noteq> OtherKind k) \<and> (\<forall>a. ev_from e \<noteq> OtherAlert a) \<and>
     (\<forall>a. ev_to e \<noteq> OtherAlert a) \<and>
     valid_transition (ev_kind e) (ev_from e) (ev_to e) \<and>
     remaining_wf (ev_remaining_known e) (ev_remaining e) \<and>
     (ev_remaining_known e \<longrightarrow> (ev_remaining e = zero_pct \<longleftrightarrow> ev_to e = AlertExhausted)) \<and>
     reset_wf (ev_reset_known e) (ev_reset_at e) \<and>
     trunc_us (ev_occurred_at e) = ev_occurred_at e \<and>
     trunc_us (ev_acknowledged_at e) = ev_acknowledged_at e"

definition event_times :: "transition_event \<Rightarrow> bool" where
  "event_times e \<longleftrightarrow> ev_occurred_at e \<noteq> 0 \<and> (ev_reset_known e \<longrightarrow> ev_reset_at e \<noteq> 0)"

lemma event_remaining_Inr:
  "event_remaining e = Inr r \<longleftrightarrow>
     (if ev_remaining_known e
      then pct_ok (ev_remaining e) \<and> r = ev_remaining e \<and>
           (ev_remaining e = zero_pct \<longleftrightarrow> ev_to e = AlertExhausted)
      else r = zero_pct)"
  by (auto simp: event_remaining_def percentage_validate_ok)

lemma event_normalize_Inr:
  "event_normalize e = Inr n \<longleftrightarrow>
     (\<exists>i l rem at. identity_normalize (ev_identity e) = Inr i \<and> label_normalize (ev_label e) = Inr l \<and>
        trim_space (ev_id e) \<noteq> [] \<and> length (trim_space (ev_id e)) \<le> MaxFieldLength \<and>
        (\<forall>k. ev_kind e \<noteq> OtherKind k) \<and> (\<forall>a. ev_from e \<noteq> OtherAlert a) \<and>
        (\<forall>a. ev_to e \<noteq> OtherAlert a) \<and> valid_transition (ev_kind e) (ev_from e) (ev_to e) \<and>
        event_remaining e = Inr rem \<and>
        reset_normalize (ev_reset_known e) (ev_reset_at e) ''known event reset time'' = Inr at \<and>
        ev_occurred_at e \<noteq> 0 \<and>
        n = e\<lparr>ev_id := trim_space (ev_id e), ev_identity := i, ev_label := l, ev_remaining := rem,
              ev_reset_at := at, ev_occurred_at := trunc_us (ev_occurred_at e),
              ev_acknowledged_at := trunc_us (ev_acknowledged_at e)\<rparr>)"
  by (simp add: event_normalize_def Let_def validate_Inr not_less) blast

lemma event_normalize_wf: "event_normalize e = Inr n \<Longrightarrow> event_wf n"
proof -
  assume "event_normalize e = Inr n"
  then obtain i l rem at where
      h: "identity_normalize (ev_identity e) = Inr i" "label_normalize (ev_label e) = Inr l"
        "event_remaining e = Inr rem"
        "reset_normalize (ev_reset_known e) (ev_reset_at e) ''known event reset time'' = Inr at"
    and k: "trim_space (ev_id e) \<noteq> []" "length (trim_space (ev_id e)) \<le> MaxFieldLength"
      "\<forall>k. ev_kind e \<noteq> OtherKind k" "\<forall>a. ev_from e \<noteq> OtherAlert a" "\<forall>a. ev_to e \<noteq> OtherAlert a"
      "valid_transition (ev_kind e) (ev_from e) (ev_to e)"
    and n: "n = e\<lparr>ev_id := trim_space (ev_id e), ev_identity := i, ev_label := l, ev_remaining := rem,
              ev_reset_at := at, ev_occurred_at := trunc_us (ev_occurred_at e),
              ev_acknowledged_at := trunc_us (ev_acknowledged_at e)\<rparr>"
    by (auto simp: event_normalize_Inr)
  have r: "remaining_wf (ev_remaining_known e) rem"
    "ev_remaining_known e \<longrightarrow> (rem = zero_pct \<longleftrightarrow> ev_to e = AlertExhausted)"
    using h(3) by (auto simp: event_remaining_Inr remaining_wf_def split: if_splits)
  have "field_ok (trim_space (ev_id e))" using k(1,2) by (simp add: field_ok_def)
  with n k r identity_normalize_wf [OF h(1)] label_normalize_ok [OF h(2)] reset_normalize_wf [OF h(4)]
  show ?thesis by (simp add: event_wf_def)
qed

lemma event_remaining_id: "event_wf e \<Longrightarrow> event_remaining e = Inr (ev_remaining e)"
  by (auto simp: event_wf_def event_remaining_Inr remaining_wf_def)

lemma event_normalize_id:
  assumes "event_wf e" and "event_times e"
  shows "event_normalize e = Inr e"
  using assms event_remaining_id [OF assms(1)]
  by (simp add: event_normalize_Inr event_wf_def event_times_def reset_normalize_id
      identity_normalize_id label_normalize_id) (simp add: field_ok_def)

lemma stable_key_eq: "identity_wf i \<Longrightarrow> stable_key D i = Inr (sha256_hex D (hash_fields (identity_fields i)))"
  by (simp add: stable_key_def identity_normalize_id)

text \<open>The bytes hashed for two identities are the same only if the identities are.\<close>

lemma identity_fields_inj: "hash_fields (identity_fields i) = hash_fields (identity_fields j) \<Longrightarrow> i = j"
  by (drule hash_fields_inj) (cases i; cases j; simp add: identity_fields_def)

section \<open>Notification batches\<close>

record notification_batch =
  nb_id :: string
  nb_provider :: string
  nb_events :: "transition_event list"
  nb_created_at :: instant

text \<open>The loop that normalises the events: the state is the list built so far.\<close>

definition batch_step ::
  "string \<Rightarrow> transition_event list \<Rightarrow> transition_event \<Rightarrow> transition_event list result" where
  "batch_step provider canonical e =
     bindE (event_normalize e) (\<lambda>n.
     bindE (reject (si_provider (ev_identity n) \<noteq> provider)
              (ProviderMismatch (si_provider (ev_identity n)) provider)) (\<lambda>_.
     bindE (reject (ev_id n \<in> ev_id ` set canonical) (Duplicate ''transition event'' (ev_id n))) (\<lambda>_.
     Inr (canonical @ [n\<lparr>ev_acknowledged_at := 0\<rparr>]))))"

definition event_sort_key :: "digest \<Rightarrow> transition_event \<Rightarrow> string \<times> string" where
  "event_sort_key D e =
     (case stable_key D (ev_identity e) of Inl _ \<Rightarrow> [] | Inr k \<Rightarrow> k, ev_id e)"

definition format_bool :: "bool \<Rightarrow> string" where
  "format_bool b = (if b then ''true'' else ''false'')"

definition event_hash_fields :: "digest \<Rightarrow> transition_event \<Rightarrow> string list" where
  "event_hash_fields D e =
     [ev_id e, si_auth (ev_identity e), si_provider (ev_identity e), si_resource (ev_identity e),
      si_window (ev_identity e), ev_label e, kind_string (ev_kind e), alert_string (ev_from e),
      alert_string (ev_to e), format_bool (ev_remaining_known e), format_float D (ev_remaining e),
      format_bool (ev_reset_known e), format_time D (ev_reset_at e), format_time D (ev_occurred_at e)]"

definition batch_hash :: "digest \<Rightarrow> string \<Rightarrow> transition_event list \<Rightarrow> string" where
  "batch_hash D provider events =
     sha256_hex D (hash_fields (provider # concat (map (event_hash_fields D) events)))"

definition new_notification_batch ::
  "digest \<Rightarrow> string \<Rightarrow> transition_event list \<Rightarrow> instant \<Rightarrow> notification_batch result" where
  "new_notification_batch D provider events created_at =
     bindE (provider_validate provider) (\<lambda>_.
     bindE (reject (events = []) (Required ''notification batch event'')) (\<lambda>_.
     bindE (reject (length events > MaxNotificationBatchEvents) (TooLong ''notification batch'')) (\<lambda>_.
     bindE (reject (created_at = 0) (Required ''notification batch creation time'')) (\<lambda>_.
     bindE (foldE (batch_step provider) [] events) (\<lambda>canonical0.
     let canonical = sort_key (event_sort_key D) canonical0 in
     Inr \<lparr>nb_id = batch_hash D provider canonical, nb_provider = provider, nb_events = canonical,
          nb_created_at = trunc_us created_at\<rparr>)))))"

section \<open>Pages\<close>

record page_request =
  pr_cursor :: string
  pr_limit :: int

definition page_normalize :: "page_request \<Rightarrow> page_request result" where
  "page_normalize r0 =
     (let r = r0\<lparr>pr_cursor := trim_space (pr_cursor r0),
                 pr_limit := if pr_limit r0 = 0 then DefaultPageSize else pr_limit r0\<rparr> in
      bindE (reject (pr_limit r < 1 \<or> pr_limit r > MaxPageSize) (OutOfRange ''page limit'')) (\<lambda>_. Inr r))"

section \<open>Facts about batches\<close>

lemma batch_step_Inr:
  "batch_step p c e = Inr c' \<longleftrightarrow>
     (\<exists>n. event_normalize e = Inr n \<and> si_provider (ev_identity n) = p \<and>
          ev_id n \<notin> ev_id ` set c \<and> c' = c @ [n\<lparr>ev_acknowledged_at := 0\<rparr>])"
  by (auto simp: batch_step_def)

text \<open>What the loop leaves: one event for each given one, in order, with distinct identifiers.\<close>

definition canonical_of :: "string \<Rightarrow> transition_event \<Rightarrow> transition_event \<Rightarrow> bool" where
  "canonical_of p e c \<longleftrightarrow>
     (\<exists>n. event_normalize e = Inr n \<and> si_provider (ev_identity n) = p \<and> c = n\<lparr>ev_acknowledged_at := 0\<rparr>)"

lemma batch_loop:
  assumes "foldE (batch_step p) acc es = Inr cs" and "distinct (map ev_id acc)"
  shows "distinct (map ev_id cs) \<and> (\<exists>ds. cs = acc @ ds \<and> list_all2 (canonical_of p) es ds)"
  using assms
proof (induction es arbitrary: acc)
  case (Cons e es)
  from Cons.prems(1) obtain n where n: "event_normalize e = Inr n" "si_provider (ev_identity n) = p"
      "ev_id n \<notin> ev_id ` set acc"
    and rest: "foldE (batch_step p) (acc @ [n\<lparr>ev_acknowledged_at := 0\<rparr>]) es = Inr cs"
    by (auto simp: batch_step_Inr)
  from n(3) Cons.prems(2) have "distinct (map ev_id (acc @ [n\<lparr>ev_acknowledged_at := 0\<rparr>]))" by auto
  from Cons.IH [OF rest this] n(1,2) show ?case
    by (auto simp: canonical_of_def)
qed simp

lemma new_batch_Inr:
  assumes "new_notification_batch D p es t = Inr b"
  shows "nb_provider b = p \<and> p \<in> set supported_providers \<and> es \<noteq> [] \<and> length es \<le> 100 \<and>
    nb_created_at b = trunc_us t \<and> nb_id b = batch_hash D p (nb_events b) \<and>
    sorted (map (event_sort_key D) (nb_events b)) \<and> distinct (map ev_id (nb_events b)) \<and>
    (\<exists>cs. mset (nb_events b) = mset cs \<and> list_all2 (canonical_of p) es cs)"
proof -
  from assms obtain cs where p: "p \<in> set supported_providers" "es \<noteq> []" "length es \<le> 100"
    and cs: "foldE (batch_step p) [] es = Inr cs"
    and b: "b = \<lparr>nb_id = batch_hash D p (sort_key (event_sort_key D) cs), nb_provider = p,
        nb_events = sort_key (event_sort_key D) cs, nb_created_at = trunc_us t\<rparr>"
    by (auto simp: new_notification_batch_def provider_validate_def Let_def MaxNotificationBatchEvents_def)
  from batch_loop [OF cs] have d: "distinct (map ev_id cs)" "list_all2 (canonical_of p) es cs" by auto
  have "distinct (map ev_id (sort_key (event_sort_key D) cs))"
    using d(1) by (metis distinct_map distinct_sort set_sort)
  with p b d show ?thesis by auto
qed

section \<open>Properties\<close>

text \<open>Normalising is idempotent and establishes the invariant of the stored values: a normalised
  state or event is well formed, and normalising it again returns it unchanged unless a time
  lies within a microsecond of the zero time.\<close>

theorem normalize_idempotent:
  "(state_normalize s = Inr n \<longrightarrow> state_wf n \<and> (state_times n \<longrightarrow> state_normalize n = Inr n)) \<and>
   (event_normalize e = Inr x \<longrightarrow> event_wf x \<and> (event_times x \<longrightarrow> event_normalize x = Inr x))"
  using state_normalize_wf state_normalize_id event_normalize_wf event_normalize_id by blast

text \<open>Two identities have the same stable key exactly when they normalise to the same identity,
  where the hash does not map the encodings of the two to one value.\<close>

theorem stable_key_separates:
  assumes "stable_key D i = Inr k" and "stable_key D j = Inr l"
    and "inj_on (sha256_hex D)
      {hash_fields (identity_fields n) |n. identity_normalize i = Inr n \<or> identity_normalize j = Inr n}"
  shows "k = l \<longleftrightarrow> identity_normalize i = identity_normalize j"
proof -
  from assms(1,2) obtain n m where nm: "identity_normalize i = Inr n" "identity_normalize j = Inr m"
      "k = sha256_hex D (hash_fields (identity_fields n))"
      "l = sha256_hex D (hash_fields (identity_fields m))"
    by (auto simp: stable_key_def)
  have "k = l \<longleftrightarrow> hash_fields (identity_fields n) = hash_fields (identity_fields m)"
    unfolding nm(3,4) using nm(1,2) by (intro inj_on_eq_iff [OF assms(3)]) auto
  also have "\<dots> \<longleftrightarrow> n = m" using identity_fields_inj by blast
  finally show ?thesis using nm(1,2) by simp
qed

section \<open>Witnesses\<close>

definition demo_label_event :: transition_event where
  "demo_label_event =
     \<lparr>ev_id = '' id '', ev_identity = \<lparr>si_auth = ''a'', si_provider = '' Kimi'', si_resource = ''r'', si_window = ''w''\<rparr>,
      ev_label = ''l'', ev_kind = TransitionWarning, ev_from = AlertHealthy, ev_to = AlertWarning,
      ev_remaining = flt_of_int 7, ev_remaining_known = True, ev_reset_at = 5, ev_reset_known = False,
      ev_occurred_at = 5001, ev_acknowledged_at = 0\<rparr>"

lemmas string_eval = trim_eval ascii_lower_def supported_providers_def quota_consts

lemma demo_identity_normalize:
  "identity_normalize \<lparr>si_auth = ''a'', si_provider = '' Kimi'', si_resource = ''r'', si_window = ''w''\<rparr> =
     Inr \<lparr>si_auth = ''a'', si_provider = ''kimi'', si_resource = ''r'', si_window = ''w''\<rparr>"
  "identity_normalize \<lparr>si_auth = ''b '', si_provider = ''kimi'', si_resource = ''r'', si_window = ''w''\<rparr> =
     Inr \<lparr>si_auth = ''b'', si_provider = ''kimi'', si_resource = ''r'', si_window = ''w''\<rparr>"
  by (simp_all add: identity_normalize_def provider_validate_def string_eval)

theorem normalize_idempotent_witness:
  "\<exists>x. event_normalize demo_label_event = Inr x \<and> event_normalize x = Inr x"
proof -
  have "event_normalize demo_label_event =
     Inr (demo_label_event\<lparr>ev_id := ''id'', ev_reset_at := 0, ev_occurred_at := 5000,
       ev_identity := \<lparr>si_auth = ''a'', si_provider = ''kimi'', si_resource = ''r'', si_window = ''w''\<rparr>\<rparr>)"
    by (simp add: event_normalize_def demo_label_event_def demo_identity_normalize label_normalize_def
        event_remaining_def percentage_validate_ok [THEN iffD2] pct_ok_def flt_of_int_def zero_pct_def
        feq_def reset_normalize_def trunc_us_def Let_def string_eval)
  with normalize_idempotent [of _ _ demo_label_event] show ?thesis
    by (simp add: event_times_def demo_label_event_def)
qed

theorem stable_key_separates_witness:
  "stable_key \<lparr>sha256_hex = \<lambda>x. x, format_float = \<lambda>_. [], format_time = \<lambda>_. []\<rparr>
     \<lparr>si_auth = ''a'', si_provider = '' Kimi'', si_resource = ''r'', si_window = ''w''\<rparr> \<noteq>
   stable_key \<lparr>sha256_hex = \<lambda>x. x, format_float = \<lambda>_. [], format_time = \<lambda>_. []\<rparr>
     \<lparr>si_auth = ''b '', si_provider = ''kimi'', si_resource = ''r'', si_window = ''w''\<rparr>"
proof -
  let ?D = "\<lparr>sha256_hex = \<lambda>x. x, format_float = \<lambda>_. [], format_time = \<lambda>_. []\<rparr> :: digest"
  let ?i = "\<lparr>si_auth = ''a'', si_provider = '' Kimi'', si_resource = ''r'', si_window = ''w''\<rparr> :: state_identity"
  let ?j = "\<lparr>si_auth = ''b '', si_provider = ''kimi'', si_resource = ''r'', si_window = ''w''\<rparr> :: state_identity"
  obtain k l where k: "stable_key ?D ?i = Inr k" "stable_key ?D ?j = Inr l"
    by (simp add: stable_key_def demo_identity_normalize)
  from stable_key_separates [OF k] have "k \<noteq> l" by (simp add: demo_identity_normalize)
  with k show ?thesis by simp
qed

end
