(* ===== verification/Quota_Evaluator.thy ===== *)
theory Quota_Evaluator
  imports Quota_Types
begin

text \<open>
  The quota evaluator (internal/quotaalert/evaluator.go): \<open>evaluate_observations\<close> turns a cycle's
  observations and the previous states into new states, transition events and one batch for each
  provider. A Go map keyed by the stable key is an association list with distinct keys; the order in
  which Go ranges over it never matters, because the keys are sorted before use. The per-identity
  step is \<open>evaluate_observation\<close>, with \<open>next_alert\<close> its decision on the alert level.
\<close>

section \<open>The alert level\<close>

definition evaluate_alert :: "observation \<Rightarrow> go_float \<Rightarrow> alert_state" where
  "evaluate_alert ob threshold =
     (if ob_explicit ob \<or> (ob_remaining_known ob \<and> feq (ob_remaining ob) zero_pct) then AlertExhausted
      else if ob_remaining_known ob \<and> fle (ob_remaining ob) threshold then AlertWarning
      else AlertHealthy)"

fun alert_severity_rank :: "alert_state \<Rightarrow> int" where
  "alert_severity_rank AlertWarning = 1"
| "alert_severity_rank AlertExhausted = 2"
| "alert_severity_rank _ = 0"

definition transition_kind_of :: "alert_state \<Rightarrow> alert_state \<Rightarrow> bool \<Rightarrow> transition_kind option" where
  "transition_kind_of from to notify_recovery =
     (if from = to then None
      else case to of
        AlertWarning \<Rightarrow>
          if from = AlertHealthy \<or> from = AlertUnknown then Some TransitionWarning else None
      | AlertExhausted \<Rightarrow>
          if from = AlertHealthy \<or> from = AlertWarning \<or> from = AlertUnknown
          then Some TransitionExhausted else None
      | AlertHealthy \<Rightarrow>
          if notify_recovery \<and> (from = AlertWarning \<or> from = AlertExhausted)
          then Some TransitionRecovery else None
      | _ \<Rightarrow> None)"

definition below_threshold :: "observation \<Rightarrow> go_float \<Rightarrow> bool" where
  "below_threshold ob threshold \<longleftrightarrow>
     ob_explicit ob \<or> (ob_remaining_known ob \<and> fle (ob_remaining ob) threshold)"

text \<open>The counter of consecutive samples below the threshold.\<close>

definition next_below :: "observation \<Rightarrow> go_float \<Rightarrow> current_state option \<Rightarrow> int" where
  "next_below ob threshold prior =
     (let n = (case prior of None \<Rightarrow> 0 | Some p \<Rightarrow> cs_below p) in
      if below_threshold ob threshold then s64 (n + 1) else 0)"

definition prior_alert :: "current_state option \<Rightarrow> alert_state" where
  "prior_alert prior = (case prior of None \<Rightarrow> AlertUnknown | Some p \<Rightarrow> cs_alert p)"

text \<open>The confirmation gate, and after it the hysteresis.\<close>

definition confirm_alert :: "settings \<Rightarrow> observation \<Rightarrow> int \<Rightarrow> alert_state \<Rightarrow> alert_state \<Rightarrow> alert_state" where
  "confirm_alert st ob below prior alert =
     (if alert_severity_rank alert > alert_severity_rank prior \<and> \<not> ob_explicit ob \<and>
         below < set_confirmation st
      then (if prior = AlertUnknown then AlertHealthy else prior)
      else alert)"

definition hysteresis_alert :: "settings \<Rightarrow> go_float \<Rightarrow> observation \<Rightarrow> alert_state \<Rightarrow> alert_state \<Rightarrow> alert_state" where
  "hysteresis_alert st threshold ob prior alert =
     (if alert = AlertHealthy \<and> (prior = AlertWarning \<or> prior = AlertExhausted) \<and>
         (\<not> ob_remaining_known ob \<or> fle (ob_remaining ob) (fadd threshold (set_margin st)))
      then prior else alert)"

definition next_alert :: "settings \<Rightarrow> go_float \<Rightarrow> observation \<Rightarrow> current_state option \<Rightarrow> alert_state" where
  "next_alert st threshold ob prior =
     hysteresis_alert st threshold ob (prior_alert prior)
       (confirm_alert st ob (next_below ob threshold prior) (prior_alert prior)
         (evaluate_alert ob threshold))"

section \<open>One observation\<close>

definition event_id ::
  "digest \<Rightarrow> transition_kind \<Rightarrow> alert_state \<Rightarrow> alert_state \<Rightarrow> state_identity \<Rightarrow> instant \<Rightarrow> string" where
  "event_id D kind from to identity occurred_at =
     sha256_hex D (hash_fields
       [case stable_key D identity of Inl _ \<Rightarrow> [] | Inr k \<Rightarrow> k, kind_string kind, alert_string from,
        alert_string to, format_time D occurred_at])"

definition evaluation_updated_at :: "instant \<Rightarrow> instant \<Rightarrow> instant" where
  "evaluation_updated_at evaluated_at observed_at =
     (if observed_at > evaluated_at then observed_at else evaluated_at)"

text \<open>A state with the unknown alert, for an observation that could not be collected.\<close>

definition unknown_state ::
  "settings \<Rightarrow> observation \<Rightarrow> instant \<Rightarrow> instant \<Rightarrow> instant \<Rightarrow> current_state" where
  "unknown_state st ob last_reliable transitioned_at updated_at =
     \<lparr>cs_identity = ob_identity ob, cs_label = ob_label ob, cs_alert = AlertUnknown,
      cs_health = CollectionUnknown, cs_failure = ob_failure ob, cs_last_reliable = last_reliable,
      cs_below = 0, cs_remaining = zero_pct, cs_remaining_known = False, cs_reset_at = 0,
      cs_reset_known = False, cs_observed_at = ob_observed_at ob,
      cs_transitioned_at = transitioned_at, cs_updated_at = updated_at, cs_revision = set_revision st\<rparr>"

definition evaluate_unknown ::
  "settings \<Rightarrow> observation \<Rightarrow> current_state option \<Rightarrow> instant \<Rightarrow> current_state result" where
  "evaluate_unknown st ob prior evaluated_at =
     (case prior of
        Some p0 \<Rightarrow>
          let p = p0\<lparr>cs_health := CollectionUnknown, cs_failure := ob_failure ob,
                     cs_last_reliable := (if cs_last_reliable p0 = 0 \<and> cs_alert p0 \<noteq> AlertUnknown
                                          then cs_observed_at p0 else cs_last_reliable p0)\<rparr> in
          if cs_alert p \<noteq> AlertUnknown then state_normalize (p\<lparr>cs_updated_at := evaluated_at\<rparr>)
          else state_normalize (unknown_state st ob (cs_last_reliable p) (cs_transitioned_at p)
                 (evaluation_updated_at evaluated_at (ob_observed_at ob)))
      | None \<Rightarrow> state_normalize (unknown_state st ob 0 (ob_observed_at ob) evaluated_at))"

definition reliable_state ::
  "settings \<Rightarrow> go_float \<Rightarrow> observation \<Rightarrow> current_state option \<Rightarrow> instant \<Rightarrow> current_state" where
  "reliable_state st threshold ob prior evaluated_at =
     (let alert = next_alert st threshold ob prior in
      \<lparr>cs_identity = ob_identity ob, cs_label = ob_label ob, cs_alert = alert,
       cs_health = CollectionReliable, cs_failure = FailureNone,
       cs_last_reliable = ob_observed_at ob, cs_below = next_below ob threshold prior,
       cs_remaining = (if alert = AlertExhausted \<and> \<not> ob_remaining_known ob then zero_pct
                       else ob_remaining ob),
       cs_remaining_known = ob_remaining_known ob, cs_reset_at = ob_reset_at ob,
       cs_reset_known = ob_reset_known ob, cs_observed_at = ob_observed_at ob,
       cs_transitioned_at =
         (case prior of
            Some p \<Rightarrow> if cs_alert p = alert then cs_transitioned_at p else ob_observed_at ob
          | None \<Rightarrow> ob_observed_at ob),
       cs_updated_at = evaluation_updated_at evaluated_at (ob_observed_at ob),
       cs_revision = set_revision st\<rparr>)"

text \<open>The event to emit: a transition, or else a reminder that is due.\<close>

definition event_kind ::
  "settings \<Rightarrow> alert_state \<Rightarrow> current_state option \<Rightarrow> instant \<Rightarrow> transition_kind option" where
  "event_kind st alert prior evaluated_at =
     (case transition_kind_of (prior_alert prior) alert (set_notify_recovery st) of
        Some k \<Rightarrow> Some k
      | None \<Rightarrow>
          (case prior of
             None \<Rightarrow> None
           | Some p \<Rightarrow>
               if set_reminder st > 0 \<and> cs_alert p = alert \<and>
                  (alert = AlertWarning \<or> alert = AlertExhausted) \<and>
                  \<not> (cs_updated_at p + set_reminder st > evaluated_at)
               then Some TransitionReminder else None))"

definition make_event ::
  "digest \<Rightarrow> transition_kind \<Rightarrow> alert_state \<Rightarrow> current_state \<Rightarrow> instant \<Rightarrow> transition_event" where
  "make_event D kind from s evaluated_at =
     (let occurred_at = (if kind \<noteq> TransitionReminder then cs_transitioned_at s else evaluated_at) in
      \<lparr>ev_id = event_id D kind from (cs_alert s) (cs_identity s) occurred_at,
       ev_identity = cs_identity s, ev_label = cs_label s, ev_kind = kind, ev_from = from,
       ev_to = cs_alert s, ev_remaining = cs_remaining s, ev_remaining_known = cs_remaining_known s,
       ev_reset_at = cs_reset_at s, ev_reset_known = cs_reset_known s,
       ev_occurred_at = occurred_at, ev_acknowledged_at = 0\<rparr>)"

text \<open>Normalising keeps the alert, so the alert of the event is the one of the state.\<close>

definition evaluate_reliable ::
  "digest \<Rightarrow> settings \<Rightarrow> go_float \<Rightarrow> observation \<Rightarrow> current_state option \<Rightarrow> instant \<Rightarrow>
     (current_state \<times> transition_event option) result" where
  "evaluate_reliable D st threshold ob prior evaluated_at =
     bindE (state_normalize (reliable_state st threshold ob prior evaluated_at)) (\<lambda>s.
     case event_kind st (next_alert st threshold ob prior) prior evaluated_at of
       None \<Rightarrow> Inr (s, None)
     | Some kind \<Rightarrow>
         bindE (event_normalize (make_event D kind (prior_alert prior) s evaluated_at))
           (\<lambda>e. Inr (s, Some e)))"

definition evaluate_observation ::
  "digest \<Rightarrow> settings \<Rightarrow> go_float \<Rightarrow> observation \<Rightarrow> current_state option \<Rightarrow> instant \<Rightarrow>
     (current_state \<times> transition_event option) result" where
  "evaluate_observation D st threshold ob prior evaluated_at =
     (if ob_health ob = CollectionUnknown
      then bindE (evaluate_unknown st ob prior evaluated_at) (\<lambda>s. Inr (s, None))
      else evaluate_reliable D st threshold ob prior evaluated_at)"

section \<open>A cycle\<close>

record evaluation_input =
  in_settings :: settings
  in_observations :: "observation list"
  in_previous :: "current_state list"
  in_evaluated_at :: instant

record evaluation_result =
  res_states :: "current_state list"
  res_events :: "transition_event list"
  res_batches :: "notification_batch list"

definition normalized_evaluation_settings :: "settings \<Rightarrow> settings result" where
  "normalized_evaluation_settings st0 =
     (let st = st0\<lparr>set_poll_interval := if set_poll_interval st0 = 0 then DefaultPollInterval
                                         else set_poll_interval st0,
                   set_confirmation := if set_confirmation st0 = 0 then DefaultConfirmationSamples
                                       else set_confirmation st0\<rparr> in
      bindE (settings_validate st) (\<lambda>_. Inr st))"

definition override_config ::
  "(string \<times> bool \<times> go_float) list \<Rightarrow> provider_override \<Rightarrow> (string \<times> bool \<times> go_float) list" where
  "override_config configs ov =
     (let config = (case map_of configs (ov_provider ov) of None \<Rightarrow> (False, zero_pct) | Some c \<Rightarrow> c) in
      AList.update (ov_provider ov)
        (ov_enabled ov, case ov_threshold ov of None \<Rightarrow> snd config | Some t \<Rightarrow> t) configs)"

definition evaluation_provider_settings :: "settings \<Rightarrow> (string \<times> bool \<times> go_float) list" where
  "evaluation_provider_settings st =
     foldl override_config (map (\<lambda>p. (p, True, set_threshold st)) supported_providers) (set_overrides st)"

definition previous_step ::
  "digest \<Rightarrow> (string \<times> current_state) list \<Rightarrow> current_state \<Rightarrow> (string \<times> current_state) list result" where
  "previous_step D m s =
     bindE (state_normalize s) (\<lambda>n.
     bindE (stable_key D (cs_identity n)) (\<lambda>k.
     Inr (AList.update k n m)))"

definition normalize_previous_states ::
  "digest \<Rightarrow> current_state list \<Rightarrow> (string \<times> current_state) list result" where
  "normalize_previous_states D states = foldE (previous_step D) [] states"

definition observation_sort_key :: "observation \<Rightarrow> string" where
  "observation_sort_key ob =
     si_provider (ob_identity ob) @ [CHR 0x00] @ si_auth (ob_identity ob) @ [CHR 0x00] @
     si_resource (ob_identity ob) @ [CHR 0x00] @ si_window (ob_identity ob)"

definition latest_step ::
  "digest \<Rightarrow> (string \<times> observation) list \<Rightarrow> observation \<Rightarrow> (string \<times> observation) list result" where
  "latest_step D m ob =
     bindE (observation_normalize ob) (\<lambda>n.
     bindE (stable_key D (ob_identity n)) (\<lambda>k.
     Inr (case map_of m k of
            None \<Rightarrow> AList.update k n m
          | Some prior \<Rightarrow>
              if ob_observed_at prior < ob_observed_at n \<or>
                 (ob_observed_at prior = ob_observed_at n \<and>
                  observation_sort_key n > observation_sort_key prior)
              then AList.update k n m else m)))"

definition normalize_latest_observations ::
  "digest \<Rightarrow> observation list \<Rightarrow> (string \<times> observation) list result" where
  "normalize_latest_observations D obs = foldE (latest_step D) [] obs"

definition identity_order :: "state_identity \<Rightarrow> string \<times> string \<times> string \<times> string" where
  "identity_order i = (si_provider i, si_auth i, si_resource i, si_window i)"

text \<open>The keys in order, each with its observation.\<close>

definition sorted_observations :: "(string \<times> observation) list \<Rightarrow> (string \<times> observation) list" where
  "sorted_observations m = sort_key (\<lambda>(k, ob). identity_order (ob_identity ob)) m"

text \<open>The body of the loop over the keys.\<close>

definition cycle_step ::
  "digest \<Rightarrow> settings \<Rightarrow> (string \<times> bool \<times> go_float) list \<Rightarrow> (string \<times> current_state) list \<Rightarrow> instant \<Rightarrow>
     current_state list \<times> transition_event list \<Rightarrow> string \<times> observation \<Rightarrow>
     (current_state list \<times> transition_event list) result" where
  "cycle_step D st configs previous evaluated_at acc kob =
     (let (states, events) = acc; (k, ob) = kob;
          (enabled, threshold) =
            (case map_of configs (si_provider (ob_identity ob)) of None \<Rightarrow> (False, zero_pct) | Some c \<Rightarrow> c)
      in if \<not> enabled then Inr acc
         else bindE (evaluate_observation D st threshold ob (map_of previous k) evaluated_at)
           (\<lambda>(s, e). Inr (states @ [s], events @ (case e of None \<Rightarrow> [] | Some x \<Rightarrow> [x]))))"

definition group_transition_events ::
  "digest \<Rightarrow> transition_event list \<Rightarrow> instant \<Rightarrow> notification_batch list result" where
  "group_transition_events D events created_at =
     bindE (mapE event_normalize events) (\<lambda>ns.
     mapE (\<lambda>p. new_notification_batch D p (filter (\<lambda>e. si_provider (ev_identity e) = p) ns) created_at)
       (sort (remdups (map (\<lambda>e. si_provider (ev_identity e)) ns))))"

definition evaluate_observations :: "digest \<Rightarrow> evaluation_input \<Rightarrow> evaluation_result result" where
  "evaluate_observations D inp =
     bindE (normalized_evaluation_settings (in_settings inp)) (\<lambda>st.
     let evaluated_at = trunc_us (in_evaluated_at inp) in
     bindE (reject (evaluated_at = 0) (Required ''evaluation time'')) (\<lambda>_.
     if \<not> set_enabled st then Inr \<lparr>res_states = [], res_events = [], res_batches = []\<rparr>
     else
       bindE (normalize_previous_states D (in_previous inp)) (\<lambda>previous.
       bindE (normalize_latest_observations D (in_observations inp)) (\<lambda>latest.
       bindE (foldE (cycle_step D st (evaluation_provider_settings st) previous evaluated_at) ([], [])
                (sorted_observations latest)) (\<lambda>(states, events).
       bindE (group_transition_events D events evaluated_at) (\<lambda>batches.
       Inr \<lparr>res_states = states, res_events = events, res_batches = batches\<rparr>))))))"

section \<open>Facts about the alert level\<close>

lemma evaluate_alert_cases:
  "evaluate_alert ob t = AlertHealthy \<or> evaluate_alert ob t = AlertWarning \<or> evaluate_alert ob t = AlertExhausted"
  by (simp add: evaluate_alert_def)

lemma next_alert_explicit: "ob_explicit ob \<Longrightarrow> next_alert st t ob prior = AlertExhausted"
  by (simp add: next_alert_def hysteresis_alert_def confirm_alert_def evaluate_alert_def)

lemma next_alert_cases:
  assumes "\<forall>a. prior_alert prior \<noteq> OtherAlert a"
  shows "next_alert st t ob prior = AlertHealthy \<or> next_alert st t ob prior = AlertWarning \<or>
    next_alert st t ob prior = AlertExhausted"
  using evaluate_alert_cases [of ob t] assms
  by (cases "prior_alert prior") (auto simp: next_alert_def hysteresis_alert_def confirm_alert_def)

lemma zero_le_pct: "pct_ok t \<Longrightarrow> fle zero_pct t"
  by (cases t) (auto simp: pct_ok_def zero_pct_def flt_of_int_def)

lemma evaluate_alert_reliable:
  assumes "observation_wf ob" and "ob_health ob = CollectionReliable" and "pct_ok t"
  shows "evaluate_alert ob t = AlertHealthy \<longleftrightarrow> \<not> below_threshold ob t"
    and "evaluate_alert ob t = AlertExhausted \<longleftrightarrow> ob_remaining ob = zero_pct"
    and "evaluate_alert ob t = AlertHealthy \<Longrightarrow> ob_remaining_known ob \<and> \<not> fle (ob_remaining ob) t"
proof -
  have f: "pct_ok (ob_remaining ob)" "ob_remaining_known ob \<or> ob_explicit ob"
    "ob_explicit ob \<longrightarrow> ob_remaining ob = zero_pct"
    "ob_remaining_known ob \<or> ob_remaining ob = zero_pct"
    using assms(1,2) by (auto simp: observation_wf_def remaining_wf_def)
  then show "evaluate_alert ob t = AlertHealthy \<longleftrightarrow> \<not> below_threshold ob t"
    using zero_le_pct [OF assms(3)] by (auto simp: evaluate_alert_def below_threshold_def)
  from f show "evaluate_alert ob t = AlertExhausted \<longleftrightarrow> ob_remaining ob = zero_pct"
    by (auto simp: evaluate_alert_def)
  from f show "evaluate_alert ob t = AlertHealthy \<Longrightarrow> ob_remaining_known ob \<and> \<not> fle (ob_remaining ob) t"
    by (auto simp: evaluate_alert_def split: if_splits)
qed

definition below_ok :: "current_state option \<Rightarrow> bool" where
  "below_ok prior \<longleftrightarrow> (case prior of None \<Rightarrow> True | Some p \<Rightarrow> 0 \<le> cs_below p \<and> cs_below p < int64_max)"

lemma next_below_eq:
  "below_ok prior \<Longrightarrow>
     next_below ob t prior =
       (if below_threshold ob t then (case prior of None \<Rightarrow> 0 | Some p \<Rightarrow> cs_below p) + 1 else 0)"
  by (auto simp: next_below_def below_ok_def Let_def s64_id in_s64_def int64_min_def int64_max_def
      split: option.splits)

lemma next_below_nonneg: "below_ok prior \<Longrightarrow> 0 \<le> next_below ob t prior"
  by (auto simp: next_below_eq below_ok_def split: option.splits)

text \<open>One sample confirms and no margin: the alert is the level of the observation.\<close>

lemma next_alert_defaults:
  assumes "set_confirmation st \<le> 1" and "below_ok prior" and "fadd t (set_margin st) = t"
    and "observation_wf ob" and "ob_health ob = CollectionReliable" and "pct_ok t"
  shows "next_alert st t ob prior = evaluate_alert ob t"
proof -
  note ev = evaluate_alert_reliable [OF assms(4-6)]
  have "\<not> (alert_severity_rank (evaluate_alert ob t) > alert_severity_rank (prior_alert prior) \<and>
      next_below ob t prior < set_confirmation st)"
  proof (cases "below_threshold ob t")
    case True
    then have "1 \<le> next_below ob t prior"
      using assms(2) by (auto simp: next_below_eq [OF assms(2)] below_ok_def split: option.splits)
    with assms(1) show ?thesis by linarith
  next
    case False
    with ev(1) have "evaluate_alert ob t = AlertHealthy" by simp
    then show ?thesis by (cases "prior_alert prior") auto
  qed
  then have "confirm_alert st ob (next_below ob t prior) (prior_alert prior) (evaluate_alert ob t) =
      evaluate_alert ob t"
    unfolding confirm_alert_def by metis
  with ev(3) assms(3) show ?thesis by (auto simp: next_alert_def hysteresis_alert_def)
qed

section \<open>When an evaluation fails\<close>

text \<open>The inputs of a step as the cycle passes them.\<close>

definition prior_ok :: "current_state option \<Rightarrow> observation \<Rightarrow> bool" where
  "prior_ok prior ob \<longleftrightarrow>
     (case prior of None \<Rightarrow> True | Some p \<Rightarrow> state_wf p \<and> state_times p \<and> cs_transitioned_at p \<le> ob_observed_at ob)"

definition observation_times :: "observation \<Rightarrow> bool" where
  "observation_times ob \<longleftrightarrow> ob_observed_at ob \<noteq> 0 \<and> (ob_reset_known ob \<longrightarrow> ob_reset_at ob \<noteq> 0)"

definition step_ok :: "settings \<Rightarrow> observation \<Rightarrow> current_state option \<Rightarrow> instant \<Rightarrow> bool" where
  "step_ok st ob prior evaluated_at \<longleftrightarrow>
     observation_wf ob \<and> observation_times ob \<and> prior_ok prior ob \<and> below_ok prior \<and>
     trunc_us evaluated_at = evaluated_at \<and> evaluated_at \<noteq> 0 \<and> 0 \<le> set_revision st"

lemma prior_ok_alert: "prior_ok prior ob \<Longrightarrow> \<forall>a. prior_alert prior \<noteq> OtherAlert a"
  by (auto simp: prior_ok_def prior_alert_def state_wf_def split: option.splits)

lemma updated_at_ok:
  assumes "trunc_us e = e" and "trunc_us ob = ob" and "e \<noteq> 0" and "ob \<noteq> 0"
  shows "ob \<le> evaluation_updated_at e ob \<and> e \<le> evaluation_updated_at e ob \<and>
    trunc_us (evaluation_updated_at e ob) = evaluation_updated_at e ob \<and> evaluation_updated_at e ob \<noteq> 0"
  using assms by (simp add: evaluation_updated_at_def)

definition contradicts :: "observation \<Rightarrow> alert_state \<Rightarrow> bool" where
  "contradicts ob alert \<longleftrightarrow> ob_remaining_known ob \<and> (ob_remaining ob = zero_pct) \<noteq> (alert = AlertExhausted)"

lemma reliable_state_sel:
  assumes "remaining_wf (ob_remaining_known ob) (ob_remaining ob)"
  shows "cs_identity (reliable_state st t ob prior at) = ob_identity ob"
    "cs_label (reliable_state st t ob prior at) = ob_label ob"
    "cs_alert (reliable_state st t ob prior at) = next_alert st t ob prior"
    "cs_health (reliable_state st t ob prior at) = CollectionReliable"
    "cs_failure (reliable_state st t ob prior at) = FailureNone"
    "cs_last_reliable (reliable_state st t ob prior at) = ob_observed_at ob"
    "cs_below (reliable_state st t ob prior at) = next_below ob t prior"
    "cs_remaining (reliable_state st t ob prior at) = ob_remaining ob"
    "cs_remaining_known (reliable_state st t ob prior at) = ob_remaining_known ob"
    "cs_reset_at (reliable_state st t ob prior at) = ob_reset_at ob"
    "cs_reset_known (reliable_state st t ob prior at) = ob_reset_known ob"
    "cs_observed_at (reliable_state st t ob prior at) = ob_observed_at ob"
    "cs_revision (reliable_state st t ob prior at) = set_revision st"
    "cs_updated_at (reliable_state st t ob prior at) = evaluation_updated_at at (ob_observed_at ob)"
  using assms by (auto simp: reliable_state_def Let_def remaining_wf_def)

lemma step_ok_facts:
  assumes "step_ok st ob prior at" and "ob_health ob = CollectionReliable"
  shows "identity_wf (ob_identity ob)" "field_ok (ob_label ob)"
    "trunc_us (ob_observed_at ob) = ob_observed_at ob" "reset_wf (ob_reset_known ob) (ob_reset_at ob)"
    "remaining_wf (ob_remaining_known ob) (ob_remaining ob)" "ob_remaining_known ob \<or> ob_explicit ob"
    "ob_observed_at ob \<noteq> 0" "ob_reset_known ob \<longrightarrow> ob_reset_at ob \<noteq> 0" "prior_ok prior ob"
    "below_ok prior" "0 \<le> set_revision st" "trunc_us at = at" "at \<noteq> 0"
  using assms by (auto simp: step_ok_def observation_wf_def observation_times_def)

text \<open>A step on a reliable observation fails exactly when the alert it settles on contradicts the
  measured quota.\<close>

lemma reliable_state_head:
  assumes "step_ok st ob prior at" and "ob_health ob = CollectionReliable"
  shows "state_normalize_head (reliable_state st t ob prior at) = Inr (reliable_state st t ob prior at)"
proof -
  let ?s = "reliable_state st t ob prior at"
  note f = step_ok_facts [OF assms]
  note sel = reliable_state_sel [OF f(5), of st t prior at]
  have a: "\<forall>x. next_alert st t ob prior \<noteq> OtherAlert x"
    using next_alert_cases [OF prior_ok_alert [OF f(9)], of st t ob] by auto
  have tr: "trunc_us (cs_transitioned_at ?s) = cs_transitioned_at ?s"
    "cs_transitioned_at ?s \<le> ob_observed_at ob" "cs_transitioned_at ?s \<noteq> 0"
    using f(3,7,9)
    by (auto simp: reliable_state_def Let_def prior_ok_def state_wf_def state_times_def split: option.splits)
  note up = updated_at_ok [OF f(12,3,13,7)]
  have rec: "?s = ?s\<lparr>cs_identity := ob_identity ob, cs_label := ob_label ob,
      cs_last_reliable := ob_observed_at ob, cs_observed_at := ob_observed_at ob,
      cs_transitioned_at := cs_transitioned_at ?s,
      cs_updated_at := evaluation_updated_at at (ob_observed_at ob)\<rparr>"
    using sel by simp
  show ?thesis
    unfolding state_normalize_head_Inr sel
    by (rule exI [of _ "ob_identity ob"], rule exI [of _ "ob_label ob"], intro conjI)
      (use f tr up a next_below_nonneg [OF f(10)] rec in
        \<open>simp_all only: identity_normalize_id label_normalize_id, simp_all\<close>)
qed

lemma state_tail_reliable:
  assumes "cs_health s = CollectionReliable" and "cs_alert s \<noteq> AlertUnknown"
    and "cs_alert s = AlertExhausted \<or> cs_remaining_known s"
    and "remaining_wf (cs_remaining_known s) (cs_remaining s)"
    and "reset_wf (cs_reset_known s) (cs_reset_at s)" and "cs_reset_known s \<longrightarrow> cs_reset_at s \<noteq> 0"
  shows "state_normalize_tail s =
     (if cs_remaining_known s \<and> (cs_remaining s = zero_pct) \<noteq> (cs_alert s = AlertExhausted)
      then Inl (if cs_remaining s = zero_pct then Required ''exhausted alert state''
                else Conflict ''exhausted alert state'')
      else Inr s)"
proof -
  have p: "pct_ok (cs_remaining s)" using assms(4) by (rule remaining_wf_pct)
  have q: "feq (cs_remaining s) zero_pct \<longleftrightarrow> cs_remaining s = zero_pct"
    "flt zero_pct (cs_remaining s) \<longleftrightarrow> cs_remaining s \<noteq> zero_pct"
    using p by simp_all
  show ?thesis
    unfolding state_normalize_tail_def remaining_normalize_id [OF assms(4)]
      reset_normalize_id [OF assms(5,6)] bindE.simps q
    using assms(1-3) by (cases "cs_remaining_known s"; cases "cs_remaining s = zero_pct") auto
qed

lemma reliable_state_tail:
  assumes "step_ok st ob prior at" and "ob_health ob = CollectionReliable"
  shows "state_normalize_tail (reliable_state st t ob prior at) =
     (if contradicts ob (next_alert st t ob prior)
      then Inl (if ob_remaining ob = zero_pct then Required ''exhausted alert state''
                else Conflict ''exhausted alert state'')
      else Inr (reliable_state st t ob prior at))"
proof -
  note f = step_ok_facts [OF assms]
  note sel = reliable_state_sel [OF f(5), of st t prior at]
  have a: "next_alert st t ob prior \<noteq> AlertUnknown"
    using next_alert_cases [OF prior_ok_alert [OF f(9)], of st t ob] by auto
  have ex: "next_alert st t ob prior = AlertExhausted \<or> ob_remaining_known ob"
    using f(6) next_alert_explicit by blast
  show ?thesis
    using state_tail_reliable [of "reliable_state st t ob prior at", unfolded sel, OF refl a ex f(5,4,8)]
    unfolding contradicts_def .
qed

lemma reliable_state_normalize:
  assumes "step_ok st ob prior at" and "ob_health ob = CollectionReliable"
  shows "state_normalize (reliable_state st t ob prior at) =
     (if contradicts ob (next_alert st t ob prior)
      then Inl (if ob_remaining ob = zero_pct then Required ''exhausted alert state''
                else Conflict ''exhausted alert state'')
      else Inr (reliable_state st t ob prior at))"
  by (simp add: state_normalize_def reliable_state_head [OF assms] reliable_state_tail [OF assms])

section \<open>Events\<close>

text \<open>The hash in hexadecimal is a short non-empty string without spaces.\<close>

definition digest_ok :: "digest \<Rightarrow> bool" where
  "digest_ok D \<longleftrightarrow> (\<forall>x. field_ok (sha256_hex D x))"

lemma event_kind_valid:
  assumes "event_kind st alert prior at = Some k"
  shows "valid_transition k (prior_alert prior) alert \<and> (\<forall>s. k \<noteq> OtherKind s) \<and>
    (k = TransitionReminder \<longleftrightarrow> prior_alert prior = alert) \<and> k \<noteq> TransitionMonitorDegraded"
  using assms
  by (auto simp: event_kind_def transition_kind_of_def prior_alert_def
      split: option.splits if_splits alert_state.splits)

lemma make_event_sel [simp]:
  "ev_identity (make_event D k from s at) = cs_identity s" "ev_label (make_event D k from s at) = cs_label s"
  "ev_kind (make_event D k from s at) = k" "ev_from (make_event D k from s at) = from"
  "ev_to (make_event D k from s at) = cs_alert s" "ev_remaining (make_event D k from s at) = cs_remaining s"
  "ev_remaining_known (make_event D k from s at) = cs_remaining_known s"
  "ev_reset_at (make_event D k from s at) = cs_reset_at s"
  "ev_reset_known (make_event D k from s at) = cs_reset_known s"
  "ev_occurred_at (make_event D k from s at) =
     (if k \<noteq> TransitionReminder then cs_transitioned_at s else at)"
  "ev_acknowledged_at (make_event D k from s at) = 0"
  by (simp_all add: make_event_def Let_def)

lemma make_event_id_ok: "digest_ok D \<Longrightarrow> field_ok (ev_id (make_event D k from s at))"
  by (simp add: make_event_def Let_def event_id_def digest_ok_def)

lemma make_event_normal:
  assumes "digest_ok D" and "state_wf s" and "state_times s" and "trunc_us at = at" and "at \<noteq> 0"
    and "valid_transition k from (cs_alert s)" and "\<forall>x. k \<noteq> OtherKind x" and "\<forall>a. from \<noteq> OtherAlert a"
  shows "event_normalize (make_event D k from s at) = Inr (make_event D k from s at)"
proof (rule event_normalize_id)
  show "event_wf (make_event D k from s at)"
    using assms make_event_id_ok [OF assms(1)] by (simp add: event_wf_def state_wf_def)
  show "event_times (make_event D k from s at)"
    using assms by (simp add: event_times_def state_times_def)
qed

lemma reliable_state_ok:
  assumes "step_ok st ob prior at" and "ob_health ob = CollectionReliable"
    and "\<not> contradicts ob (next_alert st t ob prior)"
  shows "state_wf (reliable_state st t ob prior at)" and "state_times (reliable_state st t ob prior at)"
proof -
  note f = step_ok_facts [OF assms(1,2)]
  note sel = reliable_state_sel [OF f(5), of st t prior at]
  show "state_wf (reliable_state st t ob prior at)"
    by (rule state_normalize_wf [of "reliable_state st t ob prior at"])
      (simp add: reliable_state_normalize [OF assms(1,2)] assms(3))
  have "cs_transitioned_at (reliable_state st t ob prior at) \<noteq> 0"
    using f(7,9) by (auto simp: reliable_state_def Let_def prior_ok_def state_times_def split: option.splits)
  then show "state_times (reliable_state st t ob prior at)"
    using f(8,7) updated_at_ok [OF f(12,3,13,7)] by (simp add: state_times_def sel)
qed

text \<open>A step on a reliable observation, in full.\<close>

lemma evaluate_reliable_eq:
  assumes "step_ok st ob prior at" and "ob_health ob = CollectionReliable" and "digest_ok D"
  shows "evaluate_observation D st t ob prior at =
    (let s = reliable_state st t ob prior at in
     if contradicts ob (cs_alert s)
     then Inl (if ob_remaining ob = zero_pct then Required ''exhausted alert state''
               else Conflict ''exhausted alert state'')
     else Inr (s, map_option (\<lambda>k. make_event D k (prior_alert prior) s at)
                    (event_kind st (cs_alert s) prior at)))"
proof -
  note f = step_ok_facts [OF assms(1,2)]
  note sel = reliable_state_sel(3) [OF f(5), of st t prior at]
  let ?s = "reliable_state st t ob prior at"
  show ?thesis
  proof (cases "contradicts ob (cs_alert ?s)")
    case True
    with assms(2) show ?thesis
      by (simp add: evaluate_observation_def evaluate_reliable_def sel reliable_state_normalize [OF assms(1,2)])
  next
    case False
    then have nc: "\<not> contradicts ob (next_alert st t ob prior)" by (simp add: sel)
    have e: "event_normalize (make_event D k (prior_alert prior) ?s at) = Inr (make_event D k (prior_alert prior) ?s at)"
      if "event_kind st (cs_alert ?s) prior at = Some k" for k
      using make_event_normal [OF assms(3) reliable_state_ok [OF assms(1,2) nc] f(12,13)]
        event_kind_valid [OF that] prior_ok_alert [OF f(9)] by simp
    with False assms(2) nc show ?thesis
      by (auto simp: evaluate_observation_def evaluate_reliable_def sel Let_def
          reliable_state_normalize [OF assms(1,2)] split: option.splits)
  qed
qed

text \<open>What any successful step returns.\<close>

lemma evaluate_reliable_Inr:
  assumes "evaluate_observation D st t ob prior at = Inr (s, e)" and "ob_health ob = CollectionReliable"
  shows "state_normalize (reliable_state st t ob prior at) = Inr s \<and>
    cs_alert s = next_alert st t ob prior \<and>
    (case event_kind st (cs_alert s) prior at of
       None \<Rightarrow> e = None
     | Some k \<Rightarrow> \<exists>x. e = Some x \<and> event_normalize (make_event D k (prior_alert prior) s at) = Inr x)"
proof -
  from assms have n: "state_normalize (reliable_state st t ob prior at) = Inr s"
    by (auto simp: evaluate_observation_def evaluate_reliable_def split: option.splits)
  then have a: "cs_alert s = next_alert st t ob prior"
    using state_normalize_fields [OF n] by (simp add: reliable_state_def Let_def)
  with n assms show ?thesis
    by (auto simp: evaluate_observation_def evaluate_reliable_def split: option.splits)
qed

lemma event_normalize_fields:
  "event_normalize e = Inr n \<Longrightarrow>
     ev_kind n = ev_kind e \<and> ev_from n = ev_from e \<and> ev_to n = ev_to e \<and>
     identity_normalize (ev_identity e) = Inr (ev_identity n) \<and> ev_id n = trim_space (ev_id e) \<and>
     ev_acknowledged_at n = trunc_us (ev_acknowledged_at e)"
  by (auto simp: event_normalize_Inr)


section \<open>Properties of a step\<close>


text \<open>With one confirming sample and no recovery margin, as the defaults have it, a step on a
  well-formed reliable observation never fails: the new alert is exhausted exactly at no
  remaining quota, warning below the threshold and healthy above it.\<close>

theorem evaluate_observation_defaults:
  assumes "step_ok st ob prior at" and "ob_health ob = CollectionReliable" and "digest_ok D"
    and "set_confirmation st \<le> 1" and "fadd t (set_margin st) = t" and "pct_ok t"
  shows "\<exists>s e. evaluate_observation D st t ob prior at = Inr (s, e) \<and>
    cs_alert s = (if ob_remaining ob = zero_pct then AlertExhausted
                  else if fle (ob_remaining ob) t then AlertWarning else AlertHealthy) \<and>
    cs_remaining s = ob_remaining ob \<and> cs_identity s = ob_identity ob"
proof -
  have w: "observation_wf ob" "below_ok prior" using assms(1) by (auto simp: step_ok_def)
  note f = step_ok_facts [OF assms(1,2)]
  note sel = reliable_state_sel [OF f(5), of st t prior at]
  note ev = evaluate_alert_reliable [OF w(1) assms(2,6)]
  have a: "next_alert st t ob prior = evaluate_alert ob t"
    by (rule next_alert_defaults [OF assms(4) w(2) assms(5) w(1) assms(2,6)])
  have nc: "\<not> contradicts ob (next_alert st t ob prior)"
    using ev(2) by (simp add: a contradicts_def)
  have "ob_remaining ob \<noteq> zero_pct \<Longrightarrow> ob_remaining_known ob \<and> \<not> ob_explicit ob"
    using w(1) assms(2) by (auto simp: observation_wf_def remaining_wf_def)
  then have "evaluate_alert ob t = (if ob_remaining ob = zero_pct then AlertExhausted
                  else if fle (ob_remaining ob) t then AlertWarning else AlertHealthy)"
    using ev(2) by (auto simp: evaluate_alert_def)
  with nc show ?thesis
    unfolding evaluate_reliable_eq [OF assms(1-3)] sel a Let_def by (simp add: sel a)
qed

text \<open>C33: Nothing escalates in silence, and what is reported is what happened: a successful step on a
  reliable observation emits an event whenever the alert becomes more severe, and any event it
  emits leads from the previous alert to the new one, is a reminder exactly when they are equal,
  and is a valid transition.\<close>

theorem evaluate_observation_events:
  assumes "evaluate_observation D st t ob prior at = Inr (s, e)" and "ob_health ob = CollectionReliable"
  shows "(alert_severity_rank (cs_alert s) > alert_severity_rank (prior_alert prior) \<longrightarrow>
      (\<forall>a. prior_alert prior \<noteq> OtherAlert a) \<longrightarrow> e \<noteq> None) \<and>
    (\<forall>x. e = Some x \<longrightarrow> ev_from x = prior_alert prior \<and> ev_to x = cs_alert s \<and>
      ev_identity x = cs_identity s \<and> valid_transition (ev_kind x) (ev_from x) (ev_to x) \<and>
      (ev_kind x = TransitionReminder \<longleftrightarrow> ev_from x = ev_to x))"
proof -
  from evaluate_reliable_Inr [OF assms] have
    e: "case event_kind st (cs_alert s) prior at of
       None \<Rightarrow> e = None
     | Some k \<Rightarrow> \<exists>x. e = Some x \<and> event_normalize (make_event D k (prior_alert prior) s at) = Inr x"
    and w: "state_wf s"
    by (auto intro: state_normalize_wf)
  have id: "identity_normalize (cs_identity s) = Inr (cs_identity s)"
    using w by (auto simp: state_wf_def intro: identity_normalize_id)
  have up: "event_kind st (cs_alert s) prior at \<noteq> None"
    if "alert_severity_rank (cs_alert s) > alert_severity_rank (prior_alert prior)"
      and "\<forall>a. prior_alert prior \<noteq> OtherAlert a"
    using that by (cases "cs_alert s"; cases "prior_alert prior")
      (auto simp: event_kind_def transition_kind_of_def)
  show ?thesis
  proof (cases "event_kind st (cs_alert s) prior at")
    case None
    with e up show ?thesis by auto
  next
    case (Some k)
    with e obtain x where x: "e = Some x"
      "event_normalize (make_event D k (prior_alert prior) s at) = Inr x" by auto
    with event_normalize_fields [OF x(2)] event_kind_valid [OF Some] id show ?thesis by auto
  qed
qed

text \<open>A failed collection never changes a known alert and never notifies: a step on an unknown
  observation emits nothing, and where there is a known alert it keeps the alert, the quota, the
  reset time, the counter and the times of the last evidence.\<close>

theorem evaluate_observation_unknown:
  assumes "evaluate_observation D st t ob prior at = Inr (s, e)" and "ob_health ob = CollectionUnknown"
  shows "e = None \<and> cs_health s = CollectionUnknown \<and> cs_failure s = ob_failure ob \<and>
    (\<forall>p. prior = Some p \<longrightarrow> state_wf p \<longrightarrow> state_times p \<longrightarrow> cs_alert p \<noteq> AlertUnknown \<longrightarrow>
      s = p\<lparr>cs_health := CollectionUnknown, cs_failure := ob_failure ob,
            cs_last_reliable := if cs_last_reliable p = 0 then cs_observed_at p else cs_last_reliable p,
            cs_updated_at := trunc_us at\<rparr>)"
proof -
  from assms have e: "e = None" and n: "evaluate_unknown st ob prior at = Inr s"
    by (auto simp: evaluate_observation_def)
  from n have h: "cs_health s = CollectionUnknown \<and> cs_failure s = ob_failure ob"
    by (auto simp: evaluate_unknown_def Let_def unknown_state_def split: option.splits if_splits
        dest!: state_normalize_fields)
  have "s = p\<lparr>cs_health := CollectionUnknown, cs_failure := ob_failure ob,
            cs_last_reliable := if cs_last_reliable p = 0 then cs_observed_at p else cs_last_reliable p,
            cs_updated_at := trunc_us at\<rparr>"
    if p: "prior = Some p" "state_wf p" "state_times p" "cs_alert p \<noteq> AlertUnknown" for p
  proof -
    let ?q = "p\<lparr>cs_health := CollectionUnknown, cs_failure := ob_failure ob,
            cs_last_reliable := if cs_last_reliable p = 0 then cs_observed_at p else cs_last_reliable p\<rparr>"
    have "state_normalize (?q\<lparr>cs_updated_at := at\<rparr>) = Inr s"
      using n p(1,4) by (simp add: evaluate_unknown_def Let_def)
    with p(2,3) show ?thesis
      by (clarsimp simp: state_normalize_def state_normalize_head_Inr state_normalize_tail_Inr
          state_wf_def state_times_def identity_normalize_id label_normalize_id remaining_normalize_id
          reset_normalize_id)
  qed
  with e h show ?thesis by blast
qed

section \<open>The maps of a cycle\<close>

text \<open>Both maps hold normalised values under their own keys.\<close>

definition latest_inv :: "digest \<Rightarrow> (string \<times> observation) list \<Rightarrow> bool" where
  "latest_inv D m \<longleftrightarrow> distinct (map fst m) \<and>
     (\<forall>k ob. map_of m k = Some ob \<longrightarrow> observation_wf ob \<and> stable_key D (ob_identity ob) = Inr k)"

definition previous_inv :: "digest \<Rightarrow> (string \<times> current_state) list \<Rightarrow> bool" where
  "previous_inv D m \<longleftrightarrow> distinct (map fst m) \<and>
     (\<forall>k s. map_of m k = Some s \<longrightarrow> state_wf s \<and> stable_key D (cs_identity s) = Inr k)"

lemma latest_step_Inr:
  assumes "latest_step D m ob = Inr m'" and "latest_inv D m"
  obtains n k where "observation_normalize ob = Inr n" and "stable_key D (ob_identity n) = Inr k"
    and "latest_inv D m'" and "dom (map_of m') = insert k (dom (map_of m))"
    and "\<forall>j x. map_of m' j = Some x \<longrightarrow> x = n \<or> map_of m j = Some x"
proof -
  from assms(1) obtain n k where n: "observation_normalize ob = Inr n" "stable_key D (ob_identity n) = Inr k"
    and m': "m' = AList.update k n m \<or> (m' = m \<and> k \<in> dom (map_of m))"
    by (auto simp: latest_step_def split: option.splits if_splits)
  have u: "latest_inv D (AList.update k n m)"
    using assms(2) n observation_normalize_wf [OF n(1)]
    by (auto simp: latest_inv_def distinct_update update_conv')
  show thesis
    by (rule that [OF n]) (use m' u assms(2) in \<open>auto simp: update_conv' split: if_splits\<close>)
qed

lemma latest_loop:
  assumes "foldE (latest_step D) m obs = Inr m'" and "latest_inv D m"
  shows "latest_inv D m' \<and>
    dom (map_of m') = dom (map_of m) \<union>
      {k. \<exists>ob \<in> set obs. \<exists>n. observation_normalize ob = Inr n \<and> stable_key D (ob_identity n) = Inr k} \<and>
    (\<forall>j x. map_of m' j = Some x \<longrightarrow>
      map_of m j = Some x \<or> (\<exists>ob \<in> set obs. observation_normalize ob = Inr x))"
  using assms
proof (induction obs arbitrary: m)
  case (Cons ob obs)
  from Cons.prems(1) obtain m1 where m1: "latest_step D m ob = Inr m1" "foldE (latest_step D) m1 obs = Inr m'"
    by auto
  obtain n k where n: "observation_normalize ob = Inr n" "stable_key D (ob_identity n) = Inr k"
    and i: "latest_inv D m1" and d: "dom (map_of m1) = insert k (dom (map_of m))"
    and v: "\<forall>j x. map_of m1 j = Some x \<longrightarrow> x = n \<or> map_of m j = Some x"
    by (rule latest_step_Inr [OF m1(1) Cons.prems(2)])
  from Cons.IH [OF m1(2) i] have
      ih: "latest_inv D m'"
        "dom (map_of m') = dom (map_of m1) \<union>
          {k. \<exists>ob \<in> set obs. \<exists>n. observation_normalize ob = Inr n \<and> stable_key D (ob_identity n) = Inr k}"
        "\<forall>j x. map_of m' j = Some x \<longrightarrow>
          map_of m1 j = Some x \<or> (\<exists>ob \<in> set obs. observation_normalize ob = Inr x)"
    by auto
  have "dom (map_of m') = dom (map_of m) \<union>
      {k. \<exists>ob \<in> set (ob # obs). \<exists>n. observation_normalize ob = Inr n \<and> stable_key D (ob_identity n) = Inr k}"
    unfolding ih(2) d using n by auto
  moreover have "\<forall>j x. map_of m' j = Some x \<longrightarrow>
      map_of m j = Some x \<or> (\<exists>ob \<in> set (ob # obs). observation_normalize ob = Inr x)"
    using ih(3) v n(1) by fastforce
  ultimately show ?case using ih(1) by blast
qed simp

lemma previous_loop:
  assumes "foldE (previous_step D) m ss = Inr m'" and "previous_inv D m"
  shows "previous_inv D m' \<and>
    (\<forall>j x. map_of m' j = Some x \<longrightarrow> map_of m j = Some x \<or> (\<exists>s \<in> set ss. state_normalize s = Inr x))"
  using assms
proof (induction ss arbitrary: m)
  case (Cons s ss)
  from Cons.prems(1) obtain m1 where m1: "previous_step D m s = Inr m1" "foldE (previous_step D) m1 ss = Inr m'"
    by auto
  from m1(1) obtain n k where n: "state_normalize s = Inr n" "stable_key D (cs_identity n) = Inr k"
    and "m1 = AList.update k n m"
    by (auto simp: previous_step_def)
  with m1(2) have r: "foldE (previous_step D) (AList.update k n m) ss = Inr m'" by simp
  have "previous_inv D (AList.update k n m)"
    using Cons.prems(2) n state_normalize_wf [OF n(1)]
    by (auto simp: previous_inv_def distinct_update update_conv')
  from Cons.IH [OF r this] n(1) show ?case
    by (auto simp: update_conv' split: if_splits)
qed simp

lemma normalize_latest_inv:
  assumes "normalize_latest_observations D obs = Inr m"
  shows "latest_inv D m"
    and "dom (map_of m) =
      {k. \<exists>ob \<in> set obs. \<exists>n. observation_normalize ob = Inr n \<and> stable_key D (ob_identity n) = Inr k}"
    and "map_of m j = Some x \<Longrightarrow> \<exists>ob \<in> set obs. observation_normalize ob = Inr x"
  using latest_loop [of D "[]" obs m] assms
  by (auto simp: normalize_latest_observations_def latest_inv_def)

lemma normalize_previous_inv:
  assumes "normalize_previous_states D ss = Inr m"
  shows "previous_inv D m" and "map_of m j = Some x \<Longrightarrow> \<exists>s \<in> set ss. state_normalize s = Inr x"
  using previous_loop [of D "[]" ss m] assms
  by (auto simp: normalize_previous_states_def previous_inv_def)

section \<open>The states of a cycle\<close>

text \<open>The identities a cycle hashes, and that no two of them collide.\<close>

definition input_identities :: "evaluation_input \<Rightarrow> state_identity set" where
  "input_identities inp =
     {i. \<exists>ob \<in> set (in_observations inp). identity_normalize (ob_identity ob) = Inr i} \<union>
     {i. \<exists>s \<in> set (in_previous inp). identity_normalize (cs_identity s) = Inr i}"

definition no_collision :: "digest \<Rightarrow> state_identity set \<Rightarrow> bool" where
  "no_collision D ids \<longleftrightarrow> inj_on (\<lambda>i. sha256_hex D (hash_fields (identity_fields i))) ids"

lemma no_collision_key:
  assumes "no_collision D ids" and "i \<in> ids" and "j \<in> ids" and "identity_wf i" and "identity_wf j"
    and "stable_key D i = Inr k" and "stable_key D j = Inr k"
  shows "i = j"
  using assms by (auto simp: no_collision_def stable_key_eq dest: inj_onD)

lemma observation_normalize_identity:
  "observation_normalize ob = Inr n \<Longrightarrow> identity_normalize (ob_identity ob) = Inr (ob_identity n)"
  by (auto simp: observation_normalize_def Let_def split: if_splits)

lemma state_normalize_identity:
  "state_normalize s = Inr n \<Longrightarrow> identity_normalize (cs_identity s) = Inr (cs_identity n)"
  by (simp add: state_normalize_fields)

lemma identity_normalize_of_wf: "identity_wf i \<Longrightarrow> identity_normalize i = Inr j \<Longrightarrow> j = i"
  by (simp add: identity_normalize_id)

text \<open>A step returns the state of the identity it observes.\<close>

lemma evaluate_observation_identity:
  assumes "evaluate_observation D st t ob prior at = Inr (s, e)" and "observation_wf ob"
    and "\<And>p. prior = Some p \<Longrightarrow> cs_identity p = ob_identity ob"
  shows "cs_identity s = ob_identity ob \<and> state_wf s"
proof -
  have w: "identity_wf (ob_identity ob)" using assms(2) by (simp add: observation_wf_def)
  have "\<exists>x. state_normalize x = Inr s \<and> cs_identity x = ob_identity ob"
  proof (cases "ob_health ob = CollectionUnknown")
    case True
    with assms(1) have "evaluate_unknown st ob prior at = Inr s" by (auto simp: evaluate_observation_def)
    with assms(3) show ?thesis
      by (cases prior) (auto simp: evaluate_unknown_def Let_def unknown_state_def split: if_splits)
  next
    case False
    with assms(1,2) have "state_normalize (reliable_state st t ob prior at) = Inr s"
      by (auto simp: evaluate_observation_def evaluate_reliable_def split: option.splits)
    then show ?thesis by (intro exI conjI) (auto simp: reliable_state_def Let_def)
  qed
  then obtain x where x: "state_normalize x = Inr s" "cs_identity x = ob_identity ob" by blast
  from state_normalize_identity [OF x(1)] x(2) identity_normalize_of_wf [OF w] state_normalize_wf [OF x(1)]
  show ?thesis by simp
qed

text \<open>The loop over the keys appends one state for each enabled identity, in their order.\<close>

definition provider_enabled :: "(string \<times> bool \<times> go_float) list \<Rightarrow> string \<Rightarrow> bool" where
  "provider_enabled configs p = (case map_of configs p of None \<Rightarrow> False | Some c \<Rightarrow> fst c)"

lemma cycle_step_Inr:
  "cycle_step D st configs previous at (ss, es) (k, ob) = Inr acc \<longleftrightarrow>
    (if provider_enabled configs (si_provider (ob_identity ob))
     then (\<exists>t s e. map_of configs (si_provider (ob_identity ob)) = Some (True, t) \<and>
             evaluate_observation D st t ob (map_of previous k) at = Inr (s, e) \<and>
             acc = (ss @ [s], es @ (case e of None \<Rightarrow> [] | Some x \<Rightarrow> [x])))
     else acc = (ss, es))"
  by (auto simp: cycle_step_def provider_enabled_def Let_def split: option.splits prod.splits if_splits)

lemma cycle_loop:
  assumes "foldE (cycle_step D st configs previous at) (ss, es) kobs = Inr (ss', es')"
    and "\<And>k ob. (k, ob) \<in> set kobs \<Longrightarrow> observation_wf ob"
    and "\<And>k ob p. (k, ob) \<in> set kobs \<Longrightarrow> map_of previous k = Some p \<Longrightarrow> cs_identity p = ob_identity ob"
  shows "\<exists>new. ss' = ss @ new \<and> (\<forall>s \<in> set new. state_wf s) \<and>
    map cs_identity new = map (\<lambda>(k, ob). ob_identity ob)
      (filter (\<lambda>(k, ob). provider_enabled configs (si_provider (ob_identity ob))) kobs)"
  using assms
proof (induction kobs arbitrary: ss es)
  case (Cons kob kobs)
  obtain k ob where kob: "kob = (k, ob)" by (cases kob)
  from Cons.prems(1) obtain s1 e1 where
      step: "cycle_step D st configs previous at (ss, es) (k, ob) = Inr (s1, e1)"
    and rest: "foldE (cycle_step D st configs previous at) (s1, e1) kobs = Inr (ss', es')"
    by (auto simp: kob)
  from Cons.IH [OF rest] Cons.prems(2,3) obtain new where
      new: "ss' = s1 @ new" "\<forall>s \<in> set new. state_wf s"
        "map cs_identity new = map (\<lambda>(k, ob). ob_identity ob)
          (filter (\<lambda>(k, ob). provider_enabled configs (si_provider (ob_identity ob))) kobs)"
    by (metis list.set_intros(2))
  show ?case
  proof (cases "provider_enabled configs (si_provider (ob_identity ob))")
    case True
    with step obtain t s e where
        s: "evaluate_observation D st t ob (map_of previous k) at = Inr (s, e)" "s1 = ss @ [s]"
      by (auto simp: cycle_step_Inr)
    have "cs_identity s = ob_identity ob \<and> state_wf s"
      by (rule evaluate_observation_identity [OF s(1)]) (use Cons.prems(2) [of k ob] Cons.prems(3) [of k ob] kob in auto)
    with new s(2) True show ?thesis by (intro exI [of _ "s # new"]) (simp add: kob)
  next
    case False
    with step have "s1 = ss" by (simp add: cycle_step_Inr)
    with new False show ?thesis by (intro exI [of _ new]) (simp add: kob)
  qed
qed simp

text \<open>A failing step fails the cycle.\<close>

lemma foldE_fails:
  assumes "x \<in> set xs" and "\<And>s. \<exists>e. f s x = Inl e"
  shows "\<exists>e. foldE f s xs = Inl e"
  using assms(1)
proof (induction xs arbitrary: s)
  case (Cons y ys)
  show ?case
  proof (cases "f s y")
    case (Inr s')
    with assms(2) [of s] have "x \<noteq> y" by auto
    with Cons Inr show ?thesis by simp
  qed simp
qed simp

lemma evaluate_observations_Inr:
  assumes "evaluate_observations D inp = Inr r" and "normalized_evaluation_settings (in_settings inp) = Inr st"
    and "set_enabled st"
  obtains previous latest where "normalize_previous_states D (in_previous inp) = Inr previous"
    and "normalize_latest_observations D (in_observations inp) = Inr latest"
    and "foldE (cycle_step D st (evaluation_provider_settings st) previous (trunc_us (in_evaluated_at inp)))
           ([], []) (sorted_observations latest) = Inr (res_states r, res_events r)"
    and "group_transition_events D (res_events r) (trunc_us (in_evaluated_at inp)) = Inr (res_batches r)"
  using assms by (auto simp: evaluate_observations_def Let_def)

text \<open>The keys in order are strictly in the order of their identities.\<close>

lemma identity_order_inj: "identity_order i = identity_order j \<Longrightarrow> i = j"
  by (cases i; cases j) (simp add: identity_order_def)

lemma sorted_observations_strict:
  assumes "latest_inv D m"
  shows "sorted_wrt (\<lambda>a b. identity_order (ob_identity (snd a)) < identity_order (ob_identity (snd b)))
    (sorted_observations m)"
proof -
  let ?f = "\<lambda>a. identity_order (ob_identity (snd a))"
  have d: "distinct (map fst m)" using assms by (simp add: latest_inv_def)
  have "inj_on ?f (set m)"
  proof (rule inj_onI)
    fix a b assume ab: "a \<in> set m" "b \<in> set m" "?f a = ?f b"
    then have "ob_identity (snd a) = ob_identity (snd b)" by (blast dest: identity_order_inj)
    moreover have "stable_key D (ob_identity (snd x)) = Inr (fst x)" if "x \<in> set m" for x
      using assms d that by (cases x) (auto simp: latest_inv_def)
    ultimately have "fst a = fst b" using ab(1,2) by (metis Inr_inject)
    with ab d show "a = b" by (metis eq_key_imp_eq_value prod.collapse)
  qed
  then have "distinct (map ?f m)" using d by (simp add: distinct_map)
  then have "distinct (map ?f (sort_key ?f m))" by (simp add: distinct_map)
  then have "sorted_wrt (<) (map ?f (sort_key ?f m))"
    by (simp add: strict_sorted_iff)
  then show ?thesis by (simp add: sorted_observations_def sorted_wrt_map case_prod_beta')
qed

section \<open>The batches of a cycle\<close>

lemma mapE_list_all2: "mapE f xs = Inr ys \<longleftrightarrow> list_all2 (\<lambda>x y. f x = Inr y) xs ys"
proof (induction xs arbitrary: ys)
  case Nil
  then show ?case by auto
next
  case (Cons x xs)
  then show ?case by (cases ys) auto
qed

lemma mapE_fixed: "(\<And>x. x \<in> set xs \<Longrightarrow> f x = Inr x) \<Longrightarrow> mapE f xs = Inr xs"
  by (induction xs) auto

lemma mset_partition:
  assumes "distinct ps" and "\<forall>x \<in> set xs. g x \<in> set ps"
  shows "mset (concat (map (\<lambda>p. filter (\<lambda>x. g x = p) xs) ps)) = mset xs"
  using assms
proof (induction ps arbitrary: xs)
  case (Cons p ps)
  have "concat (map (\<lambda>q. filter (\<lambda>x. g x = q) xs) ps) =
      concat (map (\<lambda>q. filter (\<lambda>x. g x = q) (filter (\<lambda>x. g x \<noteq> p) xs)) ps)"
    using Cons.prems(1) by (auto intro!: arg_cong [of _ _ concat] filter_cong)
  moreover from Cons.prems have "\<forall>x \<in> set (filter (\<lambda>x. g x \<noteq> p) xs). g x \<in> set ps" by auto
  then have "mset (concat (map (\<lambda>q. filter (\<lambda>x. g x = q) (filter (\<lambda>x. g x \<noteq> p) xs)) ps)) =
      mset (filter (\<lambda>x. g x \<noteq> p) xs)"
    using Cons.IH [of "filter (\<lambda>x. g x \<noteq> p) xs"] Cons.prems(1) by (simp only: distinct.simps)
  ultimately have "mset (concat (map (\<lambda>q. filter (\<lambda>x. g x = q) xs) ps)) = mset (filter (\<lambda>x. g x \<noteq> p) xs)"
    by (simp only:)
  then show ?case by (simp add: mset_filter multiset_partition [symmetric])
qed simp

text \<open>An event the evaluator emits: normal, and not acknowledged.\<close>

definition event_fresh :: "transition_event \<Rightarrow> bool" where
  "event_fresh e \<longleftrightarrow> event_normalize e = Inr e \<and> ev_acknowledged_at e = 0"

lemma canonical_of_fresh: "event_fresh e \<Longrightarrow> canonical_of p e c \<Longrightarrow> c = e"
  by (cases e) (auto simp: event_fresh_def canonical_of_def)

lemma new_batch_fresh:
  assumes "new_notification_batch D p es t = Inr b" and "\<forall>e \<in> set es. event_fresh e"
  shows "mset (nb_events b) = mset es"
proof -
  from new_batch_Inr [OF assms(1)] obtain cs where cs: "mset (nb_events b) = mset cs"
      "list_all2 (canonical_of p) es cs" by auto
  from cs(2) assms(2) have "cs = es"
    by (induction rule: list_all2_induct) (auto dest: canonical_of_fresh)
  with cs(1) show ?thesis by simp
qed

lemma strict_sorted_sort_remdups: "sorted_wrt (<) (sort (remdups xs))"
  by (simp add: strict_sorted_iff)

text \<open>Every event of a cycle is delivered in exactly one batch: the batches are ordered by
  provider, one for each provider with events, none is larger than the limit, each lists its
  events in the order of the stable key with distinct identifiers, and together they hold every
  event once.\<close>

theorem group_transition_events_partition:
  assumes "group_transition_events D es t = Inr bs" and "\<forall>e \<in> set es. event_fresh e"
  shows "mset (concat (map nb_events bs)) = mset es \<and>
    sorted_wrt (<) (map nb_provider bs) \<and>
    (\<forall>b \<in> set bs. nb_events b \<noteq> [] \<and> length (nb_events b) \<le> 100 \<and>
       (\<forall>e \<in> set (nb_events b). si_provider (ev_identity e) = nb_provider b) \<and>
       sorted (map (event_sort_key D) (nb_events b)) \<and> distinct (map ev_id (nb_events b)))"
proof -
  let ?g = "\<lambda>e. si_provider (ev_identity e)"
  let ?ps = "sort (remdups (map ?g es))"
  let ?part = "\<lambda>p. filter (\<lambda>e. ?g e = p) es"
  have "mapE event_normalize es = Inr es"
    using assms(2) by (intro mapE_fixed) (simp add: event_fresh_def)
  with assms(1) have "mapE (\<lambda>p. new_notification_batch D p (?part p) t) ?ps = Inr bs"
    by (simp add: group_transition_events_def)
  then have l: "list_all2 (\<lambda>p b. new_notification_batch D p (?part p) t = Inr b) ?ps bs"
    by (simp add: mapE_list_all2)
  have fresh: "\<forall>e \<in> set (?part p). event_fresh e" for p using assms(2) by auto
  have b: "new_notification_batch D p (?part p) t = Inr b \<Longrightarrow>
      nb_provider b = p \<and> mset (nb_events b) = mset (?part p)" for p b
    using new_batch_Inr new_batch_fresh [OF _ fresh] by blast
  from l have "map nb_provider bs = ?ps \<and>
      mset (concat (map nb_events bs)) = mset (concat (map ?part ?ps))"
    by (induction rule: list_all2_induct) (auto dest!: b)
  moreover have "mset (concat (map ?part ?ps)) = mset es"
    by (rule mset_partition) auto
  moreover have "nb_events x \<noteq> [] \<and> length (nb_events x) \<le> 100 \<and>
       (\<forall>e \<in> set (nb_events x). ?g e = nb_provider x) \<and>
       sorted (map (event_sort_key D) (nb_events x)) \<and> distinct (map ev_id (nb_events x))"
    if "x \<in> set bs" for x
  proof -
    from l that obtain p where p: "new_notification_batch D p (?part p) t = Inr x"
      by (auto simp: list_all2_conv_all_nth in_set_conv_nth)
    from b [OF p] have m: "mset (nb_events x) = mset (?part p)" "nb_provider x = p" by auto
    then have "set (nb_events x) = set (?part p)" "length (nb_events x) = length (?part p)"
      by (metis set_mset_mset) (metis m(1) size_mset)
    with new_batch_Inr [OF p] m(2) show ?thesis by auto
  qed
  ultimately show ?thesis by (simp add: strict_sorted_sort_remdups)
qed

lemma cycle_states:
  assumes "evaluate_observations D inp = Inr r"
    and "normalized_evaluation_settings (in_settings inp) = Inr st" and "set_enabled st"
    and "no_collision D (input_identities inp)"
  shows "sorted_wrt (\<lambda>i j. identity_order i < identity_order j) (map cs_identity (res_states r)) \<and>
    cs_identity ` set (res_states r) =
      {i. \<exists>ob \<in> set (in_observations inp). identity_normalize (ob_identity ob) = Inr i \<and>
          provider_enabled (evaluation_provider_settings st) (si_provider i)} \<and>
    (\<forall>s \<in> set (res_states r). state_wf s)"
proof -
  let ?cfg = "evaluation_provider_settings st"
  let ?on = "\<lambda>(k, ob). provider_enabled ?cfg (si_provider (ob_identity ob))"
  from evaluate_observations_Inr [OF assms(1-3)] obtain previous latest where
      prev: "normalize_previous_states D (in_previous inp) = Inr previous"
    and lat: "normalize_latest_observations D (in_observations inp) = Inr latest"
    and run: "foldE (cycle_step D st ?cfg previous (trunc_us (in_evaluated_at inp))) ([], [])
        (sorted_observations latest) = Inr (res_states r, res_events r)"
    by blast
  note li = normalize_latest_inv [OF lat]
  note pi = normalize_previous_inv [OF prev]
  have set_latest: "(k, ob) \<in> set latest \<longleftrightarrow> map_of latest k = Some ob" for k ob
    using li(1) by (simp add: latest_inv_def)
  have lwf: "observation_wf ob" "stable_key D (ob_identity ob) = Inr k" "ob_identity ob \<in> input_identities inp"
    if "map_of latest k = Some ob" for k ob
    using li(1) that li(3) [OF that] by (auto simp: latest_inv_def input_identities_def dest: observation_normalize_identity)
  have same: "cs_identity p = ob_identity ob"
    if "map_of latest k = Some ob" and "map_of previous k = Some p" for k ob p
  proof (rule no_collision_key [OF assms(4)])
    show "cs_identity p \<in> input_identities inp"
      using pi(2) [OF that(2)] by (auto simp: input_identities_def dest: state_normalize_identity)
    show "identity_wf (cs_identity p)" "stable_key D (cs_identity p) = Inr k"
      using pi(1) that(2) by (auto simp: previous_inv_def state_wf_def)
    show "ob_identity ob \<in> input_identities inp" "identity_wf (ob_identity ob)"
        "stable_key D (ob_identity ob) = Inr k"
      using lwf [OF that(1)] by (auto simp: observation_wf_def)
  qed
  have set_sorted: "set (sorted_observations latest) = set latest"
    by (simp add: sorted_observations_def)
  obtain new where new: "res_states r = new" "\<forall>s \<in> set new. state_wf s"
    "map cs_identity new = map (\<lambda>(k, ob). ob_identity ob) (filter ?on (sorted_observations latest))"
    using cycle_loop [OF run] lwf(1) same unfolding set_sorted set_latest by auto
  have "sorted_wrt (\<lambda>a b. identity_order (ob_identity (snd a)) < identity_order (ob_identity (snd b)))
      (filter ?on (sorted_observations latest))"
    by (rule sorted_wrt_filter [OF sorted_observations_strict [OF li(1)]])
  then have "sorted_wrt (\<lambda>i j. identity_order i < identity_order j) (map cs_identity new)"
    unfolding new(3) by (simp add: sorted_wrt_map case_prod_beta')
  moreover have "cs_identity ` set new = {i. \<exists>ob \<in> set (in_observations inp).
      identity_normalize (ob_identity ob) = Inr i \<and> provider_enabled ?cfg (si_provider i)}" (is "_ = ?I")
  proof -
    have "cs_identity ` set new = (\<lambda>(k, ob). ob_identity ob) ` {x \<in> set latest. ?on x}"
      using arg_cong [OF new(3), of set] by (simp add: set_sorted)
    also have "\<dots> = ?I"
    proof (intro set_eqI iffI)
      fix i assume "i \<in> (\<lambda>(k, ob). ob_identity ob) ` {x \<in> set latest. ?on x}"
      then obtain k ob where "map_of latest k = Some ob" "?on (k, ob)" "i = ob_identity ob"
        by (auto simp: set_latest)
      with li(3) show "i \<in> ?I" by (fastforce dest: observation_normalize_identity)
    next
      fix i assume "i \<in> ?I"
      then obtain ob where ob: "ob \<in> set (in_observations inp)" "identity_normalize (ob_identity ob) = Inr i"
        "provider_enabled ?cfg (si_provider i)" by auto
      have iw: "identity_wf i" by (rule identity_normalize_wf [OF ob(2)])
      obtain n where n: "observation_normalize ob = Inr n"
      proof (cases "observation_normalize ob")
        case (Inl e)
        then have "\<exists>e. latest_step D m ob = Inl e" for m by (simp add: latest_step_def)
        from foldE_fails [where f = "latest_step D" and s = "[]", OF ob(1) this] lat show ?thesis
          by (auto simp: normalize_latest_observations_def)
      qed
      then have ni: "ob_identity n = i" using ob(2) by (auto dest: observation_normalize_identity)
      then obtain k where k: "stable_key D (ob_identity n) = Inr k" using iw by (simp add: stable_key_eq)
      with n ob(1) li(2) obtain x where x: "map_of latest k = Some x" by blast
      have "ob_identity x = i"
      proof (rule no_collision_key [OF assms(4)])
        show "i \<in> input_identities inp" using ob by (auto simp: input_identities_def)
        show "stable_key D i = Inr k" using k ni by simp
      qed (use lwf [OF x] iw in \<open>auto simp: observation_wf_def\<close>)
      with x ob(3) show "i \<in> (\<lambda>(k, ob). ob_identity ob) ` {x \<in> set latest. ?on x}"
        by (force simp: set_latest image_iff)
    qed
    finally show ?thesis .
  qed
  ultimately show ?thesis using new(1,2) by simp
qed

text \<open>C34: A cycle yields exactly one state for each identity observed on an enabled provider, in the
  strict order of provider, credential, resource and window, and every state is well formed,
  where the hash keys of the identities at hand do not collide.\<close>

theorem evaluate_observations_states:
  assumes "evaluate_observations D inp = Inr r"
    and "normalized_evaluation_settings (in_settings inp) = Inr st" and "set_enabled st"
    and "no_collision D (input_identities inp)"
  shows "sorted_wrt (\<lambda>i j. identity_order i < identity_order j) (map cs_identity (res_states r)) \<and>
    cs_identity ` set (res_states r) =
      {i. \<exists>ob \<in> set (in_observations inp). identity_normalize (ob_identity ob) = Inr i \<and>
          provider_enabled (evaluation_provider_settings st) (si_provider i)} \<and>
    (\<forall>s \<in> set (res_states r). state_wf s)"
  using cycle_states [OF assms] .

section \<open>Where the gates contradict the evidence\<close>

lemma confirmation_rejects_zero_remaining:
  assumes "step_ok st ob prior at" and "ob_health ob = CollectionReliable" and "digest_ok D"
    and "ob_remaining_known ob" and "ob_remaining ob = zero_pct" and "\<not> ob_explicit ob"
    and "prior_alert prior \<noteq> AlertExhausted" and "next_below ob t prior < set_confirmation st"
  shows "evaluate_observation D st t ob prior at = Inl (Required ''exhausted alert state'')"
proof -
  have "\<forall>a. prior_alert prior \<noteq> OtherAlert a"
    using assms(1) by (intro prior_ok_alert) (auto simp: step_ok_def)
  then have "next_alert st t ob prior \<noteq> AlertExhausted"
    using assms(4-8) by (cases "prior_alert prior")
      (auto simp: next_alert_def confirm_alert_def hysteresis_alert_def evaluate_alert_def)
  with assms(4,5) show ?thesis
    by (simp add: evaluate_reliable_eq [OF assms(1-3)] contradicts_def Let_def
        reliable_state_sel(3) [OF step_ok_facts(5) [OF assms(1,2)]])
qed

lemma margin_rejects_recovery:
  assumes "step_ok st ob prior at" and "ob_health ob = CollectionReliable" and "digest_ok D"
    and "ob_remaining_known ob" and "ob_remaining ob \<noteq> zero_pct" and "prior_alert prior = AlertExhausted"
    and "\<not> fle (ob_remaining ob) t" and "fle (ob_remaining ob) (fadd t (set_margin st))"
  shows "evaluate_observation D st t ob prior at = Inl (Conflict ''exhausted alert state'')"
proof -
  have "observation_wf ob" using assms(1) by (simp add: step_ok_def)
  then have x: "\<not> ob_explicit ob" "\<not> feq (ob_remaining ob) zero_pct"
    using assms(2,4,5) by (auto simp: observation_wf_def remaining_wf_def)
  then have "next_alert st t ob prior = AlertExhausted"
    using assms(4-8) by (simp add: next_alert_def confirm_alert_def hysteresis_alert_def evaluate_alert_def)
  with assms(4,5) show ?thesis
    by (simp add: evaluate_reliable_eq [OF assms(1-3)] contradicts_def Let_def
        reliable_state_sel(3) [OF step_ok_facts(5) [OF assms(1,2)]])
qed

text \<open>C35: Two settings the validation accepts make a step fail on legitimate input, and one failing step
  fails the whole cycle. With more than one confirming sample, a measured remaining quota of zero
  that the provider does not flag is held back to the previous alert, which a state with no
  remaining quota must not have. With a recovery margin, a quota that has come back, but not above
  the margin, keeps the exhausted alert, which a state with remaining quota must not have.\<close>

theorem gated_alert_rejected:
  assumes "step_ok st ob prior at" and "ob_health ob = CollectionReliable" and "digest_ok D"
    and "ob_remaining_known ob"
  shows "(ob_remaining ob = zero_pct \<and> \<not> ob_explicit ob \<and> prior_alert prior \<noteq> AlertExhausted \<and>
       next_below ob t prior < set_confirmation st \<longrightarrow>
       evaluate_observation D st t ob prior at = Inl (Required ''exhausted alert state'')) \<and>
    (ob_remaining ob \<noteq> zero_pct \<and> prior_alert prior = AlertExhausted \<and> \<not> fle (ob_remaining ob) t \<and>
       fle (ob_remaining ob) (fadd t (set_margin st)) \<longrightarrow>
       evaluate_observation D st t ob prior at = Inl (Conflict ''exhausted alert state''))"
  using confirmation_rejects_zero_remaining [OF assms] margin_rejects_recovery [OF assms] by blast

text \<open>The tie break between two observations of one identity at one time never applies: the sort
  keys of one identity are equal, so the first observation of the input stays.\<close>

lemma latest_step_tie:
  assumes "map_of m k = Some prior" and "observation_normalize ob = Inr n"
    and "stable_key D (ob_identity n) = Inr k" and "ob_identity n = ob_identity prior"
    and "ob_observed_at n = ob_observed_at prior"
  shows "latest_step D m ob = Inr m"
  using assms by (simp add: latest_step_def observation_sort_key_def)

section \<open>Witnesses\<close>

definition demo_digest :: digest where
  "demo_digest = \<lparr>sha256_hex = (\<lambda>_. ''k''), format_float = (\<lambda>_. ''0''), format_time = (\<lambda>_. ''t'')\<rparr>"

definition demo_settings :: settings where
  "demo_settings = default_settings\<lparr>set_enabled := True\<rparr>"

definition demo_identity :: state_identity where
  "demo_identity = \<lparr>si_auth = ''a'', si_provider = ''codex'', si_resource = ''r'', si_window = ''w''\<rparr>"

definition demo_observation :: "int \<Rightarrow> observation" where
  "demo_observation n =
     \<lparr>ob_identity = demo_identity, ob_label = ''l'', ob_health = CollectionReliable,
      ob_failure = FailureNone, ob_remaining = flt_of_int n, ob_remaining_known = True,
      ob_explicit = False, ob_reset_at = 0, ob_reset_known = False, ob_observed_at = 5000\<rparr>"

definition demo_unknown :: observation where
  "demo_unknown = (demo_observation 0)\<lparr>ob_health := CollectionUnknown, ob_failure := FailureTimeout,
     ob_remaining_known := False\<rparr>"

definition demo_state :: "alert_state \<Rightarrow> int \<Rightarrow> current_state" where
  "demo_state a n =
     \<lparr>cs_identity = demo_identity, cs_label = ''l'', cs_alert = a, cs_health = CollectionReliable,
      cs_failure = FailureNone, cs_last_reliable = 2000, cs_below = 0, cs_remaining = flt_of_int n,
      cs_remaining_known = True, cs_reset_at = 0, cs_reset_known = False, cs_observed_at = 2000,
      cs_transitioned_at = 1000, cs_updated_at = 3000, cs_revision = 0\<rparr>"

lemma demo_fields [simp]: "field_ok ''a''" "field_ok ''l''" "field_ok ''r''" "field_ok ''w''" "field_ok ''k''"
  by (simp_all add: field_ok_def MaxFieldLength_def trim_eval)

lemma demo_identity_wf [simp]: "identity_wf demo_identity"
  by (simp add: identity_wf_def demo_identity_def supported_providers_def)

lemma demo_digest_ok [simp]: "digest_ok demo_digest"
  by (simp add: digest_ok_def demo_digest_def)

lemma pct_ok_flt_of_int [simp]: "pct_ok (flt_of_int n) \<longleftrightarrow> 0 \<le> n \<and> n \<le> 100"
  by (simp add: pct_ok_def flt_of_int_def)

lemma trunc_us_thousand [simp]:
  "trunc_us 1000 = 1000" "trunc_us 2000 = 2000" "trunc_us 3000 = 3000" "trunc_us 5000 = 5000"
  "trunc_us 9000 = 9000"
  by (simp_all add: trunc_us_def microsecond_def)

lemma demo_observation_wf [simp]: "0 \<le> n \<Longrightarrow> n \<le> 100 \<Longrightarrow> observation_wf (demo_observation n)"
  by (simp add: observation_wf_def demo_observation_def reset_wf_def remaining_wf_def zero_pct_def)

lemma demo_unknown_wf [simp]: "observation_wf demo_unknown"
  by (simp add: observation_wf_def demo_unknown_def demo_observation_def reset_wf_def remaining_wf_def
      zero_pct_def)

lemma demo_state_wf:
  "state_wf (demo_state AlertWarning 5)" "state_wf (demo_state AlertExhausted 0)" "state_times (demo_state a n)"
  by (simp_all add: state_wf_def state_times_def demo_state_def reset_wf_def remaining_wf_def zero_pct_def)

lemma demo_step_ok:
  "0 \<le> n \<Longrightarrow> n \<le> 100 \<Longrightarrow> step_ok demo_settings (demo_observation n) (Some (demo_state AlertWarning 5)) 9000"
  "0 \<le> n \<Longrightarrow> n \<le> 100 \<Longrightarrow> step_ok demo_settings (demo_observation n) (Some (demo_state AlertExhausted 0)) 9000"
  using demo_state_wf
  by (simp_all add: step_ok_def observation_times_def prior_ok_def below_ok_def demo_settings_def
      default_settings_def int64_max_def) (simp_all add: demo_observation_def demo_state_def)

lemma demo_observation_sel [simp]:
  "ob_identity (demo_observation n) = demo_identity" "ob_label (demo_observation n) = ''l''"
  "ob_health (demo_observation n) = CollectionReliable" "ob_failure (demo_observation n) = FailureNone"
  "ob_remaining (demo_observation n) = flt_of_int n" "ob_remaining_known (demo_observation n)"
  "\<not> ob_explicit (demo_observation n)" "ob_observed_at (demo_observation n) = 5000"
  by (simp_all add: demo_observation_def)

abbreviation demo_warned :: "current_state option" where
  "demo_warned \<equiv> Some (demo_state AlertWarning 5)"

lemma demo_alert:
  "next_alert demo_settings (flt_of_int 10) (demo_observation 0) demo_warned = AlertExhausted"
  by (simp add: next_alert_def hysteresis_alert_def confirm_alert_def evaluate_alert_def next_below_def
      below_threshold_def demo_state_def demo_settings_def default_settings_def
      prior_alert_def zero_pct_def DefaultConfirmationSamples_def s64_def)

lemma demo_kind:
  "event_kind demo_settings AlertExhausted demo_warned 9000 = Some TransitionExhausted"
  "prior_alert demo_warned = AlertWarning"
  by (simp_all add: event_kind_def transition_kind_of_def prior_alert_def demo_state_def)

lemma demo_run:
  "evaluate_observation demo_digest demo_settings (flt_of_int 10) (demo_observation 0) demo_warned 9000 =
     Inr (reliable_state demo_settings (flt_of_int 10) (demo_observation 0) demo_warned 9000,
       Some (make_event demo_digest TransitionExhausted AlertWarning
         (reliable_state demo_settings (flt_of_int 10) (demo_observation 0) demo_warned 9000) 9000))"
  "cs_alert (reliable_state demo_settings (flt_of_int 10) (demo_observation 0) demo_warned 9000) = AlertExhausted"
proof -
  show a: "cs_alert (reliable_state demo_settings (flt_of_int 10) (demo_observation 0) demo_warned 9000) =
      AlertExhausted"
    by (simp add: reliable_state_def Let_def demo_alert)
  show "evaluate_observation demo_digest demo_settings (flt_of_int 10) (demo_observation 0) demo_warned 9000 =
     Inr (reliable_state demo_settings (flt_of_int 10) (demo_observation 0) demo_warned 9000,
       Some (make_event demo_digest TransitionExhausted AlertWarning
         (reliable_state demo_settings (flt_of_int 10) (demo_observation 0) demo_warned 9000) 9000))"
    using evaluate_reliable_eq [OF demo_step_ok(1) [of 0], of demo_digest "flt_of_int 10"]
    by (simp add: Let_def a demo_kind contradicts_def zero_pct_def)
qed


theorem evaluate_observation_defaults_witness:
  "\<exists>s e. evaluate_observation demo_digest demo_settings (flt_of_int 10) (demo_observation 50)
     (Some (demo_state AlertExhausted 0)) 9000 = Inr (s, e) \<and> cs_alert s = AlertHealthy"
proof -
  have m: "fadd (flt_of_int 10) (set_margin demo_settings) = flt_of_int 10" "set_confirmation demo_settings \<le> 1"
    by (simp_all add: demo_settings_def default_settings_def DefaultConfirmationSamples_def
        DefaultRecoveryMargin_def fadd_flt_of_int)
  show ?thesis
    using evaluate_observation_defaults [OF demo_step_ok(2) [of 50] _ demo_digest_ok m(2,1)]
    by (simp add: zero_pct_def) blast
qed

theorem evaluate_observation_events_witness:
  "valid_transition TransitionExhausted AlertWarning AlertExhausted \<and>
   evaluate_observation demo_digest demo_settings (flt_of_int 10) (demo_observation 0) demo_warned 9000 \<noteq>
     Inr (reliable_state demo_settings (flt_of_int 10) (demo_observation 0) demo_warned 9000, None)"
  using evaluate_observation_events [OF demo_run(1)] by (simp add: demo_run demo_kind)

lemma demo_unknown_sel [simp]:
  "ob_health demo_unknown = CollectionUnknown" "ob_failure demo_unknown = FailureTimeout"
  by (simp_all add: demo_unknown_def)

lemma demo_unknown_run:
  "\<exists>s. evaluate_observation demo_digest demo_settings (flt_of_int 10) demo_unknown demo_warned 9000 = Inr (s, None)"
proof -
  have "state_wf ((demo_state AlertWarning 5)\<lparr>cs_health := CollectionUnknown, cs_failure := FailureTimeout,
       cs_updated_at := 9000\<rparr>)"
    using demo_state_wf(1) by (simp add: state_wf_def) (simp add: demo_state_def)
  then have "evaluate_unknown demo_settings demo_unknown demo_warned 9000 =
      Inr ((demo_state AlertWarning 5)\<lparr>cs_health := CollectionUnknown, cs_failure := FailureTimeout,
       cs_updated_at := 9000\<rparr>)"
    by (simp add: evaluate_unknown_def Let_def state_normalize_id state_times_def demo_state_def)
  then show ?thesis by (simp add: evaluate_observation_def)
qed

theorem evaluate_observation_unknown_witness:
  "evaluate_observation demo_digest demo_settings (flt_of_int 10) demo_unknown demo_warned 9000 =
     Inr ((demo_state AlertWarning 5)\<lparr>cs_health := CollectionUnknown, cs_failure := FailureTimeout,
       cs_updated_at := 9000\<rparr>, None)"
proof -
  obtain s where s: "evaluate_observation demo_digest demo_settings (flt_of_int 10) demo_unknown demo_warned 9000 = Inr (s, None)"
    using demo_unknown_run by blast
  from evaluate_observation_unknown [OF s] s show ?thesis
    using demo_state_wf by (simp add: demo_state_def)
qed

theorem gated_alert_rejected_witness:
  "evaluate_observation demo_digest (demo_settings\<lparr>set_confirmation := 2\<rparr>) (flt_of_int 10) (demo_observation 0)
     demo_warned 9000 = Inl (Required ''exhausted alert state'') \<and>
   evaluate_observation demo_digest (demo_settings\<lparr>set_margin := flt_of_int 5\<rparr>) (flt_of_int 10)
     (demo_observation 12) (Some (demo_state AlertExhausted 0)) 9000 = Inl (Conflict ''exhausted alert state'')"
proof
  have c: "step_ok (demo_settings\<lparr>set_confirmation := 2\<rparr>) (demo_observation 0) demo_warned 9000"
    using demo_step_ok(1) [of 0] by (simp add: step_ok_def)
  show "evaluate_observation demo_digest (demo_settings\<lparr>set_confirmation := 2\<rparr>) (flt_of_int 10) (demo_observation 0)
      demo_warned 9000 = Inl (Required ''exhausted alert state'')"
    using gated_alert_rejected [OF c, of demo_digest "flt_of_int 10"]
    by (simp add: zero_pct_def prior_alert_def next_below_def below_threshold_def s64_def demo_state_def)
  have m: "step_ok (demo_settings\<lparr>set_margin := flt_of_int 5\<rparr>) (demo_observation 12)
      (Some (demo_state AlertExhausted 0)) 9000"
    using demo_step_ok(2) [of 12] by (simp add: step_ok_def)
  show "evaluate_observation demo_digest (demo_settings\<lparr>set_margin := flt_of_int 5\<rparr>) (flt_of_int 10)
      (demo_observation 12) (Some (demo_state AlertExhausted 0)) 9000 = Inl (Conflict ''exhausted alert state'')"
    using gated_alert_rejected [OF m, of demo_digest "flt_of_int 10"]
    by (simp add: zero_pct_def prior_alert_def demo_state_def fadd_flt_of_int)
qed

theorem group_transition_events_partition_witness:
  "\<exists>bs. group_transition_events demo_digest
      [make_event demo_digest TransitionWarning AlertHealthy (demo_state AlertWarning 5) 9000] 9000 = Inr bs \<and>
     mset (concat (map nb_events bs)) =
     mset [make_event demo_digest TransitionWarning AlertHealthy (demo_state AlertWarning 5) 9000]"
proof -
  let ?e = "make_event demo_digest TransitionWarning AlertHealthy (demo_state AlertWarning 5) 9000"
  have n: "event_normalize ?e = Inr ?e"
    by (rule make_event_normal) (simp_all add: demo_state_wf, simp add: demo_state_def)
  then have f: "event_fresh ?e" by (simp add: event_fresh_def)
  have p: "si_provider (ev_identity ?e) = ''codex''" by (simp add: demo_state_def demo_identity_def)
  have "new_notification_batch demo_digest ''codex'' [?e] 9000 =
      Inr \<lparr>nb_id = batch_hash demo_digest ''codex'' [?e\<lparr>ev_acknowledged_at := 0\<rparr>], nb_provider = ''codex'',
        nb_events = [?e\<lparr>ev_acknowledged_at := 0\<rparr>], nb_created_at = 9000\<rparr>"
    using n p by (simp add: new_notification_batch_def provider_validate_def supported_providers_def
        MaxNotificationBatchEvents_def batch_step_def Let_def)
  then obtain bs where g: "group_transition_events demo_digest [?e] 9000 = Inr bs"
    using n p by (simp add: group_transition_events_def)
  have "\<forall>e \<in> set [?e]. event_fresh e" using f by simp
  from group_transition_events_partition [OF g this] g show ?thesis by blast
qed

definition demo_input :: evaluation_input where
  "demo_input = \<lparr>in_settings = demo_settings, in_observations = [demo_unknown],
     in_previous = [demo_state AlertWarning 5], in_evaluated_at = 9000\<rparr>"

theorem evaluate_observations_states_witness:
  "\<exists>r. evaluate_observations demo_digest demo_input = Inr r \<and> cs_identity ` set (res_states r) = {demo_identity}"
proof -
  have st: "normalized_evaluation_settings demo_settings = Inr demo_settings" "set_enabled demo_settings"
    by (simp_all add: normalized_evaluation_settings_def demo_settings_def default_settings_def
        settings_validate_def quota_consts percentage_validate_ok [THEN iffD2] telegram_validate_def
        fadd_flt_of_int)
  have k: "stable_key demo_digest demo_identity = Inr ''k''"
    by (simp add: stable_key_eq demo_digest_def)
  have sel: "cs_identity (demo_state AlertWarning 5) = demo_identity" "ob_identity demo_unknown = demo_identity"
    by (simp_all add: demo_state_def demo_unknown_def)
  have p: "normalize_previous_states demo_digest [demo_state AlertWarning 5] = Inr [(''k'', demo_state AlertWarning 5)]"
    using demo_state_wf by (simp add: normalize_previous_states_def previous_step_def state_normalize_id k sel)
  have "observation_normalize demo_unknown = Inr demo_unknown"
    by (simp add: observation_normalize_def demo_unknown_def demo_observation_def identity_normalize_id
        label_normalize_id reset_normalize_def Let_def zero_pct_def)
  then have l: "normalize_latest_observations demo_digest [demo_unknown] = Inr [(''k'', demo_unknown)]"
    by (simp add: normalize_latest_observations_def latest_step_def k sel)
  obtain s where s: "evaluate_observation demo_digest demo_settings (flt_of_int 10) demo_unknown demo_warned 9000 = Inr (s, None)"
    using demo_unknown_run by blast
  have cfg: "map_of (evaluation_provider_settings demo_settings) ''codex'' = Some (True, flt_of_int 10)"
    by (simp add: evaluation_provider_settings_def supported_providers_def demo_settings_def
        default_settings_def DefaultWarningThreshold_def)
  have "\<exists>r. evaluate_observations demo_digest demo_input = Inr r"
    using st p l s cfg
    by (simp add: evaluate_observations_def demo_input_def sorted_observations_def cycle_step_def sel
        group_transition_events_def Let_def) (simp add: demo_identity_def)
  then obtain r where r: "evaluate_observations demo_digest demo_input = Inr r" by blast
  have nc: "no_collision demo_digest (input_identities demo_input)"
    by (auto simp: no_collision_def input_identities_def demo_input_def sel identity_normalize_id inj_on_def)
  have "in_settings demo_input = demo_settings" by (simp add: demo_input_def)
  with evaluate_observations_states [OF r _ st(2) nc] st(1) have
    "cs_identity ` set (res_states r) = {i. \<exists>ob \<in> set (in_observations demo_input).
       identity_normalize (ob_identity ob) = Inr i \<and>
       provider_enabled (evaluation_provider_settings demo_settings) (si_provider i)}" by simp
  with r cfg show ?thesis
    by (auto simp: demo_input_def sel identity_normalize_id provider_enabled_def)
      (auto simp: demo_identity_def provider_enabled_def)
qed

section \<open>Thresholds\<close>

lemma override_loop:
  assumes "foldE (override_step margin) seen ovs = Inr seen'"
  shows "(\<forall>ov \<in> set ovs. ov_provider ov \<in> set supported_providers \<and>
      (\<forall>t. ov_threshold ov = Some t \<longrightarrow> pct_ok t \<and> \<not> flt (flt_of_int 100) (fadd t margin))) \<and>
    distinct (map ov_provider ovs) \<and> set (map ov_provider ovs) \<inter> set seen = {}"
  using assms
proof (induction ovs arbitrary: seen)
  case (Cons ov ovs)
  from Cons.prems obtain s1 where "override_step margin seen ov = Inr s1"
    and r: "foldE (override_step margin) s1 ovs = Inr seen'" by auto
  then have "s1 = ov_provider ov # seen" "ov_provider ov \<notin> set seen"
    "ov_provider ov \<in> set supported_providers"
    "\<forall>t. ov_threshold ov = Some t \<longrightarrow> pct_ok t \<and> \<not> flt (flt_of_int 100) (fadd t margin)"
    by (auto simp: override_step_def override_validate_def provider_validate_def percentage_validate_ok
        split: option.splits)
  with Cons.IH [OF r] show ?case by auto
qed simp

lemma override_config_dom:
  "dom (map_of (foldl override_config configs ovs)) = dom (map_of configs) \<union> ov_provider ` set ovs"
  by (induction ovs arbitrary: configs) (auto simp: override_config_def Let_def update_conv')

lemma override_config_threshold:
  assumes "\<And>p b t. map_of configs p = Some (b, t) \<Longrightarrow> P t"
    and "\<And>ov t. ov \<in> set ovs \<Longrightarrow> ov_threshold ov = Some t \<Longrightarrow> P t"
    and "\<And>ov. ov \<in> set ovs \<Longrightarrow> ov_provider ov \<in> dom (map_of configs)"
    and "map_of (foldl override_config configs ovs) p = Some (b, t)"
  shows "P t"
  using assms
proof (induction ovs arbitrary: configs)
  case (Cons ov ovs)
  let ?c = "override_config configs ov"
  from Cons.prems(3) [of ov] obtain c where c: "map_of configs (ov_provider ov) = Some c" by auto
  have "P (case ov_threshold ov of None \<Rightarrow> snd c | Some t \<Rightarrow> t)"
    using Cons.prems(1) [of "ov_provider ov" "fst c" "snd c"] Cons.prems(2) [of ov] c
    by (cases "ov_threshold ov") simp_all
  then have step: "P t" if "map_of ?c q = Some (b, t)" for q b t
    using that Cons.prems(1) c by (auto simp: override_config_def Let_def update_conv' split: if_splits)
  have dom: "ov_provider x \<in> dom (map_of ?c)" if "x \<in> set ovs" for x
    using Cons.prems(3) [of x] that by (auto simp: override_config_def Let_def update_conv')
  show ?case
    by (rule Cons.IH [of ?c, OF step _ dom]) (use Cons.prems(2,4) in auto)
qed auto

lemma settings_validate_facts:
  assumes "settings_validate st = Inr u"
  shows "pct_ok (set_threshold st)" and "pct_ok (set_margin st)"
    and "\<not> flt (flt_of_int 100) (fadd (set_threshold st) (set_margin st))"
    and "0 \<le> set_revision st" and "1 \<le> set_confirmation st" and "set_confirmation st \<le> 10"
    and "\<exists>seen. foldE (override_step (set_margin st)) [] (set_overrides st) = Inr seen"
  using assms by (auto simp: settings_validate_def percentage_validate_ok MaxConfirmationSamples_def)

lemma map_of_map_keys_const: "map_of (map (\<lambda>p. (p, c)) ps) q = (if q \<in> set ps then Some c else None)"
  by (induction ps) auto

text \<open>In validated settings every supported provider has a configuration, and the threshold it
  ends with, overridden or not, is a percentage that with the recovery margin does not exceed one
  hundred.\<close>

theorem provider_thresholds_valid:
  assumes "normalized_evaluation_settings st0 = Inr st" and "p \<in> set supported_providers"
  shows "\<exists>b t. map_of (evaluation_provider_settings st) p = Some (b, t) \<and> pct_ok t \<and>
    \<not> flt (flt_of_int 100) (fadd t (set_margin st)) \<and> 1 \<le> set_confirmation st"
proof -
  let ?P = "\<lambda>t. pct_ok t \<and> \<not> flt (flt_of_int 100) (fadd t (set_margin st))"
  from assms(1) have v: "settings_validate st = Inr ()"
    by (auto simp: normalized_evaluation_settings_def Let_def)
  note f = settings_validate_facts [OF v]
  from f(7) obtain seen where "foldE (override_step (set_margin st)) [] (set_overrides st) = Inr seen" by blast
  note ov = override_loop [OF this]
  let ?base = "map (\<lambda>p. (p, True, set_threshold st)) supported_providers"
  have base: "map_of ?base q = (if q \<in> set supported_providers then Some (True, set_threshold st) else None)" for q
    by (simp add: map_of_map_keys_const)
  have "p \<in> dom (map_of (evaluation_provider_settings st))"
    using assms(2) unfolding evaluation_provider_settings_def override_config_dom
    by (auto simp: dom_def base)
  then obtain b t where bt: "map_of (evaluation_provider_settings st) p = Some (b, t)" by force
  have "?P t"
    by (rule override_config_threshold [OF _ _ _ bt [unfolded evaluation_provider_settings_def]])
      (use ov f(1,3) in \<open>auto simp: base split: if_splits\<close>)
  with bt f(5) show ?thesis by blast
qed


theorem provider_thresholds_valid_witness:
  "\<exists>b t. map_of (evaluation_provider_settings demo_settings) ''kimi'' = Some (b, t) \<and> pct_ok t"
proof -
  have st: "normalized_evaluation_settings demo_settings = Inr demo_settings"
    by (simp add: normalized_evaluation_settings_def demo_settings_def default_settings_def
        settings_validate_def quota_consts percentage_validate_ok [THEN iffD2] telegram_validate_def
        fadd_flt_of_int)
  have "''kimi'' \<in> set supported_providers" by (simp add: supported_providers_def)
  from provider_thresholds_valid [OF st this] show ?thesis by blast
qed

end
