(* ===== verification/Quota_Service.thy ===== *)
theory Quota_Service
  imports Quota_Evaluator
begin

text \<open>
  The collection cycle and the delivery of the quota monitor (internal/quotaalert/service.go).
  The store, the clock, the collectors and the sender are interfaces of the service: their answers
  are arguments. \<open>advance_collection_health\<close> keeps the failure streaks and emits the one-shot
  events, \<open>removed_state_identities\<close> names the rows to delete, \<open>adaptive_poll_interval\<close> chooses the
  next delay, \<open>deliver_notifications\<close> resolves the claimed batches. The workers of a collection
  write their results by job index, so the outcome does not depend on their interleaving and the
  jobs are mapped in order. Logging, the timers and the goroutines are left out.
\<close>

section \<open>Types\<close>

definition MaxNotificationAttempts :: int where "MaxNotificationAttempts = 3"
definition DefaultNotificationRetryDelay :: duration where "DefaultNotificationRetryDelay = minute"
definition adaptivePollDivisor :: int where "adaptivePollDivisor = 5"
definition adaptiveThresholdHeadroom :: go_float where "adaptiveThresholdHeadroom = flt_of_int 10"

record auth_snapshot =
  as_auth :: string
  as_provider :: string
  as_label :: string

type_synonym auth_key = "string \<times> string"

record collection_cycle =
  cy_observations :: "observation list"
  cy_observed :: "state_identity set"
  cy_failed :: "auth_key set"

text \<open>What collecting one credential comes to: no collector, an error (whether it is the deadline, and
  its text), or observations.\<close>

datatype collect_outcome =
    NoCollector
  | CollectError bool string
  | Collected "observation list"

section \<open>Keys\<close>

definition auth_key_of :: "auth_snapshot \<Rightarrow> auth_key option" where
  "auth_key_of a =
     (case identity_normalize \<lparr>si_auth = as_auth a, si_provider = as_provider a,
             si_resource = ''collection'', si_window = ''latest''\<rparr> of
        Inl _ \<Rightarrow> None
      | Inr i \<Rightarrow> Some (si_auth i, si_provider i))"

definition state_key :: "current_state \<Rightarrow> auth_key" where
  "state_key s = (si_auth (cs_identity s), si_provider (cs_identity s))"

definition active_auth_provider_keys :: "settings \<Rightarrow> auth_snapshot list \<Rightarrow> auth_key set" where
  "active_auth_provider_keys st auths =
     set (filter (\<lambda>k. provider_enabled (evaluation_provider_settings st) (snd k))
            (List.map_filter auth_key_of auths))"

definition sorted_auth_provider_keys :: "auth_key set \<Rightarrow> auth_key list" where
  "sorted_auth_provider_keys active = sorted_list_of_set active"

section \<open>Collecting\<close>

definition classify_collector_error :: "bool \<Rightarrow> string \<Rightarrow> failure_code" where
  "classify_collector_error deadline text =
     (if deadline then FailureTimeout
      else let msg = to_lower text in
        if contains msg ''missing'' \<and> (contains msg ''token'' \<or> contains msg ''credential'' \<or>
             contains msg ''account'' \<or> contains msg ''project'') then FailureCredentialMissing
        else if contains msg ''refresh failed'' then FailureCredentialRejected
        else if contains msg ''http 401'' \<or> contains msg ''http 403'' then FailureCredentialRejected
        else if contains msg ''http '' then FailureUpstreamHTTP
        else if contains msg ''no recognized windows'' \<or> contains msg ''json'' \<or> contains msg ''decode''
          then FailureDecode
        else if contains msg ''deadline'' \<or> contains msg ''timeout'' then FailureTimeout
        else if contains msg ''dial'' \<or> contains msg ''connection refused'' \<or>
             contains msg ''no such host'' \<or> contains msg ''eof'' then FailureTransport
        else FailureInternal)"

definition unknown_evidence :: "state_identity \<Rightarrow> string \<Rightarrow> instant \<Rightarrow> failure_code \<Rightarrow> observation" where
  "unknown_evidence i label at code =
     \<lparr>ob_identity = i, ob_label = label, ob_health = CollectionUnknown, ob_failure = code,
      ob_remaining = zero_pct, ob_remaining_known = False, ob_explicit = False, ob_reset_at = 0,
      ob_reset_known = False, ob_observed_at = at\<rparr>"

definition unknown_observation :: "auth_snapshot \<Rightarrow> instant \<Rightarrow> failure_code \<Rightarrow> observation" where
  "unknown_observation a at code =
     unknown_evidence
       \<lparr>si_auth = as_auth a,
        si_provider = (if as_provider a \<in> set supported_providers then as_provider a else ''claude''),
        si_resource = ''collection'', si_window = ''latest''\<rparr> (as_label a) at code"

definition unknown_observations ::
  "auth_snapshot \<Rightarrow> current_state list \<Rightarrow> instant \<Rightarrow> failure_code \<Rightarrow> observation list" where
  "unknown_observations a previous at code =
     (if previous = [] then [unknown_observation a at code]
      else map (\<lambda>s. unknown_evidence (cs_identity s) (cs_label s) at code) previous)"

definition collect_auth_observations ::
  "auth_snapshot \<Rightarrow> current_state list \<Rightarrow> collect_outcome \<Rightarrow> instant \<Rightarrow> observation list \<times> bool" where
  "collect_auth_observations a previous outcome at =
     (case outcome of
        NoCollector \<Rightarrow> (unknown_observations a previous at FailureCollectorMissing, True)
      | CollectError deadline text \<Rightarrow>
          (unknown_observations a previous at (classify_collector_error deadline text), True)
      | Collected obs \<Rightarrow> (obs, False))"

definition previous_states_of :: "current_state list \<Rightarrow> auth_key \<Rightarrow> current_state list" where
  "previous_states_of previous k = filter (\<lambda>s. state_key s = k) previous"

text \<open>\<open>probe a\<close> is the outcome for a credential and the clock when it is known.\<close>

definition collect_job ::
  "current_state list \<Rightarrow> (auth_snapshot \<Rightarrow> collect_outcome \<times> instant) \<Rightarrow> auth_key set \<Rightarrow>
     collection_cycle \<Rightarrow> auth_snapshot \<Rightarrow> collection_cycle" where
  "collect_job previous probe active cy a =
     (case auth_key_of a of
        None \<Rightarrow> cy
      | Some k \<Rightarrow>
          if k \<notin> active then cy
          else let (outcome, at) = probe a;
                   (obs, failed) = collect_auth_observations a (previous_states_of previous k) outcome at
            in cy\<lparr>cy_observations := cy_observations cy @ obs,
                  cy_observed := cy_observed cy \<union>
                    set (List.map_filter (\<lambda>ob. case identity_normalize (ob_identity ob) of
                            Inl _ \<Rightarrow> None | Inr i \<Rightarrow> Some i) obs),
                  cy_failed := if failed then insert k (cy_failed cy) else cy_failed cy\<rparr>)"

definition empty_cycle :: collection_cycle where
  "empty_cycle = \<lparr>cy_observations = [], cy_observed = {}, cy_failed = {}\<rparr>"

definition collect_observations ::
  "auth_snapshot list \<Rightarrow> current_state list \<Rightarrow> (auth_snapshot \<Rightarrow> collect_outcome \<times> instant) \<Rightarrow>
     auth_key set \<Rightarrow> collection_cycle" where
  "collect_observations auths previous probe active =
     foldl (collect_job previous probe active) empty_cycle auths"

section \<open>Failure streaks\<close>

text \<open>The first failure code among the unknown observations of a key, if any.\<close>

definition failure_code_of :: "observation list \<Rightarrow> auth_key \<Rightarrow> failure_code" where
  "failure_code_of obs k =
     (case find (\<lambda>ob. ob_health ob = CollectionUnknown \<and>
                      (si_auth (ob_identity ob), si_provider (ob_identity ob)) = k) obs of
        None \<Rightarrow> FailureNone
      | Some ob \<Rightarrow> ob_failure ob)"

definition health_by_key :: "health_record list \<Rightarrow> (auth_key \<times> health_record) list" where
  "health_by_key rows =
     foldl (\<lambda>m r. AList.update (hk_auth (hr_key r), hk_provider (hr_key r)) r m) [] rows"

definition auth_by_key :: "auth_snapshot list \<Rightarrow> (auth_key \<times> auth_snapshot) list" where
  "auth_by_key auths =
     foldl (\<lambda>m a. case auth_key_of a of None \<Rightarrow> m | Some k \<Rightarrow> AList.update k a m) [] auths"

record health_advance =
  ha_degraded :: "transition_event list"
  ha_upserts :: "health_record list"
  ha_deletes :: "health_key list"
  ha_cycle :: collection_cycle

definition health_key_of :: "auth_key \<Rightarrow> health_key" where
  "health_key_of k = \<lparr>hk_auth = fst k, hk_provider = snd k\<rparr>"

definition previous_failures :: "(auth_key \<times> health_record) list \<Rightarrow> auth_key \<Rightarrow> int" where
  "previous_failures health k = (case map_of health k of None \<Rightarrow> 0 | Some r \<Rightarrow> hr_failures r)"

definition degraded_event :: "digest \<Rightarrow> observation \<Rightarrow> instant \<Rightarrow> transition_event" where
  "degraded_event D ob at =
     \<lparr>ev_id = event_id D TransitionMonitorDegraded AlertUnknown AlertUnknown (ob_identity ob) at,
      ev_identity = ob_identity ob, ev_label = ob_label ob, ev_kind = TransitionMonitorDegraded,
      ev_from = AlertUnknown, ev_to = AlertUnknown, ev_remaining = zero_pct,
      ev_remaining_known = False, ev_reset_at = 0, ev_reset_known = False, ev_occurred_at = at,
      ev_acknowledged_at = 0\<rparr>"

text \<open>The body of the loop over the active keys; \<open>codes\<close> are the failure codes of the cycle before it.\<close>

definition health_step ::
  "digest \<Rightarrow> settings \<Rightarrow> (auth_key \<times> auth_snapshot) list \<Rightarrow> (auth_key \<times> health_record) list \<Rightarrow>
     (auth_key \<Rightarrow> failure_code) \<Rightarrow> instant \<Rightarrow> health_advance \<Rightarrow> auth_key \<Rightarrow> health_advance" where
  "health_step D st auth_map health codes at acc k =
     (if k \<notin> cy_failed (ha_cycle acc) then
        (if k \<in> fst ` set health then acc\<lparr>ha_deletes := ha_deletes acc @ [health_key_of k]\<rparr> else acc)
      else
        let previous = previous_failures health k; count = s64 (previous + 1);
            code = (if codes k = FailureNone then FailureInternal else codes k);
            acc1 = acc\<lparr>ha_upserts := ha_upserts acc @
              [\<lparr>hr_key = health_key_of k, hr_failures = count, hr_code = code, hr_updated_at = at\<rparr>]\<rparr>
        in if set_degraded st \<le> 0 \<or> previous \<ge> set_degraded st \<or> count < set_degraded st then acc1
           else case map_of auth_map k of
             None \<Rightarrow> acc1
           | Some a \<Rightarrow>
               let ob = unknown_observation a at code; cy = ha_cycle acc1;
                   acc2 = (if ob_identity ob \<in> cy_observed cy then acc1
                           else acc1\<lparr>ha_cycle := cy\<lparr>cy_observed := insert (ob_identity ob) (cy_observed cy),
                                         cy_observations := cy_observations cy @ [ob]\<rparr>\<rparr>)
               in case event_normalize (degraded_event D ob at) of
                    Inl _ \<Rightarrow> acc2
                  | Inr e \<Rightarrow> acc2\<lparr>ha_degraded := ha_degraded acc2 @ [e]\<rparr>)"

definition advance_collection_health ::
  "digest \<Rightarrow> settings \<Rightarrow> auth_snapshot list \<Rightarrow> auth_key set \<Rightarrow> collection_cycle \<Rightarrow>
     health_record list \<Rightarrow> instant \<Rightarrow> health_advance" where
  "advance_collection_health D st auths active cy rows at =
     (let health = health_by_key rows;
          acc = foldl (health_step D st (auth_by_key auths) health (failure_code_of (cy_observations cy)) at)
                  \<lparr>ha_degraded = [], ha_upserts = [], ha_deletes = [], ha_cycle = cy\<rparr>
                  (sorted_auth_provider_keys active)
      in acc\<lparr>ha_deletes := ha_deletes acc @
               map (\<lambda>(k, r). health_key_of k) (filter (\<lambda>(k, r). k \<notin> active) health)\<rparr>)"

definition removed_state_identities ::
  "current_state list \<Rightarrow> auth_key set \<Rightarrow> collection_cycle \<Rightarrow> state_identity list" where
  "removed_state_identities previous active cy =
     map cs_identity (filter (\<lambda>s.
       state_key s \<notin> active \<or> (state_key s \<notin> cy_failed cy \<and> cs_identity s \<notin> cy_observed cy)) previous)"

section \<open>A collection cycle\<close>

record collection_commit =
  cm_settings_revision :: int
  cm_states :: "current_state list"
  cm_removed :: "state_identity list"
  cm_events :: "transition_event list"
  cm_batches :: "notification_batch list"
  cm_health_upserts :: "health_record list"
  cm_health_deletes :: "health_key list"

text \<open>The answers of the store, the credential source and the clock to one cycle.\<close>

record collection_env =
  env_settings :: "settings result"
  env_acquired :: "bool result"
  env_auths :: "auth_snapshot list result"
  env_states :: "current_state list result"
  env_health :: "health_record list result"
  env_probe :: "auth_snapshot \<Rightarrow> collect_outcome \<times> instant"
  env_now :: instant

definition cycle_advance ::
  "digest \<Rightarrow> collection_env \<Rightarrow> settings \<Rightarrow> auth_snapshot list \<Rightarrow> current_state list \<Rightarrow>
     health_record list \<Rightarrow> health_advance" where
  "cycle_advance D env st auths previous rows =
     (let active = active_auth_provider_keys st auths in
      advance_collection_health D st auths active
        (collect_observations auths previous (env_probe env) active) rows (env_now env))"

definition cycle_input ::
  "digest \<Rightarrow> collection_env \<Rightarrow> settings \<Rightarrow> auth_snapshot list \<Rightarrow> current_state list \<Rightarrow>
     health_record list \<Rightarrow> evaluation_input" where
  "cycle_input D env st auths previous rows =
     \<lparr>in_settings = st,
      in_observations = cy_observations (ha_cycle (cycle_advance D env st auths previous rows)),
      in_previous = previous, in_evaluated_at = env_now env\<rparr>"

text \<open>\<open>None\<close> is a cycle with nothing to commit: the monitor is disabled or another owner holds it.\<close>

definition run_collection_once :: "digest \<Rightarrow> collection_env \<Rightarrow> collection_commit option result" where
  "run_collection_once D env =
     bindE (env_settings env) (\<lambda>st.
     if \<not> set_enabled st then Inr None
     else
       bindE (settings_validate st) (\<lambda>_.
       bindE (env_acquired env) (\<lambda>acquired.
       if \<not> acquired then Inr None
       else
         bindE (env_auths env) (\<lambda>auths.
         bindE (env_states env) (\<lambda>previous.
         bindE (env_health env) (\<lambda>rows.
         let adv = cycle_advance D env st auths previous rows in
         bindE (evaluate_observations D (cycle_input D env st auths previous rows)) (\<lambda>res.
         let events = res_events res @ ha_degraded adv in
         bindE (group_transition_events D events (env_now env)) (\<lambda>batches.
         Inr (Some \<lparr>cm_settings_revision = set_revision st, cm_states = res_states res,
                cm_removed = removed_state_identities previous (active_auth_provider_keys st auths) (ha_cycle adv),
                cm_events = events, cm_batches = batches, cm_health_upserts = ha_upserts adv,
                cm_health_deletes = ha_deletes adv\<rparr>)))))))))"

text \<open>The pages of the stored states: \<open>pages c\<close> is the answer to the cursor \<open>c\<close>. The loop ends
  when the store returns no cursor; \<open>None\<close> is fuel used up.\<close>

fun list_all_states ::
  "nat \<Rightarrow> (string \<Rightarrow> (current_state list \<times> string) result) \<Rightarrow> string \<Rightarrow> current_state list \<Rightarrow>
     current_state list result option" where
  "list_all_states 0 pages cursor acc = None"
| "list_all_states (Suc n) pages cursor acc =
     (case pages cursor of
        Inl e \<Rightarrow> Some (Inl e)
      | Inr (items, next) \<Rightarrow>
          (case mapE state_normalize items of
             Inl e \<Rightarrow> Some (Inl e)
           | Inr ss \<Rightarrow>
               if next = [] then Some (Inr (acc @ ss))
               else if next = cursor then Some (Inl (Conflict ''state pagination did not advance''))
               else list_all_states n pages next (acc @ ss)))"

section \<open>Polling\<close>

definition state_hot :: "instant \<Rightarrow> (string \<times> bool \<times> go_float) list \<Rightarrow> duration \<Rightarrow> current_state \<Rightarrow> bool" where
  "state_hot now configs base s =
     (if cs_health s \<noteq> CollectionReliable then False
      else case map_of configs (si_provider (cs_identity s)) of
        None \<Rightarrow> False
      | Some (enabled, threshold) \<Rightarrow>
          if \<not> enabled then False
          else if cs_remaining_known s \<and> fle (cs_remaining s) (fadd threshold adaptiveThresholdHeadroom) then True
          else cs_reset_known s \<and>
            (let until = time_sub (cs_reset_at s) now in until \<le> base \<and> until > - base))"

definition adaptive_poll_interval ::
  "instant \<Rightarrow> current_state list \<Rightarrow> settings \<Rightarrow> duration \<Rightarrow> duration \<Rightarrow> duration" where
  "adaptive_poll_interval now states st base min0 =
     (let fast0 = go_quot base adaptivePollDivisor; fast = (if fast0 < min0 then min0 else fast0) in
      if list_ex (state_hot now (evaluation_provider_settings st) base) states then fast else base)"

definition next_poll_interval :: "settings result \<Rightarrow> current_state list result \<Rightarrow> instant \<Rightarrow> duration \<Rightarrow> duration" where
  "next_poll_interval settings states now poll =
     (case settings of
        Inl _ \<Rightarrow> poll
      | Inr st \<Rightarrow>
          if \<not> set_enabled st then poll
          else case states of
            Inl _ \<Rightarrow> poll
          | Inr ss \<Rightarrow> adaptive_poll_interval now ss st poll MinPollInterval)"

section \<open>Delivery\<close>

datatype delivery_failure =
  DeliverySendFailed | DeliverySenderUnavailable | DeliveryTelegramUnconfigured | DeliveryTelegramUnavailable

datatype send_error = ErrSenderUnavailable | ErrTelegramUnconfigured | ErrTelegramUnavailable | OtherSendError string

fun classify_delivery_error :: "send_error \<Rightarrow> delivery_failure \<times> bool" where
  "classify_delivery_error ErrSenderUnavailable = (DeliverySenderUnavailable, True)"
| "classify_delivery_error ErrTelegramUnconfigured = (DeliveryTelegramUnconfigured, True)"
| "classify_delivery_error ErrTelegramUnavailable = (DeliveryTelegramUnavailable, True)"
| "classify_delivery_error (OtherSendError _) = (DeliverySendFailed, False)"

record notification_claim =
  nc_batch :: notification_batch
  nc_lease :: string
  nc_attempt :: int

record notification_result =
  nr_batch_id :: string
  nr_lease :: string
  nr_sent_at :: instant
  nr_retry_at :: instant
  nr_failure :: "delivery_failure option"
  nr_permanent :: bool

text \<open>\<open>send\<close> is \<open>None\<close> without a sender, else what sending the batch comes to.\<close>

definition resolve_claim ::
  "(notification_batch \<Rightarrow> send_error option) option \<Rightarrow> instant \<Rightarrow> notification_claim \<Rightarrow> notification_result" where
  "resolve_claim send now c =
     (let r = \<lparr>nr_batch_id = nb_id (nc_batch c), nr_lease = nc_lease c, nr_sent_at = 0, nr_retry_at = 0,
               nr_failure = None, nr_permanent = False\<rparr> in
      case send of
        None \<Rightarrow> r\<lparr>nr_permanent := True, nr_failure := Some DeliverySenderUnavailable\<rparr>
      | Some f \<Rightarrow>
          (case f (nc_batch c) of
             Some e \<Rightarrow>
               (let (code, permanent) = classify_delivery_error e; r1 = r\<lparr>nr_failure := Some code\<rparr> in
                if permanent \<or> nc_attempt c \<ge> MaxNotificationAttempts then r1\<lparr>nr_permanent := True\<rparr>
                else r1\<lparr>nr_retry_at := trunc_us (now + DefaultNotificationRetryDelay)\<rparr>)
           | None \<Rightarrow> r\<lparr>nr_sent_at := trunc_us now\<rparr>))"

definition deliver_notifications ::
  "(notification_batch \<Rightarrow> send_error option) option \<Rightarrow> (notification_claim \<Rightarrow> instant) \<Rightarrow>
     (notification_result \<Rightarrow> unit result) \<Rightarrow> notification_claim list result \<Rightarrow> notification_result list result" where
  "deliver_notifications send clock resolve claims =
     bindE claims (\<lambda>cs.
     foldE (\<lambda>rs c. let r = resolve_claim send (clock c) c in bindE (resolve r) (\<lambda>_. Inr (rs @ [r]))) [] cs)"

section \<open>Failure streaks\<close>

definition crossing :: "settings \<Rightarrow> (auth_key \<times> health_record) list \<Rightarrow> auth_key \<Rightarrow> bool" where
  "crossing st health k \<longleftrightarrow> set_degraded st > 0 \<and> previous_failures health k < set_degraded st \<and>
     s64 (previous_failures health k + 1) \<ge> set_degraded st"

definition streak_record :: "(auth_key \<times> health_record) list \<Rightarrow> (auth_key \<Rightarrow> failure_code) \<Rightarrow> instant \<Rightarrow> auth_key \<Rightarrow> health_record" where
  "streak_record health codes at k =
     \<lparr>hr_key = health_key_of k, hr_failures = s64 (previous_failures health k + 1),
      hr_code = (if codes k = FailureNone then FailureInternal else codes k), hr_updated_at = at\<rparr>"

definition degraded_of ::
  "digest \<Rightarrow> settings \<Rightarrow> (auth_key \<times> auth_snapshot) list \<Rightarrow> (auth_key \<times> health_record) list \<Rightarrow>
     (auth_key \<Rightarrow> failure_code) \<Rightarrow> instant \<Rightarrow> auth_key \<Rightarrow> transition_event option" where
  "degraded_of D st auth_map health codes at k =
     (if crossing st health k then
        (case map_of auth_map k of
           None \<Rightarrow> None
         | Some a \<Rightarrow>
             (case event_normalize (degraded_event D
                (unknown_observation a at (hr_code (streak_record health codes at k))) at) of
                Inl _ \<Rightarrow> None | Inr e \<Rightarrow> Some e))
      else None)"

text \<open>One turn of the loop, as what it appends.\<close>

lemma health_step_eq:
  "ha_deletes (health_step D st am health codes at acc k) = ha_deletes acc @
     (if k \<notin> cy_failed (ha_cycle acc) \<and> k \<in> fst ` set health then [health_key_of k] else [])"
  "ha_upserts (health_step D st am health codes at acc k) = ha_upserts acc @
     (if k \<in> cy_failed (ha_cycle acc) then [streak_record health codes at k] else [])"
  "ha_degraded (health_step D st am health codes at acc k) = ha_degraded acc @
     (if k \<in> cy_failed (ha_cycle acc)
      then (case degraded_of D st am health codes at k of None \<Rightarrow> [] | Some e \<Rightarrow> [e]) else [])"
  "cy_failed (ha_cycle (health_step D st am health codes at acc k)) = cy_failed (ha_cycle acc)"
  by (auto simp: health_step_def Let_def streak_record_def degraded_of_def crossing_def not_le not_less
      split: option.splits sum.splits)

lemma health_loop:
  fixes D st am health codes at
  defines "run \<equiv> foldl (health_step D st am health codes at)"
  shows "cy_failed (ha_cycle (run acc ks)) = cy_failed (ha_cycle acc)"
    and "ha_upserts (run acc ks) = ha_upserts acc @
      map (streak_record health codes at) (filter (\<lambda>k. k \<in> cy_failed (ha_cycle acc)) ks)"
    and "ha_deletes (run acc ks) = ha_deletes acc @
      map health_key_of (filter (\<lambda>k. k \<notin> cy_failed (ha_cycle acc) \<and> k \<in> fst ` set health) ks)"
    and "ha_degraded (run acc ks) = ha_degraded acc @
      List.map_filter (degraded_of D st am health codes at) (filter (\<lambda>k. k \<in> cy_failed (ha_cycle acc)) ks)"
  unfolding run_def
  by (induction ks arbitrary: acc) (auto simp: health_step_eq map_filter_simps split: option.splits)

text \<open>The failure streaks of a cycle, in closed form: every active credential that failed has its
  counter raised by one, every active one that did not is forgotten, and so is every inactive one;
  one degraded event is emitted for each failed credential whose counter reaches the threshold
  with this failure, and none before or after that.\<close>

theorem advance_collection_health_streaks:
  assumes "adv = advance_collection_health D st auths active cy rows at"
    and "health = health_by_key rows" and "finite active"
    and "\<forall>k. 0 \<le> previous_failures health k \<and> previous_failures health k < int64_max"
  shows "map hr_key (ha_upserts adv) = map health_key_of (filter (\<lambda>k. k \<in> cy_failed cy) (sorted_auth_provider_keys active)) \<and>
    map hr_failures (ha_upserts adv) =
      map (\<lambda>k. previous_failures health k + 1) (filter (\<lambda>k. k \<in> cy_failed cy) (sorted_auth_provider_keys active)) \<and>
    set (ha_deletes adv) = health_key_of ` {k \<in> fst ` set health. k \<notin> active \<or> k \<notin> cy_failed cy} \<and>
    (\<forall>e \<in> set (ha_degraded adv). ev_kind e = TransitionMonitorDegraded) \<and>
    length (ha_degraded adv) \<le>
      card {k \<in> active. k \<in> cy_failed cy \<and> 0 < set_degraded st \<and> previous_failures health k + 1 = set_degraded st} \<and>
    (\<forall>k a e. k \<in> active \<longrightarrow> k \<in> cy_failed cy \<longrightarrow> 0 < set_degraded st \<longrightarrow>
       previous_failures health k + 1 = set_degraded st \<longrightarrow> map_of (auth_by_key auths) k = Some a \<longrightarrow>
       event_normalize (degraded_event D (unknown_observation a at
         (hr_code (streak_record health (failure_code_of (cy_observations cy)) at k))) at) = Inr e \<longrightarrow>
       e \<in> set (ha_degraded adv))"
proof -
  let ?codes = "failure_code_of (cy_observations cy)"
  let ?am = "auth_by_key auths"
  let ?acc = "\<lparr>ha_degraded = [], ha_upserts = [], ha_deletes = [], ha_cycle = cy\<rparr>"
  let ?ks = "filter (\<lambda>k. k \<in> cy_failed cy) (sorted_auth_provider_keys active)"
  let ?deg = "degraded_of D st ?am health ?codes at"
  note loop = health_loop [of D st ?am health ?codes at ?acc "sorted_auth_provider_keys active"]
  have keys: "set (sorted_auth_provider_keys active) = active" "distinct (sorted_auth_provider_keys active)"
    using assms(3) by (simp_all add: sorted_auth_provider_keys_def)
  have up: "ha_upserts adv = map (streak_record health ?codes at) ?ks"
    and dg: "ha_degraded adv = List.map_filter ?deg ?ks"
    and dl: "ha_deletes adv = map health_key_of
        (filter (\<lambda>k. k \<notin> cy_failed cy \<and> k \<in> fst ` set health) (sorted_auth_provider_keys active)) @
      map (\<lambda>(k, r). health_key_of k) (filter (\<lambda>(k, r). k \<notin> active) health)"
    using loop by (simp_all add: assms(1,2) advance_collection_health_def Let_def)
  have s: "s64 (previous_failures health k + 1) = previous_failures health k + 1" for k
    using assms(4) [rule_format, of k] by (intro s64_id) (auto simp: in_s64_def int64_min_def int64_max_def)
  have cr: "crossing st health k \<longleftrightarrow> 0 < set_degraded st \<and> previous_failures health k + 1 = set_degraded st" for k
    by (auto simp: crossing_def s)
  have "length (ha_degraded adv) = length (filter (\<lambda>k. ?deg k \<noteq> None) ?ks)"
    unfolding dg by (simp add: List.map_filter_def)
  also have "\<dots> = card {k \<in> set ?ks. ?deg k \<noteq> None}"
    using keys(2) by (intro distinct_length_filter [THEN trans]) (auto intro: arg_cong [of _ _ card])
  also have "\<dots> \<le> card {k \<in> active. k \<in> cy_failed cy \<and> crossing st health k}"
    using keys(1) assms(3) by (intro card_mono) (auto simp: degraded_of_def split: if_splits)
  finally have l: "length (ha_degraded adv) \<le> card {k \<in> active. k \<in> cy_failed cy \<and> crossing st health k}" .
  have kind: "ev_kind e = TransitionMonitorDegraded" if "e \<in> set (ha_degraded adv)" for e
  proof -
    from that obtain k where "?deg k = Some e" unfolding dg by (auto simp: List.map_filter_def)
    then show ?thesis
      by (auto simp: degraded_of_def degraded_event_def dest!: event_normalize_fields
          split: if_splits option.splits sum.splits)
  qed
  have ev: "e \<in> set (ha_degraded adv)"
    if "k \<in> active" "k \<in> cy_failed cy" "crossing st health k" "map_of ?am k = Some a"
      "event_normalize (degraded_event D (unknown_observation a at
         (hr_code (streak_record health ?codes at k))) at) = Inr e" for k a e
  proof -
    have "?deg k = Some e" using that by (simp add: degraded_of_def)
    then show ?thesis unfolding dg using that(1,2) keys(1) by (force simp: List.map_filter_def)
  qed
  show ?thesis
  proof (intro conjI)
    show "set (ha_deletes adv) = health_key_of ` {k \<in> fst ` set health. k \<notin> active \<or> k \<notin> cy_failed cy}"
      unfolding dl using keys(1) by (force simp: image_iff)
    show "\<forall>e \<in> set (ha_degraded adv). ev_kind e = TransitionMonitorDegraded" using kind by blast
    show "length (ha_degraded adv) \<le> card {k \<in> active. k \<in> cy_failed cy \<and> 0 < set_degraded st \<and>
        previous_failures health k + 1 = set_degraded st}"
      using l by (simp add: cr)
  qed (use ev cr in \<open>auto simp: up streak_record_def s\<close>)
qed

section \<open>Polling\<close>

text \<open>The adaptive interval never leaves the bounds: with a base of at least the minimum the next
  delay is between the minimum and the base, and it is shorter than the base only while a reliable
  window on an enabled provider is hot.\<close>

theorem adaptive_poll_interval_bounds:
  assumes "0 \<le> min0" and "min0 \<le> base"
  shows "min0 \<le> adaptive_poll_interval now states st base min0 \<and>
    adaptive_poll_interval now states st base min0 \<le> base \<and>
    (adaptive_poll_interval now states st base min0 < base \<longrightarrow>
      (\<exists>s \<in> set states. cs_health s = CollectionReliable \<and>
         provider_enabled (evaluation_provider_settings st) (si_provider (cs_identity s))))"
proof -
  have q: "go_quot base adaptivePollDivisor = base div 5"
    using assms by (simp add: adaptivePollDivisor_def go_quot_nonneg)
  have hot: "\<exists>s \<in> set states. cs_health s = CollectionReliable \<and>
      provider_enabled (evaluation_provider_settings st) (si_provider (cs_identity s))"
    if "list_ex (state_hot now (evaluation_provider_settings st) base) states"
    using that by (auto simp: list_ex_iff state_hot_def provider_enabled_def split: if_splits option.splits)
  have "base div 5 \<le> base" using assms by (simp add: div_le_dividend int_div_le_self)
  then show ?thesis using assms q hot by (auto simp: adaptive_poll_interval_def Let_def)
qed

section \<open>Delivery\<close>

text \<open>Every claimed batch is resolved exactly one way: sent, given up, or scheduled for a retry, and
  only a failed send that another attempt may cure is retried, so no batch is attempted more than
  the maximum number of times.\<close>

theorem resolve_claim_exclusive:
  assumes "0 < now"
  shows "(let r = resolve_claim send now c in
    nr_batch_id r = nb_id (nc_batch c) \<and> nr_lease r = nc_lease c \<and>
    (nr_failure r = None \<longleftrightarrow> (\<exists>f. send = Some f \<and> f (nc_batch c) = None)) \<and>
    (nr_failure r = None \<longleftrightarrow> \<not> nr_permanent r \<and> nr_retry_at r = 0) \<and>
    (nr_failure r \<noteq> None \<longrightarrow> nr_sent_at r = 0 \<and> (nr_permanent r \<longleftrightarrow> nr_retry_at r = 0)) \<and>
    (nr_retry_at r \<noteq> 0 \<longrightarrow> nc_attempt c < MaxNotificationAttempts \<and> nr_retry_at r > now \<and>
       (\<exists>f x. send = Some f \<and> f (nc_batch c) = Some (OtherSendError x))))"
proof -
  have t: "now < trunc_us (now + DefaultNotificationRetryDelay)"
    by (simp add: trunc_us_def DefaultNotificationRetryDelay_def time_simps)
  then have nz: "trunc_us (now + DefaultNotificationRetryDelay) \<noteq> 0" using assms by simp
  show ?thesis
  proof (cases send)
    case None
    then show ?thesis by (simp add: resolve_claim_def Let_def)
  next
    case (Some f)
    show ?thesis
    proof (cases "f (nc_batch c)")
      case None
      with Some show ?thesis by (simp add: resolve_claim_def Let_def)
    next
      case (Some e)
      with \<open>send = Some f\<close> t nz show ?thesis
        by (cases e) (auto simp: resolve_claim_def Let_def)
    qed
  qed
qed

section \<open>Reading the stored states\<close>

text \<open>A store that answers the cursors in \<open>cs\<close> one after the other, each with its page.\<close>

fun page_chain ::
  "(string \<Rightarrow> (current_state list \<times> string) result) \<Rightarrow> string \<Rightarrow> current_state list list \<Rightarrow> bool" where
  "page_chain pages cursor [] \<longleftrightarrow> False"
| "page_chain pages cursor (ss # rest) \<longleftrightarrow>
     (\<exists>items next. pages cursor = Inr (items, next) \<and> mapE state_normalize items = Inr ss \<and>
        (if rest = [] then next = [] else next \<noteq> [] \<and> next \<noteq> cursor \<and> page_chain pages next rest))"


section \<open>The commit of a cycle\<close>

definition key_of_identity :: "state_identity \<Rightarrow> auth_key" where
  "key_of_identity i = (si_auth i, si_provider i)"

text \<open>Every identity observed is either recorded as observed or belongs to a credential that failed, and
  its credential is active.\<close>

definition cycle_inv :: "auth_key set \<Rightarrow> collection_cycle \<Rightarrow> bool" where
  "cycle_inv active cy \<longleftrightarrow>
     (\<forall>ob \<in> set (cy_observations cy). \<forall>i. identity_normalize (ob_identity ob) = Inr i \<longrightarrow>
        key_of_identity i \<in> active \<and> (i \<in> cy_observed cy \<or> key_of_identity i \<in> cy_failed cy))"

text \<open>Collectors report on their own credential, and a credential names its provider canonically.\<close>

definition own_observations :: "(auth_snapshot \<Rightarrow> collect_outcome \<times> instant) \<Rightarrow> bool" where
  "own_observations probe \<longleftrightarrow>
     (\<forall>a obs at k ob i. probe a = (Collected obs, at) \<longrightarrow> auth_key_of a = Some k \<longrightarrow> ob \<in> set obs \<longrightarrow>
        identity_normalize (ob_identity ob) = Inr i \<longrightarrow> key_of_identity i = k)"

lemma unknown_observation_key:
  assumes "auth_key_of a = Some k" and "as_provider a \<in> set supported_providers"
    and "identity_normalize (ob_identity (unknown_observation a at code)) = Inr i"
  shows "key_of_identity i = k"
  using assms
  by (auto simp: auth_key_of_def unknown_observation_def unknown_evidence_def key_of_identity_def
      split: sum.splits)

lemma unknown_observations_key:
  assumes "auth_key_of a = Some k" and "as_provider a \<in> set supported_providers"
    and "\<forall>s \<in> set previous. state_wf s" and "ob \<in> set (unknown_observations a (previous_states_of previous k) at code)"
    and "identity_normalize (ob_identity ob) = Inr i"
  shows "key_of_identity i = k"
proof (cases "previous_states_of previous k = []")
  case True
  with assms(4) have "ob = unknown_observation a at code" by (simp add: unknown_observations_def)
  with unknown_observation_key [OF assms(1,2)] assms(5) show ?thesis by simp
next
  case False
  with assms(4) obtain s where s: "s \<in> set previous" "state_key s = k" "ob_identity ob = cs_identity s"
    by (auto simp: unknown_observations_def previous_states_of_def unknown_evidence_def)
  with assms(3,5) have "i = cs_identity s" by (auto simp: state_wf_def identity_normalize_id)
  with s(2) show ?thesis by (simp add: key_of_identity_def state_key_def)
qed

lemma collect_job_inv:
  assumes "cycle_inv active cy" and "own_observations probe" and "as_provider a \<in> set supported_providers"
    and "\<forall>s \<in> set previous. state_wf s"
  shows "cycle_inv active (collect_job previous probe active cy a)"
proof (cases "auth_key_of a")
  case None
  with assms(1) show ?thesis by (simp add: collect_job_def)
next
  case (Some k)
  obtain outcome at where pr: "probe a = (outcome, at)" by (cases "probe a")
  obtain obs failed where co: "collect_auth_observations a (previous_states_of previous k) outcome at = (obs, failed)"
    by fastforce
  have own: "key_of_identity i = k \<and> (failed \<or> i \<in> set (List.map_filter (\<lambda>ob. case identity_normalize (ob_identity ob) of
        Inl _ \<Rightarrow> None | Inr i \<Rightarrow> Some i) obs))"
    if "ob \<in> set obs" "identity_normalize (ob_identity ob) = Inr i" for ob i
  proof (cases outcome)
    case (Collected cobs)
    with co pr have "obs = cobs" by (simp add: collect_auth_observations_def)
    then have "key_of_identity i = k"
      using that assms(2) pr Collected Some unfolding own_observations_def by metis
    moreover have "i \<in> set (List.map_filter (\<lambda>ob. case identity_normalize (ob_identity ob) of
        Inl _ \<Rightarrow> None | Inr i \<Rightarrow> Some i) obs)"
      using that by (force simp: List.map_filter_def)
    ultimately show ?thesis by blast
  qed (use co that unknown_observations_key [OF Some assms(3,4)] in
      \<open>auto simp: collect_auth_observations_def\<close>)
  show ?thesis
  proof (cases "k \<in> active")
    case False
    with Some assms(1) show ?thesis by (simp add: collect_job_def)
  next
    case True
    have "collect_job previous probe active cy a =
      cy\<lparr>cy_observations := cy_observations cy @ obs,
         cy_observed := cy_observed cy \<union>
           set (List.map_filter (\<lambda>ob. case identity_normalize (ob_identity ob) of
                   Inl _ \<Rightarrow> None | Inr i \<Rightarrow> Some i) obs),
         cy_failed := if failed then insert k (cy_failed cy) else cy_failed cy\<rparr>"
      using Some True pr co by (simp add: collect_job_def Let_def)
    then show ?thesis
      using assms(1) own True unfolding cycle_inv_def by (auto split: if_splits)
  qed
qed

lemma collect_observations_inv:
  assumes "own_observations probe" and "\<forall>a \<in> set auths. as_provider a \<in> set supported_providers"
    and "\<forall>s \<in> set previous. state_wf s"
  shows "cycle_inv active (collect_observations auths previous probe active)"
proof -
  have "cycle_inv active cy \<Longrightarrow> cycle_inv active (foldl (collect_job previous probe active) cy auths)" for cy
    using assms(2)
  proof (induction auths arbitrary: cy)
    case (Cons a auths)
    from collect_job_inv [OF Cons.prems(1) assms(1) _ assms(3), of a] Cons show ?case by simp
  qed simp
  moreover have "cycle_inv active empty_cycle" by (simp add: cycle_inv_def empty_cycle_def)
  ultimately show ?thesis by (simp add: collect_observations_def)
qed

lemma auth_by_key_Some:
  "map_of (auth_by_key auths) k = Some a \<Longrightarrow> a \<in> set auths \<and> auth_key_of a = Some k"
proof -
  have "map_of (foldl (\<lambda>m a. case auth_key_of a of None \<Rightarrow> m | Some k \<Rightarrow> AList.update k a m) m auths) k = Some a \<Longrightarrow>
      map_of m k = Some a \<or> (a \<in> set auths \<and> auth_key_of a = Some k)" for m
  proof (induction auths arbitrary: m)
    case (Cons b auths)
    let ?m = "case auth_key_of b of None \<Rightarrow> m | Some k \<Rightarrow> AList.update k b m"
    from Cons.IH [of ?m] Cons.prems have "map_of ?m k = Some a \<or> a \<in> set auths \<and> auth_key_of a = Some k" by simp
    then show ?case by (cases "auth_key_of b") (auto simp: update_conv' split: if_splits)
  qed simp
  from this [of "[]"] show "map_of (auth_by_key auths) k = Some a \<Longrightarrow> a \<in> set auths \<and> auth_key_of a = Some k"
    by (simp add: auth_by_key_def)
qed


lemma health_step_cycle:
  "ha_cycle (health_step D st am health codes at acc k) = ha_cycle acc \<or>
   (\<exists>a code. map_of am k = Some a \<and> k \<in> cy_failed (ha_cycle acc) \<and>
      ha_cycle (health_step D st am health codes at acc k) =
        (let cy = ha_cycle acc; ob = unknown_observation a at code in
         cy\<lparr>cy_observed := insert (ob_identity ob) (cy_observed cy),
            cy_observations := cy_observations cy @ [ob]\<rparr>))"
  by (simp add: health_step_def Let_def split: option.splits sum.splits) blast

lemma health_step_inv:
  assumes "cycle_inv active (ha_cycle acc)" and "k \<in> active"
    and "\<And>a. map_of am k = Some a \<Longrightarrow> auth_key_of a = Some k \<and> as_provider a \<in> set supported_providers"
  shows "cycle_inv active (ha_cycle (health_step D st am health codes at acc k))"
proof -
  have add: "cycle_inv active (cy\<lparr>cy_observed := insert (ob_identity ob) (cy_observed cy),
      cy_observations := cy_observations cy @ [ob]\<rparr>)"
    if "cycle_inv active cy" "k \<in> cy_failed cy"
      "\<And>i. identity_normalize (ob_identity ob) = Inr i \<Longrightarrow> key_of_identity i = k" for cy ob
    using that assms(2) by (auto simp: cycle_inv_def)
  from health_step_cycle [of D st am health codes at acc k] show ?thesis
  proof (elim disjE exE conjE, goal_cases)
    case 1
    with assms(1) show ?case by simp
  next
    case (2 a code)
    from assms(3) [OF 2(1)] have
      "\<And>i. identity_normalize (ob_identity (unknown_observation a at code)) = Inr i \<Longrightarrow> key_of_identity i = k"
      using unknown_observation_key by blast
    from add [OF assms(1) 2(2) this] 2(3) show ?case by (simp add: Let_def)
  qed
qed

lemma cycle_advance_inv:
  assumes "own_observations (env_probe env)" and "\<forall>a \<in> set auths. as_provider a \<in> set supported_providers"
    and "\<forall>s \<in> set previous. state_wf s"
  shows "cycle_inv (active_auth_provider_keys st auths) (ha_cycle (cycle_advance D env st auths previous rows))"
proof -
  let ?active = "active_auth_provider_keys st auths"
  have fin: "finite ?active" by (simp add: active_auth_provider_keys_def)
  have step: "cycle_inv ?active (ha_cycle acc) \<Longrightarrow> set ks \<subseteq> ?active \<Longrightarrow>
      cycle_inv ?active (ha_cycle (foldl (health_step D st (auth_by_key auths) health codes at) acc ks))"
    for acc ks health codes at
  proof (induction ks arbitrary: acc)
    case (Cons k ks)
    have "cycle_inv ?active (ha_cycle (health_step D st (auth_by_key auths) health codes at acc k))"
      by (rule health_step_inv) (use Cons.prems auth_by_key_Some assms(2) in auto)
    with Cons show ?case by simp
  qed simp
  show ?thesis
    using collect_observations_inv [OF assms]
    by (auto simp: cycle_advance_def advance_collection_health_def Let_def sorted_auth_provider_keys_def fin
        intro!: step)
qed

text \<open>A commit never both stores and deletes a state: the identities of the states it writes are
  disjoint from the identities it removes, where each collector reports on its own credential and
  the keys at hand do not collide.\<close>

theorem run_collection_once_disjoint:
  assumes "run_collection_once D env = Inr (Some cm)" and "env_settings env = Inr st"
    and "env_auths env = Inr auths" and "env_states env = Inr previous" and "env_health env = Inr rows"
    and "own_observations (env_probe env)" and "\<forall>a \<in> set auths. as_provider a \<in> set supported_providers"
    and "\<forall>s \<in> set previous. state_wf s"
    and "no_collision D (input_identities (cycle_input D env st auths previous rows))"
  shows "cs_identity ` set (cm_states cm) \<inter> set (cm_removed cm) = {}"
proof -
  let ?inp = "cycle_input D env st auths previous rows"
  let ?cy = "ha_cycle (cycle_advance D env st auths previous rows)"
  from assms(1-5) obtain res where en: "set_enabled st" "settings_validate st = Inr ()"
    and res: "evaluate_observations D ?inp = Inr res" "cm_states cm = res_states res"
    and rem: "cm_removed cm = removed_state_identities previous (active_auth_provider_keys st auths) ?cy"
    by (auto simp: run_collection_once_def Let_def split: if_splits)
  have sn: "normalized_evaluation_settings (in_settings ?inp) = Inr st"
  proof -
    from en(2) have "set_poll_interval st \<noteq> 0" "set_confirmation st \<noteq> 0"
      by (auto simp: settings_validate_def MinPollInterval_def time_simps)
    then show ?thesis using en(2) by (simp add: cycle_input_def normalized_evaluation_settings_def)
  qed
  note inv = cycle_advance_inv [OF assms(6-8), of st D rows]
  have "i \<notin> set (cm_removed cm)" if "i \<in> cs_identity ` set (cm_states cm)" for i
  proof
    assume "i \<in> set (cm_removed cm)"
    then obtain s where s: "s \<in> set previous" "i = cs_identity s"
        "state_key s \<notin> active_auth_provider_keys st auths \<or>
         (state_key s \<notin> cy_failed ?cy \<and> cs_identity s \<notin> cy_observed ?cy)"
      unfolding rem by (auto simp: removed_state_identities_def)
    from that cycle_states [OF res(1) sn en(1) assms(9)] res(2) obtain ob where
        "ob \<in> set (cy_observations ?cy)" "identity_normalize (ob_identity ob) = Inr i"
      by (auto simp: cycle_input_def)
    with inv have "key_of_identity i \<in> active_auth_provider_keys st auths"
      "i \<in> cy_observed ?cy \<or> key_of_identity i \<in> cy_failed ?cy"
      by (auto simp: cycle_inv_def)
    with s show False by (auto simp: key_of_identity_def state_key_def)
  qed
  then show ?thesis by blast
qed

section \<open>Witnesses\<close>

definition demo_auth :: auth_snapshot where
  "demo_auth = \<lparr>as_auth = ''a'', as_provider = ''codex'', as_label = ''l''\<rparr>"

definition demo_rows :: "health_record list" where
  "demo_rows = [\<lparr>hr_key = \<lparr>hk_auth = ''a'', hk_provider = ''codex''\<rparr>, hr_failures = 2,
     hr_code = FailureTimeout, hr_updated_at = 5000\<rparr>]"

lemma demo_health: "health_by_key demo_rows = [((''a'', ''codex''), hd demo_rows)]"
  by (simp add: health_by_key_def demo_rows_def)

theorem advance_collection_health_streaks_witness:
  "map hr_failures (ha_upserts (advance_collection_health demo_digest demo_settings [demo_auth] {(''a'', ''codex'')}
     \<lparr>cy_observations = [], cy_observed = {}, cy_failed = {(''a'', ''codex'')}\<rparr> demo_rows 9000)) = [3]"
proof -
  let ?h = "health_by_key demo_rows"
  have p: "previous_failures ?h k = (if k = (''a'', ''codex'') then 2 else 0)" for k
    by (simp add: previous_failures_def demo_health) (simp add: demo_rows_def)
  have f: "\<forall>k. 0 \<le> previous_failures ?h k \<and> previous_failures ?h k < int64_max"
    by (simp add: p int64_max_def)
  from advance_collection_health_streaks [OF refl refl _ f,
      of "{(''a'', ''codex'')}" demo_digest demo_settings "[demo_auth]"
        "\<lparr>cy_observations = [], cy_observed = {}, cy_failed = {(''a'', ''codex'')}\<rparr>" 9000]
  show ?thesis by (simp add: sorted_auth_provider_keys_def p)
qed

theorem adaptive_poll_interval_bounds_witness:
  "minute \<le> adaptive_poll_interval 9000 [demo_state AlertWarning 5] demo_settings (5 * minute) minute"
  using adaptive_poll_interval_bounds [of minute "5 * minute"] by (simp add: time_simps)

theorem resolve_claim_exclusive_witness:
  "nr_permanent (resolve_claim None 9000 \<lparr>nc_batch = \<lparr>nb_id = ''b'', nb_provider = ''codex'', nb_events = [],
     nb_created_at = 5000\<rparr>, nc_lease = ''l'', nc_attempt = 1\<rparr>)"
  using resolve_claim_exclusive [of 9000 None "\<lparr>nc_batch = \<lparr>nb_id = ''b'', nb_provider = ''codex'',
     nb_events = [], nb_created_at = 5000\<rparr>, nc_lease = ''l'', nc_attempt = 1\<rparr>"]
  by (simp add: Let_def resolve_claim_def)


definition demo_env :: collection_env where
  "demo_env = \<lparr>env_settings = Inr demo_settings, env_acquired = Inr True, env_auths = Inr [demo_auth],
     env_states = Inr [demo_state AlertWarning 5], env_health = Inr [],
     env_probe = (\<lambda>_. (Collected [], 9000)), env_now = 9000\<rparr>"

theorem run_collection_once_disjoint_witness:
  "\<exists>cm. run_collection_once demo_digest demo_env = Inr (Some cm) \<and> cm_removed cm = [demo_identity] \<and>
     demo_identity \<notin> cs_identity ` set (cm_states cm)"
proof -
  have st: "settings_validate demo_settings = Inr ()" "set_enabled demo_settings"
      "normalized_evaluation_settings demo_settings = Inr demo_settings"
    by (simp_all add: normalized_evaluation_settings_def demo_settings_def default_settings_def
        settings_validate_def quota_consts percentage_validate_ok [THEN iffD2] telegram_validate_def
        fadd_flt_of_int)
  have cfg: "map_of (evaluation_provider_settings demo_settings) ''codex'' = Some (True, flt_of_int 10)"
    by (simp add: evaluation_provider_settings_def supported_providers_def demo_settings_def
        default_settings_def DefaultWarningThreshold_def)
  have k: "auth_key_of demo_auth = Some (''a'', ''codex'')"
    by (simp add: auth_key_of_def demo_auth_def identity_normalize_def provider_validate_def string_eval)
  have act: "active_auth_provider_keys demo_settings [demo_auth] = {(''a'', ''codex'')}"
    by (auto simp: active_auth_provider_keys_def map_filter_simps k provider_enabled_def cfg)
  have adv: "cycle_advance demo_digest demo_env demo_settings [demo_auth] [demo_state AlertWarning 5] [] =
      \<lparr>ha_degraded = [], ha_upserts = [], ha_deletes = [], ha_cycle = empty_cycle\<rparr>"
    by (simp add: cycle_advance_def act collect_observations_def collect_job_def k demo_env_def
        collect_auth_observations_def advance_collection_health_def sorted_auth_provider_keys_def
        health_by_key_def health_step_def empty_cycle_def map_filter_simps)
  have "stable_key demo_digest demo_identity = Inr ''k''"
    by (simp add: stable_key_eq demo_digest_def)
  then have p: "normalize_previous_states demo_digest [demo_state AlertWarning 5] = Inr [(''k'', demo_state AlertWarning 5)]"
    using demo_state_wf
    by (simp add: normalize_previous_states_def previous_step_def state_normalize_id) (simp add: demo_state_def)
  let ?inp = "cycle_input demo_digest demo_env demo_settings [demo_auth] [demo_state AlertWarning 5] []"
  have inp: "?inp = \<lparr>in_settings = demo_settings, in_observations = [], in_previous = [demo_state AlertWarning 5],
      in_evaluated_at = 9000\<rparr>"
    by (simp add: cycle_input_def adv empty_cycle_def) (simp add: demo_env_def)
  have "evaluate_observations demo_digest ?inp = Inr \<lparr>res_states = [], res_events = [], res_batches = []\<rparr>"
    by (simp add: inp evaluate_observations_def st p normalize_latest_observations_def sorted_observations_def
        group_transition_events_def Let_def)
  then obtain cm where cm: "run_collection_once demo_digest demo_env = Inr (Some cm)"
    and r: "cm_removed cm = [demo_identity]"
    by (simp add: run_collection_once_def demo_env_def [THEN arg_cong, of env_settings]
        demo_env_def [THEN arg_cong, of env_acquired] demo_env_def [THEN arg_cong, of env_auths]
        demo_env_def [THEN arg_cong, of env_states] demo_env_def [THEN arg_cong, of env_health]
        st adv group_transition_events_def Let_def removed_state_identities_def act empty_cycle_def)
      (simp add: demo_state_def state_key_def demo_identity_def)
  have nc: "no_collision demo_digest (input_identities ?inp)"
    by (auto simp: no_collision_def input_identities_def inp inj_on_def)
  from run_collection_once_disjoint [OF cm _ _ _ _ _ _ _ nc] have
    "cs_identity ` set (cm_states cm) \<inter> set (cm_removed cm) = {}"
    using demo_state_wf
    by (simp add: demo_env_def own_observations_def demo_auth_def supported_providers_def)
  with cm r show ?thesis by auto
qed

end
