(* ===== verification/Transition_Systems.thy ===== *)
theory Transition_Systems
  imports Main
begin

text \<open>
  Runs of a labelled step relation, and what is proved of them once and for all. A label is an
  operation with its answer, so the list of labels of a run is its history. A component that is a
  state machine gives its step relation and interprets \<open>invariant_system\<close> on each of its
  invariants and \<open>history_system\<close> on each fact that relates the history to the state.
\<close>

inductive run_of :: "('s \<Rightarrow> 'l \<Rightarrow> 's \<Rightarrow> bool) \<Rightarrow> 's \<Rightarrow> 'l list \<Rightarrow> 's \<Rightarrow> bool"
  for step :: "'s \<Rightarrow> 'l \<Rightarrow> 's \<Rightarrow> bool" where
  run_Nil: "run_of step s [] s"
| run_snoc: "run_of step s ls t \<Longrightarrow> step t l u \<Longrightarrow> run_of step s (ls @ [l]) u"

inductive_cases run_snocE: "run_of step s (ls @ [l]) u"

lemma run_Nil_iff [simp]: "run_of step s [] t \<longleftrightarrow> s = t"
  by (auto intro: run_Nil elim: run_of.cases)

lemma run_snoc_iff: "run_of step s (ls @ [l]) u \<longleftrightarrow> (\<exists>t. run_of step s ls t \<and> step t l u)"
  by (auto intro: run_snoc elim: run_snocE)

lemma run_append: "run_of step s (ls @ ms) u \<longleftrightarrow> (\<exists>t. run_of step s ls t \<and> run_of step t ms u)"
proof (induction ms arbitrary: u rule: rev_induct)
  case (snoc l ms)
  then show ?case by (simp add: run_snoc_iff flip: append_assoc) blast
qed simp

lemma run_Cons_iff: "run_of step s (l # ls) u \<longleftrightarrow> (\<exists>t. step s l t \<and> run_of step t ls u)"
  using run_append [of step s "[l]" ls u] run_snoc_iff [of step s "[]" l] by simp

text \<open>A contract of every operation: the invariant is kept.\<close>

locale invariant_system =
  fixes step :: "'s \<Rightarrow> 'l \<Rightarrow> 's \<Rightarrow> bool" and Inv :: "'s \<Rightarrow> bool"
  assumes inv_step: "Inv s \<Longrightarrow> step s l t \<Longrightarrow> Inv t"
begin

lemma inv_run: "run_of step s ls t \<Longrightarrow> Inv s \<Longrightarrow> Inv t"
  by (induction rule: run_of.induct) (auto intro: inv_step)

text \<open>Every state passed on the way satisfies it too.\<close>

lemma inv_prefix: "run_of step s (ls @ ms) t \<Longrightarrow> Inv s \<Longrightarrow> \<exists>u. run_of step s ls u \<and> Inv u \<and> run_of step u ms t"
  by (auto simp: run_append dest: inv_run)

end

text \<open>A relation between the history and the state, under an invariant.\<close>

locale history_system = invariant_system step Inv
  for step :: "'s \<Rightarrow> 'l \<Rightarrow> 's \<Rightarrow> bool" and Inv :: "'s \<Rightarrow> bool" +
  fixes Hist :: "'s \<Rightarrow> 'l list \<Rightarrow> 's \<Rightarrow> bool"
  assumes hist_start: "Inv s \<Longrightarrow> Hist s [] s"
    and hist_step: "Inv s \<Longrightarrow> Inv t \<Longrightarrow> Hist s ls t \<Longrightarrow> step t l u \<Longrightarrow> Hist s (ls @ [l]) u"
begin

lemma hist_run: "run_of step s ls t \<Longrightarrow> Inv s \<Longrightarrow> Hist s ls t"
proof (induction rule: run_of.induct)
  case (run_snoc s ls t l u)
  from inv_run [OF run_snoc.hyps(1) run_snoc.prems] run_snoc show ?case
    by (blast intro: hist_step)
qed (rule hist_start)

end

text \<open>A measure that no operation decreases.\<close>

locale monotone_system =
  fixes step :: "'s \<Rightarrow> 'l \<Rightarrow> 's \<Rightarrow> bool" and measure_of :: "'s \<Rightarrow> 'm :: preorder"
  assumes mono_step: "step s l t \<Longrightarrow> measure_of s \<le> measure_of t"
begin

lemma mono_run: "run_of step s ls t \<Longrightarrow> measure_of s \<le> measure_of t"
  by (induction rule: run_of.induct) (auto intro: order_trans mono_step)

end

end
