(* ===== verification/Exec_Registry.thy ===== *)
theory Exec_Registry
  imports Go_Prelude Transition_Systems
begin

text \<open>
  The execution registry (sdk/cliproxy/executionregistry/registry.go and observation.go): dispatch
  tokens, execution scopes, release sequences, barriers, and the lifecycle from accepting through
  draining to closed. Each critical section of the code is one operation on the whole registry;
  the step relation interleaves the operations of all goroutines, so an \<open>EndWithRelease\<close> is the
  three steps \<open>scope_end_begin\<close>, \<open>mark_released\<close> and \<open>scope_remove\<close> with the closing of the resource
  between the first two, and waiting is a step that is not enabled yet. A token is its number; the
  \<open>sync.Once\<close> of a token is the set of spent numbers. The release sink and the acknowledgement
  tickets are an interface: the step that marks a release shows the group and sequence it is called
  with.
\<close>

section \<open>State\<close>

datatype registry_error =
    ErrRegistryNotAccepting | ErrRegistryClosed | ErrInvalidPendingDispatch
  | ErrInvalidExecutionResource | ErrExecutionResourceAlreadyBound

datatype lifecycle = StateAccepting | StateDraining | StateClosed

text \<open>The code numbers the states in this order.\<close>

fun state_number :: "lifecycle \<Rightarrow> nat" where
  "state_number StateAccepting = 0"
| "state_number StateDraining = 1"
| "state_number StateClosed = 2"

instantiation lifecycle :: linorder
begin

definition less_eq_lifecycle :: "lifecycle \<Rightarrow> lifecycle \<Rightarrow> bool" where
  "less_eq_lifecycle a b \<longleftrightarrow> state_number a \<le> state_number b"

definition less_lifecycle :: "lifecycle \<Rightarrow> lifecycle \<Rightarrow> bool" where
  "less_lifecycle a b \<longleftrightarrow> state_number a < state_number b"

instance
proof
  fix a b :: lifecycle
  assume "a \<le> b" "b \<le> a"
  then show "a = b" by (cases a; cases b) (simp_all add: less_eq_lifecycle_def)
qed (auto simp: less_eq_lifecycle_def less_lifecycle_def)

end

record scope_spec =
  ss_request :: string
  ss_credential :: string
  ss_model :: string
  ss_kind :: string
  ss_started_at :: instant
  ss_accounted :: bool

type_synonym release_group = "string \<times> string"

text \<open>\<open>closeFn\<close> and \<open>closeDone\<close>: neither, the function, the channel open, the channel closed.\<close>

datatype resource = Unbound | Bound | Closing | CloseFinished

text \<open>How far \<open>EndWithRelease\<close> has come.\<close>

datatype end_phase = NotEnded | WaitingClose | Released

record exec_scope =
  es_spec :: scope_spec
  es_resource :: resource
  es_active :: bool
  es_phase :: end_phase

record registry =
  rg_state :: lifecycle
  rg_next :: nat
  rg_snapshot :: int
  rg_observed :: int
  rg_barrier_seq :: nat
  rg_published :: int
  rg_pending :: "nat set"
  rg_scopes :: "(nat \<times> exec_scope) list"
  rg_spent :: "nat set"
  rg_releases :: "release_group \<Rightarrow> int"
  rg_closing :: "nat set option"

definition new_registry :: registry where
  "new_registry =
     \<lparr>rg_state = StateAccepting, rg_next = 0, rg_snapshot = 0, rg_observed = 0, rg_barrier_seq = 0,
      rg_published = 0, rg_pending = {}, rg_scopes = [], rg_spent = {}, rg_releases = (\<lambda>_. 0),
      rg_closing = None\<rparr>"

section \<open>Dispatch tokens\<close>

definition begin_dispatch :: "registry \<Rightarrow> (registry_error + nat) \<times> registry" where
  "begin_dispatch r =
     (if rg_state r \<noteq> StateAccepting then (Inl ErrRegistryNotAccepting, r)
      else let n = (rg_next r + 1) mod 2 ^ 64 in
        (Inr n, r\<lparr>rg_next := n, rg_pending := insert n (rg_pending r)\<rparr>))"

definition pending_end :: "nat \<Rightarrow> registry \<Rightarrow> registry" where
  "pending_end p r =
     (if p \<in> rg_spent r then r
      else r\<lparr>rg_spent := insert p (rg_spent r), rg_pending := rg_pending r - {p}\<rparr>)"

text \<open>\<open>own\<close> is false for a missing token or one of another registry.\<close>

definition install :: "bool \<Rightarrow> nat \<Rightarrow> scope_spec \<Rightarrow> registry \<Rightarrow> (registry_error + nat) \<times> registry" where
  "install own p spec r =
     (if \<not> own then (Inl ErrInvalidPendingDispatch, r)
      else if rg_state r \<noteq> StateAccepting then
        (Inl ErrRegistryNotAccepting,
         r\<lparr>rg_spent := insert p (rg_spent r), rg_pending := rg_pending r - {p}\<rparr>)
      else if p \<notin> rg_pending r then (Inl ErrInvalidPendingDispatch, r)
      else (Inr p, r\<lparr>rg_spent := insert p (rg_spent r), rg_pending := rg_pending r - {p},
                     rg_scopes := AList.update p
                       \<lparr>es_spec = spec, es_resource = Unbound, es_active = True, es_phase = NotEnded\<rparr>
                       (rg_scopes r)\<rparr>))"

section \<open>Scopes\<close>

definition scope_of :: "registry \<Rightarrow> nat \<Rightarrow> exec_scope option" where
  "scope_of r i = map_of (rg_scopes r) i"

definition set_scope :: "nat \<Rightarrow> exec_scope \<Rightarrow> registry \<Rightarrow> registry" where
  "set_scope i s r = r\<lparr>rg_scopes := AList.update i s (rg_scopes r)\<rparr>"

text \<open>A scope that is no longer in the registry is not active.\<close>

definition bind_resource :: "bool \<Rightarrow> nat \<Rightarrow> registry \<Rightarrow> (registry_error + unit) \<times> registry" where
  "bind_resource has_fn i r =
     (if \<not> has_fn then (Inl ErrInvalidExecutionResource, r)
      else case scope_of r i of
        None \<Rightarrow> (Inl ErrRegistryNotAccepting, r)
      | Some s \<Rightarrow>
          if rg_state r \<noteq> StateAccepting \<or> \<not> es_active s then (Inl ErrRegistryNotAccepting, r)
          else if es_resource s \<noteq> Unbound then (Inl ErrExecutionResourceAlreadyBound, r)
          else (Inr (), set_scope i (s\<lparr>es_resource := Bound\<rparr>) r))"

text \<open>The first critical section of \<open>EndWithRelease\<close>; a second call finds the work done.\<close>

definition scope_end_begin :: "nat \<Rightarrow> registry \<Rightarrow> registry" where
  "scope_end_begin i r =
     (case scope_of r i of
        None \<Rightarrow> r
      | Some s \<Rightarrow>
          if es_phase s \<noteq> NotEnded then r
          else set_scope i (s\<lparr>es_active := False, es_phase := WaitingClose\<rparr>) r)"

text \<open>\<open>startBoundResourceClose\<close>, and the goroutine's end.\<close>

definition start_close :: "nat \<Rightarrow> registry \<Rightarrow> registry" where
  "start_close i r =
     (case scope_of r i of
        None \<Rightarrow> r
      | Some s \<Rightarrow> if es_resource s = Bound then set_scope i (s\<lparr>es_resource := Closing\<rparr>) r else r)"

definition finish_close :: "nat \<Rightarrow> registry \<Rightarrow> registry" where
  "finish_close i r =
     (case scope_of r i of
        None \<Rightarrow> r
      | Some s \<Rightarrow> if es_resource s = Closing then set_scope i (s\<lparr>es_resource := CloseFinished\<rparr>) r else r)"

definition group_of :: "scope_spec \<Rightarrow> release_group" where
  "group_of spec = (ss_credential spec, ss_model spec)"

text \<open>\<open>waitForBoundResourceClose\<close> is over; \<open>None\<close> while it is not.\<close>

definition mark_released :: "nat \<Rightarrow> registry \<Rightarrow> ((release_group \<times> int) option \<times> registry) option" where
  "mark_released i r =
     (case scope_of r i of
        None \<Rightarrow> None
      | Some s \<Rightarrow>
          if es_phase s \<noteq> WaitingClose \<or> es_resource s = Bound \<or> es_resource s = Closing then None
          else let r1 = set_scope i (s\<lparr>es_phase := Released\<rparr>) r in
            if \<not> ss_accounted (es_spec s) then Some (None, r1)
            else let g = group_of (es_spec s); n = s64 (rg_releases r g + 1) in
              Some (Some (g, n), r1\<lparr>rg_releases := (rg_releases r)(g := n)\<rparr>))"

definition scope_remove :: "nat \<Rightarrow> registry \<Rightarrow> registry option" where
  "scope_remove i r =
     (case scope_of r i of
        None \<Rightarrow> None
      | Some s \<Rightarrow>
          if es_phase s = Released then Some (r\<lparr>rg_scopes := AList.delete i (rg_scopes r)\<rparr>) else None)"

section \<open>Lifecycle\<close>

definition drain_start :: "registry \<Rightarrow> (registry_error + unit) \<times> registry" where
  "drain_start r =
     (case rg_state r of
        StateAccepting \<Rightarrow> (Inr (), r\<lparr>rg_state := StateDraining\<rparr>)
      | StateDraining \<Rightarrow> (Inr (), r)
      | StateClosed \<Rightarrow> (Inl ErrRegistryClosed, r))"

text \<open>The end of the waiting loop of \<open>Drain\<close>, not enabled while there are owners.\<close>

definition drain_finish :: "registry \<Rightarrow> registry option" where
  "drain_finish r =
     (if rg_state r = StateAccepting \<or> rg_pending r \<noteq> {} \<or> rg_scopes r \<noteq> [] then None
      else Some (r\<lparr>rg_state := StateClosed\<rparr>))"

definition close_start :: "registry \<Rightarrow> registry" where
  "close_start r =
     (if rg_closing r \<noteq> None \<or> rg_state r = StateClosed then r
      else r\<lparr>rg_state := StateClosed, rg_closing := Some (fst ` set (rg_scopes r))\<rparr>)"

text \<open>\<open>Close\<close> returns once the resource of every scope it found is closed.\<close>

definition close_finished :: "registry \<Rightarrow> bool" where
  "close_finished r =
     (case rg_closing r of
        None \<Rightarrow> rg_state r = StateClosed
      | Some ids \<Rightarrow> list_all (\<lambda>(i, s). i \<in> ids \<longrightarrow> es_resource s = Unbound \<or> es_resource s = CloseFinished)
                       (rg_scopes r))"

section \<open>Observation\<close>

record exec_observation =
  eo_request :: string
  eo_credential :: string
  eo_model :: string
  eo_kind :: string
  eo_started_at :: instant
  eo_accounted :: bool

record freeze =
  fz_revision :: int
  fz_barrier :: int
  fz_executions :: "exec_observation list"

definition observe_barrier :: "int \<Rightarrow> registry \<Rightarrow> registry" where
  "observe_barrier n r =
     (if n \<le> 0 then r
      else if n > rg_observed r then r\<lparr>rg_observed := n, rg_barrier_seq := rg_next r\<rparr>
      else r)"

definition observe_scope :: "exec_scope \<Rightarrow> exec_observation" where
  "observe_scope s =
     \<lparr>eo_request = ss_request (es_spec s), eo_credential = ss_credential (es_spec s),
      eo_model = ss_model (es_spec s), eo_kind = ss_kind (es_spec s),
      eo_started_at = ss_started_at (es_spec s), eo_accounted = ss_accounted (es_spec s)\<rparr>"

definition freeze_in_flight :: "registry \<Rightarrow> freeze \<times> registry" where
  "freeze_in_flight r =
     (let published = (if rg_observed r > rg_published r \<and> \<not> (\<exists>p \<in> rg_pending r. p \<le> rg_barrier_seq r)
                       then rg_observed r else rg_published r);
          revision = s64 (rg_snapshot r + 1)
      in (\<lparr>fz_revision = revision, fz_barrier = published,
           fz_executions = map (observe_scope \<circ> snd) (rg_scopes r)\<rparr>,
          r\<lparr>rg_published := published, rg_snapshot := revision\<rparr>))"

section \<open>Steps\<close>

datatype label =
    LBegin "registry_error + nat"
  | LEndPending nat
  | LInstall bool nat scope_spec "registry_error + nat"
  | LBind bool nat "registry_error + unit"
  | LEndBegin nat
  | LStartClose nat
  | LFinishClose nat
  | LRelease nat "(release_group \<times> int) option"
  | LRemove nat
  | LDrainStart "registry_error + unit"
  | LDrainFinish
  | LCloseStart
  | LObserve int
  | LFreeze freeze

text \<open>Only tokens handed out are ended or installed, and the relation covers the dispatches before the
  token counter wraps.\<close>

definition handed_out :: "registry \<Rightarrow> nat \<Rightarrow> bool" where
  "handed_out r p \<longleftrightarrow> 1 \<le> p \<and> p \<le> rg_next r"

text \<open>The resource of a scope is closed by its own end, by a drain or by a close.\<close>

definition may_close :: "registry \<Rightarrow> nat \<Rightarrow> bool" where
  "may_close r i \<longleftrightarrow> rg_state r \<noteq> StateAccepting \<or>
     (case scope_of r i of None \<Rightarrow> False | Some s \<Rightarrow> es_phase s = WaitingClose)"

inductive exec_step :: "registry \<Rightarrow> label \<Rightarrow> registry \<Rightarrow> bool" where
  ex_begin: "begin_dispatch r = (out, r') \<Longrightarrow> rg_next r + 1 < 2 ^ 64 \<Longrightarrow> exec_step r (LBegin out) r'"
| ex_end_pending: "handed_out r p \<Longrightarrow> exec_step r (LEndPending p) (pending_end p r)"
| ex_install: "install own p spec r = (out, r') \<Longrightarrow> own \<longrightarrow> handed_out r p \<Longrightarrow> exec_step r (LInstall own p spec out) r'"
| ex_bind: "bind_resource f i r = (out, r') \<Longrightarrow> exec_step r (LBind f i out) r'"
| ex_end: "exec_step r (LEndBegin i) (scope_end_begin i r)"
| ex_start_close: "may_close r i \<Longrightarrow> exec_step r (LStartClose i) (start_close i r)"
| ex_finish_close: "exec_step r (LFinishClose i) (finish_close i r)"
| ex_release: "mark_released i r = Some (out, r') \<Longrightarrow> exec_step r (LRelease i out) r'"
| ex_remove: "scope_remove i r = Some r' \<Longrightarrow> exec_step r (LRemove i) r'"
| ex_drain_start: "drain_start r = (out, r') \<Longrightarrow> exec_step r (LDrainStart out) r'"
| ex_drain_finish: "drain_finish r = Some r' \<Longrightarrow> exec_step r LDrainFinish r'"
| ex_close: "exec_step r LCloseStart (close_start r)"
| ex_observe: "exec_step r (LObserve n) (observe_barrier n r)"
| ex_freeze: "freeze_in_flight r = (f, r') \<Longrightarrow> exec_step r (LFreeze f) r'"

inductive_cases exec_stepE: "exec_step r l r'"

inductive_simps exec_step_release: "exec_step r (LRelease i out) r'"
inductive_simps exec_step_freeze: "exec_step r (LFreeze f) r'"
inductive_simps exec_step_observe: "exec_step r (LObserve n) r'"

section \<open>The invariant\<close>

definition scope_ok :: "exec_scope \<Rightarrow> bool" where
  "scope_ok s \<longleftrightarrow> (es_active s \<longleftrightarrow> es_phase s = NotEnded) \<and>
     (es_phase s = Released \<longrightarrow> es_resource s = Unbound \<or> es_resource s = CloseFinished)"

definition registry_inv :: "registry \<Rightarrow> bool" where
  "registry_inv r \<longleftrightarrow>
     finite (rg_pending r) \<and> rg_pending r \<inter> rg_spent r = {} \<and>
     distinct (map fst (rg_scopes r)) \<and>
     (\<forall>p \<in> rg_pending r. handed_out r p) \<and> (\<forall>p \<in> rg_spent r. handed_out r p) \<and>
     (\<forall>i s. scope_of r i = Some s \<longrightarrow> scope_ok s \<and> i \<in> rg_spent r) \<and>
     rg_published r \<le> rg_observed r \<and> rg_barrier_seq r \<le> rg_next r"

lemma scope_of_set_scope: "scope_of (set_scope i s r) j = (if j = i then Some s else scope_of r j)"
  by (simp add: scope_of_def set_scope_def update_conv')

lemma set_scope_sel [simp]:
  "rg_state (set_scope i s r) = rg_state r" "rg_next (set_scope i s r) = rg_next r"
  "rg_observed (set_scope i s r) = rg_observed r" "rg_published (set_scope i s r) = rg_published r"
  "rg_barrier_seq (set_scope i s r) = rg_barrier_seq r" "rg_pending (set_scope i s r) = rg_pending r"
  "rg_spent (set_scope i s r) = rg_spent r" "rg_releases (set_scope i s r) = rg_releases r"
  "rg_closing (set_scope i s r) = rg_closing r" "rg_snapshot (set_scope i s r) = rg_snapshot r"
  by (simp_all add: set_scope_def)

lemma scope_of_dom: "scope_of r i = Some s \<Longrightarrow> i \<in> fst ` set (rg_scopes r)"
  by (force simp: scope_of_def dest: map_of_SomeD)

lemma set_scope_inv:
  assumes "registry_inv r" and "scope_of r i = Some s0" and "scope_ok s"
  shows "registry_inv (set_scope i s r)"
proof -
  have "distinct (map fst (rg_scopes (set_scope i s r)))"
    using assms(1) by (simp add: registry_inv_def set_scope_def distinct_update)
  then show ?thesis
    using assms by (auto simp: registry_inv_def scope_of_set_scope handed_out_def)
qed

text \<open>Every operation keeps the invariant.\<close>

lemma begin_dispatch_inv:
  assumes "registry_inv r" and "begin_dispatch r = (out, r')" and "rg_next r + 1 < 2 ^ 64"
  shows "registry_inv r'"
proof (cases "rg_state r = StateAccepting")
  case True
  then have r': "r' = r\<lparr>rg_next := Suc (rg_next r), rg_pending := insert (Suc (rg_next r)) (rg_pending r)\<rparr>"
    using assms(2,3) by (auto simp: begin_dispatch_def Let_def)
  have "Suc (rg_next r) \<notin> rg_spent r"
    using assms(1) unfolding registry_inv_def handed_out_def by (metis Suc_n_not_le_n)
  moreover have "handed_out r' p" if "handed_out r p" for p using that by (simp add: handed_out_def r')
  moreover have "handed_out r' (Suc (rg_next r))" by (simp add: handed_out_def r')
  ultimately show ?thesis
    using assms(1) by (auto simp: registry_inv_def scope_of_def r')
qed (use assms in \<open>auto simp: begin_dispatch_def\<close>)

lemma pending_end_inv: "registry_inv r \<Longrightarrow> handed_out r p \<Longrightarrow> registry_inv (pending_end p r)"
  by (auto simp: registry_inv_def pending_end_def handed_out_def scope_of_def)

lemma install_inv:
  assumes "registry_inv r" and "install own p spec r = (out, r')" and "own \<longrightarrow> handed_out r p"
  shows "registry_inv r'"
proof -
  let ?s = "\<lparr>es_spec = spec, es_resource = Unbound, es_active = True, es_phase = NotEnded\<rparr>"
  have ok: "scope_ok ?s" by (simp add: scope_ok_def)
  consider "r' = r" | "own" "r' = r\<lparr>rg_spent := insert p (rg_spent r), rg_pending := rg_pending r - {p}\<rparr>"
    | "own" "p \<in> rg_pending r" "r' = r\<lparr>rg_spent := insert p (rg_spent r), rg_pending := rg_pending r - {p},
        rg_scopes := AList.update p ?s (rg_scopes r)\<rparr>"
    using assms(2) by (auto simp: install_def split: if_splits)
  then show ?thesis
  proof cases
    case 2
    with assms(1,3) show ?thesis by (auto simp: registry_inv_def handed_out_def scope_of_def)
  next
    case 3
    have "\<forall>i s. scope_of r' i = Some s \<longrightarrow> scope_ok s \<and> i \<in> rg_spent r'"
      using assms(1) ok by (auto simp: 3(3) scope_of_def update_conv' registry_inv_def)
    moreover have "distinct (map fst (rg_scopes r'))"
      using assms(1) by (simp add: 3(3) registry_inv_def distinct_update)
    ultimately show ?thesis
      using assms(1,3) 3(1) by (auto simp: registry_inv_def handed_out_def 3(3))
  qed (use assms in simp)
qed

lemma scope_ok_of: "registry_inv r \<Longrightarrow> scope_of r i = Some s \<Longrightarrow> scope_ok s"
  by (simp add: registry_inv_def)

lemma bind_resource_snd:
  "snd (bind_resource f i r) = r \<or>
   (\<exists>s. scope_of r i = Some s \<and> es_active s \<and> rg_state r = StateAccepting \<and>
      snd (bind_resource f i r) = set_scope i (s\<lparr>es_resource := Bound\<rparr>) r)"
  by (simp add: bind_resource_def split: option.split)

lemma bind_resource_inv:
  assumes "registry_inv r" and "bind_resource f i r = (out, r')"
  shows "registry_inv r'"
proof -
  consider "r' = r" | s where "scope_of r i = Some s" "es_active s" "r' = set_scope i (s\<lparr>es_resource := Bound\<rparr>) r"
    using bind_resource_snd [of f i r] assms(2) by auto
  then show ?thesis
  proof cases
    case 2
    with scope_ok_of [OF assms(1) 2(1)] show ?thesis
      by (simp add: set_scope_inv [OF assms(1)] scope_ok_def)
  qed (use assms in simp)
qed

lemma scope_steps_inv:
  assumes "registry_inv r"
  shows "registry_inv (scope_end_begin i r)" and "registry_inv (start_close i r)"
    and "registry_inv (finish_close i r)"
proof -
  show "registry_inv (scope_end_begin i r)"
  proof (cases "scope_of r i")
    case (Some s)
    with scope_ok_of [OF assms Some] assms show ?thesis
      by (simp add: scope_end_begin_def set_scope_inv scope_ok_def)
  qed (use assms in \<open>simp add: scope_end_begin_def\<close>)
  show "registry_inv (start_close i r)"
  proof (cases "scope_of r i")
    case (Some s)
    with scope_ok_of [OF assms Some] assms show ?thesis
      by (auto simp: start_close_def set_scope_inv scope_ok_def)
  qed (use assms in \<open>simp add: start_close_def\<close>)
  show "registry_inv (finish_close i r)"
  proof (cases "scope_of r i")
    case (Some s)
    with scope_ok_of [OF assms Some] assms show ?thesis
      by (auto simp: finish_close_def set_scope_inv scope_ok_def)
  qed (use assms in \<open>simp add: finish_close_def\<close>)
qed

lemma mark_released_Some:
  "mark_released i r = Some (out, r') \<longleftrightarrow>
     (\<exists>s. scope_of r i = Some s \<and> es_phase s = WaitingClose \<and>
        (es_resource s = Unbound \<or> es_resource s = CloseFinished) \<and>
        (if ss_accounted (es_spec s)
         then out = Some (group_of (es_spec s), s64 (rg_releases r (group_of (es_spec s)) + 1)) \<and>
           r' = (set_scope i (s\<lparr>es_phase := Released\<rparr>) r)\<lparr>rg_releases :=
             (rg_releases r)(group_of (es_spec s) := s64 (rg_releases r (group_of (es_spec s)) + 1))\<rparr>
         else out = None \<and> r' = set_scope i (s\<lparr>es_phase := Released\<rparr>) r))"
proof (cases "scope_of r i")
  case (Some s)
  then show ?thesis by (cases "es_resource s") (auto simp: mark_released_def Let_def)
qed (simp add: mark_released_def)

lemma mark_released_obtain:
  assumes "mark_released i r = Some (out, r')"
  obtains s rel where "scope_of r i = Some s" and "es_phase s = WaitingClose"
    and "es_resource s = Unbound \<or> es_resource s = CloseFinished"
    and "r' = (set_scope i (s\<lparr>es_phase := Released\<rparr>) r)\<lparr>rg_releases := rel\<rparr>"
    and "case out of None \<Rightarrow> rel = rg_releases r
         | Some (g, n) \<Rightarrow> g = group_of (es_spec s) \<and> n = s64 (rg_releases r g + 1) \<and> rel = (rg_releases r)(g := n)"
proof -
  from assms obtain s where s: "scope_of r i = Some s" "es_phase s = WaitingClose"
      "es_resource s = Unbound \<or> es_resource s = CloseFinished"
    unfolding mark_released_Some by blast
  let ?g = "group_of (es_spec s)"
  let ?n = "s64 (rg_releases r ?g + 1)"
  show thesis
  proof (cases "ss_accounted (es_spec s)")
    case True
    with assms s have "out = Some (?g, ?n)"
      "r' = (set_scope i (s\<lparr>es_phase := Released\<rparr>) r)\<lparr>rg_releases := (rg_releases r)(?g := ?n)\<rparr>"
      by (auto simp: mark_released_Some)
    with that [OF s, of "(rg_releases r)(?g := ?n)"] show thesis by simp
  next
    case False
    with assms s have o: "out = None" "r' = set_scope i (s\<lparr>es_phase := Released\<rparr>) r"
      by (auto simp: mark_released_Some)
    then have "r' = (set_scope i (s\<lparr>es_phase := Released\<rparr>) r)\<lparr>rg_releases := rg_releases r\<rparr>"
      by (simp add: set_scope_def)
    with that [OF s, of "rg_releases r"] o(1) show thesis by simp
  qed
qed

lemma scope_remove_Some:
  "scope_remove i r = Some r' \<longleftrightarrow>
     (\<exists>s. scope_of r i = Some s \<and> es_phase s = Released \<and>
        r' = r\<lparr>rg_scopes := AList.delete i (rg_scopes r)\<rparr>)"
  by (auto simp: scope_remove_def split: option.splits if_splits)

lemma release_steps_inv:
  assumes "registry_inv r"
  shows "mark_released i r = Some (out, r') \<Longrightarrow> registry_inv r'"
    and "scope_remove i r = Some r' \<Longrightarrow> registry_inv r'"
proof -
  assume "mark_released i r = Some (out, r')"
  then obtain s rel where s: "scope_of r i = Some s" "es_phase s = WaitingClose"
      "es_resource s = Unbound \<or> es_resource s = CloseFinished"
    and r': "r' = (set_scope i (s\<lparr>es_phase := Released\<rparr>) r)\<lparr>rg_releases := rel\<rparr>"
    by (rule mark_released_obtain)
  have "registry_inv (set_scope i (s\<lparr>es_phase := Released\<rparr>) r)"
    using scope_ok_of [OF assms s(1)] s(2,3) by (intro set_scope_inv [OF assms s(1)]) (simp add: scope_ok_def)
  then show "registry_inv r'" unfolding r' by (simp add: registry_inv_def handed_out_def scope_of_def)
next
  assume "scope_remove i r = Some r'"
  then have r': "r' = r\<lparr>rg_scopes := AList.delete i (rg_scopes r)\<rparr>" by (auto simp: scope_remove_Some)
  have "distinct (map fst (AList.delete i (rg_scopes r)))"
    using assms by (simp add: registry_inv_def distinct_delete)
  moreover have "scope_of r' j = Some s \<Longrightarrow> scope_of r j = Some s" for j s
    by (auto simp: r' scope_of_def delete_conv' split: if_splits)
  then have "\<forall>j s. scope_of r' j = Some s \<longrightarrow> scope_ok s \<and> j \<in> rg_spent r"
    using assms unfolding registry_inv_def by blast
  ultimately show "registry_inv r'"
    using assms by (simp add: registry_inv_def handed_out_def r')
qed

lemma registry_inv_cong:
  assumes "registry_inv r" and "rg_pending r' = rg_pending r" and "rg_spent r' = rg_spent r"
    and "rg_scopes r' = rg_scopes r" and "rg_next r' = rg_next r"
    and "rg_published r' \<le> rg_observed r'" and "rg_barrier_seq r' \<le> rg_next r'"
  shows "registry_inv r'"
  using assms by (simp add: registry_inv_def handed_out_def scope_of_def)

lemma lifecycle_steps_inv:
  assumes "registry_inv r"
  shows "drain_start r = (out, r') \<Longrightarrow> registry_inv r'" and "drain_finish r = Some r' \<Longrightarrow> registry_inv r'"
    and "registry_inv (close_start r)" and "registry_inv (observe_barrier n r)"
    and "freeze_in_flight r = (f, r') \<Longrightarrow> registry_inv r'"
proof -
  have b: "rg_published r \<le> rg_observed r" "rg_barrier_seq r \<le> rg_next r"
    using assms by (auto simp: registry_inv_def)
  show "drain_start r = (out, r') \<Longrightarrow> registry_inv r'"
    by (rule registry_inv_cong [OF assms]) (use b in \<open>auto simp: drain_start_def split: lifecycle.splits\<close>)
  show "drain_finish r = Some r' \<Longrightarrow> registry_inv r'"
    by (rule registry_inv_cong [OF assms]) (use b in \<open>auto simp: drain_finish_def split: if_splits\<close>)
  show "registry_inv (close_start r)"
    by (rule registry_inv_cong [OF assms]) (use b in \<open>auto simp: close_start_def\<close>)
  show "registry_inv (observe_barrier n r)"
    by (rule registry_inv_cong [OF assms]) (use b in \<open>auto simp: observe_barrier_def\<close>)
  show "freeze_in_flight r = (f, r') \<Longrightarrow> registry_inv r'"
    by (rule registry_inv_cong [OF assms]) (use b in \<open>auto simp: freeze_in_flight_def Let_def\<close>)
qed

interpretation registry_invariant: invariant_system exec_step registry_inv
proof
  fix s l t assume "registry_inv s" "exec_step s l t"
  then show "registry_inv t"
    by (cases rule: exec_step.cases [OF \<open>exec_step s l t\<close>])
      (blast intro: begin_dispatch_inv pending_end_inv install_inv bind_resource_inv scope_steps_inv
        release_steps_inv lifecycle_steps_inv)+
qed

lemma new_registry_inv: "registry_inv new_registry"
  by (simp add: registry_inv_def new_registry_def scope_of_def)

lemma scope_ops_sel [simp]:
  "rg_observed (scope_end_begin i r) = rg_observed r" "rg_observed (start_close i r) = rg_observed r"
  "rg_observed (finish_close i r) = rg_observed r"
  "rg_published (scope_end_begin i r) = rg_published r" "rg_published (start_close i r) = rg_published r"
  "rg_published (finish_close i r) = rg_published r"
  "rg_barrier_seq (scope_end_begin i r) = rg_barrier_seq r" "rg_barrier_seq (start_close i r) = rg_barrier_seq r"
  "rg_barrier_seq (finish_close i r) = rg_barrier_seq r"
  "rg_next (scope_end_begin i r) = rg_next r" "rg_next (start_close i r) = rg_next r"
  "rg_next (finish_close i r) = rg_next r"
  "rg_pending (scope_end_begin i r) = rg_pending r" "rg_pending (start_close i r) = rg_pending r"
  "rg_pending (finish_close i r) = rg_pending r"
  "rg_releases (scope_end_begin i r) = rg_releases r" "rg_releases (start_close i r) = rg_releases r"
  "rg_releases (finish_close i r) = rg_releases r"
  "rg_state (scope_end_begin i r) = rg_state r" "rg_state (start_close i r) = rg_state r"
  "rg_state (finish_close i r) = rg_state r"
  by (cases "scope_of r i"; simp add: scope_end_begin_def start_close_def finish_close_def)+

lemma registry_ops_state:
  "begin_dispatch r = (out, r') \<Longrightarrow> rg_state r' = rg_state r"
  "rg_state (pending_end p r) = rg_state r"
  "install own p spec r = (out2, r') \<Longrightarrow> rg_state r' = rg_state r"
  "bind_resource f i r = (out3, r') \<Longrightarrow> rg_state r' = rg_state r"
  "mark_released i r = Some (out4, r') \<Longrightarrow> rg_state r' = rg_state r"
  "scope_remove i r = Some r' \<Longrightarrow> rg_state r' = rg_state r"
  "rg_state (observe_barrier n r) = rg_state r"
  "freeze_in_flight r = (f4, r') \<Longrightarrow> rg_state r' = rg_state r"
proof -
  show "begin_dispatch r = (out, r') \<Longrightarrow> rg_state r' = rg_state r"
    by (auto simp: begin_dispatch_def Let_def split: if_splits)
  show "rg_state (pending_end p r) = rg_state r" by (simp add: pending_end_def)
  show "install own p spec r = (out2, r') \<Longrightarrow> rg_state r' = rg_state r"
    by (auto simp: install_def split: if_splits)
  show "bind_resource f i r = (out3, r') \<Longrightarrow> rg_state r' = rg_state r"
    using bind_resource_snd [of f i r] by auto
  show "mark_released i r = Some (out4, r') \<Longrightarrow> rg_state r' = rg_state r"
    by (erule mark_released_obtain) simp
  show "scope_remove i r = Some r' \<Longrightarrow> rg_state r' = rg_state r"
    by (clarsimp simp: scope_remove_Some)
  show "rg_state (observe_barrier n r) = rg_state r" by (simp add: observe_barrier_def)
  show "freeze_in_flight r = (f4, r') \<Longrightarrow> rg_state r' = rg_state r"
    by (clarsimp simp: freeze_in_flight_def Let_def)
qed

text \<open>The lifecycle only moves forward, and a registry without owners that accepts no more stays so.\<close>

interpretation registry_lifecycle: monotone_system exec_step rg_state
proof
  fix s l t assume "exec_step s l t"
  then show "rg_state s \<le> rg_state t"
  proof cases
    case (ex_drain_start out)
    then show ?thesis by (cases "rg_state s") (auto simp: drain_start_def less_eq_lifecycle_def)
  next
    case ex_drain_finish
    then show ?thesis by (cases "rg_state s") (auto simp: drain_finish_def less_eq_lifecycle_def split: if_splits)
  next
    case ex_close
    then show ?thesis by (cases "rg_state s") (auto simp: close_start_def less_eq_lifecycle_def)
  qed (auto dest: registry_ops_state(1,3-6,8) simp: registry_ops_state(2,7))
qed

definition drained :: "registry \<Rightarrow> bool" where
  "drained r \<longleftrightarrow> rg_state r \<noteq> StateAccepting \<and> rg_pending r = {} \<and> rg_scopes r = []"

lemma scope_of_empty: "rg_scopes r = [] \<Longrightarrow> scope_of r i = None"
  by (simp add: scope_of_def)

interpretation registry_drained: invariant_system exec_step drained
proof
  fix s l t assume d: "drained s" and "exec_step s l t"
  from this(2) show "drained t"
  proof cases
    case (ex_begin out)
    with d show ?thesis by (auto simp: drained_def begin_dispatch_def)
  next
    case (ex_install own p spec out)
    with d show ?thesis by (auto simp: drained_def install_def split: if_splits)
  next
    case (ex_bind f i out)
    with d show ?thesis by (auto simp: drained_def bind_resource_def scope_of_empty split: if_splits)
  next
    case (ex_release i out)
    from ex_release(2) d show ?thesis by (auto elim!: mark_released_obtain simp: drained_def scope_of_empty)
  next
    case (ex_remove i)
    with d show ?thesis by (auto simp: drained_def scope_remove_Some scope_of_empty)
  next
    case (ex_drain_start out)
    with d show ?thesis by (cases "rg_state s") (auto simp: drained_def drain_start_def)
  next
    case ex_drain_finish
    with d show ?thesis by (auto simp: drained_def drain_finish_def split: if_splits)
  next
    case (ex_freeze f)
    with d show ?thesis by (auto simp: drained_def freeze_in_flight_def Let_def)
  qed (use d in \<open>auto simp: drained_def scope_end_begin_def start_close_def finish_close_def scope_of_empty
      pending_end_def close_start_def observe_barrier_def\<close>)
qed

section \<open>Barriers\<close>

definition barrier_inv :: "int \<Rightarrow> nat \<Rightarrow> registry \<Rightarrow> bool" where
  "barrier_inv b n r \<longleftrightarrow> b \<le> rg_observed r \<and> n \<le> rg_barrier_seq r \<and> n \<le> rg_next r \<and>
     (b \<le> rg_published r \<longrightarrow> (\<forall>p \<in> rg_pending r. n < p))"

interpretation registry_barrier: invariant_system exec_step "barrier_inv b n"
proof
  fix s l t assume b: "barrier_inv b n s" and "exec_step s l t"
  from this(2) b show "barrier_inv b n t"
  proof cases
    case (ex_begin out)
    with b show ?thesis by (auto simp: begin_dispatch_def barrier_inv_def Let_def split: if_splits)
  next
    case (ex_install own p spec out)
    with b show ?thesis by (auto simp: install_def barrier_inv_def split: if_splits)
  next
    case (ex_bind f i out)
    with b show ?thesis by (auto simp: bind_resource_def barrier_inv_def split: if_splits option.splits)
  next
    case (ex_release i out)
    from ex_release(2) b show ?thesis by (auto elim!: mark_released_obtain simp: barrier_inv_def)
  next
    case (ex_freeze f)
    with b show ?thesis 
      by (auto simp: freeze_in_flight_def barrier_inv_def Let_def not_le intro: le_less_trans split: if_splits)
  qed (use b in \<open>auto simp: barrier_inv_def pending_end_def scope_remove_Some drain_start_def drain_finish_def
      close_start_def observe_barrier_def split: if_splits lifecycle.splits\<close>)
qed

text \<open>C9: A barrier is published only when it holds: after a new barrier has been observed, and whatever
  other goroutines do, a snapshot that reports it, or a later one, is taken when no dispatch begun
  before the observation is still waiting to be installed or ended.\<close>

theorem freeze_barrier_sound:
  assumes "run_of exec_step new_registry ls r" and "rg_observed r < b" and "0 < b"
    and "run_of exec_step (observe_barrier b r) ms r2" and "freeze_in_flight r2 = (f, r3)"
    and "b \<le> fz_barrier f" and "p \<in> rg_pending r3"
  shows "rg_next r < p"
proof -
  have "registry_inv r" by (rule registry_invariant.inv_run [OF assms(1) new_registry_inv])
  then have "barrier_inv b (rg_next r) (observe_barrier b r)"
    using assms(2,3) by (auto simp: barrier_inv_def observe_barrier_def registry_inv_def)
  from registry_barrier.inv_run [OF assms(4) this] have i2: "barrier_inv b (rg_next r) r2" .
  have "exec_step r2 (LFreeze f) r3" using assms(5) by (rule ex_freeze)
  from registry_barrier.inv_step [OF i2 this] have "barrier_inv b (rg_next r) r3" .
  moreover have "rg_published r3 = fz_barrier f"
    using assms(5) by (auto simp: freeze_in_flight_def Let_def)
  ultimately show ?thesis using assms(6,7) by (auto simp: barrier_inv_def)
qed

section \<open>Releases\<close>

text \<open>The sequences a group was released with, and how often a scope was released.\<close>

fun released_seq :: "release_group \<Rightarrow> label \<Rightarrow> int list" where
  "released_seq g (LRelease i (Some (h, n))) = (if h = g then [n] else [])"
| "released_seq g _ = []"

definition sequences :: "release_group \<Rightarrow> label list \<Rightarrow> int list" where
  "sequences g ls = concat (map (released_seq g) ls)"

fun releases_of :: "nat \<Rightarrow> label \<Rightarrow> nat" where
  "releases_of i (LRelease j out) = (if i = j then 1 else 0)"
| "releases_of i _ = 0"

definition release_count :: "nat \<Rightarrow> label list \<Rightarrow> nat" where
  "release_count i ls = sum_list (map (releases_of i) ls)"

lemma sequences_snoc: "sequences g (ls @ [l]) = sequences g ls @ released_seq g l"
  by (simp add: sequences_def)

lemma length_sequences: "length (sequences g ls) \<le> length ls"
proof (induction ls)
  case (Cons l ls)
  have "length (released_seq g l) \<le> 1" by (induction g l rule: released_seq.induct) auto
  with Cons show ?case by (simp add: sequences_def)
qed (simp add: sequences_def)

definition sequence_hist :: "registry \<Rightarrow> label list \<Rightarrow> registry \<Rightarrow> bool" where
  "sequence_hist s ls t \<longleftrightarrow>
     (rg_releases s = (\<lambda>_. 0) \<longrightarrow> length ls < 2 ^ 63 \<longrightarrow>
      (\<forall>g. sequences g ls = map int [1..<Suc (length (sequences g ls))] \<and>
           rg_releases t g = int (length (sequences g ls))))"

lemma exec_step_releases:
  assumes "exec_step r l r'"
  shows "case l of LRelease i (Some (g, n)) \<Rightarrow>
      n = s64 (rg_releases r g + 1) \<and> rg_releases r' = (rg_releases r)(g := n)
    | _ \<Rightarrow> rg_releases r' = rg_releases r"
  using assms
proof cases
  case (ex_release i out)
  from ex_release(2) show ?thesis
    by (rule mark_released_obtain) (auto simp: ex_release(1) split: option.splits)
next
  case (ex_drain_start out)
  then show ?thesis by (cases "rg_state r") (auto simp: drain_start_def)
qed (auto simp: begin_dispatch_def pending_end_def install_def bind_resource_def scope_remove_Some
    drain_finish_def close_start_def observe_barrier_def freeze_in_flight_def Let_def
    split: if_splits option.splits)

interpretation registry_sequences: history_system exec_step registry_inv sequence_hist
proof
  fix s assume "registry_inv s"
  show "sequence_hist s [] s" by (simp add: sequence_hist_def sequences_def)
next
  fix s t ls l u
  assume h: "sequence_hist s ls t" and st: "exec_step t l u"
  show "sequence_hist s (ls @ [l]) u"
    unfolding sequence_hist_def
  proof (intro impI allI)
    fix g assume z: "rg_releases s = (\<lambda>_. 0)" and len: "length (ls @ [l]) < 2 ^ 63"
    from h z len have ihs: "\<forall>g. sequences g ls = map int [1..<Suc (length (sequences g ls))] \<and>
        rg_releases t g = int (length (sequences g ls))"
      unfolding sequence_hist_def length_append by (metis add_lessD1)
    then have ih: "sequences g ls = map int [1..<Suc (length (sequences g ls))]"
      "rg_releases t g = int (length (sequences g ls))" for g
      by blast+
    show "sequences g (ls @ [l]) = map int [1..<Suc (length (sequences g (ls @ [l])))] \<and>
        rg_releases u g = int (length (sequences g (ls @ [l])))"
    proof (cases "released_seq g l = []")
      case True
      then have "rg_releases u g = rg_releases t g"
        using exec_step_releases [OF st] by (auto split: label.splits option.splits prod.splits)
      with True ih show ?thesis by (simp add: sequences_snoc)
    next
      case False
      then obtain i n where l: "l = LRelease i (Some (g, n))"
        by (induction g l rule: released_seq.induct) (auto split: if_splits)
      have "n = s64 (int (length (sequences g ls)) + 1)" "rg_releases u g = n"
        using exec_step_releases [OF st] ih(2) [of g] by (auto simp: l)
      moreover have "s64 (int (length (sequences g ls)) + 1) = int (Suc (length (sequences g ls)))"
        using length_sequences [of g ls] len
        by (subst s64_id) (auto simp: in_s64_def int64_min_def int64_max_def)
      ultimately show ?thesis
        using ih(1) [of g] by (simp add: l sequences_snoc)
    qed
  qed
qed

text \<open>C30: The release sequence of a group is contiguous: over any run of fewer than \<open>2\<close> to the power \<open>63\<close>
  steps the sequences handed to the release sink for a credential and model are one, two, three
  and so on, in order and without a gap, whatever other groups and goroutines do.\<close>

theorem release_sequences_contiguous:
  assumes "run_of exec_step new_registry ls r" and "length ls < 2 ^ 63"
  shows "\<exists>n. sequences g ls = map int [1..<Suc n] \<and> rg_releases r g = int n"
proof -
  have "rg_releases new_registry = (\<lambda>_. 0)" by (simp add: new_registry_def)
  with registry_sequences.hist_run [OF assms(1) new_registry_inv] assms(2) show ?thesis
    unfolding sequence_hist_def by blast
qed


section \<open>The end of a scope\<close>

text \<open>A scope leaves the registry only when its resource is closed: in every reachable state a scope
  that can be removed is no longer active, and its resource was never bound or has finished
  closing.\<close>

theorem removed_scope_closed:
  assumes "run_of exec_step new_registry ls r" and "scope_remove i r = Some r'"
  shows "\<exists>s. scope_of r i = Some s \<and> \<not> es_active s \<and>
    (es_resource s = Unbound \<or> es_resource s = CloseFinished) \<and> scope_of r' i = None"
proof -
  have inv: "registry_inv r" by (rule registry_invariant.inv_run [OF assms(1) new_registry_inv])
  from assms(2) obtain s where s: "scope_of r i = Some s" "es_phase s = Released"
      "r' = r\<lparr>rg_scopes := AList.delete i (rg_scopes r)\<rparr>"
    by (auto simp: scope_remove_Some)
  with scope_ok_of [OF inv s(1)] show ?thesis
    by (auto simp: scope_ok_def scope_of_def delete_conv')
qed

section \<open>Draining\<close>

text \<open>From a registry that accepts no more, ending what is left: first the tokens, then the scopes one by
  one. The measure is the number of owners.\<close>

lemma run_step: "exec_step r l r' \<Longrightarrow> run_of exec_step r' ls t \<Longrightarrow> run_of exec_step r (l # ls) t"
  by (auto simp: run_Cons_iff)

lemma end_tokens:
  assumes "registry_inv r"
  shows "\<exists>ls t. run_of exec_step r ls t \<and> rg_pending t = {} \<and> registry_inv t \<and> rg_state t = rg_state r \<and>
    rg_scopes t = rg_scopes r"
  using assms
proof (induction "card (rg_pending r)" arbitrary: r)
  case 0
  then have "rg_pending r = {}" by (auto simp: registry_inv_def)
  with 0 show ?case by (intro exI [of _ "[]"] exI [of _ r]) simp
next
  case (Suc n)
  then obtain p where p: "p \<in> rg_pending r" by fastforce
  have h: "handed_out r p" "p \<notin> rg_spent r" "finite (rg_pending r)"
    using Suc.prems p by (auto simp: registry_inv_def)
  let ?r = "pending_end p r"
  have sel: "rg_pending ?r = rg_pending r - {p}" "rg_state ?r = rg_state r" "rg_scopes ?r = rg_scopes r"
    using h(2) by (simp_all add: pending_end_def)
  have "n = card (rg_pending ?r)" using Suc.hyps(2) p h(3) by (simp add: sel)
  from Suc.hyps(1) [OF this pending_end_inv [OF Suc.prems h(1)]] obtain ls t where
    t: "run_of exec_step ?r ls t" "rg_pending t = {}" "registry_inv t" "rg_state t = rg_state r"
      "rg_scopes t = rg_scopes r"
    by (auto simp: sel)
  from run_step [OF ex_end_pending [OF h(1)] t(1)] t(2-5) show ?case by blast
qed

definition scope_keys :: "registry \<Rightarrow> nat set" where
  "scope_keys r = fst ` set (rg_scopes r)"

lemma scope_keys_set_scope: "scope_of r i = Some s0 \<Longrightarrow> scope_keys (set_scope i s r) = scope_keys r"
  using scope_of_dom [of r i s0] by (auto simp: scope_keys_def set_scope_def dom_update)

lemma scope_keys_ops:
  "scope_keys (scope_end_begin i r) = scope_keys r" "scope_keys (start_close i r) = scope_keys r"
  "scope_keys (finish_close i r) = scope_keys r"
  by (cases "scope_of r i"; simp add: scope_end_begin_def start_close_def finish_close_def scope_keys_set_scope)+

lemma closing_steps:
  assumes "scope_of r i = Some s"
  shows "\<exists>s3. scope_of (finish_close i (start_close i (scope_end_begin i r))) i = Some s3 \<and>
    es_phase s3 \<noteq> NotEnded \<and> (es_resource s3 = Unbound \<or> es_resource s3 = CloseFinished)"
  using assms
  by (cases "es_phase s"; cases "es_resource s")
    (simp_all add: scope_end_begin_def start_close_def finish_close_def scope_of_set_scope)

text \<open>One scope, whatever it is doing, can be ended and removed.\<close>

lemma end_scope:
  assumes "registry_inv r" and "scope_of r i = Some s" and "rg_state r \<noteq> StateAccepting" and "rg_pending r = {}"
  shows "\<exists>ls t. run_of exec_step r ls t \<and> registry_inv t \<and> rg_state t = rg_state r \<and> rg_pending t = {} \<and>
    scope_keys t = scope_keys r - {i}"
proof -
  let ?r1 = "scope_end_begin i r"
  let ?r2 = "start_close i ?r1"
  let ?r3 = "finish_close i ?r2"
  obtain s3 where s3: "scope_of ?r3 i = Some s3" "es_phase s3 \<noteq> NotEnded"
      "es_resource s3 = Unbound \<or> es_resource s3 = CloseFinished"
    using closing_steps [OF assms(2)] by blast
  have "may_close ?r1 i" using assms(3) by (simp add: may_close_def)
  then have run3: "run_of exec_step r [LEndBegin i, LStartClose i, LFinishClose i] ?r3"
    by (simp add: run_Cons_iff) (blast intro: exec_step.intros)
  have inv3: "registry_inv ?r3" by (intro scope_steps_inv assms(1))
  have "\<exists>ls r4 s4. run_of exec_step ?r3 ls r4 \<and> scope_of r4 i = Some s4 \<and> es_phase s4 = Released \<and>
      registry_inv r4 \<and> rg_state r4 = rg_state r \<and> rg_pending r4 = {} \<and> scope_keys r4 = scope_keys r"
  proof (cases "es_phase s3 = Released")
    case True
    with s3 inv3 assms(4) show ?thesis
      by (intro exI [of _ "[]"] exI [of _ ?r3] exI [of _ s3]) (simp add: scope_keys_ops)
  next
    case False
    with s3(2) have w: "es_phase s3 = WaitingClose" by (cases "es_phase s3") auto
    with s3 obtain out r4 where m: "mark_released i ?r3 = Some (out, r4)"
      by (cases "ss_accounted (es_spec s3)") (auto simp: mark_released_def Let_def)
    obtain s4 rel where s4: "scope_of ?r3 i = Some s4"
      and r4: "r4 = (set_scope i (s4\<lparr>es_phase := Released\<rparr>) ?r3)\<lparr>rg_releases := rel\<rparr>"
      by (rule mark_released_obtain [OF m])
    have "scope_keys r4 = scope_keys (set_scope i (s4\<lparr>es_phase := Released\<rparr>) ?r3)"
      by (simp add: r4 scope_keys_def)
    then have "scope_keys r4 = scope_keys r" by (simp add: scope_keys_set_scope [OF s4] scope_keys_ops)
    moreover have "scope_of r4 i = Some (s4\<lparr>es_phase := Released\<rparr>)"
      by (simp add: r4 scope_of_def set_scope_def update_conv')
    moreover have "run_of exec_step ?r3 [LRelease i out] r4"
      using ex_release [OF m] by (simp add: run_Cons_iff)
    ultimately show ?thesis
      using release_steps_inv(1) [OF inv3 m] assms(4)
      by (intro exI [of _ "[LRelease i out]"] exI [of _ r4] exI [of _ "s4\<lparr>es_phase := Released\<rparr>"])
        (simp add: r4)
  qed
  then obtain ls r4 s4 where r4: "run_of exec_step ?r3 ls r4" "scope_of r4 i = Some s4" "es_phase s4 = Released"
      "registry_inv r4" "rg_state r4 = rg_state r" "rg_pending r4 = {}" "scope_keys r4 = scope_keys r"
    by blast
  let ?r5 = "r4\<lparr>rg_scopes := AList.delete i (rg_scopes r4)\<rparr>"
  have rm: "scope_remove i r4 = Some ?r5" using r4(2,3) by (simp add: scope_remove_def)
  have "run_of exec_step r ([LEndBegin i, LStartClose i, LFinishClose i] @ ls) r4"
    unfolding run_append using run3 r4(1) by blast
  from run_snoc [of exec_step, OF this ex_remove [OF rm]]
  have "run_of exec_step r (([LEndBegin i, LStartClose i, LFinishClose i] @ ls) @ [LRemove i]) ?r5" .
  moreover have "scope_keys ?r5 = scope_keys r - {i}"
    using r4(7) AList.delete_keys [of i "rg_scopes r4"]
    by (simp add: scope_keys_def flip: set_map)
  ultimately show ?thesis
    using release_steps_inv(2) [OF r4(4) rm] r4(5,6) by (intro exI conjI) auto
qed

lemma end_scopes:
  assumes "registry_inv r" and "rg_state r \<noteq> StateAccepting" and "rg_pending r = {}"
  shows "\<exists>ls t. run_of exec_step r ls t \<and> rg_state t = rg_state r \<and> rg_pending t = {} \<and> rg_scopes t = []"
  using assms
proof (induction "card (scope_keys r)" arbitrary: r)
  case 0
  then have "rg_scopes r = []" by (simp add: scope_keys_def)
  with 0 show ?case by (intro exI [of _ "[]"] exI [of _ r]) simp
next
  case (Suc n)
  then obtain i where i: "i \<in> scope_keys r" by fastforce
  then obtain s where s: "scope_of r i = Some s"
    using Suc.prems(1) by (force simp: scope_keys_def scope_of_def registry_inv_def)
  from end_scope [OF Suc.prems(1) s Suc.prems(2,3)] obtain ls t where
    t: "run_of exec_step r ls t" "registry_inv t" "rg_state t = rg_state r" "rg_pending t = {}"
      "scope_keys t = scope_keys r - {i}" by blast
  have "finite (scope_keys r)" by (simp add: scope_keys_def)
  with t(5) i Suc.hyps(2) have "n = card (scope_keys t)" by simp
  from Suc.hyps(1) [OF this t(2)] t(3,4) Suc.prems(2) obtain ms u where
    u: "run_of exec_step t ms u" "rg_state u = rg_state r" "rg_pending u = {}" "rg_scopes u = []" by auto
  from t(1) u(1) have "run_of exec_step r (ls @ ms) u" by (auto simp: run_append)
  with u(2-4) show ?case by blast
qed

text \<open>C31: A drain can always complete: from every reachable state that accepts no more there is a run
  that ends every owner and closes the registry, and from a registry closed without owners no run,
  whatever is called, ever begins, installs or keeps an execution again.\<close>

theorem drain_completes:
  assumes "run_of exec_step new_registry ls r" and "rg_state r \<noteq> StateAccepting"
  shows "(\<exists>ms t. run_of exec_step r ms t \<and> rg_state t = StateClosed \<and> rg_pending t = {} \<and> rg_scopes t = []) \<and>
    (rg_pending r = {} \<and> rg_scopes r = [] \<longrightarrow>
      (\<forall>ms t. run_of exec_step r ms t \<longrightarrow> rg_pending t = {} \<and> rg_scopes t = [] \<and> rg_state r \<le> rg_state t))"
proof
  have inv: "registry_inv r" by (rule registry_invariant.inv_run [OF assms(1) new_registry_inv])
  from end_tokens [OF inv] obtain l1 t1 where
    t1: "run_of exec_step r l1 t1" "rg_pending t1 = {}" "registry_inv t1" "rg_state t1 = rg_state r" by blast
  from end_scopes [OF t1(3) _ t1(2)] t1(4) assms(2) obtain l2 t2 where
    t2: "run_of exec_step t1 l2 t2" "rg_state t2 = rg_state r" "rg_pending t2 = {}" "rg_scopes t2 = []" by auto
  let ?t = "t2\<lparr>rg_state := StateClosed\<rparr>"
  have st: "exec_step t2 LDrainFinish ?t"
    using t2 assms(2) by (intro ex_drain_finish) (simp add: drain_finish_def)
  have "run_of exec_step r (l1 @ l2) t2" unfolding run_append using t1(1) t2(1) by blast
  from run_snoc [of exec_step, OF this st] have "run_of exec_step r ((l1 @ l2) @ [LDrainFinish]) ?t" .
  then show "\<exists>ms t. run_of exec_step r ms t \<and> rg_state t = StateClosed \<and> rg_pending t = {} \<and> rg_scopes t = []"
    using t2(3,4) by (intro exI [of _ "(l1 @ l2) @ [LDrainFinish]"] exI [of _ ?t]) simp
  show "rg_pending r = {} \<and> rg_scopes r = [] \<longrightarrow>
      (\<forall>ms t. run_of exec_step r ms t \<longrightarrow> rg_pending t = {} \<and> rg_scopes t = [] \<and> rg_state r \<le> rg_state t)"
    using registry_drained.inv_run registry_lifecycle.mono_run assms(2) by (auto simp: drained_def)
qed


section \<open>Witnesses\<close>

definition demo_spec :: scope_spec where
  "demo_spec = \<lparr>ss_request = ''q'', ss_credential = ''c'', ss_model = ''m'', ss_kind = ''k'',
     ss_started_at = 0, ss_accounted = True\<rparr>"

definition reg1 :: registry where "reg1 = snd (begin_dispatch new_registry)"
definition reg2 :: registry where "reg2 = snd (install True 1 demo_spec reg1)"
definition reg3 :: registry where "reg3 = scope_end_begin 1 reg2"
definition reg4 :: registry where "reg4 = snd (the (mark_released 1 reg3))"

lemmas reg_eval =
  reg1_def reg2_def reg3_def reg4_def new_registry_def begin_dispatch_def install_def scope_end_begin_def
  mark_released_def set_scope_def scope_of_def demo_spec_def group_of_def s64_def Let_def

lemma demo_run1: "run_of exec_step new_registry [LBegin (Inr 1)] reg1"
proof -
  have "begin_dispatch new_registry = (Inr 1, reg1)" by (simp add: reg_eval)
  then show ?thesis
    using ex_begin [of new_registry "Inr 1" reg1] by (simp add: run_Cons_iff new_registry_def)
qed

lemma demo_run2: "run_of exec_step new_registry ([LBegin (Inr 1)] @ [LInstall True 1 demo_spec (Inr 1)]) reg2"
proof -
  have "install True 1 demo_spec reg1 = (Inr 1, reg2)" "handed_out reg1 1"
    by (simp_all add: reg_eval handed_out_def)
  then have "exec_step reg1 (LInstall True 1 demo_spec (Inr 1)) reg2" by (intro ex_install) auto
  with demo_run1 show ?thesis by (rule run_snoc)
qed

lemma demo_run3:
  "run_of exec_step new_registry
     (([LBegin (Inr 1)] @ [LInstall True 1 demo_spec (Inr 1)]) @ [LEndBegin 1]) reg3"
  unfolding reg3_def by (rule run_snoc [OF demo_run2 ex_end])

lemma demo_run4:
  "run_of exec_step new_registry
     ((([LBegin (Inr 1)] @ [LInstall True 1 demo_spec (Inr 1)]) @ [LEndBegin 1]) @ [LRelease 1 (Some ((''c'', ''m''), 1))]) reg4"
proof -
  have "mark_released 1 reg3 = Some (Some ((''c'', ''m''), 1), reg4)" by (simp add: reg_eval)
  then have "exec_step reg3 (LRelease 1 (Some ((''c'', ''m''), 1))) reg4" by (rule ex_release)
  with demo_run3 show ?thesis by (rule run_snoc)
qed

theorem release_sequences_contiguous_witness:
  "rg_releases reg4 (''c'', ''m'') = 1"
proof -
  obtain n where "sequences (''c'', ''m'') ((([LBegin (Inr 1)] @ [LInstall True 1 demo_spec (Inr 1)]) @ [LEndBegin 1]) @
      [LRelease 1 (Some ((''c'', ''m''), 1))]) = map int [1..<Suc n]" "rg_releases reg4 (''c'', ''m'') = int n"
    using release_sequences_contiguous [OF demo_run4, of "(''c'', ''m'')"] by auto
  moreover from this(1) have "n = 1" by (cases n) (auto simp: sequences_def dest: arg_cong [of _ _ length])
  ultimately show ?thesis by simp
qed

theorem removed_scope_closed_witness:
  "\<exists>s. scope_of reg4 1 = Some s \<and> \<not> es_active s"
proof -
  obtain r' where "scope_remove 1 reg4 = Some r'" by (simp add: scope_remove_def reg_eval)
  from removed_scope_closed [OF demo_run4 this] show ?thesis by blast
qed

theorem freeze_barrier_sound_witness:
  "\<exists>f r3. freeze_in_flight (snd (begin_dispatch (observe_barrier 7 reg2))) = (f, r3) \<and>
     fz_barrier f = 7 \<and> rg_pending r3 = {2} \<and> rg_next reg2 < 2"
proof -
  let ?r = "observe_barrier 7 reg2"
  let ?r2 = "snd (begin_dispatch ?r)"
  obtain f r3 where f: "freeze_in_flight ?r2 = (f, r3)" by fastforce
  then have b: "fz_barrier f = 7" "rg_pending r3 = {2}"
    by (auto simp: freeze_in_flight_def observe_barrier_def reg_eval)
  have "begin_dispatch ?r = (Inr 2, ?r2)" by (simp add: observe_barrier_def reg_eval)
  then have "exec_step ?r (LBegin (Inr 2)) ?r2"
    by (rule ex_begin) (simp add: observe_barrier_def reg_eval)
  then have "run_of exec_step ?r [LBegin (Inr 2)] ?r2" by (simp add: run_Cons_iff)
  from freeze_barrier_sound [OF demo_run2 _ _ this f, of 2] b have "rg_next reg2 < 2"
    by (simp add: reg_eval)
  with f b show ?thesis by blast
qed

theorem drain_completes_witness:
  "\<exists>ms t. run_of exec_step (reg3\<lparr>rg_state := StateDraining\<rparr>) ms t \<and> rg_state t = StateClosed"
proof -
  have "exec_step reg3 (LDrainStart (Inr ())) (reg3\<lparr>rg_state := StateDraining\<rparr>)"
    by (intro ex_drain_start) (simp add: drain_start_def reg_eval)
  from drain_completes [OF run_snoc [of exec_step, OF demo_run3 this]] show ?thesis by auto
qed

end
