(* ===== verification/Usage_Queue.thy ===== *)
theory Usage_Queue
  imports Go_Prelude Transition_Systems
begin

text \<open>
  The usage queue (internal/redisqueue/queue.go): the in-memory queue of published usage records
  with its retention window and its compaction, the subscribers that are served instead of the
  queue, and the buffer of rows on their way to the durable store. The queue is related to the plain
  list of its live items through an interface, \<open>window_fifo\<close>; the buffer and its flushes are a step
  relation, since the store is called without the lock.
\<close>

section \<open>The queue\<close>

definition defaultRetentionSeconds :: int where "defaultRetentionSeconds = 60"

definition maxRetentionSeconds :: int where "maxRetentionSeconds = 3600"

record queue_item =
  enqueued_at :: instant
  item_payload :: string

text \<open>A channel: what is buffered in it, and whether it is closed. A channel belongs to one subscriber
  number; it outlives its registration, because the reader still drains it.\<close>

record channel =
  ch_buffer :: "string list"
  ch_closed :: bool

record usage_queue =
  uq_items :: "queue_item list"
  uq_head :: nat
  uq_subscribers :: "nat list"
  uq_next_id :: nat
  uq_channels :: "nat \<rightharpoonup> channel"

definition new_queue :: usage_queue where
  "new_queue = \<lparr>uq_items = [], uq_head = 0, uq_subscribers = [], uq_next_id = 0, uq_channels = Map.empty\<rparr>"

definition normalized_retention :: "int \<Rightarrow> int" where
  "normalized_retention v =
     (if v \<le> 0 then defaultRetentionSeconds
      else if v > maxRetentionSeconds then maxRetentionSeconds else v)"

definition window_seconds :: "int \<Rightarrow> int" where
  "window_seconds r = (if r \<le> 0 then defaultRetentionSeconds else r)"

definition retention_cutoff :: "int \<Rightarrow> instant \<Rightarrow> instant" where
  "retention_cutoff r now = now - window_seconds r * second"

function advance_head :: "queue_item list \<Rightarrow> instant \<Rightarrow> nat \<Rightarrow> nat" where
  "advance_head items cutoff h =
     (if h < length items \<and> enqueued_at (items ! h) < cutoff then advance_head items cutoff (Suc h) else h)"
  by auto
termination by (relation "measure (\<lambda>(items, _, h). length items - h)") auto

declare advance_head.simps [simp del]

definition reset_items :: "usage_queue \<Rightarrow> usage_queue" where
  "reset_items q = q\<lparr>uq_items := [], uq_head := 0\<rparr>"

definition prune :: "int \<Rightarrow> instant \<Rightarrow> usage_queue \<Rightarrow> usage_queue" where
  "prune r now q =
     (if uq_head q \<ge> length (uq_items q) then reset_items q
      else q\<lparr>uq_head := advance_head (uq_items q) (retention_cutoff r now) (uq_head q)\<rparr>)"

definition maybe_compact :: "usage_queue \<Rightarrow> usage_queue" where
  "maybe_compact q =
     (if uq_head q = 0 then q
      else if uq_head q \<ge> length (uq_items q) then reset_items q
      else if uq_head q < 1024 \<and> uq_head q * 2 < length (uq_items q) then q
      else q\<lparr>uq_items := drop (uq_head q) (uq_items q), uq_head := 0\<rparr>)"

definition enqueue_item :: "int \<Rightarrow> instant \<Rightarrow> string \<Rightarrow> usage_queue \<Rightarrow> usage_queue" where
  "enqueue_item r now p q =
     (let q = prune r now q in
      maybe_compact (q\<lparr>uq_items := uq_items q @ [\<lparr>enqueued_at = now, item_payload = p\<rparr>]\<rparr>))"

definition pop_oldest :: "int \<Rightarrow> instant \<Rightarrow> nat \<Rightarrow> usage_queue \<Rightarrow> string list \<times> usage_queue" where
  "pop_oldest r now wanted q =
     (let q = prune r now q; available = length (uq_items q) - uq_head q in
      if available \<le> 0 then ([], reset_items q)
      else let n = min wanted available in
        (map (\<lambda>i. item_payload (uq_items q ! (uq_head q + i))) [0..<n],
         maybe_compact (q\<lparr>uq_head := uq_head q + n\<rparr>)))"

section \<open>What a queue promises\<close>

text \<open>The specification: a list, oldest first, that loses its expired front whenever it is touched.\<close>

definition spec_prune :: "int \<Rightarrow> instant \<Rightarrow> queue_item list \<Rightarrow> queue_item list" where
  "spec_prune r now = dropWhile (\<lambda>x. enqueued_at x < retention_cutoff r now)"

definition spec_enqueue :: "int \<Rightarrow> instant \<Rightarrow> string \<Rightarrow> queue_item list \<Rightarrow> queue_item list" where
  "spec_enqueue r now p xs = spec_prune r now xs @ [\<lparr>enqueued_at = now, item_payload = p\<rparr>]"

definition spec_pop :: "int \<Rightarrow> instant \<Rightarrow> nat \<Rightarrow> queue_item list \<Rightarrow> string list \<times> queue_item list" where
  "spec_pop r now n xs =
     (map item_payload (take n (spec_prune r now xs)), drop n (spec_prune r now xs))"

text \<open>A history of calls, each with the retention and the clock it reads.\<close>

datatype queue_op = Enqueue int instant string | Pop int instant nat | Clear

fun run_ops where
  "run_ops enq deq clr [] q = ([], q)"
| "run_ops enq deq clr (Enqueue r t p # ops) q = run_ops enq deq clr ops (enq r t p q)"
| "run_ops enq deq clr (Pop r t n # ops) q =
     (let (out, q) = deq r t n q; (outs, q) = run_ops enq deq clr ops q in (out # outs, q))"
| "run_ops enq deq clr (Clear # ops) q = run_ops enq deq clr ops (clr q)"

lemma run_ops_pop:
  "run_ops enq deq clr (Pop r t n # ops) q =
     (let rest = run_ops enq deq clr ops (snd (deq r t n q)) in (fst (deq r t n q) # fst rest, snd rest))"
  by (simp add: split_beta Let_def)

declare run_ops.simps(3) [simp del] run_ops_pop [simp]

lemma spec_pop_sel [simp]:
  "fst (spec_pop r t n xs) = map item_payload (take n (spec_prune r t xs))"
  "snd (spec_pop r t n xs) = drop n (spec_prune r t xs)"
  by (simp_all add: spec_pop_def)

fun enqueued :: "queue_op list \<Rightarrow> queue_item list" where
  "enqueued [] = []"
| "enqueued (Enqueue r t p # ops) = \<lparr>enqueued_at = t, item_payload = p\<rparr> # enqueued ops"
| "enqueued (_ # ops) = enqueued ops"

lemma spec_prune_split: "\<exists>gone. xs = gone @ spec_prune r t xs"
  using takeWhile_dropWhile_id by (metis spec_prune_def)

text \<open>Items leave the specification in the order they came, and those popped are among them.\<close>

lemma spec_fifo:
  "\<exists>gone. xs @ enqueued ops = gone @ snd (run_ops spec_enqueue spec_pop (\<lambda>_. []) ops xs) \<and>
     subseq (concat (fst (run_ops spec_enqueue spec_pop (\<lambda>_. []) ops xs))) (map item_payload gone)"
proof (induction ops arbitrary: xs)
  case (Cons op ops)
  show ?case
  proof (cases op)
    case (Enqueue r t p)
    obtain old where old: "xs = old @ spec_prune r t xs" using spec_prune_split by blast
    obtain gone where "spec_enqueue r t p xs @ enqueued ops = gone @ snd (run_ops spec_enqueue spec_pop (\<lambda>_. []) (op # ops) xs)"
      "subseq (concat (fst (run_ops spec_enqueue spec_pop (\<lambda>_. []) (op # ops) xs))) (map item_payload gone)"
      using Cons.IH [of "spec_enqueue r t p xs"] by (auto simp: Enqueue)
    moreover have "xs @ enqueued (op # ops) = old @ spec_enqueue r t p xs @ enqueued ops"
      by (subst old) (simp add: Enqueue spec_enqueue_def)
    ultimately show ?thesis by (intro exI [of _ "old @ gone"]) (simp add: subseq_drop_many)
  next
    case (Pop r t n)
    let ?ys = "spec_prune r t xs"
    obtain old where old: "xs = old @ ?ys" using spec_prune_split by blast
    obtain gone where "drop n ?ys @ enqueued ops = gone @ snd (run_ops spec_enqueue spec_pop (\<lambda>_. []) (op # ops) xs)"
      "fst (run_ops spec_enqueue spec_pop (\<lambda>_. []) (op # ops) xs) =
         map item_payload (take n ?ys) # fst (run_ops spec_enqueue spec_pop (\<lambda>_. []) ops (drop n ?ys))"
      "subseq (concat (fst (run_ops spec_enqueue spec_pop (\<lambda>_. []) ops (drop n ?ys)))) (map item_payload gone)"
      using Cons.IH [of "drop n ?ys"] by (auto simp: Pop Let_def)
    moreover have "xs @ enqueued (op # ops) = old @ take n ?ys @ drop n ?ys @ enqueued ops"
      by (subst old) (simp add: Pop flip: append_assoc)
    ultimately show ?thesis
      by (intro exI [of _ "old @ take n ?ys @ gone"]) (simp add: subseq_drop_many list_emb_append_mono)
  next
    case Clear
    obtain gone where "enqueued ops = gone @ snd (run_ops spec_enqueue spec_pop (\<lambda>_. []) (op # ops) xs)"
      "subseq (concat (fst (run_ops spec_enqueue spec_pop (\<lambda>_. []) (op # ops) xs))) (map item_payload gone)"
      using Cons.IH [of "[]"] by (auto simp: Clear)
    then show ?thesis by (intro exI [of _ "xs @ gone"]) (simp add: Clear subseq_drop_many)
  qed
qed simp

text \<open>The interface: a representation with an invariant and a view of its live items.\<close>

locale window_fifo =
  fixes enq :: "int \<Rightarrow> instant \<Rightarrow> string \<Rightarrow> 'q \<Rightarrow> 'q"
    and deq :: "int \<Rightarrow> instant \<Rightarrow> nat \<Rightarrow> 'q \<Rightarrow> string list \<times> 'q"
    and clr :: "'q \<Rightarrow> 'q"
    and view :: "'q \<Rightarrow> queue_item list"
    and ok :: "'q \<Rightarrow> bool"
  assumes enq_view: "ok q \<Longrightarrow> view (enq r t p q) = spec_enqueue r t p (view q)"
    and enq_ok: "ok q \<Longrightarrow> ok (enq r t p q)"
    and deq_view: "ok q \<Longrightarrow> apsnd view (deq r t n q) = spec_pop r t n (view q)"
    and deq_ok: "ok q \<Longrightarrow> ok (snd (deq r t n q))"
    and clr_view: "view (clr q) = []"
    and clr_ok: "ok (clr q)"
begin

lemma refines:
  "ok q \<Longrightarrow> apsnd view (run_ops enq deq clr ops q) = run_ops spec_enqueue spec_pop (\<lambda>_. []) ops (view q) \<and>
     ok (snd (run_ops enq deq clr ops q))"
proof (induction ops arbitrary: q)
  case (Cons op ops)
  show ?case
  proof (cases op)
    case (Pop r t n)
    obtain out q' where d: "deq r t n q = (out, q')" by fastforce
    have "spec_pop r t n (view q) = (out, view q')" "ok q'"
      using deq_view [OF Cons.prems, of r t n] deq_ok [OF Cons.prems, of r t n] by (simp_all add: d)
    with Cons.IH [of q'] show ?thesis
      by (auto simp: Pop d Let_def apsnd_def map_prod_def split_beta prod_eq_iff)
  qed (use Cons in \<open>simp_all add: enq_view enq_ok clr_view clr_ok\<close>)
qed simp

lemma fifo:
  assumes "ok q" and "view q = []"
  shows "\<exists>gone. enqueued ops = gone @ view (snd (run_ops enq deq clr ops q)) \<and>
     subseq (concat (fst (run_ops enq deq clr ops q))) (map item_payload gone)"
  using refines [OF assms(1), of ops] spec_fifo [of "[]" ops]
  by (simp add: assms(2) apsnd_def map_prod_def split_beta) (metis fst_conv snd_conv)

end

section \<open>The code's queue provides the interface\<close>

definition live :: "usage_queue \<Rightarrow> queue_item list" where
  "live q = drop (uq_head q) (uq_items q)"

text \<open>Between two calls a queue is compact: the dead front is short, and less than half of the array.\<close>

definition compact :: "usage_queue \<Rightarrow> bool" where
  "compact q \<longleftrightarrow> uq_head q = 0 \<or> (uq_head q < 1024 \<and> uq_head q * 2 < length (uq_items q))"

lemma advance_head_drop:
  "h \<le> length items \<Longrightarrow>
     drop (advance_head items c h) items = dropWhile (\<lambda>x. enqueued_at x < c) (drop h items) \<and>
     advance_head items c h \<le> length items"
proof (induction items c h rule: advance_head.induct)
  case (1 items c h)
  show ?case
  proof (cases "h < length items \<and> enqueued_at (items ! h) < c")
    case True
    with 1 show ?thesis by (subst (1 2) advance_head.simps) (simp add: Cons_nth_drop_Suc [symmetric])
  next
    case False
    then have "dropWhile (\<lambda>x. enqueued_at x < c) (drop h items) = drop h items"
      by (cases "h < length items") (auto simp: Cons_nth_drop_Suc [symmetric])
    with False 1(2) show ?thesis by (subst (1 2) advance_head.simps) auto
  qed
qed

lemma live_reset [simp]: "live (reset_items q) = []" and compact_reset [simp]: "compact (reset_items q)"
  by (simp_all add: live_def compact_def reset_items_def)

lemma live_prune: "live (prune r t q) = spec_prune r t (live q)"
  using advance_head_drop [of "uq_head q" "uq_items q" "retention_cutoff r t"]
  by (auto simp: prune_def spec_prune_def live_def reset_items_def)

lemma head_prune: "uq_head (prune r t q) \<le> length (uq_items (prune r t q))"
  using advance_head_drop [of "uq_head q" "uq_items q" "retention_cutoff r t"]
  by (auto simp: prune_def reset_items_def)

lemma live_maybe_compact [simp]: "live (maybe_compact q) = live q"
  by (simp add: maybe_compact_def live_def reset_items_def)

lemma compact_maybe_compact [simp]: "compact (maybe_compact q)"
  by (simp add: maybe_compact_def compact_def reset_items_def)

lemma live_enqueue_item: "live (enqueue_item r t p q) = spec_enqueue r t p (live q)"
  using head_prune [of r t q]
  by (simp add: enqueue_item_def Let_def spec_enqueue_def flip: live_prune) (simp add: live_def)

lemma live_pop_oldest: "apsnd live (pop_oldest r t n q) = spec_pop r t n (live q)"
proof (cases "length (uq_items (prune r t q)) - uq_head (prune r t q) = 0")
  case True
  then have "live (prune r t q) = []" by (simp add: live_def)
  with True show ?thesis by (simp add: pop_oldest_def Let_def spec_pop_def flip: live_prune)
next
  case False
  let ?q = "prune r t q"
  let ?n = "min n (length (uq_items ?q) - uq_head ?q)"
  have "map (\<lambda>i. item_payload (uq_items ?q ! (uq_head ?q + i))) [0..<?n] = map item_payload (take n (live ?q))"
    using head_prune [of r t q] by (intro nth_equalityI) (auto simp: live_def)
  moreover have "drop (uq_head ?q + ?n) (uq_items ?q) = drop n (live ?q)"
    by (simp add: live_def min_def add.commute)
  ultimately show ?thesis
    using False by (simp add: pop_oldest_def Let_def spec_pop_def flip: live_prune) (simp add: live_def)
qed

text \<open>\<open>clear\<close> under the lock; the channels it has unregistered are closed after it.\<close>

definition clear_locked :: "usage_queue \<Rightarrow> usage_queue" where
  "clear_locked q = q\<lparr>uq_items := [], uq_head := 0, uq_subscribers := []\<rparr>"

interpretation usage_fifo: window_fifo enqueue_item pop_oldest clear_locked live compact
proof
  show "compact (enqueue_item r t p q)" for r t p q by (simp add: enqueue_item_def Let_def)
  show "compact (snd (pop_oldest r t n q))" for r t n q by (simp add: pop_oldest_def Let_def)
qed (simp_all add: live_enqueue_item live_pop_oldest, simp_all add: clear_locked_def live_def compact_def)

lemma new_queue_live [simp]: "live new_queue = []" and new_queue_compact [simp]: "compact new_queue"
  by (simp_all add: new_queue_def live_def compact_def)

text \<open>C10: Whatever is called on a new queue, every answer is the one the plain list of live items gives,
  and between calls the array is compact: fewer than 1024 dead entries, and fewer than live ones.\<close>

theorem usage_queue_refines:
  "fst (run_ops enqueue_item pop_oldest clear_locked ops new_queue) = fst (run_ops spec_enqueue spec_pop (\<lambda>_. []) ops []) \<and>
   live (snd (run_ops enqueue_item pop_oldest clear_locked ops new_queue)) = snd (run_ops spec_enqueue spec_pop (\<lambda>_. []) ops []) \<and>
   compact (snd (run_ops enqueue_item pop_oldest clear_locked ops new_queue))"
proof -
  let ?c = "run_ops enqueue_item pop_oldest clear_locked ops new_queue"
  have "apsnd live ?c = run_ops spec_enqueue spec_pop (\<lambda>_. []) ops [] \<and> compact (snd ?c)"
    using usage_fifo.refines [of new_queue ops] by simp
  then show ?thesis by (metis fst_apsnd snd_apsnd)
qed

text \<open>Published payloads come out first in, first out: what left the queue is a prefix of what was
  enqueued, the rest is still in it, and the payloads popped are a subsequence of that prefix.\<close>

theorem usage_queue_fifo:
  "\<exists>gone. enqueued ops = gone @ live (snd (run_ops enqueue_item pop_oldest clear_locked ops new_queue)) \<and>
     subseq (concat (fst (run_ops enqueue_item pop_oldest clear_locked ops new_queue))) (map item_payload gone)"
  by (rule usage_fifo.fifo) simp_all

section \<open>Subscribers\<close>

text \<open>Sending on a closed channel and closing it twice panic: \<open>None\<close>. The subscribers are served in the
  order they came; the code's map order does not matter, as each channel is served on its own.\<close>

definition usageSubscriberBuffer :: nat where "usageSubscriberBuffer = 256"

definition close_channel :: "nat \<Rightarrow> usage_queue \<Rightarrow> usage_queue option" where
  "close_channel i q =
     (case uq_channels q i of
        None \<Rightarrow> None
      | Some c \<Rightarrow> if ch_closed c then None
                  else Some (q\<lparr>uq_channels := (uq_channels q)(i \<mapsto> c\<lparr>ch_closed := True\<rparr>)\<rparr>))"

definition publish_one :: "string \<Rightarrow> nat \<Rightarrow> usage_queue \<Rightarrow> usage_queue option" where
  "publish_one p i q =
     (case uq_channels q i of
        None \<Rightarrow> None
      | Some c \<Rightarrow>
          if ch_closed c then None
          else if length (ch_buffer c) < usageSubscriberBuffer then
            Some (q\<lparr>uq_channels := (uq_channels q)(i \<mapsto> c\<lparr>ch_buffer := ch_buffer c @ [p]\<rparr>)\<rparr>)
          else close_channel i (q\<lparr>uq_subscribers := removeAll i (uq_subscribers q)\<rparr>))"

fun each_channel :: "(nat \<Rightarrow> usage_queue \<Rightarrow> usage_queue option) \<Rightarrow> nat list \<Rightarrow> usage_queue \<Rightarrow> usage_queue option" where
  "each_channel f [] q = Some q"
| "each_channel f (i # is) q = (case f i q of None \<Rightarrow> None | Some q \<Rightarrow> each_channel f is q)"

definition publish_to_subscribers :: "string \<Rightarrow> usage_queue \<Rightarrow> (bool \<times> usage_queue) option" where
  "publish_to_subscribers p q =
     (if uq_subscribers q = [] then Some (False, q)
      else map_option (Pair True) (each_channel (publish_one p) (uq_subscribers q) q))"

definition subscribe_usage :: "usage_queue \<Rightarrow> nat \<times> usage_queue" where
  "subscribe_usage q =
     (let i = (uq_next_id q + 1) mod 2 ^ 64 in
      (i, q\<lparr>uq_next_id := i, uq_subscribers := removeAll i (uq_subscribers q) @ [i],
            uq_channels := (uq_channels q)(i \<mapsto> \<lparr>ch_buffer = [], ch_closed = False\<rparr>)\<rparr>))"

definition unsubscribe_usage :: "nat \<Rightarrow> usage_queue \<Rightarrow> usage_queue option" where
  "unsubscribe_usage i q =
     (if i \<in> set (uq_subscribers q)
      then close_channel i (q\<lparr>uq_subscribers := removeAll i (uq_subscribers q)\<rparr>)
      else Some q)"

definition clear :: "usage_queue \<Rightarrow> usage_queue option" where
  "clear q = each_channel close_channel (uq_subscribers q) (clear_locked q)"

text \<open>The reader's side.\<close>

definition receive :: "nat \<Rightarrow> usage_queue \<Rightarrow> (string \<times> usage_queue) option" where
  "receive i q =
     (case uq_channels q i of
        None \<Rightarrow> None
      | Some c \<Rightarrow> (case ch_buffer c of
          [] \<Rightarrow> None
        | p # ps \<Rightarrow> Some (p, q\<lparr>uq_channels := (uq_channels q)(i \<mapsto> c\<lparr>ch_buffer := ps\<rparr>)\<rparr>)))"

datatype sub_label = SSubscribe nat | SUnsubscribe nat | SPublish string bool | SClear | SReceive nat string

text \<open>The relation covers the subscriptions before their counter wraps.\<close>

inductive sub_step :: "usage_queue \<Rightarrow> sub_label \<Rightarrow> usage_queue \<Rightarrow> bool" where
  sub_subscribe: "subscribe_usage q = (i, q') \<Longrightarrow> uq_next_id q + 1 < 2 ^ 64 \<Longrightarrow> sub_step q (SSubscribe i) q'"
| sub_unsubscribe: "unsubscribe_usage i q = Some q' \<Longrightarrow> sub_step q (SUnsubscribe i) q'"
| sub_publish: "publish_to_subscribers p q = Some (b, q') \<Longrightarrow> sub_step q (SPublish p b) q'"
| sub_clear: "clear q = Some q' \<Longrightarrow> sub_step q SClear q'"
| sub_receive: "receive i q = Some (p, q') \<Longrightarrow> sub_step q (SReceive i p) q'"

inductive_cases sub_stepE: "sub_step q l q'"

definition open_in :: "usage_queue \<Rightarrow> nat \<Rightarrow> bool" where
  "open_in q i \<longleftrightarrow> (\<exists>c. uq_channels q i = Some c \<and> \<not> ch_closed c)"

definition sub_inv :: "usage_queue \<Rightarrow> bool" where
  "sub_inv q \<longleftrightarrow> distinct (uq_subscribers q) \<and>
     (\<forall>i \<in> set (uq_subscribers q). open_in q i) \<and>
     (\<forall>i c. uq_channels q i = Some c \<longrightarrow> i \<le> uq_next_id q \<and> length (ch_buffer c) \<le> usageSubscriberBuffer)"

lemma removeAll_as_filter: "removeAll i xs = filter (\<lambda>j. j \<noteq> i) xs"
  by (induction xs) auto

text \<open>What serving or closing a list of channels does to each channel.\<close>

definition served :: "string \<Rightarrow> channel \<Rightarrow> channel" where
  "served p c = (if length (ch_buffer c) < usageSubscriberBuffer then c\<lparr>ch_buffer := ch_buffer c @ [p]\<rparr>
                 else c\<lparr>ch_closed := True\<rparr>)"

definition full_in :: "usage_queue \<Rightarrow> nat \<Rightarrow> bool" where
  "full_in q i \<longleftrightarrow> (\<exists>c. uq_channels q i = Some c \<and> length (ch_buffer c) \<ge> usageSubscriberBuffer)"

lemma each_publish:
  assumes "distinct is" and "\<forall>i \<in> set is. open_in q i"
  shows "each_channel (publish_one p) is q = Some
    (q\<lparr>uq_subscribers := filter (\<lambda>i. \<not> (i \<in> set is \<and> full_in q i)) (uq_subscribers q),
       uq_channels := (\<lambda>i. if i \<in> set is then map_option (served p) (uq_channels q i) else uq_channels q i)\<rparr>)"
  using assms
proof (induction "is" arbitrary: q)
  case (Cons i "is")
  obtain c where c: "uq_channels q i = Some c" "\<not> ch_closed c"
    using Cons.prems(2) by (auto simp: open_in_def)
  let ?q = "q\<lparr>uq_subscribers := filter (\<lambda>j. \<not> (j = i \<and> full_in q i)) (uq_subscribers q),
       uq_channels := (uq_channels q)(i \<mapsto> served p c)\<rparr>"
  have step: "publish_one p i q = Some ?q"
    using c by (auto simp: publish_one_def close_channel_def served_def full_in_def removeAll_as_filter)
  have other: "open_in ?q j = open_in q j" "full_in ?q j = full_in q j" if "j \<noteq> i" for j
    using that by (simp_all add: open_in_def full_in_def)
  have "each_channel (publish_one p) is ?q = Some
    (?q\<lparr>uq_subscribers := filter (\<lambda>j. \<not> (j \<in> set is \<and> full_in ?q j)) (uq_subscribers ?q),
       uq_channels := (\<lambda>j. if j \<in> set is then map_option (served p) (uq_channels ?q j) else uq_channels ?q j)\<rparr>)"
  proof (rule Cons.IH)
    show "\<forall>j \<in> set is. open_in ?q j"
    proof
      fix j assume "j \<in> set is"
      with Cons.prems show "open_in ?q j" by (subst other(1)) auto
    qed
  qed (use Cons.prems(1) in simp)
  moreover have "filter (\<lambda>j. \<not> (j \<in> set is \<and> full_in ?q j)) (uq_subscribers ?q) =
      filter (\<lambda>j. \<not> (j \<in> set (i # is) \<and> full_in q j)) (uq_subscribers q)"
  proof -
    have "(\<not> (j = i \<and> full_in q i) \<and> \<not> (j \<in> set is \<and> full_in ?q j)) =
        (\<not> (j \<in> set (i # is) \<and> full_in q j))" for j
      using Cons.prems(1) other(2) [of j] by (cases "j = i") auto
    moreover have "uq_subscribers ?q = filter (\<lambda>j. \<not> (j = i \<and> full_in q i)) (uq_subscribers q)" by simp
    ultimately show ?thesis by (simp only: filter_filter)
  qed
  moreover have "(\<lambda>j. if j \<in> set is then map_option (served p) (uq_channels ?q j) else uq_channels ?q j) =
      (\<lambda>j. if j \<in> set (i # is) then map_option (served p) (uq_channels q j) else uq_channels q j)"
    using Cons.prems(1) c by auto
  ultimately show ?case by (simp add: step)
qed simp

lemma each_close:
  assumes "distinct is" and "\<forall>i \<in> set is. open_in q i"
  shows "each_channel close_channel is q = Some
    (q\<lparr>uq_channels := (\<lambda>i. if i \<in> set is then map_option (ch_closed_update (\<lambda>_. True)) (uq_channels q i)
                            else uq_channels q i)\<rparr>)"
  using assms
proof (induction "is" arbitrary: q)
  case (Cons i "is")
  obtain c where c: "uq_channels q i = Some c" "\<not> ch_closed c"
    using Cons.prems(2) by (auto simp: open_in_def)
  let ?q = "q\<lparr>uq_channels := (uq_channels q)(i \<mapsto> c\<lparr>ch_closed := True\<rparr>)\<rparr>"
  have "\<forall>j \<in> set is. open_in ?q j" using Cons.prems by (auto simp: open_in_def)
  from Cons.IH [OF _ this] Cons.prems(1)
  have "each_channel close_channel is ?q = Some
    (?q\<lparr>uq_channels := (\<lambda>j. if j \<in> set is then map_option (ch_closed_update (\<lambda>_. True)) (uq_channels ?q j)
                            else uq_channels ?q j)\<rparr>)" by simp
  moreover have "(\<lambda>j. if j \<in> set is then map_option (ch_closed_update (\<lambda>_. True)) (uq_channels ?q j)
        else uq_channels ?q j) =
      (\<lambda>j. if j \<in> set (i # is) then map_option (ch_closed_update (\<lambda>_. True)) (uq_channels q j)
        else uq_channels q j)"
    using Cons.prems(1) c by auto
  moreover have "close_channel i q = Some ?q" using c by (simp add: close_channel_def)
  ultimately show ?case by simp
qed simp

lemma sub_inv_channel:
  assumes "sub_inv q" and "uq_channels q i = Some c"
  shows "i \<le> uq_next_id q" and "length (ch_buffer c) \<le> usageSubscriberBuffer"
    and "i \<in> set (uq_subscribers q) \<Longrightarrow> \<not> ch_closed c"
  using assms by (auto simp: sub_inv_def open_in_def)

lemma sub_inv_open: "sub_inv q \<Longrightarrow> i \<in> set (uq_subscribers q) \<Longrightarrow> open_in q i"
  by (simp add: sub_inv_def)

text \<open>Under the invariant no operation panics.\<close>

lemma publish_Some:
  assumes "sub_inv q"
  shows "publish_to_subscribers p q = Some (uq_subscribers q \<noteq> [],
    q\<lparr>uq_subscribers := filter (\<lambda>i. \<not> full_in q i) (uq_subscribers q),
      uq_channels := (\<lambda>i. if i \<in> set (uq_subscribers q) then map_option (served p) (uq_channels q i)
                           else uq_channels q i)\<rparr>)"
proof -
  have "filter (\<lambda>i. \<not> (i \<in> set (uq_subscribers q) \<and> full_in q i)) (uq_subscribers q) =
      filter (\<lambda>i. \<not> full_in q i) (uq_subscribers q)"
    by (rule filter_cong) auto
  then show ?thesis
    using each_publish [of "uq_subscribers q" q p] assms sub_inv_open [OF assms]
    by (auto simp: publish_to_subscribers_def sub_inv_def)
qed

lemma unsubscribe_Some:
  assumes "sub_inv q" and "i \<in> set (uq_subscribers q)"
  shows "unsubscribe_usage i q = Some
    (q\<lparr>uq_subscribers := removeAll i (uq_subscribers q),
       uq_channels := (uq_channels q)(i \<mapsto> (the (uq_channels q i))\<lparr>ch_closed := True\<rparr>)\<rparr>)"
  using sub_inv_open [OF assms] assms(2) by (auto simp: unsubscribe_usage_def close_channel_def open_in_def)

lemma uq_channels_clear_locked: "uq_channels (clear_locked q) = uq_channels q"
  by (simp add: clear_locked_def)

lemma clear_Some:
  assumes "sub_inv q"
  shows "clear q = Some (q\<lparr>uq_items := [], uq_head := 0, uq_subscribers := [],
    uq_channels := (\<lambda>i. if i \<in> set (uq_subscribers q) then map_option (ch_closed_update (\<lambda>_. True)) (uq_channels q i)
                            else uq_channels q i)\<rparr>)"
proof -
  have "distinct (uq_subscribers q)" "\<forall>i \<in> set (uq_subscribers q). open_in (clear_locked q) i"
    using assms sub_inv_open [OF assms] by (auto simp: sub_inv_def open_in_def clear_locked_def)
  from each_close [OF this, unfolded uq_channels_clear_locked] show ?thesis
    by (simp add: clear_def) (simp add: clear_locked_def)
qed

section \<open>What a subscriber sees\<close>

fun received :: "nat \<Rightarrow> sub_label list \<Rightarrow> string list" where
  "received i [] = []"
| "received i (SReceive j p # ls) = (if j = i then p # received i ls else received i ls)"
| "received i (_ # ls) = received i ls"

fun published :: "sub_label list \<Rightarrow> string list" where
  "published [] = []"
| "published (SPublish p b # ls) = p # published ls"
| "published (_ # ls) = published ls"

text \<open>The payloads published since \<open>i\<close> subscribed.\<close>

fun offered :: "nat \<Rightarrow> sub_label list \<Rightarrow> string list" where
  "offered i [] = []"
| "offered i (SSubscribe j # ls) = (if j = i then published ls else offered i ls)"
| "offered i (_ # ls) = offered i ls"

lemma received_append: "received i (ls @ ms) = received i ls @ received i ms"
  by (induction i ls rule: received.induct) auto

lemma published_append: "published (ls @ ms) = published ls @ published ms"
  by (induction ls rule: published.induct) auto

lemma offered_append:
  "offered i (ls @ ms) = (if SSubscribe i \<in> set ls then offered i ls @ published ms else offered i ms)"
  by (induction i ls rule: offered.induct) (auto simp: published_append)

lemma offered_none: "SSubscribe i \<notin> set ls \<Longrightarrow> offered i ls = []"
  by (induction i ls rule: offered.induct) auto

definition stream_ok :: "usage_queue \<Rightarrow> sub_label list \<Rightarrow> usage_queue \<Rightarrow> bool" where
  "stream_ok q0 ls q \<longleftrightarrow> q0 = new_queue \<longrightarrow>
     (\<forall>i. (uq_channels q i = None \<longrightarrow> SSubscribe i \<notin> set ls \<and> received i ls = []) \<and>
        (\<forall>c. uq_channels q i = Some c \<longrightarrow> SSubscribe i \<in> set ls \<and>
           prefix (received i ls @ ch_buffer c) (offered i ls) \<and>
           (i \<in> set (uq_subscribers q) \<longrightarrow> received i ls @ ch_buffer c = offered i ls)))"

lemma new_queue_inv: "sub_inv new_queue"
  by (simp add: sub_inv_def new_queue_def)

lemma subscribe_obtain:
  assumes "sub_inv q" and "subscribe_usage q = (i, q')" and "uq_next_id q + 1 < 2 ^ 64"
  shows "i = Suc (uq_next_id q)" and "uq_channels q i = None" and "i \<notin> set (uq_subscribers q)"
    and "q' = q\<lparr>uq_next_id := i, uq_subscribers := uq_subscribers q @ [i],
            uq_channels := (uq_channels q)(i \<mapsto> \<lparr>ch_buffer = [], ch_closed = False\<rparr>)\<rparr>"
proof -
  show i: "i = Suc (uq_next_id q)" using assms(2,3) by (auto simp: subscribe_usage_def Let_def)
  show none: "uq_channels q i = None"
    using assms(1) unfolding sub_inv_def i by (metis Suc_n_not_le_n not_Some_eq)
  show new: "i \<notin> set (uq_subscribers q)" using assms(1) none by (force simp: sub_inv_def open_in_def)
  show "q' = q\<lparr>uq_next_id := i, uq_subscribers := uq_subscribers q @ [i],
            uq_channels := (uq_channels q)(i \<mapsto> \<lparr>ch_buffer = [], ch_closed = False\<rparr>)\<rparr>"
    using assms(2) new by (auto simp: subscribe_usage_def Let_def)
qed

lemma receive_obtain:
  assumes "receive i q = Some (p, q')"
  obtains c ps where "uq_channels q i = Some c" and "ch_buffer c = p # ps"
    and "q' = q\<lparr>uq_channels := (uq_channels q)(i \<mapsto> c\<lparr>ch_buffer := ps\<rparr>)\<rparr>"
  using assms by (auto simp: receive_def split: option.splits list.splits)

lemma unsubscribe_cases:
  assumes "sub_inv q" and "unsubscribe_usage i q = Some q'"
  obtains "q' = q" | c where "i \<in> set (uq_subscribers q)" and "uq_channels q i = Some c"
    and "q' = q\<lparr>uq_subscribers := removeAll i (uq_subscribers q),
       uq_channels := (uq_channels q)(i \<mapsto> c\<lparr>ch_closed := True\<rparr>)\<rparr>"
proof (cases "i \<in> set (uq_subscribers q)")
  case True
  then obtain c where "uq_channels q i = Some c"
    using sub_inv_open [OF assms(1) True] by (auto simp: open_in_def)
  with unsubscribe_Some [OF assms(1) True] assms(2) True that(2) show ?thesis by simp
qed (use assms(2) that(1) in \<open>simp add: unsubscribe_usage_def\<close>)

lemma sub_step_inv:
  assumes "sub_inv q" and "sub_step q l q'"
  shows "sub_inv q'"
  using assms(2)
proof (cases rule: sub_step.cases)
  case (sub_subscribe i)
  from subscribe_obtain [OF assms(1) sub_subscribe(2,3)] assms(1) show ?thesis
    by (auto simp: sub_inv_def open_in_def usageSubscriberBuffer_def intro: le_SucI)
next
  case (sub_unsubscribe i)
  from assms(1) sub_unsubscribe(2) show ?thesis
  proof (cases rule: unsubscribe_cases)
    case (2 c)
    with assms(1) sub_inv_channel(2) [OF assms(1) 2(2)] show ?thesis
      by (auto simp: sub_inv_def removeAll_as_filter open_in_def)
  qed (use assms(1) in simp)
next
  case (sub_publish p b)
  then have "q' = q\<lparr>uq_subscribers := filter (\<lambda>i. \<not> full_in q i) (uq_subscribers q),
      uq_channels := (\<lambda>i. if i \<in> set (uq_subscribers q) then map_option (served p) (uq_channels q i)
                           else uq_channels q i)\<rparr>"
    using publish_Some [OF assms(1), of p] by simp
  moreover have "length (ch_buffer (served p c)) \<le> usageSubscriberBuffer"
    if "uq_channels q i = Some c" for i c
    using sub_inv_channel(2) [OF assms(1) that] by (simp add: served_def)
  moreover have "\<not> ch_closed (served p c)"
    if "uq_channels q i = Some c" "i \<in> set (uq_subscribers q)" "\<not> full_in q i" for i c
    using sub_inv_channel(3) [OF assms(1) that(1,2)] that by (simp add: served_def full_in_def)
  ultimately show ?thesis
    using assms(1) by (fastforce simp: sub_inv_def open_in_def split: if_splits)
next
  case sub_clear
  with clear_Some [OF assms(1)] assms(1) show ?thesis
    by (auto simp: sub_inv_def split: if_splits)
next
  case (sub_receive i p)
  from sub_receive(2) show ?thesis
  proof (cases rule: receive_obtain)
    case (1 c ps)
    have "length ps \<le> usageSubscriberBuffer" "i \<le> uq_next_id q"
      using assms(1) 1(1,2) by (force simp: sub_inv_def)+
    moreover have "ch_closed c = False" if "i \<in> set (uq_subscribers q)"
      using sub_inv_channel(3) [OF assms(1) 1(1) that] by simp
    ultimately show ?thesis
      using assms(1) 1 by (auto simp: sub_inv_def open_in_def)
  qed
qed

interpretation sub_invariant: invariant_system sub_step sub_inv
  by unfold_locales (rule sub_step_inv)

lemma stream_step:
  assumes "sub_inv q" and "stream_ok q0 ls q" and "sub_step q l q'"
  shows "stream_ok q0 (ls @ [l]) q'"
proof (cases "q0 = new_queue")
  case True
  note ok = assms(2) [unfolded stream_ok_def, rule_format, OF True]
  show ?thesis
    using assms(3)
  proof (cases rule: sub_step.cases)
    case (sub_subscribe i)
    from subscribe_obtain [OF assms(1) sub_subscribe(2,3)] ok show ?thesis
      by (auto simp: stream_ok_def sub_subscribe(1) received_append offered_append offered_none)
  next
    case (sub_unsubscribe i)
    have app: "received j (ls @ [l]) = received j ls" "offered j (ls @ [l]) = offered j ls" for j
      by (simp_all add: sub_unsubscribe(1) received_append offered_append offered_none)
    from assms(1) sub_unsubscribe(2) show ?thesis
    proof (cases rule: unsubscribe_cases)
      case 1
      with ok show ?thesis unfolding stream_ok_def app by (simp add: sub_unsubscribe(1))
    next
      case (2 c)
      with ok [of i] have "prefix (received i ls @ ch_buffer c) (offered i ls)" by blast
      with ok 2 show ?thesis unfolding stream_ok_def app by (auto simp: sub_unsubscribe(1))
    qed
  next
    case (sub_publish p b)
    then have q': "q' = q\<lparr>uq_subscribers := filter (\<lambda>i. \<not> full_in q i) (uq_subscribers q),
        uq_channels := (\<lambda>i. if i \<in> set (uq_subscribers q) then map_option (served p) (uq_channels q i)
                             else uq_channels q i)\<rparr>"
      using publish_Some [OF assms(1), of p] by simp
    have app: "received j (ls @ [l]) = received j ls"
      "offered j (ls @ [l]) = offered j ls @ (if SSubscribe j \<in> set ls then [p] else [])" for j
      by (simp_all add: sub_publish(1) received_append offered_append offered_none)
    have old: "prefix (received i ls @ ch_buffer c) (offered i ls @ [p])" "SSubscribe i \<in> set ls"
      if "uq_channels q i = Some c" for i c
      using ok [of i] that by (auto intro: prefix_prefix)
    have cur: "prefix (received i ls @ ch_buffer (served p c)) (offered i ls @ [p])"
      "\<not> full_in q i \<longrightarrow> received i ls @ ch_buffer (served p c) = offered i ls @ [p]"
      if "uq_channels q i = Some c" "i \<in> set (uq_subscribers q)" for i c
      using ok [of i] that by (auto simp: served_def full_in_def)
    have none: "SSubscribe i \<notin> set ls" "received i ls = []" if "uq_channels q i = None" for i
      using ok [of i] that by auto
    show ?thesis
      unfolding stream_ok_def app q' using old cur none by (simp add: sub_publish(1)) blast
  next
    case sub_clear
    have app: "received j (ls @ [l]) = received j ls" "offered j (ls @ [l]) = offered j ls" for j
      by (simp_all add: sub_clear(1) received_append offered_append offered_none)
    from ok clear_Some [OF assms(1)] sub_clear(2) show ?thesis
      unfolding stream_ok_def app by (auto simp: sub_clear(1))
  next
    case (sub_receive i p)
    have app: "received j (ls @ [l]) = received j ls @ (if j = i then [p] else [])"
      "offered j (ls @ [l]) = offered j ls" for j
      by (simp_all add: sub_receive(1) received_append offered_append offered_none)
    from sub_receive(2) show ?thesis
    proof (cases rule: receive_obtain)
      case (1 c ps)
      with ok [of i] have "prefix (received i ls @ p # ps) (offered i ls)"
        "i \<in> set (uq_subscribers q) \<longrightarrow> received i ls @ p # ps = offered i ls" by auto
      with ok 1 show ?thesis unfolding stream_ok_def app by (auto simp: sub_receive(1))
    qed
  qed
qed (simp add: stream_ok_def)

lemma stream_start: "stream_ok q [] q"
  by (simp add: stream_ok_def new_queue_def)

interpretation sub_streams: history_system sub_step sub_inv stream_ok
  by unfold_locales (blast intro: stream_start stream_step)+



section \<open>Rows on their way to the store\<close>

definition usageFlushBatchSize :: nat where "usageFlushBatchSize = 100"

definition usageBufferCap :: nat where "usageBufferCap = 10000"

record usage_row =
  ur_payload :: string
  ur_requested_at :: instant

text \<open>\<open>ub_signal\<close>: the wake-up of the flusher, a channel that holds one token.\<close>

record usage_buffer =
  ub_rows :: "usage_row list"
  ub_signal :: bool

text \<open>The durable store. The state \<open>'s\<close> is that of the database.\<close>

record 's usage_store =
  store_append :: "usage_row \<Rightarrow> 's \<Rightarrow> bool \<times> 's"
  store_batch :: "(usage_row list \<Rightarrow> 's \<Rightarrow> bool \<times> 's) option"
  store_pop :: "int \<Rightarrow> 's \<Rightarrow> string list option \<times> 's"
  store_prune :: "duration \<Rightarrow> 's \<Rightarrow> bool \<times> 's"

definition buffer_overflow :: "usage_row list \<Rightarrow> nat" where
  "buffer_overflow rows = (if length rows \<ge> usageBufferCap then length rows - usageBufferCap + 1 else 0)"

definition buffer_usage_row :: "usage_row \<Rightarrow> usage_buffer \<Rightarrow> usage_buffer" where
  "buffer_usage_row row b =
     (let rows = drop (buffer_overflow (ub_rows b)) (ub_rows b) @ [row] in
      \<lparr>ub_rows = rows, ub_signal = (ub_signal b \<or> length rows \<ge> usageFlushBatchSize)\<rparr>)"

definition take_rows :: "usage_buffer \<Rightarrow> usage_row list \<times> usage_buffer" where
  "take_rows b = (if ub_rows b = [] then ([], b) else (ub_rows b, b\<lparr>ub_rows := []\<rparr>))"

text \<open>Row by row, up to the first failure: the rows that were not written.\<close>

fun append_each :: "(usage_row \<Rightarrow> 's \<Rightarrow> bool \<times> 's) \<Rightarrow> usage_row list \<Rightarrow> 's \<Rightarrow> usage_row list \<times> 's" where
  "append_each ap [] s = ([], s)"
| "append_each ap (row # rows) s =
     (let (ok, s) = ap row s in if ok then append_each ap rows s else (row # rows, s))"

definition write_rows :: "'s usage_store \<Rightarrow> usage_row list \<Rightarrow> 's \<Rightarrow> usage_row list \<times> 's" where
  "write_rows store rows s =
     (case store_batch store of
        Some batch \<Rightarrow> (let (ok, s) = batch rows s in (if ok then [] else rows, s))
      | None \<Rightarrow> append_each (store_append store) rows s)"

definition requeue_rows :: "usage_row list \<Rightarrow> usage_buffer \<Rightarrow> usage_buffer" where
  "requeue_rows left b =
     (let combined = left @ ub_rows b in
      b\<lparr>ub_rows := drop (length combined - usageBufferCap) combined\<rparr>)"

definition flush_usage_buffer :: "'s usage_store \<Rightarrow> usage_buffer \<Rightarrow> 's \<Rightarrow> usage_buffer \<times> 's" where
  "flush_usage_buffer store b s =
     (let (rows, b) = take_rows b in
      if rows = [] then (b, s)
      else let (left, s) = write_rows store rows s in
        (if left = [] then b else requeue_rows left b, s))"

text \<open>A flush of the code runs its three sections with other goroutines in between. Each flight is a
  list of taken rows that is being written; the label of an overflow shows the rows shed.\<close>

record flushing =
  fl_buffer :: usage_buffer
  fl_flights :: "usage_row list list"
  fl_failed :: "usage_row list list"

datatype flush_label =
    FBuffer usage_row "usage_row list"
  | FTake "usage_row list"
  | FAppended usage_row
  | FBatched "usage_row list"
  | FFailed "usage_row list"
  | FRequeue "usage_row list"

inductive flush_step :: "flushing \<Rightarrow> flush_label \<Rightarrow> flushing \<Rightarrow> bool" where
  fl_buffer: "flush_step s (FBuffer row (take (buffer_overflow (ub_rows (fl_buffer s))) (ub_rows (fl_buffer s))))
     (s\<lparr>fl_buffer := buffer_usage_row row (fl_buffer s)\<rparr>)"
| fl_take: "take_rows (fl_buffer s) = (rows, b) \<Longrightarrow>
     flush_step s (FTake rows) (s\<lparr>fl_buffer := b, fl_flights := fl_flights s @ [rows]\<rparr>)"
| fl_appended: "fl_flights s = xs @ (row # rows) # ys \<Longrightarrow>
     flush_step s (FAppended row) (s\<lparr>fl_flights := xs @ rows # ys\<rparr>)"
| fl_batched: "fl_flights s = xs @ rows # ys \<Longrightarrow>
     flush_step s (FBatched rows) (s\<lparr>fl_flights := xs @ ys\<rparr>)"
| fl_failed: "fl_flights s = xs @ rows # ys \<Longrightarrow>
     flush_step s (FFailed rows) (s\<lparr>fl_flights := xs @ ys, fl_failed := fl_failed s @ [rows]\<rparr>)"
| fl_requeue: "fl_failed s = xs @ rows # ys \<Longrightarrow>
     flush_step s (FRequeue (take (length (rows @ ub_rows (fl_buffer s)) - usageBufferCap) (rows @ ub_rows (fl_buffer s))))
       (s\<lparr>fl_buffer := requeue_rows rows (fl_buffer s), fl_failed := xs @ ys\<rparr>)"

fun accepted_rows :: "flush_label list \<Rightarrow> usage_row list" where
  "accepted_rows [] = []"
| "accepted_rows (FBuffer row lost # ls) = row # accepted_rows ls"
| "accepted_rows (_ # ls) = accepted_rows ls"

fun written_rows :: "flush_label list \<Rightarrow> usage_row list" where
  "written_rows [] = []"
| "written_rows (FAppended row # ls) = row # written_rows ls"
| "written_rows (FBatched rows # ls) = rows @ written_rows ls"
| "written_rows (_ # ls) = written_rows ls"

fun shed_rows :: "flush_label list \<Rightarrow> usage_row list" where
  "shed_rows [] = []"
| "shed_rows (FBuffer row lost # ls) = lost @ shed_rows ls"
| "shed_rows (FRequeue lost # ls) = lost @ shed_rows ls"
| "shed_rows (_ # ls) = shed_rows ls"

lemma rows_append:
  "accepted_rows (ls @ ms) = accepted_rows ls @ accepted_rows ms"
  "written_rows (ls @ ms) = written_rows ls @ written_rows ms"
  "shed_rows (ls @ ms) = shed_rows ls @ shed_rows ms"
proof -
  show "accepted_rows (ls @ ms) = accepted_rows ls @ accepted_rows ms"
    by (induction ls rule: accepted_rows.induct) auto
  show "written_rows (ls @ ms) = written_rows ls @ written_rows ms"
    by (induction ls rule: written_rows.induct) auto
  show "shed_rows (ls @ ms) = shed_rows ls @ shed_rows ms"
    by (induction ls rule: shed_rows.induct) auto
qed

definition pending_rows :: "flushing \<Rightarrow> usage_row multiset" where
  "pending_rows s = mset (ub_rows (fl_buffer s)) + mset (concat (fl_flights s)) + mset (concat (fl_failed s))"

definition no_flushes :: flushing where
  "no_flushes = \<lparr>fl_buffer = \<lparr>ub_rows = [], ub_signal = False\<rparr>, fl_flights = [], fl_failed = []\<rparr>"

lemma mset_take_drop: "mset (take n xs) + mset (drop n xs) = mset xs"
  by (metis append_take_drop_id mset_append)

lemma flush_step_rows:
  assumes "flush_step s l t"
  shows "mset (accepted_rows [l]) + pending_rows s = mset (written_rows [l]) + mset (shed_rows [l]) + pending_rows t"
  using assms
proof (cases rule: flush_step.cases)
  case (fl_buffer row)
  show ?thesis
    using mset_take_drop [of "buffer_overflow (ub_rows (fl_buffer s))" "ub_rows (fl_buffer s)"]
    by (simp add: fl_buffer pending_rows_def buffer_usage_row_def Let_def ac_simps)
next
  case (fl_requeue xs rows ys)
  let ?c = "rows @ ub_rows (fl_buffer s)"
  show ?thesis
    using mset_take_drop [of "length ?c - usageBufferCap" ?c] fl_requeue(3)
    by (simp add: fl_requeue(1,2) pending_rows_def requeue_rows_def Let_def ac_simps)
qed (auto simp: pending_rows_def take_rows_def ac_simps split: if_splits)

definition within_cap :: "flushing \<Rightarrow> bool" where
  "within_cap s \<longleftrightarrow> length (ub_rows (fl_buffer s)) \<le> usageBufferCap"

interpretation flush_cap: invariant_system flush_step within_cap
proof
  fix s l t
  assume "within_cap s" and "flush_step s l t"
  from this(2,1) show "within_cap t"
    by (cases rule: flush_step.cases)
      (auto simp: within_cap_def buffer_usage_row_def Let_def buffer_overflow_def requeue_rows_def take_rows_def
        usageBufferCap_def split: if_splits)
qed

definition conserved :: "flushing \<Rightarrow> flush_label list \<Rightarrow> flushing \<Rightarrow> bool" where
  "conserved s0 ls s \<longleftrightarrow>
     mset (accepted_rows ls) + pending_rows s0 = mset (written_rows ls) + mset (shed_rows ls) + pending_rows s"

lemma conserved_step:
  assumes "conserved s0 ls s" and "flush_step s l t"
  shows "conserved s0 (ls @ [l]) t"
proof -
  have "mset (accepted_rows (ls @ [l])) + pending_rows s0 =
      mset (written_rows ls) + mset (shed_rows ls) + (mset (accepted_rows [l]) + pending_rows s)"
    using assms(1) by (simp add: conserved_def rows_append ac_simps)
  also have "\<dots> = mset (written_rows (ls @ [l])) + mset (shed_rows (ls @ [l])) + pending_rows t"
    using flush_step_rows [OF assms(2)] by (simp add: rows_append ac_simps)
  finally show ?thesis by (simp add: conserved_def)
qed

interpretation flush_history: history_system flush_step within_cap conserved
  by unfold_locales (simp add: conserved_def, blast intro: conserved_step)

text \<open>A flush of the code that nothing interrupts: a run of these sections, with the rows of the store
  given by its answers.\<close>

lemma append_each_run:
  assumes "append_each ap rows s = (left, s')"
  shows "\<exists>done. rows = done @ left \<and> (left = [] \<longrightarrow> done = rows) \<and>
    run_of flush_step (\<lparr>fl_buffer = b, fl_flights = [rows], fl_failed = []\<rparr>) (map FAppended done)
      (\<lparr>fl_buffer = b, fl_flights = [left], fl_failed = []\<rparr>)"
  using assms
proof (induction rows arbitrary: s)
  case (Cons row rows)
  show ?case
  proof (cases "fst (ap row s)")
    case True
    with Cons.prems have "append_each ap rows (snd (ap row s)) = (left, s')" by (simp add: split_beta)
    from Cons.IH [OF this] obtain dn where dn: "rows = dn @ left" "left = [] \<longrightarrow> dn = rows"
      "run_of flush_step (\<lparr>fl_buffer = b, fl_flights = [rows], fl_failed = []\<rparr>) (map FAppended dn)
        (\<lparr>fl_buffer = b, fl_flights = [left], fl_failed = []\<rparr>)" by blast
    have "flush_step \<lparr>fl_buffer = b, fl_flights = [row # rows], fl_failed = []\<rparr> (FAppended row)
        \<lparr>fl_buffer = b, fl_flights = [rows], fl_failed = []\<rparr>"
      using fl_appended [of "\<lparr>fl_buffer = b, fl_flights = [row # rows], fl_failed = []\<rparr>" "[]" row rows "[]"] by simp
    with dn show ?thesis
      by (intro exI [of _ "row # dn"]) (auto simp: run_Cons_iff)
  next
    case False
    with Cons.prems have "left = row # rows" by (simp add: split_beta)
    then show ?thesis by (intro exI [of _ "[]"]) simp
  qed
qed simp

lemma flush_usage_buffer_run:
  assumes "flush_usage_buffer store b s = (b', s')"
  shows "\<exists>ls. run_of flush_step \<lparr>fl_buffer = b, fl_flights = [], fl_failed = []\<rparr> ls
    \<lparr>fl_buffer = b', fl_flights = [], fl_failed = []\<rparr>"
proof (cases "ub_rows b = []")
  case True
  with assms have "b' = b" by (simp add: flush_usage_buffer_def take_rows_def)
  then show ?thesis by (intro exI [of _ "[]"]) simp
next
  case False
  let ?rows = "ub_rows b" and ?b = "b\<lparr>ub_rows := []\<rparr>"
  let ?s = "\<lambda>x flights failed. \<lparr>fl_buffer = x, fl_flights = flights, fl_failed = failed\<rparr>"
  obtain left s1 where w: "write_rows store ?rows s = (left, s1)" by fastforce
  have take: "flush_step (?s b [] []) (FTake ?rows) (?s ?b [?rows] [])"
    using fl_take [of "?s b [] []" ?rows ?b] False by (simp add: take_rows_def)
  have none: "flush_step (?s ?b [r] []) (FBatched r) (?s ?b [] [])"
    and failed: "flush_step (?s ?b [r] []) (FFailed r) (?s ?b [] [r])" for r
    using fl_batched [of "?s ?b [r] []" "[]" r "[]"] fl_failed [of "?s ?b [r] []" "[]" r "[]"] by simp_all
  have requeue: "\<exists>l. flush_step (?s ?b [] [r]) l (?s (requeue_rows r ?b) [] [])" for r
    using fl_requeue [of "?s ?b [] [r]" "[]" r "[]"] by auto
  have "\<exists>ms. run_of flush_step (?s ?b [?rows] []) ms (?s ?b [left] []) \<or>
      left = [] \<and> run_of flush_step (?s ?b [?rows] []) ms (?s ?b [] [])"
  proof (cases "store_batch store")
    case None
    with w append_each_run [of "store_append store" ?rows s left s1 ?b] show ?thesis
      by (auto simp: write_rows_def)
  next
    case (Some batch)
    with w have "left = [] \<or> left = ?rows" by (auto simp: write_rows_def split_beta split: if_splits)
    then show ?thesis
    proof
      assume "left = []"
      then show ?thesis using none [of ?rows] by (intro exI [of _ "[FBatched ?rows]"]) (simp add: run_Cons_iff)
    next
      assume "left = ?rows"
      then show ?thesis by (intro exI [of _ "[]"]) simp
    qed
  qed
  then obtain ms where "run_of flush_step (?s b [] []) (FTake ?rows # ms) (?s ?b [left] []) \<or>
      left = [] \<and> run_of flush_step (?s b [] []) (FTake ?rows # ms) (?s ?b [] [])"
    using take by (auto simp: run_Cons_iff)
  moreover have "b' = (if left = [] then ?b else requeue_rows left ?b)"
    using assms w False by (auto simp: flush_usage_buffer_def take_rows_def split: if_splits)
  ultimately show ?thesis
    using none [of left] failed [of left] requeue [of left] by (metis run_snoc)
qed

text \<open>C28: Whatever rows are buffered, taken, written, failed and put back, and however the flushes of several
  goroutines interleave, every accepted row is exactly once in one place: written, shed from the front
  of a full buffer, or still pending; and the buffer never exceeds its cap.\<close>

theorem usage_rows_conserved:
  assumes "run_of flush_step no_flushes ls s"
  shows "mset (accepted_rows ls) = mset (written_rows ls) + mset (shed_rows ls) + pending_rows s \<and>
    length (ub_rows (fl_buffer s)) \<le> usageBufferCap"
proof -
  have start: "within_cap no_flushes" by (simp add: within_cap_def no_flushes_def)
  from flush_history.hist_run [OF assms start] flush_cap.inv_run [OF assms start] show ?thesis
    by (simp add: conserved_def within_cap_def no_flushes_def pending_rows_def)
qed

theorem usage_rows_conserved_witness:
  "mset [\<lparr>ur_payload = ''p'', ur_requested_at = 5\<rparr>] = {#} + pending_rows
     (no_flushes\<lparr>fl_buffer := buffer_usage_row \<lparr>ur_payload = ''p'', ur_requested_at = 5\<rparr> (fl_buffer no_flushes)\<rparr>)"
proof -
  let ?row = "\<lparr>ur_payload = ''p'', ur_requested_at = 5\<rparr>"
  have "run_of flush_step no_flushes [FBuffer ?row []]
      (no_flushes\<lparr>fl_buffer := buffer_usage_row ?row (fl_buffer no_flushes)\<rparr>)"
    using fl_buffer [of no_flushes ?row]
    by (simp add: run_Cons_iff no_flushes_def buffer_overflow_def usageBufferCap_def)
  from usage_rows_conserved [OF this] show ?thesis by simp
qed

section \<open>The package's operations\<close>

record 's usage_state =
  us_enabled :: bool
  us_retention :: int
  us_queue :: usage_queue
  us_buffer :: usage_buffer
  us_store :: "'s usage_store option"
  us_flusher :: bool

definition initial_usage :: "'s usage_state" where
  "initial_usage =
     \<lparr>us_enabled = False, us_retention = defaultRetentionSeconds, us_queue = new_queue,
      us_buffer = \<lparr>ub_rows = [], ub_signal = False\<rparr>, us_store = None, us_flusher = False\<rparr>"

definition set_enabled :: "bool \<Rightarrow> 's usage_state \<Rightarrow> 's usage_state option" where
  "set_enabled v st =
     (let st = st\<lparr>us_enabled := v\<rparr> in
      if v then Some st else map_option (\<lambda>q. st\<lparr>us_queue := q\<rparr>) (clear (us_queue st)))"

definition set_retention_seconds :: "int \<Rightarrow> 's usage_state \<Rightarrow> 's usage_state" where
  "set_retention_seconds v st = st\<lparr>us_retention := normalized_retention v\<rparr>"

definition set_usage_store :: "'s usage_store option \<Rightarrow> 's usage_state \<Rightarrow> 's usage_state" where
  "set_usage_store store st = st\<lparr>us_store := store, us_flusher := True\<rparr>"

definition enqueue_usage :: "instant \<Rightarrow> string \<Rightarrow> instant \<Rightarrow> 's usage_state \<Rightarrow> 's usage_state option" where
  "enqueue_usage now p requested st =
     (if \<not> us_enabled st then Some st
      else if p = [] then Some st
      else
        let st = (if us_store st \<noteq> None
                  then st\<lparr>us_buffer := buffer_usage_row \<lparr>ur_payload = p, ur_requested_at = requested\<rparr> (us_buffer st)\<rparr>
                  else st)
        in case publish_to_subscribers p (us_queue st) of
             None \<Rightarrow> None
           | Some (True, q) \<Rightarrow> Some (st\<lparr>us_queue := q\<rparr>)
           | Some (False, q) \<Rightarrow> Some (st\<lparr>us_queue := enqueue_item (us_retention st) now p q\<rparr>))"

definition flush_usage :: "'s usage_state \<Rightarrow> 's \<Rightarrow> 's usage_state \<times> 's" where
  "flush_usage st s =
     (case us_store st of
        None \<Rightarrow> (st, s)
      | Some store \<Rightarrow> (let (b, s) = flush_usage_buffer store (us_buffer st) s in (st\<lparr>us_buffer := b\<rparr>, s)))"

definition pop_oldest_usage :: "instant \<Rightarrow> int \<Rightarrow> 's usage_state \<Rightarrow> 's \<Rightarrow> string list \<times> 's usage_state \<times> 's" where
  "pop_oldest_usage now n st s =
     (if \<not> us_enabled st then ([], st, s)
      else if n \<le> 0 then ([], st, s)
      else
        let (popped, s) = (case us_store st of None \<Rightarrow> (None, s) | Some store \<Rightarrow> store_pop store n s) in
        case popped of
          Some items \<Rightarrow> (items, st, s)
        | None \<Rightarrow> (let (out, q) = pop_oldest (us_retention st) now (nat n) (us_queue st)
                   in (out, st\<lparr>us_queue := q\<rparr>, s)))"

definition prune_persistent_usage :: "'s usage_state \<Rightarrow> 's \<Rightarrow> 's" where
  "prune_persistent_usage st s =
     (case us_store st of
        None \<Rightarrow> s
      | Some store \<Rightarrow> snd (store_prune store (window_seconds (us_retention st) * second) s))"

text \<open>A published payload goes to the subscribers or to the queue, not to both, and to the buffer when there
  is a store.\<close>

lemma enqueue_usage_Some:
  assumes "sub_inv (us_queue st)" and "us_enabled st" and "p \<noteq> []"
  shows "\<exists>st'. enqueue_usage now p t st = Some st' \<and>
    ub_rows (us_buffer st') = (if us_store st = None then ub_rows (us_buffer st)
           else ub_rows (buffer_usage_row \<lparr>ur_payload = p, ur_requested_at = t\<rparr> (us_buffer st))) \<and>
    live (us_queue st') = (if uq_subscribers (us_queue st) = []
           then spec_enqueue (us_retention st) now p (live (us_queue st)) else live (us_queue st))"
proof -
  let ?q = "us_queue st"
  have p: "publish_to_subscribers p ?q = Some (uq_subscribers ?q \<noteq> [], snd (the (publish_to_subscribers p ?q)))"
    "live (snd (the (publish_to_subscribers p ?q))) = live ?q"
    by (simp_all add: publish_Some [OF assms(1)] live_def)
  show ?thesis
  proof (cases "uq_subscribers ?q = []")
    case True
    then have "publish_to_subscribers p ?q = Some (False, ?q)" by (simp add: publish_to_subscribers_def)
    with True assms(2,3) show ?thesis
      by (cases "us_store st") (simp_all add: enqueue_usage_def Let_def live_enqueue_item)
  next
    case False
    with p(1) obtain q where q: "publish_to_subscribers p ?q = Some (True, q)" by simp
    with p(2) have "live q = live ?q" by simp
    with False q assms(2,3) show ?thesis
      by (cases "us_store st") (simp_all add: enqueue_usage_def Let_def)
  qed
qed

end
