(* ===== verification/Auth_Types.thy ===== *)
theory Auth_Types
  imports Thinking_Config
begin

text \<open>
  Credentials as the manager keeps them (sdk/cliproxy/auth: types.go, status.go, errors.go,
  credential_weight.go, quota_signals.go) and the classification of upstream failures
  (conductor.go). Only the fields that scheduling and cooldown read or write are kept. A map of the
  code that is walked is an association list with distinct keys, a nil entry of \<open>ModelStates\<close> (which
  every loop skips) is an absent one, and the zero time is the instant 0. JSON parsing is a
  parameter, \<open>js\<close>.
\<close>

section \<open>Data\<close>

definition StatusUnknown :: string where "StatusUnknown = ''unknown''"
definition StatusActive :: string where "StatusActive = ''active''"
definition StatusPending :: string where "StatusPending = ''pending''"
definition StatusRefreshing :: string where "StatusRefreshing = ''refreshing''"
definition StatusError :: string where "StatusError = ''error''"
definition StatusDisabled :: string where "StatusDisabled = ''disabled''"

lemmas status_defs =
  StatusUnknown_def StatusActive_def StatusPending_def StatusRefreshing_def StatusError_def StatusDisabled_def

definition zero_time :: instant where "zero_time = 0"

record auth_error =
  ae_code :: string
  ae_message :: string
  ae_retryable :: bool
  ae_status :: int

record quota_state =
  qs_exceeded :: bool
  qs_reason :: string
  qs_next_recover :: instant
  qs_backoff :: int
  qs_observed_at :: instant
  qs_signals :: "(string \<times> string) list"

definition empty_quota :: quota_state where
  "empty_quota = \<lparr>qs_exceeded = False, qs_reason = [], qs_next_recover = zero_time, qs_backoff = 0,
     qs_observed_at = zero_time, qs_signals = []\<rparr>"

record model_state =
  ms_status :: string
  ms_message :: string
  ms_unavailable :: bool
  ms_next_retry :: instant
  ms_error :: "auth_error option"
  ms_quota :: quota_state
  ms_updated_at :: instant
  ms_recorded_seq :: nat

text \<open>The values of the untyped metadata of a credential.\<close>

datatype go_value = GNil | GBool bool | GInt int | GInt64 int | GFloat go_float | GNumber string | GString string | GOther

record auth =
  au_id :: string
  au_provider :: string
  au_status :: string
  au_message :: string
  au_disabled :: bool
  au_unavailable :: bool
  au_attributes :: "(string \<times> string) list"
  au_metadata :: "(string \<times> go_value) list"
  au_quota :: quota_state
  au_error :: "auth_error option"
  au_updated_at :: instant
  au_next_refresh :: instant
  au_next_retry :: instant
  au_states :: "(string \<times> model_state) list"
  au_success :: int
  au_failed :: int
  au_recorded_seq :: nat

definition attribute :: "auth \<Rightarrow> string \<Rightarrow> string" where
  "attribute a k = (case map_of (au_attributes a) k of None \<Rightarrow> [] | Some v \<Rightarrow> v)"

definition apply_cooldown_fields :: "quota_state \<Rightarrow> quota_state \<Rightarrow> quota_state" where
  "apply_cooldown_fields dst c =
     dst\<lparr>qs_exceeded := qs_exceeded c, qs_reason := qs_reason c, qs_next_recover := qs_next_recover c,
         qs_backoff := qs_backoff c\<rparr>"

definition merge_quota_observation :: "quota_state \<Rightarrow> quota_state \<Rightarrow> quota_state" where
  "merge_quota_observation target source =
     (if qs_observed_at source = zero_time \<or> qs_observed_at source < qs_observed_at target then target
      else target\<lparr>qs_observed_at := qs_observed_at source, qs_signals := qs_signals source\<rparr>)"

definition canonical_model_key :: "string \<Rightarrow> string" where
  "canonical_model_key model =
     (let model = trim_space model in
      if model = [] then []
      else let name = trim_space (sr_model_name (parse_suffix model)) in
        if name = [] then model else name)"

section \<open>Priorities and weights\<close>

definition auth_priority :: "auth \<Rightarrow> int" where
  "auth_priority a =
     (let raw = trim_space (attribute a ''priority'') in
      if raw = [] then 0 else case atoi raw of None \<Rightarrow> 0 | Some n \<Rightarrow> n)"

definition DefaultCredentialWeight :: int where "DefaultCredentialWeight = 1"
definition MaxCredentialWeight :: int where "MaxCredentialWeight = 1000000"

text \<open>A float is a weight when it is an integer that fits in 64 bits; the conversion of any other float
  does not give the float back, whatever the platform makes of it.\<close>

fun parse_credential_weight :: "go_value \<Rightarrow> int option" where
  "parse_credential_weight (GInt n) = Some n"
| "parse_credential_weight (GInt64 n) = Some n"
| "parse_credential_weight (GFloat (Fin x)) =
     (let n = x div 2 ^ 1074 in if Fin x = flt_of_int n \<and> in_s64 n then Some n else None)"
| "parse_credential_weight (GNumber s) = atoi s"
| "parse_credential_weight (GString s) = atoi (trim_space s)"
| "parse_credential_weight _ = None"

definition credential_weight_value :: "auth \<Rightarrow> int option" where
  "credential_weight_value a =
     (case parse_credential_weight (GString (attribute a ''weight'')) of
        Some w \<Rightarrow> Some w
      | None \<Rightarrow> (case map_of (au_metadata a) ''weight'' of
          None \<Rightarrow> None
        | Some v \<Rightarrow> parse_credential_weight v))"

definition credential_weight :: "auth \<Rightarrow> int" where
  "credential_weight a = (case credential_weight_value a of None \<Rightarrow> DefaultCredentialWeight | Some w \<Rightarrow> w)"

definition validate_credential_weight :: "int \<Rightarrow> bool" where
  "validate_credential_weight w \<longleftrightarrow> \<not> (w < DefaultCredentialWeight \<or> w > MaxCredentialWeight)"

section \<open>Classification of failures\<close>

definition ErrorCodeRequestScoped :: string where "ErrorCodeRequestScoped = ''request_scoped''"
definition ErrorCodeConnectionLifecycle :: string where "ErrorCodeConnectionLifecycle = ''connection_lifecycle''"
definition ErrorCodeTransientTransport :: string where "ErrorCodeTransientTransport = ''transient_transport''"
definition ErrorCodeForceCooldown :: string where "ErrorCodeForceCooldown = ''force_cooldown''"

definition status_code_of :: "auth_error option \<Rightarrow> int" where
  "status_code_of err = (case err of None \<Rightarrow> 0 | Some e \<Rightarrow> ae_status e)"

definition force_cooldown :: "auth_error option \<Rightarrow> bool" where
  "force_cooldown err = (case err of None \<Rightarrow> False | Some e \<Rightarrow> ae_code e = ErrorCodeForceCooldown)"

definition model_support_patterns :: "string list" where
  "model_support_patterns =
     [''model_not_supported'', ''requested model is not supported'', ''requested model is unsupported'',
      ''requested model is unavailable'', ''model is not supported'', ''model not supported'',
      ''unsupported model'', ''model unavailable'', ''not available for your plan'',
      ''not available for your account'']"

definition is_model_support_error_message :: "string \<Rightarrow> bool" where
  "is_model_support_error_message m =
     (let lower = to_lower (trim_space m) in lower \<noteq> [] \<and> list_ex (contains lower) model_support_patterns)"

definition is_model_support_result_error :: "auth_error option \<Rightarrow> bool" where
  "is_model_support_result_error err =
     (case err of None \<Rightarrow> False
      | Some e \<Rightarrow> (ae_status e = 400 \<or> ae_status e = 422) \<and> is_model_support_error_message (ae_message e))"

definition is_invalid_grant_identifier :: "string \<Rightarrow> bool" where
  "is_invalid_grant_identifier s = equal_fold (trim_space s) ''invalid_grant''"

definition is_error_identifier_byte :: "char \<Rightarrow> bool" where
  "is_error_identifier_byte c =
     (c = CHR ''_'' \<or>
      (let n = of_char c :: nat in 97 \<le> n \<and> n \<le> 122 \<or> 65 \<le> n \<and> n \<le> 90 \<or> 48 \<le> n \<and> n \<le> 57))"

text \<open>The loop tries every occurrence; \<open>prev\<close> is the byte before the current offset.\<close>

fun bounded_identifier :: "char option \<Rightarrow> string \<Rightarrow> string \<Rightarrow> bool" where
  "bounded_identifier prev ident [] = False"
| "bounded_identifier prev ident (c # cs) =
     (prefix ident (c # cs) \<and>
      \<not> (case prev of None \<Rightarrow> False | Some p \<Rightarrow> is_error_identifier_byte p) \<and>
      \<not> (case drop (length ident) (c # cs) of [] \<Rightarrow> False | n # _ \<Rightarrow> is_error_identifier_byte n)
      \<or> bounded_identifier (Some c) ident cs)"

definition contains_bounded_error_identifier :: "string \<Rightarrow> string \<Rightarrow> bool" where
  "contains_bounded_error_identifier m ident = bounded_identifier None (to_lower ident) (to_lower m)"

text \<open>A decoded JSON value; the key and the value of an object field are looked at together.\<close>

datatype json = JNull | JBool bool | JNumber string | JString string | JArray "json list" | JObject "(string \<times> json) list"

definition invalid_grant_field :: "string \<Rightarrow> string \<Rightarrow> bool" where
  "invalid_grant_field key text =
     (let k = to_lower (trim_space key) in
      k \<in> {''error'', ''code'', ''type''} \<and> is_invalid_grant_identifier text \<or>
      k \<in> {''message'', ''error_description'', ''description''} \<and>
        contains_bounded_error_identifier text ''invalid_grant'')"

fun contains_structured_invalid_grant :: "json \<Rightarrow> bool" where
  "contains_structured_invalid_grant (JObject members) =
     list_ex (\<lambda>(k, v). (case v of JString t \<Rightarrow> invalid_grant_field k t | _ \<Rightarrow> False) \<or>
                       contains_structured_invalid_grant v) members"
| "contains_structured_invalid_grant (JArray items) = list_ex contains_structured_invalid_grant items"
| "contains_structured_invalid_grant _ = False"

definition is_invalid_grant_error_message :: "(string \<Rightarrow> json option) \<Rightarrow> string \<Rightarrow> bool" where
  "is_invalid_grant_error_message js m =
     (case js (trim_space m) of
        Some payload \<Rightarrow> contains_structured_invalid_grant payload
      | None \<Rightarrow> contains_bounded_error_identifier m ''invalid_grant'')"

definition is_invalid_grant_result_error :: "(string \<Rightarrow> json option) \<Rightarrow> auth_error option \<Rightarrow> bool" where
  "is_invalid_grant_result_error js err =
     (case err of None \<Rightarrow> False
      | Some e \<Rightarrow> (ae_status e = 400 \<or> ae_status e = 401 \<or> ae_status e = 0) \<and>
          (is_invalid_grant_identifier (ae_code e) \<or> is_invalid_grant_error_message js (ae_message e)))"

definition is_item_not_persisted :: "string \<Rightarrow> bool" where
  "is_item_not_persisted m =
     (let lower = to_lower m in
      contains lower ''item with id'' \<and> contains lower ''not found'' \<and>
      contains lower ''items are not persisted when `store` is set to false'')"

definition is_request_scoped_result_error :: "auth_error option \<Rightarrow> bool" where
  "is_request_scoped_result_error err =
     (case err of None \<Rightarrow> False
      | Some e \<Rightarrow> ae_code e = ErrorCodeRequestScoped \<or> ae_status e = 404 \<and> is_item_not_persisted (ae_message e))"

definition is_connection_lifecycle_message :: "string \<Rightarrow> bool" where
  "is_connection_lifecycle_message m =
     (let lower = to_lower (trim_space m) in
      lower \<noteq> [] \<and>
      (lower \<in> {''context canceled'', ''context deadline exceeded'', ''eof'', ''unexpected eof''} \<or>
       list_ex (contains lower)
         [''websocket: close 1000'', ''websocket: close 1001'', ''websocket: close 1006'', ''unexpected eof'']))"

definition is_connection_lifecycle_result_error :: "auth_error option \<Rightarrow> bool" where
  "is_connection_lifecycle_result_error err =
     (case err of None \<Rightarrow> False
      | Some e \<Rightarrow> ae_code e = ErrorCodeConnectionLifecycle \<or>
          ae_status e = 0 \<and> is_connection_lifecycle_message (ae_message e))"

definition transient_transport_patterns :: "string list" where
  "transient_transport_patterns =
     [''tls: tls handshake'', ''tls handshake timeout'', ''wsarecv'', ''wsasend'',
      ''a connection attempt failed'', ''connection refused'', ''connection reset'', ''i/o timeout'',
      ''no such host'', ''server misbehaving'', ''network is unreachable'', ''no route to host'',
      ''broken pipe'', ''connection aborted'', ''use of closed network connection'', ''unexpected eof'']"

definition is_transient_transport_message :: "string \<Rightarrow> bool" where
  "is_transient_transport_message m =
     (let lower = to_lower (trim_space m) in lower \<noteq> [] \<and> list_ex (contains lower) transient_transport_patterns)"

definition is_transient_transport_result_error :: "auth_error option \<Rightarrow> bool" where
  "is_transient_transport_result_error err =
     (case err of None \<Rightarrow> False
      | Some e \<Rightarrow> ae_code e = ErrorCodeTransientTransport \<or>
          ae_status e = 0 \<and> is_transient_transport_message (ae_message e))"

definition should_skip_credential_cooldown :: "auth_error option \<Rightarrow> bool" where
  "should_skip_credential_cooldown err =
     (\<not> force_cooldown err \<and>
      (is_request_scoped_result_error err \<or> is_connection_lifecycle_result_error err \<or>
       is_transient_transport_result_error err))"

definition has_unauthorized_auth_failure :: "auth \<Rightarrow> bool" where
  "has_unauthorized_auth_failure a =
     (case au_error a of None \<Rightarrow> False
      | Some e \<Rightarrow> au_unavailable a \<and> au_status a = StatusError \<and> au_next_refresh a = zero_time \<and>
          (ae_status e = 401 \<or> equal_fold (ae_code e) ''unauthorized''))"

text \<open>An HTTP status above zero keeps a failure out of the transport classes: no text of an upstream body
  can suppress the cooldown of the credential.\<close>

lemma skip_needs_code_or_404:
  assumes "should_skip_credential_cooldown (Some e)" and "ae_status e \<noteq> 0" and "ae_status e \<noteq> 404"
  shows "ae_code e \<in> {ErrorCodeRequestScoped, ErrorCodeConnectionLifecycle, ErrorCodeTransientTransport}"
  using assms
  by (auto simp: should_skip_credential_cooldown_def is_request_scoped_result_error_def
      is_connection_lifecycle_result_error_def is_transient_transport_result_error_def)

text \<open>The key of the canonical name of a model is the key of the model.\<close>

lemma canonical_model_key_empty [simp]: "canonical_model_key [] = []"
  by (simp add: canonical_model_key_def trim_eval)

end
