(* ===== verification/Auth_Cooldown.thy ===== *)
theory Auth_Cooldown
  imports Auth_Types
begin

text \<open>
  What the outcome of a request does to a credential (sdk/cliproxy/auth/conductor.go, \<open>MarkResult\<close> and
  the functions it calls): the cooldown of the model and of the credential, the exponential backoff of
  quota errors, the propagation of a credential-wide quota, the watermark that keeps an older success
  from clearing a newer cooldown, and the aggregate over all models. Each function takes and returns
  the credential; the state of one model is read with \<open>model_of\<close> and written with \<open>set_model\<close>.
\<close>

section \<open>Constants\<close>

definition quotaBackoffBase :: duration where "quotaBackoffBase = second"
definition quotaBackoffMax :: duration where "quotaBackoffMax = 30 * minute"
definition minQuotaCooldownFloor :: duration where "minQuotaCooldownFloor = 10 * second"
definition transientErrorCooldown :: duration where "transientErrorCooldown = minute"

lemmas cooldown_constants =
  quotaBackoffBase_def quotaBackoffMax_def minQuotaCooldownFloor_def transientErrorCooldown_def

section \<open>Backoff\<close>

text \<open>\<open>1 << prevLevel\<close> and the product are 64-bit.\<close>

definition next_quota_cooldown :: "int \<Rightarrow> bool \<Rightarrow> duration \<times> int" where
  "next_quota_cooldown level disable =
     (let level = (if level < 0 then 0 else level) in
      if disable then (0, level)
      else
        let cooldown = s64 (quotaBackoffBase * s64 (2 ^ nat level));
            cooldown = (if cooldown < quotaBackoffBase then quotaBackoffBase else cooldown)
        in if cooldown \<ge> quotaBackoffMax then (quotaBackoffMax, level) else (cooldown, level + 1))"

definition quota_cooldown_after_failure :: "quota_state \<Rightarrow> bool \<Rightarrow> instant \<Rightarrow> instant \<times> int" where
  "quota_cooldown_after_failure q disable now =
     (if disable then (zero_time, snd (next_quota_cooldown (qs_backoff q) disable))
      else if qs_next_recover q > now then (qs_next_recover q, qs_backoff q)
      else
        let (cooldown, level) = next_quota_cooldown (qs_backoff q) disable
        in (if cooldown > 0 then now + cooldown else zero_time, level))"

text \<open>\<open>secs\<close>: the configured cooldown of transient errors; zero is the default, a negative one none.\<close>

definition recoverable_failure_retry_after :: "int \<Rightarrow> instant \<Rightarrow> duration option \<Rightarrow> bool \<Rightarrow> instant" where
  "recoverable_failure_retry_after secs now retry disable =
     (if disable then zero_time
      else if secs < 0 then zero_time
      else case retry of
          Some r \<Rightarrow> if r > 0 then now + r
            else if secs = 0 then now + transientErrorCooldown else now + secs * second
        | None \<Rightarrow> if secs = 0 then now + transientErrorCooldown else now + secs * second)"

section \<open>Model states\<close>

definition model_of :: "auth \<Rightarrow> string \<Rightarrow> model_state option" where
  "model_of a k = map_of (au_states a) k"

definition set_model :: "string \<Rightarrow> model_state \<Rightarrow> auth \<Rightarrow> auth" where
  "set_model k s a = a\<lparr>au_states := AList.update k s (au_states a)\<rparr>"

definition fresh_model_state :: model_state where
  "fresh_model_state =
     \<lparr>ms_status = StatusActive, ms_message = [], ms_unavailable = False, ms_next_retry = zero_time,
      ms_error = None, ms_quota = empty_quota, ms_updated_at = zero_time, ms_recorded_seq = 0\<rparr>"

definition merge_model_state :: "model_state \<Rightarrow> model_state \<Rightarrow> model_state" where
  "merge_model_state target source =
     (let newer = ms_updated_at source > ms_updated_at target;
          preferred = (if newer then source else target);
          fallback = (if newer then target else source);
          quota = empty_quota\<lparr>qs_exceeded := qs_exceeded (ms_quota target) \<or> qs_exceeded (ms_quota source),
            qs_reason := qs_reason (ms_quota preferred), qs_next_recover := qs_next_recover (ms_quota target),
            qs_backoff := qs_backoff (ms_quota preferred)\<rparr>;
          quota = merge_quota_observation quota (ms_quota fallback);
          quota = merge_quota_observation quota (ms_quota preferred);
          quota = (if qs_next_recover (ms_quota fallback) > qs_next_recover quota
                   then quota\<lparr>qs_next_recover := qs_next_recover (ms_quota fallback)\<rparr> else quota)
      in \<lparr>ms_status = ms_status preferred, ms_message = ms_message preferred,
          ms_unavailable = (ms_unavailable target \<or> ms_unavailable source),
          ms_next_retry = (if ms_next_retry fallback > ms_next_retry target
                           then ms_next_retry fallback else ms_next_retry target),
          ms_error = ms_error preferred, ms_quota = quota, ms_updated_at = ms_updated_at preferred,
          ms_recorded_seq = (if ms_recorded_seq source > ms_recorded_seq target
                             then ms_recorded_seq source else ms_recorded_seq target)\<rparr>)"

definition stored_key :: "string \<Rightarrow> string" where
  "stored_key model = (let k = canonical_model_key model in if k = [] then trim_space model else k)"

definition normalize_step :: "(string \<times> model_state) list \<Rightarrow> string \<times> model_state \<Rightarrow> (string \<times> model_state) list" where
  "normalize_step done entry =
     (let k = stored_key (fst entry) in
      case map_of done k of
        Some existing \<Rightarrow> AList.update k (merge_model_state existing (snd entry)) done
      | None \<Rightarrow> AList.update k (snd entry) done)"

text \<open>The map is replaced only when some key was not canonical.\<close>

definition normalize_model_states :: "auth \<Rightarrow> auth" where
  "normalize_model_states a =
     (if list_all (\<lambda>(m, _). stored_key m = m) (au_states a) then a
      else a\<lparr>au_states := foldl normalize_step [] (au_states a)\<rparr>)"

definition ensure_model_state :: "string \<Rightarrow> auth \<Rightarrow> auth" where
  "ensure_model_state key a =
     (let a = normalize_model_states a in
      case model_of a key of Some s \<Rightarrow> a | None \<Rightarrow> set_model key fresh_model_state a)"

definition reset_model_state :: "instant \<Rightarrow> model_state \<Rightarrow> model_state" where
  "reset_model_state now s =
     s\<lparr>ms_unavailable := False, ms_status := StatusActive, ms_message := [], ms_next_retry := zero_time,
       ms_error := None, ms_quota := apply_cooldown_fields (ms_quota s) empty_quota, ms_recorded_seq := 0,
       ms_updated_at := now\<rparr>"

definition is_model_state_active_cooldown :: "instant \<Rightarrow> model_state \<Rightarrow> bool" where
  "is_model_state_active_cooldown now s =
     (ms_status s = StatusDisabled \<or>
      ms_next_retry s \<noteq> zero_time \<and> ms_next_retry s > now \<or>
      qs_next_recover (ms_quota s) \<noteq> zero_time \<and> qs_next_recover (ms_quota s) > now \<or>
      qs_exceeded (ms_quota s) \<and> qs_next_recover (ms_quota s) = zero_time)"

definition is_auth_active_cooldown :: "instant \<Rightarrow> auth \<Rightarrow> bool" where
  "is_auth_active_cooldown now a =
     (\<not> (au_disabled a \<or> au_status a = StatusDisabled) \<and>
      (au_next_retry a \<noteq> zero_time \<and> au_next_retry a > now \<or>
       qs_next_recover (au_quota a) \<noteq> zero_time \<and> qs_next_recover (au_quota a) > now \<or>
       qs_exceeded (au_quota a) \<and> qs_next_recover (au_quota a) = zero_time))"

section \<open>The aggregate\<close>

definition credential_quota :: string where "credential_quota = ''credential_quota''"

definition live_credential_quota :: "instant \<Rightarrow> auth \<Rightarrow> bool" where
  "live_credential_quota now a \<longleftrightarrow>
     qs_reason (au_quota a) = credential_quota \<and> qs_next_recover (au_quota a) > now"

definition clear_aggregated_availability :: "auth \<Rightarrow> auth" where
  "clear_aggregated_availability a =
     a\<lparr>au_unavailable := False, au_next_retry := zero_time,
       au_quota := apply_cooldown_fields (au_quota a) empty_quota\<rparr>"

text \<open>An expired deadline is cleared on the way.\<close>

definition clear_expired :: "instant \<Rightarrow> model_state \<Rightarrow> model_state" where
  "clear_expired now s =
     (if ms_status s \<noteq> StatusDisabled \<and> ms_unavailable s \<and> ms_next_retry s \<noteq> zero_time \<and> \<not> ms_next_retry s > now
      then s\<lparr>ms_unavailable := False, ms_next_retry := zero_time\<rparr> else s)"

definition state_unavailable :: "instant \<Rightarrow> model_state \<Rightarrow> bool" where
  "state_unavailable now s =
     (ms_status s = StatusDisabled \<or> ms_unavailable s \<and> ms_next_retry s \<noteq> zero_time \<and> ms_next_retry s > now)"

record aggregate =
  ag_all :: bool
  ag_earliest :: instant
  ag_exceeded :: bool
  ag_recover :: instant
  ag_level :: int

definition aggregate_step :: "instant \<Rightarrow> aggregate \<Rightarrow> model_state \<Rightarrow> aggregate" where
  "aggregate_step now g s =
     (let retry = ms_next_retry s;
          g = (if ms_status s \<noteq> StatusDisabled \<and> state_unavailable now s \<and>
                  (ag_earliest g = zero_time \<or> retry < ag_earliest g)
               then g\<lparr>ag_earliest := retry\<rparr> else g);
          g = (if state_unavailable now s then g else g\<lparr>ag_all := False\<rparr>)
      in if qs_exceeded (ms_quota s)
         then let recover = qs_next_recover (ms_quota s) in
           g\<lparr>ag_exceeded := True,
             ag_recover := (if ag_recover g = zero_time \<or> recover \<noteq> zero_time \<and> recover < ag_recover g
                            then recover else ag_recover g),
             ag_level := (if qs_backoff (ms_quota s) > ag_level g then qs_backoff (ms_quota s) else ag_level g)\<rparr>
         else g)"

definition aggregate_quota :: "instant \<Rightarrow> aggregate \<Rightarrow> quota_state \<Rightarrow> quota_state" where
  "aggregate_quota now g q =
     (if ag_exceeded g then
        q\<lparr>qs_exceeded := True, qs_reason := ''quota'',
          qs_next_recover := (if qs_next_recover q > ag_recover g then qs_next_recover q else ag_recover g),
          qs_backoff := ag_level g\<rparr>
      else if qs_exceeded q \<and> qs_next_recover q > now then q
      else apply_cooldown_fields q empty_quota)"

definition update_aggregated_availability :: "instant \<Rightarrow> auth \<Rightarrow> auth" where
  "update_aggregated_availability now a =
     (if qs_exceeded (au_quota a) \<and> live_credential_quota now a then a\<lparr>au_unavailable := True\<rparr>
      else if au_states a = [] then clear_aggregated_availability a
      else
        let g = foldl (\<lambda>g (_, s). aggregate_step now g s)
              \<lparr>ag_all = True, ag_earliest = zero_time, ag_exceeded = False, ag_recover = zero_time, ag_level = 0\<rparr>
              (au_states a)
        in a\<lparr>au_states := map (apsnd (clear_expired now)) (au_states a),
             au_unavailable := ag_all g,
             au_next_retry := (if ag_all g then ag_earliest g else zero_time),
             au_quota := aggregate_quota now g (au_quota a)\<rparr>)"

definition has_model_error :: "instant \<Rightarrow> auth \<Rightarrow> bool" where
  "has_model_error now a =
     list_ex (\<lambda>(_, s). ms_error s \<noteq> None \<or>
        ms_status s = StatusError \<and> ms_unavailable s \<and> (ms_next_retry s = zero_time \<or> ms_next_retry s > now))
       (au_states a)"

definition clear_auth_state_on_success :: "instant \<Rightarrow> auth \<Rightarrow> auth" where
  "clear_auth_state_on_success now a =
     a\<lparr>au_unavailable := False, au_status := StatusActive, au_message := [],
       au_quota := apply_cooldown_fields (au_quota a) empty_quota, au_error := None,
       au_next_retry := zero_time, au_recorded_seq := 0, au_updated_at := now\<rparr>"

section \<open>Results\<close>

record exec_result =
  rs_model :: string
  rs_success :: bool
  rs_retry_after :: "duration option"
  rs_credential_scope :: bool
  rs_error :: "auth_error option"
  rs_request_scoped :: bool
  rs_execution_seq :: nat

text \<open>What \<open>MarkResult\<close> reads besides: cooling disabled for this credential, the transient cooldown, the
  current execution sequence and the clock.\<close>

record cooldown_policy =
  cp_disabled :: bool
  cp_transient_seconds :: int
  cp_current_seq :: nat
  cp_now :: instant
  cp_json :: "string \<Rightarrow> json option"

text \<open>What it asks of the model registry.\<close>

record registry_effects =
  rf_resume :: bool
  rf_suspend :: "string option"
  rf_clear_quota :: bool
  rf_set_quota :: bool

definition no_effects :: registry_effects where
  "no_effects = \<lparr>rf_resume = False, rf_suspend = None, rf_clear_quota = False, rf_set_quota = False\<rparr>"

definition positive_retry :: "duration option \<Rightarrow> duration option" where
  "positive_retry r = (case r of Some d \<Rightarrow> if d > 0 then Some d else None | None \<Rightarrow> None)"

definition floor_cooldown :: "duration \<Rightarrow> duration" where
  "floor_cooldown d = (if d < minQuotaCooldownFloor then minQuotaCooldownFloor else d)"

definition transient_statuses :: "int list" where
  "transient_statuses = [408, 500, 502, 503, 504, 520, 521, 522, 523, 524, 525, 526]"

text \<open>Cooling is off for the credential, and the failure does not force it.\<close>

definition cooling_off :: "cooldown_policy \<Rightarrow> exec_result \<Rightarrow> bool" where
  "cooling_off p r \<longleftrightarrow> cp_disabled p \<and> \<not> force_cooldown (rs_error r)"

section \<open>A failure of one model\<close>

text \<open>Every failure but a quota error: the deadline, and why the model is suspended.\<close>

definition failure_deadline :: "cooldown_policy \<Rightarrow> bool \<Rightarrow> exec_result \<Rightarrow> instant \<times> string option" where
  "failure_deadline p disable r =
     (let now = cp_now p; status = status_code_of (rs_error r) in
      if is_model_support_result_error (rs_error r) then
        if disable then (zero_time, None)
        else (case positive_retry (rs_retry_after r) of
            Some d \<Rightarrow> (now + d, None)
          | None \<Rightarrow> (now + 12 * hour, Some ''model_not_supported''))
      else if is_invalid_grant_result_error (cp_json p) (rs_error r) then
        if disable then (zero_time, None) else (now + 30 * minute, Some ''invalid_grant'')
      else if status = 401 then
        if disable then (zero_time, None) else (now + 30 * minute, Some ''unauthorized'')
      else if status = 402 \<or> status = 403 then
        if disable then (zero_time, None) else (now + 30 * minute, Some ''payment_required'')
      else if status = 404 then
        if disable then (zero_time, None)
        else (case positive_retry (rs_retry_after r) of
            Some d \<Rightarrow> (now + d, None)
          | None \<Rightarrow> (now + 12 * hour, Some ''not_found''))
      else if status \<in> set transient_statuses then
        (recoverable_failure_retry_after (cp_transient_seconds p) now (rs_retry_after r) disable, None)
      else (zero_time, None))"

definition is_quota_failure :: "cooldown_policy \<Rightarrow> exec_result \<Rightarrow> bool" where
  "is_quota_failure p r \<longleftrightarrow>
     \<not> is_model_support_result_error (rs_error r) \<and> \<not> is_invalid_grant_result_error (cp_json p) (rs_error r) \<and>
     status_code_of (rs_error r) = 429"

definition credential_quota_active :: "auth \<Rightarrow> bool" where
  "credential_quota_active a \<longleftrightarrow> qs_exceeded (au_quota a) \<and> qs_reason (au_quota a) = credential_quota"

text \<open>A quota error: the recovery time by this failure, the one of the model, and the backoff level.\<close>

definition quota_deadline :: "cooldown_policy \<Rightarrow> bool \<Rightarrow> exec_result \<Rightarrow> auth \<Rightarrow> quota_state \<Rightarrow> instant \<times> instant \<times> int" where
  "quota_deadline p disable r a q =
     (let now = cp_now p;
          level0 = (if rs_credential_scope r
                    then (if credential_quota_active a then qs_backoff (au_quota a) else 0)
                    else qs_backoff q)
      in if disable then (zero_time, zero_time, level0)
         else
           let (next, level) =
                 (case rs_retry_after r of
                    Some d \<Rightarrow> (now + floor_cooldown d, level0)
                  | None \<Rightarrow> quota_cooldown_after_failure
                      (if rs_credential_scope r
                       then (if credential_quota_active a then au_quota a
                             else q\<lparr>qs_next_recover := zero_time, qs_backoff := 0\<rparr>)
                       else q) disable now)
           in (next, if qs_exceeded q \<and> qs_next_recover q > next then qs_next_recover q else next, level))"

definition quota_fields :: "string \<Rightarrow> instant \<Rightarrow> int \<Rightarrow> quota_state" where
  "quota_fields reason next level =
     empty_quota\<lparr>qs_exceeded := True, qs_reason := reason, qs_next_recover := next, qs_backoff := level\<rparr>"

text \<open>The credential-wide quota, on a sibling of the model and on the credential.\<close>

definition propagate_to_sibling :: "instant \<Rightarrow> int \<Rightarrow> model_state \<Rightarrow> model_state" where
  "propagate_to_sibling next level s =
     (let quota_next = (if qs_exceeded (ms_quota s) \<and> qs_next_recover (ms_quota s) > next
                        then qs_next_recover (ms_quota s) else next);
          retry = (if ms_next_retry s \<noteq> zero_time \<and> ms_next_retry s > quota_next then ms_next_retry s else quota_next)
      in s\<lparr>ms_unavailable := True, ms_status := StatusError, ms_next_retry := retry,
           ms_quota := apply_cooldown_fields (ms_quota s) (quota_fields credential_quota quota_next level)\<rparr>)"

definition propagate_to_auth :: "instant \<Rightarrow> int \<Rightarrow> auth \<Rightarrow> auth" where
  "propagate_to_auth next level a =
     (let auth_next = (if credential_quota_active a \<and> qs_next_recover (au_quota a) > next
                       then qs_next_recover (au_quota a) else next)
      in a\<lparr>au_unavailable := True,
           au_quota := apply_cooldown_fields (au_quota a) (quota_fields credential_quota auth_next level),
           au_next_retry := auth_next\<rparr>)"

definition siblings :: "string \<Rightarrow> (model_state \<Rightarrow> model_state) \<Rightarrow> auth \<Rightarrow> auth" where
  "siblings key f a = a\<lparr>au_states := map (\<lambda>(k, s). (k, if k = key then s else f s)) (au_states a)\<rparr>"

text \<open>The cooldown a failure gives the model: the new state of the model and the credential.\<close>

definition cool_model :: "cooldown_policy \<Rightarrow> bool \<Rightarrow> exec_result \<Rightarrow> string \<Rightarrow> model_state \<Rightarrow> auth \<Rightarrow> model_state \<times> auth" where
  "cool_model p disable r key s a =
     (if is_quota_failure p r then
        let (credential_next, next, level) = quota_deadline p disable r a (ms_quota s);
            s = s\<lparr>ms_next_retry := next,
                  ms_quota := apply_cooldown_fields (ms_quota s) (quota_fields ''quota'' next level)\<rparr>
        in (s, if rs_credential_scope r \<and> \<not> disable
               then propagate_to_auth credential_next level (siblings key (propagate_to_sibling credential_next level) a)
               else a)
      else (s\<lparr>ms_next_retry := fst (failure_deadline p disable r)\<rparr>, a))"

text \<open>A forced cooldown lasts at least a minute, and a live deadline is not shortened by a nonzero one.\<close>

definition extend_deadline :: "cooldown_policy \<Rightarrow> exec_result \<Rightarrow> instant \<Rightarrow> instant \<Rightarrow> instant" where
  "extend_deadline p r prev next =
     (let next = (if force_cooldown (rs_error r) \<and> next = zero_time then cp_now p + minute else next)
      in if next \<noteq> zero_time \<and> prev > next \<and> prev > cp_now p then prev else next)"

definition record_error :: "exec_result \<Rightarrow> model_state \<Rightarrow> model_state" where
  "record_error r s =
     (case rs_error r of None \<Rightarrow> s | Some e \<Rightarrow> s\<lparr>ms_error := Some e, ms_message := ae_message e\<rparr>)"

definition record_auth_error :: "exec_result \<Rightarrow> auth \<Rightarrow> auth" where
  "record_auth_error r a =
     (case rs_error r of None \<Rightarrow> a | Some e \<Rightarrow> a\<lparr>au_error := Some e, au_message := ae_message e\<rparr>)"

definition record_model_failure :: "cooldown_policy \<Rightarrow> exec_result \<Rightarrow> string \<Rightarrow> auth \<Rightarrow> auth" where
  "record_model_failure p r key a =
     (let now = cp_now p;
          disable = cooling_off p r;
          a = ensure_model_state key a;
          s0 = the (model_of a key);
          s = record_error r (s0\<lparr>ms_unavailable := True, ms_status := StatusError, ms_updated_at := now\<rparr>);
          a = record_auth_error r a;
          (s, a) = cool_model p disable r key s a;
          s = s\<lparr>ms_next_retry := extend_deadline p r (ms_next_retry s0) (ms_next_retry s),
                ms_recorded_seq := cp_current_seq p\<rparr>;
          a = set_model key s a;
          a = (if rs_credential_scope r \<and> \<not> disable \<and> status_code_of (rs_error r) = 429
               then siblings key (ms_recorded_seq_update (\<lambda>_. cp_current_seq p)) (a\<lparr>au_recorded_seq := cp_current_seq p\<rparr>)
               else a)
      in a\<lparr>au_status := StatusError, au_updated_at := now\<rparr>)"

definition mark_model_failure :: "cooldown_policy \<Rightarrow> exec_result \<Rightarrow> string \<Rightarrow> auth \<Rightarrow> auth" where
  "mark_model_failure p r key a = update_aggregated_availability (cp_now p) (record_model_failure p r key a)"

definition failure_effects :: "cooldown_policy \<Rightarrow> exec_result \<Rightarrow> registry_effects" where
  "failure_effects p r =
     (let disable = cooling_off p r in
      if is_quota_failure p r then
        (if disable then no_effects else no_effects\<lparr>rf_suspend := Some ''quota'', rf_set_quota := True\<rparr>)
      else no_effects\<lparr>rf_suspend := snd (failure_deadline p disable r)\<rparr>)"

section \<open>A failure without a model\<close>

definition apply_auth_failure_state :: "cooldown_policy \<Rightarrow> exec_result \<Rightarrow> auth \<Rightarrow> auth" where
  "apply_auth_failure_state p r a =
     (if should_skip_credential_cooldown (rs_error r) then a
      else
        let now = cp_now p;
            disable = cooling_off p r;
            prev = au_next_retry a;
            status = status_code_of (rs_error r);
            a = a\<lparr>au_unavailable := True, au_status := StatusError, au_updated_at := now\<rparr>;
            a = (case rs_error r of None \<Rightarrow> a
                 | Some e \<Rightarrow> a\<lparr>au_error := Some e,
                     au_message := (if ae_message e = [] then au_message a else ae_message e)\<rparr>);
            a = (if status = 401 then
                   a\<lparr>au_message := ''unauthorized'',
                     au_next_retry := (if disable then zero_time else now + 30 * minute)\<rparr>
                 else if status = 402 \<or> status = 403 then
                   a\<lparr>au_message := ''payment_required'',
                     au_next_retry := (if disable then zero_time else now + 30 * minute)\<rparr>
                 else if status = 404 then
                   a\<lparr>au_message := ''not_found'',
                     au_next_retry := (if disable then zero_time
                       else (case positive_retry (rs_retry_after r) of Some d \<Rightarrow> now + d | None \<Rightarrow> now + 12 * hour))\<rparr>
                 else if status = 429 then
                   (let (next, level) =
                          (if disable then (zero_time, qs_backoff (au_quota a))
                           else case rs_retry_after r of
                               Some d \<Rightarrow> (now + floor_cooldown d, qs_backoff (au_quota a))
                             | None \<Rightarrow> quota_cooldown_after_failure (au_quota a) disable now);
                        next = (if \<not> disable \<and> qs_next_recover (au_quota a) > next
                                then qs_next_recover (au_quota a) else next)
                    in a\<lparr>au_message := ''quota exhausted'',
                         au_quota := apply_cooldown_fields (au_quota a) (quota_fields ''quota'' next level),
                         au_next_retry := next\<rparr>)
                 else if status \<in> set transient_statuses then
                   (let next = recoverable_failure_retry_after (cp_transient_seconds p) now (rs_retry_after r) disable
                    in a\<lparr>au_message := ''transient upstream error'', au_next_retry := next,
                         au_unavailable := (next \<noteq> zero_time)\<rparr>)
                 else a\<lparr>au_message := (if au_message a = [] then ''request failed'' else au_message a)\<rparr>);
            next = (if au_next_retry a \<noteq> zero_time \<and> prev > au_next_retry a \<and> prev > now then prev else au_next_retry a)
        in a\<lparr>au_next_retry := (if force_cooldown (rs_error r) \<and> next = zero_time then now + minute else next)\<rparr>)"

section \<open>The result of an execution\<close>

definition retain_model_cooldown :: "cooldown_policy \<Rightarrow> exec_result \<Rightarrow> string \<Rightarrow> auth \<Rightarrow> bool" where
  "retain_model_cooldown p r key a =
     (key \<noteq> [] \<and> rs_execution_seq r > 0 \<and>
      (case model_of a key of None \<Rightarrow> False
       | Some s \<Rightarrow> is_model_state_active_cooldown (cp_now p) s \<and> ms_recorded_seq s > 0 \<and>
           rs_execution_seq r \<le> ms_recorded_seq s))"

definition retain_auth_cooldown :: "cooldown_policy \<Rightarrow> exec_result \<Rightarrow> string \<Rightarrow> auth \<Rightarrow> bool" where
  "retain_auth_cooldown p r key a =
     (key = [] \<and> rs_execution_seq r > 0 \<and> is_auth_active_cooldown (cp_now p) a \<and> au_recorded_seq a > 0 \<and>
      rs_execution_seq r \<le> au_recorded_seq a)"

definition mark_model_success :: "instant \<Rightarrow> string \<Rightarrow> auth \<Rightarrow> auth" where
  "mark_model_success now key a =
     (let a = ensure_model_state key a;
          a = set_model key (reset_model_state now (the (model_of a key))) a;
          a = update_aggregated_availability now a;
          a = (if has_model_error now a then a
               else a\<lparr>au_error := None, au_message := [], au_status := StatusActive\<rparr>)
      in a\<lparr>au_updated_at := now\<rparr>)"

text \<open>The key of the state: the code canonicalises the name of the model twice.\<close>

definition result_key :: "exec_result \<Rightarrow> string" where
  "result_key r = canonical_model_key (canonical_model_key (rs_model r))"

definition mark_success :: "cooldown_policy \<Rightarrow> exec_result \<Rightarrow> auth \<Rightarrow> registry_effects \<times> auth" where
  "mark_success p r a =
     (let key = result_key r in
      if live_credential_quota (cp_now p) a then (no_effects, a)
      else if retain_model_cooldown p r key a \<or> retain_auth_cooldown p r key a then (no_effects, a)
      else if key \<noteq> [] then
        (no_effects\<lparr>rf_resume := True, rf_clear_quota := True\<rparr>, mark_model_success (cp_now p) key a)
      else (no_effects, clear_auth_state_on_success (cp_now p) a))"

definition mark_failure :: "cooldown_policy \<Rightarrow> exec_result \<Rightarrow> auth \<Rightarrow> registry_effects \<times> auth" where
  "mark_failure p r a =
     (let key = result_key r in
      if key \<noteq> [] then (failure_effects p r, mark_model_failure p r key a)
      else (no_effects, (apply_auth_failure_state p r a)\<lparr>au_recorded_seq := cp_current_seq p\<rparr>))"

definition mark_result :: "cooldown_policy \<Rightarrow> exec_result \<Rightarrow> auth \<Rightarrow> registry_effects \<times> auth" where
  "mark_result p r a =
     (if \<not> rs_success r \<and> (rs_request_scoped r \<or> should_skip_credential_cooldown (rs_error r)) then (no_effects, a)
      else if rs_success r then mark_success p r (a\<lparr>au_success := s64 (au_success a + 1)\<rparr>)
      else mark_failure p r (a\<lparr>au_failed := s64 (au_failed a + 1)\<rparr>))"

section \<open>Reading and writing model states\<close>

lemma map_of_map_keyed: "map_of (map (\<lambda>(k, v). (k, f k v)) xs) j = map_option (f j) (map_of xs j)"
  by (induction xs) auto

lemma model_of_set_model [simp]: "model_of (set_model k s a) j = (if j = k then Some s else model_of a j)"
  by (simp add: model_of_def set_model_def update_conv')

lemma model_of_siblings [simp]:
  "model_of (siblings key f a) j = map_option (\<lambda>s. if j = key then s else f s) (model_of a j)"
  using map_of_map_keyed [of "\<lambda>k s. if k = key then s else f s" "au_states a" j]
  by (simp add: model_of_def siblings_def)

lemma siblings_fields [simp]:
  "au_quota (siblings key f a) = au_quota a" "au_next_retry (siblings key f a) = au_next_retry a"
  "au_unavailable (siblings key f a) = au_unavailable a" "au_recorded_seq (siblings key f a) = au_recorded_seq a"
  by (simp_all add: siblings_def)

lemma set_model_fields [simp]:
  "au_quota (set_model k s a) = au_quota a" "au_next_retry (set_model k s a) = au_next_retry a"
  "au_unavailable (set_model k s a) = au_unavailable a" "au_recorded_seq (set_model k s a) = au_recorded_seq a"
  by (simp_all add: set_model_def)

lemma model_of_upd [simp]:
  "model_of (a\<lparr>au_status := x\<rparr>) k = model_of a k" "model_of (a\<lparr>au_updated_at := t\<rparr>) k = model_of a k"
  "model_of (a\<lparr>au_recorded_seq := n\<rparr>) k = model_of a k" "model_of (a\<lparr>au_quota := q\<rparr>) k = model_of a k"
  "model_of (a\<lparr>au_unavailable := b\<rparr>) k = model_of a k" "model_of (a\<lparr>au_next_retry := t\<rparr>) k = model_of a k"
  "model_of (a\<lparr>au_error := e\<rparr>) k = model_of a k" "model_of (a\<lparr>au_message := m\<rparr>) k = model_of a k"
  by (simp_all add: model_of_def)

lemma model_of_record_auth_error [simp]: "model_of (record_auth_error r a) k = model_of a k"
  by (simp add: record_auth_error_def split: option.split)

lemma record_auth_error_quota [simp]: "au_quota (record_auth_error r a) = au_quota a"
  by (simp add: record_auth_error_def split: option.split)

lemma model_of_propagate [simp]: "model_of (propagate_to_auth n l a) k = model_of a k"
  by (simp add: propagate_to_auth_def Let_def)

lemma model_of_update_aggregated:
  "model_of (update_aggregated_availability now a) k =
     (if qs_exceeded (au_quota a) \<and> live_credential_quota now a then model_of a k
      else map_option (clear_expired now) (model_of a k))"
proof -
  have "map_of (map (apsnd (clear_expired now)) xs) k = map_option (clear_expired now) (map_of xs k)" for xs
    by (induction xs) auto
  then show ?thesis
    by (auto simp: update_aggregated_availability_def Let_def model_of_def clear_aggregated_availability_def)
qed

lemma clear_expired_live: "ms_next_retry s > now \<or> ms_next_retry s = zero_time \<Longrightarrow> clear_expired now s = s"
  by (auto simp: clear_expired_def)

lemma ensure_model_state_Some: "\<exists>s. model_of (ensure_model_state key a) key = Some s"
  by (auto simp: ensure_model_state_def Let_def split: option.splits)

text \<open>The state of the failed model before the aggregate is computed.\<close>

definition model_deadline :: "cooldown_policy \<Rightarrow> bool \<Rightarrow> exec_result \<Rightarrow> auth \<Rightarrow> quota_state \<Rightarrow> instant" where
  "model_deadline p disable r a q =
     (if is_quota_failure p r then fst (snd (quota_deadline p disable r a q)) else fst (failure_deadline p disable r))"

lemma record_error_fields [simp]:
  "ms_quota (record_error r s) = ms_quota s" "ms_next_retry (record_error r s) = ms_next_retry s"
  "ms_unavailable (record_error r s) = ms_unavailable s" "ms_status (record_error r s) = ms_status s"
  "ms_recorded_seq (record_error r s) = ms_recorded_seq s"
  by (simp_all add: record_error_def split: option.split)

lemma record_model_failure_state:
  assumes "model_of (ensure_model_state key a) key = Some s0"
  shows "\<exists>s. model_of (record_model_failure p r key a) key = Some s \<and>
    ms_unavailable s \<and> ms_status s = StatusError \<and> ms_recorded_seq s = cp_current_seq p \<and>
    ms_next_retry s = extend_deadline p r (ms_next_retry s0)
      (model_deadline p (cooling_off p r) r (record_auth_error r (ensure_model_state key a)) (ms_quota s0))"
proof -
  let ?a = "record_auth_error r (ensure_model_state key a)"
  let ?s = "record_error r (s0\<lparr>ms_unavailable := True, ms_status := StatusError, ms_updated_at := cp_now p\<rparr>)"
  obtain s1 a1 where c: "cool_model p (cooling_off p r) r key ?s ?a = (s1, a1)" by fastforce
  have s1: "ms_unavailable s1" "ms_status s1 = StatusError"
    "ms_next_retry s1 = model_deadline p (cooling_off p r) r ?a (ms_quota s0)"
    using c by (auto simp: cool_model_def model_deadline_def split_beta Let_def split: if_splits)
  have "model_of (record_model_failure p r key a) key = Some (s1\<lparr>ms_next_retry :=
      extend_deadline p r (ms_next_retry s0) (ms_next_retry s1), ms_recorded_seq := cp_current_seq p\<rparr>)"
    using assms by (simp add: record_model_failure_def Let_def c)
  then show ?thesis using s1 by auto
qed

section \<open>Backoff\<close>

lemma s64_mult_base_small: "0 \<le> l \<Longrightarrow> l \<le> 33 \<Longrightarrow> s64 (quotaBackoffBase * s64 (2 ^ nat l)) = quotaBackoffBase * 2 ^ nat l"
proof -
  assume l: "0 \<le> l" "l \<le> 33"
  then have "(2 :: int) ^ nat l \<le> 2 ^ 33" by (intro power_increasing) auto
  then have "in_s64 (2 ^ nat l)" "in_s64 (quotaBackoffBase * 2 ^ nat l)"
    using zero_le_power [of "2 :: int" "nat l"]
    unfolding in_s64_def int64_min_def int64_max_def cooldown_constants time_simps by (simp_all, linarith+)
  then show ?thesis by (simp add: s64_id)
qed

lemma s64_eq_0: "x mod 2 ^ 64 = 0 \<Longrightarrow> s64 x = 0"
  by (simp add: s64_def mod_add_left_eq [symmetric])

lemma s64_mult_base_large:
  assumes "55 \<le> l"
  shows "s64 (quotaBackoffBase * s64 (2 ^ nat l)) = 0"
proof (rule s64_eq_0)
  have dvd55: "(2 :: int) ^ 55 dvd s64 (2 ^ nat l)"
  proof -
    have a: "(2 :: int) ^ 55 dvd 2 ^ nat l" using assms by (intro le_imp_power_dvd) simp
    have "(2 :: int) ^ 55 dvd (2 ^ nat l + 2 ^ 63) mod 2 ^ 64"
      by (rule dvd_mod) (use a in \<open>simp_all add: dvd_add_left_iff\<close>)
    then show ?thesis by (simp add: s64_def dvd_diff)
  qed
  then obtain k where "s64 (2 ^ nat l) = 2 ^ 55 * k" ..
  then have "quotaBackoffBase * s64 (2 ^ nat l) = 2 ^ 64 * (1953125 * k)"
    by (simp add: cooldown_constants time_simps)
  then show "quotaBackoffBase * s64 (2 ^ nat l) mod 2 ^ 64 = 0" by simp
qed

lemma next_quota_cooldown_bounds:
  assumes "next_quota_cooldown level False = (c, level')"
  shows "quotaBackoffBase \<le> c" and "c \<le> quotaBackoffMax" and "level' = max 0 level \<or> level' = max 0 level + 1"
  using assms
  by (auto simp: next_quota_cooldown_def Let_def cooldown_constants time_simps split: if_splits)

text \<open>The backoff of quota errors: with cooling enabled the cooldown is always between one second and
  thirty minutes, whatever the level; up to level 33 it is exactly the power of two capped at thirty
  minutes, and a level that starts at most 11 stays at most 11; but from level 55 on (only a restored
  record can hold one) the 64-bit product wraps to zero and the cooldown collapses to one second.\<close>

theorem next_quota_cooldown_range:
  assumes "next_quota_cooldown level False = (c, level')"
  shows "quotaBackoffBase \<le> c \<and> c \<le> quotaBackoffMax \<and>
    (0 \<le> level \<and> level \<le> 33 \<longrightarrow> c = min quotaBackoffMax (quotaBackoffBase * 2 ^ nat level)) \<and>
    (level \<le> 11 \<longrightarrow> level' \<le> 11) \<and>
    (55 \<le> level \<longrightarrow> c = quotaBackoffBase \<and> level' = level + 1)"
proof (intro conjI impI)
  show "quotaBackoffBase \<le> c" and "c \<le> quotaBackoffMax" using next_quota_cooldown_bounds [OF assms] by simp_all
  have pos: "quotaBackoffBase * 2 ^ nat level \<ge> quotaBackoffBase" by (simp add: cooldown_constants time_simps)
  show "c = min quotaBackoffMax (quotaBackoffBase * 2 ^ nat level)" if "0 \<le> level \<and> level \<le> 33"
    using assms s64_mult_base_small [of level] that pos
    by (auto simp: next_quota_cooldown_def Let_def split: if_splits)
  show "c = quotaBackoffBase" and "level' = level + 1" if "55 \<le> level"
    using assms s64_mult_base_large [OF that] that
    by (auto simp: next_quota_cooldown_def Let_def cooldown_constants time_simps split: if_splits)
  show "level' \<le> 11" if "level \<le> 11"
  proof (cases "level = 11")
    case True
    then have "s64 (quotaBackoffBase * s64 (2 ^ nat level)) = quotaBackoffBase * 2048"
      using s64_mult_base_small [of level] by simp
    with assms True show ?thesis
      by (auto simp: next_quota_cooldown_def Let_def cooldown_constants time_simps split: if_splits)
  next
    case False
    with that next_quota_cooldown_bounds(3) [OF assms] show ?thesis by auto
  qed
qed

theorem next_quota_cooldown_range_witness:
  "next_quota_cooldown 5 False = (32 * second, 6) \<and> 32 * second \<le> quotaBackoffMax"
proof -
  have e: "next_quota_cooldown 5 False = (32 * second, 6)"
    by (simp add: next_quota_cooldown_def Let_def cooldown_constants time_simps s64_def)
  with next_quota_cooldown_range [OF e] show ?thesis by blast
qed

section \<open>Deadlines\<close>

text \<open>The failures that the code gives a cooldown of their own.\<close>

definition is_classified :: "cooldown_policy \<Rightarrow> exec_result \<Rightarrow> bool" where
  "is_classified p r \<longleftrightarrow>
     is_model_support_result_error (rs_error r) \<or> is_invalid_grant_result_error (cp_json p) (rs_error r) \<or>
     status_code_of (rs_error r) \<in> {401, 402, 403, 404, 429} \<or>
     status_code_of (rs_error r) \<in> set transient_statuses \<and> 0 \<le> cp_transient_seconds p"

lemma positive_retry_pos: "positive_retry r = Some d \<Longrightarrow> 0 < d"
  by (simp add: positive_retry_def split: option.splits if_splits)

lemma floor_cooldown_ge: "minQuotaCooldownFloor \<le> floor_cooldown d" "d \<le> floor_cooldown d"
  by (simp_all add: floor_cooldown_def)

lemma quota_cooldown_after_failure_future:
  "fst (quota_cooldown_after_failure q False now) > now"
proof (cases "qs_next_recover q > now")
  case False
  obtain c l where c: "next_quota_cooldown (qs_backoff q) False = (c, l)" by fastforce
  with next_quota_cooldown_bounds(1) [OF c] False show ?thesis
    by (simp add: quota_cooldown_after_failure_def cooldown_constants time_simps)
qed (simp add: quota_cooldown_after_failure_def)

lemma recoverable_future:
  "0 \<le> secs \<Longrightarrow> recoverable_failure_retry_after secs now retry False > now"
  by (cases retry) (auto simp: recoverable_failure_retry_after_def cooldown_constants time_simps)

lemma quota_deadline_future:
  assumes "quota_deadline p False r a q = (credential_next, next, level)"
  shows "cp_now p < credential_next" and "credential_next \<le> next"
    and "rs_retry_after r = Some d \<Longrightarrow> credential_next = cp_now p + floor_cooldown d"
  using assms quota_cooldown_after_failure_future floor_cooldown_ge(1)
  by (auto simp: quota_deadline_def Let_def split_beta cooldown_constants time_simps
      split: option.splits if_splits) (smt (verit))+

lemma failure_deadline_future:
  assumes "is_classified p r" and "\<not> is_quota_failure p r"
  shows "fst (failure_deadline p False r) > cp_now p"
proof -
  have support: "fst (failure_deadline p False r) > cp_now p" if "is_model_support_result_error (rs_error r)"
    using that by (auto simp: failure_deadline_def Let_def time_simps dest: positive_retry_pos split: option.split)
  have grant: "fst (failure_deadline p False r) > cp_now p"
    if "\<not> is_model_support_result_error (rs_error r)" "is_invalid_grant_result_error (cp_json p) (rs_error r)"
    using that by (simp add: failure_deadline_def Let_def time_simps)
  have status: "fst (failure_deadline p False r) > cp_now p"
    if "\<not> is_model_support_result_error (rs_error r)" "\<not> is_invalid_grant_result_error (cp_json p) (rs_error r)"
    using that assms recoverable_future [of "cp_transient_seconds p" "cp_now p" "rs_retry_after r"]
    by (auto simp: failure_deadline_def is_classified_def is_quota_failure_def Let_def time_simps
        transient_statuses_def dest: positive_retry_pos split: option.split)
  show ?thesis using support grant status by blast
qed

lemma model_deadline_future:
  "is_classified p r \<Longrightarrow> model_deadline p False r a q > cp_now p"
  using quota_deadline_future(1,2) [of p r a q] failure_deadline_future [of p r]
  by (cases "quota_deadline p False r a q") (force simp: model_deadline_def)

lemma model_deadline_off: "model_deadline p True r a q = zero_time"
  by (simp add: model_deadline_def quota_deadline_def failure_deadline_def recoverable_failure_retry_after_def Let_def)

lemma model_deadline_unclassified:
  "\<not> is_classified p r \<Longrightarrow> model_deadline p disable r a q = zero_time"
  by (auto simp: is_classified_def is_quota_failure_def model_deadline_def failure_deadline_def Let_def
      recoverable_failure_retry_after_def)

lemma extend_deadline_zero: "\<not> force_cooldown (rs_error r) \<Longrightarrow> extend_deadline p r prev zero_time = zero_time"
  by (simp add: extend_deadline_def)

lemma extend_deadline_future:
  assumes "next > cp_now p" and "0 \<le> cp_now p"
  shows "extend_deadline p r prev next > cp_now p \<and> extend_deadline p r prev next \<ge> prev \<and>
    extend_deadline p r prev next \<ge> next"
  using assms by (auto simp: extend_deadline_def zero_time_def)

lemma forced_model_deadline:
  assumes "force_cooldown (rs_error r)" and "0 \<le> cp_now p"
  shows "extend_deadline p r prev (model_deadline p False r a q) > cp_now p"
proof (cases "is_classified p r")
  case True
  then show ?thesis using extend_deadline_future [OF model_deadline_future assms(2)] by blast
next
  case False
  then show ?thesis
    using assms by (auto simp: model_deadline_unclassified extend_deadline_def zero_time_def time_simps Let_def)
qed

lemma mark_failure_model:
  "result_key r \<noteq> [] \<Longrightarrow> mark_failure p r a = (failure_effects p r, mark_model_failure p r (result_key r) a)"
  by (simp add: mark_failure_def Let_def)

text \<open>C15: What a failure does to the cooldown of its model. With cooling on and a failure the code
  classifies, the model is cooled down until after now, never a shorter time than before, and the
  watermark is the current execution; with cooling off the deadline is cleared. But a failure of no
  class clears a live cooldown too, though cooling is on.\<close>

theorem failure_extends_cooldown:
  assumes "result_key r \<noteq> []" and "0 \<le> cp_now p"
    and "model_of (ensure_model_state (result_key r) a) (result_key r) = Some s0"
    and "mark_failure p r a = (e, b)"
  shows "\<exists>s. model_of b (result_key r) = Some s \<and>
    (\<not> cooling_off p r \<and> is_classified p r \<longrightarrow>
       ms_unavailable s \<and> ms_recorded_seq s = cp_current_seq p \<and>
       ms_next_retry s > cp_now p \<and> ms_next_retry s \<ge> ms_next_retry s0) \<and>
    (cooling_off p r \<longrightarrow> ms_next_retry s = zero_time) \<and>
    (\<not> is_classified p r \<and> \<not> force_cooldown (rs_error r) \<longrightarrow> ms_next_retry s = zero_time)"
proof -
  let ?k = "result_key r"
  let ?d = "model_deadline p (cooling_off p r) r (record_auth_error r (ensure_model_state ?k a)) (ms_quota s0)"
  from record_model_failure_state [OF assms(3), of p] obtain s where s:
    "model_of (record_model_failure p r ?k a) ?k = Some s" "ms_unavailable s" "ms_status s = StatusError"
    "ms_recorded_seq s = cp_current_seq p" "ms_next_retry s = extend_deadline p r (ms_next_retry s0) ?d" by blast
  have "ms_next_retry s > cp_now p \<or> ms_next_retry s = zero_time"
  proof (cases "cooling_off p r \<or> \<not> is_classified p r \<and> \<not> force_cooldown (rs_error r)")
    case True
    then show ?thesis
      by (auto simp: s(5) cooling_off_def model_deadline_off model_deadline_unclassified extend_deadline_zero)
  next
    case False
    then show ?thesis
      using extend_deadline_future [OF model_deadline_future assms(2)] forced_model_deadline [OF _ assms(2)]
      by (auto simp: s(5))
  qed
  then have "model_of b ?k = Some s"
    using assms(1,4) s(1)
    by (auto simp: mark_failure_model mark_model_failure_def model_of_update_aggregated clear_expired_live)
  moreover have "ms_next_retry s > cp_now p \<and> ms_next_retry s \<ge> ms_next_retry s0" if "\<not> cooling_off p r" "is_classified p r"
    using that extend_deadline_future [OF model_deadline_future [OF that(2)] assms(2)] by (simp add: s(5))
  moreover have "ms_next_retry s = zero_time" if "cooling_off p r"
    using that by (simp add: s(5) cooling_off_def model_deadline_off extend_deadline_zero)
  moreover have "ms_next_retry s = zero_time" if "\<not> is_classified p r" "\<not> force_cooldown (rs_error r)"
    using that by (simp add: s(5) model_deadline_unclassified extend_deadline_zero)
  ultimately show ?thesis using s(2,4) by auto
qed

section \<open>Older successes\<close>

lemma model_of_mark_model_success:
  "\<exists>s. model_of (mark_model_success now key a) key = Some s \<and> ms_status s = StatusActive \<and>
     ms_next_retry s = zero_time \<and> \<not> ms_unavailable s \<and> ms_error s = None \<and>
     \<not> qs_exceeded (ms_quota s) \<and> ms_recorded_seq s = 0"
proof -
  let ?s = "reset_model_state now (the (model_of (ensure_model_state key a) key))"
  have "clear_expired now ?s = ?s" by (simp add: clear_expired_def reset_model_state_def)
  then have "model_of (mark_model_success now key a) key = Some ?s"
    by (simp add: mark_model_success_def Let_def model_of_update_aggregated)
  then show ?thesis
    by (simp add: reset_model_state_def apply_cooldown_fields_def empty_quota_def)
qed

lemma model_of_success_count [simp]: "model_of (a\<lparr>au_success := n\<rparr>) k = model_of a k"
  by (simp add: model_of_def)

lemma live_credential_quota_success [simp]: "live_credential_quota t (a\<lparr>au_success := n\<rparr>) = live_credential_quota t a"
  by (simp add: live_credential_quota_def)

lemma retain_by_watermark:
  assumes "model_of a key = Some s" and "key \<noteq> []" and "cp_now p < ms_next_retry s" and "0 \<le> cp_now p"
    and "0 < rs_execution_seq r" and "rs_execution_seq r \<le> ms_recorded_seq s"
  shows "retain_model_cooldown p r key a"
  using assms by (simp add: retain_model_cooldown_def is_model_state_active_cooldown_def zero_time_def)


section \<open>Credential-wide quotas\<close>

lemma propagate_to_sibling_fields:
  "ms_unavailable (propagate_to_sibling n l s)" "ms_next_retry (propagate_to_sibling n l s) \<ge> n"
  "ms_next_retry s > n \<Longrightarrow> 0 \<le> n \<Longrightarrow> ms_next_retry (propagate_to_sibling n l s) \<ge> ms_next_retry s"
  "qs_exceeded (ms_quota (propagate_to_sibling n l s))"
  "qs_next_recover (ms_quota (propagate_to_sibling n l s)) \<ge> n"
  by (auto simp: propagate_to_sibling_def Let_def apply_cooldown_fields_def quota_fields_def zero_time_def)

lemma propagate_to_auth_quota:
  "credential_quota_active (propagate_to_auth n l a)" "qs_next_recover (au_quota (propagate_to_auth n l a)) \<ge> n"
  "au_next_retry (propagate_to_auth n l a) = qs_next_recover (au_quota (propagate_to_auth n l a))"
  "au_unavailable (propagate_to_auth n l a)"
  by (auto simp: propagate_to_auth_def Let_def apply_cooldown_fields_def quota_fields_def credential_quota_active_def)

text \<open>A credential-wide quota error reaches the credential and every model, and does not shorten a cooldown of
  theirs.\<close>

lemma credential_quota_reaches_all:
  assumes "is_quota_failure p r" and "rs_credential_scope r" and "\<not> cooling_off p r"
    and "result_key r \<noteq> []" and "0 \<le> cp_now p" and "mark_failure p r a = (e, b)"
  shows "\<exists>n > cp_now p. (\<forall>d. rs_retry_after r = Some d \<longrightarrow> n = cp_now p + floor_cooldown d) \<and>
    credential_quota_active b \<and> au_unavailable b \<and> au_recorded_seq b = cp_current_seq p \<and>
    qs_next_recover (au_quota b) \<ge> n \<and>
    (\<forall>k s. model_of b k = Some s \<longrightarrow> ms_unavailable s \<and> ms_recorded_seq s = cp_current_seq p \<and> ms_next_retry s \<ge> n \<and>
       (\<forall>s0. model_of (ensure_model_state (result_key r) a) k = Some s0 \<longrightarrow> ms_next_retry s \<ge> ms_next_retry s0))"
proof -
  let ?k = "result_key r"
  let ?a = "ensure_model_state ?k a"
  let ?ea = "record_auth_error r ?a"
  obtain s0 where s0: "model_of ?a ?k = Some s0" using ensure_model_state_Some by blast
  obtain n nxt level where d: "quota_deadline p False r ?ea (ms_quota s0) = (n, nxt, level)"
    by (metis prod_cases3)
  note future = quota_deadline_future [OF d]
  have status: "status_code_of (rs_error r) = 429" using assms(1) by (simp add: is_quota_failure_def)
  from record_model_failure_state [OF s0, of p r] assms(1,3) d obtain s where s:
    "model_of (record_model_failure p r ?k a) ?k = Some s" "ms_unavailable s" "ms_recorded_seq s = cp_current_seq p"
    "ms_next_retry s = extend_deadline p r (ms_next_retry s0) nxt" by (auto simp: model_deadline_def)
  have ext: "ms_next_retry s \<ge> ms_next_retry s0" "ms_next_retry s \<ge> n"
    using extend_deadline_future [of p nxt r "ms_next_retry s0"] future(1,2) assms(5) by (auto simp: s(4))
  let ?b = "record_model_failure p r ?k a"
  have parts: "\<exists>st. ?b = (siblings ?k (ms_recorded_seq_update (\<lambda>_. cp_current_seq p))
       ((set_model ?k st (propagate_to_auth n level (siblings ?k (propagate_to_sibling n level) ?ea)))
         \<lparr>au_recorded_seq := cp_current_seq p\<rparr>))\<lparr>au_status := StatusError, au_updated_at := cp_now p\<rparr>"
    using assms(1-3) d s0 status
    by (simp add: record_model_failure_def cool_model_def Let_def) blast
  then obtain st where b: "?b = (siblings ?k (ms_recorded_seq_update (\<lambda>_. cp_current_seq p))
       ((set_model ?k st (propagate_to_auth n level (siblings ?k (propagate_to_sibling n level) ?ea)))
         \<lparr>au_recorded_seq := cp_current_seq p\<rparr>))\<lparr>au_status := StatusError, au_updated_at := cp_now p\<rparr>" by blast
  let ?pa = "propagate_to_auth n level (siblings ?k (propagate_to_sibling n level) ?ea)"
  have q: "au_quota ?b = au_quota ?pa" "au_recorded_seq ?b = cp_current_seq p" "au_unavailable ?b"
    unfolding b by (simp_all add: propagate_to_auth_quota(4))
  have live: "qs_exceeded (au_quota ?b) \<and> live_credential_quota (cp_now p) ?b"
    using propagate_to_auth_quota(1,2) [of n level "siblings ?k (propagate_to_sibling n level) ?ea"] future(1)
    by (simp add: q(1) live_credential_quota_def credential_quota_active_def)
  have "b = ?b\<lparr>au_unavailable := True\<rparr>"
    using assms(4,6) live by (auto simp: mark_failure_model mark_model_failure_def update_aggregated_availability_def)
  moreover have "ms_unavailable t \<and> ms_recorded_seq t = cp_current_seq p \<and> ms_next_retry t \<ge> n \<and>
       (\<forall>s0. model_of ?a k = Some s0 \<longrightarrow> ms_next_retry t \<ge> ms_next_retry s0)"
    if "model_of ?b k = Some t" for k t
  proof (cases "k = ?k")
    case True
    with that s s0 ext show ?thesis by simp
  next
    case False
    with that obtain u where "model_of ?a k = Some u"
      "t = (propagate_to_sibling n level u)\<lparr>ms_recorded_seq := cp_current_seq p\<rparr>"
      by (auto simp: b)
    moreover have "ms_next_retry (propagate_to_sibling n level u) \<ge> ms_next_retry u"
      using propagate_to_sibling_fields(2) [where n = n and l = level and s = u]
        propagate_to_sibling_fields(3) [where n = n and l = level and s = u] future(1) assms(5) by linarith
    ultimately show ?thesis
      using propagate_to_sibling_fields(1,2) [where n = n and l = level and s = u] by simp
  qed
  ultimately show ?thesis
    using future(1,3) q propagate_to_auth_quota(1,2) [of n level "siblings ?k (propagate_to_sibling n level) ?ea"]
    by (intro exI [of _ n]) (simp add: credential_quota_active_def)
qed

section \<open>Witnesses\<close>

definition demo_auth :: auth where
  "demo_auth =
     \<lparr>au_id = ''a1'', au_provider = ''p'', au_status = StatusActive, au_message = [], au_disabled = False,
      au_unavailable = False, au_attributes = [], au_metadata = [], au_quota = empty_quota, au_error = None,
      au_updated_at = 0, au_next_refresh = 0, au_next_retry = 0,
      au_states = [(''m'', fresh_model_state\<lparr>ms_next_retry := 5000000000000, ms_unavailable := True\<rparr>)],
      au_success = 0, au_failed = 0, au_recorded_seq = 0\<rparr>"

definition demo_policy :: cooldown_policy where
  "demo_policy = \<lparr>cp_disabled = False, cp_transient_seconds = 0, cp_current_seq = 7, cp_now = 1000000000000,
     cp_json = (\<lambda>_. None)\<rparr>"

definition demo_failure :: exec_result where
  "demo_failure = \<lparr>rs_model = ''m'', rs_success = False, rs_retry_after = None, rs_credential_scope = False,
     rs_error = Some \<lparr>ae_code = [], ae_message = [], ae_retryable = False, ae_status = 429\<rparr>,
     rs_request_scoped = False, rs_execution_seq = 6\<rparr>"

lemma demo_key: "canonical_model_key ''m'' = ''m''" "result_key demo_failure = ''m''"
proof -
  show k: "canonical_model_key ''m'' = ''m''"
    by (simp add: canonical_model_key_def parse_suffix_def trim_eval)
  then show "result_key demo_failure = ''m''" by (simp add: result_key_def demo_failure_def)
qed

lemma demo_ensure:
  "model_of (ensure_model_state ''m'' demo_auth) ''m'' =
     Some (fresh_model_state\<lparr>ms_next_retry := 5000000000000, ms_unavailable := True\<rparr>)"
  by (simp add: ensure_model_state_def normalize_model_states_def stored_key_def demo_key demo_auth_def model_of_def)

lemma demo_classified: "is_classified demo_policy demo_failure" "\<not> cooling_off demo_policy demo_failure"
  by (simp_all add: is_classified_def demo_failure_def status_code_of_def cooling_off_def demo_policy_def)

theorem failure_extends_cooldown_witness:
  "\<exists>s. model_of (snd (mark_failure demo_policy demo_failure demo_auth)) ''m'' = Some s \<and>
     ms_unavailable s \<and> ms_next_retry s \<ge> 5000000000000"
proof -
  obtain e b where m: "mark_failure demo_policy demo_failure demo_auth = (e, b)" by fastforce
  from failure_extends_cooldown [OF _ _ _ m] demo_ensure demo_classified show ?thesis
    by (auto simp: demo_key m) (auto simp: demo_policy_def)
qed


end
