(* ===== verification/Auth_Selection.thy ===== *)
theory Auth_Selection
  imports Auth_Cooldown
begin

text \<open>
  Choosing a credential (sdk/cliproxy/auth/selector.go): which credentials are blocked for a model,
  the candidates of the highest priority, and the three rotations: round robin by the last picked
  identifier, smooth weighted round robin with saturating 64-bit credits, and fill-first. The expiry
  of an access token and the usage quota of Kiro credentials, which are read from provider specific
  metadata, are a parameter (\<open>block_hooks\<close>).
\<close>

section \<open>Blocked credentials\<close>

datatype block_reason = BlockNone | BlockCooldown | BlockDisabled | BlockOther

record block_hooks =
  bh_token_expiry :: "auth \<Rightarrow> instant option"
  bh_kiro_blocked :: "auth \<Rightarrow> instant \<Rightarrow> bool \<times> instant"

type_synonym verdict = "bool \<times> block_reason \<times> instant"

text \<open>The deadline of a live cooldown: the recovery time of the quota when that is live.\<close>

definition live_deadline :: "instant \<Rightarrow> quota_state \<Rightarrow> instant \<Rightarrow> instant" where
  "live_deadline now q retry =
     (let next = (if qs_next_recover q \<noteq> zero_time \<and> qs_next_recover q > now then qs_next_recover q else retry)
      in if next < now then now else next)"

definition model_state_block :: "instant \<Rightarrow> model_state \<Rightarrow> verdict" where
  "model_state_block now s =
     (if ms_status s = StatusDisabled then (True, BlockDisabled, zero_time)
      else if \<not> ms_unavailable s then (False, BlockNone, zero_time)
      else if ms_next_retry s = zero_time then (False, BlockNone, zero_time)
      else if ms_next_retry s > now then
        (True, if qs_exceeded (ms_quota s) then BlockCooldown else BlockOther,
         live_deadline now (ms_quota s) (ms_next_retry s))
      else (False, BlockNone, zero_time))"

text \<open>The states of all spellings of one model; \<open>acc\<close> is the verdict so far, none before the first match.\<close>

fun match_states :: "string \<Rightarrow> instant \<Rightarrow> verdict option \<Rightarrow> (string \<times> model_state) list \<Rightarrow> verdict option" where
  "match_states key now acc [] = acc"
| "match_states key now acc ((m, s) # states) =
     (if canonical_model_key m \<noteq> key then match_states key now acc states
      else if ms_status s = StatusDisabled then Some (True, BlockDisabled, zero_time)
      else
        let (blocked, reason, next) = (case acc of None \<Rightarrow> (False, BlockNone, zero_time) | Some v \<Rightarrow> v);
            (state_blocked, state_reason, state_next) = model_state_block now s
        in if \<not> state_blocked then match_states key now (Some (blocked, reason, next)) states
           else if state_next = zero_time then Some (True, state_reason, zero_time)
           else if \<not> blocked \<or> state_next > next \<or> state_next = next \<and> state_reason = BlockCooldown
             then match_states key now (Some (True, state_reason, state_next)) states
           else match_states key now (Some (blocked, reason, next)) states)"

definition is_auth_blocked_for_model :: "block_hooks \<Rightarrow> auth \<Rightarrow> string \<Rightarrow> instant \<Rightarrow> verdict" where
  "is_auth_blocked_for_model h a model now =
     (if au_disabled a \<or> au_status a = StatusDisabled then (True, BlockDisabled, zero_time)
      else if has_unauthorized_auth_failure a then (True, BlockOther, zero_time)
      else if (case bh_token_expiry h a of None \<Rightarrow> False | Some e \<Rightarrow> e \<noteq> zero_time \<and> \<not> e > now)
        then (True, BlockOther, zero_time)
      else if qs_exceeded (au_quota a) \<and> live_credential_quota now a
        then (True, BlockCooldown, qs_next_recover (au_quota a))
      else if fst (bh_kiro_blocked h a now) then
        (let next = snd (bh_kiro_blocked h a now) in
         if next \<noteq> zero_time then (True, BlockCooldown, next) else (True, BlockOther, zero_time))
      else if model \<noteq> [] then
        (case match_states (canonical_model_key model) now None (au_states a) of
           Some v \<Rightarrow> v
         | None \<Rightarrow> (False, BlockNone, zero_time))
      else if au_unavailable a \<and> au_next_retry a > now then
        (True, if qs_exceeded (au_quota a) then BlockCooldown else BlockOther,
         live_deadline now (au_quota a) (au_next_retry a))
      else (False, BlockNone, zero_time))"

section \<open>Candidates\<close>

datatype select_error =
    AuthNotFound
  | ModelCooldown string string duration
  | AuthUnavailable "duration option"

text \<open>The buckets by priority, the number of cooldowns, and the earliest deadline of those that are blocked
  but not disabled.\<close>

record availability =
  av_buckets :: "(int \<times> auth list) list"
  av_cooldowns :: nat
  av_earliest :: instant

definition bucket :: "(int \<times> auth list) list \<Rightarrow> int \<Rightarrow> auth list" where
  "bucket buckets p = (case map_of buckets p of None \<Rightarrow> [] | Some as \<Rightarrow> as)"

definition collect_step :: "block_hooks \<Rightarrow> string \<Rightarrow> instant \<Rightarrow> availability \<Rightarrow> auth \<Rightarrow> availability" where
  "collect_step h model now v a =
     (let (blocked, reason, next) = is_auth_blocked_for_model h a model now in
      if \<not> blocked then
        v\<lparr>av_buckets := AList.update (auth_priority a) (bucket (av_buckets v) (auth_priority a) @ [a]) (av_buckets v)\<rparr>
      else v\<lparr>av_cooldowns := (if reason = BlockCooldown then av_cooldowns v + 1 else av_cooldowns v),
             av_earliest := (if reason \<noteq> BlockDisabled \<and> next > now \<and>
                                (av_earliest v = zero_time \<or> next < av_earliest v)
                             then next else av_earliest v)\<rparr>)"

definition collect_available_by_priority :: "block_hooks \<Rightarrow> auth list \<Rightarrow> string \<Rightarrow> instant \<Rightarrow> availability" where
  "collect_available_by_priority h auths model now =
     foldl (collect_step h model now) \<lparr>av_buckets = [], av_cooldowns = 0, av_earliest = zero_time\<rparr> auths"

fun best_priority :: "int option \<Rightarrow> (int \<times> auth list) list \<Rightarrow> int option" where
  "best_priority best [] = best"
| "best_priority best ((p, _) # buckets) =
     best_priority (case best of None \<Rightarrow> Some p | Some b \<Rightarrow> Some (if p > b then p else b)) buckets"

definition available_from_buckets :: "(int \<times> auth list) list \<Rightarrow> bool \<Rightarrow> auth list" where
  "available_from_buckets buckets all =
     sort_key au_id
       (if all then concat (map snd buckets)
        else case best_priority None buckets of None \<Rightarrow> [] | Some p \<Rightarrow> bucket buckets p)"

definition get_available_auths :: "block_hooks \<Rightarrow> auth list \<Rightarrow> string \<Rightarrow> string \<Rightarrow> instant \<Rightarrow> bool \<Rightarrow> select_error + auth list" where
  "get_available_auths h auths provider model now all =
     (if auths = [] then Inl AuthNotFound
      else
        let v = collect_available_by_priority h auths model now in
        if av_buckets v = [] then
          if av_cooldowns v = length auths \<and> av_earliest v \<noteq> zero_time then
            Inl (ModelCooldown model (if provider = ''mixed'' then [] else provider)
              (let d = time_sub (av_earliest v) now in if d < 0 then 0 else d))
          else Inl (AuthUnavailable
            (if av_earliest v > now then Some (time_sub (av_earliest v) now) else None))
        else Inr (available_from_buckets (av_buckets v) all))"

text \<open>The tier of the highest priority, in the order of the input.\<close>

fun best_tier :: "int \<times> nat \<Rightarrow> auth list \<Rightarrow> int \<times> nat" where
  "best_tier (best, n) [] = (best, n)"
| "best_tier (best, n) (a # as) =
     best_tier (let p = auth_priority a in
                if n = 0 \<or> p > best then (p, 1) else if p = best then (best, n + 1) else (best, n)) as"

definition highest_priority_auths :: "auth list \<Rightarrow> auth list" where
  "highest_priority_auths auths =
     (if length auths \<le> 1 then auths
      else let (best, n) = best_tier (0, 0) auths in
        if n = length auths then auths else filter (\<lambda>a. auth_priority a = best) auths)"

text \<open>\<open>strconv.ParseBool\<close>.\<close>

definition parse_bool :: "string \<Rightarrow> bool option" where
  "parse_bool s =
     (if s \<in> {''1'', ''t'', ''T'', ''TRUE'', ''true'', ''True''} then Some True
      else if s \<in> {''0'', ''f'', ''F'', ''FALSE'', ''false'', ''False''} then Some False
      else None)"

definition auth_websockets_enabled :: "auth \<Rightarrow> bool" where
  "auth_websockets_enabled a =
     (let raw = trim_space (attribute a ''websockets'') in
      case (if raw = [] then None else parse_bool raw) of
        Some b \<Rightarrow> b
      | None \<Rightarrow> (case map_of (au_metadata a) ''websockets'' of
          Some (GBool b) \<Rightarrow> b
        | Some (GString s) \<Rightarrow> parse_bool (trim_space s) = Some True
        | _ \<Rightarrow> False))"

definition prefer_codex_websocket_auths :: "bool \<Rightarrow> string \<Rightarrow> auth list \<Rightarrow> auth list" where
  "prefer_codex_websocket_auths downstream provider available =
     (if available = [] \<or> \<not> downstream \<or> \<not> equal_fold (trim_space provider) ''codex'' then available
      else let ws = filter auth_websockets_enabled available in if ws = [] then available else ws)"

section \<open>Rotations\<close>

definition rotation_key :: "string \<Rightarrow> string \<Rightarrow> string" where
  "rotation_key provider model = provider @ '':'' @ canonical_model_key model"

definition rotation_limit :: "int \<Rightarrow> int" where
  "rotation_limit m = (if m \<le> 0 then 4096 else m)"

text \<open>\<open>sort.Search\<close> finds the first index whose identifier comes after \<open>last\<close>, by bisection over the sorted
  candidates.\<close>

function bisect :: "(nat \<Rightarrow> bool) \<Rightarrow> nat \<Rightarrow> nat \<Rightarrow> nat" where
  "bisect f i j = (if i < j then (let m = (i + j) div 2 in if \<not> f m then bisect f (m + 1) j else bisect f i m) else i)"
  by auto
termination by (relation "measure (\<lambda>(_, i, j). j - i)") auto

declare bisect.simps [simp del]

definition successor_index :: "auth list \<Rightarrow> string \<Rightarrow> nat" where
  "successor_index available last_id =
     (if last_id = [] then 0
      else let i = bisect (\<lambda>i. last_id < au_id (available ! i)) 0 (length available)
        in if i \<ge> length available then 0 else i)"

record round_robin =
  rr_last :: "(string \<times> string) list"
  rr_max_keys :: int

definition round_robin_choose :: "string \<Rightarrow> auth list \<Rightarrow> round_robin \<Rightarrow> auth \<times> round_robin" where
  "round_robin_choose key available s =
     (let last_map = (if map_of (rr_last s) key = None \<and> int (length (rr_last s)) \<ge> rotation_limit (rr_max_keys s)
                      then [] else rr_last s);
          last_id = (case map_of last_map key of None \<Rightarrow> [] | Some i \<Rightarrow> i);
          picked = available ! successor_index available last_id
      in (picked, s\<lparr>rr_last := AList.update key (au_id picked) last_map\<rparr>))"

definition round_robin_pick ::
  "block_hooks \<Rightarrow> bool \<Rightarrow> string \<Rightarrow> string \<Rightarrow> instant \<Rightarrow> auth list \<Rightarrow> round_robin \<Rightarrow> (select_error + auth) \<times> round_robin" where
  "round_robin_pick h downstream provider model now auths s =
     (case get_available_auths h auths provider model now False of
        Inl e \<Rightarrow> (Inl e, s)
      | Inr available \<Rightarrow>
          let (picked, s) = round_robin_choose (rotation_key provider model)
                (prefer_codex_websocket_auths downstream provider available) s
          in (Inr picked, s))"

definition fill_first_pick ::
  "block_hooks \<Rightarrow> bool \<Rightarrow> string \<Rightarrow> string \<Rightarrow> instant \<Rightarrow> auth list \<Rightarrow> select_error + auth" where
  "fill_first_pick h downstream provider model now auths =
     (case get_available_auths h auths provider model now False of
        Inl e \<Rightarrow> Inl e
      | Inr available \<Rightarrow> Inr (prefer_codex_websocket_auths downstream provider available ! 0))"

definition saturating_add :: "int \<Rightarrow> int \<Rightarrow> int" where
  "saturating_add value delta =
     (if delta > 0 \<and> value > s64 (int64_max - delta) then int64_max
      else if delta < 0 \<and> value < s64 (int64_min - delta) then int64_min
      else s64 (value + delta))"

record weighted_state =
  wt_current :: "(string \<times> int) list"
  wt_weights :: "(string \<times> int) list"

definition credit :: "(string \<times> int) list \<Rightarrow> string \<Rightarrow> int" where
  "credit m i = (case map_of m i of None \<Rightarrow> 0 | Some c \<Rightarrow> c)"

definition maxSmoothWeightedStateEntries :: nat where "maxSmoothWeightedStateEntries = 1024"

definition weights_config_changed :: "(string \<times> int) list \<Rightarrow> (string \<times> int) list \<Rightarrow> bool" where
  "weights_config_changed left right \<longleftrightarrow>
     left \<noteq> [] \<and> list_ex (\<lambda>(i, w). case map_of left i of None \<Rightarrow> False | Some v \<Rightarrow> v \<noteq> w) right"

definition prune_stale :: "(string \<times> int) list \<Rightarrow> weighted_state \<Rightarrow> weighted_state" where
  "prune_stale weights s =
     (if length (wt_current s) \<le> maxSmoothWeightedStateEntries \<and> length (wt_weights s) \<le> maxSmoothWeightedStateEntries
      then s
      else s\<lparr>wt_current := filter (\<lambda>(i, _). map_of weights i \<noteq> None) (wt_current s),
             wt_weights := filter (\<lambda>(i, _). map_of weights i \<noteq> None) (wt_weights s)\<rparr>)"

definition prepare_weights :: "(string \<times> int) list \<Rightarrow> weighted_state \<Rightarrow> weighted_state" where
  "prepare_weights weights s =
     prune_stale weights
       \<lparr>wt_current = (if weights_config_changed (wt_weights s) weights then [] else wt_current s),
        wt_weights = foldl (\<lambda>m (i, w). AList.update i w m) (wt_weights s) weights\<rparr>"

definition auth_weight_vector :: "auth list \<Rightarrow> (string \<times> int) list" where
  "auth_weight_vector auths =
     foldl (\<lambda>m a. if credential_weight a > 0 then AList.update (au_id a) (credential_weight a) m else m) [] auths"

definition positive_weight_auths :: "auth list \<Rightarrow> auth list" where
  "positive_weight_auths = filter (\<lambda>a. credential_weight a > 0)"

text \<open>The credits, the total weight and the best candidate so far with its credit.\<close>

fun smooth_scan :: "auth list \<Rightarrow> (string \<times> int) list \<Rightarrow> int \<Rightarrow> (auth \<times> int) option \<Rightarrow>
    (string \<times> int) list \<times> int \<times> (auth \<times> int) option" where
  "smooth_scan [] current tot best = (current, tot, best)"
| "smooth_scan (a # as) current tot best =
     (let w = credential_weight a in
      if w \<le> 0 then smooth_scan as current tot best
      else
        let c = saturating_add (credit current (au_id a)) w;
            better = (case best of None \<Rightarrow> True | Some (_, b) \<Rightarrow> c > b)
        in smooth_scan as (AList.update (au_id a) c current) (saturating_add tot w)
             (if better then Some (a, c) else best))"

definition pick_smooth_weighted :: "auth list \<Rightarrow> (string \<times> int) list \<Rightarrow> auth option \<times> (string \<times> int) list" where
  "pick_smooth_weighted auths current =
     (let (current, tot, best) = smooth_scan auths current 0 None in
      case best of
        None \<Rightarrow> (None, current)
      | Some (a, _) \<Rightarrow> (Some a, AList.update (au_id a) (saturating_add (credit current (au_id a)) (- tot)) current))"

record weighted_round_robin =
  wr_states :: "(string \<times> weighted_state) list"
  wr_max_keys :: int

definition empty_weighted :: weighted_state where
  "empty_weighted = \<lparr>wt_current = [], wt_weights = []\<rparr>"

text \<open>\<open>state_model\<close> is the route model of the context, or the model itself.\<close>

definition weighted_pick ::
  "block_hooks \<Rightarrow> bool \<Rightarrow> string \<Rightarrow> string \<Rightarrow> string \<Rightarrow> instant \<Rightarrow> auth list \<Rightarrow> weighted_round_robin \<Rightarrow>
     (select_error + auth) \<times> weighted_round_robin" where
  "weighted_pick h downstream provider model state_model now auths s =
     (case get_available_auths h (positive_weight_auths auths) provider model now False of
        Inl e \<Rightarrow> (Inl e, s)
      | Inr available0 \<Rightarrow>
          let available = prefer_codex_websocket_auths downstream provider available0;
              key = rotation_key provider state_model;
              states = (if map_of (wr_states s) key = None \<and> int (length (wr_states s)) \<ge> rotation_limit (wr_max_keys s)
                        then [] else wr_states s);
              st = prepare_weights (auth_weight_vector available)
                     (case map_of states key of None \<Rightarrow> empty_weighted | Some st \<Rightarrow> st);
              (picked, current) = pick_smooth_weighted available (wt_current st);
              s = s\<lparr>wr_states := AList.update key (st\<lparr>wt_current := current\<rparr>) states\<rparr>
          in (case picked of None \<Rightarrow> (Inl (AuthUnavailable None), s) | Some a \<Rightarrow> (Inr a, s)))"

section \<open>The candidates\<close>

abbreviation free :: "block_hooks \<Rightarrow> string \<Rightarrow> instant \<Rightarrow> auth \<Rightarrow> bool" where
  "free h model now a \<equiv> \<not> fst (is_auth_blocked_for_model h a model now)"

abbreviation block_kind :: "block_hooks \<Rightarrow> string \<Rightarrow> instant \<Rightarrow> auth \<Rightarrow> block_reason" where
  "block_kind h model now a \<equiv> fst (snd (is_auth_blocked_for_model h a model now))"

abbreviation block_until :: "block_hooks \<Rightarrow> string \<Rightarrow> instant \<Rightarrow> auth \<Rightarrow> instant" where
  "block_until h model now a \<equiv> snd (snd (is_auth_blocked_for_model h a model now))"

definition deadlines :: "block_hooks \<Rightarrow> string \<Rightarrow> instant \<Rightarrow> auth list \<Rightarrow> instant set" where
  "deadlines h model now auths =
     block_until h model now `
       {a \<in> set auths. \<not> free h model now a \<and> block_kind h model now a \<noteq> BlockDisabled \<and> block_until h model now a > now}"

lemma collect_snoc:
  "collect_available_by_priority h (as @ [a]) model now =
     collect_step h model now (collect_available_by_priority h as model now) a"
  by (simp add: collect_available_by_priority_def)

lemma collect_buckets:
  "distinct (map fst (av_buckets (collect_available_by_priority h as model now))) \<and>
   fst ` set (av_buckets (collect_available_by_priority h as model now)) =
     auth_priority ` set (filter (free h model now) as) \<and>
   bucket (av_buckets (collect_available_by_priority h as model now)) p =
     filter (\<lambda>a. free h model now a \<and> auth_priority a = p) as"
proof (induction as arbitrary: p rule: rev_induct)
  case Nil
  show ?case by (simp add: collect_available_by_priority_def bucket_def)
next
  case (snoc a as)
  let ?v = "collect_available_by_priority h as model now"
  show ?case
  proof (cases "free h model now a")
    case True
    let ?b = "AList.update (auth_priority a) (bucket (av_buckets ?v) (auth_priority a) @ [a]) (av_buckets ?v)"
    have "av_buckets (collect_step h model now ?v a) = ?b"
      using True by (simp add: collect_step_def split_beta)
    moreover have "distinct (map fst ?b)" using snoc by (simp add: distinct_update)
    moreover have "fst ` set ?b = auth_priority ` set (filter (free h model now) (as @ [a]))"
      using snoc [of p] dom_update [of "auth_priority a" _ "av_buckets ?v"] True by (auto simp flip: set_map)
    moreover have "bucket ?b p = filter (\<lambda>a. free h model now a \<and> auth_priority a = p) (as @ [a])"
      using snoc [of p] True by (auto simp: bucket_def update_conv')
    ultimately show ?thesis by (simp only: collect_snoc)
  next
    case False
    then have "av_buckets (collect_step h model now ?v a) = av_buckets ?v"
      by (simp add: collect_step_def split_beta)
    with snoc [of p] False show ?thesis by (simp add: collect_snoc)
  qed
qed

lemma collect_cooldowns:
  "av_cooldowns (collect_available_by_priority h as model now) =
     length (filter (\<lambda>a. \<not> free h model now a \<and> block_kind h model now a = BlockCooldown) as)"
  by (induction as rule: rev_induct)
    (simp_all add: collect_available_by_priority_def collect_step_def split_beta)

lemma collect_earliest:
  assumes "0 \<le> now"
  shows "av_earliest (collect_available_by_priority h as model now) =
     (if deadlines h model now as = {} then zero_time else Min (deadlines h model now as))"
proof (induction as rule: rev_induct)
  case Nil
  show ?case by (simp add: collect_available_by_priority_def deadlines_def)
next
  case (snoc a as)
  let ?D = "deadlines h model now as"
  have fin: "finite ?D" by (simp add: deadlines_def)
  have pos: "x \<noteq> zero_time" if "x \<in> ?D" for x using that assms by (auto simp: deadlines_def zero_time_def)
  show ?case
  proof (cases "\<not> free h model now a \<and> block_kind h model now a \<noteq> BlockDisabled \<and> block_until h model now a > now")
    case True
    then have D: "deadlines h model now (as @ [a]) = insert (block_until h model now a) ?D"
      by (auto simp: deadlines_def)
    have "Min ?D \<noteq> zero_time" if "?D \<noteq> {}" using pos Min_in [OF fin that] by blast
    moreover have "Min (insert (block_until h model now a) ?D) = min (block_until h model now a) (Min ?D)" if "?D \<noteq> {}"
      using fin that by (rule Min_insert)
    ultimately show ?thesis
      using True snoc by (cases "?D = {}") (simp_all add: D collect_snoc collect_step_def split_beta min_def)
  next
    case False
    then have "deadlines h model now (as @ [a]) = ?D" by (auto simp: deadlines_def)
    with False snoc show ?thesis by (auto simp: collect_snoc collect_step_def split_beta)
  qed
qed

lemma best_priority_Some:
  "best_priority (Some b) bs = Some (Max (insert b (fst ` set bs)))"
proof (induction bs arbitrary: b)
  case (Cons e bs)
  obtain p as where e: "e = (p, as)" by fastforce
  have "best_priority (Some b) (e # bs) = Some (Max (insert (max b p) (fst ` set bs)))"
    by (simp add: e Cons.IH max_def)
  also have "Max (insert (max b p) (fst ` set bs)) = Max (insert b (insert p (fst ` set bs)))"
    by (cases "bs = []") (simp_all add: max.assoc)
  finally show ?case by (simp add: e)
qed simp

lemma best_priority_None: "best_priority None bs = (if bs = [] then None else Some (Max (fst ` set bs)))"
  by (cases bs) (auto simp: best_priority_Some)

definition best_candidates :: "block_hooks \<Rightarrow> string \<Rightarrow> instant \<Rightarrow> auth list \<Rightarrow> auth list" where
  "best_candidates h model now auths =
     filter (\<lambda>a. free h model now a \<and> (\<forall>b \<in> set auths. free h model now b \<longrightarrow> auth_priority b \<le> auth_priority a)) auths"

lemma available_best:
  assumes "filter (free h model now) auths \<noteq> []"
  shows "available_from_buckets (av_buckets (collect_available_by_priority h auths model now)) False =
    sort_key au_id (best_candidates h model now auths)"
proof -
  let ?b = "av_buckets (collect_available_by_priority h auths model now)"
  let ?P = "auth_priority ` set (filter (free h model now) auths)"
  have dom: "fst ` set ?b = ?P" using collect_buckets by blast
  then have ne: "?b \<noteq> []" using assms by auto
  have "bucket ?b (Max ?P) = filter (\<lambda>a. free h model now a \<and> auth_priority a = Max ?P) auths"
    using collect_buckets by blast
  also have "\<dots> = best_candidates h model now auths"
    unfolding best_candidates_def
  proof (rule filter_cong)
    fix a assume a: "a \<in> set auths"
    have fin: "finite ?P" "?P \<noteq> {}" using assms by (auto simp: filter_empty_conv)
    show "free h model now a \<and> auth_priority a = Max ?P \<longleftrightarrow>
        free h model now a \<and> (\<forall>b \<in> set auths. free h model now b \<longrightarrow> auth_priority b \<le> auth_priority a)"
    proof (cases "free h model now a")
      case True
      then have "auth_priority a \<in> ?P" using a by auto
      then have "auth_priority a = Max ?P \<longleftrightarrow> (\<forall>x \<in> ?P. x \<le> auth_priority a)"
        using fin by (metis Max.coboundedI Max_eqI)
      with True show ?thesis by auto
    qed simp
  qed simp
  finally show ?thesis using ne by (simp add: available_from_buckets_def best_priority_None dom)
qed

text \<open>C12: The candidates of a pick: exactly the credentials that are not blocked and have the highest
  priority among those, sorted by identifier. Without one the error tells the case apart: no
  credential at all; every one cooling down, with the time until the earliest deadline; or all
  blocked, with that time when some block that is not disabled has a deadline.\<close>

theorem get_available_auths_spec:
  assumes "0 \<le> now"
  shows "(auths = [] \<longrightarrow> get_available_auths h auths provider model now False = Inl AuthNotFound) \<and>
    ((\<exists>a \<in> set auths. free h model now a) \<longrightarrow>
      get_available_auths h auths provider model now False = Inr (sort_key au_id (best_candidates h model now auths)) \<and>
      best_candidates h model now auths \<noteq> []) \<and>
    (auths \<noteq> [] \<and> (\<forall>a \<in> set auths. \<not> free h model now a) \<longrightarrow>
      get_available_auths h auths provider model now False =
        Inl (if (\<forall>a \<in> set auths. block_kind h model now a = BlockCooldown) \<and> deadlines h model now auths \<noteq> {}
             then ModelCooldown model (if provider = ''mixed'' then [] else provider)
               (max 0 (time_sub (Min (deadlines h model now auths)) now))
             else AuthUnavailable (if deadlines h model now auths = {} then None
               else Some (time_sub (Min (deadlines h model now auths)) now))))"
proof (intro conjI impI)
  let ?v = "collect_available_by_priority h auths model now"
  let ?D = "deadlines h model now auths"
  show "get_available_auths h auths provider model now False = Inl AuthNotFound" if "auths = []"
    using that by (simp add: get_available_auths_def)
  have empty: "av_buckets ?v = [] \<longleftrightarrow> filter (free h model now) auths = []"
  proof -
    have "fst ` set (av_buckets ?v) = auth_priority ` set (filter (free h model now) auths)"
      using collect_buckets by blast
    then have "set (av_buckets ?v) = {} \<longleftrightarrow> set (filter (free h model now) auths) = {}" by (metis image_is_empty)
    then show ?thesis by (simp only: set_empty)
  qed
  {
    assume "\<exists>a \<in> set auths. free h model now a"
    then have ne: "filter (free h model now) auths \<noteq> []" by (auto simp: filter_empty_conv)
    then show "get_available_auths h auths provider model now False = Inr (sort_key au_id (best_candidates h model now auths))"
    proof -
      have "auths \<noteq> []" "av_buckets ?v \<noteq> []" using ne empty by auto
      then show ?thesis by (simp add: get_available_auths_def Let_def available_best [OF ne])
    qed
    have "Max (auth_priority ` set (filter (free h model now) auths)) \<in> auth_priority ` set (filter (free h model now) auths)"
      using ne by (intro Max_in) (auto simp: filter_empty_conv)
    then obtain a where a: "a \<in> set auths" "free h model now a"
        "auth_priority a = Max (auth_priority ` set (filter (free h model now) auths))" by auto
    have "\<forall>b \<in> set auths. free h model now b \<longrightarrow> auth_priority b \<le> auth_priority a"
      by (auto simp: a(3))
    with a(1,2) show "best_candidates h model now auths \<noteq> []" by (auto simp: best_candidates_def filter_empty_conv)
  }
  assume blocked: "auths \<noteq> [] \<and> (\<forall>a \<in> set auths. \<not> free h model now a)"
  then have none: "av_buckets ?v = []" using empty by (simp add: filter_empty_conv)
  have earliest: "av_earliest ?v = (if ?D = {} then zero_time else Min ?D)" by (rule collect_earliest [OF assms])
  have "finite ?D" "\<forall>x \<in> ?D. x > now" by (auto simp: deadlines_def)
  then have later: "Min ?D > now" if "?D \<noteq> {}" using that Min_in by blast
  have cool: "av_cooldowns ?v = length auths \<longleftrightarrow> (\<forall>a \<in> set auths. block_kind h model now a = BlockCooldown)"
    unfolding collect_cooldowns using blocked
    by (metis (mono_tags, lifting) filter_True length_filter_less less_irrefl)
  show "get_available_auths h auths provider model now False =
        Inl (if (\<forall>a \<in> set auths. block_kind h model now a = BlockCooldown) \<and> ?D \<noteq> {}
             then ModelCooldown model (if provider = ''mixed'' then [] else provider) (max 0 (time_sub (Min ?D) now))
             else AuthUnavailable (if ?D = {} then None else Some (time_sub (Min ?D) now)))"
  proof (cases "?D = {}")
    case True
    then show ?thesis
      using blocked none earliest assms by (simp add: get_available_auths_def Let_def zero_time_def)
  next
    case False
    have "Min ?D \<noteq> zero_time" using later [OF False] assms by (simp add: zero_time_def)
    then show ?thesis
      using blocked none earliest later [OF False] cool False
      by (simp add: get_available_auths_def Let_def max_def)
  qed
qed

section \<open>Round robin\<close>

lemma bisect_least:
  assumes "i \<le> j" and "\<And>a b. i \<le> a \<Longrightarrow> a \<le> b \<Longrightarrow> b < j \<Longrightarrow> f a \<Longrightarrow> f b"
  shows "i \<le> bisect f i j \<and> bisect f i j \<le> j \<and> (\<forall>k. i \<le> k \<and> k < bisect f i j \<longrightarrow> \<not> f k) \<and>
    (bisect f i j < j \<longrightarrow> f (bisect f i j))"
  using assms
proof (induction f i j rule: bisect.induct)
  case (1 f i j)
  define m where "m = (i + j) div 2"
  show ?case
  proof (cases "i < j")
    case True
    then have m: "i \<le> m" "m < j" by (auto simp: m_def)
    show ?thesis
    proof (cases "f m")
      case fm: True
      have eq: "bisect f i j = bisect f i m" by (subst bisect.simps) (simp add: True fm m_def [symmetric])
      have "i \<le> bisect f i m \<and> bisect f i m \<le> m \<and> (\<forall>k. i \<le> k \<and> k < bisect f i m \<longrightarrow> \<not> f k) \<and>
          (bisect f i m < m \<longrightarrow> f (bisect f i m))"
      proof (rule 1(2) [OF True m_def])
        show "\<not> \<not> f m" using fm by blast
        show "i \<le> m" by (rule m(1))
        show "f b" if "i \<le> a" "a \<le> b" "b < m" "f a" for a b
          using 1(4) [OF that(1,2) _ that(4)] that(3) m(2) by simp
      qed
      moreover have "f (bisect f i m)" if "bisect f i m = m" using that fm by simp
      ultimately show ?thesis unfolding eq using m by (metis le_neq_implies_less less_imp_le order_trans)
    next
      case fm: False
      have eq: "bisect f i j = bisect f (m + 1) j" by (subst bisect.simps) (simp add: True fm m_def [symmetric])
      have below: "\<not> f k" if "i \<le> k" "k \<le> m" for k using 1(4) [OF that(1,2) m(2)] fm by blast
      have "m + 1 \<le> bisect f (m + 1) j \<and> bisect f (m + 1) j \<le> j \<and>
          (\<forall>k. m + 1 \<le> k \<and> k < bisect f (m + 1) j \<longrightarrow> \<not> f k) \<and>
          (bisect f (m + 1) j < j \<longrightarrow> f (bisect f (m + 1) j))"
      proof (rule 1(1) [OF True m_def fm])
        show "m + 1 \<le> j" using m(2) by simp
        show "f b" if "m + 1 \<le> a" "a \<le> b" "b < j" "f a" for a b
          using 1(4) [OF _ that(2-4)] that(1) m(1) by simp
      qed
      moreover have "m + 1 \<le> k" if "\<not> k \<le> m" for k using that by simp
      ultimately show ?thesis unfolding eq using below m by (metis add_leE le_trans)
    qed
  next
    case False
    then have "bisect f i j = i" by (subst bisect.simps) simp
    with False 1(3) show ?thesis by auto
  qed
qed

text \<open>In a list sorted by identifiers, the successor is the first candidate after \<open>last_id\<close>, or the head.\<close>

lemma successor_index_spec:
  assumes "sorted (map au_id available)" and "last_id \<noteq> []" and "available \<noteq> []"
  defines "i \<equiv> successor_index available last_id"
  shows "i < length available" and
    "(if \<exists>a \<in> set available. last_id < au_id a
      then last_id < au_id (available ! i) \<and> (\<forall>j < i. au_id (available ! j) \<le> last_id) else i = 0)"
proof -
  let ?f = "\<lambda>i. last_id < au_id (available ! i)"
  let ?b = "bisect ?f 0 (length available)"
  have "?f b" if "a \<le> b" "b < length available" "?f a" for a b
    using sorted_nth_mono [OF assms(1), of a b] that by simp
  then have b: "?b \<le> length available" "\<forall>k < ?b. \<not> ?f k" "?b < length available \<longrightarrow> ?f ?b"
    using bisect_least [of 0 "length available" ?f] by auto
  show "i < length available" using assms(2,3) by (simp add: i_def successor_index_def Let_def)
  show "(if \<exists>a \<in> set available. last_id < au_id a
      then last_id < au_id (available ! i) \<and> (\<forall>j < i. au_id (available ! j) \<le> last_id) else i = 0)"
  proof (cases "?b < length available")
    case True
    with b have "last_id < au_id (available ! ?b)" "\<forall>j < ?b. au_id (available ! j) \<le> last_id" by auto
    moreover from this(1) True have "\<exists>a \<in> set available. last_id < au_id a" using nth_mem by blast
    moreover have "i = ?b" using True assms(2) by (simp add: i_def successor_index_def)
    ultimately show ?thesis by simp
  next
    case False
    then have "\<not> (\<exists>a \<in> set available. last_id < au_id a)" using b by (auto simp: in_set_conv_nth)
    with False assms(2) show ?thesis by (simp add: i_def successor_index_def)
  qed
qed

lemma successor_of_member:
  assumes "sorted (map au_id available)" and "distinct (map au_id available)" and "m < length available"
    and "au_id (available ! m) \<noteq> []"
  shows "successor_index available (au_id (available ! m)) = Suc m mod length available"
proof -
  let ?i = "successor_index available (au_id (available ! m))"
  have ne: "available \<noteq> []" using assms(3) by auto
  have mono: "au_id (available ! a) < au_id (available ! b) \<longleftrightarrow> a < b"
    if "a < length available" "b < length available" for a b
    using that assms(1,2) sorted_wrt_nth_less [of "(<)" "map au_id available" a b]
      sorted_wrt_nth_less [of "(<)" "map au_id available" b a] strict_sorted_iff [of "map au_id available"]
    by (metis length_map linorder_neqE_nat not_less_iff_gr_or_eq nth_map)
  note spec = successor_index_spec [OF assms(1,4) ne]
  show ?thesis
  proof (cases "Suc m < length available")
    case True
    then have "au_id (available ! m) < au_id (available ! Suc m)" using mono assms(3) by simp
    then have "\<exists>a \<in> set available. au_id (available ! m) < au_id a" using True nth_mem by blast
    with spec(2) have i: "au_id (available ! m) < au_id (available ! ?i)"
      "\<forall>j < ?i. au_id (available ! j) \<le> au_id (available ! m)" by auto
    have "\<not> Suc m < ?i" using i(2) \<open>au_id (available ! m) < au_id (available ! Suc m)\<close> by (auto simp: not_le)
    with i(1) mono [OF assms(3) spec(1)] have "?i = Suc m" by simp
    with True show ?thesis by simp
  next
    case False
    then have last: "Suc m = length available" using assms(3) by simp
    have "\<not> (\<exists>a \<in> set available. au_id (available ! m) < au_id a)"
    proof
      assume "\<exists>a \<in> set available. au_id (available ! m) < au_id a"
      then obtain k where "k < length available" "au_id (available ! m) < au_id (available ! k)"
        by (auto simp: in_set_conv_nth)
      then have "m < k" using mono [OF assms(3)] by simp
      with last \<open>k < length available\<close> show False by simp
    qed
    with spec(2) last show ?thesis by simp
  qed
qed

text \<open>A row of picks among the same candidates.\<close>

fun round_robin_run :: "string \<Rightarrow> auth list \<Rightarrow> nat \<Rightarrow> round_robin \<Rightarrow> auth list" where
  "round_robin_run key available 0 s = []"
| "round_robin_run key available (Suc k) s =
     (let (a, s) = round_robin_choose key available s in a # round_robin_run key available k s)"

lemma round_robin_choose_next:
  assumes "map_of (rr_last s) key = Some l"
  shows "round_robin_choose key available s =
    (available ! successor_index available l,
     s\<lparr>rr_last := AList.update key (au_id (available ! successor_index available l)) (rr_last s)\<rparr>)"
  using assms by (simp add: round_robin_choose_def Let_def)

lemma round_robin_run_from:
  assumes "sorted (map au_id available)" and "distinct (map au_id available)" and "[] \<notin> au_id ` set available"
    and "m < length available" and "map_of (rr_last s) key = Some (au_id (available ! m))"
  shows "round_robin_run key available k s = map (\<lambda>i. available ! ((Suc m + i) mod length available)) [0..<k]"
  using assms(4,5)
proof (induction k arbitrary: m s)
  case (Suc k)
  let ?n = "length available"
  have "au_id (available ! m) \<noteq> []" using assms(3) nth_mem [OF Suc.prems(1)] by (metis image_eqI)
  then have succ: "successor_index available (au_id (available ! m)) = Suc m mod ?n"
    using assms(1,2) Suc.prems(1) by (intro successor_of_member)
  let ?s = "s\<lparr>rr_last := AList.update key (au_id (available ! (Suc m mod ?n))) (rr_last s)\<rparr>"
  have "available \<noteq> []" using Suc.prems(1) by auto
  then have "round_robin_run key available k ?s = map (\<lambda>i. available ! ((Suc (Suc m mod ?n) + i) mod ?n)) [0..<k]"
    by (intro Suc.IH) (auto simp: update_conv')
  also have "\<dots> = map (\<lambda>i. available ! ((Suc m + Suc i) mod ?n)) [0..<k]"
  proof (rule map_cong)
    fix i
    have "(Suc (Suc m mod ?n) + i) mod ?n = (Suc m mod ?n + Suc i) mod ?n" by simp
    also have "\<dots> = (Suc m + Suc i) mod ?n" by (rule mod_add_left_eq)
    finally show "available ! ((Suc (Suc m mod ?n) + i) mod ?n) = available ! ((Suc m + Suc i) mod ?n)" by simp
  qed simp
  finally have "round_robin_run key available (Suc k) s =
      available ! (Suc m mod ?n) # map (\<lambda>i. available ! ((Suc m + Suc i) mod ?n)) [0..<k]"
    using round_robin_choose_next [OF Suc.prems(2)] by (simp add: succ)
  also have "\<dots> = map (\<lambda>i. available ! ((Suc m + i) mod ?n)) [0..<Suc k]"
    by (simp only: upt_conv_Cons [of 0 "Suc k"] map_Suc_upt [symmetric] list.map map_map comp_def zero_less_Suc) simp
  finally show ?case .
qed simp

lemma mset_rotate_list: "mset (rotate n xs) = mset xs"
  by (metis append_take_drop_id mset_append rotate_drop_take union_commute)

text \<open>C14: Round robin is fair: among an unchanged set of candidates, sorted and with distinct identifiers, the
  rotation starts after the last credential picked (at the head when none comes after it) and goes
  round; any number of picks as large as the set picks each candidate exactly once.\<close>

theorem round_robin_fair:
  assumes "available \<noteq> []" and "sorted (map au_id available)" and "distinct (map au_id available)"
    and "[] \<notin> au_id ` set available"
  shows "\<exists>i0 < length available.
    (\<forall>k. round_robin_run key available k s = map (\<lambda>i. available ! ((i0 + i) mod length available)) [0..<k]) \<and>
    mset (round_robin_run key available (length available) s) = mset available \<and>
    (\<forall>l. map_of (rr_last s) key = Some l \<and> l \<noteq> [] \<longrightarrow>
      (if \<exists>a \<in> set available. l < au_id a
       then l < au_id (available ! i0) \<and> (\<forall>j < i0. au_id (available ! j) \<le> l) else i0 = 0))"
proof -
  let ?n = "length available"
  obtain a s' where c: "round_robin_choose key available s = (a, s')" by fastforce
  let ?l = "case map_of (if map_of (rr_last s) key = None \<and> int (length (rr_last s)) \<ge> rotation_limit (rr_max_keys s)
                      then [] else rr_last s) key of None \<Rightarrow> [] | Some i \<Rightarrow> i"
  let ?i0 = "successor_index available ?l"
  have i0: "?i0 < ?n"
    using successor_index_spec(1) [OF assms(2) _ assms(1), of ?l] assms(1) by (cases "?l = []") (simp_all add: successor_index_def)
  have a: "a = available ! ?i0" and s': "map_of (rr_last s') key = Some (au_id (available ! ?i0))"
    using c by (auto simp: round_robin_choose_def Let_def update_conv')
  have run: "round_robin_run key available k s = map (\<lambda>i. available ! ((?i0 + i) mod ?n)) [0..<k]" for k
  proof (cases k)
    case (Suc m)
    have "round_robin_run key available k s = available ! ?i0 # map (\<lambda>i. available ! ((Suc ?i0 + i) mod ?n)) [0..<m]"
      using c round_robin_run_from [OF assms(2-4) i0 s', of m] by (simp add: Suc a)
    also have "\<dots> = map (\<lambda>i. available ! ((?i0 + i) mod ?n)) [0..<Suc m]"
      by (simp only: upt_conv_Cons [of 0 "Suc m"] map_Suc_upt [symmetric] list.map map_map comp_def zero_less_Suc)
        (simp add: i0)
    finally show ?thesis by (simp add: Suc)
  qed simp
  have "round_robin_run key available ?n s = rotate ?i0 available"
    unfolding run by (rule nth_equalityI) (auto simp: nth_rotate)
  then have "mset (round_robin_run key available ?n s) = mset available" by (simp only: mset_rotate_list)
  moreover have "if \<exists>a \<in> set available. l < au_id a
       then l < au_id (available ! ?i0) \<and> (\<forall>j < ?i0. au_id (available ! j) \<le> l) else ?i0 = 0"
    if "map_of (rr_last s) key = Some l" "l \<noteq> []" for l
    using successor_index_spec(2) [OF assms(2) that(2) assms(1)] that(1) by simp
  ultimately show ?thesis using i0 run by blast
qed

section \<open>Smooth weighted round robin\<close>

lemma credit_update [simp]: "credit (AList.update i c m) j = (if j = i then c else credit m j)"
  by (simp add: credit_def update_conv')

lemma saturating_add_id: "in_s64 value \<Longrightarrow> in_s64 delta \<Longrightarrow> delta \<noteq> int64_min \<Longrightarrow> in_s64 (value + delta) \<Longrightarrow>
  saturating_add value delta = value + delta"
  by (auto simp: saturating_add_def s64_id in_s64_def int64_max_def int64_min_def)

lemma saturating_add_bounds: "in_s64 value \<Longrightarrow> in_s64 (saturating_add value delta)"
  using s64_range by (auto simp: saturating_add_def) (auto simp: in_s64_def int64_max_def int64_min_def)

abbreviation weight_sum :: "auth list \<Rightarrow> int" where
  "weight_sum as \<equiv> sum_list (map credential_weight as)"

text \<open>The credits stay clear of saturation while they are below \<open>B\<close> and \<open>B\<close> plus the total fits.\<close>

definition in_bounds :: "auth list \<Rightarrow> (string \<times> int) list \<Rightarrow> int \<Rightarrow> bool" where
  "in_bounds as current B \<longleftrightarrow> (\<forall>a \<in> set as. \<bar>credit current (au_id a)\<bar> + credential_weight a \<le> B)"

lemma smooth_scan_spec:
  assumes "distinct (map au_id as)" and "\<forall>a \<in> set as. credential_weight a > 0"
    and "in_bounds as current int64_max" and "0 \<le> tot" and "tot + weight_sum as \<le> int64_max"
  shows "\<exists>current' best'. smooth_scan as current tot best = (current', tot + weight_sum as, best') \<and>
    (\<forall>i. credit current' i = credit current i + (\<Sum>a \<leftarrow> filter (\<lambda>a. au_id a = i) as. credential_weight a)) \<and>
    (best' = best \<or> (\<exists>a \<in> set as. best' = Some (a, credit current (au_id a) + credential_weight a))) \<and>
    (as \<noteq> [] \<or> best \<noteq> None \<longrightarrow> best' \<noteq> None) \<and>
    (\<forall>b c. best' = Some (b, c) \<longrightarrow>
       (\<forall>a \<in> set as. credit current (au_id a) + credential_weight a \<le> c) \<and>
       (\<forall>b0 c0. best = Some (b0, c0) \<longrightarrow> c0 \<le> c))"
  using assms
proof (induction as arbitrary: current tot best)
  case (Cons x as)
  let ?w = "credential_weight x" and ?old = "credit current (au_id x)"
  let ?c = "?old + ?w"
  let ?cur = "AList.update (au_id x) ?c current"
  let ?best = "if (case best of None \<Rightarrow> True | Some (_, b) \<Rightarrow> ?c > b) then Some (x, ?c) else best"
  have w: "?w > 0" using Cons.prems(2) by simp
  have rest: "0 \<le> weight_sum as" using Cons.prems(2) by (intro sum_list_nonneg) auto
  have c: "saturating_add ?old ?w = ?c"
    by (rule saturating_add_id)
      (use Cons.prems(3) w in \<open>auto simp: in_bounds_def in_s64_def int64_max_def int64_min_def\<close>)
  have t: "saturating_add tot ?w = tot + ?w"
    by (rule saturating_add_id)
      (use Cons.prems(4,5) w rest in \<open>auto simp: in_s64_def int64_max_def int64_min_def\<close>)
  have new: "au_id a \<noteq> au_id x" if "a \<in> set as" for a using Cons.prems(1) that by (metis distinct.simps(2) image_eqI list.set_map list.simps(9))
  have "\<exists>current' best'. smooth_scan as ?cur (tot + ?w) ?best = (current', tot + ?w + weight_sum as, best') \<and>
    (\<forall>i. credit current' i = credit ?cur i + (\<Sum>a \<leftarrow> filter (\<lambda>a. au_id a = i) as. credential_weight a)) \<and>
    (best' = ?best \<or> (\<exists>a \<in> set as. best' = Some (a, credit ?cur (au_id a) + credential_weight a))) \<and>
    (as \<noteq> [] \<or> ?best \<noteq> None \<longrightarrow> best' \<noteq> None) \<and>
    (\<forall>b c. best' = Some (b, c) \<longrightarrow>
       (\<forall>a \<in> set as. credit ?cur (au_id a) + credential_weight a \<le> c) \<and>
       (\<forall>b0 c0. ?best = Some (b0, c0) \<longrightarrow> c0 \<le> c))"
  proof (rule Cons.IH)
    show "in_bounds as ?cur int64_max" using Cons.prems(3) new by (simp add: in_bounds_def)
  qed (use Cons.prems w in auto)
  then obtain current' best' where s: "smooth_scan as ?cur (tot + ?w) ?best = (current', tot + ?w + weight_sum as, best')"
    and cr: "\<And>i. credit current' i = credit ?cur i + (\<Sum>a \<leftarrow> filter (\<lambda>a. au_id a = i) as. credential_weight a)"
    and src: "best' = ?best \<or> (\<exists>a \<in> set as. best' = Some (a, credit ?cur (au_id a) + credential_weight a))"
    and some: "as \<noteq> [] \<or> ?best \<noteq> None \<longrightarrow> best' \<noteq> None"
    and mx: "\<And>b c. best' = Some (b, c) \<Longrightarrow> (\<forall>a \<in> set as. credit ?cur (au_id a) + credential_weight a \<le> c) \<and>
       (\<forall>b0 c0. ?best = Some (b0, c0) \<longrightarrow> c0 \<le> c)" by blast
  have scan: "smooth_scan (x # as) current tot best = (current', tot + weight_sum (x # as), best')"
    using s w by (simp add: c t Let_def add.assoc)
  have "best' = best \<or> (\<exists>a \<in> set (x # as). best' = Some (a, credit current (au_id a) + credential_weight a))"
    using src new by (auto split: if_splits)
  moreover have "best' \<noteq> None" using some by (cases best) auto
  moreover have "?c \<le> c \<and> (\<forall>b0 c0. best = Some (b0, c0) \<longrightarrow> c0 \<le> c)" if "best' = Some (b, c)" for b c
    using mx [OF that] by (cases best) (auto split: if_splits prod.splits)
  moreover have "credit current (au_id a) + credential_weight a \<le> c" if "best' = Some (b, c)" "a \<in> set as" for a b c
    using mx [OF that(1)] that(2) new [OF that(2)] by auto
  moreover have "credit current' i = credit current i + (\<Sum>a \<leftarrow> filter (\<lambda>a. au_id a = i) (x # as). credential_weight a)" for i
    using cr [of i] by auto
  ultimately show ?case using scan by (intro exI [of _ current'] exI [of _ best']) auto
qed simp

lemma sum_filter_id:
  assumes "distinct (map au_id as)" and "a \<in> set as"
  shows "(\<Sum>x \<leftarrow> filter (\<lambda>x. au_id x = au_id a) as. credential_weight x) = credential_weight a"
proof -
  have "filter (\<lambda>x. au_id x = au_id a) as = [a]"
    using assms
  proof (induction as)
    case (Cons x as)
    show ?case
    proof (cases "a = x")
      case True
      then have "filter (\<lambda>y. au_id y = au_id a) as = []"
        using Cons.prems(1) by (auto simp: filter_empty_conv image_iff)
      with True show ?thesis by simp
    next
      case False
      with Cons.prems have "a \<in> set as" by simp
      moreover from this have "au_id x \<noteq> au_id a" using Cons.prems(1) by (auto simp: image_iff)
      ultimately show ?thesis using Cons by simp
    qed
  qed simp
  then show ?thesis by simp
qed

lemma max_times_length:
  assumes "\<forall>x \<in> set xs. f x \<le> (m :: int)"
  shows "sum_list (map f xs) \<le> int (length xs) * m"
  using sum_list_mono [of xs f "\<lambda>_. m"] assms by (simp add: sum_list_triv)

text \<open>One pick, away from saturation: every credit grows by its weight, and the picked one, which is then
  largest, pays the total.\<close>

lemma pick_smooth_weighted_spec:
  assumes "as \<noteq> []" and "distinct (map au_id as)" and "\<forall>a \<in> set as. credential_weight a > 0"
    and "in_bounds as current int64_max" and "weight_sum as \<le> int64_max"
    and "0 \<le> (\<Sum>a \<leftarrow> as. credit current (au_id a))"
  shows "\<exists>b current'. pick_smooth_weighted as current = (Some b, current') \<and> b \<in> set as \<and>
    0 < credit current (au_id b) + credential_weight b \<and>
    (\<forall>a \<in> set as. credit current' (au_id a) = credit current (au_id a) + credential_weight a -
       (if a = b then weight_sum as else 0))"
proof -
  from smooth_scan_spec [OF assms(2-4), of 0 None] assms(1,5) obtain cur b c where
    s: "smooth_scan as current 0 None = (cur, weight_sum as, Some (b, c))"
    and cr: "\<And>i. credit cur i = credit current i + (\<Sum>a \<leftarrow> filter (\<lambda>a. au_id a = i) as. credential_weight a)"
    and b: "b \<in> set as" "c = credit current (au_id b) + credential_weight b"
    and mx: "\<forall>a \<in> set as. credit current (au_id a) + credential_weight a \<le> c" by auto
  let ?W = "weight_sum as"
  have id: "au_id a = au_id b \<longleftrightarrow> a = b" if "a \<in> set as" for a
    using that b(1) assms(2) by (auto simp: distinct_map dest: inj_onD)
  have W: "credential_weight b \<le> ?W"
    using assms(3) b(1) by (intro member_le_sum_list) (auto intro: less_imp_le)
  have credits: "credit cur (au_id a) = credit current (au_id a) + credential_weight a" if "a \<in> set as" for a
    using cr [of "au_id a"] sum_filter_id [OF assms(2) that] by simp
  have wb: "\<bar>credit current (au_id b)\<bar> + credential_weight b \<le> int64_max" "0 < credential_weight b"
    using assms(3,4) b(1) by (auto simp: in_bounds_def)
  have "0 < (\<Sum>a \<leftarrow> as. credit current (au_id a) + credential_weight a)"
    using assms(6) wb(2) W by (simp add: sum_list_addf)
  also have "\<dots> \<le> int (length as) * c" by (rule max_times_length [OF mx])
  finally have "0 < c" by (simp add: zero_less_mult_iff)
  then have sat: "saturating_add c (- ?W) = c - ?W"
    using wb b(2) W assms(5) by (subst saturating_add_id) (auto simp: in_s64_def int64_max_def int64_min_def)
  have "pick_smooth_weighted as current = (Some b, AList.update (au_id b) (c - ?W) cur)"
    using credits [OF b(1)] b(2) sat by (simp add: pick_smooth_weighted_def s)
  moreover have "credit (AList.update (au_id b) (c - ?W) cur) (au_id a) = credit current (au_id a) + credential_weight a -
       (if a = b then ?W else 0)" if "a \<in> set as" for a
    using credits [OF that] id [OF that] b(2) by simp
  ultimately show ?thesis using b \<open>0 < c\<close> by blast
qed

fun weighted_run :: "nat \<Rightarrow> auth list \<Rightarrow> (string \<times> int) list \<Rightarrow> auth list \<times> (string \<times> int) list" where
  "weighted_run 0 as current = ([], current)"
| "weighted_run (Suc k) as current =
     (case pick_smooth_weighted as current of
        (None, current) \<Rightarrow> ([], current)
      | (Some a, current) \<Rightarrow> (let (picks, current) = weighted_run k as current in (a # picks, current)))"

lemma sum_indicator_none: "b \<notin> set as \<Longrightarrow> (\<Sum>a \<leftarrow> as. if a = b then x else (0 :: int)) = 0"
  by (induction as) auto

lemma sum_indicator:
  "distinct as \<Longrightarrow> b \<in> set as \<Longrightarrow> (\<Sum>a \<leftarrow> as. if a = b then x else (0 :: int)) = x"
  by (induction as) (auto simp: sum_indicator_none)

text \<open>The credits after a run: what \<open>t\<close> rounds are worth less a total for every pick.\<close>

lemma weighted_run_credits:
  assumes "as \<noteq> []" and "distinct (map au_id as)" and "\<forall>a \<in> set as. credential_weight a > 0"
    and "(int (length as) + 1) * weight_sum as \<le> int64_max"
    and "\<forall>a \<in> set as. credit current (au_id a) > - weight_sum as" and "(\<Sum>a \<leftarrow> as. credit current (au_id a)) = 0"
  shows "\<exists>picks current'. weighted_run k as current = (picks, current') \<and> length picks = k \<and> set picks \<subseteq> set as \<and>
    (\<forall>a \<in> set as. credit current' (au_id a) =
       credit current (au_id a) + int k * credential_weight a - weight_sum as * int (count_list picks a)) \<and>
    (\<forall>a \<in> set as. credit current' (au_id a) > - weight_sum as)"
  using assms(5,6)
proof (induction k arbitrary: current)
  case (Suc k)
  let ?W = "weight_sum as"
  have pos: "0 \<le> ?W" using assms(3) by (intro sum_list_nonneg) (auto intro: less_imp_le)
  have up: "credit current (au_id a) + ?W \<le> int (length as) * ?W" if "a \<in> set as" for a
  proof -
    have "credit current (au_id a) + ?W \<le> (\<Sum>a \<leftarrow> as. credit current (au_id a) + ?W)"
      using Suc.prems(1) that by (intro member_le_sum_list) (auto intro: less_imp_le simp: less_diff_eq [symmetric])
    also have "\<dots> = int (length as) * ?W" using Suc.prems(2) by (simp add: sum_list_addf sum_list_triv)
    finally show ?thesis .
  qed
  have wW: "credential_weight a \<le> ?W" if "a \<in> set as" for a
    using assms(3) that by (intro member_le_sum_list) (auto intro: less_imp_le)
  have n1: "?W \<le> int (length as) * ?W"
    using pos assms(1) mult_right_mono [of 1 "int (length as)" ?W] by (cases as) auto
  have "\<bar>credit current (au_id a)\<bar> + credential_weight a \<le> int64_max" if "a \<in> set as" for a
    using up [OF that] wW [OF that] bspec [OF Suc.prems(1) that] assms(4) n1 pos by (simp add: distrib_right)
  then have bounds: "in_bounds as current int64_max" by (simp add: in_bounds_def)
  have "?W \<le> int64_max" using assms(4) n1 pos by (auto simp: distrib_right)
  from pick_smooth_weighted_spec [OF assms(1-3) bounds this] Suc.prems(2) obtain b cur where
    pick: "pick_smooth_weighted as current = (Some b, cur)" "b \<in> set as" "0 < credit current (au_id b) + credential_weight b"
    and cr: "\<forall>a \<in> set as. credit cur (au_id a) = credit current (au_id a) + credential_weight a - (if a = b then ?W else 0)"
    by auto
  have "\<forall>a \<in> set as. credit cur (au_id a) > - ?W"
  proof
    fix a assume a: "a \<in> set as"
    show "credit cur (au_id a) > - ?W"
      using bspec [OF cr a] pick(3) bspec [OF Suc.prems(1) a] bspec [OF assms(3) a] by (cases "a = b") simp_all
  qed
  moreover have "(\<Sum>a \<leftarrow> as. credit cur (au_id a)) =
      (\<Sum>a \<leftarrow> as. credit current (au_id a) + credential_weight a - (if a = b then ?W else 0))"
    using cr by (intro arg_cong [of _ _ sum_list] map_cong) auto
  then have "(\<Sum>a \<leftarrow> as. credit cur (au_id a)) = 0"
    using Suc.prems(2) sum_indicator [of as b ?W] assms(2) pick(2)
    by (simp add: sum_list_addf sum_list_subtractf distinct_map)
  ultimately obtain picks current' where run: "weighted_run k as cur = (picks, current')" "length picks = k"
    "set picks \<subseteq> set as" "\<forall>a \<in> set as. credit current' (au_id a) =
       credit cur (au_id a) + int k * credential_weight a - ?W * int (count_list picks a)"
    "\<forall>a \<in> set as. credit current' (au_id a) > - ?W"
    using Suc.IH by blast
  have "\<forall>a \<in> set as. credit current' (au_id a) =
       credit current (au_id a) + int (Suc k) * credential_weight a - ?W * int (count_list (b # picks) a)"
    using run(4) cr by (auto simp: algebra_simps)
  then show ?case using run pick(1,2) by (intro exI [of _ "b # picks"] exI [of _ current']) simp
qed simp

lemma sum_count_list:
  assumes "distinct as" and "set picks \<subseteq> set as"
  shows "(\<Sum>a \<leftarrow> as. int (count_list picks a)) = int (length picks)"
  using assms(2)
proof (induction picks)
  case (Cons p picks)
  have "(\<Sum>a \<leftarrow> as. int (count_list (p # picks) a)) = (\<Sum>a \<leftarrow> as. (if a = p then 1 else 0) + int (count_list picks a))"
    by (intro arg_cong [of _ _ sum_list] map_cong) auto
  with Cons assms(1) show ?case by (simp add: sum_list_addf sum_indicator)
qed simp

text \<open>C13: Smooth weighted round robin is exact: from fresh credits, with distinct identifiers and weights far
  from the 64-bit limit, as many picks as the weights sum to pick every credential exactly as often
  as its weight says, and the credits are fresh again, so the rotation repeats.\<close>

theorem smooth_weighted_exact:
  assumes "as \<noteq> []" and "distinct (map au_id as)" and "\<forall>a \<in> set as. credential_weight a > 0"
    and "(int (length as) + 1) * (\<Sum>a \<leftarrow> as. credential_weight a) \<le> int64_max"
    and "\<forall>a \<in> set as. credit current (au_id a) = 0"
  shows "\<exists>picks current'. weighted_run (nat (\<Sum>a \<leftarrow> as. credential_weight a)) as current = (picks, current') \<and>
    int (length picks) = (\<Sum>a \<leftarrow> as. credential_weight a) \<and> set picks \<subseteq> set as \<and>
    (\<forall>a \<in> set as. int (count_list picks a) = credential_weight a \<and> credit current' (au_id a) = 0)"
proof -
  let ?W = "weight_sum as"
  have w: "credential_weight (hd as) \<le> ?W" "0 < credential_weight (hd as)"
    using assms(1,3) by (auto intro!: member_le_sum_list simp: less_imp_le)
  then have pos: "0 < ?W" by simp
  have "(\<Sum>a \<leftarrow> as. credit current (au_id a)) = (\<Sum>a \<leftarrow> as. 0)"
    using assms(5) by (intro arg_cong [of _ _ sum_list] map_cong) auto
  then have "(\<Sum>a \<leftarrow> as. credit current (au_id a)) = 0" by simp
  from weighted_run_credits [OF assms(1-4) _ this, of "nat ?W"] pos assms(5) obtain picks current' where
    run: "weighted_run (nat ?W) as current = (picks, current')" "int (length picks) = ?W" "set picks \<subseteq> set as"
    and cr: "\<forall>a \<in> set as. credit current' (au_id a) = ?W * (credential_weight a - int (count_list picks a))"
      "\<forall>a \<in> set as. credit current' (au_id a) > - ?W"
    by (auto simp: algebra_simps)
  have le: "int (count_list picks a) \<le> credential_weight a" if "a \<in> set as" for a
  proof (rule ccontr)
    assume "\<not> int (count_list picks a) \<le> credential_weight a"
    then have "?W * (credential_weight a - int (count_list picks a)) \<le> ?W * (- 1)"
      using pos by (intro mult_left_mono) auto
    with cr that show False by force
  qed
  have "(\<Sum>a \<leftarrow> as. credential_weight a - int (count_list picks a)) = 0"
    using sum_count_list [of as picks] run(2,3) assms(2) by (simp add: sum_list_subtractf distinct_map)
  moreover have "credential_weight a - int (count_list picks a) \<le> (\<Sum>a \<leftarrow> as. credential_weight a - int (count_list picks a))"
    if "a \<in> set as" for a
    using le that by (intro member_le_sum_list) auto
  ultimately have "int (count_list picks a) = credential_weight a" if "a \<in> set as" for a
    using le [OF that] that by force
  with run cr(1) show ?thesis by (intro exI [of _ picks] exI [of _ current']) simp
qed

section \<open>A credential-wide quota takes the credential out of the rotation\<close>

lemma quota_failure_blocked:
  assumes "is_quota_failure p r" and "rs_credential_scope r" and "\<not> cooling_off p r"
    and "result_key r \<noteq> []" and "0 \<le> cp_now p" and "rs_retry_after r = Some d"
    and "mark_failure p r a = (e, b)" and "t < cp_now p + max d minQuotaCooldownFloor"
  shows "fst (is_auth_blocked_for_model h b model t)"
proof -
  from credential_quota_reaches_all [OF assms(1-5,7)] assms(6) have q:
    "credential_quota_active b" "qs_next_recover (au_quota b) \<ge> cp_now p + floor_cooldown d" by auto
  moreover have "floor_cooldown d = max d minQuotaCooldownFloor" by (simp add: floor_cooldown_def max_def)
  ultimately have "qs_exceeded (au_quota b) \<and> live_credential_quota t b"
    using assms(8) by (simp add: credential_quota_active_def live_credential_quota_def)
  then show ?thesis by (simp add: is_auth_blocked_for_model_def Let_def)
qed

text \<open>After a credential-wide quota error with cooling on, the credential is blocked for every model until
  the quota recovers, which is at least ten seconds after the error and at least the provider's own
  hint: it is not among the candidates of any pick in that time.\<close>

theorem credential_quota_blocks_picks:
  assumes "is_quota_failure p r" and "rs_credential_scope r" and "\<not> cooling_off p r"
    and "result_key r \<noteq> []" and "0 \<le> cp_now p" and "rs_retry_after r = Some d"
    and "mark_failure p r a = (e, b)"
    and "cp_now p \<le> t" and "t < cp_now p + max d minQuotaCooldownFloor"
  shows "fst (is_auth_blocked_for_model h b model t) \<and>
    (get_available_auths h auths provider model t all = Inr cs \<and> b \<in> set auths \<longrightarrow> b \<notin> set cs)"
proof -
  have blocked: "fst (is_auth_blocked_for_model h b model t)"
    using quota_failure_blocked [OF assms(1-7,9)] .
  have "b \<notin> set cs" if cs: "get_available_auths h auths provider model t all = Inr cs"
  proof
    assume "b \<in> set cs"
    let ?b = "av_buckets (collect_available_by_priority h auths model t)"
    have "cs = available_from_buckets ?b all"
      using cs by (auto simp: get_available_auths_def Let_def split: if_splits)
    moreover have "\<exists>p. b \<in> set (bucket ?b p)" if mem: "b \<in> set (concat (map snd ?b))"
    proof -
      obtain p as where "(p, as) \<in> set ?b" "b \<in> set as" using mem by auto
      moreover have "distinct (map fst ?b)" using collect_buckets by blast
      ultimately have "bucket ?b p = as" by (simp add: bucket_def)
      with \<open>b \<in> set as\<close> show ?thesis by blast
    qed
    moreover have "\<exists>p. b \<in> set (bucket ?b p)" if "\<not> all" "b \<in> set cs" "cs = available_from_buckets ?b all"
      using that by (cases "best_priority None ?b") (auto simp: available_from_buckets_def)
    ultimately have "\<exists>p. b \<in> set (bucket ?b p)"
      using \<open>b \<in> set cs\<close> by (cases all) (simp_all add: available_from_buckets_def)
    then obtain p where p: "b \<in> set (bucket ?b p)" ..
    have "bucket ?b p = filter (\<lambda>a. free h model t a \<and> auth_priority a = p) auths"
      using collect_buckets by blast
    with p blocked show False by simp
  qed
  with blocked show ?thesis by blast
qed

section \<open>Witnesses\<close>

definition demo_hooks :: block_hooks where
  "demo_hooks = \<lparr>bh_token_expiry = (\<lambda>_. None), bh_kiro_blocked = (\<lambda>_ _. (False, 0))\<rparr>"

definition demo_free :: "string \<Rightarrow> auth" where
  "demo_free i = demo_auth\<lparr>au_id := i, au_states := []\<rparr>"

lemma demo_free_facts:
  "au_id (demo_free i) = i" "credential_weight (demo_free i) = 1"
  "is_auth_blocked_for_model demo_hooks (demo_free i) [] 5 = (False, BlockNone, 0)"
proof -
  show "au_id (demo_free i) = i" by (simp add: demo_free_def)
  show "credential_weight (demo_free i) = 1"
    by (simp add: demo_free_def demo_auth_def credential_weight_def credential_weight_value_def attribute_def
        DefaultCredentialWeight_def trim_eval)
  show "is_auth_blocked_for_model demo_hooks (demo_free i) [] 5 = (False, BlockNone, 0)"
    by (simp add: demo_free_def demo_auth_def demo_hooks_def is_auth_blocked_for_model_def status_defs
        has_unauthorized_auth_failure_def empty_quota_def zero_time_def)
qed

theorem get_available_auths_spec_witness:
  "get_available_auths demo_hooks [demo_free ''b''] ''p'' [] 5 False = Inr [demo_free ''b'']"
  using get_available_auths_spec [of 5 "[demo_free ''b'']" demo_hooks "''p''" "[]"]
  by (simp add: demo_free_facts best_candidates_def)

theorem round_robin_fair_witness:
  "mset (round_robin_run ''k'' [demo_free ''a'', demo_free ''b''] 2 \<lparr>rr_last = [], rr_max_keys = 0\<rparr>) =
     mset [demo_free ''a'', demo_free ''b'']"
proof -
  let ?av = "[demo_free ''a'', demo_free ''b'']"
  have "''a'' < (''b'' :: string)" by (simp add: less_char_def)
  then have "sorted (map au_id ?av)" "distinct (map au_id ?av)" "[] \<notin> au_id ` set ?av" "?av \<noteq> []"
    by (simp_all add: demo_free_facts)
  from round_robin_fair [OF this(4,1,2,3), of "''k''" "\<lparr>rr_last = [], rr_max_keys = 0\<rparr>"]
  have "mset (round_robin_run ''k'' ?av (length ?av) \<lparr>rr_last = [], rr_max_keys = 0\<rparr>) = mset ?av" by blast
  moreover have "length ?av = 2" by simp
  ultimately show ?thesis by (simp only:)
qed

theorem smooth_weighted_exact_witness:
  "\<exists>picks current. weighted_run 2 [demo_free ''a'', demo_free ''b''] [] = (picks, current) \<and>
     int (count_list picks (demo_free ''a'')) = 1 \<and> int (count_list picks (demo_free ''b'')) = 1"
  using smooth_weighted_exact [of "[demo_free ''a'', demo_free ''b'']" "[]"]
  by (auto simp: demo_free_facts credit_def int64_max_def)

theorem credential_quota_blocks_picks_witness:
  "fst (is_auth_blocked_for_model demo_hooks (snd (mark_failure demo_policy
     (demo_failure\<lparr>rs_credential_scope := True, rs_retry_after := Some 3\<rparr>) demo_auth)) ''other'' 1000000000003)"
proof -
  let ?r = "demo_failure\<lparr>rs_credential_scope := True, rs_retry_after := Some 3\<rparr>"
  obtain e b where m: "mark_failure demo_policy ?r demo_auth = (e, b)" by fastforce
  have q: "is_quota_failure demo_policy ?r"
    by (simp add: is_quota_failure_def demo_failure_def status_code_of_def is_model_support_result_error_def
        is_invalid_grant_result_error_def)
  have c: "\<not> cooling_off demo_policy ?r" by (simp add: cooling_off_def demo_policy_def)
  have k: "result_key ?r \<noteq> []" using demo_key by (simp add: result_key_def)
  have "fst (is_auth_blocked_for_model demo_hooks b ''other'' 1000000000003)"
    using credential_quota_blocks_picks [OF q _ c k _ _ m, of 3 1000000000003]
    by (simp add: demo_policy_def minQuotaCooldownFloor_def second_def)
  then show ?thesis by (simp add: m)
qed

end
