(* ===== verification/Model_Info.thy ===== *)
theory Model_Info
  imports Thinking_Config "HOL-Library.Word"
begin

text \<open>
  The description of a model (internal/registry/model_registry.go and model_definitions.go): its
  fields, the tri-state web search capability and how it is merged over clients and routes, the
  family of a dated or bracketed Claude model, the look-up that falls back to the static
  catalog, and the maps a listing is made of. A pointer to an immutable copy is the value, so
  \<open>cloneModelInfo\<close> is the identity; a nil pointer is \<open>None\<close>.
\<close>

section \<open>Data\<close>

record native_capabilities =
  nc_web_search :: "bool option"

record thinking_meta = thinking_support +
  tm_disable_type :: string

record model_meta =
  mm_id :: string
  mm_metadata_model_id :: string
  mm_explicit_thinking :: bool
  mm_explicit_input_modalities :: bool
  mm_object :: string
  mm_created :: int
  mm_owned_by :: string
  mm_type :: string
  mm_display_name :: string
  mm_name :: string
  mm_version :: string
  mm_description :: string
  mm_input_token_limit :: int
  mm_output_token_limit :: int
  mm_generation_methods :: "string list"
  mm_context_length :: int
  mm_max_context_length :: int
  mm_max_completion_tokens :: int
  mm_parameters :: "string list"
  mm_input_modalities :: "string list"
  mm_output_modalities :: "string list"
  mm_supports_web_search :: bool
  mm_native :: "native_capabilities option"
  mm_configuration_update :: bool
  mm_thinking :: "thinking_meta option"
  mm_user_defined :: bool
  mm_is_compat :: bool

definition empty_meta :: model_meta where
  "empty_meta = \<lparr>mm_id = [], mm_metadata_model_id = [], mm_explicit_thinking = False,
     mm_explicit_input_modalities = False, mm_object = [], mm_created = 0, mm_owned_by = [], mm_type = [],
     mm_display_name = [], mm_name = [], mm_version = [], mm_description = [], mm_input_token_limit = 0,
     mm_output_token_limit = 0, mm_generation_methods = [], mm_context_length = 0,
     mm_max_context_length = 0, mm_max_completion_tokens = 0, mm_parameters = [], mm_input_modalities = [],
     mm_output_modalities = [], mm_supports_web_search = False, mm_native = None,
     mm_configuration_update = False, mm_thinking = None, mm_user_defined = False, mm_is_compat = False\<rparr>"

section \<open>Web search\<close>

definition has_native_web_search :: "model_meta option \<Rightarrow> bool" where
  "has_native_web_search m =
     (case m of None \<Rightarrow> False
      | Some i \<Rightarrow> (if mm_supports_web_search i then True
                  else case mm_native i of None \<Rightarrow> False | Some c \<Rightarrow> nc_web_search c = Some True))"

definition web_search_of :: "model_meta \<Rightarrow> bool option" where
  "web_search_of m = (case mm_native m of None \<Rightarrow> None | Some c \<Rightarrow> nc_web_search c)"

definition set_web_search :: "bool option \<Rightarrow> model_meta \<Rightarrow> model_meta" where
  "set_web_search w m =
     (case mm_native m of
        None \<Rightarrow> (if w = None then m else m\<lparr>mm_native := Some \<lparr>nc_web_search = w\<rparr>\<rparr>)
      | Some c \<Rightarrow> m\<lparr>mm_native := Some (c\<lparr>nc_web_search := w\<rparr>)\<rparr>)"

lemma web_search_of_set [simp]: "web_search_of (set_web_search w m) = w"
  by (auto simp: web_search_of_def set_web_search_def split: option.splits)

lemma set_web_search_id [simp]: "mm_id (set_web_search w m) = mm_id m"
  by (auto simp: set_web_search_def split: option.splits)

text \<open>The routes that serve one public model.\<close>

record capability_route =
  cr_provider :: string
  cr_native :: "native_capabilities option"

definition web_search_provider_path :: "string \<Rightarrow> bool option" where
  "web_search_provider_path provider =
     (let p = to_lower (trim_space provider) in
      if p \<in> {''codex'', ''xai'', ''claude'', ''antigravity''} then Some True
      else if p \<in> {''openai'', ''openai-compatibility'', ''gemini'', ''aistudio'', ''vertex'', ''kimi'', ''kimi-ai'',
                   ''kimi.ai'', ''kimi.com'', ''interactions'', ''gemini-interactions''} then Some False
      else if prefix ''openai-compatible-'' p then Some False
      else None)"

fun resolve_routes :: "bool \<Rightarrow> capability_route list \<Rightarrow> bool option" where
  "resolve_routes has_unknown [] = (if has_unknown then None else Some True)"
| "resolve_routes has_unknown (x # xs) =
     (if (case cr_native x of None \<Rightarrow> False | Some c \<Rightarrow> nc_web_search c = Some False) then Some False
      else case web_search_provider_path (cr_provider x) of
          None \<Rightarrow> resolve_routes True xs
        | Some support \<Rightarrow>
            (if \<not> support then Some False
             else if (case cr_native x of None \<Rightarrow> True | Some c \<Rightarrow> nc_web_search c = None)
               then resolve_routes True xs
             else resolve_routes has_unknown xs))"

definition resolve_responses_web_search :: "capability_route list \<Rightarrow> bool option" where
  "resolve_responses_web_search routes = (if routes = [] then None else resolve_routes False routes)"

text \<open>What one route says: the worse of its own capability and its provider's.\<close>

definition route_support :: "capability_route \<Rightarrow> bool option" where
  "route_support x =
     (let own = (case cr_native x of None \<Rightarrow> None | Some c \<Rightarrow> nc_web_search c);
          path = web_search_provider_path (cr_provider x)
      in if own = Some False \<or> path = Some False then Some False
         else if own = Some True \<and> path = Some True then Some True else None)"

lemma resolve_routes_Cons:
  "resolve_routes u (x # xs) =
     (case route_support x of
        Some support \<Rightarrow> if support then resolve_routes u xs else Some False
      | None \<Rightarrow> resolve_routes True xs)"
  by (cases "cr_native x"; cases "web_search_provider_path (cr_provider x)")
    (auto simp: route_support_def Let_def split: option.splits bool.splits)

lemma resolve_routes_spec:
  "resolve_routes u xs =
     (if \<exists>x \<in> set xs. route_support x = Some False then Some False
      else if u \<or> (\<exists>x \<in> set xs. route_support x = None) then None else Some True)"
proof (induction xs arbitrary: u)
  case (Cons x xs)
  show ?case
    unfolding resolve_routes_Cons Cons.IH by (cases "route_support x") auto
qed simp

section \<open>Look-up\<close>

fun index_of :: "char \<Rightarrow> string \<Rightarrow> nat option" where
  "index_of c [] = None"
| "index_of c (x # xs) = (if x = c then Some 0 else map_option Suc (index_of c xs))"

definition is_digit :: "char \<Rightarrow> bool" where
  "is_digit c \<longleftrightarrow> CHR ''0'' \<le> c \<and> c \<le> CHR ''9''"

definition add_family :: "string \<Rightarrow> string list \<Rightarrow> string list" where
  "add_family i out = (let t = trim_space i in if t \<noteq> [] \<and> t \<notin> set out then out @ [t] else out)"

definition claude_family_model_ids :: "string \<Rightarrow> string list" where
  "claude_family_model_ids model_id =
     (let cl = to_lower (trim_space model_id) in
      if cl = [] then []
      else let out = [cl];
               out = (case index_of (CHR ''['') cl of None \<Rightarrow> out | Some b \<Rightarrow> add_family (take b cl) out)
           in case split_last (CHR ''-'') cl of
                None \<Rightarrow> out
              | Some (front, suf) \<Rightarrow>
                  (if suf \<noteq> [] \<and> length suf = 8 \<and> list_all is_digit suf then add_family front out else out))"

definition claude_family_variant_ids :: "string \<Rightarrow> string list" where
  "claude_family_variant_ids model_id =
     (if \<not> prefix ''claude-'' model_id then []
      else let (base, ids) =
                 (case index_of (CHR ''['') model_id of
                    Some i \<Rightarrow> (if i > 0 \<and> suffix '']'' model_id then (take i model_id, [take i model_id])
                              else (model_id, []))
                  | None \<Rightarrow> (model_id, []));
               n = length base
           in if n > 9 \<and> base ! (n - 9) = CHR ''-'' \<and> list_all is_digit (drop (n - 8) base)
              then ids @ [take (n - 9) base] else ids)"

definition id_or_variant :: "string \<Rightarrow> string \<Rightarrow> bool" where
  "id_or_variant base i \<longleftrightarrow> i = base \<or> prefix (base @ ''-'') i \<or> prefix (base @ ''['') i"

definition fixed_thinking :: "thinking_meta \<Rightarrow> thinking_meta" where
  "fixed_thinking t = t\<lparr>ts_min := 0, ts_max := 0, ts_dynamic_allowed := True\<rparr>"

definition post_process_claude :: "model_meta option \<Rightarrow> model_meta option" where
  "post_process_claude info =
     (case info of None \<Rightarrow> None
      | Some m \<Rightarrow>
          (case mm_thinking m of None \<Rightarrow> Some m
           | Some t \<Rightarrow>
               (let i = to_lower (trim_space (mm_id m));
                    t = (if id_or_variant ''claude-sonnet-5-5'' i \<and> tm_disable_type t = []
                         then t\<lparr>tm_disable_type := ''between_tools''\<rparr> else t);
                    t = (if id_or_variant ''claude-opus-5-5'' i then t\<lparr>ts_zero_allowed := False\<rparr> else t);
                    t = (if id_or_variant ''claude-fable-5'' i \<or> id_or_variant ''claude-fable-5-1'' i
                         then fixed_thinking (t\<lparr>ts_zero_allowed := False\<rparr>) else t);
                    t = (if id_or_variant ''claude-opus-4-7'' i \<or> id_or_variant ''claude-opus-4-8'' i
                         then fixed_thinking t else t)
                in Some (m\<lparr>mm_thinking := Some t\<rparr>))))"

text \<open>The static catalog is embedded data: the sections in the order of the look-up, with the Claude section.\<close>

record static_catalog =
  sc_sections :: "model_meta option list list"
  sc_claude :: "model_meta option list"

definition find_model :: "string \<Rightarrow> model_meta option list \<Rightarrow> model_meta option" where
  "find_model i ms = find (\<lambda>m. mm_id m = i) (map the (filter (\<lambda>m. m \<noteq> None) ms))"

definition lookup_static_model_info :: "static_catalog \<Rightarrow> string \<Rightarrow> model_meta option" where
  "lookup_static_model_info cat model_id =
     (if model_id = [] then None
      else case find_model model_id (concat (sc_sections cat)) of
          Some m \<Rightarrow> Some m
        | None \<Rightarrow>
            (case List.map_filter (\<lambda>i. find_model i (sc_claude cat)) (claude_family_variant_ids model_id) of
               [] \<Rightarrow> None | m # _ \<Rightarrow> Some m))"

section \<open>Listings\<close>

datatype model_value = VString string | VInt int | VList "string list"

definition entry_if :: "bool \<Rightarrow> string \<Rightarrow> model_value \<Rightarrow> (string \<times> model_value) list" where
  "entry_if b k v = (if b then [(k, v)] else [])"

definition openai_map :: "model_meta \<Rightarrow> (string \<times> model_value) list" where
  "openai_map m =
     [(''id'', VString (mm_id m)), (''object'', VString ''model''), (''owned_by'', VString (mm_owned_by m))]
     @ entry_if (mm_created m > 0) ''created'' (VInt (mm_created m))
     @ entry_if (mm_type m \<noteq> []) ''type'' (VString (mm_type m))
     @ entry_if (mm_display_name m \<noteq> []) ''display_name'' (VString (mm_display_name m))
     @ entry_if (mm_version m \<noteq> []) ''version'' (VString (mm_version m))
     @ entry_if (mm_description m \<noteq> []) ''description'' (VString (mm_description m))
     @ entry_if (mm_context_length m > 0) ''context_length'' (VInt (mm_context_length m))
     @ entry_if (mm_max_context_length m > 0) ''max_context_length'' (VInt (mm_max_context_length m))
     @ entry_if (mm_max_completion_tokens m > 0) ''max_completion_tokens'' (VInt (mm_max_completion_tokens m))
     @ entry_if (mm_parameters m \<noteq> []) ''supported_parameters'' (VList (mm_parameters m))"

definition claude_map :: "model_meta \<Rightarrow> (string \<times> model_value) list" where
  "claude_map m =
     [(''id'', VString (mm_id m)), (''object'', VString ''model''), (''owned_by'', VString (mm_owned_by m))]
     @ entry_if (mm_created m > 0) ''created_at'' (VInt (mm_created m))
     @ entry_if (mm_type m \<noteq> []) ''type'' (VString ''model'')
     @ [(''display_name'', VString (if mm_display_name m \<noteq> [] then mm_display_name m else mm_id m))]"

definition gemini_map :: "model_meta \<Rightarrow> (string \<times> model_value) list" where
  "gemini_map m =
     [(''name'', VString (if mm_name m \<noteq> [] then mm_name m else mm_id m))]
     @ entry_if (mm_version m \<noteq> []) ''version'' (VString (mm_version m))
     @ entry_if (mm_display_name m \<noteq> []) ''displayName'' (VString (mm_display_name m))
     @ entry_if (mm_description m \<noteq> []) ''description'' (VString (mm_description m))
     @ entry_if (mm_input_token_limit m > 0) ''inputTokenLimit'' (VInt (mm_input_token_limit m))
     @ entry_if (mm_output_token_limit m > 0) ''outputTokenLimit'' (VInt (mm_output_token_limit m))
     @ entry_if (mm_generation_methods m \<noteq> []) ''supportedGenerationMethods'' (VList (mm_generation_methods m))
     @ entry_if (mm_input_modalities m \<noteq> []) ''supportedInputModalities'' (VList (mm_input_modalities m))
     @ entry_if (mm_output_modalities m \<noteq> []) ''supportedOutputModalities'' (VList (mm_output_modalities m))"

definition generic_map :: "model_meta \<Rightarrow> (string \<times> model_value) list" where
  "generic_map m =
     [(''id'', VString (mm_id m)), (''object'', VString ''model'')]
     @ entry_if (mm_owned_by m \<noteq> []) ''owned_by'' (VString (mm_owned_by m))
     @ entry_if (mm_type m \<noteq> []) ''type'' (VString (mm_type m))
     @ entry_if (mm_created m \<noteq> 0) ''created'' (VInt (mm_created m))"

type_synonym listing = "(string \<times> model_value) list"

definition convert_model_to_map :: "model_meta \<Rightarrow> string \<Rightarrow> listing" where
  "convert_model_to_map m handler =
     (if handler = ''openai'' then openai_map m
      else if handler = ''claude'' then claude_map m
      else if handler = ''gemini'' \<or> handler = ''gemini-cli'' then gemini_map m
      else generic_map m)"

lemma map_of_entry_if [simp]:
  "map_of (entry_if b k v @ xs) j = (if b \<and> j = k then Some v else map_of xs j)"
  "map_of (entry_if b k v) j = (if b \<and> j = k then Some v else None)"
  by (simp_all add: entry_if_def)

lemmas listing_defs = openai_map_def claude_map_def gemini_map_def generic_map_def

lemma listing_id:
  "map_of (convert_model_to_map m handler) ''id'' =
     (if handler \<in> {''gemini'', ''gemini-cli''} then None else Some (VString (mm_id m)))"
  by (simp add: convert_model_to_map_def listing_defs del: map_of_append)

lemma listing_created:
  "map_of (convert_model_to_map m handler) ''created'' =
     (if handler \<in> {''claude'', ''gemini'', ''gemini-cli''} then None
      else if handler = ''openai'' then (if mm_created m > 0 then Some (VInt (mm_created m)) else None)
      else (if mm_created m \<noteq> 0 then Some (VInt (mm_created m)) else None))"
  by (simp add: convert_model_to_map_def listing_defs del: map_of_append)

end
