(* ===== verification/Model_Registry.thy ===== *)
theory Model_Registry
  imports Model_Info Transition_Systems
begin

text \<open>
  The registry of models (internal/registry/model_registry.go): which client offers which models, the
  entry of each model with its count of clients, its providers and its marks, and the epochs that
  fence concurrent updates. A client's tables are what it registered; the table of models is derived
  from them step by step, as the code does. Maps are association lists with distinct keys, and a nil
  map is an empty one. An entry always has a description and a quota mark always has a time, since
  the only constructors set them. An epoch is 64 bits wide. The hooks are asynchronous calls and are
  left out.
\<close>

section \<open>State\<close>

record model_registration =
  mr_info :: model_meta
  mr_info_by_provider :: "(string \<times> model_meta) list"
  mr_count :: int
  mr_last_updated :: instant
  mr_quota :: "(string \<times> instant) list"
  mr_providers :: "(string \<times> int) list"
  mr_suspended :: "(string \<times> string) list"

record cache_entry =
  ce_models :: "listing list"
  ce_expires :: instant

record model_registry =
  gr_models :: "(string \<times> model_registration) list"
  gr_client_models :: "(string \<times> string list) list"
  gr_client_infos :: "(string \<times> (string \<times> model_meta) list) list"
  gr_client_providers :: "(string \<times> string) list"
  gr_epochs :: "(string \<times> 64 word) list"
  gr_generations :: "(string \<times> 64 word) list"
  gr_cache :: "(string \<times> cache_entry) list"
  gr_generation :: "64 word"

definition new_model_registry :: model_registry where
  "new_model_registry = \<lparr>gr_models = [], gr_client_models = [], gr_client_infos = [], gr_client_providers = [],
     gr_epochs = [], gr_generations = [], gr_cache = [], gr_generation = 0\<rparr>"

text \<open>Reading a Go map of strings, or of numbers: the zero value when the key is absent.\<close>

definition string_at :: "(string \<times> string) list \<Rightarrow> string \<Rightarrow> string" where
  "string_at m k = (case map_of m k of None \<Rightarrow> [] | Some s \<Rightarrow> s)"

definition num_at :: "(string \<times> 'n :: zero) list \<Rightarrow> string \<Rightarrow> 'n" where
  "num_at m k = (case map_of m k of None \<Rightarrow> 0 | Some n \<Rightarrow> n)"

definition infos_at :: "model_registry \<Rightarrow> string \<Rightarrow> (string \<times> model_meta) list" where
  "infos_at r c = (case map_of (gr_client_infos r) c of None \<Rightarrow> [] | Some is \<Rightarrow> is)"

definition invalidate :: "model_registry \<Rightarrow> model_registry" where
  "invalidate r = r\<lparr>gr_generation := gr_generation r + 1, gr_cache := []\<rparr>"

section \<open>The merged capability\<close>

fun merge_clients ::
  "(string \<times> string) list \<Rightarrow> string \<Rightarrow> string \<Rightarrow> string \<Rightarrow> bool
    \<Rightarrow> (string \<times> (string \<times> model_meta) list) list \<Rightarrow> bool option" where
  "merge_clients provs i p ex saw [] = (if saw then Some False else None)"
| "merge_clients provs i p ex saw ((c, infos) # rest) =
     (if c = ex then merge_clients provs i p ex saw rest
      else if p \<noteq> [] \<and> string_at provs c \<noteq> p then merge_clients provs i p ex saw rest
      else case map_of infos i of
          None \<Rightarrow> merge_clients provs i p ex saw rest
        | Some info \<Rightarrow>
            (case web_search_of info of
               None \<Rightarrow> merge_clients provs i p ex saw rest
             | Some declared \<Rightarrow>
                 (if declared then Some True else merge_clients provs i p ex True rest)))"

definition merged_web_search :: "model_registry \<Rightarrow> string \<Rightarrow> string \<Rightarrow> string \<Rightarrow> bool option \<Rightarrow> bool option" where
  "merged_web_search r i p ex base =
     (if base = Some True then Some True
      else merge_clients (gr_client_providers r) i p ex (base \<noteq> None) (gr_client_infos r))"

section \<open>Entries\<close>

text \<open>The entry of one model, replaced or removed.\<close>

definition at_model ::
  "string \<Rightarrow> (model_registration option \<Rightarrow> model_registration option) \<Rightarrow> model_registry \<Rightarrow> model_registry" where
  "at_model i f r =
     (case f (map_of (gr_models r) i) of
        None \<Rightarrow> r\<lparr>gr_models := AList.delete i (gr_models r)\<rparr>
      | Some g \<Rightarrow> r\<lparr>gr_models := AList.update i g (gr_models r)\<rparr>)"

definition merged_info :: "model_registry \<Rightarrow> string \<Rightarrow> string \<Rightarrow> string \<Rightarrow> bool option \<Rightarrow> model_meta \<Rightarrow> model_meta" where
  "merged_info r i p ex base m = set_web_search (merged_web_search r i p ex base) m"

definition refresh_provider :: "model_registry \<Rightarrow> string \<Rightarrow> string \<Rightarrow> string \<Rightarrow> model_registration \<Rightarrow> model_registration" where
  "refresh_provider r i p ex g =
     (case map_of (mr_info_by_provider g) p of
        None \<Rightarrow> g
      | Some m \<Rightarrow> g\<lparr>mr_info_by_provider := AList.update p (merged_info r i p ex None m) (mr_info_by_provider g)\<rparr>)"

definition drop_provider :: "string \<Rightarrow> model_registration \<Rightarrow> model_registration" where
  "drop_provider p g =
     (case map_of (mr_providers g) p of
        None \<Rightarrow> g
      | Some n \<Rightarrow>
          (if n \<le> 1 then g\<lparr>mr_providers := AList.delete p (mr_providers g),
                            mr_info_by_provider := AList.delete p (mr_info_by_provider g)\<rparr>
           else g\<lparr>mr_providers := AList.update p (n - 1) (mr_providers g)\<rparr>))"

definition clear_marks :: "string \<Rightarrow> model_registration \<Rightarrow> model_registration" where
  "clear_marks c g = g\<lparr>mr_quota := AList.delete c (mr_quota g), mr_suspended := AList.delete c (mr_suspended g)\<rparr>"

definition add_entry ::
  "model_registry \<Rightarrow> string \<Rightarrow> string \<Rightarrow> model_meta \<Rightarrow> instant \<Rightarrow> string
    \<Rightarrow> model_registration option \<Rightarrow> model_registration option" where
  "add_entry r i p m now ex e =
     (case e of
        Some g \<Rightarrow>
          (let g = g\<lparr>mr_count := mr_count g + 1, mr_last_updated := now,
                     mr_info := merged_info r i [] ex (web_search_of m) m\<rparr>
           in Some (if p \<noteq> []
                    then g\<lparr>mr_providers := AList.update p (num_at (mr_providers g) p + 1) (mr_providers g),
                           mr_info_by_provider :=
                             AList.update p (merged_info r i p ex (web_search_of m) m) (mr_info_by_provider g)\<rparr>
                    else g))
      | None \<Rightarrow>
          Some \<lparr>mr_info = m, mr_info_by_provider = (if p \<noteq> [] then [(p, m)] else []), mr_count = 1,
                mr_last_updated = now, mr_quota = [], mr_providers = (if p \<noteq> [] then [(p, 1)] else []),
                mr_suspended = []\<rparr>)"

definition add_model_registration ::
  "string \<Rightarrow> string \<Rightarrow> model_meta \<Rightarrow> instant \<Rightarrow> string \<Rightarrow> model_registry \<Rightarrow> model_registry" where
  "add_model_registration i p m now ex r = (if i = [] then r else at_model i (add_entry r i p m now ex) r)"

definition remove_entry ::
  "model_registry \<Rightarrow> string \<Rightarrow> string \<Rightarrow> string \<Rightarrow> instant
    \<Rightarrow> model_registration option \<Rightarrow> model_registration option" where
  "remove_entry r c i p now e =
     (case e of
        None \<Rightarrow> None
      | Some g \<Rightarrow>
          (let g = clear_marks c (g\<lparr>mr_count := max 0 (mr_count g - 1), mr_last_updated := now\<rparr>);
               g = (if p \<noteq> [] then drop_provider p g else g)
           in if mr_count g \<le> 0 then None
              else let g = g\<lparr>mr_info := merged_info r i [] c None (mr_info g)\<rparr>
                   in Some (if p \<noteq> [] then refresh_provider r i p c g else g)))"

definition remove_model_registration :: "string \<Rightarrow> string \<Rightarrow> string \<Rightarrow> instant \<Rightarrow> model_registry \<Rightarrow> model_registry" where
  "remove_model_registration c i p now r = at_model i (remove_entry r c i p now) r"

definition move_entry ::
  "model_registry \<Rightarrow> string \<Rightarrow> string \<Rightarrow> string \<Rightarrow> int
    \<Rightarrow> model_registration option \<Rightarrow> model_registration option" where
  "move_entry r c i old k e =
     (case e of
        None \<Rightarrow> None
      | Some g \<Rightarrow>
          (case map_of (mr_providers g) old of
             None \<Rightarrow> Some g
           | Some n \<Rightarrow>
               (if n \<le> k then Some (g\<lparr>mr_providers := AList.delete old (mr_providers g),
                                        mr_info_by_provider := AList.delete old (mr_info_by_provider g)\<rparr>)
                else Some (refresh_provider r i old c (g\<lparr>mr_providers := AList.update old (n - k) (mr_providers g)\<rparr>)))))"

section \<open>Registering a client\<close>

text \<open>The descriptions with an identifier, in order; and the first of each identifier.\<close>

definition valid_models :: "model_meta option list \<Rightarrow> (string \<times> model_meta) list" where
  "valid_models ms =
     map (\<lambda>m. (mm_id m, m)) (filter (\<lambda>m. mm_id m \<noteq> []) (map the (filter (\<lambda>m. m \<noteq> None) ms)))"

definition keep_first :: "('k \<times> 'v) list \<Rightarrow> ('k \<times> 'v) list" where
  "keep_first xs = foldl (\<lambda>al kv. if map_of al (fst kv) = None then al @ [kv] else al) [] xs"

definition bump_epoch :: "string \<Rightarrow> model_registry \<Rightarrow> model_registry" where
  "bump_epoch c r =
     r\<lparr>gr_epochs := AList.update c (num_at (gr_epochs r) c + 1) (gr_epochs r),
       gr_generations := AList.update c 0 (gr_generations r)\<rparr>"

definition unregister_entry ::
  "model_registry \<Rightarrow> string \<Rightarrow> string \<Rightarrow> string option \<Rightarrow> instant
    \<Rightarrow> model_registration option \<Rightarrow> model_registration option" where
  "unregister_entry r c i provider now e =
     (case e of
        None \<Rightarrow> None
      | Some g \<Rightarrow>
          (let g = clear_marks c (g\<lparr>mr_count := mr_count g - 1, mr_last_updated := now\<rparr>);
               g = (case provider of None \<Rightarrow> g | Some p \<Rightarrow> drop_provider p g)
           in if mr_count g \<le> 0 then None
              else let g = g\<lparr>mr_info := merged_info r i [] c None (mr_info g)\<rparr>
                   in Some (case provider of None \<Rightarrow> g | Some p \<Rightarrow> refresh_provider r i p c g)))"

definition unregister_client_internal :: "instant \<Rightarrow> string \<Rightarrow> model_registry \<Rightarrow> model_registry" where
  "unregister_client_internal now c r =
     (let provider = map_of (gr_client_providers r) c in
      case map_of (gr_client_models r) c of
        None \<Rightarrow> r\<lparr>gr_client_providers := AList.delete c (gr_client_providers r)\<rparr>
      | Some models \<Rightarrow>
          (let r = fold (\<lambda>i r. at_model i (unregister_entry r c i provider now) r) models r;
               r = bump_epoch c r
           in r\<lparr>gr_client_models := AList.delete c (gr_client_models r),
                gr_client_infos := AList.delete c (gr_client_infos r),
                gr_client_providers := AList.delete c (gr_client_providers r)\<rparr>))"

definition unregister_client :: "instant \<Rightarrow> string \<Rightarrow> model_registry \<Rightarrow> model_registry" where
  "unregister_client now c r = invalidate (unregister_client_internal now c r)"

text \<open>What a registration is about: the client, its provider now and before, the models now and before.\<close>

record registration_change =
  rc_client :: string
  rc_provider :: string
  rc_old_provider :: string
  rc_new :: "(string \<times> model_meta) list"
  rc_raw :: "string list"
  rc_old :: "string list"

definition new_count :: "registration_change \<Rightarrow> string \<Rightarrow> nat" where
  "new_count x i = count_list (rc_raw x) i"

definition old_count :: "registration_change \<Rightarrow> string \<Rightarrow> nat" where
  "old_count x i = count_list (rc_old x) i"

definition provider_changed :: "registration_change \<Rightarrow> bool" where
  "provider_changed x \<longleftrightarrow> rc_old_provider x \<noteq> rc_provider x"

definition move_step :: "registration_change \<Rightarrow> string \<Rightarrow> model_registry \<Rightarrow> model_registry" where
  "move_step x i r =
     (if new_count x i = 0 \<or> old_count x i = 0 then r
      else at_model i (move_entry r (rc_client x) i (rc_old_provider x)
                         (int (min (new_count x i) (old_count x i)))) r)"

definition removal_step :: "instant \<Rightarrow> registration_change \<Rightarrow> string \<Rightarrow> model_registry \<Rightarrow> model_registry" where
  "removal_step now x i r =
     (if new_count x i = 0
      then (remove_model_registration (rc_client x) i (rc_old_provider x) now ^^ old_count x i) r else r)"

definition overage_step :: "instant \<Rightarrow> registration_change \<Rightarrow> string \<Rightarrow> model_registry \<Rightarrow> model_registry" where
  "overage_step now x i r =
     (if new_count x i = 0 \<or> old_count x i \<le> new_count x i then r
      else (remove_model_registration (rc_client x) i (rc_old_provider x) now ^^ (old_count x i - new_count x i)) r)"

definition addition_step :: "instant \<Rightarrow> registration_change \<Rightarrow> string \<times> model_meta \<Rightarrow> model_registry \<Rightarrow> model_registry" where
  "addition_step now x im r =
     (let (i, m) = im in
      if new_count x i \<le> old_count x i then r
      else (add_model_registration i (rc_provider x) m now (rc_client x) ^^ (new_count x i - old_count x i)) r)"

definition metadata_entry ::
  "instant \<Rightarrow> registration_change \<Rightarrow> model_registry \<Rightarrow> string \<Rightarrow> model_meta
    \<Rightarrow> model_registration option \<Rightarrow> model_registration option" where
  "metadata_entry now x r i m e =
     (case e of
        None \<Rightarrow> None
      | Some g \<Rightarrow>
          (let c = rc_client x; p = rc_provider x; old = rc_old_provider x;
               g = g\<lparr>mr_info := merged_info r i [] c (web_search_of m) m\<rparr>;
               g = (if p \<noteq> [] then g\<lparr>mr_info_by_provider :=
                      AList.update p (merged_info r i p c (web_search_of m) m) (mr_info_by_provider g)\<rparr> else g);
               g = (if provider_changed x \<and> old \<noteq> [] then refresh_provider r i old c g else g);
               g = clear_marks c (g\<lparr>mr_last_updated := now\<rparr>);
               overlap = int (min (new_count x i) (old_count x i))
           in Some (if provider_changed x \<and> p \<noteq> [] \<and> old_count x i \<noteq> 0 \<and> overlap > 0
                    then g\<lparr>mr_providers := AList.update p (num_at (mr_providers g) p + overlap) (mr_providers g)\<rparr>
                    else g)))"

definition metadata_step :: "instant \<Rightarrow> registration_change \<Rightarrow> string \<times> model_meta \<Rightarrow> model_registry \<Rightarrow> model_registry" where
  "metadata_step now x im r = (let (i, m) = im in at_model i (metadata_entry now x r i m) r)"

definition reconcile_models :: "instant \<Rightarrow> registration_change \<Rightarrow> model_registry \<Rightarrow> model_registry" where
  "reconcile_models now x r =
     (let unique = map fst (rc_new x); olds = remdups (rc_old x);
          r = (if provider_changed x \<and> rc_old_provider x \<noteq> [] then fold (move_step x) unique r else r);
          r = fold (removal_step now x) olds r;
          r = fold (overage_step now x) olds r;
          r = fold (addition_step now x) (rc_new x) r
      in fold (metadata_step now x) (rc_new x) r)"

definition store_client :: "registration_change \<Rightarrow> model_registry \<Rightarrow> model_registry" where
  "store_client x r =
     (let c = rc_client x in
      r\<lparr>gr_client_models := AList.update c (rc_raw x) (gr_client_models r),
        gr_client_infos := AList.update c (rc_new x) (gr_client_infos r),
        gr_client_providers :=
          (if rc_provider x \<noteq> [] then AList.update c (rc_provider x) (gr_client_providers r)
           else AList.delete c (gr_client_providers r))\<rparr>)"

definition register_client :: "instant \<Rightarrow> string \<Rightarrow> string \<Rightarrow> model_meta option list \<Rightarrow> model_registry \<Rightarrow> model_registry" where
  "register_client now c client_provider models r =
     (let valid = valid_models models; new = keep_first valid; raw = map fst valid; p = to_lower client_provider in
      if new = [] then
        (let r = unregister_client_internal now c r
         in invalidate (r\<lparr>gr_client_models := AList.delete c (gr_client_models r),
                          gr_client_infos := AList.delete c (gr_client_infos r),
                          gr_client_providers := AList.delete c (gr_client_providers r)\<rparr>))
      else
        (let r = bump_epoch c r;
             x = \<lparr>rc_client = c, rc_provider = p, rc_old_provider = string_at (gr_client_providers r) c,
                   rc_new = new, rc_raw = raw,
                   rc_old = (case map_of (gr_client_models r) c of None \<Rightarrow> [] | Some old \<Rightarrow> old)\<rparr>;
             r = (case map_of (gr_client_models r) c of
                    None \<Rightarrow> fold (\<lambda>i. add_model_registration i p (the (map_of new i)) now c) raw r
                  | Some old \<Rightarrow> reconcile_models now x r)
         in invalidate (store_client x r)))"

text \<open>Fenced by the epoch; \<open>publish\<close> is the callback's answer, or nothing for a nil callback.\<close>

definition register_if_current ::
  "instant \<Rightarrow> string \<Rightarrow> string \<Rightarrow> 64 word \<Rightarrow> model_meta option list \<Rightarrow> bool option \<Rightarrow> model_registry \<Rightarrow> bool \<times> model_registry" where
  "register_if_current now c p expected models publish r =
     (if num_at (gr_epochs r) c \<noteq> expected \<or> publish \<noteq> Some True then (False, r)
      else (True, register_client now c p models r))"

definition unregister_if_current ::
  "instant \<Rightarrow> string \<Rightarrow> 64 word \<Rightarrow> bool option \<Rightarrow> model_registry \<Rightarrow> bool \<times> model_registry" where
  "unregister_if_current now c expected publish r =
     (if num_at (gr_epochs r) c \<noteq> expected \<or> publish \<noteq> Some True then (False, r)
      else (True, invalidate (unregister_client_internal now c r)))"

section \<open>Marks\<close>

definition set_model_quota_exceeded :: "instant \<Rightarrow> string \<Rightarrow> string \<Rightarrow> model_registry \<Rightarrow> model_registry" where
  "set_model_quota_exceeded now c i r =
     (case map_of (gr_models r) i of
        None \<Rightarrow> r
      | Some g \<Rightarrow> invalidate (at_model i (\<lambda>_. Some (g\<lparr>mr_quota := AList.update c now (mr_quota g)\<rparr>)) r))"

definition clear_model_quota_exceeded :: "string \<Rightarrow> string \<Rightarrow> model_registry \<Rightarrow> model_registry" where
  "clear_model_quota_exceeded c i r =
     (case map_of (gr_models r) i of
        None \<Rightarrow> r
      | Some g \<Rightarrow> invalidate (at_model i (\<lambda>_. Some (g\<lparr>mr_quota := AList.delete c (mr_quota g)\<rparr>)) r))"

definition suspend_client_model :: "instant \<Rightarrow> string \<Rightarrow> string \<Rightarrow> string \<Rightarrow> model_registry \<Rightarrow> model_registry" where
  "suspend_client_model now c i reason r =
     (if c = [] \<or> i = [] then r
      else case map_of (gr_models r) i of
          None \<Rightarrow> r
        | Some g \<Rightarrow>
            (if map_of (mr_suspended g) c \<noteq> None then r
             else invalidate (at_model i (\<lambda>_. Some (g\<lparr>mr_suspended := AList.update c reason (mr_suspended g),
                                                       mr_last_updated := now\<rparr>)) r)))"

definition resume_client_model :: "instant \<Rightarrow> string \<Rightarrow> string \<Rightarrow> model_registry \<Rightarrow> model_registry" where
  "resume_client_model now c i r =
     (if c = [] \<or> i = [] then r
      else case map_of (gr_models r) i of
          None \<Rightarrow> r
        | Some g \<Rightarrow>
            (if map_of (mr_suspended g) c = None then r
             else invalidate (at_model i (\<lambda>_. Some (g\<lparr>mr_suspended := AList.delete c (mr_suspended g),
                                                       mr_last_updated := now\<rparr>)) r)))"

record model_projection =
  pj_model :: string
  pj_suspended :: bool
  pj_reason :: string
  pj_quota :: bool

definition project_suspended :: "instant \<Rightarrow> string \<Rightarrow> model_projection \<Rightarrow> model_registration \<Rightarrow> bool \<times> model_registration" where
  "project_suspended now c pj g =
     (if pj_suspended pj then
        (if map_of (mr_suspended g) c \<noteq> Some (pj_reason pj)
         then (True, g\<lparr>mr_suspended := AList.update c (pj_reason pj) (mr_suspended g), mr_last_updated := now\<rparr>)
         else (False, g))
      else if map_of (mr_suspended g) c \<noteq> None
        then (True, g\<lparr>mr_suspended := AList.delete c (mr_suspended g), mr_last_updated := now\<rparr>)
      else (False, g))"

definition project_quota :: "instant \<Rightarrow> string \<Rightarrow> model_projection \<Rightarrow> model_registration \<Rightarrow> bool \<times> model_registration" where
  "project_quota now c pj g =
     (if pj_quota pj then
        (if map_of (mr_quota g) c = None
         then (True, g\<lparr>mr_quota := AList.update c now (mr_quota g), mr_last_updated := now\<rparr>)
         else (False, g))
      else if map_of (mr_quota g) c \<noteq> None
        then (True, g\<lparr>mr_quota := AList.delete c (mr_quota g), mr_last_updated := now\<rparr>)
      else (False, g))"

definition owned_models :: "string list \<Rightarrow> string list" where
  "owned_models ms = filter (\<lambda>i. i \<noteq> []) (map trim_space ms)"

definition project_step ::
  "instant \<Rightarrow> string \<Rightarrow> string list \<Rightarrow> model_projection \<Rightarrow> bool \<times> model_registry \<Rightarrow> bool \<times> model_registry" where
  "project_step now c owned pj s =
     (let (changed, r) = s; i = trim_space (pj_model pj) in
      if i = [] \<or> i \<notin> set owned then s
      else case map_of (gr_models r) i of
          None \<Rightarrow> s
        | Some g \<Rightarrow>
            (let (ch1, g) = project_suspended now c pj g; (ch2, g) = project_quota now c pj g
             in (changed \<or> ch1 \<or> ch2, at_model i (\<lambda>_. Some g) r)))"

definition apply_client_model_projections ::
  "instant \<Rightarrow> string \<Rightarrow> 64 word \<Rightarrow> 64 word \<Rightarrow> model_projection list \<Rightarrow> model_registry \<Rightarrow> bool \<times> model_registry" where
  "apply_client_model_projections now client epoch gen projections r =
     (let c = trim_space client in
      if c = [] then (False, r)
      else case map_of (gr_client_models r) c of
          None \<Rightarrow> (False, r)
        | Some models \<Rightarrow>
            (let owned = owned_models models in
             if models = [] \<or> epoch \<noteq> num_at (gr_epochs r) c \<or> gen < num_at (gr_generations r) c then (False, r)
             else if \<not> list_ex (\<lambda>pj. let i = trim_space (pj_model pj)
                                     in i \<noteq> [] \<and> i \<in> set owned \<and> map_of (gr_models r) i \<noteq> None) projections
               then (False, r)
             else
               (let r = r\<lparr>gr_generations := AList.update c gen (gr_generations r)\<rparr>;
                    (changed, r) = fold (project_step now c owned) projections (False, r)
                in (True, if changed then invalidate r else r))))"

definition capability_entry :: "model_registry \<Rightarrow> string \<Rightarrow> string \<Rightarrow> model_registration option \<Rightarrow> model_registration option" where
  "capability_entry r i p e =
     (case e of
        None \<Rightarrow> None
      | Some g \<Rightarrow>
          (let g = g\<lparr>mr_info := merged_info r i [] [] None (mr_info g)\<rparr>
           in Some (if p \<noteq> [] then refresh_provider r i p [] g else g)))"

definition capability_step :: "string \<Rightarrow> (string \<Rightarrow> model_meta \<Rightarrow> model_meta) \<Rightarrow> string \<times> model_meta \<Rightarrow> model_registry \<Rightarrow> model_registry" where
  "capability_step c f im r =
     (let (i, m) = im;
          r = r\<lparr>gr_client_infos := AList.update c (AList.update i (f i m) (infos_at r c)) (gr_client_infos r)\<rparr>
      in at_model i (capability_entry r i (string_at (gr_client_providers r) c)) r)"

definition apply_client_model_capabilities ::
  "string \<Rightarrow> 64 word \<Rightarrow> (string \<Rightarrow> model_meta \<Rightarrow> model_meta) option \<Rightarrow> model_registry \<Rightarrow> bool \<times> model_registry" where
  "apply_client_model_capabilities client expected mutate r =
     (case mutate of
        None \<Rightarrow> (False, r)
      | Some f \<Rightarrow>
          (let c = trim_space client in
           if c = [] \<or> num_at (gr_epochs r) c \<noteq> expected \<or> infos_at r c = [] then (False, r)
           else (True, invalidate (fold (capability_step c f) (infos_at r c) r))))"

definition modelQuotaExceededWindow :: duration where "modelQuotaExceededWindow = 5 * minute"

definition cleanup_expired_quotas :: "instant \<Rightarrow> model_registry \<Rightarrow> model_registry" where
  "cleanup_expired_quotas now r =
     (let expired = (\<lambda>(c, t). time_sub now t \<ge> modelQuotaExceededWindow) in
      if list_ex (\<lambda>(i, g). list_ex expired (mr_quota g)) (gr_models r)
      then invalidate (r\<lparr>gr_models :=
             map (apsnd (\<lambda>g. g\<lparr>mr_quota := filter (\<lambda>e. \<not> expired e) (mr_quota g)\<rparr>)) (gr_models r)\<rparr>)
      else r)"

end
