(* ===== verification/Model_Queries.thy ===== *)
theory Model_Queries
  imports Model_Registry
begin

text \<open>
  What the registry answers (internal/registry/model_registry.go): the listing of available models with
  its cache, the counts, providers and descriptions of a model, and the look-ups of one client. The
  code ranges over Go maps, so the order of a listing is not specified; here it is the order of the
  association list. \<open>sort.Slice\<close> is not stable and is a parameter where ties can occur.
\<close>

section \<open>Availability\<close>

definition quota_live :: "instant \<Rightarrow> instant \<Rightarrow> bool" where
  "quota_live now t \<longleftrightarrow> now < t + modelQuotaExceededWindow"

definition recovery_step :: "instant \<Rightarrow> string \<times> instant \<Rightarrow> int \<times> instant \<Rightarrow> int \<times> instant" where
  "recovery_step now ct s =
     (let (n, ex) = s; recovery = snd ct + modelQuotaExceededWindow in
      if now < recovery then (n + 1, if ex = 0 \<or> recovery < ex then recovery else ex) else (n, ex))"

record suspension_tally =
  st_cooldown :: int
  st_other :: int
  st_both :: int

definition suspension_step :: "instant \<Rightarrow> (string \<times> instant) list \<Rightarrow> string \<times> string \<Rightarrow> suspension_tally \<Rightarrow> suspension_tally" where
  "suspension_step now quota cr s =
     (let (c, reason) = cr in
      if equal_fold reason ''quota'' then s\<lparr>st_cooldown := st_cooldown s + 1\<rparr>
      else (let s = s\<lparr>st_other := st_other s + 1\<rparr>
            in case map_of quota c of
                 None \<Rightarrow> s
               | Some t \<Rightarrow> (if quota_live now t then s\<lparr>st_both := st_both s + 1\<rparr> else s)))"

definition no_suspensions :: suspension_tally where
  "no_suspensions = \<lparr>st_cooldown = 0, st_other = 0, st_both = 0\<rparr>"

definition is_listed :: "int \<Rightarrow> int \<Rightarrow> suspension_tally \<Rightarrow> bool" where
  "is_listed available expired s \<longleftrightarrow>
     (let effective = max 0 (available - expired - st_other s + st_both s)
      in effective > 0 \<or> available > 0 \<and> (expired > 0 \<or> st_cooldown s > 0) \<and> st_other s = 0)"

definition list_step ::
  "string \<Rightarrow> instant \<Rightarrow> string \<times> model_registration \<Rightarrow> listing list \<times> instant \<Rightarrow> listing list \<times> instant" where
  "list_step handler now ig s =
     (let (models, ex) = s; g = snd ig;
          (expired, ex) = fold (recovery_step now) (mr_quota g) (0, ex);
          tally = fold (suspension_step now (mr_quota g)) (mr_suspended g) no_suspensions
      in (if is_listed (mr_count g) expired tally then models @ [convert_model_to_map (mr_info g) handler] else models, ex))"

definition build_available_models :: "string \<Rightarrow> instant \<Rightarrow> model_registry \<Rightarrow> listing list \<times> instant" where
  "build_available_models handler now r = fold (list_step handler now) (gr_models r) ([], 0)"

text \<open>The two look-ups in the cache, under the read lock and again under the write lock, see the same state.\<close>

definition get_available_models :: "instant \<Rightarrow> string \<Rightarrow> model_registry \<Rightarrow> listing list \<times> model_registry" where
  "get_available_models now handler r =
     (case map_of (gr_cache r) handler of
        Some ce \<Rightarrow>
          (if ce_expires ce = 0 \<or> now < ce_expires ce then (ce_models ce, r)
           else let (models, ex) = build_available_models handler now r
                in (models, r\<lparr>gr_cache := AList.update handler \<lparr>ce_models = models, ce_expires = ex\<rparr> (gr_cache r)\<rparr>))
      | None \<Rightarrow>
          (let (models, ex) = build_available_models handler now r
           in (models, r\<lparr>gr_cache := AList.update handler \<lparr>ce_models = models, ce_expires = ex\<rparr> (gr_cache r)\<rparr>)))"

section \<open>Models of one provider\<close>

record provider_model =
  pm_count :: int
  pm_info :: "model_meta option"

definition provider_model_step ::
  "model_registry \<Rightarrow> string \<Rightarrow> string \<Rightarrow> (string \<times> provider_model) list \<Rightarrow> (string \<times> provider_model) list" where
  "provider_model_step r c raw al =
     (let i = trim_space raw in
      if i = [] then al
      else let e = (case map_of al i of None \<Rightarrow> \<lparr>pm_count = 0, pm_info = None\<rparr> | Some e \<Rightarrow> e);
               e = e\<lparr>pm_count := pm_count e + 1\<rparr>;
               e = (if pm_info e \<noteq> None then e
                    else case map_of (infos_at r c) i of
                        Some info \<Rightarrow> e\<lparr>pm_info := Some info\<rparr>
                      | None \<Rightarrow> e\<lparr>pm_info := map_option mr_info (map_of (gr_models r) i)\<rparr>)
           in AList.update i e al)"

definition provider_models :: "model_registry \<Rightarrow> string \<Rightarrow> (string \<times> provider_model) list" where
  "provider_models r p =
     fold (\<lambda>(c, cp) al.
        if cp \<noteq> p then al
        else fold (provider_model_step r c)
               (case map_of (gr_client_models r) c of None \<Rightarrow> [] | Some ms \<Rightarrow> ms) al)
       (gr_client_providers r) []"

definition of_provider :: "model_registry \<Rightarrow> string \<Rightarrow> string \<Rightarrow> bool" where
  "of_provider r p c \<longleftrightarrow> c \<noteq> [] \<and> map_of (gr_client_providers r) c = Some p"

definition get_available_models_by_provider :: "instant \<Rightarrow> string \<Rightarrow> model_registry \<Rightarrow> model_meta list" where
  "get_available_models_by_provider now provider r =
     (let p = to_lower (trim_space provider) in
      if p = [] then []
      else List.map_filter (\<lambda>(i, e).
             if pm_count e \<le> 0 then None
             else
               (let reg = map_of (gr_models r) i;
                    (expired, tally) =
                      (case reg of None \<Rightarrow> (0, no_suspensions)
                       | Some g \<Rightarrow>
                           (int (length (filter (\<lambda>(c, t). of_provider r p c \<and> time_sub now t < modelQuotaExceededWindow) (mr_quota g))),
                            fold (suspension_step now (mr_quota g)) (filter (\<lambda>(c, reason). of_provider r p c) (mr_suspended g))
                              no_suspensions))
                in if is_listed (pm_count e) expired tally
                   then (case pm_info e of Some info \<Rightarrow> Some info | None \<Rightarrow> map_option mr_info reg)
                   else None))
             (provider_models r p))"

section \<open>One model\<close>

definition get_model_count :: "instant \<Rightarrow> string \<Rightarrow> model_registry \<Rightarrow> int" where
  "get_model_count now i r =
     (case map_of (gr_models r) i of
        None \<Rightarrow> 0
      | Some g \<Rightarrow>
          (let expired = int (length (filter (\<lambda>(c, t). time_sub now t < modelQuotaExceededWindow) (mr_quota g)));
               suspended = int (length (filter (\<lambda>(c, reason).
                 case map_of (mr_quota g) c of None \<Rightarrow> True | Some t \<Rightarrow> \<not> quota_live now t) (mr_suspended g)));
               result = mr_count g - expired - suspended
           in if result < 0 then 0 else result))"

definition get_model_providers :: "string \<Rightarrow> model_registry \<Rightarrow> string list" where
  "get_model_providers i r =
     (case map_of (gr_models r) i of
        None \<Rightarrow> []
      | Some g \<Rightarrow>
          (if mr_providers g = [] then []
           else map fst (sort_key (\<lambda>(name, n). (- n, name)) (filter (\<lambda>(name, n). \<not> n \<le> 0) (mr_providers g)))))"

definition get_model_info :: "string \<Rightarrow> string \<Rightarrow> model_registry \<Rightarrow> model_meta option" where
  "get_model_info i p r =
     (case map_of (gr_models r) i of
        None \<Rightarrow> None
      | Some g \<Rightarrow>
          (if p \<noteq> [] \<and> (case map_of (mr_providers g) p of None \<Rightarrow> False | Some n \<Rightarrow> n > 0)
           then (case map_of (mr_info_by_provider g) p of Some info \<Rightarrow> Some info | None \<Rightarrow> Some (mr_info g))
           else Some (mr_info g)))"

definition lookup_model_info :: "static_catalog \<Rightarrow> model_registry \<Rightarrow> string \<Rightarrow> string option \<Rightarrow> model_meta option" where
  "lookup_model_info cat r model_id provider =
     (let i = trim_space model_id; p = (case provider of None \<Rightarrow> [] | Some q \<Rightarrow> to_lower (trim_space q)) in
      if i = [] then None
      else case get_model_info i p r of
          Some info \<Rightarrow> post_process_claude (Some info)
        | None \<Rightarrow>
            post_process_claude
              (case lookup_static_model_info cat i of
                 Some info \<Rightarrow> Some info
               | None \<Rightarrow>
                   (case List.map_filter (lookup_static_model_info cat)
                           (filter (\<lambda>f. f \<noteq> i) (claude_family_model_ids i)) of
                      [] \<Rightarrow> None | info # _ \<Rightarrow> Some info)))"

definition lookup_model_web_search_support ::
  "static_catalog \<Rightarrow> model_registry \<Rightarrow> string \<Rightarrow> string option \<Rightarrow> bool option" where
  "lookup_model_web_search_support cat r model_id provider =
     (case lookup_model_info cat r model_id provider of
        None \<Rightarrow> None
      | Some m \<Rightarrow>
          (case web_search_of m of
             Some w \<Rightarrow> Some w
           | None \<Rightarrow> (if mm_supports_web_search m then Some True else None)))"

definition get_responses_web_search_capability :: "string \<Rightarrow> model_registry \<Rightarrow> bool option" where
  "get_responses_web_search_capability model_id r =
     (let i = trim_space model_id in
      if i = [] then None
      else resolve_responses_web_search
             (concat (map (\<lambda>(c, ms).
                map (\<lambda>raw. \<lparr>cr_provider = string_at (gr_client_providers r) c,
                             cr_native = Option.bind (map_of (infos_at r c) raw) mm_native\<rparr>)
                  (filter (\<lambda>raw. trim_space raw = i) ms)) (gr_client_models r))))"

text \<open>The identifiers of a listing without a name or with another type are passed over.\<close>

definition created_of :: "listing \<Rightarrow> int option" where
  "created_of m = (case map_of m ''created'' of Some (VInt n) \<Rightarrow> Some n | _ \<Rightarrow> None)"

definition newer_first :: "listing \<Rightarrow> listing \<Rightarrow> bool" where
  "newer_first a b = (case (created_of a, created_of b) of (Some x, Some y) \<Rightarrow> x > y | _ \<Rightarrow> False)"

definition listing_name :: "listing \<Rightarrow> string option" where
  "listing_name m = (case map_of m ''id'' of Some (VString s) \<Rightarrow> Some s | _ \<Rightarrow> None)"

datatype first_error = NoModelsAvailable string | NoAvailableClients string

definition get_first_available_model ::
  "((listing \<Rightarrow> listing \<Rightarrow> bool) \<Rightarrow> listing list \<Rightarrow> listing list) \<Rightarrow> instant \<Rightarrow> string \<Rightarrow> model_registry
    \<Rightarrow> (first_error + string) \<times> model_registry" where
  "get_first_available_model sort_slice now handler r =
     (let (models, r) = get_available_models now handler r in
      if models = [] then (Inl (NoModelsAvailable handler), r)
      else case List.map_filter (\<lambda>m. case listing_name m of None \<Rightarrow> None
                  | Some i \<Rightarrow> (if get_model_count now i r > 0 then Some i else None)) (sort_slice newer_first models) of
          [] \<Rightarrow> (Inl (NoAvailableClients handler), r)
        | i # _ \<Rightarrow> (Inr i, r))"

section \<open>One client\<close>

fun distinct_first :: "string list \<Rightarrow> string list \<Rightarrow> string list" where
  "distinct_first seen [] = []"
| "distinct_first seen (i # is) = (if i \<in> set seen then distinct_first seen is else i # distinct_first (i # seen) is)"

definition get_models_for_client :: "string \<Rightarrow> model_registry \<Rightarrow> model_meta list" where
  "get_models_for_client c r =
     (case map_of (gr_client_models r) c of
        None \<Rightarrow> []
      | Some ms \<Rightarrow>
          List.map_filter (\<lambda>i. case map_of (infos_at r c) i of
              Some info \<Rightarrow> Some info
            | None \<Rightarrow> map_option mr_info (map_of (gr_models r) i)) (distinct_first [] ms))"

definition get_models_and_epoch_for_client :: "string \<Rightarrow> model_registry \<Rightarrow> model_meta list \<times> 64 word" where
  "get_models_and_epoch_for_client c r = (get_models_for_client c r, num_at (gr_epochs r) c)"

definition client_registration_epoch :: "string \<Rightarrow> model_registry \<Rightarrow> 64 word" where
  "client_registration_epoch c r = num_at (gr_epochs r) c"

definition client_supports_model :: "string \<Rightarrow> string \<Rightarrow> model_registry \<Rightarrow> bool" where
  "client_supports_model client model r =
     (let c = trim_space client; i = trim_space model in
      c \<noteq> [] \<and> i \<noteq> []
      \<and> list_ex (\<lambda>j. equal_fold (trim_space j) i) (case map_of (gr_client_models r) c of None \<Rightarrow> [] | Some ms \<Rightarrow> ms))"

definition is_model_suspended_for_client :: "string \<Rightarrow> string \<Rightarrow> model_registry \<Rightarrow> bool" where
  "is_model_suspended_for_client client model r =
     (let c = trim_space client; i = trim_space model in
      c \<noteq> [] \<and> i \<noteq> []
      \<and> (case map_of (gr_models r) i of None \<Rightarrow> False | Some g \<Rightarrow> map_of (mr_suspended g) c \<noteq> None))"

end
