(* ===== verification/Auth_Scheduler.thy ===== *)
theory Auth_Scheduler
  imports Auth_Selection Model_Queries
begin

text \<open>
  The incremental scheduler (sdk/cliproxy/auth/scheduler.go). For every provider it keeps the
  credentials and, for every model asked for, a shard: the state of each credential that offers
  the model, the ready ones in buckets by priority, and the blocked ones by deadline. Updates move
  one credential; picks promote what has become free, demote what has expired and rotate over
  the best bucket. A view holds the identifiers of its entries, as the code's slices hold pointers to
  the entries of the shard's map. Each operation reads the clock once.
\<close>

section \<open>Data\<close>

datatype scheduler_strategy = StrategyCustom | StrategyRoundRobin | StrategyFillFirst | StrategyWeightedRoundRobin

datatype scheduled_state = ScheduledReady | ScheduledCooldown | ScheduledBlocked | ScheduledDisabled

record generation_meta =
  gm_epoch :: "64 word"
  gm_generation :: "64 word"
  gm_updated_at :: instant

text \<open>A snapshot of a credential, with its registration epoch and its generation.\<close>

record snapshot =
  sn_auth :: auth
  sn_epoch :: "64 word"
  sn_generation :: "64 word"

record scheduled_meta =
  sm_auth :: auth
  sm_provider :: string
  sm_priority :: int
  sm_parent :: string
  sm_websocket :: bool
  sm_weight :: int
  sm_models :: "string list"

text \<open>The code's entry also has the credential itself, always the one of its metadata.\<close>

record scheduled_auth =
  sa_meta :: scheduled_meta
  sa_state :: scheduled_state
  sa_next_retry :: instant

abbreviation sa_auth :: "scheduled_auth \<Rightarrow> auth" where "sa_auth e \<equiv> sm_auth (sa_meta e)"

record ready_view =
  rv_flat :: "string list"
  rv_last :: string
  rv_weighted :: weighted_state

record ready_bucket =
  rb_all :: ready_view
  rb_ws :: ready_view

record model_shard =
  sh_key :: string
  sh_entries :: "(string \<times> scheduled_auth) list"
  sh_order :: "int list"
  sh_ready :: "(int \<times> ready_bucket) list"
  sh_blocked :: "string list"

record provider_scheduler =
  ps_key :: string
  ps_auths :: "(string \<times> scheduled_meta) list"
  ps_shards :: "(string \<times> model_shard) list"

record auth_scheduler =
  as_strategy :: scheduler_strategy
  as_providers :: "(string \<times> provider_scheduler) list"
  as_auth_providers :: "(string \<times> string) list"
  as_generations :: "(string \<times> generation_meta) list"
  as_cursors :: "(string \<times> nat) list"
  as_weighted :: "(string \<times> weighted_state) list"

datatype selector_kind = NoSelector | RoundRobinSelector | FillFirstSelector | WeightedRoundRobinSelector | OtherSelector

fun selector_strategy :: "selector_kind \<Rightarrow> scheduler_strategy" where
  "selector_strategy FillFirstSelector = StrategyFillFirst"
| "selector_strategy WeightedRoundRobinSelector = StrategyWeightedRoundRobin"
| "selector_strategy NoSelector = StrategyRoundRobin"
| "selector_strategy RoundRobinSelector = StrategyRoundRobin"
| "selector_strategy OtherSelector = StrategyCustom"

definition new_auth_scheduler :: "selector_kind \<Rightarrow> auth_scheduler" where
  "new_auth_scheduler sel =
     \<lparr>as_strategy = selector_strategy sel, as_providers = [], as_auth_providers = [], as_generations = [],
      as_cursors = [], as_weighted = []\<rparr>"

definition set_selector :: "selector_kind \<Rightarrow> auth_scheduler \<Rightarrow> auth_scheduler" where
  "set_selector sel s = s\<lparr>as_strategy := selector_strategy sel, as_cursors := [], as_weighted := []\<rparr>"

section \<open>Views and indexes\<close>

record view_cursor =
  vc_last :: string
  vc_weighted :: weighted_state

record bucket_cursor =
  bc_all :: view_cursor
  bc_ws :: view_cursor

definition snapshot_view_cursors :: "ready_view \<Rightarrow> view_cursor" where
  "snapshot_view_cursors v =
     \<lparr>vc_last = rv_last v,
      vc_weighted = \<lparr>wt_current = wt_current (rv_weighted v), wt_weights = wt_weights (rv_weighted v)\<rparr>\<rparr>"

definition entry_weight :: "(string \<times> scheduled_auth) list \<Rightarrow> string \<Rightarrow> int" where
  "entry_weight entries i = (case map_of entries i of None \<Rightarrow> 0 | Some e \<Rightarrow> sm_weight (sa_meta e))"

definition scheduled_weight_vector_matching ::
  "(string \<times> scheduled_auth) list \<Rightarrow> string list \<Rightarrow> (string \<Rightarrow> bool) \<Rightarrow> (string \<times> int) list" where
  "scheduled_weight_vector_matching entries ids pred =
     foldl (\<lambda>m i. if entry_weight entries i \<le> 0 \<or> \<not> pred i then m
                  else AList.update i (entry_weight entries i) m) [] ids"

definition scheduled_weight_vector :: "(string \<times> scheduled_auth) list \<Rightarrow> string list \<Rightarrow> (string \<times> int) list" where
  "scheduled_weight_vector entries ids = scheduled_weight_vector_matching entries ids (\<lambda>_. True)"

definition restore_view_cursors :: "(string \<times> scheduled_auth) list \<Rightarrow> ready_view \<Rightarrow> view_cursor \<Rightarrow> ready_view" where
  "restore_view_cursors entries v c =
     (let v = v\<lparr>rv_last := vc_last c\<rparr>;
          weights = scheduled_weight_vector entries (rv_flat v);
          current = wt_current (vc_weighted c)
      in if current = [] \<or> weights_config_changed (wt_weights (vc_weighted c)) weights then v
         else v\<lparr>rv_weighted :=
           \<lparr>wt_current = List.map_filter (\<lambda>i. map_option (Pair i) (map_of current i)) (rv_flat v),
            wt_weights = weights\<rparr>\<rparr>)"

definition build_ready_view :: "string list \<Rightarrow> ready_view" where
  "build_ready_view ids = \<lparr>rv_flat = ids, rv_last = [], rv_weighted = empty_weighted\<rparr>"

definition entry_websocket :: "(string \<times> scheduled_auth) list \<Rightarrow> string \<Rightarrow> bool" where
  "entry_websocket entries i = (case map_of entries i of None \<Rightarrow> False | Some e \<Rightarrow> sm_websocket (sa_meta e))"

definition build_ready_bucket :: "(string \<times> scheduled_auth) list \<Rightarrow> string list \<Rightarrow> ready_bucket" where
  "build_ready_bucket entries ids =
     \<lparr>rb_all = build_ready_view ids, rb_ws = build_ready_view (filter (entry_websocket entries) ids)\<rparr>"

text \<open>The ready entries by priority, in the order of the entries, as the switch in the first loop collects
  them, and the blocked ones.\<close>

definition priority_buckets :: "(string \<times> scheduled_auth) list \<Rightarrow> (int \<times> string list) list" where
  "priority_buckets entries =
     foldl (\<lambda>m (i, e).
        if sa_state e = ScheduledReady then
          AList.update (sm_priority (sa_meta e))
            ((case map_of m (sm_priority (sa_meta e)) of None \<Rightarrow> [] | Some is \<Rightarrow> is) @ [i]) m
        else m) [] entries"

definition waiting :: "scheduled_auth \<Rightarrow> bool" where
  "waiting e \<longleftrightarrow> sa_state e = ScheduledCooldown \<or> sa_state e = ScheduledBlocked"

text \<open>The blocked queue is ordered by deadline, those without one last, then by identifier.\<close>

definition blocked_rank :: "(string \<times> scheduled_auth) list \<Rightarrow> string \<Rightarrow> bool \<times> instant \<times> string" where
  "blocked_rank entries i =
     (case map_of entries i of None \<Rightarrow> (True, zero_time, i)
      | Some e \<Rightarrow> (sa_next_retry e = zero_time, sa_next_retry e, i))"

definition restored_bucket :: "model_shard \<Rightarrow> int \<Rightarrow> string list \<Rightarrow> ready_bucket" where
  "restored_bucket m p ids =
     (let b = build_ready_bucket (sh_entries m) (sort ids) in
      case map_of (map (\<lambda>(p, b). (p, \<lparr>bc_all = snapshot_view_cursors (rb_all b),
                                       bc_ws = snapshot_view_cursors (rb_ws b)\<rparr>)) (sh_ready m)) p of
        None \<Rightarrow> b
      | Some c \<Rightarrow> \<lparr>rb_all = restore_view_cursors (sh_entries m) (rb_all b) (bc_all c),
                   rb_ws = restore_view_cursors (sh_entries m) (rb_ws b) (bc_ws c)\<rparr>)"

definition rebuild_indexes :: "model_shard \<Rightarrow> model_shard" where
  "rebuild_indexes m =
     (let buckets = priority_buckets (sh_entries m) in
      m\<lparr>sh_ready := map (\<lambda>(p, ids). (p, restored_bucket m p ids)) buckets,
        sh_order := sort_key uminus (map fst buckets),
        sh_blocked := sort_key (blocked_rank (sh_entries m))
                        (map fst (filter (\<lambda>(i, e). waiting e) (sh_entries m)))\<rparr>)"

section \<open>Entries of a shard\<close>

definition supports_model :: "scheduled_meta \<Rightarrow> string \<Rightarrow> bool" where
  "supports_model meta model =
     (let key = canonical_model_key model in
      if key = [] then True else if sm_models meta = [] then False else key \<in> set (sm_models meta))"

text \<open>The state and the deadline that the verdict on a credential gives its entry.\<close>

definition entry_verdict :: "block_hooks \<Rightarrow> string \<Rightarrow> instant \<Rightarrow> auth \<Rightarrow> scheduled_state \<times> instant" where
  "entry_verdict h key now a =
     (let (blocked, reason, next) = is_auth_blocked_for_model h a key now in
      if \<not> blocked then (ScheduledReady, zero_time)
      else case reason of
        BlockCooldown \<Rightarrow> (ScheduledCooldown, next)
      | BlockDisabled \<Rightarrow> (ScheduledDisabled, zero_time)
      | _ \<Rightarrow> (ScheduledBlocked, next))"

definition same_position :: "scheduled_auth \<Rightarrow> scheduled_auth \<Rightarrow> bool" where
  "same_position e f \<longleftrightarrow>
     sa_state e = sa_state f \<and> sa_next_retry e = sa_next_retry f \<and>
     sm_priority (sa_meta e) = sm_priority (sa_meta f) \<and> sm_parent (sa_meta e) = sm_parent (sa_meta f) \<and>
     sm_websocket (sa_meta e) = sm_websocket (sa_meta f) \<and> sm_weight (sa_meta e) = sm_weight (sa_meta f)"

definition upsert_entry :: "block_hooks \<Rightarrow> instant \<Rightarrow> scheduled_meta \<Rightarrow> model_shard \<Rightarrow> model_shard" where
  "upsert_entry h now meta m =
     (let i = au_id (sm_auth meta);
          (state, next) = entry_verdict h (sh_key m) now (sm_auth meta);
          e = \<lparr>sa_meta = meta, sa_state = state, sa_next_retry = next\<rparr>;
          m' = m\<lparr>sh_entries := AList.update i e (sh_entries m)\<rparr>
      in case map_of (sh_entries m) i of
           None \<Rightarrow> rebuild_indexes m'
         | Some previous \<Rightarrow> if same_position previous e then m' else rebuild_indexes m')"

definition remove_auth_entry :: "string \<Rightarrow> model_shard \<Rightarrow> model_shard" where
  "remove_auth_entry i m =
     (if i = [] \<or> map_of (sh_entries m) i = None then m
      else rebuild_indexes (m\<lparr>sh_entries := AList.delete i (sh_entries m)\<rparr>))"

definition set_verdict :: "scheduled_state \<times> instant \<Rightarrow> scheduled_auth \<Rightarrow> scheduled_auth" where
  "set_verdict v e = e\<lparr>sa_state := fst v, sa_next_retry := snd v\<rparr>"

definition retry_due :: "instant \<Rightarrow> scheduled_auth \<Rightarrow> bool" where
  "retry_due now e \<longleftrightarrow> \<not> (sa_next_retry e = zero_time \<or> sa_next_retry e > now)"

fun promote_loop :: "block_hooks \<Rightarrow> string \<Rightarrow> instant \<Rightarrow> string list \<Rightarrow> (string \<times> scheduled_auth) list \<times> bool \<Rightarrow>
    (string \<times> scheduled_auth) list \<times> bool" where
  "promote_loop h key now [] acc = acc"
| "promote_loop h key now (i # is) (entries, changed) =
     promote_loop h key now is
       (case map_of entries i of
          None \<Rightarrow> (entries, changed)
        | Some e \<Rightarrow>
            if retry_due now e
            then (AList.update i (set_verdict (entry_verdict h key now (sa_auth e)) e) entries, True)
            else (entries, changed))"

definition promote_expired :: "block_hooks \<Rightarrow> instant \<Rightarrow> model_shard \<Rightarrow> model_shard" where
  "promote_expired h now m =
     (let (entries, changed) = promote_loop h (sh_key m) now (sh_blocked m) (sh_entries m, False) in
      if changed then rebuild_indexes (m\<lparr>sh_entries := entries\<rparr>) else m)"

definition token_expired :: "block_hooks \<Rightarrow> instant \<Rightarrow> auth \<Rightarrow> bool" where
  "token_expired h now a =
     (case bh_token_expiry h a of None \<Rightarrow> False | Some t \<Rightarrow> t \<noteq> zero_time \<and> \<not> t > now)"

definition demotable :: "block_hooks \<Rightarrow> instant \<Rightarrow> scheduled_auth \<Rightarrow> bool" where
  "demotable h now e \<longleftrightarrow> sa_state e = ScheduledReady \<and> token_expired h now (sa_auth e)"

definition demote_expired_tokens :: "block_hooks \<Rightarrow> instant \<Rightarrow> model_shard \<Rightarrow> model_shard" where
  "demote_expired_tokens h now m =
     (if list_ex (\<lambda>(i, e). demotable h now e) (sh_entries m) then
        rebuild_indexes (m\<lparr>sh_entries := map (\<lambda>(i, e).
          (i, if demotable h now e then set_verdict (ScheduledBlocked, zero_time) e else e)) (sh_entries m)\<rparr>)
      else m)"

section \<open>Picking from a view\<close>

text \<open>The predicates of the code look at the identifier of the entry only.\<close>

definition pick_first :: "(string \<Rightarrow> bool) \<Rightarrow> ready_view \<Rightarrow> string option" where
  "pick_first pred v = find pred (rv_flat v)"

definition scheduled_successor_index :: "string list \<Rightarrow> string \<Rightarrow> nat" where
  "scheduled_successor_index ids last_id =
     (if last_id = [] then 0
      else let i = bisect (\<lambda>i. last_id < ids ! i) 0 (length ids) in if i \<ge> length ids then 0 else i)"

definition ring_from :: "nat \<Rightarrow> 'a list \<Rightarrow> 'a list" where
  "ring_from start xs = map (\<lambda>offset. xs ! ((start + offset) mod length xs)) [0..<length xs]"

definition pick_round_robin :: "(string \<Rightarrow> bool) \<Rightarrow> ready_view \<Rightarrow> string option \<times> ready_view" where
  "pick_round_robin pred v =
     (case find pred (ring_from (scheduled_successor_index (rv_flat v) (rv_last v)) (rv_flat v)) of
        None \<Rightarrow> (None, v)
      | Some i \<Rightarrow> (Some i, v\<lparr>rv_last := i\<rparr>))"

text \<open>The credits, the total weight and the best entry so far with its credit.\<close>

fun smooth_scan_scheduled :: "(string \<Rightarrow> int) \<Rightarrow> (string \<Rightarrow> bool) \<Rightarrow> string list \<Rightarrow> (string \<times> int) list \<Rightarrow> int \<Rightarrow>
    (string \<times> int) option \<Rightarrow> (string \<times> int) list \<times> int \<times> (string \<times> int) option" where
  "smooth_scan_scheduled weight pred [] current tot best = (current, tot, best)"
| "smooth_scan_scheduled weight pred (i # is) current tot best =
     (if weight i \<le> 0 \<or> \<not> pred i then smooth_scan_scheduled weight pred is current tot best
      else
        let c = saturating_add (credit current i) (weight i);
            better = (case best of None \<Rightarrow> True | Some (_, b) \<Rightarrow> c > b)
        in smooth_scan_scheduled weight pred is (AList.update i c current) (saturating_add tot (weight i))
             (if better then Some (i, c) else best))"

definition pick_smooth_weighted_scheduled ::
  "(string \<Rightarrow> int) \<Rightarrow> (string \<Rightarrow> bool) \<Rightarrow> string list \<Rightarrow> (string \<times> int) list \<Rightarrow> string option \<times> (string \<times> int) list" where
  "pick_smooth_weighted_scheduled weight pred ids current =
     (let (current, tot, best) = smooth_scan_scheduled weight pred ids current 0 None in
      case best of
        None \<Rightarrow> (None, current)
      | Some (i, _) \<Rightarrow> (Some i, AList.update i (saturating_add (credit current i) (- tot)) current))"

definition pick_weighted ::
  "(string \<times> scheduled_auth) list \<Rightarrow> (string \<Rightarrow> bool) \<Rightarrow> ready_view \<Rightarrow> string option \<times> ready_view" where
  "pick_weighted entries pred v =
     (if rv_flat v = [] then (None, v)
      else
        let st = prepare_weights (scheduled_weight_vector_matching entries (rv_flat v) pred) (rv_weighted v);
            (picked, current) = pick_smooth_weighted_scheduled (entry_weight entries) pred (rv_flat v) (wt_current st)
        in (picked, v\<lparr>rv_weighted := st\<lparr>wt_current := current\<rparr>\<rparr>))"

section \<open>Picking from a shard\<close>

definition ready_bucket_at :: "model_shard \<Rightarrow> int \<Rightarrow> ready_bucket option" where
  "ready_bucket_at m p = map_of (sh_ready m) p"

definition has_ready :: "(ready_bucket \<Rightarrow> ready_view) \<Rightarrow> (string \<Rightarrow> bool) \<Rightarrow> model_shard \<Rightarrow> int \<Rightarrow> bool" where
  "has_ready view pred m p =
     (case ready_bucket_at m p of None \<Rightarrow> False | Some b \<Rightarrow> pick_first pred (view b) \<noteq> None)"

definition highest_ready_priority :: "bool \<Rightarrow> (string \<Rightarrow> bool) \<Rightarrow> model_shard \<Rightarrow> int option" where
  "highest_ready_priority prefer_ws pred m =
     (case (if prefer_ws then find (has_ready rb_ws pred m) (sh_order m) else None) of
        Some p \<Rightarrow> Some p
      | None \<Rightarrow> find (has_ready rb_all pred m) (sh_order m))"

fun pick_by_strategy :: "scheduler_strategy \<Rightarrow> (string \<times> scheduled_auth) list \<Rightarrow> (string \<Rightarrow> bool) \<Rightarrow> ready_view \<Rightarrow>
    string option \<times> ready_view" where
  "pick_by_strategy StrategyFillFirst entries pred v = (pick_first pred v, v)"
| "pick_by_strategy StrategyWeightedRoundRobin entries pred v = pick_weighted entries pred v"
| "pick_by_strategy StrategyRoundRobin entries pred v = pick_round_robin pred v"
| "pick_by_strategy StrategyCustom entries pred v = pick_round_robin pred v"

definition entry_auth :: "model_shard \<Rightarrow> string \<Rightarrow> auth option" where
  "entry_auth m i = map_option sa_auth (map_of (sh_entries m) i)"

definition pick_ready_at_priority ::
  "bool \<Rightarrow> int \<Rightarrow> scheduler_strategy \<Rightarrow> (string \<Rightarrow> bool) \<Rightarrow> model_shard \<Rightarrow> auth option \<times> model_shard" where
  "pick_ready_at_priority prefer_ws p strategy pred m =
     (case ready_bucket_at m p of
        None \<Rightarrow> (None, m)
      | Some b \<Rightarrow>
          if prefer_ws \<and> pick_first pred (rb_ws b) \<noteq> None then
            (let (i, v) = pick_by_strategy strategy (sh_entries m) pred (rb_ws b) in
             (Option.bind i (entry_auth m), m\<lparr>sh_ready := AList.update p (b\<lparr>rb_ws := v\<rparr>) (sh_ready m)\<rparr>))
          else
            (let (i, v) = pick_by_strategy strategy (sh_entries m) pred (rb_all b) in
             (Option.bind i (entry_auth m), m\<lparr>sh_ready := AList.update p (b\<lparr>rb_all := v\<rparr>) (sh_ready m)\<rparr>)))"

definition pick_ready ::
  "block_hooks \<Rightarrow> instant \<Rightarrow> bool \<Rightarrow> scheduler_strategy \<Rightarrow> (string \<Rightarrow> bool) \<Rightarrow> model_shard \<Rightarrow> auth option \<times> model_shard" where
  "pick_ready h now prefer_ws strategy pred m0 =
     (let m = promote_expired h now m0 in
      case highest_ready_priority prefer_ws pred m of
        None \<Rightarrow> (None, m)
      | Some p \<Rightarrow> pick_ready_at_priority prefer_ws p strategy pred m)"

definition ready_count_at_priority :: "bool \<Rightarrow> int \<Rightarrow> model_shard \<Rightarrow> nat" where
  "ready_count_at_priority prefer_ws p m =
     (case ready_bucket_at m p of
        None \<Rightarrow> 0
      | Some b \<Rightarrow> if prefer_ws \<and> length (rv_flat (rb_ws b)) > 0 then length (rv_flat (rb_ws b))
                  else length (rv_flat (rb_all b)))"

section \<open>Why nothing was picked\<close>

text \<open>The last failure of a candidate: an error that was recorded, or a status message turned into one.\<close>

datatype candidate_error = RecordedError auth_error | StatusText string

datatype scheduler_error =
    NoAuth "candidate_error option"
  | NoProvider
  | CooldownFor string string duration "candidate_error option"
  | TerminalUnavailable "candidate_error option"
  | Unavailable "duration option" "candidate_error option"

record summary =
  su_total :: nat
  su_cooldown :: nat
  su_unauthorized :: nat
  su_earliest :: instant

definition empty_summary :: summary where
  "empty_summary = \<lparr>su_total = 0, su_cooldown = 0, su_unauthorized = 0, su_earliest = zero_time\<rparr>"

definition earlier :: "instant \<Rightarrow> instant \<Rightarrow> instant" where
  "earlier best t = (if t \<noteq> zero_time \<and> (best = zero_time \<or> t < best) then t else best)"

definition summarize :: "summary \<Rightarrow> scheduled_auth \<Rightarrow> summary" where
  "summarize u e =
     u\<lparr>su_total := su_total u + 1,
       su_unauthorized := (if has_unauthorized_auth_failure (sa_auth e) then su_unauthorized u + 1 else su_unauthorized u),
       su_cooldown := (if sa_state e = ScheduledCooldown then su_cooldown u + 1 else su_cooldown u),
       su_earliest := (if waiting e then earlier (su_earliest u) (sa_next_retry e) else su_earliest u)\<rparr>"

definition availability_summary :: "(string \<Rightarrow> bool) \<Rightarrow> model_shard \<Rightarrow> summary" where
  "availability_summary pred m =
     foldl (\<lambda>u (i, e). if pred i then summarize u e else u) empty_summary (sh_entries m)"

type_synonym dated_error = "(candidate_error \<times> instant \<times> string) option"

definition state_error :: "model_state \<Rightarrow> (candidate_error \<times> instant) option" where
  "state_error s =
     (case ms_error s of
        Some e \<Rightarrow> Some (RecordedError e, ms_updated_at s)
      | None \<Rightarrow> if trim_space (ms_message s) \<noteq> [] then Some (StatusText (ms_message s), ms_updated_at s) else None)"

definition model_error :: "string \<Rightarrow> auth \<Rightarrow> (candidate_error \<times> instant) option" where
  "model_error model a =
     map_option (\<lambda>(e, t). (e, if t = zero_time then au_updated_at a else t))
       (case map_of (au_states a) model of
          Some s \<Rightarrow> state_error s
        | None \<Rightarrow> (case map_of (au_states a) (canonical_model_key model) of
            Some s \<Rightarrow> state_error s
          | None \<Rightarrow> None))"

definition auth_level_error :: "auth \<Rightarrow> (candidate_error \<times> instant) option" where
  "auth_level_error a =
     (case au_error a of
        Some e \<Rightarrow> Some (RecordedError e, au_updated_at a)
      | None \<Rightarrow> if trim_space (au_message a) \<noteq> [] then Some (StatusText (au_message a), au_updated_at a) else None)"

text \<open>The later of two, the greater identifier among equally old ones.\<close>

definition later_error :: "dated_error \<Rightarrow> dated_error \<Rightarrow> dated_error" where
  "later_error best new =
     (case new of
        None \<Rightarrow> best
      | Some (_, t, i) \<Rightarrow> (case best of
          None \<Rightarrow> new
        | Some (_, bt, bi) \<Rightarrow> if t > bt \<or> t = bt \<and> i > bi then new else best))"

definition dated :: "auth \<Rightarrow> (candidate_error \<times> instant) option \<Rightarrow> dated_error" where
  "dated a = map_option (\<lambda>(e, t). (e, t, au_id a))"

definition candidate_errors :: "string \<Rightarrow> (string \<Rightarrow> bool) \<Rightarrow> model_shard \<Rightarrow> dated_error \<times> dated_error" where
  "candidate_errors model pred m =
     foldl (\<lambda>(me, ae) (i, e).
        if pred i then (later_error me (dated (sa_auth e) (model_error model (sa_auth e))),
                        later_error ae (dated (sa_auth e) (auth_level_error (sa_auth e))))
        else (me, ae)) (None, None) (sh_entries m)"

definition latest_candidate_error :: "dated_error \<times> dated_error \<Rightarrow> candidate_error option" where
  "latest_candidate_error errs = map_option fst (case fst errs of None \<Rightarrow> snd errs | Some e \<Rightarrow> Some e)"

text \<open>The error that a summary and the failures of the candidates give.\<close>

definition unavailable_error_for ::
  "instant \<Rightarrow> string \<Rightarrow> string \<Rightarrow> summary \<Rightarrow> dated_error \<times> dated_error \<Rightarrow> scheduler_error" where
  "unavailable_error_for now provider model u errs =
     (let cause = latest_candidate_error errs in
      if su_total u = 0 then NoAuth cause
      else if su_cooldown u = su_total u \<and> su_earliest u \<noteq> zero_time then
        CooldownFor model (if provider = ''mixed'' then [] else provider)
          (let d = time_sub (su_earliest u) now in if d < 0 then 0 else d) cause
      else if su_unauthorized u = su_total u then
        TerminalUnavailable (case snd errs of None \<Rightarrow> cause | Some (e, _) \<Rightarrow> Some e)
      else Unavailable (if su_earliest u > now then Some (time_sub (su_earliest u) now) else None) cause)"

definition unavailable_error :: "instant \<Rightarrow> string \<Rightarrow> string \<Rightarrow> (string \<Rightarrow> bool) \<Rightarrow> model_shard \<Rightarrow> scheduler_error" where
  "unavailable_error now provider model pred m =
     unavailable_error_for now provider model (availability_summary pred m) (candidate_errors model pred m)"

section \<open>A provider\<close>

definition new_shard :: "string \<Rightarrow> model_shard" where
  "new_shard key = \<lparr>sh_key = key, sh_entries = [], sh_order = [], sh_ready = [], sh_blocked = []\<rparr>"

definition update_shard :: "block_hooks \<Rightarrow> instant \<Rightarrow> scheduled_meta \<Rightarrow> string \<Rightarrow> model_shard \<Rightarrow> model_shard" where
  "update_shard h now meta key m =
     (if \<not> supports_model meta key then remove_auth_entry (au_id (sm_auth meta)) m else upsert_entry h now meta m)"

definition provider_upsert :: "block_hooks \<Rightarrow> instant \<Rightarrow> scheduled_meta \<Rightarrow> provider_scheduler \<Rightarrow> provider_scheduler" where
  "provider_upsert h now meta p =
     p\<lparr>ps_auths := AList.update (au_id (sm_auth meta)) meta (ps_auths p),
       ps_shards := map (\<lambda>(key, m). (key, update_shard h now meta key m)) (ps_shards p)\<rparr>"

definition provider_remove :: "string \<Rightarrow> provider_scheduler \<Rightarrow> provider_scheduler" where
  "provider_remove i p =
     (if i = [] then p
      else p\<lparr>ps_auths := AList.delete i (ps_auths p),
             ps_shards := map (\<lambda>(key, m). (key, remove_auth_entry i m)) (ps_shards p)\<rparr>)"

definition build_shard :: "block_hooks \<Rightarrow> instant \<Rightarrow> string \<Rightarrow> (string \<times> scheduled_meta) list \<Rightarrow> model_shard" where
  "build_shard h now key auths =
     foldl (\<lambda>m (i, meta). if supports_model meta key then upsert_entry h now meta m else m) (new_shard key) auths"

definition ensure_model :: "block_hooks \<Rightarrow> instant \<Rightarrow> string \<Rightarrow> provider_scheduler \<Rightarrow> model_shard \<times> provider_scheduler" where
  "ensure_model h now model p =
     (let key = canonical_model_key model;
          m = (case map_of (ps_shards p) key of
                 Some m \<Rightarrow> demote_expired_tokens h now (promote_expired h now m)
               | None \<Rightarrow> build_shard h now key (ps_auths p))
      in (m, p\<lparr>ps_shards := AList.update key m (ps_shards p)\<rparr>))"

section \<open>The scheduler\<close>

definition canonical_scheduling_provider :: "string \<Rightarrow> string" where
  "canonical_scheduling_provider key =
     (let lower = to_lower (trim_space key) in
      if lower = ''kimi.com'' then ''kimi'' else if lower = ''kimi.ai'' then ''kimi-ai'' else lower)"

text \<open>The models that the registry lists for the credential.\<close>

definition supported_model_set_for_auth :: "model_registry \<Rightarrow> string \<Rightarrow> string list" where
  "supported_model_set_for_auth r auth_id =
     (let i = trim_space auth_id in
      if i = [] then []
      else remdups (filter (\<lambda>k. k \<noteq> []) (map (\<lambda>info. canonical_model_key (mm_id info)) (get_models_for_client i r))))"

definition build_scheduled_meta :: "model_registry \<Rightarrow> auth \<Rightarrow> scheduled_meta" where
  "build_scheduled_meta r a =
     \<lparr>sm_auth = a, sm_provider = canonical_scheduling_provider (au_provider a), sm_priority = auth_priority a,
      sm_parent = trim_space (attribute a ''gemini_virtual_parent''), sm_websocket = auth_websockets_enabled a,
      sm_weight = credential_weight a, sm_models = supported_model_set_for_auth r (au_id a)\<rparr>"

definition is_stale_scheduled_auth :: "auth_scheduler \<Rightarrow> string \<Rightarrow> 64 word \<Rightarrow> 64 word \<Rightarrow> instant \<Rightarrow> bool" where
  "is_stale_scheduled_auth s i epoch gen updated_at =
     (case map_of (as_generations s) i of
        None \<Rightarrow> False
      | Some g \<Rightarrow> gm_epoch g > epoch \<or>
          gm_epoch g = epoch \<and> (gm_generation g > gen \<or> gm_generation g = gen \<and> gm_updated_at g > updated_at))"

definition provider_of :: "auth_scheduler \<Rightarrow> string \<Rightarrow> string" where
  "provider_of s i = (case map_of (as_auth_providers s) i of None \<Rightarrow> [] | Some p \<Rightarrow> p)"

definition in_provider :: "string \<Rightarrow> (provider_scheduler \<Rightarrow> provider_scheduler) \<Rightarrow> auth_scheduler \<Rightarrow> auth_scheduler" where
  "in_provider p f s =
     (case map_of (as_providers s) p of
        None \<Rightarrow> s
      | Some ps \<Rightarrow> s\<lparr>as_providers := AList.update p (f ps) (as_providers s)\<rparr>)"

definition remove_auth_from_providers :: "string \<Rightarrow> auth_scheduler \<Rightarrow> auth_scheduler" where
  "remove_auth_from_providers i s =
     (if provider_of s i = [] then s
      else let s = in_provider (provider_of s i) (provider_remove i) s in
        s\<lparr>as_auth_providers := AList.delete i (as_auth_providers s)\<rparr>)"

definition record_generation :: "string \<Rightarrow> 64 word \<Rightarrow> 64 word \<Rightarrow> instant \<Rightarrow> auth_scheduler \<Rightarrow> auth_scheduler" where
  "record_generation i epoch gen t s =
     s\<lparr>as_generations := AList.update i \<lparr>gm_epoch = epoch, gm_generation = gen, gm_updated_at = t\<rparr> (as_generations s)\<rparr>"

definition ensure_provider :: "string \<Rightarrow> auth_scheduler \<Rightarrow> auth_scheduler" where
  "ensure_provider p s =
     (case map_of (as_providers s) p of
        None \<Rightarrow> s\<lparr>as_providers := AList.update p \<lparr>ps_key = p, ps_auths = [], ps_shards = []\<rparr> (as_providers s)\<rparr>
      | Some _ \<Rightarrow> s)"

definition upsert_auth :: "block_hooks \<Rightarrow> model_registry \<Rightarrow> instant \<Rightarrow> snapshot \<Rightarrow> auth_scheduler \<Rightarrow> auth_scheduler" where
  "upsert_auth h r now sn s0 =
     (let a = sn_auth sn; i = trim_space (au_id a) in
      if i = [] \<or> is_stale_scheduled_auth s0 i (sn_epoch sn) (sn_generation sn) (au_updated_at a) then s0
      else
        let s1 = record_generation i (sn_epoch sn) (sn_generation sn) (au_updated_at a) s0;
            p = canonical_scheduling_provider (au_provider a)
        in if p = [] \<or> au_disabled a \<or> au_status a = StatusDisabled then remove_auth_from_providers i s1
           else
             let previous = provider_of s1 i;
                 s2 = (if previous \<noteq> [] \<and> previous \<noteq> p then in_provider previous (provider_remove i) s1 else s1);
                 s3 = s2\<lparr>as_auth_providers := AList.update i p (as_auth_providers s2)\<rparr>
             in in_provider p (provider_upsert h now (build_scheduled_meta r a)) (ensure_provider p s3))"

definition rebuild_scheduler :: "block_hooks \<Rightarrow> model_registry \<Rightarrow> instant \<Rightarrow> snapshot list \<Rightarrow> auth_scheduler \<Rightarrow> auth_scheduler" where
  "rebuild_scheduler h r now sns s =
     foldl (\<lambda>s sn. upsert_auth h r now sn s)
       (s\<lparr>as_providers := [], as_auth_providers := [], as_cursors := []\<rparr>) sns"

definition remove_auth_locked :: "instant \<Rightarrow> string \<Rightarrow> auth_scheduler \<Rightarrow> auth_scheduler" where
  "remove_auth_locked now i s =
     (if i = [] then s
      else
        let epoch = (case map_of (as_generations s) i of None \<Rightarrow> 1 | Some g \<Rightarrow> gm_epoch g + 1)
        in remove_auth_from_providers i (record_generation i epoch 0 now s))"

definition remove_auth :: "instant \<Rightarrow> string \<Rightarrow> auth_scheduler \<Rightarrow> auth_scheduler" where
  "remove_auth now auth_id s = remove_auth_locked now (trim_space auth_id) s"

definition record_removal_tombstone :: "instant \<Rightarrow> string \<Rightarrow> 64 word \<Rightarrow> auth_scheduler \<Rightarrow> auth_scheduler" where
  "record_removal_tombstone now auth_id epoch s =
     (let i = trim_space auth_id in
      if i = [] then s
      else if (case map_of (as_generations s) i of None \<Rightarrow> False | Some g \<Rightarrow> epoch < gm_epoch g) then s
      else remove_auth_from_providers i (record_generation i epoch 0 now s))"

definition reset_auth_generation :: "string \<Rightarrow> auth_scheduler \<Rightarrow> auth_scheduler" where
  "reset_auth_generation auth_id s =
     (let i = trim_space auth_id in
      if i = [] then s else s\<lparr>as_generations := AList.delete i (as_generations s)\<rparr>)"

section \<open>Picking\<close>

text \<open>A shard that was changed goes back to its provider.\<close>

definition put_shard :: "string \<Rightarrow> model_shard \<Rightarrow> auth_scheduler \<Rightarrow> auth_scheduler" where
  "put_shard p m = in_provider p (\<lambda>ps. ps\<lparr>ps_shards := AList.update (sh_key m) m (ps_shards ps)\<rparr>)"

definition ensure_in :: "block_hooks \<Rightarrow> instant \<Rightarrow> string \<Rightarrow> string \<Rightarrow> auth_scheduler \<Rightarrow> model_shard option \<times> auth_scheduler" where
  "ensure_in h now p model s =
     (case map_of (as_providers s) p of
        None \<Rightarrow> (None, s)
      | Some ps \<Rightarrow> (let (m, ps) = ensure_model h now model ps
                    in (Some m, s\<lparr>as_providers := AList.update p ps (as_providers s)\<rparr>)))"

text \<open>Of the request: the pinned credential if any, the credentials tried before, and whether the client
  is connected by a websocket.\<close>

record pick_options =
  po_pinned :: string
  po_tried :: "string list"
  po_websocket :: bool

definition single_predicate :: "pick_options \<Rightarrow> string \<Rightarrow> bool" where
  "single_predicate opts i \<longleftrightarrow> \<not> (po_pinned opts \<noteq> [] \<and> i \<noteq> po_pinned opts) \<and> i \<notin> set (po_tried opts)"

definition pick_single ::
  "block_hooks \<Rightarrow> instant \<Rightarrow> string \<Rightarrow> string \<Rightarrow> pick_options \<Rightarrow> auth_scheduler \<Rightarrow> (scheduler_error + auth) \<times> auth_scheduler" where
  "pick_single h now provider model opts s0 =
     (let p = canonical_scheduling_provider provider;
          prefer_ws = (po_websocket opts \<and> p = ''codex'' \<and> po_pinned opts = []);
          pred = single_predicate opts
      in case ensure_in h now p (canonical_model_key model) s0 of
           (None, s) \<Rightarrow> (Inl (NoAuth None), s)
         | (Some m0, s) \<Rightarrow>
             (let (picked, m) = pick_ready h now prefer_ws (as_strategy s) pred m0;
                  s = put_shard p m s
              in case picked of
                   Some a \<Rightarrow> (Inr a, s)
                 | None \<Rightarrow> (Inl (unavailable_error now provider model pred m), s)))"

fun normalize_loop :: "string list \<Rightarrow> string list \<Rightarrow> string list" where
  "normalize_loop out [] = out"
| "normalize_loop out (x # xs) =
     (let key = canonical_scheduling_provider x in
      if key = [] \<or> key \<in> set out then normalize_loop out xs else normalize_loop (out @ [key]) xs)"

definition normalize_provider_keys :: "string list \<Rightarrow> string list" where
  "normalize_provider_keys providers = normalize_loop [] providers"

definition tried_predicate :: "string list \<Rightarrow> string \<Rightarrow> bool" where
  "tried_predicate tried i \<longleftrightarrow> i \<notin> set tried"

text \<open>The shards of all providers for the model, those without the provider left out.\<close>

fun ensure_all :: "block_hooks \<Rightarrow> instant \<Rightarrow> string \<Rightarrow> string list \<Rightarrow> auth_scheduler \<Rightarrow>
    (string \<times> model_shard option) list \<times> auth_scheduler" where
  "ensure_all h now model [] s = ([], s)"
| "ensure_all h now model (p # ps) s =
     (let (m, s) = ensure_in h now p model s; (ms, s) = ensure_all h now model ps s in ((p, m) # ms, s))"

definition merge_summary :: "summary \<Rightarrow> summary \<Rightarrow> summary" where
  "merge_summary u v =
     \<lparr>su_total = su_total u + su_total v, su_cooldown = su_cooldown u + su_cooldown v,
      su_unauthorized = su_unauthorized u + su_unauthorized v, su_earliest = earlier (su_earliest u) (su_earliest v)\<rparr>"

definition mixed_unavailable_error ::
  "block_hooks \<Rightarrow> instant \<Rightarrow> string list \<Rightarrow> string \<Rightarrow> string list \<Rightarrow> auth_scheduler \<Rightarrow> scheduler_error \<times> auth_scheduler" where
  "mixed_unavailable_error h now providers model tried s0 =
     (let (shards, s) = ensure_all h now (canonical_model_key model) providers s0;
          pred = tried_predicate tried;
          (u, errs) = foldl (\<lambda>(u, me, ae) (p, m). case m of
              None \<Rightarrow> (u, me, ae)
            | Some m \<Rightarrow> (let (me', ae') = candidate_errors model pred m in
                (merge_summary u (availability_summary pred m), later_error me me', later_error ae ae')))
            (empty_summary, None, None) shards
      in (unavailable_error_for now [] model u errs, s))"

definition best_ready_priority :: "(string \<Rightarrow> bool) \<Rightarrow> (string \<times> model_shard option) list \<Rightarrow> int option" where
  "best_ready_priority pred shards =
     foldl (\<lambda>best (p, m). case m of
         None \<Rightarrow> best
       | Some m \<Rightarrow> (case highest_ready_priority False pred m of
           None \<Rightarrow> best
         | Some q \<Rightarrow> (case best of None \<Rightarrow> Some q | Some b \<Rightarrow> Some (if q > b then q else b)))) None shards"

type_synonym mixed_pick = "(scheduler_error + auth \<times> string) \<times> auth_scheduler"

definition mixed_failure :: "block_hooks \<Rightarrow> instant \<Rightarrow> string list \<Rightarrow> string \<Rightarrow> string list \<Rightarrow> auth_scheduler \<Rightarrow> mixed_pick" where
  "mixed_failure h now providers model tried s =
     (let (e, s) = mixed_unavailable_error h now providers model tried s in (Inl e, s))"

definition pick_mixed_pinned ::
  "block_hooks \<Rightarrow> instant \<Rightarrow> string list \<Rightarrow> string \<Rightarrow> pick_options \<Rightarrow> auth_scheduler \<Rightarrow> mixed_pick" where
  "pick_mixed_pinned h now normalized model opts s0 =
     (let p = provider_of s0 (po_pinned opts);
          pred = (\<lambda>i. i = po_pinned opts \<and> po_pinned opts \<notin> set (po_tried opts))
      in if p = [] \<or> p \<notin> set normalized then (Inl (NoAuth None), s0)
         else case ensure_in h now p (canonical_model_key model) s0 of
           (None, s) \<Rightarrow> (Inl (NoAuth None), s)
         | (Some m0, s) \<Rightarrow>
             (let (picked, m) = pick_ready h now False (as_strategy s) pred m0;
                  s = put_shard p m s
              in case picked of
                   Some a \<Rightarrow> (Inr (a, p), s)
                 | None \<Rightarrow> (Inl (unavailable_error now ''mixed'' model pred m), s)))"

text \<open>The shards in turn, until one gives a credential of the priority.\<close>

fun mixed_try :: "scheduler_strategy \<Rightarrow> int \<Rightarrow> (string \<Rightarrow> bool) \<Rightarrow> (string \<times> model_shard option) list \<Rightarrow> auth_scheduler \<Rightarrow>
    (auth \<times> string) option \<times> auth_scheduler" where
  "mixed_try strategy best pred [] s = (None, s)"
| "mixed_try strategy best pred ((p, None) # shards) s = mixed_try strategy best pred shards s"
| "mixed_try strategy best pred ((p, Some m) # shards) s =
     (let (picked, m) = pick_ready_at_priority False best strategy pred m; s = put_shard p m s in
      case picked of
        Some a \<Rightarrow> (Some (a, p), s)
      | None \<Rightarrow> mixed_try strategy best pred shards s)"

text \<open>The weighted pick goes over the ready entries of all shards, ordered by identifier.\<close>

definition mixed_entries :: "int \<Rightarrow> (string \<times> model_shard option) list \<Rightarrow> (string \<times> scheduled_auth) list" where
  "mixed_entries best shards =
     sort_key fst (concat (map (\<lambda>(p, m). case m of
         None \<Rightarrow> []
       | Some m \<Rightarrow> (case ready_bucket_at m best of
           None \<Rightarrow> []
         | Some b \<Rightarrow> List.map_filter (\<lambda>i. map_option (Pair i) (map_of (sh_entries m) i)) (rv_flat (rb_all b)))) shards))"

definition pick_mixed_weighted ::
  "string \<Rightarrow> int \<Rightarrow> (string \<Rightarrow> bool) \<Rightarrow> (string \<times> model_shard option) list \<Rightarrow> auth_scheduler \<Rightarrow>
     (auth \<times> string) option \<times> auth_scheduler" where
  "pick_mixed_weighted cursor_key best pred shards s =
     (let entries = mixed_entries best shards; ids = map fst entries;
          st = prepare_weights (scheduled_weight_vector_matching entries ids pred)
                 (case map_of (as_weighted s) cursor_key of None \<Rightarrow> empty_weighted | Some st \<Rightarrow> st);
          (picked, current) = pick_smooth_weighted_scheduled (entry_weight entries) pred ids (wt_current st);
          s = s\<lparr>as_weighted := AList.update cursor_key (st\<lparr>wt_current := current\<rparr>) (as_weighted s)\<rparr>
      in (Option.bind picked (\<lambda>i. map_option (\<lambda>e. (sa_auth e, sm_provider (sa_meta e))) (map_of entries i)), s))"

text \<open>Round robin over segments as long as the providers' buckets: the cursor names a slot, its provider
  comes first, and the cursor moves behind the slot served.\<close>

definition segment_start :: "nat list \<Rightarrow> nat \<Rightarrow> nat" where
  "segment_start weights j = sum_list (take j weights)"

fun mixed_rotate :: "string \<Rightarrow> int \<Rightarrow> (string \<Rightarrow> bool) \<Rightarrow> (string \<times> model_shard option) list \<Rightarrow> nat list \<Rightarrow>
    (nat \<Rightarrow> nat) \<Rightarrow> nat list \<Rightarrow> auth_scheduler \<Rightarrow> (auth \<times> string) option \<times> auth_scheduler" where
  "mixed_rotate cursor_key best pred shards weights slot [] s = (None, s)"
| "mixed_rotate cursor_key best pred shards weights slot (j # js) s =
     (if weights ! j = 0 then mixed_rotate cursor_key best pred shards weights slot js s
      else case mixed_try StrategyRoundRobin best pred [shards ! j] s of
        (Some r, s) \<Rightarrow> (Some r, s\<lparr>as_cursors := AList.update cursor_key (slot j + 1) (as_cursors s)\<rparr>)
      | (None, s) \<Rightarrow> mixed_rotate cursor_key best pred shards weights slot js s)"

definition pick_mixed_round_robin ::
  "string \<Rightarrow> int \<Rightarrow> (string \<Rightarrow> bool) \<Rightarrow> (string \<times> model_shard option) list \<Rightarrow> auth_scheduler \<Rightarrow>
     (auth \<times> string) option \<times> auth_scheduler" where
  "pick_mixed_round_robin cursor_key best pred shards s =
     (let weights = map (\<lambda>(p, m). case m of None \<Rightarrow> 0 | Some m \<Rightarrow> ready_count_at_priority False best m) shards;
          n = length shards; tot = sum_list weights
      in if tot = 0 then (None, s)
         else
           let start_slot = (case map_of (as_cursors s) cursor_key of None \<Rightarrow> 0 | Some c \<Rightarrow> c) mod tot
           in case find (\<lambda>j. weights ! j \<noteq> 0 \<and> start_slot < segment_start weights (j + 1)) [0..<n] of
                None \<Rightarrow> (None, s)
              | Some start \<Rightarrow>
                  mixed_rotate cursor_key best pred shards weights
                    (\<lambda>j. if j = start then start_slot else segment_start weights j)
                    (map (\<lambda>offset. (start + offset) mod n) [0..<n]) s)"

fun join_comma :: "string list \<Rightarrow> string" where
  "join_comma [] = []"
| "join_comma [x] = x"
| "join_comma (x # y # xs) = x @ '','' @ join_comma (y # xs)"

definition cursor_key_of :: "string list \<Rightarrow> string \<Rightarrow> string" where
  "cursor_key_of normalized model =
     join_comma normalized @ '':'' @ canonical_model_key model"

definition pick_mixed_ready ::
  "string list \<Rightarrow> string \<Rightarrow> int \<Rightarrow> (string \<Rightarrow> bool) \<Rightarrow> (string \<times> model_shard option) list \<Rightarrow> auth_scheduler \<Rightarrow>
     (auth \<times> string) option \<times> auth_scheduler" where
  "pick_mixed_ready normalized model best pred shards s =
     (case as_strategy s of
        StrategyFillFirst \<Rightarrow> mixed_try StrategyFillFirst best pred shards s
      | StrategyWeightedRoundRobin \<Rightarrow> pick_mixed_weighted (cursor_key_of normalized model) best pred shards s
      | _ \<Rightarrow> pick_mixed_round_robin (cursor_key_of normalized model) best pred shards s)"

text \<open>The general case: several providers, and no credential is pinned.\<close>

definition pick_mixed_general ::
  "block_hooks \<Rightarrow> instant \<Rightarrow> string list \<Rightarrow> string \<Rightarrow> string list \<Rightarrow> auth_scheduler \<Rightarrow> mixed_pick" where
  "pick_mixed_general h now normalized model tried s0 =
     (let pred = tried_predicate tried;
          (shards, s) = ensure_all h now (canonical_model_key model) normalized s0
      in case best_ready_priority pred shards of
           None \<Rightarrow> mixed_failure h now normalized model tried s
         | Some best \<Rightarrow>
             (case pick_mixed_ready normalized model best pred shards s of
                (Some r, s) \<Rightarrow> (Inr r, s)
              | (None, s) \<Rightarrow> mixed_failure h now normalized model tried s))"

definition pick_mixed ::
  "block_hooks \<Rightarrow> instant \<Rightarrow> string list \<Rightarrow> string \<Rightarrow> pick_options \<Rightarrow> auth_scheduler \<Rightarrow> mixed_pick" where
  "pick_mixed h now providers model opts s0 =
     (let normalized = normalize_provider_keys providers in
      if normalized = [] then (Inl NoProvider, s0)
      else if length normalized = 1 then
        (case pick_single h now (hd normalized) model opts s0 of
           (Inl e, s) \<Rightarrow> (Inl e, s)
         | (Inr a, s) \<Rightarrow> (Inr (a, hd normalized), s))
      else if po_pinned opts \<noteq> [] then pick_mixed_pinned h now normalized model opts s0
      else pick_mixed_general h now normalized model (po_tried opts) s0)"

end
