(* ===== verification/Scheduler_Shards.thy ===== *)
theory Scheduler_Shards
  imports Auth_Scheduler
begin

text \<open>
  The shards of the scheduler. \<open>shard_ok\<close>: the priority order, the buckets and the queue of the blocked are
  exactly those that the entries determine, which every operation keeps, the early return of an update
  and the in-place changes included. \<open>shard_sound\<close>: every entry is explained by a verdict of the past.
  Then what the rotations and the picks of one shard return.
\<close>

section \<open>The indexes that the entries of a shard determine\<close>

definition ready_at :: "int \<Rightarrow> scheduled_auth \<Rightarrow> bool" where
  "ready_at p e \<longleftrightarrow> sa_state e = ScheduledReady \<and> sm_priority (sa_meta e) = p"

definition ready_ids :: "int \<Rightarrow> (string \<times> scheduled_auth) list \<Rightarrow> string list" where
  "ready_ids p es = sort (map fst (filter (\<lambda>(i, e). ready_at p e) es))"

definition ready_priorities :: "(string \<times> scheduled_auth) list \<Rightarrow> int set" where
  "ready_priorities es = {p. \<exists>(i, e) \<in> set es. ready_at p e}"

definition waiting_ids :: "(string \<times> scheduled_auth) list \<Rightarrow> string list" where
  "waiting_ids es = sort_key (blocked_rank es) (map fst (filter (\<lambda>(i, e). waiting e) es))"

definition entry_ok :: "string \<Rightarrow> scheduled_auth \<Rightarrow> bool" where
  "entry_ok i e \<longleftrightarrow> au_id (sa_auth e) = i \<and> (waiting e \<or> sa_next_retry e = zero_time)"

definition entries_ok :: "(string \<times> scheduled_auth) list \<Rightarrow> bool" where
  "entries_ok es \<longleftrightarrow> distinct (map fst es) \<and> (\<forall>(i, e) \<in> set es. entry_ok i e)"

lemma entries_ok_iff:
  "entries_ok es \<longleftrightarrow> distinct (map fst es) \<and> (\<forall>i e. map_of es i = Some e \<longrightarrow> entry_ok i e)"
  by (auto simp: entries_ok_def dest: map_of_SomeD)

lemma sort_nil [simp]: "sort xs = [] \<longleftrightarrow> xs = []"
  by (metis length_0_conv length_sort)

definition bucket_exact :: "(string \<times> scheduled_auth) list \<Rightarrow> int \<Rightarrow> ready_bucket option \<Rightarrow> bool" where
  "bucket_exact es p b =
     (case b of
        None \<Rightarrow> ready_ids p es = []
      | Some b \<Rightarrow> ready_ids p es \<noteq> [] \<and> rv_flat (rb_all b) = ready_ids p es \<and>
                  rv_flat (rb_ws b) = filter (entry_websocket es) (ready_ids p es))"

definition indexes_exact :: "model_shard \<Rightarrow> bool" where
  "indexes_exact m \<longleftrightarrow>
     sorted_wrt (>) (sh_order m) \<and> set (sh_order m) = ready_priorities (sh_entries m) \<and>
     (\<forall>p. bucket_exact (sh_entries m) p (ready_bucket_at m p)) \<and>
     sh_blocked m = waiting_ids (sh_entries m)"

definition shard_ok :: "model_shard \<Rightarrow> bool" where
  "shard_ok m \<longleftrightarrow> entries_ok (sh_entries m) \<and> indexes_exact m"

lemma map_of_priority_buckets:
  "map_of (priority_buckets es) p =
     (let ids = map fst (filter (\<lambda>(i, e). ready_at p e) es) in if ids = [] then None else Some ids)"
proof (induction es rule: rev_induct)
  case (snoc x es)
  then show ?case
    by (cases x) (auto simp: priority_buckets_def ready_at_def map_of_update Let_def split: option.splits if_splits)
qed (simp add: priority_buckets_def)

lemma distinct_priority_buckets: "distinct (map fst (priority_buckets es))"
proof (induction es rule: rev_induct)
  case (snoc x es)
  then show ?case by (cases x) (auto simp: priority_buckets_def distinct_update)
qed (simp add: priority_buckets_def)

lemma keys_priority_buckets: "set (map fst (priority_buckets es)) = ready_priorities es"
proof -
  have "p \<in> set (map fst (priority_buckets es)) \<longleftrightarrow> map_of (priority_buckets es) p \<noteq> None" for p
    by (metis list.set_map map_of_eq_None_iff)
  then have "p \<in> set (map fst (priority_buckets es)) \<longleftrightarrow> p \<in> ready_priorities es" for p
    by (auto simp: map_of_priority_buckets ready_priorities_def Let_def filter_empty_conv)
  then show ?thesis by blast
qed

lemma flat_restore [simp]: "rv_flat (restore_view_cursors es v c) = rv_flat v"
  by (simp add: restore_view_cursors_def Let_def)

lemma flat_restored_bucket [simp]:
  "rv_flat (rb_all (restored_bucket m p ids)) = sort ids"
  "rv_flat (rb_ws (restored_bucket m p ids)) = filter (entry_websocket (sh_entries m)) (sort ids)"
  by (simp_all add: restored_bucket_def build_ready_bucket_def build_ready_view_def Let_def split: option.splits)

lemma sort_key_uminus_strict:
  "distinct ps \<Longrightarrow> sorted_wrt (>) (sort_key uminus (ps :: int list))"
proof -
  assume "distinct ps"
  then have "distinct (map uminus (sort_key uminus ps))" by (simp add: distinct_map)
  then have "sorted_wrt (<) (map uminus (sort_key uminus ps))"
    using sorted_sort_key [of uminus ps] by (simp add: strict_sorted_iff)
  then show ?thesis by (simp add: sorted_wrt_map)
qed

lemma rebuild_entries [simp]:
  "sh_entries (rebuild_indexes m) = sh_entries m" "sh_key (rebuild_indexes m) = sh_key m"
  by (simp_all add: rebuild_indexes_def Let_def)

lemma rebuild_indexes_exact: "indexes_exact (rebuild_indexes m)"
proof -
  let ?es = "sh_entries m"
  have at: "ready_bucket_at (rebuild_indexes m) p = map_option (restored_bucket m p) (map_of (priority_buckets ?es) p)" for p
    by (simp add: ready_bucket_at_def rebuild_indexes_def Let_def map_of_map_keyed)
  have "sorted_wrt (>) (sh_order (rebuild_indexes m))"
    by (simp add: rebuild_indexes_def Let_def sort_key_uminus_strict distinct_priority_buckets)
  moreover have "set (sh_order (rebuild_indexes m)) = ready_priorities ?es"
    using keys_priority_buckets [of ?es] by (simp add: rebuild_indexes_def Let_def)
  moreover have "bucket_exact ?es p (ready_bucket_at (rebuild_indexes m) p)" for p
    by (auto simp: at map_of_priority_buckets bucket_exact_def ready_ids_def Let_def)
  ultimately show ?thesis
    by (simp add: indexes_exact_def waiting_ids_def) (simp add: rebuild_indexes_def Let_def)
qed

lemma rebuild_ok: "entries_ok (sh_entries m) \<Longrightarrow> shard_ok (rebuild_indexes m)"
  by (simp add: shard_ok_def rebuild_indexes_exact)

text \<open>The indexes depend on the positions of the entries only, so the early return of an update that moves
  nothing keeps them.\<close>

definition positions :: "(string \<times> scheduled_auth) list \<Rightarrow> (string \<times> scheduled_state \<times> instant \<times> int \<times> bool) list" where
  "positions es = map (\<lambda>(i, e). (i, sa_state e, sa_next_retry e, sm_priority (sa_meta e), sm_websocket (sa_meta e))) es"

lemma ready_ids_positions:
  "ready_ids p es = sort (map fst (filter (\<lambda>(i, s, n, q, w). s = ScheduledReady \<and> q = p) (positions es)))"
  by (simp add: ready_ids_def positions_def filter_map o_def case_prod_unfold ready_at_def)

lemma ready_priorities_positions:
  "ready_priorities es = {p. \<exists>(i, s, n, q, w) \<in> set (positions es). s = ScheduledReady \<and> q = p}"
  by (auto simp: ready_priorities_def positions_def ready_at_def case_prod_unfold)

lemma map_of_positions:
  "map_of (positions es) i =
     map_option (\<lambda>e. (sa_state e, sa_next_retry e, sm_priority (sa_meta e), sm_websocket (sa_meta e))) (map_of es i)"
  by (induction es) (auto simp: positions_def)

lemma blocked_rank_positions:
  "blocked_rank es i = (case map_of (positions es) i of None \<Rightarrow> (True, zero_time, i) | Some (s, n, q, w) \<Rightarrow> (n = zero_time, n, i))"
  by (simp add: blocked_rank_def map_of_positions split: option.splits)

lemma entry_websocket_positions:
  "entry_websocket es i = (case map_of (positions es) i of None \<Rightarrow> False | Some (s, n, q, w) \<Rightarrow> w)"
  by (simp add: entry_websocket_def map_of_positions split: option.splits)

lemma waiting_ids_positions:
  "waiting_ids es = sort_key (blocked_rank es)
     (map fst (filter (\<lambda>(i, s, n, q, w). s = ScheduledCooldown \<or> s = ScheduledBlocked) (positions es)))"
  by (simp add: waiting_ids_def positions_def filter_map o_def case_prod_unfold waiting_def)

lemma indexes_exact_cong:
  assumes "positions es = positions (sh_entries m)" and "indexes_exact m"
  shows "indexes_exact (m\<lparr>sh_entries := es\<rparr>)"
proof -
  have ready: "ready_ids p es = ready_ids p (sh_entries m)" for p
    by (simp add: ready_ids_positions assms(1))
  have rank: "blocked_rank es = blocked_rank (sh_entries m)" and ws: "entry_websocket es = entry_websocket (sh_entries m)"
    by (auto simp: blocked_rank_positions entry_websocket_positions assms(1))
  have "ready_priorities es = ready_priorities (sh_entries m)"
    by (simp add: ready_priorities_positions assms(1))
  moreover have "waiting_ids es = waiting_ids (sh_entries m)"
    by (simp add: waiting_ids_positions rank assms(1))
  ultimately show ?thesis
    using assms(2) by (simp add: indexes_exact_def bucket_exact_def ready ws ready_bucket_at_def cong: option.case_cong)
qed

lemma entries_ok_update:
  "entries_ok es \<Longrightarrow> entry_ok i e \<Longrightarrow> entries_ok (AList.update i e es)"
  unfolding entries_ok_iff by (simp add: distinct_update map_of_update)

lemma entries_ok_delete: "entries_ok es \<Longrightarrow> entries_ok (AList.delete i es)"
  unfolding entries_ok_iff by (simp add: distinct_delete map_of_delete)

section \<open>Operations on a shard\<close>

text \<open>Every entry's state is the verdict of some earlier instant, or the demotion of an expired token.\<close>

definition explained :: "block_hooks \<Rightarrow> string \<Rightarrow> instant \<Rightarrow> scheduled_auth \<Rightarrow> bool" where
  "explained h key now e \<longleftrightarrow>
     (\<exists>t \<le> now. (sa_state e, sa_next_retry e) = entry_verdict h key t (sa_auth e)) \<or>
     sa_state e = ScheduledBlocked \<and> sa_next_retry e = zero_time \<and> token_expired h now (sa_auth e)"

definition shard_sound :: "block_hooks \<Rightarrow> instant \<Rightarrow> model_shard \<Rightarrow> bool" where
  "shard_sound h now m \<longleftrightarrow>
     shard_ok m \<and> (\<forall>i e. map_of (sh_entries m) i = Some e \<longrightarrow> explained h (sh_key m) now e)"

definition shard_metas :: "model_shard \<Rightarrow> string \<Rightarrow> scheduled_meta option" where
  "shard_metas m i = map_option sa_meta (map_of (sh_entries m) i)"

lemma token_expired_mono: "token_expired h t a \<Longrightarrow> t \<le> now \<Longrightarrow> token_expired h now a"
  by (auto simp: token_expired_def split: option.splits)

lemma explained_mono: "explained h key t e \<Longrightarrow> t \<le> now \<Longrightarrow> explained h key now e"
  unfolding explained_def by (meson order_trans token_expired_mono)

lemma shard_sound_mono: "shard_sound h t m \<Longrightarrow> t \<le> now \<Longrightarrow> shard_sound h now m"
  by (auto simp: shard_sound_def intro: explained_mono)

lemma verdict_cases:
  "entry_verdict h key now a =
     (if free h key now a then (ScheduledReady, zero_time)
      else if block_kind h key now a = BlockCooldown then (ScheduledCooldown, block_until h key now a)
      else if block_kind h key now a = BlockDisabled then (ScheduledDisabled, zero_time)
      else (ScheduledBlocked, block_until h key now a))"
  by (auto simp: entry_verdict_def Let_def case_prod_unfold split: block_reason.splits)

lemma verdict_waiting:
  "fst (entry_verdict h key now a) = ScheduledCooldown \<or> fst (entry_verdict h key now a) = ScheduledBlocked \<or>
   snd (entry_verdict h key now a) = zero_time"
  by (simp add: verdict_cases)

lemma set_verdict_fields [simp]:
  "sa_meta (set_verdict v e) = sa_meta e" "sa_state (set_verdict v e) = fst v" "sa_next_retry (set_verdict v e) = snd v"
  by (simp_all add: set_verdict_def)

lemma set_verdict_ok: "entry_ok i e \<Longrightarrow> entry_ok i (set_verdict (entry_verdict h key now a) e)"
  using verdict_waiting [of h key now a] by (auto simp: entry_ok_def waiting_def)

lemma set_verdict_explained: "explained h key now (set_verdict (entry_verdict h key now (sa_auth e)) e)"
  by (auto simp: explained_def)

lemma rebuild_sound:
  assumes "entries_ok (sh_entries m)" and "\<And>i e. map_of (sh_entries m) i = Some e \<Longrightarrow> explained h (sh_key m) now e"
  shows "shard_sound h now (rebuild_indexes m)"
  using assms by (simp add: shard_sound_def rebuild_ok)

lemma upsert_entry_entries:
  "sh_entries (upsert_entry h now meta m) =
     AList.update (au_id (sm_auth meta))
       \<lparr>sa_meta = meta, sa_state = fst (entry_verdict h (sh_key m) now (sm_auth meta)),
        sa_next_retry = snd (entry_verdict h (sh_key m) now (sm_auth meta))\<rparr> (sh_entries m)"
  "sh_key (upsert_entry h now meta m) = sh_key m"
  by (simp_all add: upsert_entry_def Let_def case_prod_beta split: option.splits)

lemma upsert_metas:
  "shard_metas (upsert_entry h now meta m) j = (if j = au_id (sm_auth meta) then Some meta else shard_metas m j)"
  by (simp add: shard_metas_def upsert_entry_entries map_of_update)

lemma positions_update:
  assumes "distinct (map fst es)" and "map_of es i = Some old" and "same_position old e"
  shows "positions (AList.update i e es) = positions es"
proof -
  have "i \<in> set (map fst es)" using assms(2) by (metis map_of_eq_None_iff list.set_map option.distinct(1))
  note upd = update_in_place [OF assms(1) this]
  have "x = old" if "(i, x) \<in> set es" for x
    using assms(1,2) that by (metis map_of_is_SomeI option.inject)
  with assms(3) show ?thesis
    unfolding upd positions_def map_map by (auto simp: same_position_def split: if_splits)
qed

lemma upsert_entry_sound:
  assumes "shard_sound h now m"
  shows "shard_sound h now (upsert_entry h now meta m)"
proof -
  let ?i = "au_id (sm_auth meta)"
  let ?e = "\<lparr>sa_meta = meta, sa_state = fst (entry_verdict h (sh_key m) now (sm_auth meta)),
             sa_next_retry = snd (entry_verdict h (sh_key m) now (sm_auth meta))\<rparr>"
  let ?m = "m\<lparr>sh_entries := AList.update ?i ?e (sh_entries m)\<rparr>"
  have ok: "entries_ok (sh_entries m)" and idx: "indexes_exact m"
    using assms by (auto simp: shard_sound_def shard_ok_def)
  have "entry_ok ?i ?e"
    using verdict_waiting [of h "sh_key m" now "sm_auth meta"] by (auto simp: entry_ok_def waiting_def)
  with ok have ok': "entries_ok (sh_entries ?m)" by (simp add: entries_ok_update)
  have "explained h (sh_key m) now ?e" by (auto simp: explained_def)
  with assms have ex: "\<And>i e. map_of (sh_entries ?m) i = Some e \<Longrightarrow> explained h (sh_key ?m) now e"
    by (auto simp: shard_sound_def map_of_update split: if_splits)
  have "upsert_entry h now meta m = rebuild_indexes ?m \<or>
      (\<exists>old. map_of (sh_entries m) ?i = Some old \<and> same_position old ?e \<and> upsert_entry h now meta m = ?m)"
    by (auto simp: upsert_entry_def case_prod_beta Let_def split: option.splits)
  then show ?thesis
  proof
    assume "upsert_entry h now meta m = rebuild_indexes ?m"
    then show ?thesis using rebuild_sound [OF ok' ex] by (simp only:)
  next
    assume "\<exists>old. map_of (sh_entries m) ?i = Some old \<and> same_position old ?e \<and> upsert_entry h now meta m = ?m"
    then obtain old where old: "map_of (sh_entries m) ?i = Some old" "same_position old ?e"
      and eq: "upsert_entry h now meta m = ?m" by auto
    with ok have "positions (AList.update ?i ?e (sh_entries m)) = positions (sh_entries m)"
      by (intro positions_update) (simp_all add: entries_ok_def)
    from indexes_exact_cong [OF this idx] ok' ex show ?thesis
      unfolding eq shard_sound_def shard_ok_def by auto
  qed
qed

lemma remove_auth_entry_key [simp]: "sh_key (remove_auth_entry i m) = sh_key m"
  by (simp add: remove_auth_entry_def)

lemma remove_auth_entry_entries:
  "i \<noteq> [] \<Longrightarrow> map_of (sh_entries (remove_auth_entry i m)) j = (if j = i then None else map_of (sh_entries m) j)"
  by (auto simp: remove_auth_entry_def map_of_delete)

lemma remove_metas: "i \<noteq> [] \<Longrightarrow> shard_metas (remove_auth_entry i m) j = (if j = i then None else shard_metas m j)"
  by (simp add: shard_metas_def remove_auth_entry_entries)

lemma remove_auth_entry_sound: "shard_sound h now m \<Longrightarrow> shard_sound h now (remove_auth_entry i m)"
  by (auto simp: remove_auth_entry_def shard_sound_def shard_ok_def entries_ok_delete map_of_delete
        intro!: rebuild_indexes_exact split: if_splits)

section \<open>Promotion and demotion\<close>

definition promoted :: "block_hooks \<Rightarrow> string \<Rightarrow> instant \<Rightarrow> scheduled_auth \<Rightarrow> scheduled_auth" where
  "promoted h key now e =
     (if retry_due now e then set_verdict (entry_verdict h key now (sa_auth e)) e else e)"

lemma promote_loop_spec:
  assumes "distinct is" and "distinct (map fst es)"
  shows "promote_loop h key now is (es, c) =
     (map (\<lambda>(i, e). (i, if i \<in> set is then promoted h key now e else e)) es,
      c \<or> (\<exists>i \<in> set is. \<exists>e. map_of es i = Some e \<and> retry_due now e))"
  using assms
proof (induction "is" arbitrary: es c)
  case Nil
  then show ?case by (auto intro!: map_idI [symmetric])
next
  case (Cons i "is")
  let ?f = "\<lambda>(k, x). (k, if k = i then promoted h key now x else x)"
  let ?es = "map ?f es"
  have same: "\<And>x. (i, x) \<in> set es \<Longrightarrow> map_of es i = Some x" using Cons.prems(2) by simp
  have step: "(case map_of es i of None \<Rightarrow> (es, c) | Some e \<Rightarrow>
        if retry_due now e then (AList.update i (set_verdict (entry_verdict h key now (sa_auth e)) e) es, True) else (es, c))
      = (?es, c \<or> (\<exists>e. map_of es i = Some e \<and> retry_due now e))"
  proof (cases "map_of es i")
    case None
    then have "i \<notin> fst ` set es" by (simp add: map_of_eq_None_iff)
    then have "?es = es" by (intro map_idI) (auto simp: rev_image_eqI)
    with None show ?thesis by simp
  next
    case (Some e)
    then have "i \<in> set (map fst es)" by (metis list.set_map map_of_eq_None_iff option.distinct(1))
    note upd = update_in_place [OF Cons.prems(2) this]
    show ?thesis
    proof (cases "retry_due now e")
      case True
      then have "?es = map (\<lambda>(k, x). (k, if k = i then set_verdict (entry_verdict h key now (sa_auth e)) e else x)) es"
        using same Some by (intro map_cong) (auto simp: promoted_def)
      with Some True show ?thesis by (simp add: upd)
    next
      case False
      then have "?es = es" using same Some by (intro map_idI) (auto simp: promoted_def)
      with Some False show ?thesis by simp
    qed
  qed
  have keys: "map fst ?es = map fst es" by (simp add: o_def case_prod_unfold)
  have other: "map_of ?es j = map_of es j" if "j \<noteq> i" for j
    using that by (induction es) auto
  have "map_of ?es j = map_of es j" if "j \<in> set is" for j using Cons.prems(1) that by (intro other) auto
  then have due: "(\<exists>j \<in> set is. \<exists>e. map_of ?es j = Some e \<and> retry_due now e) \<longleftrightarrow>
      (\<exists>j \<in> set is. \<exists>e. map_of es j = Some e \<and> retry_due now e)"
    by (intro bex_cong refl) simp
  have "promote_loop h key now (i # is) (es, c) =
      promote_loop h key now is (?es, c \<or> (\<exists>e. map_of es i = Some e \<and> retry_due now e))"
    by (simp only: promote_loop.simps step)
  also have "\<dots> = (map (\<lambda>(k, e). (k, if k \<in> set is then promoted h key now e else e)) ?es,
      (c \<or> (\<exists>e. map_of es i = Some e \<and> retry_due now e)) \<or>
      (\<exists>j \<in> set is. \<exists>e. map_of ?es j = Some e \<and> retry_due now e))"
    by (rule Cons.IH) (use Cons.prems keys in \<open>simp_all del: map_map map_eq_conv\<close>)
  finally show ?case
    using Cons.prems(1) due by (auto simp: o_def case_prod_unfold)
qed

text \<open>Under the invariant only the queue holds entries that are due, so promotion reconsiders them all.\<close>

lemma due_waiting: "shard_ok m \<Longrightarrow> map_of (sh_entries m) i = Some e \<Longrightarrow> retry_due now e \<Longrightarrow> i \<in> set (sh_blocked m)"
proof -
  assume m: "shard_ok m" and e: "map_of (sh_entries m) i = Some e" and due: "retry_due now e"
  from m e have "waiting e \<or> sa_next_retry e = zero_time" by (auto simp: shard_ok_def entries_ok_iff entry_ok_def)
  with due have "waiting e" by (auto simp: retry_due_def)
  with map_of_SomeD [OF e] m show ?thesis
    by (force simp: shard_ok_def indexes_exact_def waiting_ids_def)
qed

lemma distinct_blocked: "shard_ok m \<Longrightarrow> distinct (sh_blocked m)"
  by (auto simp: shard_ok_def indexes_exact_def waiting_ids_def entries_ok_def distinct_map
        intro: inj_on_subset)

lemma promote_entries:
  assumes "shard_ok m"
  shows "sh_entries (promote_expired h now m) = map (\<lambda>(i, e). (i, promoted h (sh_key m) now e)) (sh_entries m)"
    and "promote_expired h now m = m \<or>
         promote_expired h now m =
           rebuild_indexes (m\<lparr>sh_entries := map (\<lambda>(i, e). (i, promoted h (sh_key m) now e)) (sh_entries m)\<rparr>)"
proof -
  let ?es = "map (\<lambda>(i, e). (i, promoted h (sh_key m) now e)) (sh_entries m)"
  have dist: "distinct (map fst (sh_entries m))" using assms by (simp add: shard_ok_def entries_ok_def)
  have key: "map_of (sh_entries m) i = Some e" if "(i, e) \<in> set (sh_entries m)" for i e
    using dist that by simp
  let ?due = "\<exists>i \<in> set (sh_blocked m). \<exists>e. map_of (sh_entries m) i = Some e \<and> retry_due now e"
  have es: "map (\<lambda>(i, e). (i, if i \<in> set (sh_blocked m) then promoted h (sh_key m) now e else e)) (sh_entries m) = ?es"
    using due_waiting [OF assms key] by (auto simp: promoted_def)
  have eq: "promote_expired h now m = (if ?due then rebuild_indexes (m\<lparr>sh_entries := ?es\<rparr>) else m)"
    by (simp add: promote_expired_def promote_loop_spec [OF distinct_blocked [OF assms] dist] es)
  have "?es = sh_entries m" if "\<not> ?due"
    using that due_waiting [OF assms key] key by (intro map_idI) (fastforce simp: promoted_def)
  with eq show "sh_entries (promote_expired h now m) = ?es" by simp
  from eq show "promote_expired h now m = m \<or> promote_expired h now m = rebuild_indexes (m\<lparr>sh_entries := ?es\<rparr>)"
    by simp
qed

definition demoted :: "block_hooks \<Rightarrow> instant \<Rightarrow> scheduled_auth \<Rightarrow> scheduled_auth" where
  "demoted h now e = (if demotable h now e then set_verdict (ScheduledBlocked, zero_time) e else e)"

lemma demote_entries:
  "sh_entries (demote_expired_tokens h now m) = map (\<lambda>(i, e). (i, demoted h now e)) (sh_entries m)"
  "demote_expired_tokens h now m = m \<or>
     demote_expired_tokens h now m = rebuild_indexes (m\<lparr>sh_entries := map (\<lambda>(i, e). (i, demoted h now e)) (sh_entries m)\<rparr>)"
proof -
  have "map (\<lambda>(i, e). (i, demoted h now e)) (sh_entries m) = sh_entries m"
    if "\<not> list_ex (\<lambda>(i, e). demotable h now e) (sh_entries m)"
    using that by (intro map_idI) (auto simp: demoted_def list_ex_iff)
  then show "sh_entries (demote_expired_tokens h now m) = map (\<lambda>(i, e). (i, demoted h now e)) (sh_entries m)"
    by (auto simp: demote_expired_tokens_def demoted_def)
  show "demote_expired_tokens h now m = m \<or>
     demote_expired_tokens h now m = rebuild_indexes (m\<lparr>sh_entries := map (\<lambda>(i, e). (i, demoted h now e)) (sh_entries m)\<rparr>)"
    by (simp add: demote_expired_tokens_def demoted_def)
qed

lemma promote_key [simp]: "sh_key (promote_expired h now m) = sh_key m"
  by (simp add: promote_expired_def case_prod_beta)

lemma demote_key [simp]: "sh_key (demote_expired_tokens h now m) = sh_key m"
  by (simp add: demote_expired_tokens_def)

lemma entries_ok_mapped:
  "entries_ok es \<Longrightarrow> (\<And>i e. entry_ok i e \<Longrightarrow> entry_ok i (f e)) \<Longrightarrow> entries_ok (map (\<lambda>(i, e). (i, f e)) es)"
  by (auto simp: entries_ok_iff map_of_map_keyed o_def case_prod_unfold)

lemma mapped_sound:
  assumes "shard_sound h now m" and "m' = m \<or> m' = rebuild_indexes (m\<lparr>sh_entries := map (\<lambda>(i, e). (i, f e)) (sh_entries m)\<rparr>)"
    and "\<And>i e. entry_ok i e \<Longrightarrow> entry_ok i (f e)"
    and "\<And>e. explained h (sh_key m) now e \<Longrightarrow> explained h (sh_key m) now (f e)"
  shows "shard_sound h now m'"
  using assms(2)
proof
  assume m': "m' = rebuild_indexes (m\<lparr>sh_entries := map (\<lambda>(i, e). (i, f e)) (sh_entries m)\<rparr>)"
  show ?thesis unfolding m'
    using assms(1,3,4) by (intro rebuild_sound) (auto simp: map_of_map_keyed entries_ok_mapped shard_sound_def shard_ok_def)
qed (use assms(1) in simp)

lemma promote_sound: "shard_sound h now m \<Longrightarrow> shard_sound h now (promote_expired h now m)"
  by (rule mapped_sound [OF _ promote_entries(2)])
    (auto simp: shard_sound_def promoted_def set_verdict_ok set_verdict_explained)

lemma demote_sound: "shard_sound h now m \<Longrightarrow> shard_sound h now (demote_expired_tokens h now m)"
  by (rule mapped_sound [OF _ demote_entries(2)])
    (auto simp: demoted_def entry_ok_def waiting_def explained_def demotable_def)

lemma moved_meta [simp]: "sa_meta (promoted h key now e) = sa_meta e" "sa_meta (demoted h now e) = sa_meta e"
  by (simp_all add: promoted_def demoted_def)

lemma promote_metas [simp]: "shard_ok m \<Longrightarrow> shard_metas (promote_expired h now m) = shard_metas m"
  by (rule ext) (simp add: shard_metas_def promote_entries map_of_map_keyed option.map_comp o_def)

lemma demote_metas [simp]: "shard_metas (demote_expired_tokens h now m) = shard_metas m"
  by (rule ext) (simp add: shard_metas_def demote_entries map_of_map_keyed option.map_comp o_def)

section \<open>What the rotations return\<close>

lemma ring_from_rotate: "start < length xs \<Longrightarrow> ring_from start xs = rotate start xs"
  by (rule nth_equalityI) (simp_all add: ring_from_def nth_rotate)

lemma set_ring_from: "set (ring_from start xs) \<subseteq> set xs"
proof
  fix x assume "x \<in> set (ring_from start xs)"
  then obtain k where "k < length xs" and x: "x = xs ! ((start + k) mod length xs)"
    by (auto simp: ring_from_def)
  then have "(start + k) mod length xs < length xs" by (intro mod_less_divisor) auto
  with x show "x \<in> set xs" by simp
qed

lemma successor_lt: "ids \<noteq> [] \<Longrightarrow> scheduled_successor_index ids last_id < length ids"
  by (simp add: scheduled_successor_index_def Let_def)

lemma set_ring_successor: "set (ring_from (scheduled_successor_index ids last_id) ids) = set ids"
proof (cases "ids = []")
  case False
  then show ?thesis by (simp add: ring_from_rotate successor_lt)
qed (simp add: ring_from_def)

lemma scan_best:
  "smooth_scan_scheduled weight pred is current tot best = (current', tot', best') \<Longrightarrow>
     (case best' of
        None \<Rightarrow> best = None \<and> (\<forall>i \<in> set is. \<not> (weight i > 0 \<and> pred i))
      | Some (i, c) \<Rightarrow> best = Some (i, c) \<or> (i \<in> set is \<and> weight i > 0 \<and> pred i))"
proof (induction "is" arbitrary: current tot best)
  case (Cons i "is")
  show ?case
  proof (cases "weight i \<le> 0 \<or> \<not> pred i")
    case True
    with Cons.prems Cons.IH [of current tot best] show ?thesis by (auto split: option.splits)
  next
    case False
    let ?c = "saturating_add (credit current i) (weight i)"
    let ?best = "if (case best of None \<Rightarrow> True | Some (_, b) \<Rightarrow> ?c > b) then Some (i, ?c) else best"
    from Cons.prems False have "smooth_scan_scheduled weight pred is (AList.update i ?c current)
        (saturating_add tot (weight i)) ?best = (current', tot', best')"
      by (simp add: Let_def)
    from Cons.IH [OF this] False show ?thesis
      by (cases best) (auto split: option.splits if_splits)
  qed
qed (auto split: option.splits)

lemma weighted_scheduled_spec:
  "case fst (pick_smooth_weighted_scheduled weight pred ids current) of
     None \<Rightarrow> \<forall>i \<in> set ids. \<not> (weight i > 0 \<and> pred i)
   | Some i \<Rightarrow> i \<in> set ids \<and> weight i > 0 \<and> pred i"
proof -
  obtain c t b where scan: "smooth_scan_scheduled weight pred ids current 0 None = (c, t, b)" by (metis prod_cases3)
  from scan_best [OF this] show ?thesis
    by (auto simp: pick_smooth_weighted_scheduled_def scan split: option.splits)
qed

text \<open>What can be picked: with weights, an entry of weight 0 or less is never served.\<close>

definition pickable :: "scheduler_strategy \<Rightarrow> (string \<times> scheduled_auth) list \<Rightarrow> (string \<Rightarrow> bool) \<Rightarrow> string \<Rightarrow> bool" where
  "pickable strategy es pred i \<longleftrightarrow>
     pred i \<and> (strategy = StrategyWeightedRoundRobin \<longrightarrow> entry_weight es i > 0)"

lemma pick_by_strategy_flat: "rv_flat (snd (pick_by_strategy strategy es pred v)) = rv_flat v"
  by (cases strategy) (auto simp: pick_round_robin_def pick_weighted_def Let_def case_prod_beta split: option.splits)

lemma pick_by_strategy_Some:
  assumes "fst (pick_by_strategy strategy es pred v) = Some i"
  shows "i \<in> set (rv_flat v)" and "pickable strategy es pred i"
proof -
  have rr: "i \<in> set (rv_flat v) \<and> pred i" if "fst (pick_round_robin pred v) = Some i"
    using that set_ring_from by (force simp: pick_round_robin_def find_Some_iff set_conv_nth split: option.splits)
  have w: "i \<in> set (rv_flat v) \<and> pred i \<and> entry_weight es i > 0" if "fst (pick_weighted es pred v) = Some i"
  proof -
    let ?st = "prepare_weights (scheduled_weight_vector_matching es (rv_flat v) pred) (rv_weighted v)"
    from that have "fst (pick_smooth_weighted_scheduled (entry_weight es) pred (rv_flat v) (wt_current ?st)) = Some i"
      by (auto simp: pick_weighted_def Let_def case_prod_beta split: if_splits)
    with weighted_scheduled_spec [where weight = "entry_weight es" and pred = pred and ids = "rv_flat v" and current = "wt_current ?st"] show ?thesis by simp
  qed
  have ff: "i \<in> set (rv_flat v) \<and> pred i" if "pick_first pred v = Some i"
    using that by (auto simp: pick_first_def find_Some_iff)
  show "i \<in> set (rv_flat v)" "pickable strategy es pred i"
    using assms rr w ff by (cases strategy; auto simp: pickable_def)+
qed

lemma pick_by_strategy_None:
  assumes "fst (pick_by_strategy strategy es pred v) = None" and "i \<in> set (rv_flat v)"
  shows "\<not> pickable strategy es pred i"
proof -
  have rr: "\<not> pred i" if "fst (pick_round_robin pred v) = None"
    using that assms(2) by (auto simp: pick_round_robin_def find_None_iff set_ring_successor split: option.splits)
  have w: "\<not> (entry_weight es i > 0 \<and> pred i)" if "fst (pick_weighted es pred v) = None"
  proof -
    let ?st = "prepare_weights (scheduled_weight_vector_matching es (rv_flat v) pred) (rv_weighted v)"
    from that assms(2) have "fst (pick_smooth_weighted_scheduled (entry_weight es) pred (rv_flat v) (wt_current ?st)) = None"
      by (auto simp: pick_weighted_def Let_def case_prod_beta split: if_splits)
    with weighted_scheduled_spec [where weight = "entry_weight es" and pred = pred and ids = "rv_flat v" and current = "wt_current ?st"] assms(2) show ?thesis by auto
  qed
  have ff: "\<not> pred i" if "pick_first pred v = None"
    using that assms(2) by (auto simp: pick_first_def find_None_iff)
  show ?thesis using assms(1) rr w ff by (cases strategy) (auto simp: pickable_def)
qed

section \<open>Picking from a shard\<close>

lemma ready_ids_iff:
  "entries_ok es \<Longrightarrow> i \<in> set (ready_ids p es) \<longleftrightarrow> (\<exists>e. map_of es i = Some e \<and> ready_at p e)"
  by (force simp: ready_ids_def entries_ok_def)

lemma bucket_flat:
  assumes "shard_ok m" and "ready_bucket_at m p = Some b"
  shows "rv_flat (rb_all b) = ready_ids p (sh_entries m)"
    and "rv_flat (rb_ws b) = filter (entry_websocket (sh_entries m)) (ready_ids p (sh_entries m))"
proof -
  have "bucket_exact (sh_entries m) p (ready_bucket_at m p)"
    using assms(1) by (simp add: shard_ok_def indexes_exact_def)
  then have "bucket_exact (sh_entries m) p (Some b)" by (simp only: assms(2))
  then show "rv_flat (rb_all b) = ready_ids p (sh_entries m)"
    and "rv_flat (rb_ws b) = filter (entry_websocket (sh_entries m)) (ready_ids p (sh_entries m))"
    by (simp_all add: bucket_exact_def)
qed

lemma bucket_None: "shard_ok m \<Longrightarrow> ready_bucket_at m p = None \<Longrightarrow> ready_ids p (sh_entries m) = []"
proof -
  assume m: "shard_ok m" and none: "ready_bucket_at m p = None"
  have "bucket_exact (sh_entries m) p (ready_bucket_at m p)" using m by (simp add: shard_ok_def indexes_exact_def)
  then have "bucket_exact (sh_entries m) p None" by (simp only: none)
  then show ?thesis by (simp add: bucket_exact_def)
qed

lemma pick_keeps_entries [simp]:
  "sh_entries (snd (pick_ready_at_priority ws p strategy pred m)) = sh_entries m"
  "sh_key (snd (pick_ready_at_priority ws p strategy pred m)) = sh_key m"
  by (auto simp: pick_ready_at_priority_def Let_def case_prod_beta split: option.splits)

lemma pick_metas [simp]: "shard_metas (snd (pick_ready_at_priority ws p strategy pred m)) = shard_metas m"
  by (rule ext) (simp add: shard_metas_def)

lemma pick_keeps_ok:
  assumes "shard_ok m"
  shows "shard_ok (snd (pick_ready_at_priority ws p strategy pred m))"
proof -
  let ?m = "snd (pick_ready_at_priority ws p strategy pred m)"
  have "bucket_exact (sh_entries m) q (ready_bucket_at ?m q)" for q
  proof -
    have "bucket_exact (sh_entries m) r (ready_bucket_at m r)" for r
      using assms by (simp add: shard_ok_def indexes_exact_def)
    from this [of q] this [of p] show ?thesis
      by (auto simp: pick_ready_at_priority_def ready_bucket_at_def Let_def case_prod_beta map_of_update bucket_exact_def
          pick_by_strategy_flat split: option.splits)
  qed
  moreover have "sh_order ?m = sh_order m" "sh_blocked ?m = sh_blocked m"
    by (auto simp: pick_ready_at_priority_def Let_def case_prod_beta split: option.splits)
  ultimately show ?thesis using assms by (simp add: shard_ok_def indexes_exact_def)
qed

lemma pick_keeps_sound:
  "shard_sound h now m \<Longrightarrow> shard_sound h now (snd (pick_ready_at_priority ws p strategy pred m))"
  by (simp add: shard_sound_def pick_keeps_ok)

lemma pick_ready_at_Some:
  assumes "shard_ok m" and "fst (pick_ready_at_priority ws p strategy pred m) = Some a"
  shows "\<exists>i e. map_of (sh_entries m) i = Some e \<and> a = sa_auth e \<and> ready_at p e \<and> pickable strategy (sh_entries m) pred i"
proof -
  obtain b where b: "ready_bucket_at m p = Some b"
    using assms(2) by (auto simp: pick_ready_at_priority_def split: option.splits)
  define v where "v = (if ws \<and> pick_first pred (rb_ws b) \<noteq> None then rb_ws b else rb_all b)"
  from assms(2) b obtain i where i: "fst (pick_by_strategy strategy (sh_entries m) pred v) = Some i"
    and a: "entry_auth m i = Some a"
    by (auto simp: pick_ready_at_priority_def v_def Let_def case_prod_beta bind_eq_Some_conv split: if_splits)
  have "i \<in> set (ready_ids p (sh_entries m))"
    using pick_by_strategy_Some(1) [OF i] bucket_flat [OF assms(1) b] by (auto simp: v_def split: if_splits)
  with assms(1) obtain e where "map_of (sh_entries m) i = Some e" "ready_at p e"
    by (auto simp: ready_ids_iff shard_ok_def)
  with a pick_by_strategy_Some(2) [OF i] show ?thesis by (auto simp: entry_auth_def)
qed

text \<open>Without a preference for websockets the bucket is searched completely.\<close>

lemma pick_ready_at_None:
  assumes "shard_ok m" and "fst (pick_ready_at_priority False p strategy pred m) = None"
    and "map_of (sh_entries m) i = Some e" and "ready_at p e"
  shows "\<not> pickable strategy (sh_entries m) pred i"
proof -
  have i: "i \<in> set (ready_ids p (sh_entries m))"
    using assms by (auto simp: ready_ids_iff shard_ok_def)
  then obtain b where b: "ready_bucket_at m p = Some b"
    using bucket_None [OF assms(1)] by (cases "ready_bucket_at m p") auto
  have all: "rv_flat (rb_all b) = ready_ids p (sh_entries m)" using bucket_flat(1) [OF assms(1) b] .
  have "fst (pick_by_strategy strategy (sh_entries m) pred (rb_all b)) = None"
  proof (rule ccontr)
    assume "\<not> ?thesis"
    then obtain j where j: "fst (pick_by_strategy strategy (sh_entries m) pred (rb_all b)) = Some j" by auto
    from pick_by_strategy_Some(1) [OF this] all assms(1) obtain f where "map_of (sh_entries m) j = Some f"
      by (auto simp: ready_ids_iff shard_ok_def)
    with assms(2) b j show False
      by (simp add: pick_ready_at_priority_def case_prod_beta entry_auth_def)
  qed
  from pick_by_strategy_None [OF this] i all show ?thesis by simp
qed

lemma find_has_ready:
  assumes "shard_ok m"
  shows "has_ready rb_all pred m p \<longleftrightarrow> (\<exists>i e. map_of (sh_entries m) i = Some e \<and> ready_at p e \<and> pred i)"
proof (cases "ready_bucket_at m p")
  case None
  with bucket_None [OF assms None] ready_ids_iff [of "sh_entries m" _ p] assms show ?thesis
    by (auto simp: has_ready_def shard_ok_def)
next
  case (Some b)
  with bucket_flat(1) [OF assms Some] ready_ids_iff [of "sh_entries m" _ p] assms show ?thesis
    by (fastforce simp: has_ready_def pick_first_def find_None_iff shard_ok_def)
qed

text \<open>The first of a descending list that satisfies the test is the greatest that does.\<close>

lemma find_greatest:
  assumes "sorted_wrt (>) (ps :: int list)" and "find P ps = Some p"
  shows "P p" "p \<in> set ps" "\<And>q. q \<in> set ps \<Longrightarrow> P q \<Longrightarrow> q \<le> p"
proof -
  have "P p \<and> p \<in> set ps \<and> (\<forall>q \<in> set ps. P q \<longrightarrow> q \<le> p)"
    using assms by (induction ps) (auto split: if_splits)
  then show "P p" "p \<in> set ps" "\<And>q. q \<in> set ps \<Longrightarrow> P q \<Longrightarrow> q \<le> p" by blast+
qed

lemma highest_ready_Some:
  assumes "shard_ok m" and "highest_ready_priority False pred m = Some p"
  shows "\<exists>i e. map_of (sh_entries m) i = Some e \<and> ready_at p e \<and> pred i"
    and "\<And>i e q. map_of (sh_entries m) i = Some e \<Longrightarrow> ready_at q e \<Longrightarrow> pred i \<Longrightarrow> q \<le> p"
proof -
  have sorted: "sorted_wrt (>) (sh_order m)" and order: "set (sh_order m) = ready_priorities (sh_entries m)"
    using assms(1) by (auto simp: shard_ok_def indexes_exact_def)
  have f: "find (has_ready rb_all pred m) (sh_order m) = Some p"
    using assms(2) by (simp add: highest_ready_priority_def)
  show "\<exists>i e. map_of (sh_entries m) i = Some e \<and> ready_at p e \<and> pred i"
    using find_greatest(1) [OF sorted f] by (simp add: find_has_ready [OF assms(1)])
  fix i e q assume e: "map_of (sh_entries m) i = Some e" "ready_at q e" "pred i"
  then have "q \<in> set (sh_order m)" by (auto simp: order ready_priorities_def dest: map_of_SomeD)
  from find_greatest(3) [OF sorted f this] e find_has_ready [OF assms(1)] show "q \<le> p" by blast
qed

lemma highest_ready_None:
  assumes "shard_ok m" and "highest_ready_priority ws pred m = None"
    and "map_of (sh_entries m) i = Some e" and "ready_at q e"
  shows "\<not> pred i"
proof -
  have order: "set (sh_order m) = ready_priorities (sh_entries m)"
    using assms(1) by (auto simp: shard_ok_def indexes_exact_def)
  have "find (has_ready rb_all pred m) (sh_order m) = None"
    using assms(2) by (auto simp: highest_ready_priority_def split: option.splits)
  moreover have "q \<in> set (sh_order m)" using assms(3,4) by (auto simp: order ready_priorities_def dest: map_of_SomeD)
  ultimately show ?thesis using find_has_ready [OF assms(1)] assms(3,4) by (auto simp: find_None_iff)
qed

end
