(* ===== verification/Scheduler_Invariant.thy ===== *)
theory Scheduler_Invariant
  imports Scheduler_Shards
begin

text \<open>
  The invariant of the whole scheduler, \<open>sched_sound\<close>: every provider holds its credentials, each shard has
  exactly those that offer its model, and the map from credentials to providers agrees. Every operation
  keeps it. Then what a pick of one provider returns, and why the credentials it passes over are held
  back.
\<close>

declare map_of_eq_Some_iff [simp del] Some_eq_map_of_iff [simp del]

section \<open>Providers\<close>

definition offering :: "(string \<times> scheduled_meta) list \<Rightarrow> string \<Rightarrow> string \<Rightarrow> scheduled_meta option" where
  "offering auths key i =
     (case map_of auths i of None \<Rightarrow> None | Some meta \<Rightarrow> if supports_model meta key then Some meta else None)"

definition meta_ok :: "string \<Rightarrow> string \<Rightarrow> scheduled_meta \<Rightarrow> bool" where
  "meta_ok p i meta \<longleftrightarrow>
     au_id (sm_auth meta) = i \<and> i \<noteq> [] \<and> (\<exists>r. meta = build_scheduled_meta r (sm_auth meta)) \<and>
     canonical_scheduling_provider (au_provider (sm_auth meta)) = p \<and>
     \<not> au_disabled (sm_auth meta) \<and> au_status (sm_auth meta) \<noteq> StatusDisabled"

definition shard_fits :: "block_hooks \<Rightarrow> instant \<Rightarrow> (string \<times> scheduled_meta) list \<Rightarrow> string \<Rightarrow> model_shard \<Rightarrow> bool" where
  "shard_fits h now auths key m \<longleftrightarrow>
     sh_key m = key \<and> shard_sound h now m \<and> (\<forall>i. shard_metas m i = offering auths key i)"

definition provider_sound :: "block_hooks \<Rightarrow> instant \<Rightarrow> string \<Rightarrow> provider_scheduler \<Rightarrow> bool" where
  "provider_sound h now p ps \<longleftrightarrow>
     ps_key ps = p \<and> distinct (map fst (ps_auths ps)) \<and> distinct (map fst (ps_shards ps)) \<and>
     (\<forall>i meta. map_of (ps_auths ps) i = Some meta \<longrightarrow> meta_ok p i meta) \<and>
     (\<forall>key m. map_of (ps_shards ps) key = Some m \<longrightarrow> shard_fits h now (ps_auths ps) key m)"

lemma shard_fits_mono: "shard_fits h t auths key m \<Longrightarrow> t \<le> now \<Longrightarrow> shard_fits h now auths key m"
  by (auto simp: shard_fits_def intro: shard_sound_mono)

lemma provider_sound_mono: "provider_sound h t p ps \<Longrightarrow> t \<le> now \<Longrightarrow> provider_sound h now p ps"
  using shard_fits_mono [of h t _ _ _ now] by (auto simp: provider_sound_def)

lemma new_shard_sound: "shard_sound h now (new_shard key)"
  by (simp add: shard_sound_def shard_ok_def entries_ok_def indexes_exact_def new_shard_def ready_priorities_def
      bucket_exact_def ready_ids_def waiting_ids_def ready_bucket_at_def)

lemma keys_mapped [simp]: "map fst (map (\<lambda>(k, v). (k, f k v)) xs) = map fst xs"
  by (simp add: o_def case_prod_unfold)

lemma upsert_fits:
  assumes "shard_fits h now auths key m" and "au_id (sm_auth meta) \<noteq> []"
  shows "shard_fits h now (AList.update (au_id (sm_auth meta)) meta auths) key (update_shard h now meta key m)"
  using assms
  by (auto simp: shard_fits_def update_shard_def upsert_entry_sound remove_auth_entry_sound upsert_metas remove_metas
      offering_def map_of_update upsert_entry_entries(2))

lemma provider_upsert_sound:
  assumes "provider_sound h now p ps" and "meta_ok p (au_id (sm_auth meta)) meta"
  shows "provider_sound h now p (provider_upsert h now meta ps)"
proof -
  have "au_id (sm_auth meta) \<noteq> []" using assms(2) by (simp add: meta_ok_def)
  with assms show ?thesis
    unfolding provider_sound_def provider_upsert_def
    by (auto simp: map_of_map_keyed map_of_update distinct_update simp del: map_map intro: upsert_fits split: if_splits)
qed

lemma remove_fits:
  "shard_fits h now auths key m \<Longrightarrow> i \<noteq> [] \<Longrightarrow> shard_fits h now (AList.delete i auths) key (remove_auth_entry i m)"
  by (auto simp: shard_fits_def remove_auth_entry_sound remove_metas offering_def map_of_delete)

lemma provider_remove_sound: "provider_sound h now p ps \<Longrightarrow> provider_sound h now p (provider_remove i ps)"
  unfolding provider_sound_def provider_remove_def
  by (auto simp: map_of_map_keyed map_of_delete distinct_delete simp del: map_map intro: remove_fits)

lemma auths_after [simp]:
  "i \<noteq> [] \<Longrightarrow> ps_auths (provider_remove i ps) = AList.delete i (ps_auths ps)"
  "ps_auths (provider_upsert h now meta ps) = AList.update (au_id (sm_auth meta)) meta (ps_auths ps)"
  "ps_auths (snd (ensure_model h now model ps)) = ps_auths ps"
  by (simp_all add: provider_remove_def provider_upsert_def ensure_model_def Let_def)

lemma build_shard_fits:
  assumes "distinct (map fst auths)" and "\<And>i meta. (i, meta) \<in> set auths \<Longrightarrow> au_id (sm_auth meta) = i"
  shows "shard_fits h now auths key (build_shard h now key auths)"
  using assms
proof (induction auths rule: rev_induct)
  case Nil
  then show ?case
    by (simp add: shard_fits_def build_shard_def new_shard_sound offering_def) (simp add: new_shard_def shard_metas_def)
next
  case (snoc x auths)
  obtain i meta where x: "x = (i, meta)" by (cases x)
  then have id: "au_id (sm_auth meta) = i" using snoc.prems(2) by simp
  have fits: "shard_fits h now auths key (build_shard h now key auths)"
    using snoc.prems by (intro snoc.IH) auto
  have fresh: "map_of auths i = None" using snoc.prems(1) x by (simp add: map_of_eq_None_iff)
  have build: "build_shard h now key (auths @ [x]) =
      (if supports_model meta key then upsert_entry h now meta (build_shard h now key auths) else build_shard h now key auths)"
    by (simp add: build_shard_def x)
  have off: "offering (auths @ [x]) key j = (if j = i then (if supports_model meta key then Some meta else None) else offering auths key j)" for j
    using fresh by (auto simp: offering_def x map_add_def split: option.splits)
  have none: "offering auths key i = None" using fresh by (simp add: offering_def)
  show ?case
    unfolding build using fits none
    by (auto simp: shard_fits_def off upsert_metas id upsert_entry_sound upsert_entry_entries(2))
qed

lemma ensure_model_spec:
  assumes "provider_sound h now p ps"
  shows "shard_fits h now (ps_auths ps) (canonical_model_key model) (fst (ensure_model h now model ps))"
    and "provider_sound h now p (snd (ensure_model h now model ps))"
    and "map_of (ps_shards (snd (ensure_model h now model ps))) (canonical_model_key model) = Some (fst (ensure_model h now model ps))"
proof -
  let ?key = "canonical_model_key model"
  have ids: "au_id (sm_auth meta) = i" if "(i, meta) \<in> set (ps_auths ps)" for i meta
    using assms that by (auto simp: provider_sound_def meta_ok_def)
  show fits: "shard_fits h now (ps_auths ps) ?key (fst (ensure_model h now model ps))"
  proof (cases "map_of (ps_shards ps) ?key")
    case None
    then show ?thesis
      using build_shard_fits [of "ps_auths ps" h now ?key] ids assms by (simp add: ensure_model_def Let_def provider_sound_def)
  next
    case (Some m)
    with assms have "shard_fits h now (ps_auths ps) ?key m" by (simp add: provider_sound_def)
    then show ?thesis
      by (simp add: ensure_model_def Let_def Some shard_fits_def demote_sound promote_sound) (simp add: shard_sound_def)
  qed
  then show "provider_sound h now p (snd (ensure_model h now model ps))"
    using assms by (auto simp: provider_sound_def ensure_model_def Let_def map_of_update distinct_update split: if_splits)
  show "map_of (ps_shards (snd (ensure_model h now model ps))) ?key = Some (fst (ensure_model h now model ps))"
    by (simp add: ensure_model_def Let_def map_of_update)
qed

section \<open>The scheduler\<close>

definition holds_auth :: "auth_scheduler \<Rightarrow> string \<Rightarrow> string \<Rightarrow> bool" where
  "holds_auth s i p \<longleftrightarrow> (\<exists>ps. map_of (as_providers s) p = Some ps \<and> map_of (ps_auths ps) i \<noteq> None)"

definition providers_sound :: "block_hooks \<Rightarrow> instant \<Rightarrow> auth_scheduler \<Rightarrow> bool" where
  "providers_sound h now s \<longleftrightarrow>
     distinct (map fst (as_providers s)) \<and>
     (\<forall>p ps. map_of (as_providers s) p = Some ps \<longrightarrow> p \<noteq> [] \<and> provider_sound h now p ps)"

definition sched_sound :: "block_hooks \<Rightarrow> instant \<Rightarrow> auth_scheduler \<Rightarrow> bool" where
  "sched_sound h now s \<longleftrightarrow>
     providers_sound h now s \<and> (\<forall>i p. holds_auth s i p \<longleftrightarrow> map_of (as_auth_providers s) i = Some p)"

lemma providers_sound_mono: "providers_sound h t s \<Longrightarrow> t \<le> now \<Longrightarrow> providers_sound h now s"
  using provider_sound_mono [of h t _ _ now] by (auto simp: providers_sound_def)

lemma sched_sound_mono: "sched_sound h t s \<Longrightarrow> t \<le> now \<Longrightarrow> sched_sound h now s"
  by (auto simp: sched_sound_def intro: providers_sound_mono)

lemma holds_authD:
  assumes "providers_sound h now s" and "holds_auth s i p"
  shows "p \<noteq> []" "i \<noteq> []"
  using assms by (auto simp: providers_sound_def provider_sound_def holds_auth_def meta_ok_def)

lemma providers_in [simp]:
  "map_of (as_providers (in_provider p f s)) q =
     (if q = p then map_option f (map_of (as_providers s) p) else map_of (as_providers s) q)"
  "as_auth_providers (in_provider p f s) = as_auth_providers s"
  "as_generations (in_provider p f s) = as_generations s"
  "as_strategy (in_provider p f s) = as_strategy s"
  "as_cursors (in_provider p f s) = as_cursors s"
  by (auto simp: in_provider_def map_of_update split: option.splits)

lemma distinct_in_provider: "distinct (map fst (as_providers s)) \<Longrightarrow> distinct (map fst (as_providers (in_provider p f s)))"
  by (auto simp: in_provider_def distinct_update split: option.splits)

lemma in_provider_sound:
  assumes "providers_sound h now s" and "\<And>ps. map_of (as_providers s) p = Some ps \<Longrightarrow> provider_sound h now p ps \<Longrightarrow> provider_sound h now p (f ps)"
  shows "providers_sound h now (in_provider p f s)"
  using assms by (auto simp: providers_sound_def distinct_in_provider)

lemma same_providers_sound:
  "as_providers t = as_providers s \<Longrightarrow> providers_sound h now t = providers_sound h now s"
  "as_providers t = as_providers s \<Longrightarrow> holds_auth t i p = holds_auth s i p"
  by (simp_all add: providers_sound_def holds_auth_def)

lemma holds_remove:
  "i \<noteq> [] \<Longrightarrow> holds_auth (in_provider p (provider_remove i) s) j q \<longleftrightarrow> holds_auth s j q \<and> \<not> (j = i \<and> q = p)"
  by (auto simp: holds_auth_def map_of_delete split: if_splits)

lemma holds_upsert:
  "map_of (as_providers s) p \<noteq> None \<Longrightarrow>
     holds_auth (in_provider p (provider_upsert h now meta) s) j q \<longleftrightarrow> holds_auth s j q \<or> j = au_id (sm_auth meta) \<and> q = p"
  by (auto simp: holds_auth_def map_of_update)

lemma remove_from_providers_sound:
  assumes "sched_sound h now s"
  shows "sched_sound h now (remove_auth_from_providers i s)"
    and "holds_auth (remove_auth_from_providers i s) j q \<longleftrightarrow> holds_auth s j q \<and> j \<noteq> i \<or> i = [] \<and> holds_auth s j q"
proof -
  let ?t = "remove_auth_from_providers i s"
  have none: "\<not> holds_auth s i q" if "provider_of s i = []" for q
    using that assms holds_authD(1) [of h now s i q] by (auto simp: provider_of_def sched_sound_def split: option.splits)
  have unheld: "\<not> holds_auth s [] q" for q
    using assms holds_authD(2) [of h now s "[]" q] by (auto simp: sched_sound_def)
  have some: "map_of (as_auth_providers s) i = Some (provider_of s i)" if "provider_of s i \<noteq> []"
    using that by (auto simp: provider_of_def split: option.splits)
  have uniq: "holds_auth s i q \<longleftrightarrow> q = provider_of s i" if "provider_of s i \<noteq> []" for q
    using some [OF that] assms by (auto simp: sched_sound_def)
  have held: "holds_auth ?t j q \<longleftrightarrow> holds_auth s j q \<and> j \<noteq> i" for j q
  proof (cases "provider_of s i = []")
    case True
    then show ?thesis using none by (auto simp: remove_auth_from_providers_def)
  next
    case False
    then have "i \<noteq> []" using uniq unheld by blast
    have "holds_auth ?t j q = holds_auth (in_provider (provider_of s i) (provider_remove i) s) j q"
      using False by (intro same_providers_sound) (simp add: remove_auth_from_providers_def Let_def)
    then show ?thesis using False uniq by (auto simp: holds_remove [OF \<open>i \<noteq> []\<close>])
  qed
  have "as_auth_providers ?t = (if provider_of s i = [] then as_auth_providers s else AList.delete i (as_auth_providers s))"
    by (simp add: remove_auth_from_providers_def Let_def)
  moreover have "providers_sound h now ?t"
  proof (cases "provider_of s i = []")
    case False
    then have "providers_sound h now ?t = providers_sound h now (in_provider (provider_of s i) (provider_remove i) s)"
      by (intro same_providers_sound) (simp add: remove_auth_from_providers_def Let_def)
    with assms show ?thesis by (simp add: sched_sound_def in_provider_sound provider_remove_sound)
  qed (use assms in \<open>simp add: remove_auth_from_providers_def sched_sound_def\<close>)
  ultimately show "sched_sound h now ?t"
    using assms held none by (auto simp: sched_sound_def map_of_delete)
  show "holds_auth ?t j q \<longleftrightarrow> holds_auth s j q \<and> j \<noteq> i \<or> i = [] \<and> holds_auth s j q"
    using held unheld by (cases "j = []") auto
qed

section \<open>The operations keep the scheduler sound\<close>

lemma generation_fields [simp]:
  "as_providers (record_generation i e g t s) = as_providers s"
  "as_auth_providers (record_generation i e g t s) = as_auth_providers s"
  "as_strategy (record_generation i e g t s) = as_strategy s"
  by (simp_all add: record_generation_def)

lemma sched_sound_cong:
  "as_providers t = as_providers s \<Longrightarrow> as_auth_providers t = as_auth_providers s \<Longrightarrow> sched_sound h now t = sched_sound h now s"
  by (simp add: sched_sound_def providers_sound_def holds_auth_def)

lemma new_scheduler_sound: "sched_sound h now (new_auth_scheduler sel)"
  by (simp add: sched_sound_def providers_sound_def holds_auth_def new_auth_scheduler_def)

lemma ensure_provider_fields [simp]:
  "as_auth_providers (ensure_provider p s) = as_auth_providers s"
  "as_generations (ensure_provider p s) = as_generations s"
  "as_strategy (ensure_provider p s) = as_strategy s"
  "map_of (as_providers (ensure_provider p s)) p \<noteq> None"
  by (auto simp: ensure_provider_def map_of_update split: option.splits)

lemma holds_ensure [simp]: "holds_auth (ensure_provider p s) i q = holds_auth s i q"
  by (auto simp: ensure_provider_def holds_auth_def map_of_update split: option.splits if_splits)

lemma ensure_provider_sound: "providers_sound h now s \<Longrightarrow> p \<noteq> [] \<Longrightarrow> providers_sound h now (ensure_provider p s)"
  by (auto simp: ensure_provider_def providers_sound_def map_of_update distinct_update provider_sound_def split: option.splits)

lemma build_meta_ok:
  "canonical_scheduling_provider (au_provider a) = p \<Longrightarrow> au_id a \<noteq> [] \<Longrightarrow> \<not> au_disabled a \<Longrightarrow> au_status a \<noteq> StatusDisabled \<Longrightarrow>
     meta_ok p (au_id a) (build_scheduled_meta r a)"
  by (auto simp: meta_ok_def build_scheduled_meta_def)

text \<open>The identifiers are trimmed: the map of providers is keyed by the trimmed identifier, the shards by the
  identifier itself.\<close>

definition accepts :: "auth_scheduler \<Rightarrow> snapshot \<Rightarrow> bool" where
  "accepts s sn \<longleftrightarrow>
     au_id (sn_auth sn) \<noteq> [] \<and>
     \<not> is_stale_scheduled_auth s (au_id (sn_auth sn)) (sn_epoch sn) (sn_generation sn) (au_updated_at (sn_auth sn))"

definition schedulable :: "auth \<Rightarrow> bool" where
  "schedulable a \<longleftrightarrow>
     canonical_scheduling_provider (au_provider a) \<noteq> [] \<and> \<not> au_disabled a \<and> au_status a \<noteq> StatusDisabled"

lemma upsert_auth_rejected:
  "trim_space (au_id (sn_auth sn)) = au_id (sn_auth sn) \<Longrightarrow> \<not> accepts s sn \<Longrightarrow> upsert_auth h r now sn s = s"
  by (auto simp: upsert_auth_def accepts_def Let_def)

lemma remove_from_providers_fields [simp]:
  "as_generations (remove_auth_from_providers i s) = as_generations s"
  "as_strategy (remove_auth_from_providers i s) = as_strategy s"
  by (simp_all add: remove_auth_from_providers_def Let_def)

lemma upsert_auth_fields:
  assumes "trim_space (au_id (sn_auth sn)) = au_id (sn_auth sn)"
  shows "as_generations (upsert_auth h r now sn s) =
      (if accepts s sn then AList.update (au_id (sn_auth sn)) \<lparr>gm_epoch = sn_epoch sn, gm_generation = sn_generation sn,
         gm_updated_at = au_updated_at (sn_auth sn)\<rparr> (as_generations s) else as_generations s)"
    and "as_strategy (upsert_auth h r now sn s) = as_strategy s"
  using assms by (auto simp: upsert_auth_def accepts_def Let_def record_generation_def)

lemma upsert_auth_spec:
  assumes sound: "sched_sound h now s" and trimmed: "trim_space (au_id (sn_auth sn)) = au_id (sn_auth sn)"
  shows "sched_sound h now (upsert_auth h r now sn s) \<and>
    (\<forall>j q. holds_auth (upsert_auth h r now sn s) j q \<longleftrightarrow>
       (if accepts s sn \<and> j = au_id (sn_auth sn)
        then schedulable (sn_auth sn) \<and> q = canonical_scheduling_provider (au_provider (sn_auth sn))
        else holds_auth s j q))"
proof -
  let ?a = "sn_auth sn"
  let ?i = "au_id ?a"
  let ?p = "canonical_scheduling_provider (au_provider ?a)"
  let ?s1 = "record_generation ?i (sn_epoch sn) (sn_generation sn) (au_updated_at ?a) s"
  have s1: "sched_sound h now ?s1" using sound by (simp add: sched_sound_cong [of ?s1 s])
  show ?thesis
  proof (cases "\<not> accepts s sn")
    case True
    with sound show ?thesis by (simp add: upsert_auth_rejected trimmed)
  next
    case fresh: False
    then have i: "?i \<noteq> []" by (simp add: accepts_def)
    have same: "holds_auth ?s1 j q = holds_auth s j q" for j q by (simp add: holds_auth_def)
    show ?thesis
    proof (cases "?p = [] \<or> au_disabled ?a \<or> au_status ?a = StatusDisabled")
      case True
      then have "upsert_auth h r now sn s = remove_auth_from_providers ?i ?s1"
        using fresh by (simp add: upsert_auth_def trimmed Let_def accepts_def)
      with True fresh i same remove_from_providers_sound [OF s1] show ?thesis
        by (auto simp: schedulable_def)
    next
      case False
      let ?prev = "provider_of ?s1 ?i"
      define s2 where "s2 = (if ?prev \<noteq> [] \<and> ?prev \<noteq> ?p then in_provider ?prev (provider_remove ?i) ?s1 else ?s1)"
      define s3 where "s3 = s2\<lparr>as_auth_providers := AList.update ?i ?p (as_auth_providers s2)\<rparr>"
      let ?meta = "build_scheduled_meta r ?a"
      define t where "t = in_provider ?p (provider_upsert h now ?meta) (ensure_provider ?p s3)"
      have t: "upsert_auth h r now sn s = t"
        using fresh False by (simp add: upsert_auth_def trimmed Let_def s2_def s3_def t_def accepts_def)
      have meta: "meta_ok ?p ?i ?meta" "au_id (sm_auth ?meta) = ?i"
        using False i by (simp_all add: build_meta_ok) (simp add: build_scheduled_meta_def)
      have ps1: "providers_sound h now ?s1" using s1 by (simp add: sched_sound_def)
      then have "providers_sound h now s2" by (simp add: s2_def in_provider_sound provider_remove_sound)
      then have "providers_sound h now s3" by (simp add: s3_def providers_sound_def)
      then have sound_t: "providers_sound h now t"
        using False meta unfolding t_def
        by (intro in_provider_sound ensure_provider_sound provider_upsert_sound) simp_all
      have at: "holds_auth ?s1 ?i q \<longleftrightarrow> map_of (as_auth_providers s) ?i = Some q" for q
        using s1 by (simp add: sched_sound_def)
      have "?prev = (case map_of (as_auth_providers s) ?i of None \<Rightarrow> [] | Some q \<Rightarrow> q)"
        by (simp add: provider_of_def)
      moreover have "q \<noteq> []" if "holds_auth ?s1 ?i q" for q using holds_authD [OF ps1 that] by simp
      ultimately have "holds_auth ?s1 ?i q \<Longrightarrow> ?prev = q \<and> q \<noteq> []" for q using at by auto
      then have "holds_auth s2 j q \<longleftrightarrow> holds_auth s j q \<and> \<not> (j = ?i \<and> q \<noteq> ?p)" for j q
        using holds_remove [OF i, of ?prev ?s1 j q] by (auto simp: s2_def holds_auth_def)
      moreover have "holds_auth s3 j q = holds_auth s2 j q" for j q by (simp add: s3_def holds_auth_def)
      ultimately have holds: "holds_auth t j q \<longleftrightarrow> (if j = ?i then q = ?p else holds_auth s j q)" for j q
        unfolding t_def using holds_upsert [of "ensure_provider ?p s3" ?p h now ?meta j q] meta by auto
      have "map_of (as_auth_providers t) j = (if j = ?i then Some ?p else map_of (as_auth_providers s) j)" for j
        by (simp add: t_def s3_def s2_def map_of_update)
      with holds sound_t sound show ?thesis
        unfolding t using False fresh by (auto simp: sched_sound_def schedulable_def)
    qed
  qed
qed

lemma upsert_auth_sound:
  "sched_sound h now s \<Longrightarrow> trim_space (au_id (sn_auth sn)) = au_id (sn_auth sn) \<Longrightarrow> sched_sound h now (upsert_auth h r now sn s)"
  using upsert_auth_spec by blast

text \<open>The snapshot that was accepted is the one that the scheduler holds.\<close>

lemma upsert_auth_held:
  assumes "trim_space (au_id (sn_auth sn)) = au_id (sn_auth sn)" and "accepts s sn" and "schedulable (sn_auth sn)"
  shows "\<exists>ps. map_of (as_providers (upsert_auth h r now sn s)) (canonical_scheduling_provider (au_provider (sn_auth sn))) = Some ps \<and>
           map_of (ps_auths ps) (au_id (sn_auth sn)) = Some (build_scheduled_meta r (sn_auth sn))"
proof -
  let ?p = "canonical_scheduling_provider (au_provider (sn_auth sn))"
  obtain t where t: "upsert_auth h r now sn s =
      in_provider ?p (provider_upsert h now (build_scheduled_meta r (sn_auth sn))) (ensure_provider ?p t)"
    using assms by (simp add: upsert_auth_def accepts_def schedulable_def Let_def)
  have "map_of (as_providers (ensure_provider ?p t)) ?p \<noteq> None" by simp
  then obtain ps where "map_of (as_providers (ensure_provider ?p t)) ?p = Some ps" by blast
  moreover have "au_id (sm_auth (build_scheduled_meta r (sn_auth sn))) = au_id (sn_auth sn)"
    by (simp add: build_scheduled_meta_def)
  ultimately show ?thesis unfolding t by (simp add: map_of_update)
qed

lemma rebuild_sound_all:
  assumes "\<And>sn. sn \<in> set sns \<Longrightarrow> trim_space (au_id (sn_auth sn)) = au_id (sn_auth sn)"
  shows "sched_sound h now (rebuild_scheduler h r now sns s)"
proof -
  have "sched_sound h now (s\<lparr>as_providers := [], as_auth_providers := [], as_cursors := []\<rparr>)"
    by (simp add: sched_sound_def providers_sound_def holds_auth_def)
  then show ?thesis unfolding rebuild_scheduler_def
    using assms by (induction sns rule: rev_induct) (auto intro: upsert_auth_sound)
qed

lemma remove_locked_sound: "sched_sound h now s \<Longrightarrow> sched_sound h now (remove_auth_locked t i s)"
  unfolding remove_auth_locked_def Let_def
  by (simp add: remove_from_providers_sound(1) sched_sound_cong [of "record_generation i e g t s" s for e g])

lemma remove_auth_sound: "sched_sound h now s \<Longrightarrow> sched_sound h now (remove_auth t i s)"
  by (simp add: remove_auth_def remove_locked_sound)

lemma tombstone_sound: "sched_sound h now s \<Longrightarrow> sched_sound h now (record_removal_tombstone t i e s)"
  unfolding record_removal_tombstone_def Let_def
  by (simp add: remove_from_providers_sound(1) sched_sound_cong [of "record_generation (trim_space i) e g t s" s for g])

lemma reset_sound: "sched_sound h now s \<Longrightarrow> sched_sound h now (reset_auth_generation i s)"
  by (rule sched_sound_cong [THEN iffD2]) (simp_all add: reset_auth_generation_def Let_def)

lemma set_selector_sound: "sched_sound h now s \<Longrightarrow> sched_sound h now (set_selector sel s)"
  by (rule sched_sound_cong [THEN iffD2]) (simp_all add: set_selector_def)

section \<open>Picks keep the scheduler sound\<close>

text \<open>A shard that belongs into the scheduler under the provider.\<close>

definition fits_in :: "block_hooks \<Rightarrow> instant \<Rightarrow> auth_scheduler \<Rightarrow> string \<Rightarrow> model_shard \<Rightarrow> bool" where
  "fits_in h now s p m \<longleftrightarrow>
     (\<exists>ps. map_of (as_providers s) p = Some ps \<and> shard_fits h now (ps_auths ps) (sh_key m) m)"

definition same_auths :: "auth_scheduler \<Rightarrow> auth_scheduler \<Rightarrow> bool" where
  "same_auths s t \<longleftrightarrow>
     as_auth_providers t = as_auth_providers s \<and> as_strategy t = as_strategy s \<and> as_generations t = as_generations s \<and>
     (\<forall>p. map_option ps_auths (map_of (as_providers t) p) = map_option ps_auths (map_of (as_providers s) p))"

lemma same_auths_refl [simp]: "same_auths s s" by (simp add: same_auths_def)

lemma same_auths_trans [trans]: "same_auths s t \<Longrightarrow> same_auths t u \<Longrightarrow> same_auths s u"
  by (simp add: same_auths_def)

lemma same_auths_holds: "same_auths s t \<Longrightarrow> holds_auth t i p = holds_auth s i p"
proof -
  assume "same_auths s t"
  then have "map_option ps_auths (map_of (as_providers t) p) = map_option ps_auths (map_of (as_providers s) p)"
    by (simp add: same_auths_def)
  then show ?thesis by (cases "map_of (as_providers t) p"; cases "map_of (as_providers s) p") (auto simp: holds_auth_def)
qed

lemma same_auths_fits: "same_auths s t \<Longrightarrow> fits_in h now t p m = fits_in h now s p m"
proof -
  assume "same_auths s t"
  then have "map_option ps_auths (map_of (as_providers t) p) = map_option ps_auths (map_of (as_providers s) p)"
    by (simp add: same_auths_def)
  then show ?thesis by (cases "map_of (as_providers t) p"; cases "map_of (as_providers s) p") (auto simp: fits_in_def)
qed

text \<open>What a pick does to the state: it stays sound, and only shards and cursors change.\<close>

definition pick_keeps :: "block_hooks \<Rightarrow> instant \<Rightarrow> auth_scheduler \<Rightarrow> auth_scheduler \<Rightarrow> bool" where
  "pick_keeps h now s t \<longleftrightarrow> sched_sound h now t \<and> same_auths s t"

lemma pick_keeps_trans: "pick_keeps h now s t \<Longrightarrow> pick_keeps h now t u \<Longrightarrow> pick_keeps h now s u"
  by (auto simp: pick_keeps_def intro: same_auths_trans)

lemma pick_keepsI:
  assumes "sched_sound h now s" and "same_auths s t" and "providers_sound h now t"
  shows "pick_keeps h now s t"
  using assms same_auths_holds [OF assms(2)] by (simp add: pick_keeps_def sched_sound_def) (simp add: same_auths_def)

lemma ensure_in_spec:
  assumes "sched_sound h now s"
  shows "pick_keeps h now s (snd (ensure_in h now p model s))"
    and "fst (ensure_in h now p model s) = None \<longleftrightarrow> map_of (as_providers s) p = None"
    and "fst (ensure_in h now p model s) = Some m \<Longrightarrow> fits_in h now s p m \<and> sh_key m = canonical_model_key model"
proof -
  show "fst (ensure_in h now p model s) = None \<longleftrightarrow> map_of (as_providers s) p = None"
    by (simp add: ensure_in_def case_prod_beta split: option.splits)
  have psound: "provider_sound h now p ps" if "map_of (as_providers s) p = Some ps" for ps
    using assms that by (simp add: sched_sound_def providers_sound_def)
  show "fits_in h now s p m \<and> sh_key m = canonical_model_key model" if "fst (ensure_in h now p model s) = Some m"
    using that ensure_model_spec(1) [OF psound, of _ model]
    by (auto simp: ensure_in_def case_prod_beta fits_in_def shard_fits_def split: option.splits)
  show "pick_keeps h now s (snd (ensure_in h now p model s))"
  proof (cases "map_of (as_providers s) p")
    case None
    then show ?thesis using assms by (simp add: ensure_in_def pick_keeps_def)
  next
    case (Some ps)
    let ?t = "snd (ensure_in h now p model s)"
    have t: "?t = s\<lparr>as_providers := AList.update p (snd (ensure_model h now model ps)) (as_providers s)\<rparr>"
      by (simp add: ensure_in_def Some case_prod_beta)
    have "same_auths s ?t" using Some by (simp add: t same_auths_def map_of_update)
    moreover have "providers_sound h now ?t"
      using assms Some ensure_model_spec(2) [OF psound [OF Some], of model]
      by (auto simp: t sched_sound_def providers_sound_def map_of_update distinct_update split: if_splits)
    ultimately show ?thesis using assms by (simp add: pick_keepsI)
  qed
qed

lemma put_shard_keeps:
  assumes "sched_sound h now s" and "fits_in h now s p m"
  shows "pick_keeps h now s (put_shard p m s)"
proof -
  obtain ps where ps: "map_of (as_providers s) p = Some ps" and fits: "shard_fits h now (ps_auths ps) (sh_key m) m"
    using assms(2) by (auto simp: fits_in_def)
  have "same_auths s (put_shard p m s)" using ps by (auto simp: same_auths_def put_shard_def)
  moreover have "providers_sound h now (put_shard p m s)"
    unfolding put_shard_def
  proof (rule in_provider_sound)
    fix qs assume "map_of (as_providers s) p = Some qs" and q: "provider_sound h now p qs"
    with ps have "qs = ps" by simp
    with q fits show "provider_sound h now p (qs\<lparr>ps_shards := AList.update (sh_key m) m (ps_shards qs)\<rparr>)"
      by (auto simp: provider_sound_def map_of_update distinct_update split: if_splits)
  qed (use assms(1) in \<open>simp add: sched_sound_def\<close>)
  ultimately show ?thesis using assms(1) by (simp add: pick_keepsI)
qed

lemma pick_ready_at_fits: "fits_in h now s p m \<Longrightarrow> fits_in h now s p (snd (pick_ready_at_priority ws q strategy pred m))"
  by (auto simp: fits_in_def shard_fits_def pick_keeps_sound)

lemma promote_fits: "fits_in h now s p m \<Longrightarrow> fits_in h now s p (promote_expired h now m)"
  unfolding fits_in_def shard_fits_def by (metis promote_key promote_metas promote_sound shard_sound_def)

lemma pick_ready_fits: "fits_in h now s p m \<Longrightarrow> fits_in h now s p (snd (pick_ready h now ws strategy pred m))"
  by (auto simp: pick_ready_def Let_def promote_fits pick_ready_at_fits split: option.splits)

section \<open>A verdict that frees a credential lasts until its token expires\<close>

text \<open>The shape of \<open>kiroProviderQuotaBlocked\<close>: an exhausted quota blocks until its reset, for good when no reset is
  known.\<close>

definition kiro_until_reset :: "block_hooks \<Rightarrow> bool" where
  "kiro_until_reset h \<longleftrightarrow>
     (\<forall>a. \<exists>exhausted reset. \<forall>t. bh_kiro_blocked h a t =
        (if exhausted \<and> (reset = zero_time \<or> reset > t) then (True, reset) else (False, zero_time)))"

lemma kiro_free_mono:
  assumes "kiro_until_reset h" and "\<not> fst (bh_kiro_blocked h a t)" and "t \<le> now"
  shows "\<not> fst (bh_kiro_blocked h a now)"
proof -
  from assms(1) obtain ex r where "\<forall>t. bh_kiro_blocked h a t =
      (if ex \<and> (r = zero_time \<or> r > t) then (True, r) else (False, zero_time))"
    unfolding kiro_until_reset_def by blast
  with assms(2,3) show ?thesis by (auto split: if_splits)
qed

abbreviation blocks :: "verdict option \<Rightarrow> bool" where
  "blocks v \<equiv> (case v of None \<Rightarrow> False | Some w \<Rightarrow> fst w)"

lemma match_states_blocks:
  "blocks (match_states key now acc states) \<longleftrightarrow>
     blocks acc \<or> (\<exists>(m, s) \<in> set states. canonical_model_key m = key \<and> fst (model_state_block now s))"
proof (induction key now acc states rule: match_states.induct)
  case (2 key now acc m s states)
  show ?case
  proof (cases "canonical_model_key m = key")
    case True
    show ?thesis
    proof (cases "ms_status s = StatusDisabled")
      case False
      obtain b r n where acc: "(case acc of None \<Rightarrow> (False, BlockNone, zero_time) | Some v \<Rightarrow> v) = (b, r, n)" by (metis prod_cases3)
      obtain sb sr sn where blk: "model_state_block now s = (sb, sr, sn)" by (metis prod_cases3)
      have "blocks acc = b" using acc by (cases acc) auto
      with 2(2-) [OF _ False acc [symmetric] refl refl blk [symmetric] refl refl] True False acc blk show ?thesis
        by (auto simp: Let_def split: if_splits)
    qed (use True in \<open>auto simp: model_state_block_def\<close>)
  qed (use 2(1) in auto)
qed simp

lemma state_block_mono: "fst (model_state_block now s) \<Longrightarrow> t \<le> now \<Longrightarrow> fst (model_state_block t s)"
  by (auto simp: model_state_block_def split: if_splits)

lemma free_iff:
  "free h key now a \<longleftrightarrow>
     \<not> au_disabled a \<and> au_status a \<noteq> StatusDisabled \<and> \<not> has_unauthorized_auth_failure a \<and> \<not> token_expired h now a \<and>
     \<not> (qs_exceeded (au_quota a) \<and> live_credential_quota now a) \<and> \<not> fst (bh_kiro_blocked h a now) \<and>
     (if key \<noteq> [] then \<not> blocks (match_states (canonical_model_key key) now None (au_states a))
      else \<not> (au_unavailable a \<and> au_next_retry a > now))"
  unfolding is_auth_blocked_for_model_def token_expired_def [symmetric]
  by (auto simp: Let_def split: option.splits)

lemma free_mono:
  assumes "kiro_until_reset h" and "free h key t a" and "t \<le> now" and "\<not> token_expired h now a"
  shows "free h key now a"
proof -
  have "\<not> live_credential_quota t a \<Longrightarrow> \<not> live_credential_quota now a"
    using assms(3) by (auto simp: live_credential_quota_def)
  moreover have "blocks (match_states k now None (au_states a)) \<Longrightarrow> blocks (match_states k t None (au_states a))" for k
    unfolding match_states_blocks using state_block_mono [OF _ assms(3)] by fastforce
  moreover have "\<not> fst (bh_kiro_blocked h a now)"
    using assms(2) kiro_free_mono [OF assms(1) _ assms(3)] by (simp add: free_iff)
  ultimately show ?thesis
    using assms unfolding free_iff by (cases "key = []") auto
qed

lemma verdict_ready: "fst (entry_verdict h key t a) = ScheduledReady \<longleftrightarrow> free h key t a"
  by (simp add: verdict_cases)

text \<open>No ready entry of the shard has an expired token.\<close>

definition tokens_live :: "block_hooks \<Rightarrow> instant \<Rightarrow> model_shard \<Rightarrow> bool" where
  "tokens_live h now m \<longleftrightarrow>
     (\<forall>i e. map_of (sh_entries m) i = Some e \<longrightarrow> sa_state e = ScheduledReady \<longrightarrow> \<not> token_expired h now (sa_auth e))"

lemma free_token: "free h key now a \<Longrightarrow> \<not> token_expired h now a"
  by (simp add: free_iff)

lemma upsert_live: "tokens_live h now m \<Longrightarrow> tokens_live h now (upsert_entry h now meta m)"
  by (auto simp: tokens_live_def upsert_entry_entries map_of_update verdict_ready dest: free_token split: if_splits)

lemma build_live: "tokens_live h now (build_shard h now key auths)"
proof (induction auths rule: rev_induct)
  case (snoc x auths)
  then show ?case by (cases x) (simp add: build_shard_def upsert_live)
qed (simp add: build_shard_def tokens_live_def new_shard_def)

lemma demoted_state: "sa_state (demoted h now e) = (if demotable h now e then ScheduledBlocked else sa_state e)"
  by (simp add: demoted_def)

lemma demote_live: "tokens_live h now (demote_expired_tokens h now m)"
  by (auto simp: tokens_live_def demote_entries map_of_map_keyed demoted_state demotable_def split: if_splits)

lemma promote_live: "shard_ok m \<Longrightarrow> tokens_live h now m \<Longrightarrow> tokens_live h now (promote_expired h now m)"
  by (auto simp: tokens_live_def promote_entries map_of_map_keyed promoted_def verdict_ready dest: free_token split: if_splits)

lemma ensure_live: "tokens_live h now (fst (ensure_model h now model ps))"
  by (simp add: ensure_model_def Let_def build_live demote_live split: option.splits)

lemma ensure_in_live: "fst (ensure_in h now p model s) = Some m \<Longrightarrow> tokens_live h now m"
  by (auto simp: ensure_in_def case_prod_beta ensure_live split: option.splits)

lemma ready_free:
  assumes "kiro_until_reset h" and "shard_sound h now m" and "tokens_live h now m"
    and "map_of (sh_entries m) i = Some e" and "sa_state e = ScheduledReady"
  shows "free h (sh_key m) now (sa_auth e)"
proof -
  have live: "\<not> token_expired h now (sa_auth e)" using assms(3-5) by (auto simp: tokens_live_def)
  have "explained h (sh_key m) now e" using assms(2,4) by (simp add: shard_sound_def)
  with assms(5) obtain t where "t \<le> now" and "fst (entry_verdict h (sh_key m) t (sa_auth e)) = ScheduledReady"
    unfolding explained_def by (metis fst_conv scheduled_state.distinct(3))
  with free_mono [OF assms(1) _ _ live] show ?thesis by (simp add: verdict_ready)
qed

section \<open>One pick\<close>

text \<open>The credentials of a provider for a model: \<open>a\<close> is the snapshot that the scheduler holds.\<close>

definition candidate :: "auth_scheduler \<Rightarrow> string \<Rightarrow> string \<Rightarrow> auth \<Rightarrow> bool" where
  "candidate s p key a \<longleftrightarrow>
     (\<exists>ps meta. map_of (as_providers s) p = Some ps \<and> map_of (ps_auths ps) (au_id a) = Some meta \<and>
        sm_auth meta = a \<and> supports_model meta key)"

lemma same_auths_candidate: "same_auths s t \<Longrightarrow> candidate t p key a = candidate s p key a"
proof -
  assume "same_auths s t"
  then have "map_option ps_auths (map_of (as_providers t) p) = map_option ps_auths (map_of (as_providers s) p)"
    by (simp add: same_auths_def)
  then show ?thesis by (cases "map_of (as_providers t) p"; cases "map_of (as_providers s) p") (auto simp: candidate_def)
qed

lemma entry_candidate:
  assumes "fits_in h now s p m" and "map_of (sh_entries m) i = Some e"
  shows "candidate s p (sh_key m) (sa_auth e)" and "au_id (sa_auth e) = i"
proof -
  obtain ps where ps: "map_of (as_providers s) p = Some ps" and sound: "shard_sound h now m"
    and off: "shard_metas m i = offering (ps_auths ps) (sh_key m) i"
    using assms(1) by (auto simp: fits_in_def shard_fits_def)
  show id: "au_id (sa_auth e) = i"
    using sound assms(2) by (auto simp: shard_sound_def shard_ok_def entries_ok_iff entry_ok_def)
  from off assms(2) have "offering (ps_auths ps) (sh_key m) i = Some (sa_meta e)" by (simp add: shard_metas_def)
  then have "map_of (ps_auths ps) i = Some (sa_meta e) \<and> supports_model (sa_meta e) (sh_key m)"
    by (auto simp: offering_def split: option.splits if_splits)
  with ps id show "candidate s p (sh_key m) (sa_auth e)" by (auto simp: candidate_def)
qed

lemma candidate_entry:
  assumes "fits_in h now s p m" and "candidate s p (sh_key m) a"
  shows "\<exists>e. map_of (sh_entries m) (au_id a) = Some e \<and> sa_auth e = a"
proof -
  obtain ps where ps: "map_of (as_providers s) p = Some ps"
    and off: "shard_metas m (au_id a) = offering (ps_auths ps) (sh_key m) (au_id a)"
    using assms(1) by (auto simp: fits_in_def shard_fits_def)
  from assms(2) ps obtain meta where "map_of (ps_auths ps) (au_id a) = Some meta" "sm_auth meta = a"
    "supports_model meta (sh_key m)" by (auto simp: candidate_def)
  with off show ?thesis by (auto simp: offering_def shard_metas_def)
qed

lemma ws_ready_all: "shard_ok m \<Longrightarrow> has_ready rb_ws pred m p \<Longrightarrow> has_ready rb_all pred m p"
  using bucket_flat by (fastforce simp: has_ready_def pick_first_def find_None_iff split: option.splits)

lemma highest_has_ready:
  "shard_ok m \<Longrightarrow> highest_ready_priority ws pred m = Some p \<Longrightarrow> has_ready rb_all pred m p"
  by (auto simp: highest_ready_priority_def find_Some_iff dest: ws_ready_all split: option.splits if_splits)

lemma pick_ready_at_total:
  assumes "shard_ok m" and "strategy \<noteq> StrategyWeightedRoundRobin" and "has_ready rb_all pred m p"
  shows "fst (pick_ready_at_priority ws p strategy pred m) \<noteq> None"
proof -
  obtain b where b: "ready_bucket_at m p = Some b" and first: "pick_first pred (rb_all b) \<noteq> None"
    using assms(3) by (auto simp: has_ready_def split: option.splits)
  have flat: "\<exists>f. map_of (sh_entries m) j = Some f" if "j \<in> set (rv_flat (rb_all b)) \<or> j \<in> set (rv_flat (rb_ws b))" for j
    using that bucket_flat [OF assms(1) b] assms(1) by (auto simp: ready_ids_iff shard_ok_def)
  have picked: "\<exists>i. fst (pick_by_strategy strategy (sh_entries m) pred v) = Some i" if "pick_first pred v \<noteq> None" for v
  proof (rule ccontr)
    assume "\<not> ?thesis"
    then have "fst (pick_by_strategy strategy (sh_entries m) pred v) = None" by simp
    from pick_by_strategy_None [OF this] that assms(2) show False
      by (auto simp: pickable_def pick_first_def find_Some_iff)
  qed
  define v where "v = (if ws \<and> pick_first pred (rb_ws b) \<noteq> None then rb_ws b else rb_all b)"
  from first have "pick_first pred v \<noteq> None" by (simp add: v_def)
  from picked [OF this] obtain i where i: "fst (pick_by_strategy strategy (sh_entries m) pred v) = Some i" ..
  with flat pick_by_strategy_Some(1) [OF i] obtain f where "map_of (sh_entries m) i = Some f"
    by (auto simp: v_def split: if_splits)
  with b i show ?thesis
    by (auto simp: pick_ready_at_priority_def v_def Let_def case_prod_beta entry_auth_def split: if_splits)
qed

lemma fits_ok: "fits_in h now s p m \<Longrightarrow> shard_ok m" "fits_in h now s p m \<Longrightarrow> shard_sound h now m"
  by (auto simp: fits_in_def shard_fits_def shard_sound_def)

text \<open>What a shard returns: a credential that is free and allowed, and of the highest priority among those when
  websockets are not preferred.\<close>

lemma pick_ready_Some:
  assumes hk: "kiro_until_reset h" and fits: "fits_in h now s p m" and live: "tokens_live h now m"
    and picked: "fst (pick_ready h now ws strategy pred m) = Some a"
  shows "candidate s p (sh_key m) a" and "pred (au_id a)" and "free h (sh_key m) now a"
proof -
  let ?m = "promote_expired h now m"
  have fits': "fits_in h now s p ?m" using promote_fits [OF fits] .
  obtain q where q: "fst (pick_ready_at_priority ws q strategy pred ?m) = Some a"
    using picked by (auto simp: pick_ready_def Let_def split: option.splits)
  from pick_ready_at_Some [OF fits_ok(1) [OF fits'] q] obtain i e where
    e: "map_of (sh_entries ?m) i = Some e" "a = sa_auth e" "ready_at q e" "pickable strategy (sh_entries ?m) pred i"
    by blast
  from entry_candidate [OF fits' e(1)] e show "candidate s p (sh_key m) a" "pred (au_id a)"
    by (simp_all add: pickable_def)
  have "tokens_live h now ?m" using promote_live [OF fits_ok(1) [OF fits] live] .
  from ready_free [OF hk fits_ok(2) [OF fits'] this e(1)] e show "free h (sh_key m) now a"
    by (simp add: ready_at_def)
qed

lemma promote_not_due:
  assumes "kiro_until_reset h" and "shard_ok m" and "map_of (sh_entries (promote_expired h now m)) i = Some e"
    and "\<And>k a. block_until h k now a = zero_time \<or> block_until h k now a > now"
  shows "\<not> retry_due now e"
proof -
  from assms(3) obtain e0 where e: "e = promoted h (sh_key m) now e0"
    by (auto simp: promote_entries [OF assms(2)] map_of_map_keyed)
  have "snd (entry_verdict h (sh_key m) now (sa_auth e0)) = zero_time \<or> snd (entry_verdict h (sh_key m) now (sa_auth e0)) > now"
    using assms(4) by (simp add: verdict_cases)
  then show ?thesis by (auto simp: e promoted_def retry_due_def)
qed

lemma live_deadline_after: "retry > now \<Longrightarrow> live_deadline now q retry > now"
  by (simp add: live_deadline_def Let_def)

lemma match_states_until:
  assumes "case acc of None \<Rightarrow> True | Some (b, r, n) \<Rightarrow> n = zero_time \<or> n > now"
  shows "case match_states key now acc states of None \<Rightarrow> True | Some (b, r, n) \<Rightarrow> n = zero_time \<or> n > now"
  using assms
proof (induction states arbitrary: acc)
  case (Cons x states)
  obtain m s where x: "x = (m, s)" by (cases x)
  obtain b r n where acc: "(case acc of None \<Rightarrow> (False, BlockNone, zero_time) | Some v \<Rightarrow> v) = (b, r, n)" by (metis prod_cases3)
  with Cons.prems have n: "n = zero_time \<or> n > now" by (cases acc) auto
  obtain sb sr sn where blk: "model_state_block now s = (sb, sr, sn)" by (metis prod_cases3)
  have "sn = zero_time \<or> sn > now"
    using blk live_deadline_after by (auto simp: model_state_block_def split: if_splits)
  then show ?case
    using Cons.IH [of acc] Cons.IH [of "Some (b, r, n)"] Cons.IH [of "Some (True, sr, sn)"]
      Cons.IH [of "Some (True, r, n)"] Cons.prems n
    by (simp add: x acc blk Let_def)
qed simp

lemma block_until_after:
  assumes "kiro_until_reset h"
  shows "block_until h key now a = zero_time \<or> block_until h key now a > now"
proof -
  have kiro: "snd (bh_kiro_blocked h a now) = zero_time \<or> snd (bh_kiro_blocked h a now) > now"
  proof -
    from assms obtain ex r where "\<forall>t. bh_kiro_blocked h a t =
        (if ex \<and> (r = zero_time \<or> r > t) then (True, r) else (False, zero_time))"
      unfolding kiro_until_reset_def by blast
    then show ?thesis by auto
  qed
  have states: "case match_states (canonical_model_key key) now None (au_states a) of None \<Rightarrow> True
      | Some (b, r, n) \<Rightarrow> n = zero_time \<or> n > now"
    by (rule match_states_until) simp
  show ?thesis
    using kiro states live_deadline_after
    by (auto simp: is_auth_blocked_for_model_def Let_def live_credential_quota_def split: option.splits)
qed

text \<open>A candidate that is passed over is held back: its token has expired, or it was blocked at some instant up to
  now, with no deadline or with one that has not come.\<close>

definition held_back :: "block_hooks \<Rightarrow> string \<Rightarrow> instant \<Rightarrow> auth \<Rightarrow> bool" where
  "held_back h key now a \<longleftrightarrow>
     token_expired h now a \<or>
     (\<exists>t \<le> now. \<not> free h key t a \<and>
        (block_kind h key t a = BlockDisabled \<or> block_until h key t a = zero_time \<or> block_until h key t a > now))"

lemma unready_held_back:
  assumes "shard_sound h now m" and "map_of (sh_entries m) i = Some e" and "sa_state e \<noteq> ScheduledReady"
    and "\<not> retry_due now e"
  shows "held_back h (sh_key m) now (sa_auth e)"
proof -
  have "explained h (sh_key m) now e" using assms(1,2) by (simp add: shard_sound_def)
  then consider t where "t \<le> now" "(sa_state e, sa_next_retry e) = entry_verdict h (sh_key m) t (sa_auth e)"
    | "token_expired h now (sa_auth e)" by (auto simp: explained_def)
  then show ?thesis
  proof cases
    case 1
    then have "\<not> free h (sh_key m) t (sa_auth e) \<and> (block_kind h (sh_key m) t (sa_auth e) = BlockDisabled \<or>
        block_until h (sh_key m) t (sa_auth e) = zero_time \<or> block_until h (sh_key m) t (sa_auth e) > now)"
      using assms(3,4) by (auto simp: verdict_cases retry_due_def split: if_splits)
    with 1 show ?thesis unfolding held_back_def by blast
  qed (simp add: held_back_def)
qed

text \<open>When nothing is due, the candidates above the priority served are held back, and all of them when nothing is
  served.\<close>

definition settled :: "instant \<Rightarrow> model_shard \<Rightarrow> bool" where
  "settled now m \<longleftrightarrow> (\<forall>i e. map_of (sh_entries m) i = Some e \<longrightarrow> \<not> retry_due now e)"

lemma promote_settled: "kiro_until_reset h \<Longrightarrow> shard_ok m \<Longrightarrow> settled now (promote_expired h now m)"
  unfolding settled_def using promote_not_due block_until_after by blast

lemma demoted_due: "retry_due now (demoted h now e) \<Longrightarrow> retry_due now e"
  by (auto simp: demoted_def retry_due_def split: if_splits)

lemma demote_settled: "settled now m \<Longrightarrow> settled now (demote_expired_tokens h now m)"
  by (auto simp: settled_def demote_entries map_of_map_keyed dest: demoted_due)

lemma upsert_settled: "kiro_until_reset h \<Longrightarrow> settled now m \<Longrightarrow> settled now (upsert_entry h now meta m)"
  using block_until_after [where h = h and key = "sh_key m" and now = now and a = "sm_auth meta"]
  by (auto simp: settled_def upsert_entry_entries map_of_update retry_due_def verdict_cases split: if_splits)

lemma build_settled: "kiro_until_reset h \<Longrightarrow> settled now (build_shard h now key auths)"
proof (induction auths rule: rev_induct)
  case (snoc x auths)
  then show ?case by (cases x) (simp add: build_shard_def upsert_settled)
qed (simp add: build_shard_def settled_def new_shard_def)

lemma ensure_settled:
  assumes "kiro_until_reset h" and "provider_sound h now p ps"
  shows "settled now (fst (ensure_model h now model ps))"
proof (cases "map_of (ps_shards ps) (canonical_model_key model)")
  case (Some m)
  then have "shard_ok m" using assms(2) by (auto simp: provider_sound_def shard_fits_def shard_sound_def)
  with Some assms(1) show ?thesis by (simp add: ensure_model_def Let_def demote_settled promote_settled)
qed (use assms(1) in \<open>simp add: ensure_model_def Let_def build_settled\<close>)

lemma ensure_in_settled:
  assumes "kiro_until_reset h" and "sched_sound h now s" and "fst (ensure_in h now p model s) = Some m"
  shows "settled now m"
proof -
  from assms(3) obtain ps where ps: "map_of (as_providers s) p = Some ps" and m: "m = fst (ensure_model h now model ps)"
    by (auto simp: ensure_in_def case_prod_beta split: option.splits)
  from assms(2) ps have "provider_sound h now p ps" by (simp add: sched_sound_def providers_sound_def)
  from ensure_settled [OF assms(1) this] show ?thesis by (simp add: m)
qed

lemma unready_candidate:
  assumes "fits_in h now s p m" and "settled now m" and "candidate s p (sh_key m) a"
    and "\<And>e q. map_of (sh_entries m) (au_id a) = Some e \<Longrightarrow> sm_priority (sa_meta e) = q \<Longrightarrow> \<not> ready_at q e"
  shows "held_back h (sh_key m) now a"
proof -
  from candidate_entry [OF assms(1,3)] obtain e where e: "map_of (sh_entries m) (au_id a) = Some e" "sa_auth e = a" by auto
  have "sa_state e \<noteq> ScheduledReady" using assms(4) [OF e(1)] by (auto simp: ready_at_def)
  with unready_held_back [OF fits_ok(2) [OF assms(1)] e(1)] assms(2) e show ?thesis
    by (simp add: settled_def)
qed

lemma none_ready_held_back:
  assumes "fits_in h now s p m" and "settled now m" and "highest_ready_priority ws pred m = None"
    and "candidate s p (sh_key m) a" and "pred (au_id a)"
  shows "held_back h (sh_key m) now a"
  using highest_ready_None [OF fits_ok(1) [OF assms(1)] assms(3)] assms(5)
  by (intro unready_candidate [OF assms(1,2,4)]) auto

lemma entry_priority:
  assumes "fits_in h now s p m" and "map_of (sh_entries m) i = Some e"
    and "sched_sound h now s"
  shows "sm_priority (sa_meta e) = auth_priority (sa_auth e)" and "sm_provider (sa_meta e) = p"
proof -
  obtain ps where ps: "map_of (as_providers s) p = Some ps"
    and off: "shard_metas m i = offering (ps_auths ps) (sh_key m) i"
    using assms(1) by (auto simp: fits_in_def shard_fits_def)
  from off assms(2) have "map_of (ps_auths ps) i = Some (sa_meta e)"
    by (auto simp: shard_metas_def offering_def split: option.splits if_splits)
  with ps assms(3) have "meta_ok p i (sa_meta e)"
    by (auto simp: sched_sound_def providers_sound_def provider_sound_def)
  then obtain r where r: "sa_meta e = build_scheduled_meta r (sa_auth e)"
    and p: "canonical_scheduling_provider (au_provider (sa_auth e)) = p" by (auto simp: meta_ok_def)
  from arg_cong [OF r, of sm_priority] arg_cong [OF r, of sm_provider] p
  show "sm_priority (sa_meta e) = auth_priority (sa_auth e)" "sm_provider (sa_meta e) = p"
    by (simp_all add: build_scheduled_meta_def)
qed

lemma above_held_back:
  assumes "sched_sound h now s" and "fits_in h now s p m" and "settled now m"
    and best: "highest_ready_priority False pred m = Some q \<or> highest_ready_priority False pred m = None"
    and "candidate s p (sh_key m) a" and "pred (au_id a)"
    and "highest_ready_priority False pred m = Some q \<Longrightarrow> auth_priority a > q"
  shows "held_back h (sh_key m) now a"
  using best
proof
  assume q: "highest_ready_priority False pred m = Some q"
  show ?thesis
  proof (intro unready_candidate [OF assms(2,3,5)] notI)
    fix e r assume e: "map_of (sh_entries m) (au_id a) = Some e" and r: "ready_at r e"
    from candidate_entry [OF assms(2,5)] e have "sa_auth e = a" by simp
    with entry_priority(1) [OF assms(2) e assms(1)] r have "r = auth_priority a" by (simp add: ready_at_def)
    with highest_ready_Some(2) [OF fits_ok(1) [OF assms(2)] q e r assms(6)] assms(7) [OF q] show False by simp
  qed
qed (rule none_ready_held_back [where pred = pred, OF assms(2,3) _ assms(5,6)])

lemma promote_settled_id: "shard_ok m \<Longrightarrow> settled now m \<Longrightarrow> promote_expired h now m = m"
  using promote_loop_spec [OF distinct_blocked, of m "sh_entries m" h "sh_key m" now False]
  by (auto simp: promote_expired_def settled_def shard_ok_def entries_ok_def case_prod_beta)

lemma pick_ready_settled:
  assumes "fits_in h now s p m" and "settled now m"
  shows "pick_ready h now ws strategy pred m =
     (case highest_ready_priority ws pred m of None \<Rightarrow> (None, m) | Some q \<Rightarrow> pick_ready_at_priority ws q strategy pred m)"
  by (simp add: pick_ready_def promote_settled_id [OF fits_ok(1) [OF assms(1)] assms(2)])

lemma pick_ready_held_back:
  assumes sound: "sched_sound h now s" and fits: "fits_in h now s p m" and set: "settled now m"
    and c: "candidate s p (sh_key m) b" and pred: "pred (au_id b)"
  shows "fst (pick_ready h now ws strategy pred m) = None \<Longrightarrow> strategy \<noteq> StrategyWeightedRoundRobin \<Longrightarrow>
           held_back h (sh_key m) now b"
    and "fst (pick_ready h now False strategy pred m) = Some a \<Longrightarrow> auth_priority b > auth_priority a \<Longrightarrow>
           held_back h (sh_key m) now b"
proof -
  have ok: "shard_ok m" using fits_ok(1) [OF fits] .
  assume none: "fst (pick_ready h now ws strategy pred m) = None" and w: "strategy \<noteq> StrategyWeightedRoundRobin"
  have "highest_ready_priority ws pred m = None"
  proof (rule ccontr)
    assume "\<not> ?thesis"
    then obtain q where q: "highest_ready_priority ws pred m = Some q" by auto
    from pick_ready_at_total [where ws = ws, OF ok w highest_has_ready [OF ok q]] none q show False
      by (simp add: pick_ready_settled [OF fits set])
  qed
  from none_ready_held_back [where pred = pred, OF fits set this c pred] show "held_back h (sh_key m) now b" .
next
  have ok: "shard_ok m" using fits_ok(1) [OF fits] .
  assume some: "fst (pick_ready h now False strategy pred m) = Some a" and above: "auth_priority b > auth_priority a"
  then obtain q where q: "highest_ready_priority False pred m = Some q"
    and p: "fst (pick_ready_at_priority False q strategy pred m) = Some a"
    by (auto simp: pick_ready_settled [OF fits set] split: option.splits)
  from pick_ready_at_Some [OF ok p] obtain i e where e: "map_of (sh_entries m) i = Some e" "a = sa_auth e" "ready_at q e"
    by blast
  with entry_priority(1) [OF fits e(1) sound] have "auth_priority a = q" by (simp add: ready_at_def)
  with above above_held_back [where pred = pred, OF sound fits set _ c pred] q show "held_back h (sh_key m) now b" by simp
qed

lemma put_keeps:
  assumes "pick_keeps h now s0 s" and "fits_in h now s0 p m"
  shows "pick_keeps h now s0 (put_shard p m s)"
proof -
  have "sched_sound h now s" and same: "same_auths s0 s" using assms(1) by (auto simp: pick_keeps_def)
  with put_shard_keeps [of h now s p m] assms(2) same_auths_fits [OF same] show ?thesis
    using pick_keeps_trans [OF assms(1)] by blast
qed

definition shard_key :: "string \<Rightarrow> string" where
  "shard_key model = canonical_model_key (canonical_model_key model)"

lemma pick_single_spec:
  assumes "sched_sound h now s"
  shows "pick_keeps h now s (snd (pick_single h now provider model opts s))"
    and "kiro_until_reset h \<Longrightarrow> fst (pick_single h now provider model opts s) = Inr a \<Longrightarrow>
           candidate s (canonical_scheduling_provider provider) (shard_key model) a \<and>
           single_predicate opts (au_id a) \<and> free h (shard_key model) now a"
proof -
  let ?p = "canonical_scheduling_provider provider"
  let ?en = "ensure_in h now ?p (canonical_model_key model) s"
  let ?ws = "po_websocket opts \<and> ?p = ''codex'' \<and> po_pinned opts = []"
  note spec = ensure_in_spec [OF assms, of ?p "canonical_model_key model"]
  show "pick_keeps h now s (snd (pick_single h now provider model opts s))"
  proof (cases "fst ?en")
    case None
    with spec(1) show ?thesis by (simp add: pick_single_def Let_def case_prod_beta)
  next
    case (Some m)
    with spec(3) have "fits_in h now s ?p m" by simp
    from put_keeps [OF spec(1) pick_ready_fits [OF this]] Some show ?thesis
      by (auto simp: pick_single_def Let_def case_prod_beta split: option.splits)
  qed
  assume hk: "kiro_until_reset h" and picked: "fst (pick_single h now provider model opts s) = Inr a"
  then obtain m where m: "fst ?en = Some m"
    and a: "fst (pick_ready h now ?ws (as_strategy (snd ?en)) (single_predicate opts) m) = Some a"
    by (auto simp: pick_single_def Let_def case_prod_beta split: option.splits)
  with spec(3) have "fits_in h now s ?p m" "sh_key m = shard_key model" by (simp_all add: shard_key_def)
  with pick_ready_Some [OF hk _ ensure_in_live [OF m] a] show
    "candidate s ?p (shard_key model) a \<and> single_predicate opts (au_id a) \<and> free h (shard_key model) now a"
    by metis
qed

lemma pick_single_held_back:
  assumes sound: "sched_sound h now s" and hk: "kiro_until_reset h"
    and c: "candidate s (canonical_scheduling_provider provider) (shard_key model) b" and pred: "single_predicate opts (au_id b)"
  shows "fst (pick_single h now provider model opts s) = Inl e \<Longrightarrow> as_strategy s \<noteq> StrategyWeightedRoundRobin \<Longrightarrow>
           held_back h (shard_key model) now b"
    and "fst (pick_single h now provider model opts s) = Inr a \<Longrightarrow> \<not> po_websocket opts \<Longrightarrow>
           auth_priority b > auth_priority a \<Longrightarrow> held_back h (shard_key model) now b"
proof -
  let ?p = "canonical_scheduling_provider provider"
  let ?en = "ensure_in h now ?p (canonical_model_key model) s"
  let ?ws = "po_websocket opts \<and> ?p = ''codex'' \<and> po_pinned opts = []"
  note spec = ensure_in_spec [OF sound, of ?p "canonical_model_key model"]
  have strategy: "as_strategy (snd ?en) = as_strategy s"
    using spec(1) by (simp add: pick_keeps_def same_auths_def)
  have "map_of (as_providers s) ?p \<noteq> None" using c by (auto simp: candidate_def)
  then obtain m where m: "fst ?en = Some m" using spec(2) by (cases "fst ?en") auto
  with spec(3) have fits: "fits_in h now s ?p m" and key: "sh_key m = shard_key model" by (simp_all add: shard_key_def)
  have set: "settled now m" using ensure_in_settled [OF hk sound m] .
  note held = pick_ready_held_back [where pred = "single_predicate opts", OF sound fits set c [folded key] pred, unfolded key]
  show "held_back h (shard_key model) now b"
    if "fst (pick_single h now provider model opts s) = Inl e" "as_strategy s \<noteq> StrategyWeightedRoundRobin"
    using that held(1) m strategy by (auto simp: pick_single_def Let_def case_prod_beta split: option.splits)
  show "held_back h (shard_key model) now b"
    if "fst (pick_single h now provider model opts s) = Inr a" "\<not> po_websocket opts" "auth_priority b > auth_priority a"
    using that held(2) m by (auto simp: pick_single_def Let_def case_prod_beta split: option.splits)
qed

end
