(* ===== verification/Scheduler_Mixed.thy ===== *)
theory Scheduler_Mixed
  imports Scheduler_Invariant
begin

text \<open>
  Picks over several providers: they keep the invariant, serve the best priority of all providers, and fail
  only when every candidate is held back.
\<close>

section \<open>Picks over several providers\<close>

text \<open>The shards of the providers, as the scheduler \<open>s\<close> has them.\<close>

definition shards_fit :: "block_hooks \<Rightarrow> instant \<Rightarrow> auth_scheduler \<Rightarrow> string \<Rightarrow> (string \<times> model_shard option) list \<Rightarrow> bool" where
  "shards_fit h now s key shards \<longleftrightarrow>
     (\<forall>p m. (p, Some m) \<in> set shards \<longrightarrow> fits_in h now s p m \<and> sh_key m = key \<and> tokens_live h now m) \<and>
     (\<forall>p. (p, None) \<in> set shards \<longrightarrow> map_of (as_providers s) p = None)"

lemma shards_fitD:
  assumes "shards_fit h now s key shards" and "(p, Some m) \<in> set shards"
  shows "fits_in h now s p m" "sh_key m = key" "tokens_live h now m"
  using assms by (auto simp: shards_fit_def)

lemma same_auths_provider:
  "same_auths s t \<Longrightarrow> map_of (as_providers t) p = None \<longleftrightarrow> map_of (as_providers s) p = None"
proof -
  assume "same_auths s t"
  then have "map_option ps_auths (map_of (as_providers t) p) = map_option ps_auths (map_of (as_providers s) p)"
    by (simp add: same_auths_def)
  then show ?thesis by (cases "map_of (as_providers t) p"; cases "map_of (as_providers s) p") auto
qed

lemma ensure_all_spec:
  assumes "sched_sound h now s"
  shows "pick_keeps h now s (snd (ensure_all h now model ps s))"
    and "shards_fit h now s (canonical_model_key model) (fst (ensure_all h now model ps s))"
    and "map fst (fst (ensure_all h now model ps s)) = ps"
    and "kiro_until_reset h \<Longrightarrow> (p, Some m) \<in> set (fst (ensure_all h now model ps s)) \<Longrightarrow> settled now m"
proof -
  have "pick_keeps h now s (snd (ensure_all h now model ps s)) \<and>
      shards_fit h now s (canonical_model_key model) (fst (ensure_all h now model ps s)) \<and>
      map fst (fst (ensure_all h now model ps s)) = ps \<and>
      (kiro_until_reset h \<longrightarrow> (\<forall>p m. (p, Some m) \<in> set (fst (ensure_all h now model ps s)) \<longrightarrow> settled now m))"
    using assms
  proof (induction ps arbitrary: s)
    case Nil
    then show ?case by (simp add: pick_keeps_def shards_fit_def)
  next
    case (Cons q ps)
    let ?m = "fst (ensure_in h now q model s)" and ?t = "snd (ensure_in h now q model s)"
    have keeps: "pick_keeps h now s ?t" using ensure_in_spec(1) [OF Cons.prems] .
    then have t: "sched_sound h now ?t" and same: "same_auths s ?t" by (auto simp: pick_keeps_def)
    note IH = Cons.IH [OF t]
    have "shards_fit h now s (canonical_model_key model) (fst (ensure_all h now model ps ?t))"
      using IH same_auths_fits [OF same] same_auths_provider [OF same] by (simp add: shards_fit_def)
    moreover have "fits_in h now s q n \<and> sh_key n = canonical_model_key model \<and> tokens_live h now n" if "?m = Some n" for n
      using ensure_in_spec(3) [OF Cons.prems that] ensure_in_live [OF that] by simp
    ultimately show ?case
      using IH pick_keeps_trans [OF keeps] ensure_in_spec(2) [OF Cons.prems, of q model] ensure_in_settled [OF _ Cons.prems]
      by (auto simp: case_prod_beta shards_fit_def)
  qed
  then show "pick_keeps h now s (snd (ensure_all h now model ps s))"
    and "shards_fit h now s (canonical_model_key model) (fst (ensure_all h now model ps s))"
    and "map fst (fst (ensure_all h now model ps s)) = ps"
    and "kiro_until_reset h \<Longrightarrow> (p, Some m) \<in> set (fst (ensure_all h now model ps s)) \<Longrightarrow> settled now m"
    by blast+
qed

text \<open>What a pick at one priority gives: a credential of that priority from one of the shards.\<close>

definition from_shards :: "(string \<times> model_shard option) list \<Rightarrow> int \<Rightarrow> (string \<Rightarrow> bool) \<Rightarrow> auth \<Rightarrow> string \<Rightarrow> bool" where
  "from_shards shards best pred a p \<longleftrightarrow>
     (\<exists>m i e. (p, Some m) \<in> set shards \<and> map_of (sh_entries m) i = Some e \<and> a = sa_auth e \<and> ready_at best e \<and> pred i)"

lemma from_shards_mono: "from_shards xs best pred a p \<Longrightarrow> set xs \<subseteq> set ys \<Longrightarrow> from_shards ys best pred a p"
  unfolding from_shards_def by blast

lemma mixed_try_spec:
  assumes "shards_fit h now s0 key shards" and "pick_keeps h now s0 s"
  shows "pick_keeps h now s0 (snd (mixed_try strategy best pred shards s))"
    and "fst (mixed_try strategy best pred shards s) = Some (a, p) \<Longrightarrow> from_shards shards best pred a p"
proof -
  have "pick_keeps h now s0 (snd (mixed_try strategy best pred shards s)) \<and>
      (\<forall>a p. fst (mixed_try strategy best pred shards s) = Some (a, p) \<longrightarrow> from_shards shards best pred a p)"
    using assms
  proof (induction strategy best pred shards s rule: mixed_try.induct)
    case (3 strategy best pred p m shards s)
    let ?r = "pick_ready_at_priority False best strategy pred m"
    have fits: "fits_in h now s0 p m" using 3(2) by (auto simp: shards_fit_def)
    have keeps: "pick_keeps h now s0 (put_shard p (snd ?r) s)"
      using put_keeps [OF 3(3) pick_ready_at_fits [OF fits]] .
    show ?case
    proof (cases "fst ?r")
      case None
      have "shards_fit h now s0 key shards" using 3(2) by (auto simp: shards_fit_def)
      from 3(1) [OF refl prod.collapse refl None this keeps] None show ?thesis
        by (auto simp: case_prod_beta Let_def intro: from_shards_mono [where xs = shards])
    next
      case (Some a)
      from pick_ready_at_Some [OF fits_ok(1) [OF fits] Some] have "from_shards ((p, Some m) # shards) best pred a p"
        unfolding from_shards_def pickable_def by auto
      with Some keeps show ?thesis by (simp add: case_prod_beta Let_def)
    qed
  next
    case (2 strategy best pred p shards s)
    then have "shards_fit h now s0 key shards" by (auto simp: shards_fit_def)
    with 2 show ?case by (auto intro: from_shards_mono [where xs = shards])
  qed simp
  then show "pick_keeps h now s0 (snd (mixed_try strategy best pred shards s))"
    and "fst (mixed_try strategy best pred shards s) = Some (a, p) \<Longrightarrow> from_shards shards best pred a p"
    by auto
qed

lemma cursor_keeps:
  assumes "pick_keeps h now s0 s" and "as_providers t = as_providers s" and "as_auth_providers t = as_auth_providers s"
    and "as_strategy t = as_strategy s" and "as_generations t = as_generations s"
  shows "pick_keeps h now s0 t"
  using assms sched_sound_cong [OF assms(2,3)] by (simp add: pick_keeps_def same_auths_def)

lemma mixed_rotate_spec:
  assumes "shards_fit h now s0 key shards" and "pick_keeps h now s0 s" and "\<And>j. j \<in> set js \<Longrightarrow> j < length shards"
  shows "pick_keeps h now s0 (snd (mixed_rotate ck best pred shards weights slot js s))"
    and "fst (mixed_rotate ck best pred shards weights slot js s) = Some (a, p) \<Longrightarrow> from_shards shards best pred a p"
proof -
  have "pick_keeps h now s0 (snd (mixed_rotate ck best pred shards weights slot js s)) \<and>
      (\<forall>a p. fst (mixed_rotate ck best pred shards weights slot js s) = Some (a, p) \<longrightarrow> from_shards shards best pred a p)"
    using assms
  proof (induction js arbitrary: s)
    case (Cons j js)
    show ?case
    proof (cases "weights ! j = 0")
      case True
      with Cons show ?thesis by simp
    next
      case False
      let ?r = "mixed_try StrategyRoundRobin best pred [shards ! j] s"
      have mem: "set [shards ! j] \<subseteq> set shards" using Cons.prems(3) by simp
      then have fit: "shards_fit h now s0 key [shards ! j]" using Cons.prems(1) unfolding shards_fit_def by blast
      note tries = mixed_try_spec [OF fit Cons.prems(2), where strategy = StrategyRoundRobin and best = best and pred = pred]
      show ?thesis
      proof (cases "fst ?r")
        case None
        with Cons.IH [OF Cons.prems(1) tries(1)] Cons.prems(3) False show ?thesis
          by (cases ?r) simp
      next
        case (Some x)
        obtain a p where x: "x = (a, p)" by (cases x)
        have "from_shards shards best pred a p" using tries(2) Some x mem by (auto intro: from_shards_mono)
        with Some x False tries(1) show ?thesis
          by (cases ?r) (auto intro: cursor_keeps)
      qed
    qed
  qed simp
  then show "pick_keeps h now s0 (snd (mixed_rotate ck best pred shards weights slot js s))"
    and "fst (mixed_rotate ck best pred shards weights slot js s) = Some (a, p) \<Longrightarrow> from_shards shards best pred a p"
    by auto
qed

lemma pick_mixed_round_robin_spec:
  assumes "shards_fit h now s0 key shards" and "pick_keeps h now s0 s"
  shows "pick_keeps h now s0 (snd (pick_mixed_round_robin ck best pred shards s))"
    and "fst (pick_mixed_round_robin ck best pred shards s) = Some (a, p) \<Longrightarrow> from_shards shards best pred a p"
proof -
  let ?n = "length shards"
  have idx: "j \<in> set (map (\<lambda>offset. (start + offset) mod ?n) [0..<?n]) \<Longrightarrow> j < ?n" for start j
    by (cases "?n = 0") (auto intro: mod_less_divisor)
  let ?js = "\<lambda>start. map (\<lambda>offset. (start + offset) mod ?n) [0..<?n]"
  have keeps: "pick_keeps h now s0 (snd (mixed_rotate ck best pred shards w slot (?js start) s))" for w slot start
    by (rule mixed_rotate_spec(1) [OF assms]) (rule idx)
  have res: "fst (mixed_rotate ck best pred shards w slot (?js start) s) = Some (a, p) \<Longrightarrow> from_shards shards best pred a p"
    for w slot start by (erule mixed_rotate_spec(2) [OF assms, rotated]) (rule idx)
  define w where "w = map (\<lambda>(p, m). case m of None \<Rightarrow> 0 | Some m \<Rightarrow> ready_count_at_priority False best m) shards"
  note def = pick_mixed_round_robin_def [of ck best pred shards s, folded w_def, unfolded Let_def]
  show "pick_keeps h now s0 (snd (pick_mixed_round_robin ck best pred shards s))"
    unfolding def using assms(2) keeps by (simp split: option.split)
  show "fst (pick_mixed_round_robin ck best pred shards s) = Some (a, p) \<Longrightarrow> from_shards shards best pred a p"
    unfolding def by (auto split: option.splits if_splits dest: res)
qed

lemma map_filter_Some:
  "x \<in> set (List.map_filter f xs) \<longleftrightarrow> (\<exists>y \<in> set xs. f y = Some x)"
  by (force simp: List.map_filter_def)

lemma mixed_entries_from:
  assumes "shards_fit h now s0 key shards" and "sched_sound h now s0"
    and "map_of (mixed_entries best shards) i = Some e" and "pred i"
  shows "from_shards shards best pred (sa_auth e) (sm_provider (sa_meta e))"
proof -
  from map_of_SomeD [OF assms(3)] obtain p m b where p: "(p, Some m) \<in> set shards"
    and b: "ready_bucket_at m best = Some b" and i: "i \<in> set (rv_flat (rb_all b))" and e: "map_of (sh_entries m) i = Some e"
    by (auto simp: mixed_entries_def map_filter_Some split: option.splits) (metis option.inject)
  have fits: "fits_in h now s0 p m" using shards_fitD(1) [OF assms(1) p] .
  have "i \<in> set (ready_ids best (sh_entries m))" using i bucket_flat(1) [OF fits_ok(1) [OF fits] b] by simp
  then have "ready_at best e" using e fits_ok(1) [OF fits] by (auto simp: ready_ids_iff shard_ok_def)
  with p e assms(4) entry_priority(2) [OF fits e assms(2)] show ?thesis by (auto simp: from_shards_def)
qed

lemma pick_mixed_weighted_spec:
  assumes "shards_fit h now s0 key shards" and "pick_keeps h now s0 s" and "sched_sound h now s0"
  shows "pick_keeps h now s0 (snd (pick_mixed_weighted ck best pred shards s))"
    and "fst (pick_mixed_weighted ck best pred shards s) = Some (a, p) \<Longrightarrow> from_shards shards best pred a p"
proof -
  show "pick_keeps h now s0 (snd (pick_mixed_weighted ck best pred shards s))"
    by (rule cursor_keeps [OF assms(2)]) (simp_all add: pick_mixed_weighted_def Let_def case_prod_beta)
  let ?es = "mixed_entries best shards"
  assume some: "fst (pick_mixed_weighted ck best pred shards s) = Some (a, p)"
  define st where "st = prepare_weights (scheduled_weight_vector_matching ?es (map fst ?es) pred)
      (case map_of (as_weighted s) ck of None \<Rightarrow> empty_weighted | Some st \<Rightarrow> st)"
  from some obtain i e where i: "fst (pick_smooth_weighted_scheduled (entry_weight ?es) pred (map fst ?es) (wt_current st)) = Some i"
    and e: "map_of ?es i = Some e" "a = sa_auth e" "p = sm_provider (sa_meta e)"
    by (auto simp: pick_mixed_weighted_def Let_def case_prod_beta bind_eq_Some_conv st_def [symmetric])
  from weighted_scheduled_spec [where weight = "entry_weight ?es" and pred = pred and ids = "map fst ?es" and current = "wt_current st"] i
  have "pred i" by simp
  with mixed_entries_from [OF assms(1,3) e(1)] e show "from_shards shards best pred a p" by simp
qed

lemma pick_mixed_ready_spec:
  assumes "shards_fit h now s0 key shards" and "pick_keeps h now s0 s" and "sched_sound h now s0"
  shows "pick_keeps h now s0 (snd (pick_mixed_ready ns model best pred shards s))"
    and "fst (pick_mixed_ready ns model best pred shards s) = Some (a, p) \<Longrightarrow> from_shards shards best pred a p"
  using mixed_try_spec [OF assms(1,2), where strategy = StrategyFillFirst and best = best and pred = pred]
    pick_mixed_weighted_spec [OF assms, where ck = "cursor_key_of ns model" and best = best and pred = pred]
    pick_mixed_round_robin_spec [OF assms(1,2), where ck = "cursor_key_of ns model" and best = best and pred = pred]
  by (cases "as_strategy s"; simp add: pick_mixed_ready_def)+

section \<open>The best priority over all providers\<close>

lemma best_ready_spec:
  "(case best_ready_priority pred shards of
      None \<Rightarrow> \<forall>p m. (p, Some m) \<in> set shards \<longrightarrow> highest_ready_priority False pred m = None
    | Some b \<Rightarrow> (\<exists>p m. (p, Some m) \<in> set shards \<and> highest_ready_priority False pred m = Some b) \<and>
               (\<forall>p m q. (p, Some m) \<in> set shards \<longrightarrow> highest_ready_priority False pred m = Some q \<longrightarrow> q \<le> b))"
proof (induction shards rule: rev_induct)
  case (snoc x shards)
  obtain p mo where x: "x = (p, mo)" by (cases x)
  have step: "best_ready_priority pred (shards @ [x]) =
      (case mo of None \<Rightarrow> best_ready_priority pred shards
       | Some m \<Rightarrow> (case highest_ready_priority False pred m of None \<Rightarrow> best_ready_priority pred shards
          | Some q \<Rightarrow> (case best_ready_priority pred shards of None \<Rightarrow> Some q | Some b \<Rightarrow> Some (if q > b then q else b))))"
    unfolding best_ready_priority_def x by simp
  show ?case
  proof (cases mo)
    case None
    with snoc show ?thesis unfolding step unfolding x by (auto split: option.splits)
  next
    case (Some m)
    show ?thesis
    proof (cases "highest_ready_priority False pred m")
      case None
      with snoc Some show ?thesis unfolding step unfolding x by (auto split: option.splits)
    next
      case q: (Some q)
      show ?thesis
      proof (cases "best_ready_priority pred shards")
        case None
        with snoc have "\<And>p m. (p, Some m) \<in> set shards \<Longrightarrow> highest_ready_priority False pred m = None" by simp
        with None Some q show ?thesis unfolding step unfolding x by fastforce
      next
        case b: (Some b)
        with snoc have ex: "\<exists>p m. (p, Some m) \<in> set shards \<and> highest_ready_priority False pred m = Some b"
          and le: "\<And>p m q. (p, Some m) \<in> set shards \<Longrightarrow> highest_ready_priority False pred m = Some q \<Longrightarrow> q \<le> b"
          by simp_all
        have "best_ready_priority pred (shards @ [x]) = Some (max q b)" by (simp add: step Some q b max_def)
        moreover have "\<exists>p m. (p, Some m) \<in> set (shards @ [x]) \<and> highest_ready_priority False pred m = Some (max q b)"
          using ex q Some x by (auto simp: max_def)
        moreover have "r \<le> max q b" if "(p', Some m') \<in> set (shards @ [x])" "highest_ready_priority False pred m' = Some r" for p' m' r
          using that le [of p' m' r] q Some x by auto
        ultimately show ?thesis by simp
      qed
    qed
  qed
qed (simp add: best_ready_priority_def)

lemma mixed_try_total:
  assumes "shards_fit h now s0 key shards" and "(p, Some m) \<in> set shards" and "has_ready rb_all pred m best"
    and "strategy \<noteq> StrategyWeightedRoundRobin"
  shows "fst (mixed_try strategy best pred shards s) \<noteq> None"
  using assms
proof (induction strategy best pred shards s rule: mixed_try.induct)
  case (2 strategy best pred q shards s)
  then have "shards_fit h now s0 key shards" by (auto simp: shards_fit_def)
  with 2 show ?case by auto
next
  case (3 strategy best pred q n shards s)
  let ?r = "pick_ready_at_priority False best strategy pred n"
  have fits: "fits_in h now s0 q n" and fits': "shards_fit h now s0 key shards" using 3(2) by (auto simp: shards_fit_def)
  show ?case
  proof (cases "fst ?r")
    case None
    then have "\<not> has_ready rb_all pred n best"
      using pick_ready_at_total [where ws = False, OF fits_ok(1) [OF fits] 3(5)] by blast
    then have "(p, Some m) \<in> set shards" using 3(3,4) by auto
    from 3(1) [OF refl prod.collapse refl None fits' this 3(4,5)] None show ?thesis
      by (simp add: case_prod_beta Let_def)
  next
    case (Some a)
    then show ?thesis by (simp add: case_prod_beta Let_def)
  qed
qed simp

lemma mixed_rotate_total:
  assumes "shards_fit h now s0 key shards" and "\<And>j. j \<in> set js \<Longrightarrow> j < length shards"
    and "k \<in> set js" "shards ! k = (p, Some m)" "has_ready rb_all pred m best" "weights ! k \<noteq> 0"
  shows "fst (mixed_rotate ck best pred shards weights slot js s) \<noteq> None"
  using assms(2,3)
proof (induction js arbitrary: s)
  case (Cons j js)
  have "set [shards ! j] \<subseteq> set shards" using Cons.prems(1) by simp
  then have fit: "shards_fit h now s0 key [shards ! j]" using assms(1) unfolding shards_fit_def by blast
  show ?case
  proof (cases "k = j \<and> weights ! j \<noteq> 0")
    case True
    with assms(4) have "(p, Some m) \<in> set [shards ! j]" by simp
    from mixed_try_total [OF fit this assms(5), where strategy = StrategyRoundRobin and s = s]
    obtain r t where "mixed_try StrategyRoundRobin best pred [shards ! j] s = (Some r, t)"
      by (cases "mixed_try StrategyRoundRobin best pred [shards ! j] s") auto
    with True show ?thesis by simp
  next
    case False
    with Cons.prems(2) assms(6) have k: "k \<in> set js" by auto
    show ?thesis
    proof (cases "weights ! j = 0")
      case True
      with Cons.IH [OF _ k] Cons.prems(1) show ?thesis by simp
    next
      case nz: False
      obtain r t where r: "mixed_try StrategyRoundRobin best pred [shards ! j] s = (r, t)" by fastforce
      with Cons.IH [OF _ k] Cons.prems(1) nz show ?thesis by (cases r) simp_all
    qed
  qed
qed simp

text \<open>A slot below the total lies in some segment, and the segment is not empty.\<close>

lemma slot_in_segment:
  "slot < sum_list (weights :: nat list) \<Longrightarrow> \<exists>j < length weights. weights ! j \<noteq> 0 \<and> slot < segment_start weights (j + 1)"
proof (induction weights rule: rev_induct)
  case (snoc w weights)
  show ?case
  proof (cases "slot < sum_list weights")
    case True
    from snoc.IH [OF this] obtain j where j: "j < length weights" "weights ! j \<noteq> 0" "slot < segment_start weights (j + 1)" by blast
    then have "segment_start (weights @ [w]) (j + 1) = segment_start weights (j + 1)" by (simp add: segment_start_def)
    moreover have "(weights @ [w]) ! j = weights ! j" using j(1) by (simp add: nth_append)
    ultimately show ?thesis using j by (metis length_append less_add_one less_trans list.size(3,4) Suc_eq_plus1 add_0)
  next
    case False
    with snoc.prems have "w \<noteq> 0" by simp
    with snoc.prems show ?thesis by (intro exI [of _ "length weights"]) (simp add: segment_start_def nth_append)
  qed
qed simp

lemma rotated_indices: "start < n \<Longrightarrow> set (map (\<lambda>offset. (start + offset) mod n) [0..<n]) = {..<n}"
proof (intro equalityI subsetI)
  fix j assume "start < n" and j: "j \<in> {..<n}"
  let ?o = "if start \<le> j then j - start else n - start + j"
  have "?o < n" and "(start + ?o) mod n = j" using \<open>start < n\<close> j by auto
  then show "j \<in> set (map (\<lambda>offset. (start + offset) mod n) [0..<n])" by force
qed auto

lemma ready_counted:
  assumes "shard_ok m" and "has_ready rb_all pred m best"
  shows "ready_count_at_priority False best m \<noteq> 0"
  using assms by (auto simp: has_ready_def ready_count_at_priority_def pick_first_def find_Some_iff split: option.splits)

lemma pick_mixed_ready_total:
  assumes fit: "shards_fit h now s0 key shards" and mem: "(p, Some m) \<in> set shards" and ready: "has_ready rb_all pred m best"
    and "as_strategy s \<noteq> StrategyWeightedRoundRobin"
  shows "fst (pick_mixed_ready ns model best pred shards s) \<noteq> None"
proof -
  have rr: "fst (pick_mixed_round_robin ck best pred shards s) \<noteq> None" for ck
  proof -
    define w where "w = map (\<lambda>(p, m). case m of None \<Rightarrow> 0 | Some m \<Rightarrow> ready_count_at_priority False best m) shards"
    note def = pick_mixed_round_robin_def [of ck best pred shards s, folded w_def, unfolded Let_def]
    let ?n = "length shards"
    from mem obtain k where k: "k < ?n" "shards ! k = (p, Some m)" by (metis in_set_conv_nth)
    have wk: "w ! k \<noteq> 0"
      using k ready_counted [OF fits_ok(1) [OF shards_fitD(1) [OF fit mem]] ready] by (simp add: w_def)
    have len: "length w = ?n" by (simp add: w_def)
    have "w ! k \<le> sum_list w" by (intro member_le_sum_list nth_mem) (simp_all add: len k)
    with wk have tot: "sum_list w \<noteq> 0" by linarith
    let ?slot = "(case map_of (as_cursors s) ck of None \<Rightarrow> 0 | Some c \<Rightarrow> c) mod sum_list w"
    from tot have "?slot < sum_list w" by (intro mod_less_divisor) linarith
    from slot_in_segment [OF this] have "\<exists>j < ?n. w ! j \<noteq> 0 \<and> ?slot < segment_start w (j + 1)" by (simp add: len)
    then have "find (\<lambda>j. w ! j \<noteq> 0 \<and> ?slot < segment_start w (j + 1)) [0..<?n] \<noteq> None"
      by (auto simp: find_None_iff)
    then obtain start where start: "find (\<lambda>j. w ! j \<noteq> 0 \<and> ?slot < segment_start w (j + 1)) [0..<?n] = Some start" by blast
    then have "start < ?n" by (auto simp: find_Some_iff)
    note js = rotated_indices [OF this]
    have "fst (mixed_rotate ck best pred shards w slot (map (\<lambda>offset. (start + offset) mod ?n) [0..<?n]) s) \<noteq> None" for slot
      by (rule mixed_rotate_total [OF fit _ _ k(2) ready wk]) (use js k(1) in auto)
    with tot show ?thesis unfolding def start by simp
  qed
  show ?thesis
    using rr mixed_try_total [OF fit mem ready, where strategy = StrategyFillFirst] assms(4)
    by (cases "as_strategy s") (simp_all add: pick_mixed_ready_def)
qed

section \<open>Picks over several providers, altogether\<close>

lemma mixed_failure_keeps: "sched_sound h now s \<Longrightarrow> pick_keeps h now s (snd (mixed_failure h now ps model tried s))"
  using ensure_all_spec(1) [of h now s "canonical_model_key model" ps]
  by (simp add: mixed_failure_def mixed_unavailable_error_def case_prod_beta Let_def)

lemma mixed_failure_Inl: "fst (mixed_failure h now ps model tried s) \<noteq> Inr r"
  by (simp add: mixed_failure_def case_prod_beta)

lemma pick_mixed_pinned_keeps:
  assumes "sched_sound h now s"
  shows "pick_keeps h now s (snd (pick_mixed_pinned h now ns model opts s))"
proof -
  let ?p = "provider_of s (po_pinned opts)"
  let ?en = "ensure_in h now ?p (canonical_model_key model) s"
  note spec = ensure_in_spec [OF assms, of ?p "canonical_model_key model"]
  have refl: "pick_keeps h now s s" using assms by (simp add: pick_keeps_def)
  show ?thesis
  proof (cases "fst ?en")
    case None
    with spec(1) refl show ?thesis by (simp add: pick_mixed_pinned_def Let_def case_prod_beta)
  next
    case (Some m)
    with spec(3) have "fits_in h now s ?p m" by simp
    from put_keeps [OF spec(1) pick_ready_fits [OF this]] Some refl show ?thesis
      by (auto simp: pick_mixed_pinned_def Let_def case_prod_beta split: option.splits)
  qed
qed

abbreviation shards_of :: "block_hooks \<Rightarrow> instant \<Rightarrow> string list \<Rightarrow> string \<Rightarrow> auth_scheduler \<Rightarrow> (string \<times> model_shard option) list" where
  "shards_of h now ps model s \<equiv> fst (ensure_all h now (canonical_model_key model) ps s)"

abbreviation ensured :: "block_hooks \<Rightarrow> instant \<Rightarrow> string list \<Rightarrow> string \<Rightarrow> auth_scheduler \<Rightarrow> auth_scheduler" where
  "ensured h now ps model s \<equiv> snd (ensure_all h now (canonical_model_key model) ps s)"

lemma ensured_spec:
  assumes "sched_sound h now s"
  shows "pick_keeps h now s (ensured h now ps model s)"
    and "shards_fit h now s (shard_key model) (shards_of h now ps model s)"
    and "map fst (shards_of h now ps model s) = ps"
    and "kiro_until_reset h \<Longrightarrow> (p, Some m) \<in> set (shards_of h now ps model s) \<Longrightarrow> settled now m"
  using ensure_all_spec [OF assms] by (simp_all add: shard_key_def)

lemma pick_mixed_general_keeps:
  assumes "sched_sound h now s"
  shows "pick_keeps h now s (snd (pick_mixed_general h now ps model tried s))"
proof -
  note e = ensured_spec [where ps = ps and model = model, OF assms]
  have keeps: "pick_keeps h now s (snd (mixed_failure h now ps model tried t))" if "pick_keeps h now s t" for t
    using that mixed_failure_keeps [of h now t] by (metis pick_keeps_def pick_keeps_trans)
  show ?thesis
  proof (cases "best_ready_priority (tried_predicate tried) (shards_of h now ps model s)")
    case None
    with keeps [OF e(1)] show ?thesis by (simp add: pick_mixed_general_def case_prod_beta Let_def)
  next
    case (Some best)
    obtain r t where rt: "pick_mixed_ready ps model best (tried_predicate tried) (shards_of h now ps model s) (ensured h now ps model s) = (r, t)"
      by fastforce
    with pick_mixed_ready_spec(1) [OF e(2,1) assms, where ns = ps and model = model and best = best and pred = "tried_predicate tried"] have t: "pick_keeps h now s t" by simp
    with keeps [OF t] Some rt show ?thesis
      by (cases r) (simp_all add: pick_mixed_general_def case_prod_beta Let_def)
  qed
qed

lemma general_served:
  assumes "sched_sound h now s" and "fst (pick_mixed_general h now ps model tried s) = Inr (a, p)"
  obtains best where "best_ready_priority (tried_predicate tried) (shards_of h now ps model s) = Some best"
    and "from_shards (shards_of h now ps model s) best (tried_predicate tried) a p"
proof -
  note e = ensured_spec [where ps = ps and model = model, OF assms(1)]
  from assms(2) obtain best where top: "best_ready_priority (tried_predicate tried) (shards_of h now ps model s) = Some best"
    by (auto simp: pick_mixed_general_def case_prod_beta Let_def mixed_failure_Inl split: option.splits)
  obtain r t where rt: "pick_mixed_ready ps model best (tried_predicate tried) (shards_of h now ps model s) (ensured h now ps model s) = (r, t)"
    by fastforce
  with assms(2) top have "r = Some (a, p)"
    by (cases r) (auto simp: pick_mixed_general_def case_prod_beta Let_def mixed_failure_Inl)
  with rt pick_mixed_ready_spec(2) [OF e(2,1) assms(1), where ns = ps and model = model and best = best and pred = "tried_predicate tried"] top that
  show ?thesis by simp
qed

lemma candidate_shard:
  assumes "sched_sound h now s" and "p \<in> set ps" and "candidate s p (shard_key model) b"
  obtains m where "(p, Some m) \<in> set (shards_of h now ps model s)" and "candidate s p (sh_key m) b"
proof -
  note e = ensured_spec [where ps = ps and model = model, OF assms(1)]
  from assms(2) have "p \<in> fst ` set (shards_of h now ps model s)" using e(3) by (metis list.set_map)
  then obtain mo where mo: "(p, mo) \<in> set (shards_of h now ps model s)" by force
  have "map_of (as_providers s) p \<noteq> None" using assms(3) by (auto simp: candidate_def)
  with e(2) mo obtain m where "mo = Some m" by (cases mo) (auto simp: shards_fit_def)
  with mo that e(2) assms(3) show ?thesis by (auto simp: shards_fit_def)
qed

lemma general_best:
  assumes sound: "sched_sound h now s" and hk: "kiro_until_reset h"
    and picked: "fst (pick_mixed_general h now ps model tried s) = Inr (a, p)"
  shows "p \<in> set ps \<and> candidate s p (shard_key model) a \<and> au_id a \<notin> set tried \<and> free h (shard_key model) now a"
    and "q \<in> set ps \<Longrightarrow> candidate s q (shard_key model) b \<Longrightarrow> au_id b \<notin> set tried \<Longrightarrow>
           auth_priority b > auth_priority a \<Longrightarrow> held_back h (shard_key model) now b"
proof -
  let ?pred = "tried_predicate tried" and ?shards = "shards_of h now ps model s"
  note e = ensured_spec [where ps = ps and model = model, OF sound]
  from general_served [OF sound picked] obtain best where top: "best_ready_priority ?pred ?shards = Some best"
    and "from_shards ?shards best ?pred a p" .
  then obtain m i x where m: "(p, Some m) \<in> set ?shards" and x: "map_of (sh_entries m) i = Some x" "a = sa_auth x"
    and ready: "ready_at best x" and i: "?pred i" by (auto simp: from_shards_def)
  note f = shards_fitD [OF e(2) m]
  have "p \<in> set (map fst ?shards)" using m by force
  then have "p \<in> set ps" by (simp add: e(3))
  moreover have "candidate s p (shard_key model) a" "au_id a \<notin> set tried"
    using entry_candidate [OF f(1) x(1)] f(2) x(2) i by (simp_all add: tried_predicate_def)
  moreover have "free h (shard_key model) now a"
    using ready_free [OF hk fits_ok(2) [OF f(1)] f(3) x(1)] ready f(2) x(2) by (simp add: ready_at_def)
  ultimately show "p \<in> set ps \<and> candidate s p (shard_key model) a \<and> au_id a \<notin> set tried \<and> free h (shard_key model) now a"
    by blast
  have best: "auth_priority a = best"
    using entry_priority(1) [OF f(1) x(1) sound] ready x(2) by (simp add: ready_at_def)
  assume q: "q \<in> set ps" and c: "candidate s q (shard_key model) b" and "au_id b \<notin> set tried"
    and above: "auth_priority b > auth_priority a"
  then have b: "?pred (au_id b)" by (simp add: tried_predicate_def)
  obtain n where n: "(q, Some n) \<in> set ?shards" and cn: "candidate s q (sh_key n) b" using candidate_shard [OF sound q c] .
  note fn = shards_fitD [OF e(2) n]
  have le: "highest_ready_priority False ?pred n = Some r \<Longrightarrow> r \<le> best" for r
    using best_ready_spec [where pred = ?pred and shards = ?shards] top n by auto
  show "held_back h (shard_key model) now b"
  proof (cases "highest_ready_priority False ?pred n")
    case None
    from none_ready_held_back [where pred = ?pred, OF fn(1) e(4) [OF hk n] None cn b] fn(2) show ?thesis by simp
  next
    case (Some r)
    with le [of r] above best have "auth_priority b > r" by simp
    with above_held_back [where pred = ?pred and q = r, OF sound fn(1) e(4) [OF hk n] _ cn b] Some fn(2) show ?thesis by simp
  qed
qed

lemma general_unserved:
  assumes sound: "sched_sound h now s" and hk: "kiro_until_reset h"
    and none: "fst (pick_mixed_general h now ps model tried s) = Inl err"
    and strategy: "as_strategy s \<noteq> StrategyWeightedRoundRobin"
    and q: "q \<in> set ps" and c: "candidate s q (shard_key model) b" and tried: "au_id b \<notin> set tried"
  shows "held_back h (shard_key model) now b"
proof -
  let ?pred = "tried_predicate tried" and ?shards = "shards_of h now ps model s" and ?t = "ensured h now ps model s"
  note e = ensured_spec [where ps = ps and model = model, OF sound]
  have b: "?pred (au_id b)" using tried by (simp add: tried_predicate_def)
  have "best_ready_priority ?pred ?shards = None"
  proof (cases "best_ready_priority ?pred ?shards")
    case (Some best)
    with best_ready_spec [where pred = ?pred and shards = ?shards] obtain p m where m: "(p, Some m) \<in> set ?shards"
      and best: "highest_ready_priority False ?pred m = Some best" by auto
    have "as_strategy ?t \<noteq> StrategyWeightedRoundRobin"
      using strategy e(1) by (simp add: pick_keeps_def same_auths_def)
    from pick_mixed_ready_total [where ns = ps and model = model, OF e(2) m highest_has_ready [OF fits_ok(1) [OF shards_fitD(1) [OF e(2) m]] best] this]
    obtain r t where "pick_mixed_ready ps model best ?pred ?shards ?t = (Some r, t)"
      by (cases "pick_mixed_ready ps model best ?pred ?shards ?t") fastforce
    with Some none show ?thesis by (simp add: pick_mixed_general_def case_prod_beta Let_def)
  qed simp
  obtain n where n: "(q, Some n) \<in> set ?shards" and cn: "candidate s q (sh_key n) b" using candidate_shard [OF sound q c] .
  note fn = shards_fitD [OF e(2) n]
  have "highest_ready_priority False ?pred n = None"
    using best_ready_spec [where pred = ?pred and shards = ?shards] \<open>best_ready_priority ?pred ?shards = None\<close> n by auto
  from none_ready_held_back [where pred = ?pred, OF fn(1) e(4) [OF hk n] this cn b] fn(2) show ?thesis by simp
qed

lemma pick_mixed_keeps:
  assumes "sched_sound h now s"
  shows "pick_keeps h now s (snd (pick_mixed h now providers model opts s))"
proof -
  have refl: "pick_keeps h now s s" using assms by (simp add: pick_keeps_def)
  let ?ps = "normalize_provider_keys providers"
  consider "?ps = []" | "?ps \<noteq> []" "length ?ps = 1" | "?ps \<noteq> []" "length ?ps \<noteq> 1" "po_pinned opts \<noteq> []"
    | "?ps \<noteq> []" "length ?ps \<noteq> 1" "po_pinned opts = []" by blast
  then show ?thesis
  proof cases
    case 2
    with pick_single_spec(1) [OF assms, of "hd ?ps" model opts] show ?thesis
      by (cases "pick_single h now (hd ?ps) model opts s"; cases "fst (pick_single h now (hd ?ps) model opts s)")
        (auto simp: pick_mixed_def Let_def)
  next
    case 3
    with pick_mixed_pinned_keeps [OF assms] show ?thesis by (simp add: pick_mixed_def Let_def)
  next
    case 4
    with pick_mixed_general_keeps [OF assms] show ?thesis by (simp add: pick_mixed_def Let_def)
  qed (simp add: pick_mixed_def refl)
qed

end
