(* ===== verification/Scheduler_Runs.thy ===== *)
theory Scheduler_Runs
  imports Scheduler_Mixed Transition_Systems
begin

text \<open>
  Runs of the scheduler: its operations in any order, at instants that do not go back, keep \<open>sched_sound\<close>
  (\<open>invariant_system\<close> is interpreted on them). From it what the scheduler promises to the manager.
\<close>

section \<open>Runs\<close>

datatype scheduler_op =
    SO_Upsert model_registry snapshot
  | SO_Rebuild model_registry "snapshot list"
  | SO_Remove string
  | SO_Tombstone string "64 word"
  | SO_Reset string
  | SO_Selector selector_kind
  | SO_PickSingle string string pick_options
  | SO_PickMixed "string list" string pick_options

fun apply_scheduler_op :: "block_hooks \<Rightarrow> instant \<Rightarrow> scheduler_op \<Rightarrow> auth_scheduler \<Rightarrow> auth_scheduler" where
  "apply_scheduler_op h now (SO_Upsert r sn) s = upsert_auth h r now sn s"
| "apply_scheduler_op h now (SO_Rebuild r sns) s = rebuild_scheduler h r now sns s"
| "apply_scheduler_op h now (SO_Remove i) s = remove_auth now i s"
| "apply_scheduler_op h now (SO_Tombstone i e) s = record_removal_tombstone now i e s"
| "apply_scheduler_op h now (SO_Reset i) s = reset_auth_generation i s"
| "apply_scheduler_op h now (SO_Selector sel) s = set_selector sel s"
| "apply_scheduler_op h now (SO_PickSingle p model opts) s = snd (pick_single h now p model opts s)"
| "apply_scheduler_op h now (SO_PickMixed ps model opts) s = snd (pick_mixed h now ps model opts s)"

text \<open>The snapshots that an operation brings; their identifiers are trimmed.\<close>

fun snapshots_of :: "scheduler_op \<Rightarrow> snapshot list" where
  "snapshots_of (SO_Upsert r sn) = [sn]"
| "snapshots_of (SO_Rebuild r sns) = sns"
| "snapshots_of _ = []"

definition trimmed :: "snapshot \<Rightarrow> bool" where
  "trimmed sn \<longleftrightarrow> trim_space (au_id (sn_auth sn)) = au_id (sn_auth sn)"

text \<open>A state is the scheduler with the instant of its last operation; the clock does not run backwards.\<close>

inductive scheduler_step :: "block_hooks \<Rightarrow> auth_scheduler \<times> instant \<Rightarrow> instant \<times> scheduler_op \<Rightarrow> auth_scheduler \<times> instant \<Rightarrow> bool"
  for h where
  "T \<le> now \<Longrightarrow> list_all trimmed (snapshots_of op) \<Longrightarrow>
     scheduler_step h (s, T) (now, op) (apply_scheduler_op h now op s, now)"

inductive_cases scheduler_stepE: "scheduler_step h (s, T) (now, op) (s', T')"

lemma apply_op_sound:
  assumes "sched_sound h now s" and "list_all trimmed (snapshots_of op)"
  shows "sched_sound h now (apply_scheduler_op h now op s)"
  using assms pick_single_spec(1) [OF assms(1)] pick_mixed_keeps [OF assms(1)]
  by (cases op)
    (auto simp: trimmed_def list_all_iff pick_keeps_def upsert_auth_sound rebuild_sound_all remove_auth_sound
      tombstone_sound reset_sound set_selector_sound)

lemma step_sound: "sched_sound h (snd st) (fst st) \<Longrightarrow> scheduler_step h st l st' \<Longrightarrow> sched_sound h (snd st') (fst st')"
  by (erule scheduler_step.cases) (auto intro: apply_op_sound sched_sound_mono)

interpretation sched: invariant_system "scheduler_step h" "\<lambda>st. sched_sound h (snd st) (fst st)" for h
  by unfold_locales (rule step_sound)

definition scheduler_reachable :: "block_hooks \<Rightarrow> auth_scheduler \<Rightarrow> instant \<Rightarrow> bool" where
  "scheduler_reachable h s T \<longleftrightarrow> (\<exists>sel T0 ls. run_of (scheduler_step h) (new_auth_scheduler sel, T0) ls (s, T))"

lemma reachable_sound: "scheduler_reachable h s T \<Longrightarrow> T \<le> now \<Longrightarrow> sched_sound h now s"
  unfolding scheduler_reachable_def
  using sched.inv_run new_scheduler_sound by (fastforce intro: sched_sound_mono)

lemma reachable_new: "scheduler_reachable h (new_auth_scheduler sel) T"
  unfolding scheduler_reachable_def by (intro exI) (rule run_Nil)

lemma reachable_op:
  assumes "scheduler_reachable h s T" and "T \<le> now" and "list_all trimmed (snapshots_of op)"
  shows "scheduler_reachable h (apply_scheduler_op h now op s) now"
proof -
  from assms(1) obtain sel T0 ls where "run_of (scheduler_step h) (new_auth_scheduler sel, T0) ls (s, T)"
    by (auto simp: scheduler_reachable_def)
  from run_snoc [OF this scheduler_step.intros [OF assms(2,3)]] show ?thesis
    unfolding scheduler_reachable_def by (intro exI)
qed

section \<open>A removed credential stays away\<close>

text \<open>An operation that cannot bring the credential back: no reset, no removal that restarts its epoch, and only
  snapshots from before the removal.\<close>

fun quiet_for :: "string \<Rightarrow> 64 word \<Rightarrow> scheduler_op \<Rightarrow> bool" where
  "quiet_for i e (SO_Reset j) \<longleftrightarrow> trim_space j \<noteq> i"
| "quiet_for i e (SO_Remove j) \<longleftrightarrow> trim_space j \<noteq> i"
| "quiet_for i e op \<longleftrightarrow> list_all (\<lambda>sn. au_id (sn_auth sn) = i \<longrightarrow> sn_epoch sn < e) (snapshots_of op)"

definition tombstoned :: "string \<Rightarrow> 64 word \<Rightarrow> auth_scheduler \<Rightarrow> bool" where
  "tombstoned i e s \<longleftrightarrow> (\<exists>g. map_of (as_generations s) i = Some g \<and> e \<le> gm_epoch g) \<and> (\<forall>p. \<not> holds_auth s i p)"

lemma tombstoned_rejects:
  "tombstoned i e s \<Longrightarrow> au_id (sn_auth sn) = i \<Longrightarrow> sn_epoch sn < e \<Longrightarrow> \<not> accepts s sn"
  by (auto simp: tombstoned_def accepts_def is_stale_scheduled_auth_def)

lemma tombstoned_upsert:
  assumes "sched_sound h now s" and "trimmed sn" and "tombstoned i e s" and "au_id (sn_auth sn) = i \<longrightarrow> sn_epoch sn < e"
  shows "tombstoned i e (upsert_auth h r now sn s)"
proof (cases "accepts s sn")
  case True
  with tombstoned_rejects [OF assms(3)] assms(4) have "au_id (sn_auth sn) \<noteq> i" by blast
  with assms upsert_auth_spec [of h now s sn r] upsert_auth_fields(1) [of sn h r now s] True show ?thesis
    by (auto simp: tombstoned_def trimmed_def map_of_update)
next
  case False
  with assms show ?thesis by (simp add: upsert_auth_rejected trimmed_def)
qed

lemma tombstoned_cong: "same_auths s t \<Longrightarrow> tombstoned i e s \<Longrightarrow> tombstoned i e t"
  using same_auths_holds [of s t] by (simp add: tombstoned_def) (simp add: same_auths_def)

lemma tombstoned_removed:
  assumes "sched_sound h now s" and "tombstoned i e s" and "j \<noteq> i \<or> e \<le> e'"
  shows "tombstoned i e (remove_auth_from_providers j (record_generation j e' g t s))"
proof -
  let ?s = "record_generation j e' g t s"
  have s: "sched_sound h now ?s" using assms(1) by (simp add: sched_sound_cong [of ?s s])
  have "holds_auth ?s i p = holds_auth s i p" for p by (simp add: holds_auth_def)
  with remove_from_providers_sound(2) [OF s, of j i] assms(2,3) show ?thesis
    by (auto simp: tombstoned_def record_generation_def map_of_update)
qed

lemma tombstoned_op:
  assumes "sched_sound h now s" and "list_all trimmed (snapshots_of op)" and "tombstoned i e s" and "quiet_for i e op"
  shows "tombstoned i e (apply_scheduler_op h now op s)"
proof (cases op)
  case (SO_Upsert r sn)
  with assms show ?thesis by (simp add: tombstoned_upsert)
next
  case (SO_Rebuild r sns)
  let ?s = "s\<lparr>as_providers := [], as_auth_providers := [], as_cursors := []\<rparr>"
  have "sched_sound h now ?s" by (simp add: sched_sound_def providers_sound_def holds_auth_def)
  moreover have "tombstoned i e ?s" using assms(3) by (simp add: tombstoned_def holds_auth_def)
  moreover have "list_all trimmed sns" "list_all (\<lambda>sn. au_id (sn_auth sn) = i \<longrightarrow> sn_epoch sn < e) sns"
    using assms(2,4) SO_Rebuild by simp_all
  ultimately have "sched_sound h now (foldl (\<lambda>s sn. upsert_auth h r now sn s) ?s sns) \<and>
      tombstoned i e (foldl (\<lambda>s sn. upsert_auth h r now sn s) ?s sns)"
    by (induction sns rule: rev_induct) (auto simp: tombstoned_upsert upsert_auth_sound trimmed_def)
  with SO_Rebuild show ?thesis by (simp add: rebuild_scheduler_def)
next
  case (SO_Remove j)
  with assms show ?thesis
    by (auto simp: remove_auth_def remove_auth_locked_def Let_def intro: tombstoned_removed)
next
  case (SO_Tombstone j e')
  have "e \<le> e'" if "trim_space j = i" "\<not> (case map_of (as_generations s) i of None \<Rightarrow> False | Some g \<Rightarrow> e' < gm_epoch g)"
    using that assms(3) by (auto simp: tombstoned_def)
  with SO_Tombstone assms show ?thesis
    by (auto simp: record_removal_tombstone_def Let_def intro: tombstoned_removed)
next
  case (SO_Reset j)
  with assms(3,4) show ?thesis
    by (auto simp: reset_auth_generation_def Let_def tombstoned_def map_of_delete holds_auth_def)
next
  case (SO_Selector sel)
  with assms(3) show ?thesis by (simp add: set_selector_def tombstoned_def holds_auth_def)
next
  case (SO_PickSingle p model opts)
  with pick_single_spec(1) [OF assms(1), of p model opts] assms(3) show ?thesis
    by (auto simp: pick_keeps_def intro: tombstoned_cong)
next
  case (SO_PickMixed ps model opts)
  with pick_mixed_keeps [OF assms(1), of ps model opts] assms(3) show ?thesis
    by (auto simp: pick_keeps_def intro: tombstoned_cong)
qed

lemma tombstoned_run:
  assumes "run_of (scheduler_step h) st ls st'" and "sched_sound h (snd st) (fst st)" and "tombstoned i e (fst st)"
    and "\<forall>l \<in> set ls. quiet_for i e (snd l)"
  shows "tombstoned i e (fst st')"
  using assms
proof (induction rule: run_of.induct)
  case (run_snoc s ls t l u)
  obtain now op where l: "l = (now, op)" by (cases l)
  have "tombstoned i e (fst t)" and "quiet_for i e op" using run_snoc l by simp_all
  moreover have "sched_sound h (snd t) (fst t)" using sched.inv_run [OF run_snoc.hyps(1) run_snoc.prems(1)] .
  ultimately show ?case
    using run_snoc.hyps(2) unfolding l by (auto elim!: scheduler_step.cases intro: tombstoned_op [OF sched_sound_mono])
qed simp

lemma remove_auth_tombstones:
  assumes "sched_sound h now s" and "trim_space i = i" and "i \<noteq> []"
    and "map_of (as_generations s) i = Some g"
  shows "tombstoned i (gm_epoch g + 1) (remove_auth t i s)"
proof -
  let ?s = "record_generation i (gm_epoch g + 1) 0 t s"
  have s: "sched_sound h now ?s" using assms(1) by (simp add: sched_sound_cong [of ?s s])
  have "remove_auth t i s = remove_auth_from_providers i ?s"
    using assms by (simp add: remove_auth_def remove_auth_locked_def Let_def)
  with remove_from_providers_sound(2) [OF s, of i i] assms(3) show ?thesis
    by (auto simp: tombstoned_def record_generation_def map_of_update)
qed

section \<open>What the scheduler promises\<close>

text \<open>C1: In every reachable scheduler, the indexes of every shard are exactly those that its entries determine:
  the priorities in descending order, for each priority the ready identifiers in order, with the
  websocket ones of them, and the queue of the blocked by deadline; the entries are the provider's
  credentials that offer the model; and the map from credentials to providers names the provider that
  holds each.\<close>

theorem scheduler_indexes_exact:
  assumes "scheduler_reachable h s T" and "map_of (as_providers s) p = Some ps" and "map_of (ps_shards ps) key = Some m"
  shows "sorted_wrt (>) (sh_order m) \<and> set (sh_order m) = ready_priorities (sh_entries m) \<and>
    (\<forall>q. bucket_exact (sh_entries m) q (ready_bucket_at m q)) \<and> sh_blocked m = waiting_ids (sh_entries m) \<and>
    (\<forall>i. shard_metas m i = offering (ps_auths ps) key i) \<and>
    (\<forall>i. map_of (ps_auths ps) i \<noteq> None \<longleftrightarrow> map_of (as_auth_providers s) i = Some p)"
proof -
  have sound: "sched_sound h T s" using reachable_sound [OF assms(1)] by simp
  then have "shard_fits h T (ps_auths ps) key m"
    using assms(2,3) by (simp add: sched_sound_def providers_sound_def provider_sound_def)
  moreover have "map_of (ps_auths ps) i \<noteq> None \<longleftrightarrow> map_of (as_auth_providers s) i = Some p" for i
  proof -
    have "holds_auth s i p \<longleftrightarrow> map_of (as_auth_providers s) i = Some p" using sound by (simp add: sched_sound_def)
    then show ?thesis using assms(2) by (simp add: holds_auth_def)
  qed
  ultimately show ?thesis
    by (simp add: shard_fits_def shard_sound_def shard_ok_def indexes_exact_def)
qed

text \<open>C6: A pick of one provider returns a credential that this provider holds, that offers the model, that the
  request allows (pinned, not tried before) and that is not blocked at this instant, although the scheduler
  reconsiders only what is due; and when websockets are not asked for, every allowed candidate of a
  higher priority is held back.\<close>

theorem pick_single_free_and_best:
  assumes "scheduler_reachable h s T" and "T \<le> now" and "kiro_until_reset h"
    and "fst (pick_single h now provider model opts s) = Inr a"
  shows "candidate s (canonical_scheduling_provider provider) (shard_key model) a \<and> single_predicate opts (au_id a) \<and>
    \<not> fst (is_auth_blocked_for_model h a (shard_key model) now) \<and>
    (\<forall>b. \<not> po_websocket opts \<and> candidate s (canonical_scheduling_provider provider) (shard_key model) b \<and>
         single_predicate opts (au_id b) \<and> auth_priority b > auth_priority a \<longrightarrow> held_back h (shard_key model) now b)"
  using pick_single_spec(2) [OF reachable_sound [OF assms(1,2)] assms(3,4)]
    pick_single_held_back(2) [OF reachable_sound [OF assms(1,2)] assms(3) _ _ assms(4)] by blast


text \<open>C7: A pick over several providers, with nothing pinned, returns a credential that is free and allowed together
  with the provider that holds it, one of those asked for; every allowed candidate of a higher priority, of
  whatever provider, is held back; and it fails only when all allowed candidates are.\<close>

theorem pick_mixed_best:
  assumes "scheduler_reachable h s T" and "T \<le> now" and "kiro_until_reset h"
    and "1 < length (normalize_provider_keys providers)" and "po_pinned opts = []"
    and "pick_mixed h now providers model opts s = (res, s')"
  shows "case res of
      Inr (a, p) \<Rightarrow> p \<in> set (normalize_provider_keys providers) \<and> candidate s p (shard_key model) a \<and>
        au_id a \<notin> set (po_tried opts) \<and> \<not> fst (is_auth_blocked_for_model h a (shard_key model) now) \<and>
        (\<forall>q b. q \<in> set (normalize_provider_keys providers) \<and> candidate s q (shard_key model) b \<and>
           au_id b \<notin> set (po_tried opts) \<and> auth_priority b > auth_priority a \<longrightarrow> held_back h (shard_key model) now b)
    | Inl e \<Rightarrow> \<forall>q b. as_strategy s \<noteq> StrategyWeightedRoundRobin \<and> q \<in> set (normalize_provider_keys providers) \<and>
        candidate s q (shard_key model) b \<and> au_id b \<notin> set (po_tried opts) \<longrightarrow> held_back h (shard_key model) now b"
proof -
  let ?ps = "normalize_provider_keys providers"
  note sound = reachable_sound [OF assms(1,2)]
  have "?ps \<noteq> []" using assms(4) by auto
  then have "pick_mixed_general h now ?ps model (po_tried opts) s = (res, s')"
    using assms(4-6) by (simp add: pick_mixed_def Let_def)
  then have res: "fst (pick_mixed_general h now ?ps model (po_tried opts) s) = res" by simp
  show ?thesis
  proof (cases res)
    case (Inl e)
    with general_unserved [OF sound assms(3) res [unfolded Inl]] show ?thesis by auto
  next
    case (Inr r)
    obtain a p where "r = (a, p)" by (cases r)
    with Inr general_best [OF sound assms(3), of ?ps model "po_tried opts" a p] res show ?thesis by auto
  qed
qed

text \<open>C17: Once a credential is removed, no update from before the removal brings it back, whatever happens in
  between: until its generation is reset or it is removed once more, no provider holds it and no pick
  returns it.\<close>

theorem removed_credential_stays_away:
  assumes "scheduler_reachable h s T" and "T \<le> t" and "trim_space i = i" and "i \<noteq> []"
    and "map_of (as_generations s) i = Some g"
    and "run_of (scheduler_step h) (remove_auth t i s, t) ls (s', T')"
    and "list_all (\<lambda>l. quiet_for i (gm_epoch g + 1) (snd l)) ls" and "T' \<le> now" and "kiro_until_reset h"
  shows "\<not> holds_auth s' i p \<and> (fst (pick_single h now provider model opts s') = Inr a \<longrightarrow> au_id a \<noteq> i)"
proof -
  note s = reachable_sound [OF assms(1,2)]
  have s1: "sched_sound h t (remove_auth t i s)" using remove_auth_sound [OF s] .
  have "tombstoned i (gm_epoch g + 1) s'"
    using tombstoned_run [OF assms(6)] s1 remove_auth_tombstones [OF s assms(3-5)] assms(7) by (simp add: list_all_iff)
  then have away: "\<not> holds_auth s' i q" for q by (simp add: tombstoned_def)
  have "sched_sound h T' s'" using sched.inv_run [OF assms(6)] s1 by simp
  then have s': "sched_sound h now s'" using assms(8) by (rule sched_sound_mono)
  have "au_id a \<noteq> i" if "fst (pick_single h now provider model opts s') = Inr a"
    using pick_single_spec(2) [OF s' assms(9) that] away by (auto simp: candidate_def holds_auth_def)
  with away show ?thesis by blast
qed


section \<open>Witnesses\<close>

definition demo_snapshot :: "string \<Rightarrow> string \<Rightarrow> instant \<Rightarrow> snapshot" where
  "demo_snapshot i p retry =
     \<lparr>sn_auth = (demo_free i)\<lparr>au_provider := p, au_unavailable := retry > 0, au_next_retry := retry\<rparr>,
      sn_epoch = 1, sn_generation = 0\<rparr>"

definition no_options :: pick_options where
  "no_options = \<lparr>po_pinned = [], po_tried = [], po_websocket = False\<rparr>"

text \<open>Two credentials of one provider, of which \<open>b\<close> is blocked until 9, and one of another.\<close>

definition demo_scheduler :: auth_scheduler where
  "demo_scheduler = apply_scheduler_op demo_hooks 6 (SO_PickSingle ''p'' [] no_options)
     (apply_scheduler_op demo_hooks 5 (SO_Rebuild new_model_registry
        [demo_snapshot ''a'' ''p'' 0, demo_snapshot ''b'' ''p'' 9, demo_snapshot ''c'' ''q'' 0])
        (new_auth_scheduler FillFirstSelector))"

lemma demo_reachable: "scheduler_reachable demo_hooks demo_scheduler 6"
proof -
  have "list_all trimmed [demo_snapshot ''a'' ''p'' 0, demo_snapshot ''b'' ''p'' 9, demo_snapshot ''c'' ''q'' 0]" by code_simp
  then have "scheduler_reachable demo_hooks (apply_scheduler_op demo_hooks 5 (SO_Rebuild new_model_registry
        [demo_snapshot ''a'' ''p'' 0, demo_snapshot ''b'' ''p'' 9, demo_snapshot ''c'' ''q'' 0])
        (new_auth_scheduler FillFirstSelector)) 5"
    by (intro reachable_op [OF reachable_new, of 5 5]) simp_all
  from reachable_op [OF this, of 6 "SO_PickSingle ''p'' [] no_options"] show ?thesis by (simp add: demo_scheduler_def)
qed

lemma demo_kiro: "kiro_until_reset demo_hooks"
  unfolding kiro_until_reset_def demo_hooks_def by (auto intro: exI [of _ False] simp: zero_time_def)

lemma candidate_code:
  "candidate s p key a \<longleftrightarrow>
     (case map_of (as_providers s) p of None \<Rightarrow> False
      | Some ps \<Rightarrow> (case map_of (ps_auths ps) (au_id a) of None \<Rightarrow> False
         | Some meta \<Rightarrow> sm_auth meta = a \<and> supports_model meta key))"
  by (auto simp: candidate_def split: option.splits)

definition picked_id :: "(scheduler_error + auth) \<times> auth_scheduler \<Rightarrow> string" where
  "picked_id r = (case fst r of Inr a \<Rightarrow> au_id a | Inl e \<Rightarrow> [])"

lemma picked_id_Inr: "picked_id r = i \<Longrightarrow> i \<noteq> [] \<Longrightarrow> \<exists>a. fst r = Inr a \<and> au_id a = i"
  by (auto simp: picked_id_def split: sum.splits)

theorem scheduler_indexes_exact_witness:
  "\<exists>ps m. map_of (as_providers demo_scheduler) ''p'' = Some ps \<and> map_of (ps_shards ps) [] = Some m \<and>
     sh_order m = [0] \<and> sh_blocked m = [''b''] \<and> sh_blocked m = waiting_ids (sh_entries m)"
proof -
  define ps where "ps = the (map_of (as_providers demo_scheduler) ''p'')"
  define m where "m = the (map_of (ps_shards ps) [])"
  have "map_of (as_providers demo_scheduler) ''p'' \<noteq> None \<and> map_of (ps_shards ps) [] \<noteq> None \<and> sh_order m = [0] \<and> sh_blocked m = [''b'']"
    unfolding m_def ps_def by code_simp
  then have *: "map_of (as_providers demo_scheduler) ''p'' = Some ps" "map_of (ps_shards ps) [] = Some m" "sh_order m = [0]" "sh_blocked m = [''b'']"
    by (auto simp: ps_def m_def)
  with scheduler_indexes_exact [OF demo_reachable *(1,2)] show ?thesis by blast
qed

theorem pick_single_free_and_best_witness:
  "\<exists>a. fst (pick_single demo_hooks 7 ''p'' [] no_options demo_scheduler) = Inr a \<and> au_id a = ''a'' \<and>
     \<not> fst (is_auth_blocked_for_model demo_hooks a (shard_key []) 7)"
proof -
  have "picked_id (pick_single demo_hooks 7 ''p'' [] no_options demo_scheduler) = ''a''" by code_simp
  from picked_id_Inr [OF this] obtain a where
    a: "fst (pick_single demo_hooks 7 ''p'' [] no_options demo_scheduler) = Inr a" "au_id a = ''a''" by auto
  with pick_single_free_and_best [OF demo_reachable _ demo_kiro a(1)] show ?thesis by auto
qed


theorem pick_mixed_best_witness:
  "\<exists>a. fst (pick_mixed demo_hooks 7 [''p'', ''q''] [] (no_options\<lparr>po_tried := [''a'']\<rparr>) demo_scheduler) = Inr (a, ''q'') \<and>
     \<not> fst (is_auth_blocked_for_model demo_hooks a (shard_key []) 7)"
proof -
  let ?o = "no_options\<lparr>po_tried := [''a'']\<rparr>"
  let ?r = "pick_mixed demo_hooks 7 [''p'', ''q''] [] ?o demo_scheduler"
  have "(case fst ?r of Inr (a, p) \<Rightarrow> p = ''q'' | Inl e \<Rightarrow> False) \<and> 1 < length (normalize_provider_keys [''p'', ''q'']) \<and> po_pinned ?o = []"
    by code_simp
  then obtain a where a: "fst ?r = Inr (a, ''q'')" and n: "1 < length (normalize_provider_keys [''p'', ''q''])" "po_pinned ?o = []"
    by (auto split: sum.splits)
  have "?r = (Inr (a, ''q''), snd ?r)" using a by (metis prod.collapse)
  from pick_mixed_best [OF demo_reachable _ demo_kiro n this] a show ?thesis by auto
qed

theorem removed_credential_stays_away_witness:
  "\<not> holds_auth (apply_scheduler_op demo_hooks 9 (SO_Upsert new_model_registry (demo_snapshot ''a'' ''p'' 0))
     (remove_auth 8 ''a'' demo_scheduler)) ''a'' ''p''"
proof -
  let ?op = "SO_Upsert new_model_registry (demo_snapshot ''a'' ''p'' 0)"
  have g: "map_of (as_generations demo_scheduler) ''a'' = Some \<lparr>gm_epoch = 1, gm_generation = 0, gm_updated_at = au_updated_at (sn_auth (demo_snapshot ''a'' ''p'' 0))\<rparr>"
    by code_simp
  have trimmed: "list_all trimmed (snapshots_of ?op)" and trim: "trim_space ''a'' = ''a''" by code_simp+
  have "scheduler_step demo_hooks (remove_auth 8 ''a'' demo_scheduler, 8) (9, ?op)
      (apply_scheduler_op demo_hooks 9 ?op (remove_auth 8 ''a'' demo_scheduler), 9)"
    by (rule scheduler_step.intros [OF _ trimmed]) simp
  then have run: "run_of (scheduler_step demo_hooks) (remove_auth 8 ''a'' demo_scheduler, 8) [(9, ?op)]
      (apply_scheduler_op demo_hooks 9 ?op (remove_auth 8 ''a'' demo_scheduler), 9)"
    by (simp add: run_Cons_iff)
  show ?thesis
    using removed_credential_stays_away [OF demo_reachable _ trim _ g run, where now = 9 and p = "''p''"] demo_kiro
    by (simp add: demo_snapshot_def)
qed

text \<open>The failure of \<open>credential_quota_blocks_picks_witness\<close>, reported to the scheduler beside a free credential.\<close>

definition demo_quota_failure :: exec_result where
  "demo_quota_failure = demo_failure\<lparr>rs_credential_scope := True, rs_retry_after := Some 3\<rparr>"

definition demo_failed :: snapshot where
  "demo_failed = \<lparr>sn_auth = snd (mark_failure demo_policy demo_quota_failure demo_auth), sn_epoch = 2, sn_generation = 0\<rparr>"


end
