(* ===== verification/Registry_Invariant.thy ===== *)
theory Registry_Invariant
  imports Model_Registry
begin

text \<open>
  The table of models is what the client tables say. Each step of a registration edits the entry of one
  model, so an operation is analysed entry by entry (\<open>acts\<close>); the tallies of the other clients are
  carried through the intermediate states (\<open>shape\<close>), and so are the capabilities an entry shows
  (\<open>views\<close>). The invariant \<open>registry_ok\<close> is kept by every operation.
\<close>

section \<open>Operations on the table of models\<close>

declare map_of_delete [simp] map_of_update [simp]

text \<open>\<open>acts r r' f\<close>: only the table of models changed, the entry of \<open>j\<close> by \<open>f j\<close>.\<close>

definition acts ::
  "model_registry \<Rightarrow> model_registry \<Rightarrow> (string \<Rightarrow> model_registration option \<Rightarrow> model_registration option) \<Rightarrow> bool" where
  "acts r r' f \<longleftrightarrow>
     r' = r\<lparr>gr_models := gr_models r'\<rparr>
     \<and> (\<forall>j. map_of (gr_models r') j = f j (map_of (gr_models r) j))
     \<and> (distinct (map fst (gr_models r)) \<longrightarrow> distinct (map fst (gr_models r')))"

definition only_models :: "model_registry \<Rightarrow> model_registry \<Rightarrow> bool" where
  "only_models r r' \<longleftrightarrow> r' = r\<lparr>gr_models := gr_models r'\<rparr>"

lemma only_models_refl [simp]: "only_models r r"
  by (simp add: only_models_def)

lemma acts_only: "acts r r' f \<Longrightarrow> only_models r r'"
  by (simp add: acts_def only_models_def)

lemma only_models_trans: "only_models r r' \<Longrightarrow> only_models r' r'' \<Longrightarrow> only_models r r''"
  unfolding only_models_def by (metis model_registry.update_convs(1) model_registry.surjective model_registry.select_convs(1))

lemma only_models_tables:
  assumes "only_models r r'"
  shows "gr_client_models r' = gr_client_models r" "gr_client_infos r' = gr_client_infos r"
    "gr_client_providers r' = gr_client_providers r" "gr_epochs r' = gr_epochs r"
    "gr_generations r' = gr_generations r" "gr_cache r' = gr_cache r" "gr_generation r' = gr_generation r"
  by (subst assms [unfolded only_models_def], simp)+

lemma acts_refl: "acts r r (\<lambda>_. id)"
  by (simp add: acts_def)

lemma acts_trans: "acts r r' f \<Longrightarrow> acts r' r'' g \<Longrightarrow> acts r r'' (\<lambda>j. g j \<circ> f j)"
  using only_models_trans [of r r' r''] by (auto simp: acts_def only_models_def)

lemma acts_cong: "acts r r' f \<Longrightarrow> (\<And>j. f j = g j) \<Longrightarrow> acts r r' g"
  by (simp add: acts_def)

lemma acts_at_model: "acts r (at_model i f r) (\<lambda>j. if j = i then f else id)"
  by (auto simp: acts_def at_model_def distinct_update distinct_delete split: option.splits)

lemma acts_fold:
  assumes "\<And>x s. only_models r s \<Longrightarrow> acts s (step x s) (f x)"
  shows "acts r (fold step xs r) (\<lambda>j. fold (\<lambda>x. f x j) xs)"
proof -
  have "only_models r s \<Longrightarrow> acts s (fold step xs s) (\<lambda>j. fold (\<lambda>x. f x j) xs)" for s
  proof (induction xs arbitrary: s)
    case (Cons x xs)
    note a = assms [OF Cons.prems, of x]
    from acts_trans [OF a Cons.IH [OF only_models_trans [OF Cons.prems acts_only [OF a]]]]
    show ?case by (simp add: o_def)
  qed (simp add: acts_refl)
  then show ?thesis by simp
qed

lemma acts_funpow:
  assumes "\<And>s. only_models r s \<Longrightarrow> acts s (step s) f"
  shows "acts r ((step ^^ n) r) (\<lambda>j. f j ^^ n)"
proof -
  have "acts r (fold (\<lambda>_. step) (replicate n ()) r) (\<lambda>j. fold (\<lambda>_. f j) (replicate n ()))"
    by (rule acts_fold) (rule assms)
  then show ?thesis by (simp add: fold_replicate)
qed

text \<open>Steps that each touch the entry of their own key.\<close>

lemma fold_at_key:
  assumes "distinct (map key xs)"
  shows "fold (\<lambda>x. if j = key x then f x else id) xs =
           (case find (\<lambda>x. key x = j) xs of None \<Rightarrow> id | Some x \<Rightarrow> f x)"
proof -
  have "j \<notin> key ` set ys \<Longrightarrow> fold (\<lambda>x. if j = key x then f x else id) ys = id" for ys
    by (induction ys) auto
  with assms show ?thesis
    by (induction xs) (auto simp: o_def)
qed

lemma fold_at_count: "fold (\<lambda>i. if j = i then f i else id) is = f j ^^ count_list is j"
  by (induction "is") (auto simp: o_def fun_eq_iff funpow_swap1)

lemma distinct_find_map_of:
  assumes "distinct (map fst xs)"
  shows "find (\<lambda>x. fst x = j) xs = map_option (Pair j) (map_of xs j)"
  using assms by (induction xs) auto

lemma distinct_find: "find (\<lambda>x. x = j) xs = (if j \<in> set xs then Some j else None)"
  by (induction xs) auto

section \<open>The merged capability\<close>

text \<open>What the clients declare for a model, through one provider or any.\<close>

definition declared ::
  "model_registry \<Rightarrow> (string \<Rightarrow> bool) \<Rightarrow> string \<Rightarrow> string \<Rightarrow> bool set" where
  "declared r P i p =
     {w. \<exists>c m. P c \<and> (p \<noteq> [] \<longrightarrow> string_at (gr_client_providers r) c = p)
           \<and> map_of (infos_at r c) i = Some m \<and> web_search_of m = Some w}"

definition strongest :: "bool set \<Rightarrow> bool option" where
  "strongest S = (if True \<in> S then Some True else if False \<in> S then Some False else None)"

lemma strongest_option [simp]: "strongest (set_option w) = w"
  by (cases w) (auto simp: strongest_def)

lemma strongest_empty [simp]: "strongest {} = None"
  by (simp add: strongest_def)

definition client_declares :: "(string \<times> string) list \<Rightarrow> string \<Rightarrow> string \<Rightarrow> string \<Rightarrow> bool \<Rightarrow> string \<times> (string \<times> model_meta) list \<Rightarrow> bool" where
  "client_declares provs i p ex w cl \<longleftrightarrow>
     fst cl \<noteq> ex \<and> (p \<noteq> [] \<longrightarrow> string_at provs (fst cl) = p)
     \<and> (\<exists>m. map_of (snd cl) i = Some m \<and> web_search_of m = Some w)"

lemma merge_clients_eq:
  "merge_clients provs i p ex saw cls =
     strongest ((if saw then {False} else {}) \<union> {w. \<exists>cl \<in> set cls. client_declares provs i p ex w cl})"
proof (induction cls arbitrary: saw)
  case (Cons cl cls)
  obtain c infos where cl: "cl = (c, infos)" by (cases cl)
  show ?case
  proof (cases "\<exists>w. client_declares provs i p ex w cl")
    case False
    then have "merge_clients provs i p ex saw (cl # cls) = merge_clients provs i p ex saw cls"
      by (auto simp: cl client_declares_def split: option.splits)
    with False show ?thesis by (simp add: Cons.IH)
  next
    case True
    then obtain w where w: "client_declares provs i p ex w cl" by blast
    then have "v = w" if "client_declares provs i p ex v cl" for v
      using that by (auto simp: client_declares_def)
    with w have all: "client_declares provs i p ex v cl \<longleftrightarrow> v = w" for v by blast
    have "merge_clients provs i p ex saw (cl # cls) =
        (if w then Some True else merge_clients provs i p ex True cls)"
      using w by (auto simp: cl client_declares_def split: option.splits)
    then show ?thesis
      by (cases w) (simp_all add: Cons.IH all strongest_def)
  qed
qed (simp add: strongest_def)

lemma merged_web_search_eq:
  assumes "distinct (map fst (gr_client_infos r))"
  shows "merged_web_search r i p ex base = strongest (declared r (\<lambda>c. c \<noteq> ex) i p \<union> set_option base)"
proof -
  have "(\<exists>cl \<in> set (gr_client_infos r). client_declares (gr_client_providers r) i p ex w cl)
      \<longleftrightarrow> w \<in> declared r (\<lambda>c. c \<noteq> ex) i p" for w
  proof
    assume "\<exists>cl \<in> set (gr_client_infos r). client_declares (gr_client_providers r) i p ex w cl"
    then obtain c infos where c: "(c, infos) \<in> set (gr_client_infos r)"
        "client_declares (gr_client_providers r) i p ex w (c, infos)"
      by force
    from c(1) assms have "infos_at r c = infos" by (simp add: infos_at_def)
    with c(2) show "w \<in> declared r (\<lambda>c. c \<noteq> ex) i p"
      unfolding declared_def client_declares_def by auto
  next
    assume "w \<in> declared r (\<lambda>c. c \<noteq> ex) i p"
    then obtain c m where c: "c \<noteq> ex" "p \<noteq> [] \<longrightarrow> string_at (gr_client_providers r) c = p"
        "map_of (infos_at r c) i = Some m" "web_search_of m = Some w"
      unfolding declared_def by blast
    from c(3) have "(c, infos_at r c) \<in> set (gr_client_infos r)"
      by (cases "map_of (gr_client_infos r) c") (simp_all add: infos_at_def map_of_SomeD)
    with c show "\<exists>cl \<in> set (gr_client_infos r). client_declares (gr_client_providers r) i p ex w cl"
      unfolding client_declares_def by (intro bexI [of _ "(c, infos_at r c)"]) auto
  qed
  then have D: "{w. \<exists>cl \<in> set (gr_client_infos r). client_declares (gr_client_providers r) i p ex w cl}
      = declared r (\<lambda>c. c \<noteq> ex) i p"
    by blast
  show ?thesis
    by (cases base) (auto simp: merged_web_search_def merge_clients_eq D strongest_def)
qed

section \<open>What each step does to an entry\<close>

text \<open>An entry with \<open>A\<close> registrations, \<open>B p\<close> of them through provider \<open>p\<close>; the capabilities it shows
  satisfy \<open>W\<close>, and \<open>V p\<close> for provider \<open>p\<close>; its maps have distinct keys.\<close>

definition shape :: "nat \<Rightarrow> (string \<Rightarrow> nat) \<Rightarrow> model_registration option \<Rightarrow> bool" where
  "shape A B e =
     (case e of None \<Rightarrow> A = 0
      | Some g \<Rightarrow>
          A > 0 \<and> mr_count g = int A
          \<and> (\<forall>p. map_of (mr_providers g) p = (if B p = 0 then None else Some (int (B p))))
          \<and> (\<forall>p. map_of (mr_info_by_provider g) p = None \<longleftrightarrow> B p = 0))"

definition views :: "(bool option \<Rightarrow> bool) \<Rightarrow> (string \<Rightarrow> bool option \<Rightarrow> bool) \<Rightarrow> model_registration option \<Rightarrow> bool" where
  "views W V e =
     (case e of None \<Rightarrow> True
      | Some g \<Rightarrow>
          W (web_search_of (mr_info g))
          \<and> (\<forall>p m. map_of (mr_info_by_provider g) p = Some m \<longrightarrow> V p (web_search_of m)))"

definition tidy :: "model_registration option \<Rightarrow> bool" where
  "tidy e =
     (case e of None \<Rightarrow> True
      | Some g \<Rightarrow> distinct (map fst (mr_providers g)) \<and> distinct (map fst (mr_info_by_provider g))
               \<and> distinct (map fst (mr_quota g)) \<and> distinct (map fst (mr_suspended g)))"

lemma web_search_of_merged_info [simp]: "web_search_of (merged_info r i p ex base m) = merged_web_search r i p ex base"
  by (simp add: merged_info_def)

lemma shape_None [simp]: "shape A B None \<longleftrightarrow> A = 0"
  by (simp add: shape_def)

lemma views_None [simp]: "views W V None"
  by (simp add: views_def)

lemma tidy_None [simp]: "tidy None"
  by (simp add: tidy_def)

lemma views_mono:
  "views W V e \<Longrightarrow> (\<And>w. W w \<Longrightarrow> W' w) \<Longrightarrow> (\<And>p w. V p w \<Longrightarrow> V' p w) \<Longrightarrow> views W' V' e"
  by (auto simp: views_def split: option.splits)

lemma shape_cong: "shape A B e \<Longrightarrow> (\<And>p. B p = B' p) \<Longrightarrow> A = A' \<Longrightarrow> shape A' B' e"
  by (simp add: shape_def split: option.splits)

lemma clear_marks_simps [simp]:
  "mr_info (clear_marks c g) = mr_info g" "mr_info_by_provider (clear_marks c g) = mr_info_by_provider g"
  "mr_count (clear_marks c g) = mr_count g" "mr_providers (clear_marks c g) = mr_providers g"
  "mr_quota (clear_marks c g) = AList.delete c (mr_quota g)"
  "mr_suspended (clear_marks c g) = AList.delete c (mr_suspended g)"
  by (simp_all add: clear_marks_def)

lemma drop_provider_simps [simp]:
  "mr_info (drop_provider p g) = mr_info g" "mr_count (drop_provider p g) = mr_count g"
  "mr_quota (drop_provider p g) = mr_quota g" "mr_suspended (drop_provider p g) = mr_suspended g"
  by (auto simp: drop_provider_def split: option.splits)

lemma refresh_provider_simps [simp]:
  "mr_info (refresh_provider r i p ex g) = mr_info g" "mr_count (refresh_provider r i p ex g) = mr_count g"
  "mr_quota (refresh_provider r i p ex g) = mr_quota g" "mr_suspended (refresh_provider r i p ex g) = mr_suspended g"
  "mr_providers (refresh_provider r i p ex g) = mr_providers g"
  by (auto simp: refresh_provider_def split: option.splits)

lemma refresh_provider_infos [simp]:
  "map_of (mr_info_by_provider (refresh_provider r i p ex g)) q =
     (if q = p then map_option (merged_info r i p ex None) (map_of (mr_info_by_provider g) p)
      else map_of (mr_info_by_provider g) q)"
  by (auto simp: refresh_provider_def split: option.splits)

lemma tidy_entries [intro]:
  "tidy e \<Longrightarrow> tidy (add_entry r i p m now ex e)"
  "tidy e \<Longrightarrow> tidy (remove_entry r c i p now e)"
  "tidy e \<Longrightarrow> tidy (move_entry r c i old k e)"
  "tidy e \<Longrightarrow> tidy (metadata_entry now x r i m e)"
  "tidy e \<Longrightarrow> tidy (unregister_entry r c i provider now e)"
  "tidy e \<Longrightarrow> tidy (capability_entry r i p e)"
  by (auto simp: tidy_def add_entry_def remove_entry_def move_entry_def metadata_entry_def unregister_entry_def
      capability_entry_def drop_provider_def refresh_provider_def Let_def distinct_update distinct_delete
      split: option.splits)

lemma shape_add:
  assumes "shape A B e" "A = 0 \<longrightarrow> B = (\<lambda>_. 0)"
  shows "shape (Suc A) (if p = [] then B else B(p := Suc (B p))) (add_entry r i p m now ex e)"
proof (cases e)
  case None
  with assms show ?thesis by (auto simp: shape_def add_entry_def)
next
  case (Some g)
  with assms show ?thesis by (auto simp: shape_def add_entry_def num_at_def Let_def)
qed

lemma views_add:
  assumes "views W V e" "e = None \<Longrightarrow> merged_web_search r i [] ex (web_search_of m) = web_search_of m"
    "e = None \<Longrightarrow> p \<noteq> [] \<Longrightarrow> merged_web_search r i p ex (web_search_of m) = web_search_of m"
  shows "views (\<lambda>w. w = merged_web_search r i [] ex (web_search_of m))
           (\<lambda>q w. if p \<noteq> [] \<and> q = p then w = merged_web_search r i p ex (web_search_of m) else V q w)
           (add_entry r i p m now ex e)"
  using assms by (auto simp: views_def add_entry_def Let_def split: option.splits)

lemma shape_remove:
  assumes "shape A B e" "A > 0" "p \<noteq> [] \<longrightarrow> B p > 0"
  shows "shape (A - 1) (if p = [] then B else B(p := B p - 1)) (remove_entry r c i p now e)"
proof (cases e)
  case None
  with assms show ?thesis by simp
next
  case (Some g)
  with assms show ?thesis
    by (auto simp: shape_def remove_entry_def drop_provider_def Let_def nat_diff_distrib split: if_splits)
qed

lemma views_remove:
  assumes "views W V e"
  shows "views (\<lambda>w. w = merged_web_search r i [] c None)
           (\<lambda>q w. if p \<noteq> [] \<and> q = p then w = merged_web_search r i p c None else V q w)
           (remove_entry r c i p now e)"
  using assms
  by (auto simp: views_def remove_entry_def drop_provider_def Let_def split: option.splits if_splits)

lemma unregister_entry_eq:
  assumes "shape A B e" "p \<noteq> None \<longrightarrow> the p \<noteq> []"
  shows "unregister_entry r c i p now e = remove_entry r c i (case p of None \<Rightarrow> [] | Some q \<Rightarrow> q) now e"
  using assms
  by (auto simp: shape_def remove_entry_def unregister_entry_def Let_def split: option.splits)

lemma shape_move:
  assumes "shape A B e" "k \<le> B old" "A > 0"
  shows "shape A (B(old := B old - k)) (move_entry r c i old (int k) e)"
proof (cases e)
  case (Some g)
  with assms show ?thesis
    by (auto simp: shape_def move_entry_def split: option.splits if_splits)
qed (use assms in simp)

lemma views_move:
  assumes "views W V e"
  shows "views W (\<lambda>q w. if q = old then V q w \<or> w = merged_web_search r i old c None else V q w) (move_entry r c i old k e)"
  using assms by (auto simp: views_def move_entry_def split: option.splits)

section \<open>Repeated steps\<close>

definition bump :: "string \<Rightarrow> nat \<Rightarrow> (string \<Rightarrow> nat) \<Rightarrow> string \<Rightarrow> nat" where
  "bump p k B = (\<lambda>q. if q = p \<and> p \<noteq> [] then B q + k else B q)"

lemma bump_0 [simp]: "bump p 0 B = B"
  by (auto simp: bump_def)

lemma bump_bump [simp]: "bump p j (bump p k B) = bump p (j + k) B"
  by (auto simp: bump_def)

lemma bump_zero_fun: "j = 0 \<Longrightarrow> bump p j B = B"
  by (auto simp: bump_def)

lemma shape_remove_n:
  "shape (A + k) (bump p k B) e \<Longrightarrow> shape A B ((remove_entry r c i p now ^^ k) e)"
proof (induction k arbitrary: A B)
  case (Suc k)
  have "shape (Suc A) (bump p 1 B) ((remove_entry r c i p now ^^ k) e)"
    by (rule Suc.IH) (use Suc.prems in \<open>simp add: add.commute\<close>)
  moreover have "(if p = [] then bump p 1 B else (bump p 1 B)(p := bump p 1 B p - 1)) = B"
    by (auto simp: bump_def)
  ultimately show ?case
    using shape_remove [of "Suc A" "bump p 1 B" _ p r c i now] by (simp add: bump_def)
qed simp

lemma shape_add_n:
  assumes "shape A B e" "A = 0 \<longrightarrow> B = (\<lambda>_. 0)"
  shows "shape (A + k) (bump p k B) ((add_entry r i p m now ex ^^ k) e)"
proof (induction k)
  case (Suc k)
  have "(if p = [] then bump p k B else (bump p k B)(p := Suc (bump p k B p))) = bump p (Suc k) B"
    by (auto simp: bump_def)
  moreover have "A + k = 0 \<longrightarrow> bump p k B = (\<lambda>_. 0)"
    using assms(2) by (auto simp: bump_def)
  ultimately show ?case
    using shape_add [OF Suc, of p r i m now ex] by simp
qed (use assms in simp)

lemma tidy_funpow: "(\<And>e. tidy e \<Longrightarrow> tidy (f e)) \<Longrightarrow> tidy e \<Longrightarrow> tidy ((f ^^ k) e)"
  by (induction k) auto

lemma views_remove_n:
  assumes "views W V e" "W (merged_web_search r i [] c None)" "p \<noteq> [] \<Longrightarrow> V p (merged_web_search r i p c None)"
  shows "views W V ((remove_entry r c i p now ^^ k) e)"
proof (induction k)
  case (Suc k)
  show ?case
    by (simp, rule views_mono [OF views_remove [OF Suc]]) (use assms in \<open>auto split: if_splits\<close>)
qed (use assms in simp)

lemma add_entry_Some: "add_entry r i p m now ex e \<noteq> None"
  by (simp add: add_entry_def Let_def split: option.splits)

text \<open>A first entry shows the new client's own word, later ones the merged one.\<close>

lemma views_add_n:
  assumes "views W V e" "W (merged_web_search r i [] ex (web_search_of m))"
    "p \<noteq> [] \<Longrightarrow> V p (merged_web_search r i p ex (web_search_of m))"
    "e = None \<Longrightarrow> merged_web_search r i [] ex (web_search_of m) = web_search_of m"
    "e = None \<Longrightarrow> p \<noteq> [] \<Longrightarrow> merged_web_search r i p ex (web_search_of m) = web_search_of m"
  shows "views W V ((add_entry r i p m now ex ^^ k) e)"
proof (induction k)
  case (Suc k)
  have none: "(add_entry r i p m now ex ^^ k) e = None \<Longrightarrow> e = None"
    by (cases k) (auto simp: add_entry_Some)
  show ?case
    by (simp, rule views_mono [OF views_add [OF Suc]]) (use assms none in \<open>auto split: if_splits\<close>)
qed (use assms in simp)

lemma shape_metadata:
  fixes x :: registration_change and i :: string
  defines "k \<equiv> (if provider_changed x \<and> old_count x i \<noteq> 0 then min (new_count x i) (old_count x i) else 0)"
  assumes "shape A B e" "rc_provider x \<noteq> [] \<longrightarrow> bump (rc_provider x) k B (rc_provider x) > 0" "A > 0"
  shows "shape A (bump (rc_provider x) k B) (metadata_entry now x r i m e)"
proof (cases e)
  case (Some g)
  let ?p = "rc_provider x"
  have inc: "\<forall>q. map_of (AList.update ?p (num_at (mr_providers g) ?p + int k) (mr_providers g)) q
      = (if bump ?p k B q = 0 then None else Some (int (bump ?p k B q)))" if "?p \<noteq> []"
    using assms(2,3) that Some by (auto simp: shape_def bump_def num_at_def)
  consider "?p = []" | "?p \<noteq> []" "k = 0" | "?p \<noteq> []" "k > 0" by blast
  then show ?thesis
  proof cases
    case 1
    with assms(2,3) Some show ?thesis
      by (auto simp: shape_def metadata_entry_def Let_def bump_def)
  next
    case 2
    have no: "\<not> (provider_changed x \<and> old_count x i \<noteq> 0 \<and> int (min (new_count x i) (old_count x i)) > 0)"
      using 2(2) by (auto simp: k_def split: if_splits)
    from assms(2,3) Some 2 no show ?thesis
      by (auto simp: shape_def metadata_entry_def Let_def bump_def)
  next
    case 3
    then have k: "provider_changed x" "old_count x i \<noteq> 0" "k = min (new_count x i) (old_count x i)"
        "int (min (new_count x i) (old_count x i)) > 0"
      by (auto simp: k_def split: if_splits)
    have "num_at (mr_providers g) ?p = int (B ?p)"
      using assms(2) Some by (auto simp: shape_def num_at_def)
    with assms(2,3) Some 3 k(1,2,4) inc show ?thesis
      by (auto simp: shape_def metadata_entry_def Let_def bump_def simp flip: k(3))
  qed
qed (use assms in simp)

lemma views_metadata:
  assumes "views W V e"
  shows "views (\<lambda>w. w = merged_web_search r i [] (rc_client x) (web_search_of m))
           (\<lambda>q w. if provider_changed x \<and> rc_old_provider x \<noteq> [] \<and> q = rc_old_provider x
                    then w = merged_web_search r i q (rc_client x) None
                  else if rc_provider x \<noteq> [] \<and> q = rc_provider x
                    then w = merged_web_search r i q (rc_client x) (web_search_of m)
                  else V q w)
           (metadata_entry now x r i m e)"
  using assms by (auto simp: views_def metadata_entry_def Let_def provider_changed_def split: option.splits)

section \<open>Reconciling one client, model by model\<close>

lemma merged_only_models: "only_models r s \<Longrightarrow> merged_web_search s = merged_web_search r"
  by (simp add: fun_eq_iff merged_web_search_def only_models_tables)

lemma entries_only_models:
  assumes "only_models r s"
  shows "add_entry s = add_entry r" "remove_entry s = remove_entry r" "move_entry s = move_entry r"
    "metadata_entry now x s = metadata_entry now x r" "unregister_entry s = unregister_entry r"
proof -
  have i: "merged_info s = merged_info r"
    using merged_only_models [OF assms] by (simp add: fun_eq_iff merged_info_def)
  then have p: "refresh_provider s = refresh_provider r"
    by (intro ext) (unfold refresh_provider_def i, rule refl)
  show "add_entry s = add_entry r" by (intro ext) (unfold add_entry_def i, rule refl)
  show "remove_entry s = remove_entry r" by (intro ext) (unfold remove_entry_def i p, rule refl)
  show "move_entry s = move_entry r" by (intro ext) (unfold move_entry_def p, rule refl)
  show "metadata_entry now x s = metadata_entry now x r" by (intro ext) (unfold metadata_entry_def i p, rule refl)
  show "unregister_entry s = unregister_entry r" by (intro ext) (unfold unregister_entry_def i p, rule refl)
qed

text \<open>A step that edits the entry of its own key, by a function of the client tables.\<close>

lemma acts_own:
  assumes "only_models r s" "f s = f r"
  shows "acts s (at_model i (f s) s) (\<lambda>j. if j = i then f r else id)"
  using acts_at_model [of s i "f r"] by (simp only: assms(2))

lemma acts_own_n:
  assumes "\<And>s. only_models r s \<Longrightarrow> step s = at_model i (f s) s" "\<And>s. only_models r s \<Longrightarrow> f s = f r" "only_models r s"
  shows "acts s ((step ^^ k) s) (\<lambda>j. if j = i then f r ^^ k else id)"
proof -
  have "acts s ((step ^^ k) s) (\<lambda>j. (if j = i then f r else id) ^^ k)"
  proof (rule acts_funpow)
    fix t assume "only_models s t"
    with assms(3) have t: "only_models r t" by (rule only_models_trans)
    show "acts t (step t) (\<lambda>j. if j = i then f r else id)"
      unfolding assms(1) [OF t] by (rule acts_own [OF t assms(2) [OF t]])
  qed
  then show ?thesis by (rule acts_cong) simp
qed

definition change_ok :: "registration_change \<Rightarrow> bool" where
  "change_ok x \<longleftrightarrow> distinct (map fst (rc_new x)) \<and> fst ` set (rc_new x) = set (rc_raw x) \<and> [] \<notin> set (rc_raw x)"

lemma change_ok_lookup:
  assumes "change_ok x"
  shows "map_of (rc_new x) j = None \<longleftrightarrow> new_count x j = 0"
  using assms by (auto simp: change_ok_def new_count_def count_list_0_iff map_of_eq_None_iff)

definition reconcile_entry ::
  "instant \<Rightarrow> registration_change \<Rightarrow> model_registry \<Rightarrow> string \<Rightarrow> model_registration option \<Rightarrow> model_registration option" where
  "reconcile_entry now x r j =
     (let n = new_count x j; k = old_count x j; c = rc_client x; old = rc_old_provider x in
      case map_of (rc_new x) j of
        None \<Rightarrow> remove_entry r c j old now ^^ k
      | Some m \<Rightarrow>
          metadata_entry now x r j m \<circ> (add_entry r j (rc_provider x) m now c ^^ (n - k))
            \<circ> (remove_entry r c j old now ^^ (k - n))
            \<circ> (if provider_changed x \<and> old \<noteq> [] \<and> k \<noteq> 0 then move_entry r c j old (int (min n k)) else id))"

lemma acts_moves:
  assumes "change_ok x"
  shows "acts r (fold (move_step x) (map fst (rc_new x)) r)
           (\<lambda>j. if new_count x j \<noteq> 0 \<and> old_count x j \<noteq> 0
                then move_entry r (rc_client x) j (rc_old_provider x) (int (min (new_count x j) (old_count x j))) else id)"
proof -
  let ?f = "\<lambda>i. if new_count x i \<noteq> 0 \<and> old_count x i \<noteq> 0
                then move_entry r (rc_client x) i (rc_old_provider x) (int (min (new_count x i) (old_count x i))) else id"
  have "acts r (fold (move_step x) (map fst (rc_new x)) r) (\<lambda>j. fold (\<lambda>i. if j = i then ?f i else id) (map fst (rc_new x)))"
  proof (rule acts_fold)
    fix i s assume s: "only_models r s"
    show "acts s (move_step x i s) (\<lambda>j. if j = i then ?f i else id)"
      using acts_at_model [of s i "?f i"] acts_refl [of s]
      by (auto simp: move_step_def entries_only_models [OF s] acts_def)
  qed
  moreover have "fold (\<lambda>i. if j = i then ?f i else id) (map fst (rc_new x)) = ?f j" for j
    using assms change_ok_lookup [OF assms, of j]
    by (subst fold_at_key) (auto simp: change_ok_def distinct_find map_of_eq_None_iff)
  ultimately show ?thesis by (rule acts_cong)
qed

lemma remove_model_registration_n:
  assumes "only_models r s"
  shows "acts s ((remove_model_registration c i p now ^^ k) s) (\<lambda>j. if j = i then remove_entry r c i p now ^^ k else id)"
  using assms by (rule acts_own_n [rotated 2]) (simp_all add: remove_model_registration_def entries_only_models fun_eq_iff)

lemma add_model_registration_n:
  assumes "only_models r s" "i \<noteq> []"
  shows "acts s ((add_model_registration i p m now c ^^ k) s) (\<lambda>j. if j = i then add_entry r i p m now c ^^ k else id)"
  using assms(1)
  by (rule acts_own_n [rotated 2]) (simp_all add: add_model_registration_def entries_only_models assms(2) fun_eq_iff)

lemma acts_removals:
  "acts r (fold (removal_step now x) (remdups (rc_old x)) r)
     (\<lambda>j. if new_count x j = 0 then remove_entry r (rc_client x) j (rc_old_provider x) now ^^ old_count x j else id)"
proof -
  let ?f = "\<lambda>i. if new_count x i = 0 then remove_entry r (rc_client x) i (rc_old_provider x) now ^^ old_count x i else id"
  have "acts r (fold (removal_step now x) (remdups (rc_old x)) r) (\<lambda>j. fold (\<lambda>i. if j = i then ?f i else id) (remdups (rc_old x)))"
  proof (rule acts_fold)
    fix i s assume s: "only_models r s"
    show "acts s (removal_step now x i s) (\<lambda>j. if j = i then ?f i else id)"
      using remove_model_registration_n [OF s, where c = "rc_client x" and i = i and p = "rc_old_provider x" and now = now and k = "old_count x i"] acts_refl [of s]
      by (auto simp: removal_step_def acts_def)
  qed
  moreover have "fold (\<lambda>i. if j = i then ?f i else id) (remdups (rc_old x)) = ?f j" for j
    by (subst fold_at_key) (auto simp: distinct_find old_count_def count_list_0_iff)
  ultimately show ?thesis by (rule acts_cong)
qed

lemma acts_overages:
  "acts r (fold (overage_step now x) (remdups (rc_old x)) r)
     (\<lambda>j. if new_count x j \<noteq> 0
          then remove_entry r (rc_client x) j (rc_old_provider x) now ^^ (old_count x j - new_count x j) else id)"
proof -
  let ?f = "\<lambda>i. if new_count x i \<noteq> 0
          then remove_entry r (rc_client x) i (rc_old_provider x) now ^^ (old_count x i - new_count x i) else id"
  have "acts r (fold (overage_step now x) (remdups (rc_old x)) r) (\<lambda>j. fold (\<lambda>i. if j = i then ?f i else id) (remdups (rc_old x)))"
  proof (rule acts_fold)
    fix i s assume s: "only_models r s"
    show "acts s (overage_step now x i s) (\<lambda>j. if j = i then ?f i else id)"
      using remove_model_registration_n [OF s, where c = "rc_client x" and i = i and p = "rc_old_provider x" and now = now and k = "old_count x i - new_count x i"]
        acts_refl [of s]
      by (auto simp: overage_step_def acts_def)
  qed
  moreover have "fold (\<lambda>i. if j = i then ?f i else id) (remdups (rc_old x)) = ?f j" for j
    by (subst fold_at_key) (auto simp: distinct_find old_count_def count_list_0_iff)
  ultimately show ?thesis by (rule acts_cong)
qed

lemma acts_additions:
  assumes "change_ok x"
  shows "acts r (fold (addition_step now x) (rc_new x) r)
     (\<lambda>j. case map_of (rc_new x) j of None \<Rightarrow> id
          | Some m \<Rightarrow> add_entry r j (rc_provider x) m now (rc_client x) ^^ (new_count x j - old_count x j))"
proof -
  let ?f = "\<lambda>im. add_entry r (fst im) (rc_provider x) (snd im) now (rc_client x) ^^ (new_count x (fst im) - old_count x (fst im))"
  have "acts r (fold (addition_step now x) (rc_new x) r) (\<lambda>j. fold (\<lambda>im. if fst im \<noteq> [] \<and> j = fst im then ?f im else id) (rc_new x))"
  proof (rule acts_fold)
    fix im s assume s: "only_models r s"
    show "acts s (addition_step now x im s) (\<lambda>j. if fst im \<noteq> [] \<and> j = fst im then ?f im else id)"
    proof (cases "fst im = []")
      case False
      then show ?thesis
        using add_model_registration_n [OF s False, where c = "rc_client x" and p = "rc_provider x" and m = "snd im" and now = now and k = "new_count x (fst im) - old_count x (fst im)"]
          acts_refl [of s]
        by (auto simp: addition_step_def acts_def split: prod.splits)
    next
      case True
      have "(add_model_registration [] p m now c ^^ k) s = s" for p m c k
        by (induction k) (auto simp: add_model_registration_def)
      with True show ?thesis
        using acts_refl [of s] by (auto simp: addition_step_def split: prod.splits)
    qed
  qed
  moreover have "fold (\<lambda>im. if fst im \<noteq> [] \<and> j = fst im then ?f im else id) (rc_new x) =
      (case map_of (rc_new x) j of None \<Rightarrow> id
       | Some m \<Rightarrow> add_entry r j (rc_provider x) m now (rc_client x) ^^ (new_count x j - old_count x j))" for j
  proof -
    have "fold (\<lambda>im. if fst im \<noteq> [] \<and> j = fst im then ?f im else id) (rc_new x)
        = fold (\<lambda>im. if j = fst im then ?f im else id) (rc_new x)"
    proof (rule ext, rule fold_cong)
      fix im assume "im \<in> set (rc_new x)"
      with assms have "fst im \<noteq> []" by (force simp: change_ok_def)
      then show "(if fst im \<noteq> [] \<and> j = fst im then ?f im else id) = (if j = fst im then ?f im else id)" by simp
    qed simp_all
    also have "\<dots> = (case map_option (Pair j) (map_of (rc_new x) j) of None \<Rightarrow> id | Some im \<Rightarrow> ?f im)"
      using assms by (subst fold_at_key) (auto simp: change_ok_def distinct_find_map_of)
    finally show ?thesis by (simp split: option.splits)
  qed
  ultimately show ?thesis by (rule acts_cong)
qed

lemma acts_metadata:
  assumes "change_ok x"
  shows "acts r (fold (metadata_step now x) (rc_new x) r)
     (\<lambda>j. case map_of (rc_new x) j of None \<Rightarrow> id | Some m \<Rightarrow> metadata_entry now x r j m)"
proof -
  let ?f = "\<lambda>im. metadata_entry now x r (fst im) (snd im)"
  have "acts r (fold (metadata_step now x) (rc_new x) r) (\<lambda>j. fold (\<lambda>im. if j = fst im then ?f im else id) (rc_new x))"
  proof (rule acts_fold)
    fix im s assume s: "only_models r s"
    show "acts s (metadata_step now x im s) (\<lambda>j. if j = fst im then ?f im else id)"
      using acts_at_model [of s "fst im" "?f im"]
      by (cases im) (simp add: metadata_step_def entries_only_models [OF s])
  qed
  moreover have "fold (\<lambda>im. if j = fst im then ?f im else id) (rc_new x) =
      (case map_of (rc_new x) j of None \<Rightarrow> id | Some m \<Rightarrow> metadata_entry now x r j m)" for j
    using assms by (subst fold_at_key) (auto simp: change_ok_def distinct_find_map_of split: option.splits)
  ultimately show ?thesis by (rule acts_cong)
qed

lemma acts_reconcile:
  assumes "change_ok x"
  shows "acts r (reconcile_models now x r) (reconcile_entry now x r)"
proof -
  define moved where "moved = (provider_changed x \<and> rc_old_provider x \<noteq> [])"
  define r1 where "r1 = (if moved then fold (move_step x) (map fst (rc_new x)) r else r)"
  define r2 where "r2 = fold (removal_step now x) (remdups (rc_old x)) r1"
  define r3 where "r3 = fold (overage_step now x) (remdups (rc_old x)) r2"
  define r4 where "r4 = fold (addition_step now x) (rc_new x) r3"
  let ?F1 = "\<lambda>j. if moved \<and> new_count x j \<noteq> 0 \<and> old_count x j \<noteq> 0
      then move_entry r (rc_client x) j (rc_old_provider x) (int (min (new_count x j) (old_count x j))) else id"
  have a1: "acts r r1 ?F1"
    using acts_moves [OF assms, of r] acts_refl [of r] by (cases moved) (simp_all add: r1_def cong: if_cong)
  note m1 = acts_only [OF a1]
  note a2 = acts_removals [of r1 now x, folded r2_def, unfolded entries_only_models [OF m1]]
  note a12 = acts_trans [OF a1 a2]
  note m2 = acts_only [OF a12]
  note a3 = acts_overages [of r2 now x, folded r3_def, unfolded entries_only_models [OF m2]]
  note a13 = acts_trans [OF a12 a3]
  note m3 = acts_only [OF a13]
  note a4 = acts_additions [OF assms, of r3 now, folded r4_def, unfolded entries_only_models [OF m3]]
  note a14 = acts_trans [OF a13 a4]
  note m4 = acts_only [OF a14]
  note a5 = acts_metadata [OF assms, of r4 now, unfolded entries_only_models [OF m4]]
  note a15 = acts_trans [OF a14 a5]
  have "reconcile_models now x r = fold (metadata_step now x) (rc_new x) r4"
    by (simp add: reconcile_models_def r4_def r3_def r2_def r1_def moved_def Let_def)
  moreover have "acts r (fold (metadata_step now x) (rc_new x) r4) (reconcile_entry now x r)"
    using a15
  proof (rule acts_cong)
    fix j
    show "(case map_of (rc_new x) j of None \<Rightarrow> id | Some m \<Rightarrow> metadata_entry now x r j m)
        \<circ> ((case map_of (rc_new x) j of None \<Rightarrow> id
             | Some m \<Rightarrow> add_entry r j (rc_provider x) m now (rc_client x) ^^ (new_count x j - old_count x j))
        \<circ> ((if new_count x j \<noteq> 0
             then remove_entry r (rc_client x) j (rc_old_provider x) now ^^ (old_count x j - new_count x j) else id)
        \<circ> ((if new_count x j = 0 then remove_entry r (rc_client x) j (rc_old_provider x) now ^^ old_count x j else id)
        \<circ> ?F1 j))) = reconcile_entry now x r j"
      using change_ok_lookup [OF assms, of j]
      by (cases "map_of (rc_new x) j") (auto simp: reconcile_entry_def moved_def Let_def fun_eq_iff)
  qed
  ultimately show ?thesis by simp
qed

text \<open>Under the tallies \<open>R\<close>, \<open>Q\<close> of the other clients, an entry that counted \<open>k\<close> registrations of this
  client through its old provider counts the new ones through the new provider afterwards, and shows
  the merged capabilities of the new tables.\<close>

lemma reconcile_entry_removed:
  fixes r :: model_registry and c i old :: string
  defines "X \<equiv> \<lambda>q. merged_web_search r i q c None"
  assumes e: "shape (R + k) (bump old k Q) e" "tidy e" "views (\<lambda>_. True) (\<lambda>q w. q = [] \<or> q = old \<or> w = X q) e"
    and untouched: "k = 0 \<Longrightarrow> views (\<lambda>w. w = X []) (\<lambda>q w. q = [] \<or> w = X q) e"
  shows "shape R Q ((remove_entry r c i old now ^^ k) e) \<and> tidy ((remove_entry r c i old now ^^ k) e)
           \<and> views (\<lambda>w. w = X []) (\<lambda>q w. q = [] \<or> w = X q) ((remove_entry r c i old now ^^ k) e)"
proof (intro conjI)
  show "shape R Q ((remove_entry r c i old now ^^ k) e)"
    by (rule shape_remove_n [OF e(1)])
  show "tidy ((remove_entry r c i old now ^^ k) e)"
    by (rule tidy_funpow) (auto intro: e(2))
  show "views (\<lambda>w. w = X []) (\<lambda>q w. q = [] \<or> w = X q) ((remove_entry r c i old now ^^ k) e)"
  proof (cases k)
    case 0
    then show ?thesis using untouched by simp
  next
    case (Suc j)
    have "views (\<lambda>_. True) (\<lambda>q w. q = [] \<or> q = old \<or> w = X q) ((remove_entry r c i old now ^^ j) e)"
      by (rule views_remove_n [OF e(3)]) auto
    from views_remove [OF this, of r i c old now] show ?thesis
      unfolding Suc funpow.simps o_apply by (rule views_mono) (auto simp: X_def split: if_splits)
  qed
qed

lemma reconcile_entry_kept:
  fixes r :: model_registry and i :: string and x :: registration_change
  defines "c \<equiv> rc_client x" and "old \<equiv> rc_old_provider x" and "p \<equiv> rc_provider x"
    and "n \<equiv> new_count x i" and "k \<equiv> old_count x i"
  defines "X \<equiv> \<lambda>q. merged_web_search r i q c None"
  assumes e: "shape (R + k) (bump old k Q) e" "tidy e" "views (\<lambda>_. True) (\<lambda>q w. q = [] \<or> q = old \<or> w = X q) e"
    and Q: "\<And>q. Q q \<le> R"
    and n: "n > 0" and m: "map_of (rc_new x) i = Some m"
    and alone: "\<And>q b. R = 0 \<Longrightarrow> merged_web_search r i q c b = b"
  shows "shape (R + n) (bump p n Q) (reconcile_entry now x r i e) \<and> tidy (reconcile_entry now x r i e)
           \<and> views (\<lambda>w. w = merged_web_search r i [] c (web_search_of m))
               (\<lambda>q w. q = [] \<or> w = (if q = p then merged_web_search r i q c (web_search_of m) else X q))
               (reconcile_entry now x r i e)"
proof -
  define moved where "moved = (provider_changed x \<and> old \<noteq> [] \<and> k \<noteq> 0)"
  define B where "B = (if moved then Q else bump old (min n k) Q)"
  let ?V = "\<lambda>q w. q = [] \<or> q = old \<or> w = X q"
  let ?V' = "\<lambda>q w. q = [] \<or> q = old \<or> q = p \<or> w = X q"
  define e1 where "e1 = (if moved then move_entry r c i old (int (min n k)) e else e)"
  define e2 where "e2 = (remove_entry r c i old now ^^ (k - n)) e1"
  define e3 where "e3 = (add_entry r i p m now c ^^ (n - k)) e2"
  have eq: "reconcile_entry now x r i e = metadata_entry now x r i m e3"
    by (simp add: reconcile_entry_def m e3_def e2_def e1_def moved_def n_def k_def c_def old_def p_def Let_def)
  have ch: "provider_changed x \<longleftrightarrow> old \<noteq> p" by (simp add: provider_changed_def old_def p_def)
  have s1: "shape (R + min n k + (k - n)) (bump old (k - n) B) e1"
  proof (cases moved)
    case True
    have "shape (R + k) ((bump old k Q)(old := bump old k Q old - min n k)) (move_entry r c i old (int (min n k)) e)"
      by (rule shape_move [OF e(1)]) (use True in \<open>auto simp: moved_def bump_def\<close>)
    moreover have "(bump old k Q)(old := bump old k Q old - min n k) = bump old (k - n) B"
      using True by (auto simp: B_def bump_def moved_def fun_eq_iff min_def)
    moreover have "R + min n k + (k - n) = R + k" by simp
    ultimately show ?thesis using True by (simp only: e1_def if_True)
  next
    case False
    have "R + min n k + (k - n) = R + k" by simp
    moreover have "k - n + min n k = k" by simp
    ultimately show ?thesis using False e(1) by (simp only: e1_def B_def bump_bump if_False)
  qed
  have v1: "views (\<lambda>_. True) ?V e1"
  proof (cases moved)
    case True
    then show ?thesis
      unfolding e1_def if_P [OF True]
      by (intro views_mono [OF views_move [OF e(3)]]) (auto split: if_splits)
  qed (use e(3) in \<open>simp add: e1_def\<close>)
  have s2: "shape (R + min n k) B e2"
    unfolding e2_def by (rule shape_remove_n [OF s1])
  have v2: "views (\<lambda>_. True) ?V' e2"
    unfolding e2_def by (rule views_mono [OF views_remove_n [OF v1]]) auto
  have B0: "R + min n k = 0 \<longrightarrow> B = (\<lambda>_. 0)"
    using Q by (auto simp: B_def bump_def fun_eq_iff)
  have "R + min n k + (n - k) = R + n" by simp
  then have s3: "shape (R + n) (bump p (n - k) B) e3"
    using shape_add_n [OF s2 B0, where p = p and k = "n - k" and r = r and i = i and m = m and now = now and ex = c] by (simp only: e3_def)
  have none: "R = 0" if "e2 = None"
    using s2 that by simp
  have v3: "views (\<lambda>_. True) ?V' e3"
    unfolding e3_def using alone [OF none] by (intro views_add_n [OF v2]) auto
  have bump: "bump p (if provider_changed x \<and> k \<noteq> 0 then min n k else 0) (bump p (n - k) B) = bump p n Q"
    by (auto simp: ch B_def moved_def bump_def fun_eq_iff)
  have "shape (R + n) (bump p n Q) (metadata_entry now x r i m e3)"
    using shape_metadata [OF s3, where x = x and i = i and now = now and r = r and m = m, folded p_def n_def k_def, unfolded bump] n by (simp add: bump_def)
  moreover have "tidy (metadata_entry now x r i m e3)"
    unfolding e3_def e2_def e1_def by (intro tidy_entries tidy_funpow) (auto intro: e(2) tidy_entries)
  moreover have "views (\<lambda>w. w = merged_web_search r i [] c (web_search_of m))
               (\<lambda>q w. q = [] \<or> w = (if q = p then merged_web_search r i q c (web_search_of m) else X q))
               (metadata_entry now x r i m e3)"
    by (rule views_mono [OF views_metadata [OF v3, of r i x m now]])
      (auto simp: c_def X_def ch old_def p_def provider_changed_def split: if_splits)
  ultimately show ?thesis by (simp add: eq)
qed

text \<open>The first registration of a client.\<close>

lemma added_entry_sound:
  fixes r :: model_registry and c i p :: string
  defines "X \<equiv> \<lambda>q. merged_web_search r i q c None"
  assumes e: "shape R Q e" "tidy e" "views (\<lambda>w. w = X []) (\<lambda>q w. q = [] \<or> w = X q) e"
    and Q: "\<And>q. Q q \<le> R"
    and n: "n > 0"
    and alone: "\<And>q b. R = 0 \<Longrightarrow> merged_web_search r i q c b = b"
  shows "shape (R + n) (bump p n Q) ((add_entry r i p m now c ^^ n) e) \<and> tidy ((add_entry r i p m now c ^^ n) e)
           \<and> views (\<lambda>w. w = merged_web_search r i [] c (web_search_of m))
               (\<lambda>q w. q = [] \<or> w = (if q = p then merged_web_search r i q c (web_search_of m) else X q))
               ((add_entry r i p m now c ^^ n) e)"
proof (intro conjI)
  show "shape (R + n) (bump p n Q) ((add_entry r i p m now c ^^ n) e)"
    by (rule shape_add_n [OF e(1)]) (use Q in \<open>auto simp: fun_eq_iff\<close>)
  show "tidy ((add_entry r i p m now c ^^ n) e)"
    by (rule tidy_funpow) (auto intro: e(2))
  from n obtain j where j: "n = Suc j" by (cases n) auto
  have none: "R = 0" if "(add_entry r i p m now c ^^ j) e = None"
    using that e(1) by (cases j) (auto simp: add_entry_Some)
  have "views (\<lambda>_. True) (\<lambda>q w. q = [] \<or> q = p \<or> w = X q) ((add_entry r i p m now c ^^ j) e)"
    using alone e(1) by (intro views_add_n [OF views_mono [OF e(3)]]) auto
  note v = views_add [OF this, of r i c m p now]
  show "views (\<lambda>w. w = merged_web_search r i [] c (web_search_of m))
               (\<lambda>q w. q = [] \<or> w = (if q = p then merged_web_search r i q c (web_search_of m) else X q))
               ((add_entry r i p m now c ^^ n) e)"
    unfolding j funpow.simps o_apply
    by (rule views_mono [OF v]) (use alone [OF none] in \<open>auto split: if_splits\<close>)
qed

section \<open>The invariant\<close>

lemma sum_list_delete:
  fixes f :: "'k \<times> 'v \<Rightarrow> nat"
  assumes "distinct (map fst al)"
  shows "sum_list (map f al) = sum_list (map f (AList.delete c al)) + (case map_of al c of None \<Rightarrow> 0 | Some v \<Rightarrow> f (c, v))"
  using assms
proof (induction al)
  case (Cons kv al)
  obtain k v where kv: "kv = (k, v)" by (cases kv)
  show ?case
  proof (cases "k = c")
    case True
    with Cons.prems have "AList.delete c al = al" by (simp add: kv delete_id)
    with True show ?thesis by (simp add: kv)
  next
    case False
    with Cons show ?thesis by (simp add: kv)
  qed
qed simp

lemma sum_list_update:
  fixes f :: "'k \<times> 'v \<Rightarrow> nat"
  assumes "distinct (map fst al)"
  shows "sum_list (map f (AList.update c v al)) = sum_list (map f (AList.delete c al)) + f (c, v)"
  using assms
proof (induction al)
  case (Cons kv al)
  obtain k w where kv: "kv = (k, w)" by (cases kv)
  show ?case
  proof (cases "k = c")
    case True
    with Cons.prems have "AList.delete c al = al" by (simp add: kv delete_id)
    with True show ?thesis by (simp add: kv)
  next
    case False
    with Cons show ?thesis by (simp add: kv)
  qed
qed simp

text \<open>How often the clients offer a model, and through a provider.\<close>

definition offer_count :: "model_registry \<Rightarrow> string \<Rightarrow> nat" where
  "offer_count r i = sum_list (map (\<lambda>(c, ms). count_list ms i) (gr_client_models r))"

definition provider_count :: "model_registry \<Rightarrow> string \<Rightarrow> string \<Rightarrow> nat" where
  "provider_count r i p =
     (if p = [] then 0
      else sum_list (map (\<lambda>(c, ms). if string_at (gr_client_providers r) c = p then count_list ms i else 0) (gr_client_models r)))"

definition clients_ok :: "model_registry \<Rightarrow> bool" where
  "clients_ok r \<longleftrightarrow>
     distinct (map fst (gr_client_models r)) \<and> distinct (map fst (gr_client_infos r))
     \<and> distinct (map fst (gr_client_providers r))
     \<and> map_of (gr_client_models r) [] = None
     \<and> (\<forall>c. map_of (gr_client_models r) c = None \<longleftrightarrow> map_of (gr_client_infos r) c = None)
     \<and> (\<forall>c ms. map_of (gr_client_models r) c = Some ms \<longrightarrow>
           ms \<noteq> [] \<and> [] \<notin> set ms \<and> set ms = fst ` set (infos_at r c) \<and> distinct (map fst (infos_at r c)))
     \<and> (\<forall>c p. map_of (gr_client_providers r) c = Some p \<longrightarrow> p \<noteq> [] \<and> map_of (gr_client_models r) c \<noteq> None)"

lemma clients_okD:
  assumes "clients_ok r"
  shows "distinct (map fst (gr_client_models r))" "distinct (map fst (gr_client_infos r))"
    "distinct (map fst (gr_client_providers r))" "map_of (gr_client_models r) [] = None"
    "map_of (gr_client_models r) c = None \<longleftrightarrow> map_of (gr_client_infos r) c = None"
    "map_of (gr_client_models r) c = Some ms \<Longrightarrow> ms \<noteq> [] \<and> [] \<notin> set ms"
    "map_of (gr_client_models r) c = Some ms \<Longrightarrow> fst ` set (infos_at r c) = set ms"
    "map_of (gr_client_models r) c = Some ms \<Longrightarrow> distinct (map fst (infos_at r c))"
    "map_of (gr_client_providers r) c = Some p \<Longrightarrow> p \<noteq> [] \<and> map_of (gr_client_models r) c \<noteq> None"
  using assms unfolding clients_ok_def by (blast+)

text \<open>An entry is what the client tables say of the model.\<close>

definition entry_sound :: "model_registry \<Rightarrow> string \<Rightarrow> model_registration option \<Rightarrow> bool" where
  "entry_sound r i e \<longleftrightarrow>
     shape (offer_count r i) (provider_count r i) e \<and> tidy e
     \<and> views (\<lambda>w. w = strongest (declared r (\<lambda>_. True) i []))
         (\<lambda>p w. p = [] \<or> w = strongest (declared r (\<lambda>_. True) i p)) e"

definition registry_ok :: "model_registry \<Rightarrow> bool" where
  "registry_ok r \<longleftrightarrow>
     clients_ok r \<and> distinct (map fst (gr_models r)) \<and> (\<forall>i. entry_sound r i (map_of (gr_models r) i))"

lemma registry_ok_new [simp]: "registry_ok new_model_registry"
  by (simp add: registry_ok_def clients_ok_def new_model_registry_def entry_sound_def offer_count_def)

text \<open>Only the client tables matter for what an entry should be.\<close>

definition same_clients :: "model_registry \<Rightarrow> model_registry \<Rightarrow> bool" where
  "same_clients r s \<longleftrightarrow> gr_client_models s = gr_client_models r \<and> gr_client_infos s = gr_client_infos r
     \<and> gr_client_providers s = gr_client_providers r"

lemma same_clients_spec:
  assumes "same_clients r s"
  shows "offer_count s = offer_count r" "provider_count s = provider_count r" "declared s = declared r"
    "entry_sound s = entry_sound r" "clients_ok s = clients_ok r" "merged_web_search s = merged_web_search r"
    "infos_at s = infos_at r"
proof -
  show i: "infos_at s = infos_at r"
    using assms by (simp add: same_clients_def infos_at_def fun_eq_iff)
  show o: "offer_count s = offer_count r" "provider_count s = provider_count r"
    using assms by (auto simp: same_clients_def offer_count_def provider_count_def fun_eq_iff)
  show d: "declared s = declared r"
    using assms i by (simp add: same_clients_def declared_def fun_eq_iff)
  show "entry_sound s = entry_sound r"
    by (intro ext) (simp add: entry_sound_def o d)
  show "clients_ok s = clients_ok r"
    using assms i by (simp add: same_clients_def clients_ok_def)
  show "merged_web_search s = merged_web_search r"
    using assms by (simp add: same_clients_def merged_web_search_def fun_eq_iff)
qed

lemma same_clients_invalidate [simp]: "same_clients r (invalidate r)"
  by (simp add: same_clients_def invalidate_def)

lemma gr_models_invalidate [simp]: "gr_models (invalidate r) = gr_models r"
  by (simp add: invalidate_def)

lemma registry_ok_same:
  "same_clients r s \<Longrightarrow> gr_models s = gr_models r \<Longrightarrow> registry_ok s \<longleftrightarrow> registry_ok r"
  by (simp add: registry_ok_def same_clients_spec)

lemma registry_ok_invalidate [simp]: "registry_ok (invalidate r) \<longleftrightarrow> registry_ok r"
  by (rule registry_ok_same) simp_all

subsection \<open>One client and the others\<close>

definition others_count :: "model_registry \<Rightarrow> string \<Rightarrow> string \<Rightarrow> nat" where
  "others_count r c i = sum_list (map (\<lambda>(d, ms). count_list ms i) (AList.delete c (gr_client_models r)))"

definition others_provider :: "model_registry \<Rightarrow> string \<Rightarrow> string \<Rightarrow> string \<Rightarrow> nat" where
  "others_provider r c i p =
     (if p = [] then 0
      else sum_list (map (\<lambda>(d, ms). if string_at (gr_client_providers r) d = p then count_list ms i else 0)
             (AList.delete c (gr_client_models r))))"

definition client_count :: "model_registry \<Rightarrow> string \<Rightarrow> string \<Rightarrow> nat" where
  "client_count r c i = (case map_of (gr_client_models r) c of None \<Rightarrow> 0 | Some ms \<Rightarrow> count_list ms i)"

lemma offer_split:
  assumes "clients_ok r"
  shows "offer_count r i = others_count r c i + client_count r c i"
  using sum_list_delete [OF clients_okD(1) [OF assms], of "\<lambda>(c, ms). count_list ms i" c]
  unfolding offer_count_def others_count_def client_count_def by (simp split: option.split)

lemma provider_split:
  assumes "clients_ok r"
  shows "provider_count r i = bump (string_at (gr_client_providers r) c) (client_count r c i) (others_provider r c i)"
proof
  fix p
  show "provider_count r i p = bump (string_at (gr_client_providers r) c) (client_count r c i) (others_provider r c i) p"
    using sum_list_delete [OF clients_okD(1) [OF assms],
        of "\<lambda>(d, ms). if string_at (gr_client_providers r) d = p then count_list ms i else 0" c]
    by (cases "map_of (gr_client_models r) c")
      (auto simp: provider_count_def others_provider_def client_count_def bump_def)
qed

lemma others_le: "others_provider r c i p \<le> others_count r c i"
proof -
  have "sum_list (map (\<lambda>(d, ms). if string_at provs d = p then count_list ms i else 0) xs) \<le> sum_list (map (\<lambda>(d, ms). count_list ms i) xs)"
    for provs and xs :: "(string \<times> string list) list"
    by (induction xs) auto
  then show ?thesis by (simp add: others_provider_def others_count_def)
qed

text \<open>What the client itself declares.\<close>

definition own_word :: "model_registry \<Rightarrow> string \<Rightarrow> string \<Rightarrow> bool option" where
  "own_word r c i = Option.bind (map_of (infos_at r c) i) web_search_of"

lemma declared_split:
  "declared r (\<lambda>_. True) i p =
     declared r (\<lambda>d. d \<noteq> c) i p
       \<union> (if p = [] \<or> string_at (gr_client_providers r) c = p then set_option (own_word r c i) else {})"
  by (auto simp: declared_def own_word_def split: Option.bind_splits)

lemma infos_lookup:
  assumes "clients_ok r"
  shows "map_of (infos_at r c) i = None \<longleftrightarrow> client_count r c i = 0"
proof (cases "map_of (gr_client_models r) c")
  case None
  with clients_okD(5) [OF assms, of c] show ?thesis by (simp add: client_count_def infos_at_def)
next
  case (Some ms)
  with clients_okD(7) [OF assms Some] show ?thesis
    by (simp add: client_count_def count_list_0_iff map_of_eq_None_iff)
qed

lemma alone:
  assumes "clients_ok r" "others_count r c i = 0"
  shows "declared r (\<lambda>d. d \<noteq> c) i p = {}"
proof -
  have "client_count r d i = 0" if d: "d \<noteq> c" for d
  proof (cases "map_of (gr_client_models r) d")
    case (Some ms)
    then have "(d, ms) \<in> set (AList.delete c (gr_client_models r))"
      using d map_of_SomeD [of "AList.delete c (gr_client_models r)" d ms] by simp
    with assms(2) have "count_list ms i = 0"
      unfolding others_count_def by (auto simp: sum_list_eq_0_iff)
    with Some show ?thesis by (simp add: client_count_def)
  qed (simp add: client_count_def)
  then have "map_of (infos_at r d) i = None" if "d \<noteq> c" for d
    using that infos_lookup [OF assms(1)] by simp
  then show ?thesis
    by (force simp: declared_def)
qed

lemma clients_ok_merged:
  "clients_ok r \<Longrightarrow> merged_web_search r i p ex base = strongest (declared r (\<lambda>c. c \<noteq> ex) i p \<union> set_option base)"
  by (simp add: merged_web_search_eq clients_ok_def)

text \<open>The entry in terms of one client: what \<open>reconcile_entry_kept\<close> and its siblings ask for.\<close>

lemma entry_sound_split:
  assumes ok: "clients_ok r" and e: "entry_sound r i e"
  shows "shape (others_count r c i + client_count r c i)
           (bump (string_at (gr_client_providers r) c) (client_count r c i) (others_provider r c i)) e"
    and "tidy e"
    and "views (\<lambda>_. True) (\<lambda>q w. q = [] \<or> q = string_at (gr_client_providers r) c \<or> w = merged_web_search r i q c None) e"
    and "client_count r c i = 0 \<Longrightarrow>
           views (\<lambda>w. w = merged_web_search r i [] c None) (\<lambda>q w. q = [] \<or> w = merged_web_search r i q c None) e"
proof -
  have s: "shape (offer_count r i) (provider_count r i) e" and t: "tidy e"
    and v: "views (\<lambda>w. w = strongest (declared r (\<lambda>_. True) i []))
         (\<lambda>p w. p = [] \<or> w = strongest (declared r (\<lambda>_. True) i p)) e"
    using e by (simp_all add: entry_sound_def)
  from s show "shape (others_count r c i + client_count r c i)
           (bump (string_at (gr_client_providers r) c) (client_count r c i) (others_provider r c i)) e"
    by (simp add: offer_split [OF ok, of i c] provider_split [OF ok, of i c])
  from t show "tidy e" .
  show "views (\<lambda>_. True) (\<lambda>q w. q = [] \<or> q = string_at (gr_client_providers r) c \<or> w = merged_web_search r i q c None) e"
    by (rule views_mono [OF v]) (auto simp: clients_ok_merged [OF ok] declared_split [of r i _ c] split: if_splits)
  assume "client_count r c i = 0"
  then have "own_word r c i = None" by (simp add: own_word_def infos_lookup [OF ok, THEN iffD2])
  then have "declared r (\<lambda>_. True) i q = declared r (\<lambda>d. d \<noteq> c) i q" for q
    by (subst declared_split [of r i q c]) simp
  then show "views (\<lambda>w. w = merged_web_search r i [] c None) (\<lambda>q w. q = [] \<or> w = merged_web_search r i q c None) e"
    by (intro views_mono [OF v]) (auto simp: clients_ok_merged [OF ok])
qed

subsection \<open>Registering keeps the invariant\<close>

lemma string_at_update: "string_at (AList.update k v al) j = (if j = k then v else string_at al j)"
  by (simp add: string_at_def)

lemma string_at_delete: "string_at (AList.delete k al) j = (if j = k then [] else string_at al j)"
  by (simp add: string_at_def)

lemma infos_at_store:
  "infos_at (store_client x r) d = (if d = rc_client x then rc_new x else infos_at r d)"
  by (simp add: infos_at_def store_client_def Let_def)

lemma string_at_store:
  "string_at (gr_client_providers (store_client x r)) d =
     (if d = rc_client x then rc_provider x else string_at (gr_client_providers r) d)"
  by (simp add: store_client_def Let_def string_at_update string_at_delete)

lemma clients_ok_store:
  assumes ok: "clients_ok r" and x: "change_ok x" "rc_raw x \<noteq> []" "rc_client x \<noteq> []"
  shows "clients_ok (store_client x r)"
  unfolding clients_ok_def infos_at_store
proof (intro conjI allI impI)
  let ?s = "store_client x r"
  have m: "map_of (gr_client_models ?s) d = (if d = rc_client x then Some (rc_raw x) else map_of (gr_client_models r) d)"
    and i: "map_of (gr_client_infos ?s) d = (if d = rc_client x then Some (rc_new x) else map_of (gr_client_infos r) d)"
    and p: "map_of (gr_client_providers ?s) d =
        (if d = rc_client x then (if rc_provider x = [] then None else Some (rc_provider x))
         else map_of (gr_client_providers r) d)" for d
    by (simp_all add: store_client_def Let_def)
  show "distinct (map fst (gr_client_models ?s))" "distinct (map fst (gr_client_infos ?s))"
    "distinct (map fst (gr_client_providers ?s))"
    using clients_okD(1-3) [OF ok] by (simp_all add: store_client_def Let_def distinct_update distinct_delete)
  show "map_of (gr_client_models ?s) [] = None"
    using x(3) clients_okD(4) [OF ok] by (simp add: m)
  show "map_of (gr_client_models ?s) c = None \<longleftrightarrow> map_of (gr_client_infos ?s) c = None" for c
    using clients_okD(5) [OF ok, of c] by (simp add: m i)
  fix c ms assume "map_of (gr_client_models ?s) c = Some ms"
  then have c: "c = rc_client x \<and> ms = rc_raw x \<or> c \<noteq> rc_client x \<and> map_of (gr_client_models r) c = Some ms"
    by (simp add: m split: if_splits)
  show "ms \<noteq> []" "[] \<notin> set ms"
    using c x clients_okD(6) [OF ok, of c ms] by (auto simp: change_ok_def)
  show "set ms = fst ` set (if c = rc_client x then rc_new x else infos_at r c)"
    using c x clients_okD(7) [OF ok, of c ms] by (auto simp: change_ok_def)
  show "distinct (map fst (if c = rc_client x then rc_new x else infos_at r c))"
    using c x clients_okD(8) [OF ok, of c ms] by (auto simp: change_ok_def)
next
  fix c p assume "map_of (gr_client_providers (store_client x r)) c = Some p"
  then show "p \<noteq> []" "map_of (gr_client_models (store_client x r)) c \<noteq> None"
    using clients_okD(9) [OF ok, of c p] by (auto simp: store_client_def Let_def split: if_splits)
qed

lemma store_offer:
  assumes "clients_ok r"
  shows "offer_count (store_client x r) i = others_count r (rc_client x) i + new_count x i"
  using sum_list_update [OF clients_okD(1) [OF assms], of "\<lambda>(d, ms). count_list ms i" "rc_client x" "rc_raw x"]
  by (simp add: offer_count_def others_count_def new_count_def store_client_def Let_def)

lemma store_provider:
  assumes "clients_ok r"
  shows "provider_count (store_client x r) i = bump (rc_provider x) (new_count x i) (others_provider r (rc_client x) i)"
proof
  fix p
  let ?c = "rc_client x" and ?P = "gr_client_providers (store_client x r)"
  have models: "gr_client_models (store_client x r) = AList.update ?c (rc_raw x) (gr_client_models r)"
    by (simp add: store_client_def Let_def)
  have "(\<lambda>(d, ms). if string_at ?P d = p then count_list ms i else 0) dm
      = (\<lambda>(d, ms). if string_at (gr_client_providers r) d = p then count_list ms i else 0) dm"
    if "dm \<in> set (AList.delete ?c (gr_client_models r))" for dm
    using that by (auto simp: string_at_store AList.delete_eq)
  then have "sum_list (map (\<lambda>(d, ms). if string_at ?P d = p then count_list ms i else 0) (AList.delete ?c (gr_client_models r)))
      = sum_list (map (\<lambda>(d, ms). if string_at (gr_client_providers r) d = p then count_list ms i else 0)
          (AList.delete ?c (gr_client_models r)))"
    by (intro arg_cong [of _ _ sum_list] map_cong) auto
  with sum_list_update [OF clients_okD(1) [OF assms],
      of "\<lambda>(d, ms). if string_at ?P d = p then count_list ms i else 0" ?c "rc_raw x"]
  show "provider_count (store_client x r) i p
      = bump (rc_provider x) (new_count x i) (others_provider r ?c i) p"
    by (auto simp: provider_count_def others_provider_def new_count_def models bump_def string_at_store)
qed

lemma store_declared:
  "declared (store_client x r) (\<lambda>_. True) i q =
     declared r (\<lambda>d. d \<noteq> rc_client x) i q
       \<union> (if q = [] \<or> rc_provider x = q then set_option (Option.bind (map_of (rc_new x) i) web_search_of) else {})"
proof -
  have "declared (store_client x r) (\<lambda>d. d \<noteq> rc_client x) i q = declared r (\<lambda>d. d \<noteq> rc_client x) i q"
    by (auto simp: declared_def infos_at_store string_at_store)
  then show ?thesis
    by (subst declared_split [of _ _ _ "rc_client x"]) (simp add: string_at_store own_word_def infos_at_store)
qed

text \<open>An entry is right for the new tables if it counts the new offers and shows the merged words.\<close>

lemma entry_sound_store:
  assumes ok: "clients_ok r"
    and s: "shape (others_count r (rc_client x) i + new_count x i)
              (bump (rc_provider x) (new_count x i) (others_provider r (rc_client x) i)) e"
    and t: "tidy e"
    and v: "views (\<lambda>w. w = (case map_of (rc_new x) i of None \<Rightarrow> merged_web_search r i [] (rc_client x) None
                       | Some m \<Rightarrow> merged_web_search r i [] (rc_client x) (web_search_of m)))
              (\<lambda>q w. q = [] \<or> w = (case map_of (rc_new x) i of None \<Rightarrow> merged_web_search r i q (rc_client x) None
                       | Some m \<Rightarrow> if q = rc_provider x then merged_web_search r i q (rc_client x) (web_search_of m)
                                  else merged_web_search r i q (rc_client x) None)) e"
  shows "entry_sound (store_client x r) i e"
proof -
  have "strongest (declared (store_client x r) (\<lambda>_. True) i q) =
      (case map_of (rc_new x) i of None \<Rightarrow> merged_web_search r i q (rc_client x) None
       | Some m \<Rightarrow> if q = [] \<or> q = rc_provider x then merged_web_search r i q (rc_client x) (web_search_of m)
                  else merged_web_search r i q (rc_client x) None)" for q
    by (auto simp: store_declared clients_ok_merged [OF ok] split: option.split)
  then have "views (\<lambda>w. w = strongest (declared (store_client x r) (\<lambda>_. True) i []))
      (\<lambda>q w. q = [] \<or> w = strongest (declared (store_client x r) (\<lambda>_. True) i q)) e"
    by (intro views_mono [OF v]) (auto split: option.splits)
  with s t show ?thesis
    by (simp add: entry_sound_def store_offer [OF ok] store_provider [OF ok])
qed

lemma keep_first_spec:
  "map_of (keep_first xs) = map_of xs \<and> distinct (map fst (keep_first xs)) \<and> fst ` set (keep_first xs) = fst ` set xs"
proof (induction xs rule: rev_induct)
  case Nil
  then show ?case by (simp add: keep_first_def)
next
  case (snoc kv xs)
  obtain k v where kv: "kv = (k, v)" by (cases kv)
  have step: "keep_first (xs @ [(k, v)]) = (if map_of (keep_first xs) k = None then keep_first xs @ [(k, v)] else keep_first xs)"
    by (simp add: keep_first_def)
  show ?case
  proof (cases "map_of xs k")
    case None
    with snoc have "k \<notin> fst ` set (keep_first xs)" by (simp add: map_of_eq_None_iff)
    with None snoc show ?thesis
      by (auto simp: step kv fun_eq_iff map_add_def split: option.splits)
  next
    case (Some w)
    then have "k \<in> fst ` set xs" by (metis map_of_eq_None_iff option.distinct(1))
    with Some snoc show ?thesis
      by (auto simp: step kv fun_eq_iff map_add_def split: option.splits)
  qed
qed

lemma valid_models_ids: "[] \<notin> fst ` set (valid_models ms)"
  by (auto simp: valid_models_def)

lemma same_clients_bump [simp]: "same_clients r (bump_epoch c r)"
  by (simp add: same_clients_def bump_epoch_def)

lemma gr_models_bump [simp]: "gr_models (bump_epoch c r) = gr_models r"
  by (simp add: bump_epoch_def)

lemma only_same: "only_models r s \<Longrightarrow> same_clients r s"
  by (simp add: same_clients_def only_models_tables)

lemma same_clients_trans: "same_clients r s \<Longrightarrow> same_clients s t \<Longrightarrow> same_clients r t"
  by (simp add: same_clients_def)

lemma store_same:
  assumes "same_clients r s"
  shows "same_clients (store_client x r) (store_client x s)" "gr_models (store_client x s) = gr_models s"
  using assms by (simp_all add: same_clients_def store_client_def Let_def)

lemma registry_ok_storeI:
  assumes ok: "registry_ok r" and x: "change_ok x" "rc_raw x \<noteq> []" "rc_client x \<noteq> []"
    and a: "acts r s f" and e: "\<And>i. entry_sound (store_client x r) i (f i (map_of (gr_models r) i))"
  shows "registry_ok (store_client x s)"
proof -
  have same: "same_clients (store_client x r) (store_client x s)" "gr_models (store_client x s) = gr_models s"
    using store_same [OF only_same [OF acts_only [OF a]]] by simp_all
  from ok a have "distinct (map fst (gr_models s))" by (simp add: acts_def registry_ok_def)
  moreover have "clients_ok (store_client x r)"
    using ok x by (simp add: registry_ok_def clients_ok_store)
  ultimately show ?thesis
    using a e by (simp add: registry_ok_def same_clients_spec [OF same(1)] same(2) acts_def)
qed

lemma acts_first_registration:
  assumes "[] \<notin> set raw"
  shows "acts r (fold (\<lambda>i. add_model_registration i p (f i) now c) raw r) (\<lambda>j. add_entry r j p (f j) now c ^^ count_list raw j)"
proof -
  have "acts r (fold (\<lambda>i s. if i = [] then s else add_model_registration i p (f i) now c s) raw r)
      (\<lambda>j. fold (\<lambda>i. if j = i then (if i = [] then id else add_entry r i p (f i) now c) else id) raw)"
  proof (rule acts_fold)
    fix i s assume s: "only_models r s"
    show "acts s (if i = [] then s else add_model_registration i p (f i) now c s)
        (\<lambda>j. if j = i then (if i = [] then id else add_entry r i p (f i) now c) else id)"
      using add_model_registration_n [OF s, where k = 1 and i = i and p = p and m = "f i" and now = now and c = c]
        acts_refl [of s]
      by (auto simp: acts_def)
  qed
  moreover have "fold (\<lambda>i s. if i = [] then s else add_model_registration i p (f i) now c s) raw r
      = fold (\<lambda>i. add_model_registration i p (f i) now c) raw r"
    using assms by (intro fold_cong) auto
  moreover have "fold (\<lambda>i. if j = i then (if i = [] then id else add_entry r i p (f i) now c) else id) raw
      = add_entry r j p (f j) now c ^^ count_list raw j" for j
    using assms by (cases "j = []") (simp_all add: fold_at_count count_list_0_iff)
  ultimately show ?thesis by (simp add: acts_def)
qed

lemma merged_alone:
  "clients_ok r \<Longrightarrow> others_count r c i = 0 \<Longrightarrow> merged_web_search r i q c b = b"
  by (simp add: clients_ok_merged alone)

lemma register_first_ok:
  assumes ok: "registry_ok r" and x: "change_ok x" "rc_raw x \<noteq> []" "rc_client x \<noteq> []"
    and none: "map_of (gr_client_models r) (rc_client x) = None"
  shows "registry_ok (store_client x
           (fold (\<lambda>i. add_model_registration i (rc_provider x) (the (map_of (rc_new x) i)) now (rc_client x)) (rc_raw x) r))"
proof (rule registry_ok_storeI [OF ok x])
  show "acts r (fold (\<lambda>i. add_model_registration i (rc_provider x) (the (map_of (rc_new x) i)) now (rc_client x)) (rc_raw x) r)
      (\<lambda>j. add_entry r j (rc_provider x) (the (map_of (rc_new x) j)) now (rc_client x) ^^ count_list (rc_raw x) j)"
    by (rule acts_first_registration) (use x in \<open>simp add: change_ok_def\<close>)
next
  fix i
  let ?c = "rc_client x" and ?e = "map_of (gr_models r) i"
  have cok: "clients_ok r" and e: "entry_sound r i ?e" using ok by (simp_all add: registry_ok_def)
  have cc: "client_count r ?c i = 0" by (simp add: client_count_def none)
  note sp1 = entry_sound_split(1) [OF cok e, of ?c, unfolded cc, simplified]
  note sp2 = entry_sound_split(2) [OF cok e]
  note sp4 = entry_sound_split(4) [OF cok e, of ?c, unfolded cc, simplified]
  show "entry_sound (store_client x r) i
      ((add_entry r i (rc_provider x) (the (map_of (rc_new x) i)) now ?c ^^ count_list (rc_raw x) i) ?e)"
  proof (cases "map_of (rc_new x) i")
    case None
    with change_ok_lookup [OF x(1), of i] have "new_count x i = 0" by simp
    then show ?thesis
      using sp1 sp2 sp4 None by (intro entry_sound_store [OF cok]) (simp_all add: new_count_def)
  next
    case (Some m)
    with change_ok_lookup [OF x(1), of i] have n: "new_count x i > 0" by auto
    from added_entry_sound [OF sp1 sp2 sp4 others_le n merged_alone [OF cok], where p = "rc_provider x" and m = m and now = now]
    show ?thesis
      using Some by (intro entry_sound_store [OF cok]) (simp_all add: new_count_def)
  qed
qed

lemma reconcile_ok:
  assumes ok: "registry_ok r" and x: "change_ok x" "rc_raw x \<noteq> []" "rc_client x \<noteq> []"
    and old: "map_of (gr_client_models r) (rc_client x) = Some (rc_old x)"
      "rc_old_provider x = string_at (gr_client_providers r) (rc_client x)"
  shows "registry_ok (store_client x (reconcile_models now x r))"
proof (rule registry_ok_storeI [OF ok x acts_reconcile [OF x(1)]])
  fix i
  let ?c = "rc_client x" and ?e = "map_of (gr_models r) i"
  have cok: "clients_ok r" and e: "entry_sound r i ?e" using ok by (simp_all add: registry_ok_def)
  have cc: "client_count r ?c i = old_count x i" by (simp add: client_count_def old(1) old_count_def)
  note sp1 = entry_sound_split(1) [OF cok e, of ?c, unfolded cc, folded old(2)]
  note sp2 = entry_sound_split(2) [OF cok e]
  note sp3 = entry_sound_split(3) [OF cok e, of ?c, unfolded cc, folded old(2)]
  note sp4 = entry_sound_split(4) [OF cok e, of ?c, unfolded cc]
  show "entry_sound (store_client x r) i (reconcile_entry now x r i ?e)"
  proof (cases "map_of (rc_new x) i")
    case None
    with change_ok_lookup [OF x(1), of i] have n: "new_count x i = 0" by simp
    from reconcile_entry_removed [OF sp1 sp2 sp3 sp4, of now]
    show ?thesis
      using None n by (intro entry_sound_store [OF cok]) (simp_all add: reconcile_entry_def)
  next
    case (Some m)
    with change_ok_lookup [OF x(1), of i] have n: "new_count x i > 0" by auto
    from reconcile_entry_kept [OF sp1 sp2 sp3 others_le n Some merged_alone [OF cok], of now]
    show ?thesis
      using Some by (intro entry_sound_store [OF cok]) simp_all
  qed
qed

subsection \<open>Unregistering keeps the invariant\<close>

lemma unregister_entry_n:
  assumes "shape (A + k) (bump (case p of None \<Rightarrow> [] | Some q \<Rightarrow> q) k B) e" "p \<noteq> None \<longrightarrow> the p \<noteq> []"
  shows "(unregister_entry r c i p now ^^ k) e = (remove_entry r c i (case p of None \<Rightarrow> [] | Some q \<Rightarrow> q) now ^^ k) e"
  using assms(1)
proof (induction k arbitrary: A B)
  case (Suc k)
  let ?q = "case p of None \<Rightarrow> [] | Some q \<Rightarrow> q"
  have s: "shape (Suc A + k) (bump ?q k (bump ?q 1 B)) e"
    using Suc.prems by (simp add: add.commute)
  from unregister_entry_eq [OF shape_remove_n [OF s] assms(2)] show ?case
    by (simp add: Suc.IH [OF s])
qed simp

definition forget_client :: "string \<Rightarrow> model_registry \<Rightarrow> model_registry" where
  "forget_client c r =
     r\<lparr>gr_client_models := AList.delete c (gr_client_models r), gr_client_infos := AList.delete c (gr_client_infos r),
       gr_client_providers := AList.delete c (gr_client_providers r)\<rparr>"

lemma forget_tables [simp]:
  "infos_at (forget_client c r) d = (if d = c then [] else infos_at r d)"
  "string_at (gr_client_providers (forget_client c r)) d = (if d = c then [] else string_at (gr_client_providers r) d)"
  "gr_models (forget_client c r) = gr_models r"
  by (simp_all add: forget_client_def infos_at_def string_at_delete)

lemma clients_ok_forget:
  assumes ok: "clients_ok r"
  shows "clients_ok (forget_client c r)"
  unfolding clients_ok_def forget_tables
proof (intro conjI allI impI)
  let ?s = "forget_client c r"
  have m: "map_of (gr_client_models ?s) d = (if d = c then None else map_of (gr_client_models r) d)"
    and i: "map_of (gr_client_infos ?s) d = (if d = c then None else map_of (gr_client_infos r) d)" for d
    by (simp_all add: forget_client_def)
  show "distinct (map fst (gr_client_models ?s))" "distinct (map fst (gr_client_infos ?s))"
    "distinct (map fst (gr_client_providers ?s))"
    using clients_okD(1-3) [OF ok] by (simp_all add: forget_client_def distinct_delete)
  show "map_of (gr_client_models ?s) [] = None"
    using clients_okD(4) [OF ok] by (simp add: m)
  show "map_of (gr_client_models ?s) d = None \<longleftrightarrow> map_of (gr_client_infos ?s) d = None" for d
    using clients_okD(5) [OF ok, of d] by (simp add: m i)
  fix d ms assume "map_of (gr_client_models ?s) d = Some ms"
  then have d: "d \<noteq> c" "map_of (gr_client_models r) d = Some ms"
    by (simp_all add: m split: if_splits)
  show "ms \<noteq> []" "[] \<notin> set ms"
    using clients_okD(6) [OF ok d(2)] by auto
  show "set ms = fst ` set (if d = c then [] else infos_at r d)"
    using d clients_okD(7) [OF ok d(2)] by simp
  show "distinct (map fst (if d = c then [] else infos_at r d))"
    using d clients_okD(8) [OF ok d(2)] by simp
next
  fix d p assume "map_of (gr_client_providers (forget_client c r)) d = Some p"
  then show "p \<noteq> []" "map_of (gr_client_models (forget_client c r)) d \<noteq> None"
    using clients_okD(9) [OF ok, of d p] by (auto simp: forget_client_def split: if_splits)
qed

lemma entry_sound_forget:
  assumes ok: "clients_ok r"
    and s: "shape (others_count r c i) (others_provider r c i) e" and t: "tidy e"
    and v: "views (\<lambda>w. w = merged_web_search r i [] c None) (\<lambda>q w. q = [] \<or> w = merged_web_search r i q c None) e"
  shows "entry_sound (forget_client c r) i e"
proof -
  have o: "offer_count (forget_client c r) i = others_count r c i"
    by (simp add: offer_count_def others_count_def forget_client_def)
  have "(\<lambda>(d, ms). if string_at (gr_client_providers (forget_client c r)) d = p then count_list ms i else 0) dm
      = (\<lambda>(d, ms). if string_at (gr_client_providers r) d = p then count_list ms i else 0) dm"
    if "dm \<in> set (AList.delete c (gr_client_models r))" for dm p
    using that by (auto simp: AList.delete_eq)
  then have p: "provider_count (forget_client c r) i = others_provider r c i"
    by (auto simp: provider_count_def others_provider_def forget_client_def fun_eq_iff
        intro!: arg_cong [of _ _ sum_list] map_cong)
  have "declared (forget_client c r) (\<lambda>d. d \<noteq> c) i q = declared r (\<lambda>d. d \<noteq> c) i q" for q
    by (auto simp: declared_def)
  then have "declared (forget_client c r) (\<lambda>_. True) i q = declared r (\<lambda>d. d \<noteq> c) i q" for q
    by (subst declared_split [of _ _ _ c]) (simp add: own_word_def)
  with v have "views (\<lambda>w. w = strongest (declared (forget_client c r) (\<lambda>_. True) i []))
      (\<lambda>q w. q = [] \<or> w = strongest (declared (forget_client c r) (\<lambda>_. True) i q)) e"
    by (simp add: clients_ok_merged [OF ok])
  with s t show ?thesis by (simp add: entry_sound_def o p)
qed

lemma forget_client_absent:
  assumes "clients_ok r" "map_of (gr_client_models r) c = None"
  shows "forget_client c r = r"
proof -
  have "map_of (gr_client_infos r) c = None" "map_of (gr_client_providers r) c = None"
    using assms clients_okD(5,9) [OF assms(1), of c] by (auto, metis option.exhaust)
  with assms(2) show ?thesis
    by (simp add: forget_client_def delete_id map_of_eq_None_iff)
qed

lemma unregister_internal_eq:
  "unregister_client_internal now c r =
     (let p = map_of (gr_client_providers r) c in
      case map_of (gr_client_models r) c of
        None \<Rightarrow> r\<lparr>gr_client_providers := AList.delete c (gr_client_providers r)\<rparr>
      | Some models \<Rightarrow>
          forget_client c (bump_epoch c (fold (\<lambda>i r. at_model i (unregister_entry r c i p now) r) models r)))"
  unfolding unregister_client_internal_def forget_client_def Let_def by (rule refl)

lemma acts_unregister:
  "acts r (fold (\<lambda>i r. at_model i (unregister_entry r c i p now) r) models r)
     (\<lambda>j. unregister_entry r c j p now ^^ count_list models j)"
proof -
  have "acts r (fold (\<lambda>i r. at_model i (unregister_entry r c i p now) r) models r)
      (\<lambda>j. fold (\<lambda>i. if j = i then unregister_entry r c i p now else id) models)"
  proof (rule acts_fold)
    fix i s assume "only_models r s"
    then show "acts s (at_model i (unregister_entry s c i p now) s) (\<lambda>j. if j = i then unregister_entry r c i p now else id)"
      using acts_at_model by (simp add: entries_only_models)
  qed
  then show ?thesis by (simp add: fold_at_count)
qed

lemma unregister_internal_ok:
  assumes ok: "registry_ok r"
  shows "registry_ok (unregister_client_internal now c r)"
    and "forget_client c (unregister_client_internal now c r) = unregister_client_internal now c r"
proof -
  let ?p = "map_of (gr_client_providers r) c"
  have cok: "clients_ok r" using ok by (simp add: registry_ok_def)
  have "registry_ok (unregister_client_internal now c r)
      \<and> forget_client c (unregister_client_internal now c r) = unregister_client_internal now c r"
  proof (cases "map_of (gr_client_models r) c")
    case None
    with clients_okD(9) [OF cok, of c] have "?p = None" by (cases ?p) auto
    then have "AList.delete c (gr_client_providers r) = gr_client_providers r"
      by (simp add: delete_id map_of_eq_None_iff)
    with None have "unregister_client_internal now c r = r"
      by (simp add: unregister_internal_eq)
    then show ?thesis using ok forget_client_absent [OF cok None] by simp
  next
    case (Some models)
    let ?s = "fold (\<lambda>i r. at_model i (unregister_entry r c i ?p now) r) models r"
    let ?q = "string_at (gr_client_providers r) c"
    note a = acts_unregister [of r c ?p now models]
    have eq: "unregister_client_internal now c r = forget_client c (bump_epoch c ?s)"
      by (simp add: unregister_internal_eq Some)
    have q: "?q = (case ?p of None \<Rightarrow> [] | Some q \<Rightarrow> q)" by (simp add: string_at_def)
    have pne: "?p \<noteq> None \<longrightarrow> the ?p \<noteq> []"
      using clients_okD(9) [OF cok, of c] by (cases ?p) auto
    have same: "same_clients (forget_client c r) (forget_client c (bump_epoch c ?s))"
      using only_same [OF acts_only [OF a]] by (simp add: same_clients_def forget_client_def bump_epoch_def)
    have e: "entry_sound (forget_client c r) i ((unregister_entry r c i ?p now ^^ count_list models i) (map_of (gr_models r) i))" for i
    proof -
      let ?e = "map_of (gr_models r) i" and ?k = "count_list models i"
      have es: "entry_sound r i ?e" using ok by (simp add: registry_ok_def)
      have cc: "client_count r c i = ?k" by (simp add: client_count_def Some)
      note sp1 = entry_sound_split(1) [OF cok es, of c, unfolded cc]
      note sp3 = entry_sound_split(3) [OF cok es, of c]
      note sp4 = entry_sound_split(4) [OF cok es, of c, unfolded cc]
      from reconcile_entry_removed [OF sp1 entry_sound_split(2) [OF cok es] sp3 sp4, of now]
      have "entry_sound (forget_client c r) i ((remove_entry r c i ?q now ^^ ?k) ?e)"
        by (intro entry_sound_forget [OF cok]) simp_all
      with unregister_entry_n [OF sp1 [unfolded q] pne, where r = r and c = c and i = i and now = now] show ?thesis
        by (simp add: q)
    qed
    from ok a have d: "distinct (map fst (gr_models ?s))" by (simp add: acts_def registry_ok_def)
    have "registry_ok (forget_client c (bump_epoch c ?s))"
      using clients_ok_forget [OF cok, of c] d e a
      by (simp add: registry_ok_def same_clients_spec [OF same] acts_def)
    moreover have "forget_client c (forget_client c t) = forget_client c t" for t
      by (simp add: forget_client_def delete_idem)
    ultimately show ?thesis by (simp add: eq)
  qed
  then show "registry_ok (unregister_client_internal now c r)"
    "forget_client c (unregister_client_internal now c r) = unregister_client_internal now c r"
    by auto
qed

lemma unregister_client_ok: "registry_ok r \<Longrightarrow> registry_ok (unregister_client now c r)"
  by (simp add: unregister_client_def unregister_internal_ok)

lemma register_client_ok:
  assumes ok: "registry_ok r" and c: "c \<noteq> []"
  shows "registry_ok (register_client now c p models r)"
proof (cases "keep_first (valid_models models) = []")
  case True
  have "registry_ok (forget_client c (unregister_client_internal now c r))"
    using unregister_internal_ok [OF ok, where c = c and now = now] by simp
  then have "registry_ok (invalidate (forget_client c (unregister_client_internal now c r)))" by simp
  with True show ?thesis
    by (simp only: register_client_def forget_client_def Let_def if_P)
next
  case False
  define new where "new = keep_first (valid_models models)"
  define x where "x = \<lparr>rc_client = c, rc_provider = to_lower p, rc_old_provider = string_at (gr_client_providers r) c,
      rc_new = new, rc_raw = map fst (valid_models models),
      rc_old = (case map_of (gr_client_models r) c of None \<Rightarrow> [] | Some old \<Rightarrow> old)\<rparr>"
  note kf = keep_first_spec [of "valid_models models", folded new_def]
  have x: "change_ok x" "rc_raw x \<noteq> []" "rc_client x \<noteq> []"
  proof -
    show "change_ok x" using kf valid_models_ids [of models] by (simp add: change_ok_def x_def)
    from False kf show "rc_raw x \<noteq> []" by (auto simp: x_def new_def)
    show "rc_client x \<noteq> []" using c by (simp add: x_def)
  qed
  have okb: "registry_ok (bump_epoch c r)"
    using ok by (simp add: registry_ok_same [of r "bump_epoch c r"])
  have tables: "gr_client_models (bump_epoch c r) = gr_client_models r" "gr_client_providers (bump_epoch c r) = gr_client_providers r"
    by (simp_all add: bump_epoch_def)
  show ?thesis
  proof (cases "map_of (gr_client_models r) c")
    case None
    then have "register_client now c p models r = invalidate (store_client x
        (fold (\<lambda>i. add_model_registration i (rc_provider x) (the (map_of (rc_new x) i)) now (rc_client x)) (rc_raw x) (bump_epoch c r)))"
      using False by (simp add: register_client_def x_def new_def tables Let_def)
    with register_first_ok [OF okb x, of now] None show ?thesis
      by (simp add: tables x_def)
  next
    case (Some old)
    then have "register_client now c p models r = invalidate (store_client x (reconcile_models now x (bump_epoch c r)))"
      using False by (simp add: register_client_def x_def new_def tables Let_def)
    with reconcile_ok [OF okb x, of now] Some show ?thesis
      by (simp add: tables x_def)
  qed
qed

end
