(* ===== verification/Registry_Runs.thy ===== *)
theory Registry_Runs
  imports Registry_Invariant Model_Queries
begin

text \<open>
  The remaining operations of the registry keep the invariant (marks, projections, capabilities, the
  clean-up), and so do all runs that interleave them. Epochs fence what was decided before a client
  was registered again.
\<close>

section \<open>Operations that edit marks\<close>

definition same_offer :: "model_registration \<Rightarrow> model_registration \<Rightarrow> bool" where
  "same_offer g h \<longleftrightarrow> mr_info h = mr_info g \<and> mr_info_by_provider h = mr_info_by_provider g
     \<and> mr_count h = mr_count g \<and> mr_providers h = mr_providers g"

lemma same_offer_refl [simp]: "same_offer g g"
  by (simp add: same_offer_def)

lemma same_offer_sound:
  "same_offer g h \<Longrightarrow> entry_sound r i (Some g) \<Longrightarrow> tidy (Some h) \<Longrightarrow> entry_sound r i (Some h)"
  by (simp add: same_offer_def entry_sound_def shape_def views_def)

lemma entry_sound_tidy: "entry_sound r i (Some g) \<Longrightarrow> tidy (Some g)"
  by (simp add: entry_sound_def)

lemma at_model_ok:
  assumes ok: "registry_ok r" and e: "entry_sound r i (f (map_of (gr_models r) i))"
  shows "registry_ok (at_model i f r)"
proof -
  note a = acts_at_model [of r i f]
  note same = only_same [OF acts_only [OF a]]
  from ok e a show ?thesis
    by (simp add: registry_ok_def same_clients_spec [OF same] acts_def)
qed

lemma mark_ok:
  assumes "registry_ok r" "map_of (gr_models r) i = Some g" "same_offer g h" "tidy (Some g) \<Longrightarrow> tidy (Some h)"
  shows "registry_ok (at_model i (\<lambda>_. Some h) r)"
proof -
  from assms(1,2) have "entry_sound r i (Some g)" by (metis registry_ok_def)
  with assms(3,4) have "entry_sound r i (Some h)" by (blast intro: same_offer_sound entry_sound_tidy)
  with assms(1) show ?thesis by (rule at_model_ok)
qed

lemma tidy_marks:
  "tidy (Some g) \<Longrightarrow> tidy (Some (g\<lparr>mr_quota := AList.update c t (mr_quota g)\<rparr>))"
  "tidy (Some g) \<Longrightarrow> tidy (Some (g\<lparr>mr_quota := AList.delete c (mr_quota g)\<rparr>))"
  "tidy (Some g) \<Longrightarrow> tidy (Some (g\<lparr>mr_suspended := AList.update c s (mr_suspended g)\<rparr>))"
  "tidy (Some g) \<Longrightarrow> tidy (Some (g\<lparr>mr_suspended := AList.delete c (mr_suspended g)\<rparr>))"
  "tidy (Some (g\<lparr>mr_last_updated := t\<rparr>)) \<longleftrightarrow> tidy (Some g)"
  by (simp_all add: tidy_def distinct_update distinct_delete)

lemma set_quota_ok: "registry_ok r \<Longrightarrow> registry_ok (set_model_quota_exceeded now c i r)"
  by (auto simp: set_model_quota_exceeded_def same_offer_def tidy_marks intro!: mark_ok split: option.split)

lemma clear_quota_ok: "registry_ok r \<Longrightarrow> registry_ok (clear_model_quota_exceeded c i r)"
  by (auto simp: clear_model_quota_exceeded_def same_offer_def tidy_marks intro!: mark_ok split: option.split)

lemma tidy_stamped:
  "tidy (Some g) \<Longrightarrow> tidy (Some (g\<lparr>mr_suspended := AList.update c s (mr_suspended g), mr_last_updated := t\<rparr>))"
  "tidy (Some g) \<Longrightarrow> tidy (Some (g\<lparr>mr_suspended := AList.delete c (mr_suspended g), mr_last_updated := t\<rparr>))"
  "tidy (Some g) \<Longrightarrow> tidy (Some (g\<lparr>mr_quota := AList.update c u (mr_quota g), mr_last_updated := t\<rparr>))"
  "tidy (Some g) \<Longrightarrow> tidy (Some (g\<lparr>mr_quota := AList.delete c (mr_quota g), mr_last_updated := t\<rparr>))"
  by (simp_all add: tidy_def distinct_update distinct_delete)

lemma suspend_ok: "registry_ok r \<Longrightarrow> registry_ok (suspend_client_model now c i reason r)"
  by (auto simp: suspend_client_model_def same_offer_def tidy_stamped intro!: mark_ok split: option.split)

lemma resume_ok: "registry_ok r \<Longrightarrow> registry_ok (resume_client_model now c i r)"
  by (auto simp: resume_client_model_def same_offer_def tidy_stamped intro!: mark_ok split: option.split)

lemma project_offer:
  "same_offer g (snd (project_suspended now c pj g))" "same_offer g (snd (project_quota now c pj g))"
  "tidy (Some g) \<Longrightarrow> tidy (Some (snd (project_suspended now c pj g)))"
  "tidy (Some g) \<Longrightarrow> tidy (Some (snd (project_quota now c pj g)))"
  by (auto simp: project_suspended_def project_quota_def same_offer_def tidy_stamped)

lemma project_step_cases:
  obtains "project_step now c owned pj (b, r) = (b, r)"
  | g where "trim_space (pj_model pj) \<in> set owned" "map_of (gr_models r) (trim_space (pj_model pj)) = Some g"
      "project_step now c owned pj (b, r) =
         (b \<or> fst (project_suspended now c pj g)
            \<or> fst (project_quota now c pj (snd (project_suspended now c pj g))),
          at_model (trim_space (pj_model pj))
            (\<lambda>_. Some (snd (project_quota now c pj (snd (project_suspended now c pj g))))) r)"
proof (cases "trim_space (pj_model pj) \<noteq> [] \<and> trim_space (pj_model pj) \<in> set owned")
  case False
  then show ?thesis by (intro that(1)) (auto simp: project_step_def Let_def)
next
  case True
  show ?thesis
  proof (cases "map_of (gr_models r) (trim_space (pj_model pj))")
    case None
    then show ?thesis by (intro that(1)) (simp add: project_step_def Let_def)
  next
    case (Some g)
    with True show ?thesis by (intro that(2)) (simp_all add: project_step_def Let_def case_prod_beta)
  qed
qed

lemma project_step_ok:
  assumes "registry_ok r"
  shows "registry_ok (snd (project_step now c owned pj (b, r)))"
proof (cases rule: project_step_cases [of now c owned pj b r])
  case (2 g)
  have "same_offer g (snd (project_quota now c pj (snd (project_suspended now c pj g))))"
    using project_offer(1,2) by (auto simp: same_offer_def)
  with 2 show ?thesis
    using mark_ok [OF assms 2(2)] project_offer(3,4) by auto
qed (use assms in simp)

lemma project_fold_ok:
  "registry_ok (snd s) \<Longrightarrow> registry_ok (snd (fold (project_step now c owned) pjs s))"
proof (induction pjs arbitrary: s)
  case (Cons pj pjs)
  then have "registry_ok (snd (project_step now c owned pj s))"
    using project_step_ok [of "snd s" now c owned pj "fst s"] by simp
  from Cons.IH [OF this] show ?case by simp
qed simp

lemma projections_ok: "registry_ok r \<Longrightarrow> registry_ok (snd (apply_client_model_projections now c epoch gen pjs r))"
proof -
  assume ok: "registry_ok r"
  let ?r = "r\<lparr>gr_generations := AList.update (trim_space c) gen (gr_generations r)\<rparr>"
  have "registry_ok ?r"
    using ok registry_ok_same [of r ?r] by (simp add: same_clients_def)
  then have "registry_ok (snd (fold (project_step now (trim_space c) owned) pjs (False, ?r)))" for owned
    by (intro project_fold_ok) simp
  with ok show ?thesis
    by (auto simp: apply_client_model_projections_def Let_def split: option.split prod.split) (metis snd_conv)+
qed

section \<open>Capabilities\<close>

lemma capability_step_ok:
  assumes ok: "registry_ok r" and i: "i \<in> fst ` set (infos_at r c)" and c: "c \<noteq> []"
  shows "registry_ok (capability_step c f (i, m) r)"
    and "fst ` set (infos_at (capability_step c f (i, m) r) c) = fst ` set (infos_at r c)"
proof -
  define infos where "infos = AList.update i (f i m) (infos_at r c)"
  define s where "s = r\<lparr>gr_client_infos := AList.update c infos (gr_client_infos r)\<rparr>"
  let ?p = "string_at (gr_client_providers r) c"
  have cok: "clients_ok r" using ok by (simp add: registry_ok_def)
  have eq: "capability_step c f (i, m) r = at_model i (capability_entry s i ?p) s"
    by (simp add: capability_step_def s_def infos_def Let_def)
  have infos: "infos_at s d = (if d = c then infos else infos_at r d)" for d
    by (simp add: s_def infos_at_def)
  have keys: "fst ` set infos = fst ` set (infos_at r c)"
    using i by (auto simp only: infos_def AList.dom_update)
  have reg: "map_of (gr_client_infos r) c \<noteq> None" "map_of (gr_client_models r) c \<noteq> None"
    using i clients_okD(5) [OF cok, of c] by (auto simp: infos_at_def split: option.splits)
  have same: "gr_client_models s = gr_client_models r" "gr_client_providers s = gr_client_providers r" "gr_models s = gr_models r"
    by (simp_all add: s_def)
  have sok: "clients_ok s"
    unfolding clients_ok_def infos same
  proof (intro conjI allI impI)
    show "distinct (map fst (gr_client_infos s))"
      using clients_okD(2) [OF cok] by (simp add: s_def distinct_update)
    show "map_of (gr_client_models r) d = None \<longleftrightarrow> map_of (gr_client_infos s) d = None" for d
      using clients_okD(5) [OF cok, of d] reg by (auto simp: s_def)
    fix d ms assume ms: "map_of (gr_client_models r) d = Some ms"
    show "ms \<noteq> []" "[] \<notin> set ms" using clients_okD(6) [OF cok ms] by auto
    show "set ms = fst ` set (if d = c then infos else infos_at r d)"
      using clients_okD(7) [OF cok ms] keys by auto
    show "distinct (map fst (if d = c then infos else infos_at r d))"
      using clients_okD(8) [OF cok ms] by (auto simp: infos_def distinct_update)
  next
    fix d p assume "map_of (gr_client_providers r) d = Some p"
    then show "p \<noteq> []" "map_of (gr_client_models r) d \<noteq> None" using clients_okD(9) [OF cok] by auto
  qed (use clients_okD [OF cok] in auto)
  have counts: "offer_count s j = offer_count r j" "provider_count s j = provider_count r j" for j
    by (auto simp: offer_count_def provider_count_def same fun_eq_iff)
  have other: "declared s (\<lambda>_. True) j q = declared r (\<lambda>_. True) j q" if "j \<noteq> i \<or> q \<noteq> [] \<and> q \<noteq> ?p" for j q
  proof -
    have "map_of (infos_at s d) j = map_of (infos_at r d) j"
      if "q \<noteq> [] \<longrightarrow> string_at (gr_client_providers r) d = q" for d
      using that \<open>j \<noteq> i \<or> q \<noteq> [] \<and> q \<noteq> ?p\<close> by (auto simp: infos infos_def)
    then show ?thesis unfolding declared_def same by (auto; metis)
  qed
  have none: "infos_at s [] = []"
    using clients_okD(4) [OF sok] clients_okD(5) [OF sok, of "[]"] by (simp add: infos_at_def)
  have "declared s (\<lambda>d. d \<noteq> []) j q = declared s (\<lambda>_. True) j q" for j q
    using declared_split [of s j q "[]"] by (simp add: own_word_def none)
  then have merged: "merged_web_search s j q [] None = strongest (declared s (\<lambda>_. True) j q)" for j q
    by (simp add: clients_ok_merged [OF sok])
  let ?e = "map_of (gr_models r) i"
  have es: "entry_sound r j (map_of (gr_models r) j)" for j using ok by (simp add: registry_ok_def)
  have e: "entry_sound s i (capability_entry s i ?p ?e)"
  proof -
    have "shape (offer_count r i) (provider_count r i) (capability_entry s i ?p ?e)"
      using es [of i] by (auto simp: entry_sound_def shape_def capability_entry_def Let_def split: option.splits)
    moreover have "tidy (capability_entry s i ?p ?e)"
      using es [of i] by (auto simp: entry_sound_def)
    moreover have "views (\<lambda>w. w = merged_web_search s i [] [] None)
        (\<lambda>q w. q = [] \<or> w = (if q = ?p then merged_web_search s i q [] None else strongest (declared r (\<lambda>_. True) i q)))
        (capability_entry s i ?p ?e)"
      using es [of i] by (auto simp: entry_sound_def views_def capability_entry_def Let_def split: option.splits)
    then have "views (\<lambda>w. w = strongest (declared s (\<lambda>_. True) i []))
        (\<lambda>q w. q = [] \<or> w = strongest (declared s (\<lambda>_. True) i q)) (capability_entry s i ?p ?e)"
      by (rule views_mono) (auto simp: merged split: if_splits, metis other)
    ultimately show ?thesis by (simp add: entry_sound_def counts)
  qed
  have js: "entry_sound s j (map_of (gr_models r) j)" if "j \<noteq> i" for j
    using es [of j] that by (simp add: entry_sound_def counts other)
  note a = acts_at_model [of s i "capability_entry s i ?p"]
  note sa = same_clients_spec [OF only_same [OF acts_only [OF a]]]
  show "registry_ok (capability_step c f (i, m) r)"
    unfolding eq using a ok e js sok by (simp add: registry_ok_def sa acts_def same)
  show "fst ` set (infos_at (capability_step c f (i, m) r) c) = fst ` set (infos_at r c)"
    unfolding eq by (simp add: sa infos keys)
qed

lemma capability_fold_ok:
  assumes "registry_ok r" "fst ` set ims \<subseteq> fst ` set (infos_at r c)" "c \<noteq> []"
  shows "registry_ok (fold (capability_step c f) ims r)"
  using assms(1,2)
proof (induction ims arbitrary: r)
  case (Cons im ims)
  obtain i m where im: "im = (i, m)" by (cases im)
  note step = capability_step_ok [OF Cons.prems(1) _ assms(3), of i f m]
  have "i \<in> fst ` set (infos_at r c)" using Cons.prems(2) by (simp add: im)
  from Cons.IH [OF step(1) [OF this]] step(2) [OF this] Cons.prems(2) show ?case by (simp add: im)
qed simp

lemma capabilities_ok: "registry_ok r \<Longrightarrow> registry_ok (snd (apply_client_model_capabilities c expected mutate r))"
  by (auto simp: apply_client_model_capabilities_def Let_def intro!: capability_fold_ok split: option.split)

section \<open>The clean-up\<close>

lemma cleanup_ok:
  assumes ok: "registry_ok r"
  shows "registry_ok (cleanup_expired_quotas now r)"
proof -
  define keep :: "model_registration \<Rightarrow> model_registration" where "keep = (\<lambda>g. g\<lparr>mr_quota := filter (\<lambda>e. \<not> (case e of (c, t) \<Rightarrow> time_sub now t \<ge> modelQuotaExceededWindow)) (mr_quota g)\<rparr>)"
  let ?s = "r\<lparr>gr_models := map (apsnd keep) (gr_models r)\<rparr>"
  have m: "map_of (map (apsnd keep) al) i = map_option keep (map_of al i)" for al :: "(string \<times> model_registration) list" and i
    by (induction al) auto
  have k: "map fst (map (apsnd keep) al) = map fst al" for al :: "(string \<times> model_registration) list"
    by (induction al) auto
  have "entry_sound r i (map_option keep e)" if "entry_sound r i e" for i e
  proof (cases e)
    case (Some g)
    have k: "same_offer g (keep g)" by (simp add: same_offer_def keep_def)
    have t: "tidy (Some g) \<Longrightarrow> tidy (Some (keep g))"
      by (auto simp: tidy_def keep_def intro: distinct_map_filter)
    from that Some have "entry_sound r i (Some (keep g))"
      by (auto intro: same_offer_sound [OF k] t entry_sound_tidy)
    with Some show ?thesis by simp
  qed (use that in simp)
  with ok have "registry_ok ?s"
    by (simp add: registry_ok_def same_clients_spec [of r ?s] same_clients_def m k del: map_map)
  with ok show ?thesis
    by (simp add: cleanup_expired_quotas_def keep_def Let_def)
qed

section \<open>Runs\<close>

datatype registry_op =
    OpRegister string string "model_meta option list"
  | OpRegisterIf string string "64 word" "model_meta option list" "bool option"
  | OpUnregister string
  | OpUnregisterIf string "64 word" "bool option"
  | OpSetQuota string string
  | OpClearQuota string string
  | OpSuspend string string string
  | OpResume string string
  | OpProject string "64 word" "64 word" "model_projection list"
  | OpCapabilities string "64 word" "(string \<Rightarrow> model_meta \<Rightarrow> model_meta) option"
  | OpCleanup
  | OpList string

fun apply_op :: "instant \<Rightarrow> registry_op \<Rightarrow> model_registry \<Rightarrow> model_registry" where
  "apply_op now (OpRegister c p ms) r = register_client now c p ms r"
| "apply_op now (OpRegisterIf c p epoch ms publish) r = snd (register_if_current now c p epoch ms publish r)"
| "apply_op now (OpUnregister c) r = unregister_client now c r"
| "apply_op now (OpUnregisterIf c epoch publish) r = snd (unregister_if_current now c epoch publish r)"
| "apply_op now (OpSetQuota c i) r = set_model_quota_exceeded now c i r"
| "apply_op now (OpClearQuota c i) r = clear_model_quota_exceeded c i r"
| "apply_op now (OpSuspend c i reason) r = suspend_client_model now c i reason r"
| "apply_op now (OpResume c i) r = resume_client_model now c i r"
| "apply_op now (OpProject c epoch gen pjs) r = snd (apply_client_model_projections now c epoch gen pjs r)"
| "apply_op now (OpCapabilities c epoch f) r = snd (apply_client_model_capabilities c epoch f r)"
| "apply_op now OpCleanup r = cleanup_expired_quotas now r"
| "apply_op now (OpList handler) r = snd (get_available_models now handler r)"

text \<open>A client has an identifier.\<close>

fun names_client :: "registry_op \<Rightarrow> bool" where
  "names_client (OpRegister c p ms) \<longleftrightarrow> c \<noteq> []"
| "names_client (OpRegisterIf c p epoch ms publish) \<longleftrightarrow> c \<noteq> []"
| "names_client _ \<longleftrightarrow> True"

text \<open>A state is the time of the last operation and the registry; the clock does not go back.\<close>

inductive registry_step :: "instant \<times> model_registry \<Rightarrow> instant \<times> registry_op \<Rightarrow> instant \<times> model_registry \<Rightarrow> bool" where
  registry_stepI: "clock \<le> now \<Longrightarrow> names_client op \<Longrightarrow> registry_step (clock, r) (now, op) (now, apply_op now op r)"

inductive_simps registry_step_iff: "registry_step s l t"

lemma get_available_tables:
  "same_clients r (snd (get_available_models now handler r)) \<and> gr_models (snd (get_available_models now handler r)) = gr_models r
     \<and> gr_epochs (snd (get_available_models now handler r)) = gr_epochs r"
  by (auto simp: get_available_models_def same_clients_def split: option.split prod.split)

lemma apply_op_ok:
  assumes "registry_ok r" "names_client op"
  shows "registry_ok (apply_op now op r)"
proof (cases op)
  case (OpList handler)
  with assms(1) get_available_tables [of r now handler] show ?thesis
    by (simp add: registry_ok_same [of r])
qed (use assms in \<open>auto simp: register_if_current_def unregister_if_current_def register_client_ok unregister_client_ok
      unregister_internal_ok set_quota_ok clear_quota_ok suspend_ok resume_ok projections_ok capabilities_ok cleanup_ok\<close>)

interpretation reg_sound: invariant_system registry_step "\<lambda>s. registry_ok (snd s)"
  by unfold_locales (auto simp: registry_step_iff apply_op_ok)

lemma registry_reachable_ok: "run_of registry_step (t0, new_model_registry) ls (t, r) \<Longrightarrow> registry_ok r"
  using reg_sound.inv_run [of "(t0, new_model_registry)" ls "(t, r)"] by simp

section \<open>The cached listing\<close>

definition live_quota_count :: "instant \<Rightarrow> (string \<times> instant) list \<Rightarrow> int" where
  "live_quota_count now quota = int (length (filter (\<lambda>ct. quota_live now (snd ct)) quota))"

definition is_available :: "instant \<Rightarrow> model_registration \<Rightarrow> bool" where
  "is_available now g \<longleftrightarrow>
     is_listed (mr_count g) (live_quota_count now (mr_quota g))
       (fold (suspension_step now (mr_quota g)) (mr_suspended g) no_suspensions)"

text \<open>The deadline \<open>ex\<close> comes no later than the recovery of a live quota.\<close>

definition covers :: "instant \<Rightarrow> instant \<Rightarrow> (string \<times> instant) list \<Rightarrow> bool" where
  "covers now ex quota \<longleftrightarrow>
     (\<forall>ct \<in> set quota. quota_live now (snd ct) \<longrightarrow> ex \<noteq> 0 \<and> ex \<le> snd ct + modelQuotaExceededWindow)"

definition tightens :: "instant \<Rightarrow> instant \<Rightarrow> instant \<Rightarrow> bool" where
  "tightens now ex ex' \<longleftrightarrow> (ex' = 0 \<or> now < ex') \<and> (ex \<noteq> 0 \<longrightarrow> ex' \<noteq> 0 \<and> ex' \<le> ex)"

lemma tightens_covers: "covers now ex quota \<Longrightarrow> tightens now ex ex' \<Longrightarrow> covers now ex' quota"
  by (fastforce simp: covers_def tightens_def)

lemma tightens_trans: "tightens now a b \<Longrightarrow> tightens now b c \<Longrightarrow> tightens now a c"
  by (auto simp: tightens_def)

lemma recovery_fold:
  assumes "0 \<le> now" "ex = 0 \<or> now < ex"
  shows "fst (fold (recovery_step now) quota (n, ex)) = n + live_quota_count now quota
     \<and> tightens now ex (snd (fold (recovery_step now) quota (n, ex)))
     \<and> covers now (snd (fold (recovery_step now) quota (n, ex))) quota"
  using assms(2)
proof (induction quota arbitrary: n ex)
  case Nil
  then show ?case by (simp add: live_quota_count_def tightens_def covers_def)
next
  case (Cons ct quota)
  obtain m ex1 where st: "recovery_step now ct (n, ex) = (m, ex1)" by fastforce
  then have m: "m = n + live_quota_count now [ct]" and ti: "tightens now ex ex1" and co: "covers now ex1 [ct]"
    using assms(1) Cons.prems
    by (auto simp: recovery_step_def live_quota_count_def quota_live_def tightens_def covers_def Let_def split: if_splits)
  from ti have ex1: "ex1 = 0 \<or> now < ex1" by (simp add: tightens_def)
  note IH = Cons.IH [OF ex1, of m]
  have "covers now (snd (fold (recovery_step now) quota (m, ex1))) [ct]"
    using IH co by (blast intro: tightens_covers)
  with IH have "covers now (snd (fold (recovery_step now) quota (m, ex1))) (ct # quota)"
    by (simp add: covers_def)
  with IH ti m show ?case
    by (auto simp: st live_quota_count_def intro: tightens_trans)
qed

lemma list_fold:
  assumes "0 \<le> now" "ex = 0 \<or> now < ex"
  shows "fst (fold (list_step handler now) regs (ms, ex)) =
           ms @ map (\<lambda>ig. convert_model_to_map (mr_info (snd ig)) handler) (filter (\<lambda>ig. is_available now (snd ig)) regs)
     \<and> tightens now ex (snd (fold (list_step handler now) regs (ms, ex)))
     \<and> (\<forall>ig \<in> set regs. covers now (snd (fold (list_step handler now) regs (ms, ex))) (mr_quota (snd ig)))"
  using assms(2)
proof (induction regs arbitrary: ms ex)
  case Nil
  then show ?case by (simp add: tightens_def)
next
  case (Cons ig regs)
  obtain n ex1 where f: "fold (recovery_step now) (mr_quota (snd ig)) (0, ex) = (n, ex1)" by fastforce
  with recovery_fold [OF assms(1) Cons.prems, of "mr_quota (snd ig)" 0]
  have n: "n = live_quota_count now (mr_quota (snd ig))" and ti: "tightens now ex ex1" and co: "covers now ex1 (mr_quota (snd ig))"
    by simp_all
  from ti have ex1: "ex1 = 0 \<or> now < ex1" by (simp add: tightens_def)
  define ms1 where "ms1 = (if is_available now (snd ig) then ms @ [convert_model_to_map (mr_info (snd ig)) handler] else ms)"
  have st: "list_step handler now ig (ms, ex) = (ms1, ex1)"
    by (simp add: list_step_def f ms1_def is_available_def n)
  note IH = Cons.IH [OF ex1, of ms1]
  have "covers now (snd (fold (list_step handler now) regs (ms1, ex1))) (mr_quota (snd ig))"
    using IH co by (blast intro: tightens_covers)
  with IH ti show ?case
    by (auto simp: st ms1_def intro: tightens_trans)
qed

lemma build_models:
  assumes "0 \<le> now"
  shows "fst (build_available_models handler now r) =
     map (\<lambda>ig. convert_model_to_map (mr_info (snd ig)) handler) (filter (\<lambda>ig. is_available now (snd ig)) (gr_models r))"
  using list_fold [OF assms, of 0] by (simp add: build_available_models_def)

lemma build_stable:
  assumes now: "0 \<le> now" "now \<le> later"
    and ex: "snd (build_available_models handler now r) = 0 \<or> later < snd (build_available_models handler now r)"
  shows "fst (build_available_models handler later r) = fst (build_available_models handler now r)"
proof -
  let ?ex = "snd (build_available_models handler now r)"
  have co: "covers now ?ex (mr_quota (snd ig))" if "ig \<in> set (gr_models r)" for ig
    using list_fold [OF now(1), of 0 handler "gr_models r" "[]"] that by (simp add: build_available_models_def)
  have live: "quota_live later (snd ct) \<longleftrightarrow> quota_live now (snd ct)"
    if "ig \<in> set (gr_models r)" "ct \<in> set (mr_quota (snd ig))" for ig ct
    using co [OF that(1)] that(2) ex now(2) by (force simp: covers_def quota_live_def)
  have "is_available later (snd ig) \<longleftrightarrow> is_available now (snd ig)" if ig: "ig \<in> set (gr_models r)" for ig
  proof -
    have "live_quota_count later (mr_quota (snd ig)) = live_quota_count now (mr_quota (snd ig))"
      using live [OF ig] by (simp add: live_quota_count_def cong: filter_cong)
    moreover have "suspension_step later (mr_quota (snd ig)) = suspension_step now (mr_quota (snd ig))"
    proof (intro ext)
      fix cr s
      have "quota_live later t \<longleftrightarrow> quota_live now t" if "map_of (mr_quota (snd ig)) c = Some t" for c t
        using live [OF ig, of "(c, t)"] map_of_SomeD [OF that] by simp
      then show "suspension_step later (mr_quota (snd ig)) cr s = suspension_step now (mr_quota (snd ig)) cr s"
        by (cases cr) (simp add: suspension_step_def Let_def split: option.split)
    qed
    ultimately show ?thesis by (simp add: is_available_def)
  qed
  then show ?thesis
    using now by (simp add: build_models cong: filter_cong)
qed

text \<open>An operation either empties the cache or leaves the table of models alone.\<close>

definition cache_kept :: "model_registry \<Rightarrow> model_registry \<Rightarrow> bool" where
  "cache_kept r s \<longleftrightarrow> gr_cache s = [] \<or> gr_cache s = gr_cache r \<and> gr_models s = gr_models r"

lemma cache_kept_invalidate [simp]: "cache_kept r (invalidate s)"
  by (simp add: cache_kept_def invalidate_def)

lemma cache_kept_refl [simp]: "cache_kept r r"
  by (simp add: cache_kept_def)

lemma update_same: "map_of al k = Some v \<Longrightarrow> AList.update k v al = al"
  by (induction al) auto

lemma at_model_same: "map_of (gr_models r) i = Some g \<Longrightarrow> at_model i (\<lambda>_. Some g) r = r"
  by (simp add: at_model_def update_same)

lemma project_unchanged:
  "\<not> fst (project_suspended now c pj g) \<Longrightarrow> snd (project_suspended now c pj g) = g"
  "\<not> fst (project_quota now c pj g) \<Longrightarrow> snd (project_quota now c pj g) = g"
  by (auto simp: project_suspended_def project_quota_def split: if_splits)

lemma project_fold_unchanged:
  "\<not> fst (fold (project_step now c owned) pjs (b, r)) \<Longrightarrow> snd (fold (project_step now c owned) pjs (b, r)) = r \<and> \<not> b"
proof (induction pjs arbitrary: b r)
  case (Cons pj pjs)
  obtain b1 r1 where s: "project_step now c owned pj (b, r) = (b1, r1)" by fastforce
  have "\<not> fst (fold (project_step now c owned) pjs (b1, r1))" using Cons.prems by (simp add: s)
  from Cons.IH [OF this] have IH: "snd (fold (project_step now c owned) pjs (b1, r1)) = r1" "\<not> b1" by blast+
  have "r1 = r \<and> \<not> b"
    using s IH(2) by (cases rule: project_step_cases [of now c owned pj b r]) (auto simp: project_unchanged at_model_same)
  moreover have "fold (project_step now c owned) (pj # pjs) (b, r) = fold (project_step now c owned) pjs (b1, r1)"
    by (simp add: s)
  ultimately show ?case using IH(1) by simp
qed simp

lemma projections_kept: "cache_kept r (snd (apply_client_model_projections now c epoch gen pjs r))"
proof -
  let ?c = "trim_space c"
  let ?r = "r\<lparr>gr_generations := AList.update ?c gen (gr_generations r)\<rparr>"
  have "cache_kept r s" if "fold (project_step now ?c owned) pjs (False, ?r) = (False, s)" for owned s
    using project_fold_unchanged [of now ?c owned pjs False ?r] that by (simp add: cache_kept_def)
  then show ?thesis
    by (auto simp: apply_client_model_projections_def Let_def split: option.split prod.split)
qed

lemma apply_op_kept:
  assumes "\<forall>handler. op \<noteq> OpList handler"
  shows "cache_kept r (apply_op now op r)"
proof (cases op)
  case (OpProject c epoch gen pjs)
  then show ?thesis by (simp add: projections_kept)
qed (use assms in \<open>auto simp: register_client_def unregister_client_def register_if_current_def unregister_if_current_def
      set_model_quota_exceeded_def clear_model_quota_exceeded_def suspend_client_model_def resume_client_model_def
      apply_client_model_capabilities_def cleanup_expired_quotas_def Let_def split: option.split\<close>)

definition cache_coherent :: "instant \<Rightarrow> model_registry \<Rightarrow> bool" where
  "cache_coherent clock r \<longleftrightarrow>
     (\<forall>handler ce now. map_of (gr_cache r) handler = Some ce \<longrightarrow> clock \<le> now \<longrightarrow> ce_expires ce = 0 \<or> now < ce_expires ce
        \<longrightarrow> ce_models ce = fst (build_available_models handler now r))"

lemma build_same_models: "gr_models s = gr_models r \<Longrightarrow> build_available_models handler now s = build_available_models handler now r"
  by (simp add: build_available_models_def)

lemma cache_coherent_kept: "cache_coherent clock r \<Longrightarrow> cache_kept r s \<Longrightarrow> clock \<le> now \<Longrightarrow> cache_coherent now s"
  unfolding cache_coherent_def cache_kept_def
  by (metis build_same_models map_of.simps(1) option.distinct(1) order_trans)

lemma get_available_models_fresh:
  assumes "cache_coherent clock r" "clock \<le> now"
  shows "fst (get_available_models now handler r) = fst (build_available_models handler now r)"
  using assms by (auto simp: get_available_models_def cache_coherent_def split: option.split prod.split)

lemma cache_coherent_list:
  assumes "cache_coherent clock r" "0 \<le> clock" "clock \<le> now"
  shows "cache_coherent now (snd (get_available_models now handler r))"
proof -
  define built where "built = build_available_models handler now r"
  define s where "s = r\<lparr>gr_cache := AList.update handler \<lparr>ce_models = fst built, ce_expires = snd built\<rparr> (gr_cache r)\<rparr>"
  have "snd (get_available_models now handler r) = r \<or> snd (get_available_models now handler r) = s"
    by (auto simp: get_available_models_def s_def built_def split: option.split prod.split)
  moreover have "cache_coherent now r"
    using cache_coherent_kept [OF assms(1) _ assms(3)] by simp
  moreover have "cache_coherent now s"
    unfolding cache_coherent_def
  proof (intro allI impI)
    fix h ce later
    assume ce: "map_of (gr_cache s) h = Some ce" "now \<le> later" "ce_expires ce = 0 \<or> later < ce_expires ce"
    have same: "build_available_models h later s = build_available_models h later r"
      by (rule build_same_models) (simp add: s_def)
    show "ce_models ce = fst (build_available_models h later s)"
      unfolding same
    proof (cases "h = handler")
      case True
      with ce(1) have eq: "ce = \<lparr>ce_models = fst built, ce_expires = snd built\<rparr>" by (simp add: s_def)
      have "fst (build_available_models handler later r) = fst (build_available_models handler now r)"
        by (rule build_stable) (use ce(2,3) assms(2,3) in \<open>simp_all add: eq built_def\<close>)
      then show "ce_models ce = fst (build_available_models h later r)"
        by (simp add: True eq built_def)
    next
      case False
      with ce(1) have "map_of (gr_cache r) h = Some ce" by (simp add: s_def)
      with ce(2,3) \<open>cache_coherent now r\<close> show "ce_models ce = fst (build_available_models h later r)"
        by (auto simp: cache_coherent_def)
    qed
  qed
  ultimately show ?thesis by auto
qed

lemma cache_coherent_new [simp]: "cache_coherent clock new_model_registry"
  by (simp add: cache_coherent_def new_model_registry_def)

interpretation reg_cache: invariant_system registry_step "\<lambda>s. 0 \<le> fst s \<and> cache_coherent (fst s) (snd s)"
proof
  fix s t l assume inv: "0 \<le> fst s \<and> cache_coherent (fst s) (snd s)" and step: "registry_step s l t"
  then obtain clock r now op where st: "s = (clock, r)" "l = (now, op)" "t = (now, apply_op now op r)" "clock \<le> now"
    by (auto simp: registry_step_iff)
  show "0 \<le> fst t \<and> cache_coherent (fst t) (snd t)"
  proof (cases "\<exists>handler. op = OpList handler")
    case True
    with inv st show ?thesis by (auto intro: cache_coherent_list)
  next
    case False
    with inv st cache_coherent_kept [OF _ apply_op_kept, of clock r op now] show ?thesis by auto
  qed
qed

section \<open>Epochs\<close>

lemma epochs_at_model [simp]: "gr_epochs (at_model i f r) = gr_epochs r"
  by (simp add: at_model_def split: option.split)

lemma epochs_invalidate [simp]: "gr_epochs (invalidate r) = gr_epochs r"
  by (simp add: invalidate_def)

lemma epochs_fold: "(\<And>x r. gr_epochs (f x r) = gr_epochs r) \<Longrightarrow> gr_epochs (fold f xs r) = gr_epochs r"
  by (induction xs arbitrary: r) auto

lemma epochs_funpow:
  fixes f :: "model_registry \<Rightarrow> model_registry"
  shows "(\<And>r. gr_epochs (f r) = gr_epochs r) \<Longrightarrow> gr_epochs ((f ^^ n) r) = gr_epochs r"
  by (induction n) auto

lemma epochs_registration [simp]:
  "gr_epochs (add_model_registration i p m now c r) = gr_epochs r"
  "gr_epochs (remove_model_registration c i p now r) = gr_epochs r"
  "gr_epochs (store_client x r) = gr_epochs r"
  "gr_epochs (forget_client c r) = gr_epochs r"
  by (simp_all add: add_model_registration_def remove_model_registration_def store_client_def forget_client_def Let_def)

lemma epochs_reconcile [simp]: "gr_epochs (reconcile_models now x r) = gr_epochs r"
proof -
  have "gr_epochs (move_step x i s) = gr_epochs s" "gr_epochs (removal_step now x i s) = gr_epochs s"
    "gr_epochs (overage_step now x i s) = gr_epochs s" "gr_epochs (addition_step now x im s) = gr_epochs s"
    "gr_epochs (metadata_step now x im s) = gr_epochs s" for i im s
    by (simp_all add: move_step_def removal_step_def overage_step_def addition_step_def metadata_step_def
        epochs_funpow split: prod.split)
  then show ?thesis by (simp add: reconcile_models_def Let_def epochs_fold)
qed

lemma num_at_bump: "num_at (gr_epochs (bump_epoch c r)) d = (if d = c then num_at (gr_epochs r) c + 1 else num_at (gr_epochs r) d)"
  by (simp add: bump_epoch_def num_at_def)

lemma epochs_bump_cong: "gr_epochs r = gr_epochs s \<Longrightarrow> gr_epochs (bump_epoch c r) = gr_epochs (bump_epoch c s)"
  by (simp add: bump_epoch_def)

lemma epochs_unregister:
  "gr_epochs (unregister_client_internal now c r) =
     (if map_of (gr_client_models r) c = None then gr_epochs r else gr_epochs (bump_epoch c r))"
  by (auto simp: unregister_internal_eq Let_def epochs_fold intro: epochs_bump_cong split: option.split)

lemma epochs_register:
  assumes "valid_models models \<noteq> []"
  shows "gr_epochs (register_client now c p models r) = gr_epochs (bump_epoch c r)"
proof -
  have "keep_first (valid_models models) \<noteq> []"
    using assms keep_first_spec [of "valid_models models"] by auto
  then show ?thesis
    by (simp add: register_client_def Let_def epochs_fold split: option.split)
qed

lemma epochs_register_none:
  assumes "valid_models models = []"
  shows "gr_epochs (register_client now c p models r) = gr_epochs (unregister_client_internal now c r)"
  using assms by (simp add: register_client_def Let_def keep_first_def)

lemma epochs_fold_capabilities: "gr_epochs (fold (capability_step c f) ims r) = gr_epochs r"
  by (rule epochs_fold) (simp add: capability_step_def Let_def split: prod.split)

lemma epochs_projections: "gr_epochs (snd (apply_client_model_projections now c epoch gen pjs r)) = gr_epochs r"
proof -
  have step: "gr_epochs (snd (project_step now c owned pj s)) = gr_epochs (snd s)" for c owned pj s
    by (cases s, cases rule: project_step_cases [of now c owned pj "fst s" "snd s"]) auto
  have "gr_epochs (snd (fold (project_step now c owned) pjs s)) = gr_epochs (snd s)" for c owned s
    by (induction pjs arbitrary: s) (simp_all add: step)
  then have "gr_epochs s = gr_epochs r"
    if "fold (project_step now d owned) pjs (False, r\<lparr>gr_generations := x\<rparr>) = (b, s)" for d owned x b s
    using that by (metis model_registry.select_convs(5) model_registry.surjective model_registry.update_convs(6) snd_conv)
  then show ?thesis
    by (auto simp: apply_client_model_projections_def Let_def split: option.split prod.split)
qed

lemma epochs_capabilities: "gr_epochs (snd (apply_client_model_capabilities c expected f r)) = gr_epochs r"
  by (simp add: apply_client_model_capabilities_def Let_def epochs_fold_capabilities split: option.split)

lemma epochs_marks:
  "gr_epochs (set_model_quota_exceeded now c i r) = gr_epochs r"
  "gr_epochs (clear_model_quota_exceeded c i r) = gr_epochs r"
  "gr_epochs (suspend_client_model now c i reason r) = gr_epochs r"
  "gr_epochs (resume_client_model now c i r) = gr_epochs r"
  "gr_epochs (cleanup_expired_quotas now r) = gr_epochs r"
  by (simp_all add: set_model_quota_exceeded_def clear_model_quota_exceeded_def suspend_client_model_def
      resume_client_model_def cleanup_expired_quotas_def Let_def split: option.split)

text \<open>An operation leaves the epoch of a client or raises it by one.\<close>

definition epoch_step :: "model_registry \<Rightarrow> model_registry \<Rightarrow> bool" where
  "epoch_step r s \<longleftrightarrow> gr_epochs s = gr_epochs r \<or> (\<exists>d. gr_epochs s = gr_epochs (bump_epoch d r))"

lemma epoch_step_register: "epoch_step r (register_client now c p models r)"
  by (cases "valid_models models = []")
    (auto simp: epoch_step_def epochs_register epochs_register_none epochs_unregister)

lemma epoch_step_op: "epoch_step r (apply_op now op r)"
proof (cases op)
  case (OpRegister c p ms)
  then show ?thesis by (simp add: epoch_step_register)
next
  case (OpRegisterIf c p e ms publish)
  have "epoch_step r r" by (simp add: epoch_step_def)
  with OpRegisterIf show ?thesis by (simp add: register_if_current_def epoch_step_register)
next
  case (OpList handler)
  with get_available_tables [of r now handler] show ?thesis by (simp add: epoch_step_def)
qed (auto simp: epoch_step_def epochs_marks epochs_capabilities epochs_projections epochs_unregister unregister_client_def
    unregister_if_current_def)

lemma epoch_step_num: "epoch_step r s \<Longrightarrow> num_at (gr_epochs s) c = num_at (gr_epochs r) c \<or> num_at (gr_epochs s) c = num_at (gr_epochs r) c + 1"
  by (auto simp: epoch_step_def num_at_bump split: if_splits)

definition epochs_advanced :: "instant \<times> model_registry \<Rightarrow> (instant \<times> registry_op) list \<Rightarrow> instant \<times> model_registry \<Rightarrow> bool" where
  "epochs_advanced s ls t \<longleftrightarrow>
     (\<forall>c. \<exists>k \<le> length ls. num_at (gr_epochs (snd t)) c = num_at (gr_epochs (snd s)) c + of_nat k)"

interpretation reg_epochs: history_system registry_step "\<lambda>_. True" epochs_advanced
proof
  fix s :: "instant \<times> model_registry"
  show "epochs_advanced s [] s" by (simp add: epochs_advanced_def)
next
  fix s t u ls l assume h: "epochs_advanced s ls t" and step: "registry_step t l u"
  then obtain clock r now op where st: "t = (clock, r)" "l = (now, op)" "u = (now, apply_op now op r)"
    by (auto simp: registry_step_iff)
  show "epochs_advanced s (ls @ [l]) u"
    unfolding epochs_advanced_def
  proof
    fix c
    from h obtain k where k: "k \<le> length ls" "num_at (gr_epochs r) c = num_at (gr_epochs (snd s)) c + of_nat k"
      by (auto simp: epochs_advanced_def st)
    from epoch_step_num [OF epoch_step_op [of r now op], of c]
    show "\<exists>k \<le> length (ls @ [l]). num_at (gr_epochs (snd u)) c = num_at (gr_epochs (snd s)) c + of_nat k"
    proof
      assume "num_at (gr_epochs (apply_op now op r)) c = num_at (gr_epochs r) c"
      with k show ?thesis by (intro exI [of _ k]) (simp add: st)
    next
      assume "num_at (gr_epochs (apply_op now op r)) c = num_at (gr_epochs r) c + 1"
      with k show ?thesis by (intro exI [of _ "Suc k"]) (simp add: st)
    qed
  qed
qed simp

lemma epoch_moved_on:
  assumes run: "run_of registry_step (t1, register_client now c p models r) ls (t2, s)"
    and models: "valid_models models \<noteq> []" and short: "Suc (length ls) < 2 ^ 64"
  shows "num_at (gr_epochs s) c \<noteq> num_at (gr_epochs r) c"
proof
  assume eq: "num_at (gr_epochs s) c = num_at (gr_epochs r) c"
  obtain k where k: "k \<le> length ls"
      "num_at (gr_epochs s) c = num_at (gr_epochs (register_client now c p models r)) c + of_nat k"
    using reg_epochs.hist_run [OF run] by (auto simp: epochs_advanced_def)
  then have "(of_nat (Suc k) :: 64 word) = 0"
    using eq by (simp add: epochs_register [OF models] num_at_bump)
  then have "2 ^ 64 dvd Suc k" by (simp only: word_of_nat_eq_0_iff) simp
  then show False using k(1) short by (auto dest: dvd_imp_le)
qed

lemma time_sub_live: "time_sub now t < modelQuotaExceededWindow \<longleftrightarrow> quota_live now t"
  by (auto simp: time_sub_def quota_live_def modelQuotaExceededWindow_def minute_def int64_max_def int64_min_def Let_def)

text \<open>A concrete history for the instances: two clients share a model, one of them is over its quota.\<close>

definition replay_ops :: "(instant \<times> registry_op) list \<Rightarrow> model_registry \<Rightarrow> model_registry" where
  "replay_ops ls r = fold (\<lambda>l. apply_op (fst l) (snd l)) ls r"

lemma run_replay_ops:
  "sorted (t0 # map fst ls) \<Longrightarrow> \<forall>l \<in> set ls. names_client (snd l) \<Longrightarrow>
     run_of registry_step (t0, r) ls (last (t0 # map fst ls), replay_ops ls r)"
proof (induction ls arbitrary: t0 r)
  case (Cons l ls)
  have "registry_step (t0, r) l (fst l, apply_op (fst l) (snd l) r)"
    using Cons.prems registry_stepI [of t0 "fst l" "snd l" r] by simp
  moreover from Cons.IH [of "fst l" "apply_op (fst l) (snd l) r"] Cons.prems
  have "run_of registry_step (fst l, apply_op (fst l) (snd l) r) ls
      (last (fst l # map fst ls), replay_ops ls (apply_op (fst l) (snd l) r))"
    by simp
  ultimately have "run_of registry_step (t0, r) (l # ls)
      (last (fst l # map fst ls), replay_ops ls (apply_op (fst l) (snd l) r))"
    unfolding run_Cons_iff by blast
  then show ?case by (simp add: replay_ops_def)
qed (simp add: replay_ops_def)

definition demo_meta :: "string \<Rightarrow> int \<Rightarrow> model_meta" where
  "demo_meta i created = empty_meta\<lparr>mm_id := i, mm_created := created\<rparr>"

definition demo_ops :: "(instant \<times> registry_op) list" where
  "demo_ops =
     [(1, OpRegister ''a'' ''codex'' [Some (demo_meta ''m'' 5), None]),
      (2, OpRegister ''b'' ''codex'' [Some (demo_meta ''m'' 6), Some (demo_meta ''n'' 7)]),
      (3, OpSetQuota ''a'' ''m''), (4, OpList ''openai'')]"

definition demo_registry :: model_registry where
  "demo_registry = replay_ops demo_ops new_model_registry"

lemma demo_registry_run: "run_of registry_step (0, new_model_registry) demo_ops (4, demo_registry)"
  using run_replay_ops [of 0 demo_ops new_model_registry] by (simp add: demo_registry_def demo_ops_def)

lemma demo_registry_value:
  "gr_client_models demo_registry = [(''a'', [''m'']), (''b'', [''m'', ''n''])]"
  "map (\<lambda>(i, g). (i, mr_count g, mr_providers g, mr_quota g)) (gr_models demo_registry) =
     [(''m'', 2, [(''codex'', 2)], [(''a'', 3)]), (''n'', 1, [(''codex'', 1)], [])]"
  "map fst (gr_cache demo_registry) = [''openai'']"
  by code_simp+

section \<open>Properties\<close>

text \<open>C2: The table of models is a summary of the client tables after any interleaving of operations: a
  model has an entry iff a client offers it, the entry counts every offer, counts them by provider
  (\<open>GetModelProviders\<close> reads these), and its web search capability is the merge of what the offering
  clients declare.\<close>

theorem registry_tables_exact:
  assumes "run_of registry_step (t0, new_model_registry) ls (t, r)"
  shows "case map_of (gr_models r) i of
      None \<Rightarrow> offer_count r i = 0
    | Some g \<Rightarrow>
        offer_count r i > 0 \<and> mr_count g = int (offer_count r i)
        \<and> (\<forall>p. num_at (mr_providers g) p = int (provider_count r i p))
        \<and> web_search_of (mr_info g) = strongest (declared r (\<lambda>_. True) i [])"
proof -
  have "entry_sound r i (map_of (gr_models r) i)"
    using registry_reachable_ok [OF assms] by (simp add: registry_ok_def)
  then show ?thesis
    by (cases "map_of (gr_models r) i") (simp_all add: entry_sound_def shape_def views_def num_at_def)
qed

theorem registry_tables_exact_witness:
  "offer_count demo_registry ''m'' = 2
     \<and> (case map_of (gr_models demo_registry) ''m'' of
          None \<Rightarrow> offer_count demo_registry ''m'' = 0
        | Some g \<Rightarrow>
            offer_count demo_registry ''m'' > 0 \<and> mr_count g = int (offer_count demo_registry ''m'')
            \<and> (\<forall>p. num_at (mr_providers g) p = int (provider_count demo_registry ''m'' p))
            \<and> web_search_of (mr_info g) = strongest (declared demo_registry (\<lambda>_. True) ''m'' []))"
  using registry_tables_exact [OF demo_registry_run, of "''m''"] by (simp add: offer_count_def demo_registry_value)

text \<open>C11: A listing served from the cache is the one that would be built now: every operation that can
  change it empties the cache, and an entry expires before the first quota window that ends.\<close>

theorem cached_listing_fresh:
  assumes "run_of registry_step (t0, new_model_registry) ls (t, r)" "0 \<le> t0" "t \<le> now"
  shows "mset (fst (get_available_models now handler r)) = mset (fst (build_available_models handler now r))"
proof -
  have "cache_coherent t r"
    using reg_cache.inv_run [OF assms(1)] assms(2) by simp
  from get_available_models_fresh [OF this assms(3)] show ?thesis by simp
qed

theorem cached_listing_fresh_witness:
  "map_of (gr_cache demo_registry) ''openai'' \<noteq> None
     \<and> mset (fst (get_available_models 9 ''openai'' demo_registry)) = mset (fst (build_available_models ''openai'' 9 demo_registry))"
proof -
  have "map_of (gr_cache demo_registry) ''openai'' \<noteq> None"
    using demo_registry_value(3) by (simp add: map_of_eq_None_iff flip: set_map)
  with cached_listing_fresh [OF demo_registry_run, of 9 "''openai''"] show ?thesis by simp
qed

text \<open>C26: A decision taken under an epoch is rejected, and changes nothing, once the client has been
  registered again (fewer than \<open>2 ^ 64\<close> operations ago): projections and both conditional updates.\<close>

theorem stale_decision_rejected:
  assumes "run_of registry_step (t1, register_client now c p models r) ls (t2, s)"
    "valid_models models \<noteq> []" "Suc (length ls) < 2 ^ 64" "trim_space c = c"
  shows "apply_client_model_projections later c (client_registration_epoch c r) gen pjs s = (False, s)
     \<and> register_if_current later c q (client_registration_epoch c r) ms publish s = (False, s)
     \<and> unregister_if_current later c (client_registration_epoch c r) publish s = (False, s)"
  using epoch_moved_on [OF assms(1-3)] assms(4)
  by (auto simp: apply_client_model_projections_def register_if_current_def unregister_if_current_def
      client_registration_epoch_def Let_def split: option.split)

theorem stale_decision_rejected_witness:
  "apply_client_model_projections 9 ''a'' (client_registration_epoch ''a'' demo_registry) 0
       [\<lparr>pj_model = ''m'', pj_suspended = True, pj_reason = [], pj_quota = True\<rparr>]
       (register_client 8 ''a'' ''codex'' [Some (demo_meta ''m'' 5)] demo_registry)
     = (False, register_client 8 ''a'' ''codex'' [Some (demo_meta ''m'' 5)] demo_registry)"
  by (rule stale_decision_rejected [of 8 8 "''a''" "''codex''" "[Some (demo_meta ''m'' 5)]" demo_registry "[]" 8, THEN conjunct1])
    (simp_all add: valid_models_def demo_meta_def empty_meta_def trim_eval)

end
