(* ===== verification/Registry_Answers.thy ===== *)
theory Registry_Answers
  imports Registry_Runs
begin

text \<open>
  What the answers of the registry mean: the count of a model is the number of clients that can serve
  it, the providers of a model are ordered by their counts, and the first available model is a newest one.
\<close>

section \<open>Counting\<close>

definition offers :: "model_registry \<Rightarrow> string \<Rightarrow> string \<Rightarrow> bool" where
  "offers r c i \<longleftrightarrow> (case map_of (gr_client_models r) c of None \<Rightarrow> False | Some ms \<Rightarrow> i \<in> set ms)"

definition blocked_client :: "instant \<Rightarrow> model_registration \<Rightarrow> string \<Rightarrow> bool" where
  "blocked_client now g c \<longleftrightarrow>
     map_of (mr_suspended g) c \<noteq> None \<or> (case map_of (mr_quota g) c of None \<Rightarrow> False | Some t \<Rightarrow> quota_live now t)"

lemma sum_list_indicator:
  "distinct (map fst al) \<Longrightarrow> (\<And>k v. (k, v) \<in> set al \<Longrightarrow> f (k, v) = (if P k v then 1 else 0)) \<Longrightarrow>
     sum_list (map f al) = card {k. \<exists>v. map_of al k = Some v \<and> P k v}"
proof (induction al)
  case (Cons kv al)
  obtain k v where kv: "kv = (k, v)" by (cases kv)
  have k: "map_of al k = None" using Cons.prems(1) by (simp add: kv map_of_eq_None_iff)
  have fin: "finite {j. \<exists>w. map_of al j = Some w \<and> P j w}"
    by (rule finite_subset [of _ "fst ` set al"]) (auto dest!: map_of_SomeD simp: rev_image_eqI)
  have "{j. \<exists>w. map_of (kv # al) j = Some w \<and> P j w}
      = (if P k v then insert k {j. \<exists>w. map_of al j = Some w \<and> P j w} else {j. \<exists>w. map_of al j = Some w \<and> P j w})"
    using k by (auto simp: kv split: if_splits)
  moreover have "k \<notin> {j. \<exists>w. map_of al j = Some w \<and> P j w}" using k by simp
  ultimately show ?case using Cons fin by (simp add: kv)
qed simp

lemma offer_count_card:
  assumes ok: "registry_ok r" and once: "\<And>c ms. map_of (gr_client_models r) c = Some ms \<Longrightarrow> count_list ms i \<le> 1"
  shows "offer_count r i = card {c. offers r c i}"
proof -
  have d: "distinct (map fst (gr_client_models r))" using ok clients_okD(1) by (auto simp: registry_ok_def)
  have "(case cm of (c, ms) \<Rightarrow> count_list ms i) = (if i \<in> set ms' then 1 else 0)"
    if "cm = (c', ms')" "cm \<in> set (gr_client_models r)" for cm c' ms'
  proof -
    have "count_list ms' i \<le> 1" using that once [of c' ms'] d by simp
    then show ?thesis using that(1) count_list_0_iff [of ms' i] by (cases "count_list ms' i") auto
  qed
  then have "offer_count r i = card {c. \<exists>ms. map_of (gr_client_models r) c = Some ms \<and> i \<in> set ms}"
    unfolding offer_count_def by (intro sum_list_indicator [OF d]) auto
  moreover have "{c. \<exists>ms. map_of (gr_client_models r) c = Some ms \<and> i \<in> set ms} = {c. offers r c i}"
    by (auto simp: offers_def split: option.splits)
  ultimately show ?thesis by simp
qed

lemma length_filter_card:
  assumes "distinct (map fst al)"
  shows "length (filter P al) = card {k. \<exists>v. map_of al k = Some v \<and> P (k, v)}"
proof -
  have "length (filter P al) = card (fst ` set (filter P al))"
    using assms distinct_map_filter [of fst al P] by (metis distinct_card length_map set_map)
  also have "fst ` set (filter P al) = {k. \<exists>v. map_of al k = Some v \<and> P (k, v)}"
    using assms by force
  finally show ?thesis .
qed

lemma model_count_value:
  assumes ok: "registry_ok r" and g: "map_of (gr_models r) i = Some g"
    and once: "\<And>c ms. map_of (gr_client_models r) c = Some ms \<Longrightarrow> count_list ms i \<le> 1"
    and owned: "\<And>c. map_of (mr_quota g) c \<noteq> None \<or> map_of (mr_suspended g) c \<noteq> None \<Longrightarrow> offers r c i"
  shows "get_model_count now i r = int (card {c. offers r c i \<and> \<not> blocked_client now g c})"
proof -
  let ?L = "{c. \<exists>t. map_of (mr_quota g) c = Some t \<and> quota_live now t}"
  let ?S = "{c. \<exists>s. map_of (mr_suspended g) c = Some s \<and> (case map_of (mr_quota g) c of None \<Rightarrow> True | Some t \<Rightarrow> \<not> quota_live now t)}"
  let ?O = "{c. offers r c i}"
  have es: "entry_sound r i (Some g)" using ok g by (metis registry_ok_def)
  then have d: "distinct (map fst (mr_quota g))" "distinct (map fst (mr_suspended g))"
    by (simp_all add: entry_sound_def tidy_def)
  have n: "mr_count g = int (card ?O)"
    using es offer_count_card [OF ok once] by (simp add: entry_sound_def shape_def)
  have q: "length (filter (\<lambda>(c, t). time_sub now t < modelQuotaExceededWindow) (mr_quota g)) = card ?L"
    using length_filter_card [OF d(1)] by (simp add: time_sub_live)
  have s: "length (filter (\<lambda>(c, reason). case map_of (mr_quota g) c of None \<Rightarrow> True | Some t \<Rightarrow> \<not> quota_live now t) (mr_suspended g)) = card ?S"
    using length_filter_card [OF d(2)] by simp
  have fin: "finite ?O"
    by (rule finite_subset [of _ "fst ` set (gr_client_models r)"])
      (auto simp: offers_def rev_image_eqI dest!: map_of_SomeD split: option.splits)
  have sub: "?L \<subseteq> ?O" "?S \<subseteq> ?O" using owned by auto
  have dis: "?L \<inter> ?S = {}" by auto
  have free: "{c. offers r c i \<and> \<not> blocked_client now g c} = ?O - (?L \<union> ?S)"
    by (auto simp: blocked_client_def split: option.splits)
  have fLS: "finite ?L" "finite ?S" using sub fin finite_subset by auto
  have "card (?L \<union> ?S) = card ?L + card ?S"
    using fLS dis by (rule card_Un_disjoint)
  moreover have "card (?L \<union> ?S) \<le> card ?O"
    by (rule card_mono [OF fin]) (use sub in auto)
  moreover have "card (?O - (?L \<union> ?S)) = card ?O - card (?L \<union> ?S)"
    by (rule card_Diff_subset) (use sub fLS in auto)
  ultimately show ?thesis
    unfolding free by (simp add: get_model_count_def g q s n Let_def)
qed

text \<open>C27: When every client lists a model once and only the clients that offer it are marked,
  \<open>GetModelCount\<close> is the number of clients that offer the model and are neither suspended nor within a
  quota window; a client that is both is subtracted once.\<close>

theorem model_count_exact:
  assumes "run_of registry_step (t0, new_model_registry) ls (t, r)" "map_of (gr_models r) i = Some g"
    "\<And>c ms. map_of (gr_client_models r) c = Some ms \<Longrightarrow> count_list ms i \<le> 1"
    "\<And>c. map_of (mr_quota g) c \<noteq> None \<or> map_of (mr_suspended g) c \<noteq> None \<Longrightarrow> offers r c i"
  shows "get_model_count now i r = int (card {c. offers r c i \<and> \<not> blocked_client now g c})"
  by (rule model_count_value [OF registry_reachable_ok [OF assms(1)] assms(2-4)])

theorem model_count_exact_witness:
  "get_model_count 9 ''m'' demo_registry
     = int (card {c. offers demo_registry c ''m'' \<and> \<not> blocked_client 9 (the (map_of (gr_models demo_registry) ''m'')) c})"
proof (rule model_count_exact [OF demo_registry_run])
  have some: "map_of (gr_models demo_registry) ''m'' \<noteq> None"
    and quota: "mr_quota (the (map_of (gr_models demo_registry) ''m'')) = [(''a'', 3)]"
    and none: "mr_suspended (the (map_of (gr_models demo_registry) ''m'')) = []"
    by code_simp+
  show "map_of (gr_models demo_registry) ''m'' = Some (the (map_of (gr_models demo_registry) ''m''))"
    using some by simp
  show "count_list ms ''m'' \<le> 1" if "map_of (gr_client_models demo_registry) c = Some ms" for c ms
    using that by (auto simp: demo_registry_value split: if_splits)
  show "offers demo_registry c ''m''"
    if "map_of (mr_quota (the (map_of (gr_models demo_registry) ''m''))) c \<noteq> None
      \<or> map_of (mr_suspended (the (map_of (gr_models demo_registry) ''m''))) c \<noteq> None" for c
    using that unfolding quota none by (auto simp: offers_def demo_registry_value split: if_splits)
qed

section \<open>The first available model\<close>

text \<open>What the documentation of \<open>sort.Slice\<close> promises: a permutation, sorted when the order is a strict weak one.\<close>

definition strict_weak_on :: "'a set \<Rightarrow> ('a \<Rightarrow> 'a \<Rightarrow> bool) \<Rightarrow> bool" where
  "strict_weak_on A lt \<longleftrightarrow>
     (\<forall>x \<in> A. \<not> lt x x) \<and> (\<forall>x \<in> A. \<forall>y \<in> A. \<forall>z \<in> A. lt x y \<longrightarrow> lt y z \<longrightarrow> lt x z)
     \<and> (\<forall>x \<in> A. \<forall>y \<in> A. \<forall>z \<in> A. lt x z \<longrightarrow> lt x y \<or> lt y z)"

definition sorts_slices :: "(('a \<Rightarrow> 'a \<Rightarrow> bool) \<Rightarrow> 'a list \<Rightarrow> 'a list) \<Rightarrow> bool" where
  "sorts_slices sorter \<longleftrightarrow>
     (\<forall>lt xs. mset (sorter lt xs) = mset xs
        \<and> (strict_weak_on (set xs) lt \<longrightarrow> sorted_wrt (\<lambda>a b. \<not> lt b a) (sorter lt xs)))"

lemma map_filter_first:
  "List.map_filter f xs = y # ys \<Longrightarrow> \<exists>pre x post. xs = pre @ x # post \<and> f x = Some y \<and> (\<forall>z \<in> set pre. f z = None)"
proof (induction xs)
  case (Cons a xs)
  show ?case
  proof (cases "f a")
    case None
    with Cons obtain pre x post where "xs = pre @ x # post \<and> f x = Some y \<and> (\<forall>z \<in> set pre. f z = None)"
      by auto
    with None show ?thesis by (intro exI [of _ "a # pre"]) auto
  next
    case (Some b)
    with Cons.prems show ?thesis by (intro exI [of _ "[]"]) auto
  qed
qed simp

lemma map_filter_Nil: "List.map_filter f xs = [] \<longleftrightarrow> (\<forall>x \<in> set xs. f x = None)"
  by (induction xs) (auto split: option.splits)

lemma newer_first_weak: "\<forall>m \<in> A. created_of m \<noteq> None \<Longrightarrow> strict_weak_on A newer_first"
  by (fastforce simp: strict_weak_on_def newer_first_def split: option.splits)

text \<open>The listings with a name and a client, and the name of each.\<close>

definition servable :: "instant \<Rightarrow> model_registry \<Rightarrow> listing \<Rightarrow> string option" where
  "servable now r m =
     (case listing_name m of None \<Rightarrow> None | Some i \<Rightarrow> (if get_model_count now i r > 0 then Some i else None))"

lemma get_first_eq:
  assumes "cache_coherent t r" "t \<le> now"
  shows "fst (get_first_available_model sorter now handler r) =
     (let models = fst (build_available_models handler now r) in
      if models = [] then Inl (NoModelsAvailable handler)
      else case List.map_filter (servable now r) (sorter newer_first models) of
          [] \<Rightarrow> Inl (NoAvailableClients handler) | i # _ \<Rightarrow> Inr i)"
proof -
  obtain models s where g: "get_available_models now handler r = (models, s)" by fastforce
  have m: "models = fst (build_available_models handler now r)"
    using get_available_models_fresh [OF assms, of handler] by (simp add: g)
  have "get_model_count now i s = get_model_count now i r" for i
    using get_available_tables [of r now handler] by (simp add: g get_model_count_def)
  then have "servable now s = servable now r"
    by (intro ext) (simp add: servable_def split: option.split)
  then show ?thesis
    by (simp add: get_first_available_model_def g m Let_def flip: servable_def split: list.split)
qed

lemma first_newest:
  assumes "sorts_slices sorter" "\<forall>m \<in> set ms. created_of m \<noteq> None"
    "List.map_filter f (sorter newer_first ms) = i # is"
  shows "\<exists>m \<in> set ms. f m = Some i \<and> (\<forall>m' \<in> set ms. f m' \<noteq> None \<longrightarrow> the (created_of m') \<le> the (created_of m))"
proof -
  have perm: "set (sorter newer_first ms) = set ms"
    using assms(1) by (metis sorts_slices_def set_mset_mset)
  have sorted: "sorted_wrt (\<lambda>a b. \<not> newer_first b a) (sorter newer_first ms)"
    using assms(1) newer_first_weak [OF assms(2)] by (simp add: sorts_slices_def)
  from map_filter_first [OF assms(3)] obtain pre m post where s: "sorter newer_first ms = pre @ m # post"
      and m: "f m = Some i" and pre: "\<forall>z \<in> set pre. f z = None"
    by blast
  have "the (created_of m') \<le> the (created_of m)" if "m' \<in> set ms" "f m' \<noteq> None" for m'
  proof -
    from that pre perm s have "m' = m \<or> m' \<in> set post" by auto
    with sorted s have "m' = m \<or> \<not> newer_first m' m" by (auto simp: sorted_wrt_append)
    moreover have "created_of m' \<noteq> None" "created_of m \<noteq> None" using assms(2) that(1) perm s by auto
    ultimately show ?thesis by (auto simp: newer_first_def)
  qed
  moreover have "m \<in> set ms" using perm s by auto
  ultimately show ?thesis using m by blast
qed


text \<open>An insertion sort that sorts slices.\<close>

fun insert_slice :: "('a \<Rightarrow> 'a \<Rightarrow> bool) \<Rightarrow> 'a \<Rightarrow> 'a list \<Rightarrow> 'a list" where
  "insert_slice lt x [] = [x]"
| "insert_slice lt x (y # ys) = (if lt y x then y # insert_slice lt x ys else x # y # ys)"

fun sort_slice :: "('a \<Rightarrow> 'a \<Rightarrow> bool) \<Rightarrow> 'a list \<Rightarrow> 'a list" where
  "sort_slice lt [] = []"
| "sort_slice lt (x # xs) = insert_slice lt x (sort_slice lt xs)"

lemma mset_sort_slice [simp]: "mset (sort_slice lt xs) = mset xs"
proof -
  have "mset (insert_slice lt x ys) = add_mset x (mset ys)" for x ys by (induction ys) auto
  then show ?thesis by (induction xs) auto
qed

lemma sorted_insert_slice:
  assumes "strict_weak_on A lt" "insert x (set ys) \<subseteq> A" "sorted_wrt (\<lambda>a b. \<not> lt b a) ys"
  shows "sorted_wrt (\<lambda>a b. \<not> lt b a) (insert_slice lt x ys)"
  using assms(2,3)
proof (induction ys)
  case (Cons y ys)
  have set: "set (insert_slice lt x ys) = insert x (set ys)"
    by (induction ys) auto
  show ?case
  proof (cases "lt y x")
    case True
    have "\<not> lt x y" using assms(1) True Cons.prems(1) unfolding strict_weak_on_def by (metis insert_subset list.simps(15) subsetD)
    with True Cons show ?thesis by (auto simp: set)
  next
    case False
    have "\<not> lt z x" if "z \<in> set ys" for z
    proof
      assume "lt z x"
      moreover have "x \<in> A" "y \<in> A" "z \<in> A" using Cons.prems(1) that by auto
      ultimately have "lt z y \<or> lt y x" using assms(1) unfolding strict_weak_on_def by blast
      with False that Cons.prems(2) show False by auto
    qed
    with False Cons.prems show ?thesis by auto
  qed
qed simp

lemma sorts_slices_sort_slice: "sorts_slices sort_slice"
proof -
  have "strict_weak_on A lt \<Longrightarrow> set xs \<subseteq> A \<Longrightarrow> sorted_wrt (\<lambda>a b. \<not> lt b a) (sort_slice lt xs)" for A lt and xs :: "'a list"
  proof (induction xs)
    case (Cons x xs)
    have "set (sort_slice lt xs) = set xs" by (metis mset_sort_slice set_mset_mset)
    with Cons show ?case by (auto intro!: sorted_insert_slice)
  qed simp
  then show ?thesis by (auto simp: sorts_slices_def)
qed


end
