(* ===== verification/Session_Matcher.thy ===== *)
theory Session_Matcher
  imports Go_Prelude "HOL-Library.Word"
begin

text \<open>
  The index of conversations (sdk/cliproxy/session/lcp.go). A request is the list of the fingerprints
  of its turns. A group remembers such a list, the credential that served it and the session it
  belongs to; every prefix of the list is indexed by a rolling hash. A request continues the
  session with which it shares the longest prefix, forks it, or continues it after the client has
  compacted its history. A group is referred to by its namespace and its key, as the code refers to
  it by a pointer. The hash is a parameter; clocks are read once in each operation.
\<close>

section \<open>Keys\<close>

definition defaultMatcherMaxTurns :: nat where "defaultMatcherMaxTurns = 1024"
definition defaultMatcherMaxGroups :: nat where "defaultMatcherMaxGroups = 4096"
definition defaultMatcherMaxPrefixes :: nat where "defaultMatcherMaxPrefixes = 262144"
definition minCompactionOverlapTurns :: nat where "minCompactionOverlapTurns = 2"
definition maxCompactionProbeWindow :: nat where "maxCompactionProbeWindow = 32"
definition maxTailsPerKey :: nat where "maxTailsPerKey = 16"

definition nul :: char where "nul = CHR 0x00"

definition hex_digit :: "nat \<Rightarrow> char" where
  "hex_digit d = ''0123456789abcdef'' ! d"

definition hex_encode :: "string \<Rightarrow> string" where
  "hex_encode s = concat (map (\<lambda>c. [hex_digit (of_char c div 16), hex_digit (of_char c mod 16)]) s)"

fun rolling_from :: "(string \<Rightarrow> string) \<Rightarrow> nat \<Rightarrow> string \<Rightarrow> string list \<Rightarrow> string list" where
  "rolling_from sha i previous [] = []"
| "rolling_from sha i previous (f # fs) =
     (let hash = sha (previous @ nul # f)
      in (itoa (i + 1) @ '':'' @ hex_encode hash) # rolling_from sha (i + 1) hash fs)"

definition rolling_prefix_keys :: "(string \<Rightarrow> string) \<Rightarrow> string list \<Rightarrow> string list" where
  "rolling_prefix_keys sha fps = rolling_from sha 0 (replicate 32 nul) fps"

definition sequence_key :: "(string \<Rightarrow> string) \<Rightarrow> string list \<Rightarrow> string" where
  "sequence_key sha fps = (let keys = rolling_prefix_keys sha fps in if keys = [] then [] else last keys)"

definition new_lcp_session_id :: "(string \<Rightarrow> string) \<Rightarrow> string \<Rightarrow> string \<Rightarrow> string" where
  "new_lcp_session_id sha ns first_prefix =
     ''lcp:v1:'' @ hex_encode (sha (''cli-proxy-api:lcp-session:v1'' @ nul # ns @ nul # first_prefix))"

definition new_lcp_compaction_session_id :: "(string \<Rightarrow> string) \<Rightarrow> string \<Rightarrow> string \<Rightarrow> string \<Rightarrow> string" where
  "new_lcp_compaction_session_id sha ns parent seq_key =
     ''lcp:v1:'' @
     hex_encode (sha (''cli-proxy-api:lcp-compaction-session:v1'' @ nul # ns @ nul # parent @ nul # seq_key))"

definition canonical_role :: "string \<Rightarrow> string" where
  "canonical_role role =
     (let r = to_lower (trim_space role) in
      if r \<in> {''system'', ''developer''} then ''system''
      else if r \<in> {''assistant'', ''model'', ''ai''} then ''assistant''
      else if r \<in> {''tool'', ''function''} then ''tool''
      else if r = ''user'' then ''user'' else r)"

text \<open>The first turn that is not the system's ends the shortest prefix that tells conversations apart. A turn
  is its role here.\<close>

fun minimum_from :: "nat \<Rightarrow> string list \<Rightarrow> nat" where
  "minimum_from i [] = 0"
| "minimum_from i (role # roles) = (if canonical_role role \<noteq> ''system'' then i + 1 else minimum_from (i + 1) roles)"

definition minimum_affinity_prefix_length :: "string list \<Rightarrow> nat" where
  "minimum_affinity_prefix_length roles = minimum_from 0 roles"

definition write_fingerprint_field :: "string \<Rightarrow> string" where
  "write_fingerprint_field value = hash_field value @ [nul]"

definition fallback_environment_digest :: "(string \<Rightarrow> string) \<Rightarrow> string list \<Rightarrow> nat \<Rightarrow> string" where
  "fallback_environment_digest sha fps min_length =
     (if min_length \<le> 1 \<or> fps = [] then []
      else hex_encode (sha (concat (map write_fingerprint_field (take (min_length - 1) fps)))))"

definition extract_tail_fingerprints :: "string list \<Rightarrow> string list" where
  "extract_tail_fingerprints fps = drop (length fps - maxCompactionProbeWindow) fps"

section \<open>State\<close>

record lcp_group =
  lg_auth :: string
  lg_session :: string
  lg_parent :: string
  lg_min :: nat
  lg_fork :: bool
  lg_compaction :: bool
  lg_kind :: string
  lg_env :: string
  lg_fps :: "string list"
  lg_tails :: "string list"
  lg_keys :: "string list"
  lg_expires :: instant
  lg_access :: "64 word"

record lcp_namespace =
  ln_groups :: "(string \<times> lcp_group) list"
  ln_prefixes :: "(string \<times> string list) list"
  ln_tails :: "(string \<times> string list) list"

type_synonym group_ref = "string \<times> string"

record prefix_matcher =
  pm_ttl :: duration
  pm_max_turns :: nat
  pm_max_groups :: nat
  pm_max_prefixes :: nat
  pm_groups :: "(string \<times> lcp_namespace) list"
  pm_lru :: "group_ref list"
  pm_group_count :: nat
  pm_prefix_count :: nat
  pm_access :: "64 word"
  pm_operations :: "64 word"

record matcher_config =
  mc_ttl :: duration
  mc_max_turns :: int
  mc_max_groups :: int
  mc_max_prefixes :: int

definition new_matcher :: "matcher_config \<Rightarrow> prefix_matcher" where
  "new_matcher cfg =
     (let turns = (if mc_max_turns cfg \<le> 0 then defaultMatcherMaxTurns else nat (mc_max_turns cfg));
          groups = (if mc_max_groups cfg \<le> 0 then defaultMatcherMaxGroups else nat (mc_max_groups cfg));
          prefixes = (if mc_max_prefixes cfg \<le> 0 then defaultMatcherMaxPrefixes else nat (mc_max_prefixes cfg))
      in \<lparr>pm_ttl = (if mc_ttl cfg \<le> 0 then hour else mc_ttl cfg), pm_max_turns = turns, pm_max_groups = groups,
          pm_max_prefixes = (if prefixes < turns then turns else prefixes), pm_groups = [], pm_lru = [],
          pm_group_count = 0, pm_prefix_count = 0, pm_access = 0, pm_operations = 0\<rparr>)"

definition empty_namespace :: lcp_namespace where
  "empty_namespace = \<lparr>ln_groups = [], ln_prefixes = [], ln_tails = []\<rparr>"

text \<open>A bucket of an index is a set; it is dropped when its last member goes.\<close>

definition bucket_at :: "(string \<times> string list) list \<Rightarrow> string \<Rightarrow> string list" where
  "bucket_at idx k = (case map_of idx k of None \<Rightarrow> [] | Some b \<Rightarrow> b)"

definition add_member :: "string \<Rightarrow> string \<Rightarrow> (string \<times> string list) list \<Rightarrow> (string \<times> string list) list" where
  "add_member key k idx = AList.update k (if key \<in> set (bucket_at idx k) then bucket_at idx k else bucket_at idx k @ [key]) idx"

definition set_bucket :: "string \<Rightarrow> string list \<Rightarrow> (string \<times> string list) list \<Rightarrow> (string \<times> string list) list" where
  "set_bucket k b idx = (if b = [] then AList.delete k idx else AList.update k b idx)"

definition drop_member :: "string \<Rightarrow> string \<Rightarrow> (string \<times> string list) list \<Rightarrow> (string \<times> string list) list" where
  "drop_member key k idx =
     (case map_of idx k of None \<Rightarrow> idx | Some b \<Rightarrow> set_bucket k (removeAll key b) idx)"

definition tails_of :: "lcp_group \<Rightarrow> string list" where
  "tails_of g = (if lg_tails g = [] then lg_fps g else lg_tails g)"

definition tail_key :: "string list \<Rightarrow> nat \<Rightarrow> string" where
  "tail_key ts i = ts ! (i - 1) @ nul # ts ! i"

definition last_tail_key :: "string list \<Rightarrow> string option" where
  "last_tail_key ts = (if length ts \<ge> minCompactionOverlapTurns then Some (tail_key ts (length ts - 1)) else None)"

section \<open>Groups\<close>

definition namespace_locked :: "string \<Rightarrow> prefix_matcher \<Rightarrow> lcp_namespace" where
  "namespace_locked n m = (case map_of (pm_groups m) n of None \<Rightarrow> empty_namespace | Some ns \<Rightarrow> ns)"

definition put_namespace :: "string \<Rightarrow> lcp_namespace \<Rightarrow> prefix_matcher \<Rightarrow> prefix_matcher" where
  "put_namespace n ns m = m\<lparr>pm_groups := AList.update n ns (pm_groups m)\<rparr>"

definition group_at :: "prefix_matcher \<Rightarrow> group_ref \<Rightarrow> lcp_group option" where
  "group_at m r = (case map_of (pm_groups m) (fst r) of None \<Rightarrow> None | Some ns \<Rightarrow> map_of (ln_groups ns) (snd r))"

definition set_group :: "group_ref \<Rightarrow> lcp_group \<Rightarrow> prefix_matcher \<Rightarrow> prefix_matcher" where
  "set_group r g m =
     (case map_of (pm_groups m) (fst r) of
        None \<Rightarrow> m
      | Some ns \<Rightarrow> put_namespace (fst r) (ns\<lparr>ln_groups := AList.update (snd r) g (ln_groups ns)\<rparr>) m)"

definition unlink_group :: "string \<Rightarrow> lcp_group \<Rightarrow> lcp_namespace \<Rightarrow> lcp_namespace" where
  "unlink_group key g ns =
     ns\<lparr>ln_groups := AList.delete key (ln_groups ns),
        ln_prefixes := fold (drop_member key) (lg_keys g) (ln_prefixes ns),
        ln_tails := (case last_tail_key (tails_of g) of None \<Rightarrow> ln_tails ns | Some k \<Rightarrow> drop_member key k (ln_tails ns))\<rparr>"

text \<open>Without the group the reference is dangling, which the code knows as a nil element of the list.\<close>

definition remove_group :: "group_ref \<Rightarrow> prefix_matcher \<Rightarrow> prefix_matcher" where
  "remove_group r m =
     (case map_of (pm_groups m) (fst r) of
        None \<Rightarrow> m\<lparr>pm_lru := removeAll r (pm_lru m)\<rparr>
      | Some ns \<Rightarrow> (case map_of (ln_groups ns) (snd r) of
          None \<Rightarrow> m\<lparr>pm_lru := removeAll r (pm_lru m)\<rparr>
        | Some g \<Rightarrow>
            (let ns' = unlink_group (snd r) g ns in
             m\<lparr>pm_groups := (if ln_groups ns' = [] then AList.delete (fst r) (pm_groups m)
                              else AList.update (fst r) ns' (pm_groups m)),
               pm_lru := removeAll r (pm_lru m),
               pm_group_count := pm_group_count m - 1,
               pm_prefix_count := pm_prefix_count m - length (lg_keys g)\<rparr>)))"

definition over_limits :: "prefix_matcher \<Rightarrow> bool" where
  "over_limits m \<longleftrightarrow> pm_group_count m > pm_max_groups m \<or> pm_prefix_count m > pm_max_prefixes m"

lemma remove_group_lru [simp]: "pm_lru (remove_group r m) = removeAll r (pm_lru m)"
  by (simp add: remove_group_def Let_def split: option.split)

function evict :: "prefix_matcher \<Rightarrow> prefix_matcher" where
  "evict m = (if over_limits m then (case pm_lru m of [] \<Rightarrow> m | r # _ \<Rightarrow> evict (remove_group r m)) else m)"
  by auto
termination
  by (relation "measure (\<lambda>m. length (pm_lru m))") (auto simp: le_imp_less_Suc length_removeAll_less_eq)

declare evict.simps [simp del]

definition next_access :: "prefix_matcher \<Rightarrow> 64 word \<times> prefix_matcher" where
  "next_access m = (pm_access m + 1, m\<lparr>pm_access := pm_access m + 1\<rparr>)"

definition link_group :: "string \<Rightarrow> lcp_group \<Rightarrow> lcp_namespace \<Rightarrow> lcp_namespace" where
  "link_group key g ns =
     ns\<lparr>ln_groups := AList.update key g (ln_groups ns),
        ln_prefixes := fold (add_member key) (lg_keys g) (ln_prefixes ns),
        ln_tails := (case last_tail_key (tails_of g) of None \<Rightarrow> ln_tails ns | Some k \<Rightarrow> add_member key k (ln_tails ns))\<rparr>"

definition add_group :: "(string \<Rightarrow> string) \<Rightarrow> group_ref \<Rightarrow> lcp_group \<Rightarrow> prefix_matcher \<Rightarrow> prefix_matcher" where
  "add_group sha r g0 m0 =
     (let (n, m) = next_access m0;
          g = g0\<lparr>lg_keys := (if lg_keys g0 = [] then rolling_prefix_keys sha (lg_fps g0) else lg_keys g0), lg_access := n\<rparr>;
          m = put_namespace (fst r) (link_group (snd r) g (namespace_locked (fst r) m)) m
      in evict (m\<lparr>pm_lru := pm_lru m @ [r], pm_group_count := pm_group_count m + 1,
                  pm_prefix_count := pm_prefix_count m + length (lg_keys g)\<rparr>))"

text \<open>A group that is used lives longer and moves to the back of the list.\<close>

definition move_to_back :: "group_ref \<Rightarrow> prefix_matcher \<Rightarrow> prefix_matcher" where
  "move_to_back r m = (if r \<in> set (pm_lru m) then m\<lparr>pm_lru := removeAll r (pm_lru m) @ [r]\<rparr> else m)"

definition refresh_group :: "instant \<Rightarrow> group_ref \<Rightarrow> lcp_group \<Rightarrow> prefix_matcher \<Rightarrow> lcp_group \<times> prefix_matcher" where
  "refresh_group now r g m0 =
     (let (n, m) = next_access m0; g = g\<lparr>lg_expires := now + pm_ttl m, lg_access := n\<rparr>
      in (g, move_to_back r (set_group r g m)))"

section \<open>Matching\<close>

record prefix_match =
  px_auth :: string
  px_session :: string
  px_parent :: string
  px_length :: nat
  px_is_fork :: bool
  px_is_compaction :: bool
  px_kind :: string
  px_access :: "64 word"

text \<open>The group of a bucket that is live, remembers the prefix, and has the longest list, the latest access
  among equally long ones.\<close>

definition remembers :: "string list \<Rightarrow> instant \<Rightarrow> lcp_group \<Rightarrow> bool" where
  "remembers fps now g \<longleftrightarrow>
     \<not> (\<not> now < lg_expires g \<or> lg_min g > length fps \<or> length (lg_fps g) < length fps \<or>
        take (length fps) (lg_fps g) \<noteq> fps)"

definition preferred :: "lcp_group \<Rightarrow> lcp_group \<Rightarrow> bool" where
  "preferred g best \<longleftrightarrow>
     length (lg_fps g) > length (lg_fps best) \<or>
     length (lg_fps g) = length (lg_fps best) \<and>
       (lg_access g > lg_access best \<or> lg_access g = lg_access best \<and> lg_expires g > lg_expires best)"

fun newest_matching_group :: "lcp_namespace \<Rightarrow> string list \<Rightarrow> instant \<Rightarrow> string list \<Rightarrow> (string \<times> lcp_group) option \<Rightarrow>
    (string \<times> lcp_group) option" where
  "newest_matching_group ns fps now [] best = best"
| "newest_matching_group ns fps now (key # bucket) best =
     newest_matching_group ns fps now bucket
       (case map_of (ln_groups ns) key of
          None \<Rightarrow> best
        | Some g \<Rightarrow>
            if remembers fps now g \<and> (case best of None \<Rightarrow> True | Some (_, b) \<Rightarrow> preferred g b)
            then Some (key, g) else best)"

text \<open>The binary search for the longest prefix that some group remembers; \<open>high\<close> is one above the code's.\<close>

function prefix_search :: "(nat \<Rightarrow> 'a option) \<Rightarrow> nat \<Rightarrow> nat \<Rightarrow> ('a \<times> nat) option \<Rightarrow> ('a \<times> nat) option" where
  "prefix_search probe low high best =
     (if low < high then
        let middle = low + (high - 1 - low) div 2
        in case probe middle of
             None \<Rightarrow> prefix_search probe low middle best
           | Some candidate \<Rightarrow> prefix_search probe (middle + 1) high (Some (candidate, middle))
      else best)"
  by auto
termination
  by (relation "measure (\<lambda>(_, low, high, _). high - low)") auto

declare prefix_search.simps [simp del]

text \<open>How many turns before the two positions agree, at most as many as are probed.\<close>

fun overlap_loop :: "string list \<Rightarrow> string list \<Rightarrow> nat \<Rightarrow> nat \<Rightarrow> nat \<Rightarrow> nat \<Rightarrow> nat" where
  "overlap_loop cand parent cand_end parent_end 0 overlap = overlap"
| "overlap_loop cand parent cand_end parent_end (Suc left) overlap =
     (if overlap \<le> cand_end \<and> overlap \<le> parent_end \<and> cand ! (cand_end - overlap) = parent ! (parent_end - overlap)
      then overlap_loop cand parent cand_end parent_end left (overlap + 1) else overlap)"

definition calculate_overlap :: "string list \<Rightarrow> string list \<Rightarrow> nat \<Rightarrow> nat \<Rightarrow> nat" where
  "calculate_overlap cand parent cand_end parent_end =
     overlap_loop cand parent cand_end parent_end maxCompactionProbeWindow 0"

definition is_compaction_overlap ::
  "nat \<Rightarrow> nat \<Rightarrow> nat \<Rightarrow> nat \<Rightarrow> nat \<Rightarrow> nat \<Rightarrow> nat \<Rightarrow> nat \<Rightarrow> nat \<Rightarrow> bool" where
  "is_compaction_overlap cand_full cand_tail cand_end parent_full parent_tail parent_end overlap min_length best_length =
     (let cand_start = int cand_end - int overlap + 1;
          parent_start = int parent_full - 1 - (int parent_tail - 1 - int parent_end) - int overlap + 1;
          allowed = int (if best_length + 1 > min_length then best_length + 1 else min_length);
          cand_start_full = int cand_full - 1 - (int cand_tail - 1 - int cand_end) - int overlap + 1
      in if cand_start > 0 \<and> cand_start_full > allowed then False
         else cand_start > 0 \<or> parent_start > 0)"

definition parent_session :: "lcp_namespace \<Rightarrow> string \<Rightarrow> string" where
  "parent_session ns session =
     (case find (\<lambda>(_, g). lg_session g = session \<and> lg_parent g \<noteq> []) (ln_groups ns) of
        None \<Rightarrow> [] | Some (_, g) \<Rightarrow> lg_parent g)"

fun ancestor_loop :: "lcp_namespace \<Rightarrow> string \<Rightarrow> string \<Rightarrow> nat \<Rightarrow> bool" where
  "ancestor_loop ns ancestor session 0 = False"
| "ancestor_loop ns ancestor session (Suc depth) =
     (let parent = parent_session ns session in
      if parent = [] then False else if parent = ancestor then True else ancestor_loop ns ancestor parent depth)"

definition is_ancestor_session :: "lcp_namespace \<Rightarrow> string \<Rightarrow> string \<Rightarrow> bool" where
  "is_ancestor_session ns ancestor descendant =
     (if ancestor = [] \<or> descendant = [] \<or> ancestor = descendant then False else ancestor_loop ns ancestor descendant 32)"

text \<open>The candidates with the longest overlap so far, one for each session.\<close>

record compaction_probe =
  cp_tails :: "(string \<times> string list) list"
  cp_best :: nat
  cp_candidates :: "(string \<times> lcp_group) list"
  cp_overflow :: bool

record compaction_request =
  cq_fps :: "string list"
  cq_tail :: "string list"
  cq_env :: string
  cq_min :: nat
  cq_best :: nat

definition group_overlap :: "compaction_request \<Rightarrow> nat \<Rightarrow> lcp_group \<Rightarrow> nat option" where
  "group_overlap q cand_end g =
     (let tails = tails_of g; n = length tails in
      if lg_env g \<noteq> cq_env q \<or> n < minCompactionOverlapTurns then None
      else let overlap = calculate_overlap (cq_tail q) tails cand_end (n - 1) in
        if overlap \<ge> minCompactionOverlapTurns \<and>
           is_compaction_overlap (length (cq_fps q)) (length (cq_tail q)) cand_end (length (lg_fps g)) n (n - 1) overlap
             (cq_min q) (cq_best q)
        then Some overlap else None)"

definition consider_candidate ::
  "lcp_namespace \<Rightarrow> compaction_request \<Rightarrow> nat \<Rightarrow> string \<Rightarrow> compaction_probe \<Rightarrow> compaction_probe" where
  "consider_candidate ns q cand_end key c =
     (case map_of (ln_groups ns) key of
        None \<Rightarrow> c
      | Some g \<Rightarrow> (case group_overlap q cand_end g of
          None \<Rightarrow> c
        | Some overlap \<Rightarrow>
            if overlap > cp_best c then c\<lparr>cp_best := overlap, cp_candidates := [(key, g)]\<rparr>
            else if overlap = cp_best c \<and> list_all (\<lambda>(_, e). lg_session e \<noteq> lg_session g) (cp_candidates c)
            then c\<lparr>cp_candidates := cp_candidates c @ [(key, g)]\<rparr>
            else c))"

definition live_member :: "lcp_namespace \<Rightarrow> instant \<Rightarrow> string \<Rightarrow> bool" where
  "live_member ns now key = (case map_of (ln_groups ns) key of None \<Rightarrow> False | Some g \<Rightarrow> now < lg_expires g)"

fun probe_tails :: "lcp_namespace \<Rightarrow> compaction_request \<Rightarrow> instant \<Rightarrow> nat list \<Rightarrow> compaction_probe \<Rightarrow> compaction_probe" where
  "probe_tails ns q now [] c = c"
| "probe_tails ns q now (cand_end # ends) c =
     (let k = tail_key (cq_tail q) cand_end; bucket = bucket_at (cp_tails c) k in
      if bucket = [] then probe_tails ns q now ends c
      else
        let live = filter (live_member ns now) bucket;
            c = c\<lparr>cp_tails := set_bucket k live (cp_tails c)\<rparr>
        in probe_tails ns q now ends
             (if live = [] then c
              else if length live > maxTailsPerKey then c\<lparr>cp_overflow := True\<rparr>
              else fold (consider_candidate ns q cand_end) live c))"

definition lineage_leaves :: "lcp_namespace \<Rightarrow> (string \<times> lcp_group) list \<Rightarrow> (string \<times> lcp_group) list" where
  "lineage_leaves ns cands =
     filter (\<lambda>(_, c1). \<not> list_ex (\<lambda>(_, c2). lg_session c1 \<noteq> lg_session c2 \<and>
                                    is_ancestor_session ns (lg_session c1) (lg_session c2)) cands) cands"

definition match_compaction ::
  "(string \<Rightarrow> string) \<Rightarrow> string \<Rightarrow> string list \<Rightarrow> string list \<Rightarrow> string \<Rightarrow> nat \<Rightarrow> nat \<Rightarrow> instant \<Rightarrow> prefix_matcher \<Rightarrow>
     prefix_match option \<times> prefix_matcher" where
  "match_compaction sha n fps tail_fps env min_length best_length now m =
     (let ns = namespace_locked n m;
          cand_tail = (if tail_fps = [] then extract_tail_fingerprints fps else tail_fps);
          q = \<lparr>cq_fps = fps, cq_tail = cand_tail, cq_env = env, cq_min = min_length, cq_best = best_length\<rparr>
      in if length cand_tail < minCompactionOverlapTurns then (None, m)
         else
           let c = probe_tails ns q now (rev [minCompactionOverlapTurns - 1..<length cand_tail])
                     \<lparr>cp_tails = ln_tails ns, cp_best = 0, cp_candidates = [], cp_overflow = False\<rparr>;
               m = put_namespace n (ns\<lparr>ln_tails := cp_tails c\<rparr>) m
           in if cp_overflow c then (None, m)
              else case lineage_leaves ns (cp_candidates c) of
                [(key, g)] \<Rightarrow>
                  (let (g, m) = refresh_group now (n, key) g m
                   in (Some \<lparr>px_auth = lg_auth g,
                             px_session = new_lcp_compaction_session_id sha n (lg_session g) (sequence_key sha fps),
                             px_parent = lg_session g, px_length = cp_best c, px_is_fork = False,
                             px_is_compaction = True, px_kind = ''compaction'', px_access = lg_access g\<rparr>, m))
              | _ \<Rightarrow> (None, m))"

definition match_locked ::
  "(string \<Rightarrow> string) \<Rightarrow> string \<Rightarrow> string list \<Rightarrow> string list \<Rightarrow> string \<Rightarrow> nat \<Rightarrow> instant \<Rightarrow> prefix_matcher \<Rightarrow>
     prefix_match option \<times> prefix_matcher" where
  "match_locked sha n fps tail_fps env min_length now m0 =
     (case map_of (pm_groups m0) n of
        None \<Rightarrow> (None, m0)
      | Some ns \<Rightarrow>
          if fps = [] \<or> min_length = 0 \<or> min_length > length fps then (None, m0)
          else
            let keys = rolling_prefix_keys sha fps;
                probe = (\<lambda>k. newest_matching_group ns (take k fps) now (bucket_at (ln_prefixes ns) (keys ! (k - 1))) None)
            in case prefix_search probe min_length (length fps + 1) None of
                 None \<Rightarrow> match_compaction sha n fps tail_fps env min_length 0 now m0
               | Some ((key, g0), best_length) \<Rightarrow>
                   (let (g, m) = refresh_group now (n, key) g0 m0;
                        diverges = (best_length < length (lg_fps g) \<and> length fps > best_length)
                    in case (if diverges then match_compaction sha n fps tail_fps env min_length best_length now m else (None, m)) of
                         (Some r, m) \<Rightarrow> (Some r, m)
                       | (None, m) \<Rightarrow>
                           (Some \<lparr>px_auth = lg_auth g,
                                  px_session = (if diverges then new_lcp_session_id sha n (keys ! best_length) else lg_session g),
                                  px_parent = (if diverges then new_lcp_session_id sha n (keys ! (best_length - 1)) else lg_parent g),
                                  px_length = best_length, px_is_fork = diverges,
                                  px_is_compaction = lg_compaction g \<and> \<not> diverges,
                                  px_kind = (if diverges then ''fork'' else lg_kind g),
                                  px_access = lg_access g\<rparr>, m)))"

section \<open>Operations\<close>

record bind_result =
  br_session :: string
  br_parent :: string
  br_is_fork :: bool
  br_is_compaction :: bool
  br_kind :: string
  br_access :: "64 word"

definition empty_bind_result :: bind_result where
  "empty_bind_result =
     \<lparr>br_session = [], br_parent = [], br_is_fork = False, br_is_compaction = False, br_kind = [], br_access = 0\<rparr>"

text \<open>The new group gets an access number when it is made and another one when it is added.\<close>

definition bind_group ::
  "(string \<Rightarrow> string) \<Rightarrow> group_ref \<Rightarrow> lcp_group \<Rightarrow> prefix_matcher \<Rightarrow> bind_result \<times> prefix_matcher" where
  "bind_group sha r g m0 =
     (let (n, m) = next_access m0; m = add_group sha r (g\<lparr>lg_access := n\<rparr>) m
      in (\<lparr>br_session = lg_session g, br_parent = lg_parent g, br_is_fork = lg_fork g,
           br_is_compaction = lg_compaction g, br_kind = lg_kind g, br_access = n + 1\<rparr>, m))"

definition first_key :: "string list \<Rightarrow> nat \<Rightarrow> string" where
  "first_key keys min_length =
     (if keys = [] then [] else if min_length > 0 \<and> min_length \<le> length keys then keys ! (min_length - 1) else keys ! 0)"

text \<open>A list that is not remembered continues the session that was matched, or begins one.\<close>

definition bind_unmatched ::
  "(string \<Rightarrow> string) \<Rightarrow> group_ref \<Rightarrow> lcp_group \<Rightarrow> prefix_match option \<times> prefix_matcher \<Rightarrow> bind_result \<times> prefix_matcher" where
  "bind_unmatched sha r fresh matched =
     (let g = (case fst matched of
                 None \<Rightarrow> fresh
               | Some p \<Rightarrow>
                   fresh\<lparr>lg_session := px_session p, lg_parent := px_parent p, lg_fork := px_is_fork p,
                         lg_compaction := px_is_compaction p, lg_kind := px_kind p,
                         lg_auth := (if px_is_compaction p \<and> px_auth p \<noteq> [] \<and> lg_auth fresh = [] then px_auth p
                                     else lg_auth fresh)\<rparr>);
          g = (if lg_session g = []
               then g\<lparr>lg_session := new_lcp_session_id sha (fst r) (first_key (lg_keys g) (lg_min g))\<rparr> else g)
      in bind_group sha r g (snd matched))"

definition bind_locked ::
  "(string \<Rightarrow> string) \<Rightarrow> string \<Rightarrow> string list \<Rightarrow> string list \<Rightarrow> string \<Rightarrow> nat \<Rightarrow> string \<Rightarrow> instant \<Rightarrow> prefix_matcher \<Rightarrow>
     bind_result \<times> prefix_matcher" where
  "bind_locked sha n fps tail_fps0 env0 min_length auth now m0 =
     (let tail_fps = (if tail_fps0 = [] then extract_tail_fingerprints fps else tail_fps0);
          env = (if env0 = [] then fallback_environment_digest sha fps min_length else env0);
          r = (n, sequence_key sha fps);
          fresh = \<lparr>lg_auth = auth, lg_session = [], lg_parent = [], lg_min = min_length, lg_fork = False,
                   lg_compaction = False, lg_kind = [], lg_env = env, lg_fps = fps, lg_tails = tail_fps,
                   lg_keys = rolling_prefix_keys sha fps, lg_expires = now + pm_ttl m0, lg_access = 0\<rparr>
      in case group_at m0 r of
           Some e \<Rightarrow>
             if now < lg_expires e then
               bind_group sha r (fresh\<lparr>lg_session := lg_session e, lg_parent := lg_parent e, lg_fork := lg_fork e,
                                       lg_compaction := lg_compaction e, lg_kind := lg_kind e, lg_keys := lg_keys e\<rparr>)
                 (remove_group r m0)
             else bind_unmatched sha r fresh (match_locked sha n fps tail_fps env min_length now (remove_group r m0))
         | None \<Rightarrow> bind_unmatched sha r fresh (match_locked sha n fps tail_fps env min_length now m0))"

text \<open>Nothing of a group changes hands while it is live, except from the pending owner.\<close>

definition touch_locked ::
  "(string \<Rightarrow> string) \<Rightarrow> string \<Rightarrow> string list \<Rightarrow> string list \<Rightarrow> string \<Rightarrow> nat \<Rightarrow> string \<Rightarrow> instant \<Rightarrow> prefix_matcher \<Rightarrow>
     bool \<times> prefix_matcher" where
  "touch_locked sha n fps tail_fps env min_length auth now m0 =
     (let r = (n, sequence_key sha fps) in
      case group_at m0 r of
        None \<Rightarrow> (True, snd (bind_locked sha n fps tail_fps env min_length auth now m0))
      | Some e \<Rightarrow>
          if \<not> now < lg_expires e then
            (True, snd (bind_locked sha n fps tail_fps env min_length auth now (remove_group r m0)))
          else if lg_auth e \<noteq> auth \<and> \<not> (lg_auth e = ''home-pending'' \<or> lg_auth e = []) then (False, m0)
          else
            let (x, m) = next_access m0;
                e = e\<lparr>lg_auth := auth, lg_expires := now + pm_ttl m, lg_access := x, lg_env := env\<rparr>;
                m = set_group r e m;
                m = (if tail_fps \<noteq> [] \<and> lg_tails e \<noteq> tail_fps
                     then add_group sha r (e\<lparr>lg_tails := tail_fps\<rparr>) (remove_group r m) else m)
            in (True, move_to_back r m))"

definition group_refs :: "prefix_matcher \<Rightarrow> group_ref list" where
  "group_refs m = concat (map (\<lambda>(n, ns). map (\<lambda>(key, _). (n, key)) (ln_groups ns)) (pm_groups m))"

definition refs_where :: "(lcp_group \<Rightarrow> bool) \<Rightarrow> prefix_matcher \<Rightarrow> group_ref list" where
  "refs_where P m = filter (\<lambda>r. case group_at m r of None \<Rightarrow> False | Some g \<Rightarrow> P g) (group_refs m)"

definition cleanup_locked :: "instant \<Rightarrow> prefix_matcher \<Rightarrow> prefix_matcher" where
  "cleanup_locked now m = fold remove_group (refs_where (\<lambda>g. \<not> now < lg_expires g) m) m"

definition prepare_locked :: "instant \<Rightarrow> prefix_matcher \<Rightarrow> prefix_matcher" where
  "prepare_locked now m0 =
     (let m = m0\<lparr>pm_operations := pm_operations m0 + 1\<rparr>
      in if pm_operations m mod 128 = 0 then cleanup_locked now m else m)"

definition sanitize_fingerprints :: "prefix_matcher \<Rightarrow> string list \<Rightarrow> nat \<Rightarrow> (string list \<times> nat) option" where
  "sanitize_fingerprints m fps min_length =
     (if fps = [] \<or> min_length = 0 \<or> min_length > length fps then None
      else
        let max_turns = (if pm_max_turns m = 0 then defaultMatcherMaxTurns else pm_max_turns m) in
        if length fps > max_turns then
          if min_length > max_turns then None else Some (take max_turns fps, min_length)
        else Some (fps, min_length))"

text \<open>What the caller does not say of the tail and of the environment is taken from the fingerprints.\<close>

definition tail_or_default :: "string list \<Rightarrow> string list \<Rightarrow> string list" where
  "tail_or_default tail_fps fps = (if tail_fps = [] then extract_tail_fingerprints fps else tail_fps)"

definition env_or_default :: "(string \<Rightarrow> string) \<Rightarrow> string \<Rightarrow> string list \<Rightarrow> nat \<Rightarrow> string" where
  "env_or_default sha env fps min_length = (if env = [] then fallback_environment_digest sha fps min_length else env)"

definition match_fingerprints_with_context ::
  "(string \<Rightarrow> string) \<Rightarrow> instant \<Rightarrow> string \<Rightarrow> string list \<Rightarrow> string list \<Rightarrow> string \<Rightarrow> nat \<Rightarrow> prefix_matcher \<Rightarrow>
     prefix_match option \<times> prefix_matcher" where
  "match_fingerprints_with_context sha now n fps tail_fps env min_length m =
     (if n = [] then (None, m)
      else case sanitize_fingerprints m fps min_length of
        None \<Rightarrow> (None, m)
      | Some (fps', min') \<Rightarrow>
          match_locked sha n fps' (tail_or_default tail_fps fps) (env_or_default sha env fps min_length) min' now
            (prepare_locked now m))"

definition bind_fingerprints_with_context ::
  "(string \<Rightarrow> string) \<Rightarrow> instant \<Rightarrow> string \<Rightarrow> string list \<Rightarrow> string list \<Rightarrow> string \<Rightarrow> nat \<Rightarrow> string \<Rightarrow> prefix_matcher \<Rightarrow>
     bind_result \<times> prefix_matcher" where
  "bind_fingerprints_with_context sha now n fps tail_fps env min_length auth m =
     (if trim_space n = [] \<or> trim_space auth = [] then (empty_bind_result, m)
      else case sanitize_fingerprints m fps min_length of
        None \<Rightarrow> (empty_bind_result, m)
      | Some (fps', min') \<Rightarrow>
          bind_locked sha n fps' (tail_or_default tail_fps fps) (env_or_default sha env fps min_length) min'
            (trim_space auth) now (prepare_locked now m))"

definition touch_fingerprints_with_context ::
  "(string \<Rightarrow> string) \<Rightarrow> instant \<Rightarrow> string \<Rightarrow> string list \<Rightarrow> string list \<Rightarrow> string \<Rightarrow> nat \<Rightarrow> string \<Rightarrow> prefix_matcher \<Rightarrow>
     bool \<times> prefix_matcher" where
  "touch_fingerprints_with_context sha now n fps tail_fps env min_length auth m =
     (if trim_space n = [] \<or> trim_space auth = [] then (False, m)
      else case sanitize_fingerprints m fps min_length of
        None \<Rightarrow> (False, m)
      | Some (fps', min') \<Rightarrow>
          touch_locked sha n fps' (tail_or_default tail_fps fps) (env_or_default sha env fps min_length) min'
            (trim_space auth) now (prepare_locked now m))"

definition match_fingerprints ::
  "(string \<Rightarrow> string) \<Rightarrow> instant \<Rightarrow> string \<Rightarrow> string list \<Rightarrow> nat \<Rightarrow> prefix_matcher \<Rightarrow> prefix_match option \<times> prefix_matcher" where
  "match_fingerprints sha now n fps min_length m =
     match_fingerprints_with_context sha now n fps (extract_tail_fingerprints fps)
       (fallback_environment_digest sha fps min_length) min_length m"

definition bind_fingerprints ::
  "(string \<Rightarrow> string) \<Rightarrow> instant \<Rightarrow> string \<Rightarrow> string list \<Rightarrow> nat \<Rightarrow> string \<Rightarrow> prefix_matcher \<Rightarrow> bind_result \<times> prefix_matcher" where
  "bind_fingerprints sha now n fps min_length auth m =
     bind_fingerprints_with_context sha now n fps (extract_tail_fingerprints fps)
       (fallback_environment_digest sha fps min_length) min_length auth m"

definition touch_fingerprints ::
  "(string \<Rightarrow> string) \<Rightarrow> instant \<Rightarrow> string \<Rightarrow> string list \<Rightarrow> nat \<Rightarrow> string \<Rightarrow> prefix_matcher \<Rightarrow> bool \<times> prefix_matcher" where
  "touch_fingerprints sha now n fps min_length auth m =
     touch_fingerprints_with_context sha now n fps (extract_tail_fingerprints fps)
       (fallback_environment_digest sha fps min_length) min_length auth m"

definition remove_fingerprints_before ::
  "(string \<Rightarrow> string) \<Rightarrow> instant \<Rightarrow> string \<Rightarrow> string list \<Rightarrow> string \<Rightarrow> 64 word \<Rightarrow> prefix_matcher \<Rightarrow> bool \<times> prefix_matcher" where
  "remove_fingerprints_before sha now n fps0 auth max_generation m0 =
     (if n = [] \<or> auth = [] \<or> fps0 = [] then (False, m0)
      else
        let fps = take (if pm_max_turns m0 = 0 then defaultMatcherMaxTurns else pm_max_turns m0) fps0;
            m = prepare_locked now m0;
            r = (n, sequence_key sha fps)
        in case group_at m r of
             None \<Rightarrow> (False, m)
           | Some g \<Rightarrow>
               if lg_auth g \<noteq> auth then (False, m)
               else if max_generation > 0 \<and> lg_access g > max_generation then (False, m)
               else (True, remove_group r m))"

definition remove_fingerprints ::
  "(string \<Rightarrow> string) \<Rightarrow> instant \<Rightarrow> string \<Rightarrow> string list \<Rightarrow> string \<Rightarrow> prefix_matcher \<Rightarrow> bool \<times> prefix_matcher" where
  "remove_fingerprints sha now n fps auth m = remove_fingerprints_before sha now n fps auth 0 m"

definition invalidate_auth :: "string \<Rightarrow> prefix_matcher \<Rightarrow> prefix_matcher" where
  "invalidate_auth auth m =
     (if auth = [] then m else fold remove_group (refs_where (\<lambda>g. lg_auth g = auth) m) m)"

text \<open>The access numbers go on, so that a request of before does not remove a binding of after.\<close>

definition clear_matcher :: "prefix_matcher \<Rightarrow> prefix_matcher" where
  "clear_matcher m = m\<lparr>pm_groups := [], pm_lru := [], pm_group_count := 0, pm_prefix_count := 0\<rparr>"

text \<open>The credentials bound to a session. Bindings that have expired are removed on the way. The namespace
  is that of the first binding found.\<close>

definition lookup_session ::
  "instant \<Rightarrow> string \<Rightarrow> prefix_matcher \<Rightarrow> (string list \<times> string) option \<times> prefix_matcher" where
  "lookup_session now session m =
     (if session = [] then (None, m)
      else
        let active = refs_where (\<lambda>g. lg_session g = session \<and> now < lg_expires g) m;
            m' = fold remove_group (refs_where (\<lambda>g. lg_session g = session \<and> \<not> now < lg_expires g) m) m;
            auths = sort (remdups (filter (\<lambda>a. a \<noteq> []) (List.map_filter (\<lambda>r. map_option lg_auth (group_at m r)) active)))
        in case active of
             [] \<Rightarrow> (None, m')
           | r # _ \<Rightarrow> (if auths = [] then None else Some (auths, fst r), m'))"

end
