(* ===== verification/Session_Index.thy ===== *)
theory Session_Index
  imports Session_Matcher
begin

text \<open>
  The invariant of the index of conversations: the buckets hold exactly the groups whose prefixes
  they index, the list of uses names every group once, and the counts are those of the groups.
\<close>

declare map_of_eq_Some_iff [simp del]

section \<open>Rolling keys\<close>

lemma length_rolling_from [simp]: "length (rolling_from sha i p fps) = length fps"
  by (induction sha i p fps rule: rolling_from.induct) (simp_all add: Let_def)

lemma rolling_from_take: "rolling_from sha i p (take k fps) = take k (rolling_from sha i p fps)"
  by (induction sha i p fps arbitrary: k rule: rolling_from.induct) (simp_all add: Let_def take_Cons split: nat.split)

lemma length_rolling [simp]: "length (rolling_prefix_keys sha fps) = length fps"
  by (simp add: rolling_prefix_keys_def)

lemma rolling_Nil_iff [simp]: "rolling_prefix_keys sha fps = [] \<longleftrightarrow> fps = []"
  by (metis length_rolling length_0_conv)

lemma rolling_take: "rolling_prefix_keys sha (take k fps) = take k (rolling_prefix_keys sha fps)"
  by (simp add: rolling_prefix_keys_def rolling_from_take)

lemma rolling_nth_take: "i < k \<Longrightarrow> i < length fps \<Longrightarrow> rolling_prefix_keys sha fps ! i = rolling_prefix_keys sha (take k fps) ! i"
  by (simp add: rolling_take)

lemma sequence_key_last: "fps \<noteq> [] \<Longrightarrow> sequence_key sha fps = last (rolling_prefix_keys sha fps)"
  by (simp add: sequence_key_def Let_def)

text \<open>A list that shares a prefix has the key of that prefix.\<close>

lemma shared_prefix_key:
  assumes "0 < k" and "k \<le> length fps" and "take k gs = take k fps" and "k \<le> length gs"
  shows "rolling_prefix_keys sha fps ! (k - 1) \<in> set (rolling_prefix_keys sha gs)"
proof -
  have "rolling_prefix_keys sha fps ! (k - 1) = rolling_prefix_keys sha gs ! (k - 1)"
    using assms rolling_nth_take [of "k - 1" k fps sha] rolling_nth_take [of "k - 1" k gs sha] by simp
  with assms(1,4) show ?thesis by (simp add: nth_mem)
qed

section \<open>Buckets\<close>

lemma bucket_at_update [simp]: "bucket_at (AList.update k b idx) j = (if j = k then b else bucket_at idx j)"
  by (simp add: bucket_at_def map_of_update)

lemma bucket_at_set_bucket [simp]: "bucket_at (set_bucket k b idx) j = (if j = k then b else bucket_at idx j)"
  by (simp add: set_bucket_def bucket_at_def map_of_update map_of_delete)

lemma set_bucket_add: "set (bucket_at (add_member key k idx) j) = set (bucket_at idx j) \<union> (if j = k then {key} else {})"
  by (auto simp: add_member_def)

lemma set_bucket_drop: "set (bucket_at (drop_member key k idx) j) = set (bucket_at idx j) - (if j = k then {key} else {})"
  by (auto simp: drop_member_def split: option.split) (auto simp: bucket_at_def)

lemma set_bucket_adds:
  "set (bucket_at (fold (add_member key) ks idx) j) = set (bucket_at idx j) \<union> (if j \<in> set ks then {key} else {})"
  by (induction ks arbitrary: idx) (auto simp: set_bucket_add)

lemma set_bucket_drops:
  "set (bucket_at (fold (drop_member key) ks idx) j) = set (bucket_at idx j) - (if j \<in> set ks then {key} else {})"
  by (induction ks arbitrary: idx) (auto simp: set_bucket_drop)

section \<open>A namespace\<close>

definition group_ok :: "(string \<Rightarrow> string) \<Rightarrow> nat \<Rightarrow> string \<Rightarrow> lcp_group \<Rightarrow> bool" where
  "group_ok sha cap key g \<longleftrightarrow>
     lg_fps g \<noteq> [] \<and> length (lg_fps g) \<le> cap \<and> lg_keys g = rolling_prefix_keys sha (lg_fps g) \<and>
     key = sequence_key sha (lg_fps g)"

text \<open>Of the index of tails, groups that have expired may be missing.\<close>

definition prefixes_exact :: "lcp_namespace \<Rightarrow> bool" where
  "prefixes_exact ns \<longleftrightarrow>
     (\<forall>p key. key \<in> set (bucket_at (ln_prefixes ns) p) \<longleftrightarrow>
        (\<exists>g. map_of (ln_groups ns) key = Some g \<and> p \<in> set (lg_keys g)))"

definition tails_exact :: "instant \<Rightarrow> lcp_namespace \<Rightarrow> bool" where
  "tails_exact T ns \<longleftrightarrow>
     (\<forall>t key. key \<in> set (bucket_at (ln_tails ns) t) \<longrightarrow>
        (\<exists>g. map_of (ln_groups ns) key = Some g \<and> last_tail_key (tails_of g) = Some t)) \<and>
     (\<forall>key g t. map_of (ln_groups ns) key = Some g \<longrightarrow> T < lg_expires g \<longrightarrow> last_tail_key (tails_of g) = Some t \<longrightarrow>
        key \<in> set (bucket_at (ln_tails ns) t))"

definition ns_ok :: "(string \<Rightarrow> string) \<Rightarrow> nat \<Rightarrow> instant \<Rightarrow> lcp_namespace \<Rightarrow> bool" where
  "ns_ok sha cap T ns \<longleftrightarrow>
     distinct (map fst (ln_groups ns)) \<and>
     (\<forall>key g. map_of (ln_groups ns) key = Some g \<longrightarrow> group_ok sha cap key g) \<and>
     prefixes_exact ns \<and> tails_exact T ns"

lemma ns_ok_empty [simp]: "ns_ok sha cap T empty_namespace"
  by (simp add: ns_ok_def prefixes_exact_def tails_exact_def empty_namespace_def bucket_at_def)

lemma tails_exact_mono: "tails_exact T ns \<Longrightarrow> T \<le> T' \<Longrightarrow> tails_exact T' ns"
  unfolding tails_exact_def by (meson order_le_less_trans)

lemma ns_ok_mono: "ns_ok sha cap T ns \<Longrightarrow> T \<le> T' \<Longrightarrow> ns_ok sha cap T' ns"
  by (auto simp: ns_ok_def intro: tails_exact_mono)

lemma tails_exactD:
  assumes "tails_exact T ns"
  shows "map_of (ln_groups ns) key = Some g \<Longrightarrow> key \<in> set (bucket_at (ln_tails ns) t) \<Longrightarrow> last_tail_key (tails_of g) = Some t"
    and "map_of (ln_groups ns) key = None \<Longrightarrow> key \<notin> set (bucket_at (ln_tails ns) t)"
    and "map_of (ln_groups ns) key = Some g \<Longrightarrow> T < lg_expires g \<Longrightarrow> last_tail_key (tails_of g) = Some t \<Longrightarrow>
      key \<in> set (bucket_at (ln_tails ns) t)"
  using assms unfolding tails_exact_def by (metis option.inject, metis option.distinct(1), metis)

lemma tails_exactI:
  assumes "\<And>key t. key \<in> set (bucket_at (ln_tails ns) t) \<Longrightarrow>
      \<exists>g. map_of (ln_groups ns) key = Some g \<and> last_tail_key (tails_of g) = Some t"
    and "\<And>key g t. map_of (ln_groups ns) key = Some g \<Longrightarrow> T < lg_expires g \<Longrightarrow> last_tail_key (tails_of g) = Some t \<Longrightarrow>
      key \<in> set (bucket_at (ln_tails ns) t)"
  shows "tails_exact T ns"
  using assms unfolding tails_exact_def by blast

lemma unlink_groups [simp]: "ln_groups (unlink_group key g ns) = AList.delete key (ln_groups ns)"
  by (simp add: unlink_group_def)

lemma link_groups [simp]: "ln_groups (link_group key g ns) = AList.update key g (ln_groups ns)"
  by (simp add: link_group_def)

lemma unlink_tails:
  "set (bucket_at (ln_tails (unlink_group key g ns)) t) =
     set (bucket_at (ln_tails ns) t) - (if last_tail_key (tails_of g) = Some t then {key} else {})"
  by (auto simp: unlink_group_def set_bucket_drop split: option.split if_splits)

lemma link_tails:
  "set (bucket_at (ln_tails (link_group key g ns)) t) =
     set (bucket_at (ln_tails ns) t) \<union> (if last_tail_key (tails_of g) = Some t then {key} else {})"
  by (auto simp: link_group_def set_bucket_add split: option.split if_splits)

lemma unlink_tails_exact:
  assumes ts: "tails_exact T ns" and g: "map_of (ln_groups ns) key = Some g"
  shows "tails_exact T (unlink_group key g ns)"
proof (rule tails_exactI)
  fix k t
  assume k: "k \<in> set (bucket_at (ln_tails (unlink_group key g ns)) t)"
  then have "k \<noteq> key" using tails_exactD(1) [OF ts g, of t] by (auto simp: unlink_tails split: if_splits)
  with k show "\<exists>g'. map_of (ln_groups (unlink_group key g ns)) k = Some g' \<and> last_tail_key (tails_of g') = Some t"
    using ts unfolding tails_exact_def by (simp add: unlink_tails map_of_delete)
next
  fix k g' t
  assume "map_of (ln_groups (unlink_group key g ns)) k = Some g'" and "T < lg_expires g'" "last_tail_key (tails_of g') = Some t"
  then show "k \<in> set (bucket_at (ln_tails (unlink_group key g ns)) t)"
    using tails_exactD(3) [OF ts, of k g' t] by (auto simp: unlink_tails map_of_delete split: if_splits)
qed

lemma link_tails_exact:
  assumes ts: "tails_exact T ns" and new: "map_of (ln_groups ns) key = None"
  shows "tails_exact T (link_group key g ns)"
proof (rule tails_exactI)
  fix k t
  assume k: "k \<in> set (bucket_at (ln_tails (link_group key g ns)) t)"
  show "\<exists>g'. map_of (ln_groups (link_group key g ns)) k = Some g' \<and> last_tail_key (tails_of g') = Some t"
  proof (cases "k = key")
    case True
    with k have "last_tail_key (tails_of g) = Some t"
      using tails_exactD(2) [OF ts new, of t] by (auto simp: link_tails split: if_splits)
    with True show ?thesis by (simp add: map_of_update)
  next
    case False
    with k ts show ?thesis unfolding tails_exact_def by (auto simp: link_tails map_of_update split: if_splits)
  qed
next
  fix k g' t
  assume "map_of (ln_groups (link_group key g ns)) k = Some g'" and "T < lg_expires g'" "last_tail_key (tails_of g') = Some t"
  then show "k \<in> set (bucket_at (ln_tails (link_group key g ns)) t)"
    using tails_exactD(3) [OF ts, of k g' t] by (auto simp: link_tails map_of_update split: if_splits)
qed

lemma set_tails_exact:
  assumes ts: "tails_exact T ns" and g: "map_of (ln_groups ns) key = Some g" and "T < lg_expires g"
    and t: "tails_of g' = tails_of g"
  shows "tails_exact T (ns\<lparr>ln_groups := AList.update key g' (ln_groups ns)\<rparr>)"
proof (rule tails_exactI)
  fix k t
  assume k: "k \<in> set (bucket_at (ln_tails (ns\<lparr>ln_groups := AList.update key g' (ln_groups ns)\<rparr>)) t)"
  show "\<exists>g''. map_of (ln_groups (ns\<lparr>ln_groups := AList.update key g' (ln_groups ns)\<rparr>)) k = Some g'' \<and>
      last_tail_key (tails_of g'') = Some t"
  proof (cases "k = key")
    case True
    with k tails_exactD(1) [OF ts g, of t] t show ?thesis by (simp add: map_of_update)
  next
    case False
    with k ts show ?thesis unfolding tails_exact_def by (simp add: map_of_update)
  qed
next
  fix k g'' t
  assume "map_of (ln_groups (ns\<lparr>ln_groups := AList.update key g' (ln_groups ns)\<rparr>)) k = Some g''"
    and "T < lg_expires g''" "last_tail_key (tails_of g'') = Some t"
  then show "k \<in> set (bucket_at (ln_tails (ns\<lparr>ln_groups := AList.update key g' (ln_groups ns)\<rparr>)) t)"
    using tails_exactD(3) [OF ts g assms(3), of t] tails_exactD(3) [OF ts, of k g'' t] assms(4)
    by (auto simp: map_of_update split: if_splits)
qed

lemma unlink_ok:
  assumes "ns_ok sha cap T ns" and "map_of (ln_groups ns) key = Some g"
  shows "ns_ok sha cap T (unlink_group key g ns)"
proof -
  have "prefixes_exact (unlink_group key g ns)"
    using assms by (auto simp: ns_ok_def prefixes_exact_def unlink_group_def set_bucket_drops map_of_delete)
  with assms show ?thesis by (auto simp: ns_ok_def map_of_delete distinct_delete unlink_tails_exact)
qed

lemma link_ok:
  assumes "ns_ok sha cap T ns" and "map_of (ln_groups ns) key = None" and "group_ok sha cap key g"
  shows "ns_ok sha cap T (link_group key g ns)"
proof -
  have "prefixes_exact (link_group key g ns)"
    using assms by (auto simp: ns_ok_def prefixes_exact_def link_group_def set_bucket_adds map_of_update)
  with assms show ?thesis by (auto simp: ns_ok_def map_of_update distinct_update link_tails_exact)
qed

text \<open>A live group that changes neither its lists nor its keys stays where it is indexed.\<close>

lemma set_ok:
  assumes "ns_ok sha cap T ns" and "map_of (ln_groups ns) key = Some g" and "T < lg_expires g"
    and "lg_fps g' = lg_fps g" and "lg_keys g' = lg_keys g" and "lg_tails g' = lg_tails g"
  shows "ns_ok sha cap T (ns\<lparr>ln_groups := AList.update key g' (ln_groups ns)\<rparr>)"
proof -
  have t: "tails_of g' = tails_of g" using assms by (simp add: tails_of_def)
  have "prefixes_exact (ns\<lparr>ln_groups := AList.update key g' (ln_groups ns)\<rparr>)"
    using assms by (auto simp: ns_ok_def prefixes_exact_def map_of_update)
  moreover have "tails_exact T (ns\<lparr>ln_groups := AList.update key g' (ln_groups ns)\<rparr>)"
    using assms t by (intro set_tails_exact) (simp_all add: ns_ok_def)
  moreover have "group_ok sha cap key g'" using assms by (simp add: ns_ok_def group_ok_def)
  ultimately show ?thesis using assms(1) by (simp add: ns_ok_def map_of_update distinct_update)
qed

section \<open>The matcher\<close>

definition group_size :: "prefix_matcher \<Rightarrow> group_ref \<Rightarrow> nat" where
  "group_size m r = (case group_at m r of None \<Rightarrow> 0 | Some g \<Rightarrow> length (lg_keys g))"

definition namespaces_ok :: "(string \<Rightarrow> string) \<Rightarrow> instant \<Rightarrow> prefix_matcher \<Rightarrow> bool" where
  "namespaces_ok sha T m \<longleftrightarrow>
     distinct (map fst (pm_groups m)) \<and>
     (\<forall>n ns. map_of (pm_groups m) n = Some ns \<longrightarrow> ln_groups ns \<noteq> [] \<and> ns_ok sha (pm_max_turns m) T ns)"

definition uses_exact :: "prefix_matcher \<Rightarrow> bool" where
  "uses_exact m \<longleftrightarrow>
     distinct (pm_lru m) \<and> (\<forall>r. r \<in> set (pm_lru m) \<longleftrightarrow> group_at m r \<noteq> None) \<and>
     pm_group_count m = length (pm_lru m) \<and> pm_prefix_count m = (\<Sum>r\<in>set (pm_lru m). group_size m r)"

lemma uses_exactD: "uses_exact m \<Longrightarrow> r \<in> set (pm_lru m) \<longleftrightarrow> group_at m r \<noteq> None"
  by (cases r) (simp add: uses_exact_def)

definition matcher_core :: "(string \<Rightarrow> string) \<Rightarrow> instant \<Rightarrow> prefix_matcher \<Rightarrow> bool" where
  "matcher_core sha T m \<longleftrightarrow>
     namespaces_ok sha T m \<and> uses_exact m \<and>
     0 < pm_max_turns m \<and> 0 < pm_max_groups m \<and> pm_max_turns m \<le> pm_max_prefixes m \<and> 0 < pm_ttl m"

definition matcher_sound :: "(string \<Rightarrow> string) \<Rightarrow> instant \<Rightarrow> prefix_matcher \<Rightarrow> bool" where
  "matcher_sound sha T m \<longleftrightarrow> matcher_core sha T m \<and> \<not> over_limits m"

lemma namespaces_ok_mono: "namespaces_ok sha T m \<Longrightarrow> T \<le> T' \<Longrightarrow> namespaces_ok sha T' m"
  by (auto simp: namespaces_ok_def intro: ns_ok_mono)

lemma matcher_core_mono: "matcher_core sha T m \<Longrightarrow> T \<le> T' \<Longrightarrow> matcher_core sha T' m"
  by (auto simp: matcher_core_def intro: namespaces_ok_mono)

lemma matcher_sound_mono: "matcher_sound sha T m \<Longrightarrow> T \<le> T' \<Longrightarrow> matcher_sound sha T' m"
  by (auto simp: matcher_sound_def intro: matcher_core_mono)

lemma matcher_core_group:
  assumes "matcher_core sha T m" and "group_at m r = Some g"
  shows "group_ok sha (pm_max_turns m) (snd r) g"
  using assms by (auto simp: matcher_core_def namespaces_ok_def ns_ok_def group_at_def split: option.splits)

text \<open>What an operation leaves alone.\<close>

definition same_limits :: "prefix_matcher \<Rightarrow> prefix_matcher \<Rightarrow> bool" where
  "same_limits m m' \<longleftrightarrow>
     pm_ttl m' = pm_ttl m \<and> pm_max_turns m' = pm_max_turns m \<and> pm_max_groups m' = pm_max_groups m \<and>
     pm_max_prefixes m' = pm_max_prefixes m"

lemma same_limits_refl [simp]: "same_limits m m" by (simp add: same_limits_def)

lemma same_limits_trans: "same_limits a b \<Longrightarrow> same_limits b c \<Longrightarrow> same_limits a c" by (simp add: same_limits_def)

lemma new_matcher_sound [simp]: "matcher_sound sha T (new_matcher cfg)"
  by (auto simp: matcher_sound_def matcher_core_def new_matcher_def Let_def namespaces_ok_def uses_exact_def
      over_limits_def group_at_def hour_def defaultMatcherMaxTurns_def defaultMatcherMaxGroups_def
      defaultMatcherMaxPrefixes_def)

subsection \<open>Removal\<close>

lemma group_at_remove: "group_at (remove_group r m) r' = (if r' = r then None else group_at m r')"
proof -
  have e: "map_of al k' = None" if "AList.delete k al = []" "k' \<noteq> k" for al :: "(string \<times> lcp_group) list" and k k'
    using that map_of_delete [of k al k'] by simp
  show ?thesis
    by (cases r; cases r')
      (auto simp: remove_group_def group_at_def Let_def map_of_delete map_of_update e split: option.splits)
qed

lemma remove_group_same [simp]: "same_limits m (remove_group r m)"
  by (simp add: same_limits_def remove_group_def Let_def split: option.split)

lemma remove_group_counter [simp]:
  "pm_access (remove_group r m) = pm_access m" "pm_operations (remove_group r m) = pm_operations m"
  by (simp_all add: remove_group_def Let_def split: option.split)

lemma group_at_ns: "group_at m r = Some g \<Longrightarrow> \<exists>ns. map_of (pm_groups m) (fst r) = Some ns \<and> map_of (ln_groups ns) (snd r) = Some g"
  by (auto simp: group_at_def split: option.splits)

lemma namespaces_ok_remove:
  assumes "namespaces_ok sha T m"
  shows "namespaces_ok sha T (remove_group r m)"
proof (cases "group_at m r")
  case None
  then have "pm_groups (remove_group r m) = pm_groups m \<and> pm_max_turns (remove_group r m) = pm_max_turns m"
    by (auto simp: group_at_def remove_group_def split: option.splits)
  with assms show ?thesis by (simp add: namespaces_ok_def)
next
  case (Some g)
  then obtain ns where ns: "map_of (pm_groups m) (fst r) = Some ns" "map_of (ln_groups ns) (snd r) = Some g"
    using group_at_ns by blast
  with assms have "ns_ok sha (pm_max_turns m) T (unlink_group (snd r) g ns)"
    by (auto simp: namespaces_ok_def intro: unlink_ok)
  with assms ns show ?thesis
    by (auto simp: namespaces_ok_def remove_group_def Let_def map_of_delete map_of_update distinct_update distinct_delete
        split: if_splits)
qed

lemma uses_exact_remove:
  assumes "uses_exact m"
  shows "uses_exact (remove_group r m)"
proof (cases "group_at m r")
  case None
  with assms have "r \<notin> set (pm_lru m)" by (simp add: uses_exactD)
  with None have "remove_group r m = m"
    by (auto simp: remove_group_def group_at_def split: option.splits)
  with assms show ?thesis by simp
next
  case (Some g)
  then have r: "r \<in> set (pm_lru m)" and gs: "group_size m r = length (lg_keys g)"
    using assms by (auto simp: uses_exactD group_size_def)
  have counts: "pm_group_count (remove_group r m) = pm_group_count m - 1"
    "pm_prefix_count (remove_group r m) = pm_prefix_count m - length (lg_keys g)"
    using Some by (auto simp: group_at_def remove_group_def Let_def split: option.splits)
  have "length (removeAll r (pm_lru m)) = length (pm_lru m) - 1"
    using assms r by (simp add: uses_exact_def distinct_remove1_removeAll [symmetric] length_remove1)
  moreover have "(\<Sum>r\<in>set (pm_lru m). group_size m r) = group_size m r + (\<Sum>r'\<in>set (pm_lru m) - {r}. group_size m r')"
    using r by (simp add: sum.remove)
  moreover have "(\<Sum>r'\<in>set (pm_lru m) - {r}. group_size (remove_group r m) r') = (\<Sum>r'\<in>set (pm_lru m) - {r}. group_size m r')"
    by (rule sum.cong) (auto simp: group_size_def group_at_remove)
  ultimately show ?thesis
    using assms r gs counts by (auto simp: uses_exact_def group_at_remove distinct_removeAll)
qed

lemma matcher_core_remove: "matcher_core sha T m \<Longrightarrow> matcher_core sha T (remove_group r m)"
  using remove_group_same [of m r]
  by (auto simp: matcher_core_def same_limits_def intro: namespaces_ok_remove uses_exact_remove)

lemma remove_group_counts_le:
  "pm_group_count (remove_group r m) \<le> pm_group_count m" "pm_prefix_count (remove_group r m) \<le> pm_prefix_count m"
  by (simp_all add: remove_group_def Let_def split: option.split)

lemma matcher_sound_remove: "matcher_sound sha T m \<Longrightarrow> matcher_sound sha T (remove_group r m)"
  using remove_group_counts_le [of r m] remove_group_same [of m r] matcher_core_remove [of sha T m r]
  by (auto simp: matcher_sound_def over_limits_def same_limits_def)

lemma group_at_removes: "group_at (fold remove_group rs m) r = (if r \<in> set rs then None else group_at m r)"
  by (induction rs arbitrary: m) (auto simp: group_at_remove)

lemma matcher_sound_removes: "matcher_sound sha T m \<Longrightarrow> matcher_sound sha T (fold remove_group rs m)"
  by (induction rs arbitrary: m) (auto simp: matcher_sound_remove)

lemma removes_same [simp]: "same_limits m (fold remove_group rs m)"
  by (induction rs arbitrary: m) (auto intro: same_limits_trans [OF remove_group_same])

lemma removes_counter [simp]:
  "pm_access (fold remove_group rs m) = pm_access m" "pm_operations (fold remove_group rs m) = pm_operations m"
  by (induction rs arbitrary: m) simp_all

subsection \<open>Eviction\<close>

lemma evict_keeps:
  assumes "matcher_core sha T m"
  shows "matcher_core sha T (evict m) \<and> \<not> over_limits (evict m) \<and> same_limits m (evict m) \<and>
    (\<exists>k. pm_lru (evict m) = drop k (pm_lru m)) \<and>
    (\<forall>r. group_at (evict m) r = (if r \<in> set (pm_lru (evict m)) then group_at m r else None)) \<and>
    pm_access (evict m) = pm_access m \<and> pm_operations (evict m) = pm_operations m"
  using assms
proof (induction m rule: evict.induct)
  case (1 m)
  show ?case
  proof (cases "over_limits m")
    case False
    then have e: "evict m = m" by (subst evict.simps) simp
    have "\<exists>k. pm_lru m = drop k (pm_lru m)" by (rule exI [of _ 0]) simp
    moreover have "group_at m r = None" if "r \<notin> set (pm_lru m)" for r
      using 1(2) that uses_exactD [of m r] by (simp add: matcher_core_def)
    ultimately show ?thesis using e False 1(2) by simp
  next
    case True
    have "pm_lru m \<noteq> []"
    proof
      assume "pm_lru m = []"
      with 1(2) True show False by (simp add: matcher_core_def uses_exact_def over_limits_def)
    qed
    then obtain r rs where lru: "pm_lru m = r # rs" by (cases "pm_lru m") auto
    with True have e: "evict m = evict (remove_group r m)" by (subst evict.simps) simp
    have d: "r \<notin> set rs" using 1(2) lru by (simp add: matcher_core_def uses_exact_def)
    have rs: "pm_lru (remove_group r m) = rs" using lru d by simp
    note IH = 1(1) [OF True lru matcher_core_remove [OF 1(2)]]
    from IH obtain k where k: "pm_lru (evict (remove_group r m)) = drop k rs" using rs by auto
    then have "pm_lru (evict m) = drop (Suc k) (pm_lru m)" using e lru by simp
    moreover have "r \<notin> set (pm_lru (evict m))" using k e d in_set_dropD by fastforce
    ultimately show ?thesis
      using IH e same_limits_trans [OF remove_group_same [of m r]] by (auto simp: group_at_remove)
  qed
qed

lemma evict_groups:
  "matcher_core sha T m \<Longrightarrow> group_at (evict m) r = (if r \<in> set (pm_lru (evict m)) then group_at m r else None)"
  using evict_keeps [of sha T m] by blast

text \<open>The newest group survives the eviction that it causes.\<close>

lemma evict_newest:
  assumes "matcher_core sha T m" and "pm_lru m = rs @ [r]"
  shows "r \<in> set (pm_lru (evict m))"
  using assms
proof (induction m arbitrary: rs rule: evict.induct)
  case (1 m)
  show ?case
  proof (cases "over_limits m")
    case False
    then have "evict m = m" by (subst evict.simps) simp
    with 1(3) show ?thesis by simp
  next
    case True
    have "rs \<noteq> []"
    proof
      assume "rs = []"
      then have lru: "pm_lru m = [r]" using 1(3) by simp
      then have "pm_group_count m = 1" "pm_prefix_count m = group_size m r"
        using 1(2) by (simp_all add: matcher_core_def uses_exact_def)
      moreover obtain g where "group_at m r = Some g"
        using 1(2) lru uses_exactD [of m r] by (auto simp: matcher_core_def)
      ultimately have "pm_prefix_count m \<le> pm_max_turns m"
        using matcher_core_group [OF 1(2)] by (auto simp: group_ok_def group_size_def)
      with \<open>pm_group_count m = 1\<close> True 1(2) show False by (auto simp: over_limits_def matcher_core_def)
    qed
    then obtain q qs where q: "rs = q # qs" by (cases rs) auto
    then have lru: "pm_lru m = q # qs @ [r]" using 1(3) by simp
    with True have e: "evict m = evict (remove_group q m)" by (subst evict.simps) simp
    have "q \<notin> set (qs @ [r])" using 1(2) lru by (simp add: matcher_core_def uses_exact_def)
    then have "pm_lru (remove_group q m) = qs @ [r]" using lru by simp
    from 1(1) [OF True lru matcher_core_remove [OF 1(2)] this] e show ?thesis by simp
  qed
qed

subsection \<open>Addition\<close>

lemma group_at_link:
  "group_at (put_namespace n (link_group key g (namespace_locked n m)) m) r = (if r = (n, key) then Some g else group_at m r)"
  by (cases r)
    (auto simp: group_at_def put_namespace_def namespace_locked_def map_of_update empty_namespace_def split: option.split)

lemma put_namespace_fields [simp]:
  "pm_lru (put_namespace n ns m) = pm_lru m" "pm_group_count (put_namespace n ns m) = pm_group_count m"
  "pm_prefix_count (put_namespace n ns m) = pm_prefix_count m" "pm_access (put_namespace n ns m) = pm_access m"
  "pm_operations (put_namespace n ns m) = pm_operations m" "same_limits m (put_namespace n ns m)"
  "pm_max_turns (put_namespace n ns m) = pm_max_turns m" "pm_ttl (put_namespace n ns m) = pm_ttl m"
  "pm_max_groups (put_namespace n ns m) = pm_max_groups m" "pm_max_prefixes (put_namespace n ns m) = pm_max_prefixes m"
  by (simp_all add: put_namespace_def same_limits_def)

lemma namespaces_ok_put:
  assumes "namespaces_ok sha T m" and "ln_groups ns \<noteq> []" and "ns_ok sha (pm_max_turns m) T ns"
  shows "namespaces_ok sha T (put_namespace n ns m)"
  using assms by (auto simp: namespaces_ok_def put_namespace_def map_of_update distinct_update)

lemma namespace_locked_ok:
  "namespaces_ok sha T m \<Longrightarrow> ns_ok sha (pm_max_turns m) T (namespace_locked n m)"
  by (auto simp: namespaces_ok_def namespace_locked_def split: option.split)

lemma group_at_locked: "group_at m (n, key) = map_of (ln_groups (namespace_locked n m)) key"
  by (auto simp: group_at_def namespace_locked_def empty_namespace_def split: option.split)

lemma update_not_Nil [simp]: "AList.update k v al \<noteq> []"
  by (cases al) auto

text \<open>Everything but the groups, the uses and their counts.\<close>

definition linked :: "group_ref \<Rightarrow> lcp_group \<Rightarrow> prefix_matcher \<Rightarrow> prefix_matcher" where
  "linked r g m =
     (put_namespace (fst r) (link_group (snd r) g (namespace_locked (fst r) m)) m)
       \<lparr>pm_lru := pm_lru m @ [r], pm_group_count := pm_group_count m + 1,
        pm_prefix_count := pm_prefix_count m + length (lg_keys g)\<rparr>"

lemma group_at_lru [simp]: "group_at (m\<lparr>pm_lru := l\<rparr>) r = group_at m r" by (simp add: group_at_def)
lemma group_at_gc [simp]: "group_at (m\<lparr>pm_group_count := l\<rparr>) r = group_at m r" by (simp add: group_at_def)
lemma group_at_pc [simp]: "group_at (m\<lparr>pm_prefix_count := l\<rparr>) r = group_at m r" by (simp add: group_at_def)
lemma group_at_ac [simp]: "group_at (m\<lparr>pm_access := a\<rparr>) r = group_at m r" by (simp add: group_at_def)
lemma group_at_op [simp]: "group_at (m\<lparr>pm_operations := a\<rparr>) r = group_at m r" by (simp add: group_at_def)

lemma group_at_linked: "group_at (linked r g m) r' = (if r' = r then Some g else group_at m r')"
  using group_at_link [of "fst r" "snd r" g m r'] by (simp add: linked_def)

lemma linked_fields [simp]:
  "pm_lru (linked r g m) = pm_lru m @ [r]" "pm_group_count (linked r g m) = pm_group_count m + 1"
  "pm_prefix_count (linked r g m) = pm_prefix_count m + length (lg_keys g)"
  "pm_access (linked r g m) = pm_access m" "pm_operations (linked r g m) = pm_operations m"
  "pm_max_turns (linked r g m) = pm_max_turns m" "pm_max_groups (linked r g m) = pm_max_groups m"
  "pm_max_prefixes (linked r g m) = pm_max_prefixes m" "pm_ttl (linked r g m) = pm_ttl m"
  by (simp_all add: linked_def)

lemma linked_core:
  assumes "matcher_core sha T m" and "group_at m r = None" and "group_ok sha (pm_max_turns m) (snd r) g"
  shows "matcher_core sha T (linked r g m)"
proof -
  have ns: "namespaces_ok sha T m" and u: "uses_exact m" using assms(1) by (simp_all add: matcher_core_def)
  have "map_of (ln_groups (namespace_locked (fst r) m)) (snd r) = None"
    using assms(2) group_at_locked [of m "fst r" "snd r"] by simp
  then have "ns_ok sha (pm_max_turns m) T (link_group (snd r) g (namespace_locked (fst r) m))"
    using namespace_locked_ok [OF ns] assms(3) by (blast intro: link_ok)
  then have "namespaces_ok sha T (put_namespace (fst r) (link_group (snd r) g (namespace_locked (fst r) m)) m)"
    by (intro namespaces_ok_put ns) simp_all
  then have 1: "namespaces_ok sha T (linked r g m)" by (simp add: linked_def namespaces_ok_def)
  have r: "r \<notin> set (pm_lru m)" using u assms(2) uses_exactD [OF u, of r] by simp
  have sz: "group_size (linked r g m) r = length (lg_keys g)" by (simp add: group_size_def group_at_linked)
  have "(\<Sum>r'\<in>set (pm_lru m). group_size (linked r g m) r') = (\<Sum>r'\<in>set (pm_lru m). group_size m r')"
    using r by (intro sum.cong) (auto simp: group_size_def group_at_linked)
  then have "(\<Sum>r'\<in>set (pm_lru m @ [r]). group_size (linked r g m) r') = pm_prefix_count m + length (lg_keys g)"
    using r sz u by (simp add: uses_exact_def)
  then have 2: "uses_exact (linked r g m)"
    using u r uses_exactD [OF u] by (auto simp: uses_exact_def group_at_linked)
  show ?thesis using assms(1) 1 2 by (simp add: matcher_core_def)
qed

lemma matcher_core_access [simp]: "matcher_core sha T (m\<lparr>pm_access := a\<rparr>) = matcher_core sha T m"
  by (simp add: matcher_core_def namespaces_ok_def uses_exact_def group_size_def group_at_def)

lemma matcher_core_operations [simp]: "matcher_core sha T (m\<lparr>pm_operations := a\<rparr>) = matcher_core sha T m"
  by (simp add: matcher_core_def namespaces_ok_def uses_exact_def group_size_def group_at_def)

lemma add_group_linked:
  "group_ok sha cap key g \<Longrightarrow>
     add_group sha r g m = evict (linked r (g\<lparr>lg_access := pm_access m + 1\<rparr>) (m\<lparr>pm_access := pm_access m + 1\<rparr>))"
  by (cases g) (auto simp: add_group_def next_access_def linked_def group_ok_def Let_def)

text \<open>What an addition does: the group is there with the next access number, older groups may have gone.\<close>

lemma add_group_spec:
  assumes "matcher_core sha T m" and "group_at m r = None" and "group_ok sha (pm_max_turns m) (snd r) g"
  shows "matcher_sound sha T (add_group sha r g m)" and "same_limits m (add_group sha r g m)"
    and "pm_access (add_group sha r g m) = pm_access m + 1"
    and "pm_operations (add_group sha r g m) = pm_operations m"
    and "\<exists>k. pm_lru (add_group sha r g m) = drop k (pm_lru m @ [r])"
    and "group_at (add_group sha r g m) r = Some (g\<lparr>lg_access := pm_access m + 1\<rparr>)"
    and "r' \<noteq> r \<Longrightarrow> group_at (add_group sha r g m) r' =
      (if r' \<in> set (pm_lru (add_group sha r g m)) then group_at m r' else None)"
proof -
  let ?g = "g\<lparr>lg_access := pm_access m + 1\<rparr>" and ?m = "m\<lparr>pm_access := pm_access m + 1\<rparr>"
  have e: "add_group sha r g m = evict (linked r ?g ?m)" by (rule add_group_linked [OF assms(3)])
  have core: "matcher_core sha T (linked r ?g ?m)"
    using assms by (intro linked_core) (simp_all add: group_ok_def)
  have lru: "pm_lru (linked r ?g ?m) = pm_lru m @ [r]" by (simp add: linked_def)
  have lim: "same_limits m (linked r ?g ?m)" by (simp add: linked_def same_limits_def)
  note ev = evict_keeps [OF core] and new = evict_newest [OF core lru]
  show "matcher_sound sha T (add_group sha r g m)" using ev e by (simp add: matcher_sound_def)
  show "same_limits m (add_group sha r g m)" using ev e same_limits_trans [OF lim] by simp
  show "pm_access (add_group sha r g m) = pm_access m + 1" using ev e by (simp add: linked_def)
  show "pm_operations (add_group sha r g m) = pm_operations m" using ev e by (simp add: linked_def)
  show "\<exists>k. pm_lru (add_group sha r g m) = drop k (pm_lru m @ [r])" using ev e lru by simp
  show "group_at (add_group sha r g m) r = Some ?g" using e new evict_groups [OF core, of r] by (simp add: group_at_linked)
  show "r' \<noteq> r \<Longrightarrow> group_at (add_group sha r g m) r' =
      (if r' \<in> set (pm_lru (add_group sha r g m)) then group_at m r' else None)"
    using e evict_groups [OF core, of r'] by (simp add: group_at_linked)
qed

subsection \<open>Refreshing a group\<close>

lemma group_at_set: "group_at m r \<noteq> None \<Longrightarrow> group_at (set_group r g m) r' = (if r' = r then Some g else group_at m r')"
  by (cases r; cases r')
    (auto simp: group_at_def set_group_def put_namespace_def map_of_update split: option.splits)

lemma set_group_fields [simp]:
  "pm_lru (set_group r g m) = pm_lru m" "pm_group_count (set_group r g m) = pm_group_count m"
  "pm_prefix_count (set_group r g m) = pm_prefix_count m" "pm_access (set_group r g m) = pm_access m"
  "pm_operations (set_group r g m) = pm_operations m" "same_limits m (set_group r g m)"
  "over_limits (set_group r g m) = over_limits m"
  by (simp_all add: set_group_def over_limits_def split: option.split)

lemma set_group_core:
  assumes "matcher_core sha T m" and "group_at m r = Some g" and "T < lg_expires g"
    and "lg_fps g' = lg_fps g" and "lg_keys g' = lg_keys g" and "lg_tails g' = lg_tails g"
  shows "matcher_core sha T (set_group r g' m)"
proof -
  obtain ns where ns: "map_of (pm_groups m) (fst r) = Some ns" "map_of (ln_groups ns) (snd r) = Some g"
    using group_at_ns [OF assms(2)] by blast
  have nok: "namespaces_ok sha T m" and u: "uses_exact m" using assms(1) by (simp_all add: matcher_core_def)
  then have "ns_ok sha (pm_max_turns m) T (ns\<lparr>ln_groups := AList.update (snd r) g' (ln_groups ns)\<rparr>)"
    using ns assms by (intro set_ok) (auto simp: namespaces_ok_def)
  with ns have "namespaces_ok sha T (set_group r g' m)"
    by (simp add: set_group_def namespaces_ok_put nok)
  moreover have "uses_exact (set_group r g' m)"
  proof -
    have "group_size (set_group r g' m) r' = group_size m r'" for r'
      using assms(2,5) by (simp add: group_size_def group_at_set)
    then show ?thesis using u uses_exactD [OF u] assms(2) by (auto simp: uses_exact_def group_at_set)
  qed
  ultimately show ?thesis
    using assms(1) set_group_fields(6) [of m r g'] by (simp add: matcher_core_def same_limits_def)
qed

lemma move_to_back_fields [simp]:
  "pm_groups (move_to_back r m) = pm_groups m" "pm_access (move_to_back r m) = pm_access m"
  "pm_operations (move_to_back r m) = pm_operations m" "same_limits m (move_to_back r m)"
  "group_at (move_to_back r m) r' = group_at m r'" "set (pm_lru (move_to_back r m)) = set (pm_lru m)"
  "over_limits (move_to_back r m) = over_limits m"
  by (auto simp: move_to_back_def same_limits_def group_at_def over_limits_def)

lemma move_to_back_core: "matcher_core sha T m \<Longrightarrow> matcher_core sha T (move_to_back r m)"
proof -
  assume c: "matcher_core sha T m"
  have l: "length (removeAll r (pm_lru m) @ [r]) = length (pm_lru m)" if "r \<in> set (pm_lru m)"
  proof -
    have "distinct (pm_lru m)" using c by (simp add: matcher_core_def uses_exact_def)
    then show ?thesis using that length_pos_if_in_set [OF that]
      by (simp add: distinct_remove1_removeAll [symmetric] length_remove1)
  qed
  have s: "insert r (set (pm_lru m) - {r}) = set (pm_lru m)" if "r \<in> set (pm_lru m)" using that by blast
  show ?thesis
    using c l s
    by (cases "r \<in> set (pm_lru m)")
      (auto simp: matcher_core_def uses_exact_def namespaces_ok_def move_to_back_def group_size_def distinct_removeAll)
qed

lemma refresh_group_spec:
  assumes "matcher_core sha now m" and "group_at m r = Some g" and "now < lg_expires g"
    and "refresh_group now r g m = (g', m')"
  shows "g' = g\<lparr>lg_expires := now + pm_ttl m, lg_access := pm_access m + 1\<rparr>"
    and "matcher_core sha now m'" and "over_limits m' \<longleftrightarrow> over_limits m" and "same_limits m m'"
    and "pm_access m' = pm_access m + 1" and "pm_operations m' = pm_operations m"
    and "group_at m' r' = (if r' = r then Some g' else group_at m r')"
    and "pm_lru m' = removeAll r (pm_lru m) @ [r]"
proof -
  let ?m = "m\<lparr>pm_access := pm_access m + 1\<rparr>"
  have g': "g' = g\<lparr>lg_expires := now + pm_ttl m, lg_access := pm_access m + 1\<rparr>"
    and m': "m' = move_to_back r (set_group r g' ?m)"
    using assms(4) by (auto simp: refresh_group_def next_access_def Let_def)
  have core: "matcher_core sha now (set_group r g' ?m)"
    using assms g' by (intro set_group_core [where g = g]) simp_all
  have r: "r \<in> set (pm_lru m)"
  proof -
    have "uses_exact m" using assms(1) by (simp add: matcher_core_def)
    from uses_exactD [OF this, of r] assms(2) show ?thesis by simp
  qed
  show "g' = g\<lparr>lg_expires := now + pm_ttl m, lg_access := pm_access m + 1\<rparr>" by (rule g')
  show "matcher_core sha now m'" unfolding m' using core by (rule move_to_back_core)
  show "over_limits m' \<longleftrightarrow> over_limits m"
    unfolding m' by simp (simp add: over_limits_def)
  show "same_limits m m'"
    unfolding m' using set_group_fields(6) [of ?m r g'] move_to_back_fields(4) [of "set_group r g' ?m" r]
    by (auto simp: same_limits_def)
  show "pm_access m' = pm_access m + 1" "pm_operations m' = pm_operations m" unfolding m' by simp_all
  show "group_at m' r' = (if r' = r then Some g' else group_at m r')"
    unfolding m' using assms(2) by (simp add: group_at_set)
  show "pm_lru m' = removeAll r (pm_lru m) @ [r]" unfolding m' using r by (simp add: move_to_back_def)
qed

end
