(* ===== verification/Session_Match.thy ===== *)
theory Session_Match
  imports Session_Index
begin

text \<open>
  What a match finds: the binary search gives the longest remembered prefix, the group chosen is the
  preferred one of those that remember it, and a compaction continues a live group whose last turns
  the request repeats.
\<close>

section \<open>The binary search\<close>

lemma prefix_search_steps:
  "\<not> low < high \<Longrightarrow> prefix_search probe low high best = best"
  "low < high \<Longrightarrow> probe (low + (high - 1 - low) div 2) = None \<Longrightarrow>
     prefix_search probe low high best = prefix_search probe low (low + (high - 1 - low) div 2) best"
  "low < high \<Longrightarrow> probe (low + (high - 1 - low) div 2) = Some c \<Longrightarrow>
     prefix_search probe low high best =
       prefix_search probe (low + (high - 1 - low) div 2 + 1) high (Some (c, low + (high - 1 - low) div 2))"
  by (subst prefix_search.simps, simp add: Let_def)+

lemma prefix_search_sound:
  "prefix_search probe low high best = r \<Longrightarrow>
     r = best \<or> (\<exists>c L. r = Some (c, L) \<and> low \<le> L \<and> L < high \<and> probe L = Some c)"
proof (induction probe low high best arbitrary: r rule: prefix_search.induct)
  case (1 probe low high best)
  let ?m = "low + (high - 1 - low) div 2"
  show ?case
  proof (cases "low < high")
    case False
    with 1(3) prefix_search_steps(1) [OF False, of probe best] show ?thesis by auto
  next
    case True
    then have m: "low \<le> ?m" "?m < high" by auto
    show ?thesis
    proof (cases "probe ?m")
      case None
      with True 1(3) have "prefix_search probe low ?m best = r" by (simp only: prefix_search_steps(2))
      from 1(1) [OF True refl None this] m show ?thesis by fastforce
    next
      case (Some c)
      with True 1(3) have "prefix_search probe (?m + 1) high (Some (c, ?m)) = r"
        by (simp only: prefix_search_steps(3))
      from 1(2) [OF True refl Some this] m Some show ?thesis by fastforce
    qed
  qed
qed

text \<open>When a probe that succeeds succeeds at every shorter length too, the search finds the longest.\<close>

lemma prefix_search_longest:
  assumes "prefix_search probe low high best = r"
    and "\<forall>j k. low \<le> j \<longrightarrow> j \<le> k \<longrightarrow> k < high \<longrightarrow> probe k \<noteq> None \<longrightarrow> probe j \<noteq> None"
  shows "(r = best \<and> (\<forall>k. low \<le> k \<and> k < high \<longrightarrow> probe k = None)) \<or>
    (\<exists>c L. r = Some (c, L) \<and> low \<le> L \<and> L < high \<and> probe L = Some c \<and> (\<forall>k. L < k \<and> k < high \<longrightarrow> probe k = None))"
  using assms
proof (induction probe low high best arbitrary: r rule: prefix_search.induct)
  case (1 probe low high best)
  let ?m = "low + (high - 1 - low) div 2"
  show ?case
  proof (cases "low < high")
    case False
    with 1(3) prefix_search_steps(1) [OF False, of probe best] show ?thesis by auto
  next
    case True
    then have m: "low \<le> ?m" "?m < high" by auto
    show ?thesis
    proof (cases "probe ?m")
      case None
      with True 1(3) have eq: "prefix_search probe low ?m best = r" by (simp only: prefix_search_steps(2))
      have above: "probe k = None" if "?m \<le> k" "k < high" for k
        using 1(4) [rule_format, of ?m k] m that None by (cases "probe k") auto
      have mono: "\<forall>j k. low \<le> j \<longrightarrow> j \<le> k \<longrightarrow> k < ?m \<longrightarrow> probe k \<noteq> None \<longrightarrow> probe j \<noteq> None"
        using 1(4) m(2) less_trans by blast
      from 1(1) [OF True refl None eq mono] show ?thesis
      proof (elim disjE conjE exE)
        assume "r = best" and low: "\<forall>k. low \<le> k \<and> k < ?m \<longrightarrow> probe k = None"
        have "probe k = None" if "low \<le> k" "k < high" for k
          using low above that by (cases "k < ?m") simp_all
        with \<open>r = best\<close> show ?thesis by blast
      next
        fix c L
        assume L: "r = Some (c, L)" "low \<le> L" "L < ?m" "probe L = Some c"
          and up: "\<forall>k. L < k \<and> k < ?m \<longrightarrow> probe k = None"
        have "probe k = None" if "L < k" "k < high" for k
          using up above that by (cases "k < ?m") simp_all
        then show ?thesis using L m by (intro disjI2 exI [of _ c] exI [of _ L]) simp
      qed
    next
      case (Some c)
      with True 1(3) have eq: "prefix_search probe (?m + 1) high (Some (c, ?m)) = r"
        by (simp only: prefix_search_steps(3))
      have mono: "\<forall>j k. ?m + 1 \<le> j \<longrightarrow> j \<le> k \<longrightarrow> k < high \<longrightarrow> probe k \<noteq> None \<longrightarrow> probe j \<noteq> None"
        using 1(4) m(1) by (meson add_leD1 le_trans)
      from 1(2) [OF True refl Some eq mono] show ?thesis
      proof (elim disjE conjE exE)
        assume "r = Some (c, ?m)" and "\<forall>k. ?m + 1 \<le> k \<and> k < high \<longrightarrow> probe k = None"
        then show ?thesis using m Some by (intro disjI2 exI [of _ c] exI [of _ ?m]) simp
      next
        fix c' L
        assume "r = Some (c', L)" "?m + 1 \<le> L" "L < high" "probe L = Some c'" "\<forall>k. L < k \<and> k < high \<longrightarrow> probe k = None"
        then show ?thesis using m by (intro disjI2 exI [of _ c'] exI [of _ L]) simp
      qed
    qed
  qed
qed

section \<open>The preferred group of a bucket\<close>

definition group_rank :: "lcp_group \<Rightarrow> nat \<times> 64 word \<times> instant" where
  "group_rank g = (length (lg_fps g), lg_access g, lg_expires g)"

lemma preferred_rank: "preferred g b \<longleftrightarrow> group_rank b < group_rank g"
  by (auto simp: preferred_def group_rank_def less_prod_def)

lemma newest_spec:
  assumes "newest_matching_group ns fps now bucket best = r"
    and "\<forall>k g. best = Some (k, g) \<longrightarrow> map_of (ln_groups ns) k = Some g \<and> remembers fps now g"
  shows "(r = None \<longleftrightarrow> best = None \<and> (\<forall>k\<in>set bucket. \<forall>g. map_of (ln_groups ns) k = Some g \<longrightarrow> \<not> remembers fps now g)) \<and>
    (\<forall>k g. r = Some (k, g) \<longrightarrow> map_of (ln_groups ns) k = Some g \<and> remembers fps now g \<and>
       (\<forall>k'\<in>set bucket. \<forall>g'. map_of (ln_groups ns) k' = Some g' \<longrightarrow> remembers fps now g' \<longrightarrow> group_rank g' \<le> group_rank g) \<and>
       (\<forall>k' g'. best = Some (k', g') \<longrightarrow> group_rank g' \<le> group_rank g))"
  using assms
proof (induction ns fps now bucket best arbitrary: r rule: newest_matching_group.induct)
  case (2 ns fps now key bucket best)
  let ?best = "case map_of (ln_groups ns) key of None \<Rightarrow> best
    | Some g \<Rightarrow> if remembers fps now g \<and> (case best of None \<Rightarrow> True | Some (_, b) \<Rightarrow> preferred g b)
               then Some (key, g) else best"
  have ok: "\<forall>k g. ?best = Some (k, g) \<longrightarrow> map_of (ln_groups ns) k = Some g \<and> remembers fps now g"
    using 2(3) by (auto split: option.splits if_splits)
  have eq: "newest_matching_group ns fps now bucket ?best = r" using 2(2) by simp
  note IH = 2(1) [OF eq ok]
  have none: "?best = None \<longleftrightarrow> best = None \<and> (\<forall>g. map_of (ln_groups ns) key = Some g \<longrightarrow> \<not> remembers fps now g)"
    by (auto split: option.splits if_splits)
  have kept: "\<exists>k'' g''. ?best = Some (k'', g'') \<and> group_rank g' \<le> group_rank g''" if "best = Some (k', g')" for k' g'
    using that by (auto simp: preferred_rank split: option.splits)
  have seen: "\<exists>k'' g''. ?best = Some (k'', g'') \<and> group_rank g' \<le> group_rank g''"
    if "map_of (ln_groups ns) key = Some g'" "remembers fps now g'" for g'
    using that by (auto simp: preferred_rank split: option.splits)
  show ?case
  proof (intro conjI allI impI)
    show "r = None \<longleftrightarrow> best = None \<and> (\<forall>k\<in>set (key # bucket). \<forall>g. map_of (ln_groups ns) k = Some g \<longrightarrow> \<not> remembers fps now g)"
      using IH none by simp
    fix k g
    assume r: "r = Some (k, g)"
    then show "map_of (ln_groups ns) k = Some g" "remembers fps now g" using IH by simp_all
    have up: "group_rank b \<le> group_rank g" if "?best = Some (k'', b)" for k'' b using IH r that by simp
    show "\<forall>k'\<in>set (key # bucket). \<forall>g'. map_of (ln_groups ns) k' = Some g' \<longrightarrow> remembers fps now g' \<longrightarrow> group_rank g' \<le> group_rank g"
    proof (intro ballI allI impI)
      fix k' g'
      assume k': "k' \<in> set (key # bucket)" "map_of (ln_groups ns) k' = Some g'" "remembers fps now g'"
      show "group_rank g' \<le> group_rank g"
      proof (cases "k' \<in> set bucket")
        case True
        then show ?thesis using IH r k' by simp
      next
        case False
        then have "k' = key" using k'(1) by simp
        then show ?thesis using seen [of g'] k' up order_trans by blast
      qed
    qed
    show "group_rank g' \<le> group_rank g" if "best = Some (k', g')" for k' g'
      using kept [OF that] up order_trans by blast
  qed
qed auto

section \<open>Which groups a probe sees\<close>

lemma remembers_take:
  "k \<le> length fps \<Longrightarrow> remembers (take k fps) now g \<longleftrightarrow>
     now < lg_expires g \<and> lg_min g \<le> k \<and> k \<le> length (lg_fps g) \<and> take k (lg_fps g) = take k fps"
  by (auto simp: remembers_def)

definition match_probe :: "(string \<Rightarrow> string) \<Rightarrow> lcp_namespace \<Rightarrow> string list \<Rightarrow> instant \<Rightarrow> nat \<Rightarrow> (string \<times> lcp_group) option" where
  "match_probe sha ns fps now k =
     newest_matching_group ns (take k fps) now (bucket_at (ln_prefixes ns) (rolling_prefix_keys sha fps ! (k - 1))) None"

lemma match_probe_spec:
  assumes "ns_ok sha cap T ns" and "0 < k" and "k \<le> length fps"
  shows "match_probe sha ns fps now k = None \<longleftrightarrow>
      (\<forall>key g. map_of (ln_groups ns) key = Some g \<longrightarrow> \<not> remembers (take k fps) now g)"
    and "match_probe sha ns fps now k = Some (key, g) \<Longrightarrow>
      map_of (ln_groups ns) key = Some g \<and> remembers (take k fps) now g \<and>
      (\<forall>key' g'. map_of (ln_groups ns) key' = Some g' \<longrightarrow> remembers (take k fps) now g' \<longrightarrow> group_rank g' \<le> group_rank g)"
proof -
  let ?b = "bucket_at (ln_prefixes ns) (rolling_prefix_keys sha fps ! (k - 1))"
  have in_b: "key \<in> set ?b" if "map_of (ln_groups ns) key = Some g" "remembers (take k fps) now g" for key g
  proof -
    have "lg_keys g = rolling_prefix_keys sha (lg_fps g)" using assms(1) that by (auto simp: ns_ok_def group_ok_def)
    moreover have "rolling_prefix_keys sha fps ! (k - 1) \<in> set (rolling_prefix_keys sha (lg_fps g))"
      using that(2) assms(2,3) by (intro shared_prefix_key) (simp_all add: remembers_take)
    ultimately show ?thesis using assms(1) that(1) by (auto simp: ns_ok_def prefixes_exact_def)
  qed
  note sp = newest_spec [of ns "take k fps" now ?b None "match_probe sha ns fps now k", folded match_probe_def, OF refl]
  show "match_probe sha ns fps now k = None \<longleftrightarrow>
      (\<forall>key g. map_of (ln_groups ns) key = Some g \<longrightarrow> \<not> remembers (take k fps) now g)"
    using sp in_b by (metis option.distinct(1))
  show "match_probe sha ns fps now k = Some (key, g) \<Longrightarrow>
      map_of (ln_groups ns) key = Some g \<and> remembers (take k fps) now g \<and>
      (\<forall>key' g'. map_of (ln_groups ns) key' = Some g' \<longrightarrow> remembers (take k fps) now g' \<longrightarrow> group_rank g' \<le> group_rank g)"
    using sp in_b by (metis option.distinct(1))
qed

section \<open>The probe of the tails\<close>

definition probe_ok :: "lcp_namespace \<Rightarrow> compaction_request \<Rightarrow> instant \<Rightarrow> compaction_probe \<Rightarrow> bool" where
  "probe_ok ns q now c \<longleftrightarrow>
     (\<forall>key g. (key, g) \<in> set (cp_candidates c) \<longrightarrow>
        map_of (ln_groups ns) key = Some g \<and> now < lg_expires g \<and>
        (\<exists>e. 0 < e \<and> e < length (cq_tail q) \<and> group_overlap q e g = Some (cp_best c)))"

lemma probe_okD:
  "probe_ok ns q now c \<Longrightarrow> (key, g) \<in> set (cp_candidates c) \<Longrightarrow>
     map_of (ln_groups ns) key = Some g \<and> now < lg_expires g \<and>
     (\<exists>e. 0 < e \<and> e < length (cq_tail q) \<and> group_overlap q e g = Some (cp_best c))"
  unfolding probe_ok_def by blast

lemma consider_ok:
  assumes "probe_ok ns q now c" and "live_member ns now key" and "0 < e" "e < length (cq_tail q)"
  shows "probe_ok ns q now (consider_candidate ns q e key c)"
  using assms unfolding probe_ok_def consider_candidate_def live_member_def
  by (auto split: option.splits)

lemma consider_tails [simp]: "cp_tails (consider_candidate ns q e key c) = cp_tails c"
  by (simp add: consider_candidate_def split: option.split)

lemma considers_ok:
  "probe_ok ns q now c \<Longrightarrow> list_all (live_member ns now) keys \<Longrightarrow> 0 < e \<Longrightarrow> e < length (cq_tail q) \<Longrightarrow>
     probe_ok ns q now (fold (consider_candidate ns q e) keys c)"
  by (induction keys arbitrary: c) (auto intro: consider_ok)

lemma considers_tails [simp]: "cp_tails (fold (consider_candidate ns q e) keys c) = cp_tails c"
  by (induction keys arbitrary: c) simp_all

text \<open>The probe drops from the index of tails only groups that have expired.\<close>

lemma probe_tails_ok:
  assumes "probe_ok ns q now c" and "\<forall>e \<in> set ends. 0 < e \<and> e < length (cq_tail q)"
  shows "probe_ok ns q now (probe_tails ns q now ends c) \<and>
    (\<forall>t. set (bucket_at (cp_tails (probe_tails ns q now ends c)) t) \<subseteq> set (bucket_at (cp_tails c) t)) \<and>
    (\<forall>t key. key \<in> set (bucket_at (cp_tails c) t) \<longrightarrow> live_member ns now key \<longrightarrow>
       key \<in> set (bucket_at (cp_tails (probe_tails ns q now ends c)) t))"
  using assms
proof (induction ns q now ends c rule: probe_tails.induct)
  case (2 ns q now e ends c)
  let ?k = "tail_key (cq_tail q) e"
  let ?bucket = "bucket_at (cp_tails c) ?k"
  let ?live = "filter (live_member ns now) ?bucket"
  let ?c = "c\<lparr>cp_tails := set_bucket ?k ?live (cp_tails c)\<rparr>"
  let ?d = "if ?live = [] then ?c else if length ?live > maxTailsPerKey then ?c\<lparr>cp_overflow := True\<rparr>
            else fold (consider_candidate ns q e) ?live ?c"
  show ?case
  proof (cases "?bucket = []")
    case True
    with 2(1) [OF refl refl True 2(3)] 2(4) show ?thesis by (simp add: Let_def)
  next
    case False
    have c: "probe_ok ns q now ?c" using 2(3) by (simp add: probe_ok_def)
    have d: "probe_ok ns q now ?d"
    proof -
      have "probe_ok ns q now (fold (consider_candidate ns q e) ?live ?c)"
        using c 2(4) by (intro considers_ok) (simp_all add: list_all_iff)
      moreover have "probe_ok ns q now (?c\<lparr>cp_overflow := True\<rparr>)" using c by (simp add: probe_ok_def)
      moreover have "?d = ?c \<or> ?d = ?c\<lparr>cp_overflow := True\<rparr> \<or> ?d = fold (consider_candidate ns q e) ?live ?c"
        by (cases "?live = []"; cases "length ?live > maxTailsPerKey") simp_all
      ultimately show ?thesis using c by (elim disjE) (simp_all only:)
    qed
    have dt: "cp_tails ?d = set_bucket ?k ?live (cp_tails c)" by simp
    have eq: "probe_tails ns q now (e # ends) c = probe_tails ns q now ends ?d"
      using False by (simp add: Let_def)
    have IH: "probe_ok ns q now (probe_tails ns q now ends ?d) \<and>
      (\<forall>t. set (bucket_at (cp_tails (probe_tails ns q now ends ?d)) t) \<subseteq> set (bucket_at (cp_tails ?d) t)) \<and>
      (\<forall>t key. key \<in> set (bucket_at (cp_tails ?d) t) \<longrightarrow> live_member ns now key \<longrightarrow>
         key \<in> set (bucket_at (cp_tails (probe_tails ns q now ends ?d)) t))"
      using 2(2) [OF refl refl False refl refl d] 2(4) by simp
    have sub: "set (bucket_at (cp_tails ?d) t) \<subseteq> set (bucket_at (cp_tails c) t)" for t unfolding dt by auto
    have sup: "key \<in> set (bucket_at (cp_tails ?d) t)" if "key \<in> set (bucket_at (cp_tails c) t)" "live_member ns now key" for t key
      using that unfolding dt by auto
    show ?thesis unfolding eq using IH sub sup by blast
  qed
qed simp

section \<open>What a match changes\<close>

definition renewed :: "instant \<Rightarrow> duration \<Rightarrow> lcp_group option \<Rightarrow> lcp_group option \<Rightarrow> bool" where
  "renewed now ttl x y \<longleftrightarrow>
     y = x \<or> (\<exists>g a. x = Some g \<and> now < lg_expires g \<and> y = Some (g\<lparr>lg_expires := now + ttl, lg_access := a\<rparr>))"

lemma renewed_refl [simp]: "renewed now ttl x x" by (simp add: renewed_def)

lemma renewed_trans: "renewed now ttl x y \<Longrightarrow> renewed now ttl y z \<Longrightarrow> renewed now ttl x z"
  unfolding renewed_def by auto

definition refreshed :: "instant \<Rightarrow> prefix_matcher \<Rightarrow> prefix_matcher \<Rightarrow> bool" where
  "refreshed now m m' \<longleftrightarrow>
     same_limits m m' \<and> pm_operations m' = pm_operations m \<and> set (pm_lru m') = set (pm_lru m) \<and>
     (\<forall>r. renewed now (pm_ttl m) (group_at m r) (group_at m' r))"

lemma refreshed_refl [simp]: "refreshed now m m" by (simp add: refreshed_def)

lemma refreshed_trans: "refreshed now a b \<Longrightarrow> refreshed now b c \<Longrightarrow> refreshed now a c"
  unfolding refreshed_def same_limits_def by (simp add: split_paired_All) (metis renewed_trans)

lemma refresh_refreshed:
  assumes "matcher_core sha now m" and "group_at m r = Some g" and "now < lg_expires g"
    and "refresh_group now r g m = (g', m')"
  shows "refreshed now m m'"
proof -
  note sp = refresh_group_spec [OF assms]
  have r: "r \<in> set (pm_lru m)" using assms(1,2) uses_exactD [of m r] by (simp add: matcher_core_def)
  have "renewed now (pm_ttl m) (group_at m r') (group_at m' r')" for r'
    using sp(7) [of r'] sp(1) assms(2,3) by (auto simp: renewed_def)
  moreover have "set (pm_lru m') = set (pm_lru m)" using sp(8) r by auto
  ultimately show ?thesis using sp(4,6) unfolding refreshed_def by blast
qed

lemma put_tails_core:
  assumes "matcher_core sha now m" and "map_of (pm_groups m) n = Some ns"
    and "\<And>t. set (bucket_at tails t) \<subseteq> set (bucket_at (ln_tails ns) t)"
    and "\<And>t key. key \<in> set (bucket_at (ln_tails ns) t) \<Longrightarrow> live_member ns now key \<Longrightarrow> key \<in> set (bucket_at tails t)"
  shows "matcher_core sha now (put_namespace n (ns\<lparr>ln_tails := tails\<rparr>) m)"
    and "group_at (put_namespace n (ns\<lparr>ln_tails := tails\<rparr>) m) r = group_at m r"
proof -
  let ?m = "put_namespace n (ns\<lparr>ln_tails := tails\<rparr>) m"
  have ok: "ns_ok sha (pm_max_turns m) now ns" and ne: "ln_groups ns \<noteq> []"
    using assms(1,2) by (auto simp: matcher_core_def namespaces_ok_def)
  then have ts: "tails_exact now ns" by (simp add: ns_ok_def)
  have "tails_exact now (ns\<lparr>ln_tails := tails\<rparr>)"
  proof (rule tails_exactI)
    fix key t
    assume "key \<in> set (bucket_at (ln_tails (ns\<lparr>ln_tails := tails\<rparr>)) t)"
    then have "key \<in> set (bucket_at (ln_tails ns) t)" using assms(3) by auto
    then show "\<exists>g. map_of (ln_groups (ns\<lparr>ln_tails := tails\<rparr>)) key = Some g \<and> last_tail_key (tails_of g) = Some t"
      using ts by (simp add: tails_exact_def)
  next
    fix key g t
    assume "map_of (ln_groups (ns\<lparr>ln_tails := tails\<rparr>)) key = Some g" "now < lg_expires g" "last_tail_key (tails_of g) = Some t"
    then show "key \<in> set (bucket_at (ln_tails (ns\<lparr>ln_tails := tails\<rparr>)) t)"
      using assms(4) tails_exactD(3) [OF ts, of key g t] by (simp add: live_member_def)
  qed
  then have "ns_ok sha (pm_max_turns m) now (ns\<lparr>ln_tails := tails\<rparr>)"
    using ok by (simp add: ns_ok_def prefixes_exact_def)
  then have "namespaces_ok sha now ?m"
    using assms(1) ne by (intro namespaces_ok_put) (simp_all add: matcher_core_def)
  moreover show at: "group_at ?m r = group_at m r" for r
    using assms(2) by (cases r) (auto simp: group_at_def put_namespace_def map_of_update split: option.split)
  then have "uses_exact ?m" using assms(1) by (simp add: matcher_core_def uses_exact_def group_size_def)
  ultimately show "matcher_core sha now ?m" using assms(1) by (simp add: matcher_core_def)
qed

text \<open>A continuation after a compaction joins a live group of the same environment whose last turns, two at
  least, the request repeats.\<close>

definition continues :: "string \<Rightarrow> string list \<Rightarrow> string list \<Rightarrow> string \<Rightarrow> nat \<Rightarrow> nat \<Rightarrow> instant \<Rightarrow> prefix_matcher \<Rightarrow>
    prefix_match \<Rightarrow> bool" where
  "continues n fps cand_tail env min_length best_length now m p \<longleftrightarrow>
     (\<exists>key g e. group_at m (n, key) = Some g \<and> now < lg_expires g \<and> 0 < e \<and> e < length cand_tail \<and>
        group_overlap \<lparr>cq_fps = fps, cq_tail = cand_tail, cq_env = env, cq_min = min_length, cq_best = best_length\<rparr> e g =
          Some (px_length p) \<and>
        px_auth p = lg_auth g \<and> px_parent p = lg_session g) \<and>
     px_is_compaction p \<and> \<not> px_is_fork p \<and> px_kind p = ''compaction''"

lemma match_compaction_spec:
  assumes core: "matcher_core sha now m" and ns: "map_of (pm_groups m) n = Some ns"
    and res: "match_compaction sha n fps tail_fps env min_length best_length now m = (res, m')"
  shows "matcher_core sha now m' \<and> (over_limits m' \<longleftrightarrow> over_limits m) \<and> refreshed now m m' \<and>
    pm_access m' = pm_access m + (if res = None then 0 else 1) \<and>
    (\<forall>p. res = Some p \<longrightarrow>
       continues n fps (tail_or_default tail_fps fps) env min_length best_length now m p)"
proof -
  let ?tail = "tail_or_default tail_fps fps"
  let ?q = "\<lparr>cq_fps = fps, cq_tail = ?tail, cq_env = env, cq_min = min_length, cq_best = best_length\<rparr>"
  let ?c0 = "\<lparr>cp_tails = ln_tails ns, cp_best = 0, cp_candidates = [], cp_overflow = False\<rparr>"
  define c where "c = probe_tails ns ?q now (rev [minCompactionOverlapTurns - 1..<length ?tail]) ?c0"
  define m1 where "m1 = put_namespace n (ns\<lparr>ln_tails := cp_tails c\<rparr>) m"
  have locked: "namespace_locked n m = ns" using ns by (simp add: namespace_locked_def)
  have t: "(if tail_fps = [] then extract_tail_fingerprints fps else tail_fps) = ?tail" by (simp add: tail_or_default_def)
  have ends: "\<forall>e \<in> set (rev [minCompactionOverlapTurns - 1..<length ?tail]). 0 < e \<and> e < length (cq_tail ?q)"
    by (auto simp: minCompactionOverlapTurns_def)
  have pr: "probe_ok ns ?q now c" and sub: "\<And>t. set (bucket_at (cp_tails c) t) \<subseteq> set (bucket_at (ln_tails ns) t)"
    and sup: "\<And>t key. key \<in> set (bucket_at (ln_tails ns) t) \<Longrightarrow> live_member ns now key \<Longrightarrow> key \<in> set (bucket_at (cp_tails c) t)"
    using probe_tails_ok [OF _ ends, of ns now ?c0] by (simp_all add: probe_ok_def c_def)
  note put = put_tails_core [OF core ns sub sup, folded m1_def]
  have over: "over_limits m1 = over_limits m" by (simp add: over_limits_def m1_def)
  have ref: "refreshed now m m1" using put(2) by (simp add: refreshed_def) (simp add: m1_def)
  have acc: "pm_access m1 = pm_access m" by (simp add: m1_def)
  have res': "(res, m') =
     (if length ?tail < minCompactionOverlapTurns then (None, m)
      else if cp_overflow c then (None, m1)
      else case lineage_leaves ns (cp_candidates c) of
        [(key, g)] \<Rightarrow>
          (case refresh_group now (n, key) g m1 of (g, m) \<Rightarrow>
            (Some \<lparr>px_auth = lg_auth g, px_session = new_lcp_compaction_session_id sha n (lg_session g) (sequence_key sha fps),
               px_parent = lg_session g, px_length = cp_best c, px_is_fork = False, px_is_compaction = True,
               px_kind = ''compaction'', px_access = lg_access g\<rparr>, m))
      | _ \<Rightarrow> (None, m1))"
    using res [symmetric] unfolding match_compaction_def Let_def locked t c_def m1_def by (simp only:)
  have unless: ?thesis if "res = None" "m' = m \<or> m' = m1"
    using that core put(1) over ref acc by auto
  show ?thesis
  proof (cases "length ?tail < minCompactionOverlapTurns \<or> cp_overflow c")
    case True
    with res' have "res = None" "m' = m \<or> m' = m1" by (auto split: if_splits)
    then show ?thesis by (rule unless)
  next
    case False
    then have res2: "(res, m') = (case lineage_leaves ns (cp_candidates c) of
        [(key, g)] \<Rightarrow>
          (case refresh_group now (n, key) g m1 of (g, m) \<Rightarrow>
            (Some \<lparr>px_auth = lg_auth g, px_session = new_lcp_compaction_session_id sha n (lg_session g) (sequence_key sha fps),
               px_parent = lg_session g, px_length = cp_best c, px_is_fork = False, px_is_compaction = True,
               px_kind = ''compaction'', px_access = lg_access g\<rparr>, m))
      | _ \<Rightarrow> (None, m1))"
      using res' by simp
    show ?thesis
    proof (cases "length (lineage_leaves ns (cp_candidates c)) = 1")
      case False
      then have "(res, m') = (None, m1)" unfolding res2 by (auto split: list.splits)
      then show ?thesis by (intro unless) simp_all
    next
      case True
      then obtain key g where l: "lineage_leaves ns (cp_candidates c) = [(key, g)]"
        by (cases "lineage_leaves ns (cp_candidates c)") auto
      obtain g' m2 where rf: "refresh_group now (n, key) g m1 = (g', m2)" by fastforce
      have out: "res = Some \<lparr>px_auth = lg_auth g',
          px_session = new_lcp_compaction_session_id sha n (lg_session g') (sequence_key sha fps),
          px_parent = lg_session g', px_length = cp_best c, px_is_fork = False, px_is_compaction = True,
          px_kind = ''compaction'', px_access = lg_access g'\<rparr>" "m' = m2"
        using res2 l rf by simp_all
      have "set (lineage_leaves ns (cp_candidates c)) \<subseteq> set (cp_candidates c)"
        unfolding lineage_leaves_def by (rule filter_is_subset)
      with l have "(key, g) \<in> set (cp_candidates c)" by simp
      from probe_okD [OF pr this] obtain e where g: "map_of (ln_groups ns) key = Some g" "now < lg_expires g" "0 < e" "e < length ?tail"
          "group_overlap ?q e g = Some (cp_best c)"
        by (elim conjE exE) simp
      have at: "group_at m (n, key) = Some g" using g(1) ns by (simp add: group_at_def)
      then have at': "group_at m1 (n, key) = Some g" by (simp add: put(2))
      note sp = refresh_group_spec [OF put(1) at' g(2) rf]
      have "refreshed now m m2"
        by (rule refreshed_trans [OF ref refresh_refreshed [OF put(1) at' g(2) rf]])
      moreover have "continues n fps ?tail env min_length best_length now m p" if "res = Some p" for p
      proof -
        have "px_length p = cp_best c" "px_auth p = lg_auth g" "px_parent p = lg_session g" "px_is_compaction p"
          "\<not> px_is_fork p" "px_kind p = ''compaction''"
          using that out(1) sp(1) by auto
        with at g show ?thesis
          unfolding continues_def by (intro conjI exI [of _ key] exI [of _ g] exI [of _ e]) simp_all
      qed
      ultimately show ?thesis using sp(2,3,5) over acc out by simp
    qed
  qed
qed

lemma group_overlap_cong:
  "lg_fps g = lg_fps g' \<Longrightarrow> lg_env g = lg_env g' \<Longrightarrow> lg_tails g = lg_tails g' \<Longrightarrow>
     group_overlap q e g = group_overlap q e g'"
  by (simp add: group_overlap_def tails_of_def Let_def)

lemma continues_refreshed:
  assumes "refreshed now m m1" and "continues n fps tail env min_length best now m1 p"
  shows "continues n fps tail env min_length best now m p"
proof -
  from assms(2) obtain key g e where g: "group_at m1 (n, key) = Some g" "now < lg_expires g" "0 < e" "e < length tail"
      "group_overlap \<lparr>cq_fps = fps, cq_tail = tail, cq_env = env, cq_min = min_length, cq_best = best\<rparr> e g = Some (px_length p)"
      "px_auth p = lg_auth g" "px_parent p = lg_session g"
    and p: "px_is_compaction p" "\<not> px_is_fork p" "px_kind p = ''compaction''"
    unfolding continues_def by (elim conjE exE)
  have "renewed now (pm_ttl m) (group_at m (n, key)) (group_at m1 (n, key))"
    using assms(1) by (simp add: refreshed_def)
  then obtain g0 where g0: "group_at m (n, key) = Some g0" "now < lg_expires g0"
    "lg_auth g = lg_auth g0" "lg_session g = lg_session g0" "lg_env g = lg_env g0" "lg_fps g = lg_fps g0" "lg_tails g = lg_tails g0"
    using g(1,2) by (cases "group_at m (n, key)") (auto simp: renewed_def)
  have "group_overlap \<lparr>cq_fps = fps, cq_tail = tail, cq_env = env, cq_min = min_length, cq_best = best\<rparr> e g0 = Some (px_length p)"
    using g(5) group_overlap_cong [OF g0(6,5,7)] by simp
  then show ?thesis
    using g g0 p unfolding continues_def by (intro conjI exI [of _ key] exI [of _ g0] exI [of _ e]) simp_all
qed

text \<open>The answer that a group gives for the longest prefix it shares with the request.\<close>

definition matched :: "(string \<Rightarrow> string) \<Rightarrow> string \<Rightarrow> string list \<Rightarrow> nat \<Rightarrow> lcp_group \<Rightarrow> prefix_match \<Rightarrow> bool" where
  "matched sha n fps L g p \<longleftrightarrow>
     px_auth p = lg_auth g \<and> px_length p = L \<and> (px_is_fork p \<longleftrightarrow> L < length (lg_fps g) \<and> L < length fps) \<and>
     px_session p = (if px_is_fork p then new_lcp_session_id sha n (rolling_prefix_keys sha fps ! L) else lg_session g) \<and>
     px_parent p = (if px_is_fork p then new_lcp_session_id sha n (rolling_prefix_keys sha fps ! (L - 1)) else lg_parent g) \<and>
     (px_is_compaction p \<longleftrightarrow> lg_compaction g \<and> \<not> px_is_fork p) \<and>
     px_kind p = (if px_is_fork p then ''fork'' else lg_kind g)"

definition keeps :: "(string \<Rightarrow> string) \<Rightarrow> instant \<Rightarrow> prefix_matcher \<Rightarrow> prefix_matcher \<Rightarrow> bool" where
  "keeps sha now m m' \<longleftrightarrow>
     matcher_core sha now m' \<and> (over_limits m' \<longleftrightarrow> over_limits m) \<and> refreshed now m m' \<and>
     (\<exists>k \<le> 2. pm_access m' = pm_access m + of_nat k)"

text \<open>In a namespace, the answer of a match by what the search finds.\<close>

definition match_outcome :: "(string \<Rightarrow> string) \<Rightarrow> string \<Rightarrow> string list \<Rightarrow> string list \<Rightarrow> string \<Rightarrow> nat \<Rightarrow> instant \<Rightarrow> prefix_matcher \<Rightarrow>
    ((string \<times> lcp_group) \<times> nat) option \<Rightarrow> prefix_match option \<Rightarrow> bool" where
  "match_outcome sha n fps cand_tail env min_length now m found res =
     (case found of
        None \<Rightarrow> (\<forall>p. res = Some p \<longrightarrow> continues n fps cand_tail env min_length 0 now m p)
      | Some ((key, g), L) \<Rightarrow>
          (\<exists>p. res = Some p \<and>
             (matched sha n fps L g p \<or>
              L < length (lg_fps g) \<and> L < length fps \<and> continues n fps cand_tail env min_length L now m p)))"

lemma match_probe_fun:
  "match_probe sha ns fps now = (\<lambda>k. newest_matching_group ns (take k fps) now
     (bucket_at (ln_prefixes ns) (rolling_prefix_keys sha fps ! (k - 1))) None)"
  by (rule ext) (rule match_probe_def)

lemma match_locked_search:
  assumes "map_of (pm_groups m) n = Some ns" and "0 < min_length" and "min_length \<le> length fps"
  shows "match_locked sha n fps tail_fps env min_length now m =
     (case prefix_search (match_probe sha ns fps now) min_length (length fps + 1) None of
        None \<Rightarrow> match_compaction sha n fps tail_fps env min_length 0 now m
      | Some ((key, g0), L) \<Rightarrow>
          (let (g, m) = refresh_group now (n, key) g0 m; diverges = (L < length (lg_fps g) \<and> length fps > L)
           in case (if diverges then match_compaction sha n fps tail_fps env min_length L now m else (None, m)) of
                (Some r, m) \<Rightarrow> (Some r, m)
              | (None, m) \<Rightarrow>
                  (Some \<lparr>px_auth = lg_auth g,
                         px_session = (if diverges then new_lcp_session_id sha n (rolling_prefix_keys sha fps ! L) else lg_session g),
                         px_parent = (if diverges then new_lcp_session_id sha n (rolling_prefix_keys sha fps ! (L - 1)) else lg_parent g),
                         px_length = L, px_is_fork = diverges, px_is_compaction = lg_compaction g \<and> \<not> diverges,
                         px_kind = (if diverges then ''fork'' else lg_kind g), px_access = lg_access g\<rparr>, m)))"
proof -
  have "\<not> (fps = [] \<or> min_length = 0 \<or> min_length > length fps)" using assms(2,3) by auto
  then show ?thesis
    unfolding match_locked_def match_probe_fun assms(1) option.case Let_def by (simp only: if_False)
qed

lemma match_locked_spec:
  assumes core: "matcher_core sha now m" and ns: "map_of (pm_groups m) n = Some ns"
    and len: "0 < min_length" "min_length \<le> length fps"
    and res: "match_locked sha n fps tail_fps env min_length now m = (res, m')"
  shows "keeps sha now m m' \<and>
    match_outcome sha n fps (tail_or_default tail_fps fps) env min_length now m
      (prefix_search (match_probe sha ns fps now) min_length (length fps + 1) None) res"
proof -
  let ?s = "prefix_search (match_probe sha ns fps now) min_length (length fps + 1) None"
  let ?tail = "tail_or_default tail_fps fps"
  show ?thesis
  proof (cases ?s)
    case None
    have "match_compaction sha n fps tail_fps env min_length 0 now m = (res, m')"
      using res None by (simp add: match_locked_search [OF ns len])
    note sp = match_compaction_spec [OF core ns this]
    have "\<exists>k \<le> 2. pm_access m' = pm_access m + of_nat k"
      using sp by (cases "res = None") (auto intro: exI [of _ 0] exI [of _ 1])
    with sp None show ?thesis by (simp add: keeps_def match_outcome_def)
  next
    case (Some r)
    then obtain key g0 L where s: "?s = Some ((key, g0), L)" by (cases r) (auto simp: split_paired_all)
    have L: "min_length \<le> L" "L < length fps + 1" "match_probe sha ns fps now L = Some (key, g0)"
      using prefix_search_sound [OF s] by auto
    have "ns_ok sha (pm_max_turns m) now ns" using core ns by (simp add: matcher_core_def namespaces_ok_def)
    from match_probe_spec(2) [OF this _ _ L(3)] have g: "map_of (ln_groups ns) key = Some g0" "remembers (take L fps) now g0"
      using L len by simp_all
    have at: "group_at m (n, key) = Some g0" using g(1) ns by (simp add: group_at_def)
    have live: "now < lg_expires g0" using g(2) by (simp add: remembers_def)
    obtain g m1 where rf: "refresh_group now (n, key) g0 m = (g, m1)" by fastforce
    note sp = refresh_group_spec [OF core at live rf]
    have ref: "refreshed now m m1" by (rule refresh_refreshed [OF core at live rf])
    have gf: "lg_auth g = lg_auth g0" "lg_fps g = lg_fps g0" "lg_session g = lg_session g0" "lg_parent g = lg_parent g0"
      "lg_compaction g = lg_compaction g0" "lg_kind g = lg_kind g0"
      unfolding sp(1) by simp_all
    define D where "D \<longleftrightarrow> L < length (lg_fps g) \<and> length fps > L"
    let ?p = "\<lparr>px_auth = lg_auth g,
      px_session = (if D then new_lcp_session_id sha n (rolling_prefix_keys sha fps ! L) else lg_session g),
      px_parent = (if D then new_lcp_session_id sha n (rolling_prefix_keys sha fps ! (L - 1)) else lg_parent g),
      px_length = L, px_is_fork = D, px_is_compaction = lg_compaction g \<and> \<not> D,
      px_kind = (if D then ''fork'' else lg_kind g), px_access = lg_access g\<rparr>"
    have step: "(res, m') = (case (if D then match_compaction sha n fps tail_fps env min_length L now m1 else (None, m1)) of
        (Some r, m) \<Rightarrow> (Some r, m) | (None, m) \<Rightarrow> (Some ?p, m))"
      using res [symmetric] s rf unfolding match_locked_search [OF ns len] Let_def D_def by simp
    have mt: "matched sha n fps L g0 ?p" using gf by (auto simp: matched_def D_def)
    show ?thesis
    proof (cases D)
      case False
      then have e: "res = Some ?p" "m' = m1" using step by simp_all
      have "\<exists>k \<le> 2. pm_access m1 = pm_access m + of_nat k" using sp(5) by (intro exI [of _ 1]) simp
      then have "keeps sha now m m'" using sp(2,3) ref e(2) by (simp add: keeps_def)
      moreover have "\<exists>p. res = Some p \<and> matched sha n fps L g0 p" using mt e(1) by blast
      ultimately show ?thesis unfolding match_outcome_def s by auto
    next
      case True
      obtain res2 m2 where mc: "match_compaction sha n fps tail_fps env min_length L now m1 = (res2, m2)" by fastforce
      have ns1: "\<exists>ns1. map_of (pm_groups m1) n = Some ns1"
        using sp(7) [of "(n, key)"] by (auto simp: group_at_def split: option.splits)
      then obtain ns1 where ns1: "map_of (pm_groups m1) n = Some ns1" ..
      note cs = match_compaction_spec [OF sp(2) ns1 mc]
      have m': "m' = m2" using step mc True by (simp split: option.splits)
      have "\<exists>k \<le> 2. pm_access m2 = pm_access m + of_nat k"
        using cs sp(5) by (cases "res2 = None") (auto intro: exI [of _ 1] exI [of _ 2])
      then have "keeps sha now m m'"
        using cs sp(3) refreshed_trans [OF ref] m' by (simp add: keeps_def)
      moreover have "match_outcome sha n fps ?tail env min_length now m (Some ((key, g0), L)) res"
      proof (cases res2)
        case None
        then have "res = Some ?p" using step mc True by simp
        then show ?thesis using mt by (auto simp: match_outcome_def)
      next
        case (Some p)
        then have "res = Some p" using step mc True by simp
        moreover have "continues n fps ?tail env min_length L now m p"
          using cs Some continues_refreshed [OF ref] by blast
        ultimately show ?thesis using True gf(2) by (simp add: match_outcome_def D_def)
      qed
      ultimately show ?thesis unfolding s by blast
    qed
  qed
qed

text \<open>The match leaves the matcher sound, whatever it finds.\<close>

lemma match_locked_keeps:
  assumes "matcher_core sha now m"
  shows "keeps sha now m (snd (match_locked sha n fps tail_fps env min_length now m))"
proof -
  have id: "keeps sha now m m" using assms by (auto simp: keeps_def intro: exI [of _ 0])
  obtain res m' where res: "match_locked sha n fps tail_fps env min_length now m = (res, m')" by fastforce
  show ?thesis
  proof (cases "map_of (pm_groups m) n = None \<or> fps = [] \<or> min_length = 0 \<or> min_length > length fps")
    case True
    then have "match_locked sha n fps tail_fps env min_length now m = (None, m)"
      by (auto simp: match_locked_def split: option.split)
    with id show ?thesis by simp
  next
    case False
    then obtain ns where "map_of (pm_groups m) n = Some ns" by (cases "map_of (pm_groups m) n") auto
    from match_locked_spec [OF assms this _ _ res] False res show ?thesis by simp
  qed
qed

end
