(* ===== verification/Session_Runs.thy ===== *)
theory Session_Runs
  imports Session_Match Transition_Systems
begin

text \<open>
  The operations on the index of conversations: what binding, touching and removing do to the groups,
  runs of operations at instants that do not go back, and what the index promises to the selector.
\<close>

section \<open>Binding\<close>

text \<open>The groups other than the one written to are gone, unchanged, or renewed.\<close>

definition others_renewed :: "instant \<Rightarrow> group_ref \<Rightarrow> prefix_matcher \<Rightarrow> prefix_matcher \<Rightarrow> bool" where
  "others_renewed now r m m' \<longleftrightarrow>
     (\<forall>r'. r' \<noteq> r \<longrightarrow> group_at m' r' = None \<or> renewed now (pm_ttl m) (group_at m r') (group_at m' r'))"

lemma others_renewedD:
  "others_renewed now r m m' \<Longrightarrow> r' \<noteq> r \<Longrightarrow> group_at m' r' = None \<or> renewed now (pm_ttl m) (group_at m r') (group_at m' r')"
  unfolding others_renewed_def by blast

lemma renewed_None [simp]: "renewed now ttl None y \<longleftrightarrow> y = None"
  by (auto simp: renewed_def)

definition bound_group :: "(string \<Rightarrow> string) \<Rightarrow> string list \<Rightarrow> nat \<Rightarrow> string \<Rightarrow> instant \<Rightarrow> lcp_group \<Rightarrow> bool" where
  "bound_group sha fps min_length auth expires g \<longleftrightarrow>
     lg_fps g = fps \<and> lg_min g = min_length \<and> lg_expires g = expires \<and> (auth \<noteq> [] \<longrightarrow> lg_auth g = auth)"

definition bind_done ::
  "(string \<Rightarrow> string) \<Rightarrow> instant \<Rightarrow> group_ref \<Rightarrow> string list \<Rightarrow> nat \<Rightarrow> string \<Rightarrow> prefix_matcher \<Rightarrow> bind_result \<Rightarrow> prefix_matcher \<Rightarrow> bool"
where
  "bind_done sha now r fps min_length auth m b m' \<longleftrightarrow>
     matcher_sound sha now m' \<and> same_limits m m' \<and> pm_operations m' = pm_operations m \<and>
     (\<exists>g. group_at m' r = Some g \<and> bound_group sha fps min_length auth (now + pm_ttl m) g \<and>
        lg_session g = br_session b \<and> lg_access g = br_access b) \<and>
     others_renewed now r m m' \<and> (\<exists>k. 0 < k \<and> k \<le> 4 \<and> pm_access m' = pm_access m + of_nat k \<and> br_access b = pm_access m')"

lemma bind_group_done:
  assumes core: "matcher_core sha now m1" and none: "group_at m1 r = None"
    and g: "group_ok sha (pm_max_turns m1) (snd r) g" "bound_group sha fps min_length auth (now + pm_ttl m) g"
    and m1: "same_limits m m1" "pm_operations m1 = pm_operations m" "others_renewed now r m m1"
      "k \<le> 2" "pm_access m1 = pm_access m + of_nat k"
    and b: "bind_group sha r g m1 = (b, m')"
  shows "bind_done sha now r fps min_length auth m b m'"
proof -
  let ?m = "m1\<lparr>pm_access := pm_access m1 + 1\<rparr>" and ?g = "g\<lparr>lg_access := pm_access m1 + 1\<rparr>"
  have m': "m' = add_group sha r ?g ?m" and br: "br_session b = lg_session g" "br_access b = pm_access m1 + 1 + 1"
    using b by (auto simp: bind_group_def next_access_def Let_def)
  have c: "matcher_core sha now ?m" "group_at ?m r = None" "group_ok sha (pm_max_turns ?m) (snd r) ?g"
    using core none g(1) by (simp_all add: group_ok_def)
  note ad = add_group_spec [OF c, folded m']
  have lim: "same_limits m m'" using ad(2) m1(1) by (simp add: same_limits_def)
  have at: "\<exists>g. group_at m' r = Some g \<and> bound_group sha fps min_length auth (now + pm_ttl m) g \<and>
      lg_session g = br_session b \<and> lg_access g = br_access b"
    using ad(6) g(2) br by (simp add: bound_group_def)
  have oth: "others_renewed now r m m'"
    unfolding others_renewed_def
  proof (intro allI impI)
    fix r' assume "r' \<noteq> r"
    then show "group_at m' r' = None \<or> renewed now (pm_ttl m) (group_at m r') (group_at m' r')"
      using ad(7) [of r'] others_renewedD [OF m1(3), of r'] by (auto split: if_splits)
  qed
  have "pm_access m' = pm_access m + of_nat (k + 2)" using ad(3) m1(5) by simp
  then have acc: "\<exists>k. 0 < k \<and> k \<le> 4 \<and> pm_access m' = pm_access m + of_nat k \<and> br_access b = pm_access m'"
    using m1(4) ad(3) br(2) by (intro exI [of _ "k + 2"]) simp
  have "pm_operations m' = pm_operations m" using ad(4) m1(2) by simp
  then show ?thesis using ad(1) lim at oth acc unfolding bind_done_def by blast
qed

lemma refreshed_none: "refreshed now m m' \<Longrightarrow> group_at m r = None \<Longrightarrow> group_at m' r = None"
proof -
  assume "refreshed now m m'" "group_at m r = None"
  then have "renewed now (pm_ttl m) None (group_at m' r)" by (metis refreshed_def)
  then show ?thesis by simp
qed

lemma refreshed_others: "refreshed now m m' \<Longrightarrow> others_renewed now r m m'"
  by (simp add: refreshed_def others_renewed_def)

lemma remove_others: "others_renewed now r m (remove_group r m)"
  by (simp add: others_renewed_def group_at_remove)

lemma others_renewed_trans:
  assumes "others_renewed now r a b" and "others_renewed now r b c" and "pm_ttl b = pm_ttl a"
  shows "others_renewed now r a c"
  unfolding others_renewed_def
proof (intro allI impI)
  fix r' assume r: "r' \<noteq> r"
  from others_renewedD [OF assms(1) r] others_renewedD [OF assms(2) r] assms(3)
  show "group_at c r' = None \<or> renewed now (pm_ttl a) (group_at a r') (group_at c r')"
    by (metis renewed_None renewed_trans)
qed

lemma bind_unmatched_done:
  assumes core: "matcher_core sha now m1" and none: "group_at m1 r = None"
    and g: "group_ok sha (pm_max_turns m1) (snd r) g" "bound_group sha fps min_length auth (now + pm_ttl m) g" "lg_auth g = auth"
    and m1: "same_limits m m1" "pm_operations m1 = pm_operations m" "others_renewed now r m m1" "pm_access m1 = pm_access m"
    and b: "bind_unmatched sha r g (match_locked sha n fps tail_fps env min_length now m1) = (b, m')"
  shows "bind_done sha now r fps min_length auth m b m'"
proof -
  obtain res m2 where ml: "match_locked sha n fps tail_fps env min_length now m1 = (res, m2)" by fastforce
  have k: "keeps sha now m1 m2"
    using match_locked_keeps [OF core, of n fps tail_fps env min_length] ml by simp
  then have ref: "refreshed now m1 m2" and core2: "matcher_core sha now m2" by (simp_all add: keeps_def)
  have none2: "group_at m2 r = None" by (rule refreshed_none [OF ref none])
  obtain g2 where bg: "bind_group sha r g2 m2 = (b, m')"
    and g2: "lg_fps g2 = lg_fps g" "lg_min g2 = lg_min g" "lg_expires g2 = lg_expires g" "lg_keys g2 = lg_keys g"
      "lg_auth g \<noteq> [] \<longrightarrow> lg_auth g2 = lg_auth g"
    using b ml by (cases res) (auto simp: bind_unmatched_def Let_def split: if_splits)
  have lim: "same_limits m m2" using ref m1(1) by (simp add: refreshed_def same_limits_def)
  have oth: "others_renewed now r m m2"
    using others_renewed_trans [OF m1(3) refreshed_others [OF ref]] m1(1) by (simp add: same_limits_def)
  obtain j where "j \<le> 2" "pm_access m2 = pm_access m1 + of_nat j" using k by (auto simp: keeps_def)
  moreover have "group_ok sha (pm_max_turns m2) (snd r) g2"
    using g(1) g2 ref by (simp add: group_ok_def refreshed_def same_limits_def)
  moreover have "bound_group sha fps min_length auth (now + pm_ttl m) g2"
    using g(2,3) g2 by (simp add: bound_group_def)
  moreover have "pm_operations m2 = pm_operations m" using ref m1(2) by (simp add: refreshed_def)
  ultimately show ?thesis
    using bind_group_done [OF core2 none2 _ _ lim _ oth _ _ bg] m1(4) by simp
qed

lemma bind_locked_done:
  assumes core: "matcher_core sha now m" and fps: "fps \<noteq> []" "length fps \<le> pm_max_turns m"
    and same: "\<And>e. group_at m (n, sequence_key sha fps) = Some e \<Longrightarrow> lg_fps e = fps"
    and b: "bind_locked sha n fps tail_fps env min_length auth now m = (b, m')"
  shows "bind_done sha now (n, sequence_key sha fps) fps min_length auth m b m'"
proof -
  let ?r = "(n, sequence_key sha fps)"
  let ?tail = "if tail_fps = [] then extract_tail_fingerprints fps else tail_fps"
  let ?env = "if env = [] then fallback_environment_digest sha fps min_length else env"
  define fresh where "fresh = \<lparr>lg_auth = auth, lg_session = [], lg_parent = [], lg_min = min_length, lg_fork = False,
      lg_compaction = False, lg_kind = [], lg_env = ?env, lg_fps = fps, lg_tails = ?tail,
      lg_keys = rolling_prefix_keys sha fps, lg_expires = now + pm_ttl m, lg_access = 0\<rparr>"
  have fr: "group_ok sha (pm_max_turns m) (snd ?r) fresh" "bound_group sha fps min_length auth (now + pm_ttl m) fresh"
      "lg_auth fresh = auth"
    using fps by (simp_all add: fresh_def group_ok_def bound_group_def)
  have id: "others_renewed now ?r m m" by (simp add: others_renewed_def)
  show ?thesis
  proof (cases "group_at m ?r")
    case None
    have "bind_unmatched sha ?r fresh (match_locked sha n fps ?tail ?env min_length now m) = (b, m')"
      using b None by (simp add: bind_locked_def Let_def fresh_def)
    then show ?thesis by (rule bind_unmatched_done [OF core None fr same_limits_refl refl id refl])
  next
    case (Some e)
    let ?m = "remove_group ?r m"
    have core': "matcher_core sha now ?m" by (rule matcher_core_remove [OF core])
    have none: "group_at ?m ?r = None" by (simp add: group_at_remove)
    have turns: "pm_max_turns ?m = pm_max_turns m" using remove_group_same [of m ?r] by (simp add: same_limits_def)
    show ?thesis
    proof (cases "now < lg_expires e")
      case True
      let ?g = "fresh\<lparr>lg_session := lg_session e, lg_parent := lg_parent e, lg_fork := lg_fork e,
        lg_compaction := lg_compaction e, lg_kind := lg_kind e, lg_keys := lg_keys e\<rparr>"
      have bg: "bind_group sha ?r ?g ?m = (b, m')"
        using b Some True by (simp add: bind_locked_def Let_def fresh_def)
      have keys: "lg_keys e = rolling_prefix_keys sha fps"
        using matcher_core_group [OF core Some] same [OF Some] by (simp add: group_ok_def)
      have g: "group_ok sha (pm_max_turns ?m) (snd ?r) ?g" "bound_group sha fps min_length auth (now + pm_ttl m) ?g"
        using fps turns by (simp_all add: keys group_ok_def bound_group_def fresh_def)
      show ?thesis
        by (rule bind_group_done [OF core' none g remove_group_same remove_group_counter(2) remove_others, of 0])
          (use bg in simp_all)
    next
      case False
      have bu: "bind_unmatched sha ?r fresh (match_locked sha n fps ?tail ?env min_length now ?m) = (b, m')"
        using b Some False by (simp add: bind_locked_def Let_def fresh_def)
      have "group_ok sha (pm_max_turns ?m) (snd ?r) fresh" using fr(1) by (simp only: turns)
      then show ?thesis
        by (rule bind_unmatched_done [OF core' none _ fr(2,3) remove_group_same remove_group_counter(2) remove_others
              remove_group_counter(1) bu])
    qed
  qed
qed

section \<open>Touching\<close>

definition touched :: "(string \<Rightarrow> string) \<Rightarrow> instant \<Rightarrow> group_ref \<Rightarrow> string list \<Rightarrow> nat \<Rightarrow> string \<Rightarrow> prefix_matcher \<Rightarrow> prefix_matcher \<Rightarrow> bool" where
  "touched sha now r fps min_length auth m m' \<longleftrightarrow>
     matcher_sound sha now m' \<and> same_limits m m' \<and> pm_operations m' = pm_operations m \<and> others_renewed now r m m' \<and>
     (\<exists>k. 0 < k \<and> k \<le> 4 \<and> pm_access m' = pm_access m + of_nat k) \<and>
     (\<exists>g. group_at m' r = Some g \<and> lg_auth g = auth \<and> lg_access g = pm_access m' \<and> lg_expires g = now + pm_ttl m \<and>
        (case group_at m r of
           Some e \<Rightarrow> if now < lg_expires e then lg_fps g = lg_fps e \<and> lg_min g = lg_min e \<and> lg_session g = lg_session e
                     else lg_fps g = fps \<and> lg_min g = min_length
         | None \<Rightarrow> lg_fps g = fps \<and> lg_min g = min_length))"

lemma touched_bound:
  assumes "bind_done sha now r fps min_length auth m1 b m'" and "auth \<noteq> []"
    and "same_limits m m1" "pm_operations m1 = pm_operations m" "others_renewed now r m m1" "pm_access m1 = pm_access m"
    and "\<forall>e. group_at m r = Some e \<longrightarrow> \<not> now < lg_expires e"
  shows "touched sha now r fps min_length auth m m'"
proof -
  from assms(1) obtain g k where d: "matcher_sound sha now m'" "same_limits m1 m'" "pm_operations m' = pm_operations m1"
    "others_renewed now r m1 m'" and g: "group_at m' r = Some g" "bound_group sha fps min_length auth (now + pm_ttl m1) g"
    "lg_access g = br_access b" and k: "0 < k" "k \<le> 4" "pm_access m' = pm_access m1 + of_nat k" "br_access b = pm_access m'"
    unfolding bind_done_def by (elim conjE exE)
  have ttl: "pm_ttl m1 = pm_ttl m" using assms(3) by (simp add: same_limits_def)
  have g': "lg_auth g = auth" "lg_access g = pm_access m'" "lg_expires g = now + pm_ttl m" "lg_fps g = fps" "lg_min g = min_length"
    using g k(4) assms(2) ttl by (simp_all add: bound_group_def)
  moreover have "case group_at m r of
           Some e \<Rightarrow> if now < lg_expires e then lg_fps g = lg_fps e \<and> lg_min g = lg_min e \<and> lg_session g = lg_session e
                     else lg_fps g = fps \<and> lg_min g = min_length
         | None \<Rightarrow> lg_fps g = fps \<and> lg_min g = min_length"
    using assms(7) g' by (cases "group_at m r") auto
  moreover have "others_renewed now r m m'" using others_renewed_trans [OF assms(5) d(4) ttl] .
  moreover have "\<exists>k. 0 < k \<and> k \<le> 4 \<and> pm_access m' = pm_access m + of_nat k" using k assms(6) by auto
  ultimately show ?thesis
    using d assms(3,4) same_limits_trans [OF assms(3) d(2)] g(1) unfolding touched_def by auto
qed

text \<open>A live group that belongs to someone else is left alone; otherwise the group now belongs to the
  credential that touched it and is the latest one used.\<close>

lemma touch_locked_done:
  assumes sound: "matcher_sound sha now m" and fps: "fps \<noteq> []" "length fps \<le> pm_max_turns m" and auth: "auth \<noteq> []"
    and same: "\<And>e. group_at m (n, sequence_key sha fps) = Some e \<Longrightarrow> lg_fps e = fps"
    and t: "touch_locked sha n fps tail_fps env min_length auth now m = (ok, m')"
  shows "if ok then touched sha now (n, sequence_key sha fps) fps min_length auth m m'
    else m' = m \<and> (\<exists>e. group_at m (n, sequence_key sha fps) = Some e \<and> now < lg_expires e \<and> lg_auth e \<noteq> auth \<and>
      lg_auth e \<noteq> ''home-pending'' \<and> lg_auth e \<noteq> [])"
proof -
  let ?r = "(n, sequence_key sha fps)"
  have core: "matcher_core sha now m" and lim: "\<not> over_limits m" using sound by (simp_all add: matcher_sound_def)
  show ?thesis
  proof (cases "group_at m ?r")
    case None
    obtain b m1 where b: "bind_locked sha n fps tail_fps env min_length auth now m = (b, m1)" by fastforce
    then have "ok" "m' = m1" using t None by (simp_all add: touch_locked_def Let_def)
    with touched_bound [OF bind_locked_done [OF core fps same b] auth, of m] None show ?thesis
      by (simp add: others_renewed_def)
  next
    case (Some e)
    show ?thesis
    proof (cases "now < lg_expires e")
      case False
      let ?m = "remove_group ?r m"
      obtain b m1 where b: "bind_locked sha n fps tail_fps env min_length auth now ?m = (b, m1)" by fastforce
      then have e: "ok" "m' = m1" using t Some False by (simp_all add: touch_locked_def Let_def)
      have turns: "length fps \<le> pm_max_turns ?m" using fps(2) remove_group_same [of m ?r] by (simp add: same_limits_def)
      have none: "group_at ?m ?r = None" by (simp add: group_at_remove)
      have "bind_done sha now ?r fps min_length auth ?m b m1"
        by (rule bind_locked_done [OF matcher_core_remove [OF core] fps(1) turns _ b]) (simp add: none)
      from touched_bound [OF this auth remove_group_same remove_group_counter(2) remove_others remove_group_counter(1)] Some False e
      show ?thesis by simp
    next
      case live: True
      show ?thesis
      proof (cases "lg_auth e \<noteq> auth \<and> \<not> (lg_auth e = ''home-pending'' \<or> lg_auth e = [])")
        case True
        then have "(ok, m') = (False, m)" using t Some live by (simp add: touch_locked_def Let_def)
        with True Some live show ?thesis by simp
      next
        case False
        let ?m = "m\<lparr>pm_access := pm_access m + 1\<rparr>"
        define e1 where "e1 = e\<lparr>lg_auth := auth, lg_expires := now + pm_ttl m, lg_access := pm_access m + 1, lg_env := env\<rparr>"
        define m1 where "m1 = set_group ?r e1 ?m"
        define m2 where "m2 = (if tail_fps \<noteq> [] \<and> lg_tails e1 \<noteq> tail_fps
          then add_group sha ?r (e1\<lparr>lg_tails := tail_fps\<rparr>) (remove_group ?r m1) else m1)"
        have out: "ok" "m' = move_to_back ?r m2"
          using t Some live False by (auto simp: touch_locked_def Let_def next_access_def e1_def m1_def m2_def)
        have at: "group_at ?m ?r = Some e" using Some by simp
        have core1: "matcher_core sha now m1"
          unfolding m1_def using core live by (intro set_group_core [OF _ at]) (simp_all add: e1_def)
        have at1: "group_at m1 r' = (if r' = ?r then Some e1 else group_at m r')" for r'
          unfolding m1_def using at by (simp add: group_at_set)
        have lim1: "same_limits m m1" "\<not> over_limits m1" "pm_access m1 = pm_access m + 1" "pm_operations m1 = pm_operations m"
          using set_group_fields [where r = ?r and g = e1 and m = ?m] lim by (simp_all add: m1_def same_limits_def over_limits_def)
        have ok1: "group_ok sha (pm_max_turns m) (snd ?r) e1"
          using matcher_core_group [OF core Some] by (simp add: group_ok_def e1_def)
        have done2: "matcher_sound sha now m2 \<and> same_limits m m2 \<and> pm_operations m2 = pm_operations m \<and>
            (\<exists>g. group_at m2 ?r = Some g \<and> lg_auth g = auth \<and> lg_access g = pm_access m2 \<and> lg_expires g = now + pm_ttl m \<and>
               lg_fps g = lg_fps e \<and> lg_min g = lg_min e \<and> lg_session g = lg_session e) \<and>
            (\<forall>r'. r' \<noteq> ?r \<longrightarrow> group_at m2 r' = None \<or> group_at m2 r' = group_at m r') \<and>
            (\<exists>k. 0 < k \<and> k \<le> 4 \<and> pm_access m2 = pm_access m + of_nat k)"
        proof (cases "tail_fps \<noteq> [] \<and> lg_tails e1 \<noteq> tail_fps")
          case False
          then have "m2 = m1" by (auto simp: m2_def)
          with core1 lim1 at1 show ?thesis by (auto simp: matcher_sound_def e1_def intro: exI [of _ 1])
        next
          case True
          let ?n = "remove_group ?r m1"
          have m2: "m2 = add_group sha ?r (e1\<lparr>lg_tails := tail_fps\<rparr>) ?n" using True by (simp add: m2_def)
          have turns: "pm_max_turns ?n = pm_max_turns m"
            using remove_group_same [of m1 ?r] lim1(1) by (simp add: same_limits_def)
          have c: "matcher_core sha now ?n" "group_at ?n ?r = None"
              "group_ok sha (pm_max_turns ?n) (snd ?r) (e1\<lparr>lg_tails := tail_fps\<rparr>)"
            using matcher_core_remove [OF core1] ok1 turns by (simp_all add: group_at_remove group_ok_def)
          note ad = add_group_spec [OF c, folded m2]
          have "\<forall>r'. r' \<noteq> ?r \<longrightarrow> group_at m2 r' = None \<or> group_at m2 r' = group_at m r'"
            using ad(7) by (simp add: group_at_remove at1)
          moreover have "same_limits m m2"
            using same_limits_trans [OF lim1(1) same_limits_trans [OF remove_group_same ad(2)]] .
          ultimately show ?thesis
            using ad(1,3,4,6) lim1(3,4) by (auto simp: e1_def intro: exI [of _ 2])
        qed
        let ?n = "move_to_back ?r m2"
        from done2 have s2: "matcher_sound sha now m2" and l2: "same_limits m m2" and o2: "pm_operations m2 = pm_operations m"
          and g2: "\<exists>g. group_at m2 ?r = Some g \<and> lg_auth g = auth \<and> lg_access g = pm_access m2 \<and>
               lg_expires g = now + pm_ttl m \<and> lg_fps g = lg_fps e \<and> lg_min g = lg_min e \<and> lg_session g = lg_session e"
          and r2: "\<forall>r'. r' \<noteq> ?r \<longrightarrow> group_at m2 r' = None \<or> group_at m2 r' = group_at m r'"
          and k2: "\<exists>k. 0 < k \<and> k \<le> 4 \<and> pm_access m2 = pm_access m + of_nat k"
          by - (elim conjE, assumption)+
        have sound2: "matcher_sound sha now ?n" using s2 by (simp add: matcher_sound_def move_to_back_core)
        have lim2: "same_limits m ?n" by (rule same_limits_trans [of _ m2]) (use l2 in simp_all)
        have oth2: "others_renewed now ?r m ?n"
          unfolding others_renewed_def
        proof (intro allI impI)
          fix r' assume "r' \<noteq> ?r"
          with r2 have "group_at m2 r' = None \<or> group_at m2 r' = group_at m r'" by blast
          then show "group_at ?n r' = None \<or> renewed now (pm_ttl m) (group_at m r') (group_at ?n r')"
            by (elim disjE) simp_all
        qed
        obtain g where g: "group_at m2 ?r = Some g" "lg_auth g = auth" "lg_access g = pm_access m2"
          "lg_expires g = now + pm_ttl m" "lg_fps g = lg_fps e" "lg_min g = lg_min e" "lg_session g = lg_session e"
          using g2 by blast
        have "touched sha now ?r fps min_length auth m ?n"
          unfolding touched_def Some option.case
          by (intro conjI exI [of _ g] sound2 lim2 oth2) (use o2 k2 g live in simp_all)
        with out show ?thesis by simp
      qed
    qed
  qed
qed

section \<open>Preparation and removal\<close>

lemma set_refs_where: "r \<in> set (refs_where P m) \<longleftrightarrow> (\<exists>g. group_at m r = Some g \<and> P g)"
proof -
  have "r \<in> set (group_refs m)" if at: "group_at m r = Some g" for g
  proof -
    obtain ns where "map_of (pm_groups m) (fst r) = Some ns" "map_of (ln_groups ns) (snd r) = Some g"
      using group_at_ns [OF at] by blast
    then have "(fst r, ns) \<in> set (pm_groups m)" "(snd r, g) \<in> set (ln_groups ns)" by (simp_all add: map_of_SomeD)
    then show ?thesis by (cases r) (force simp: group_refs_def)
  qed
  then show ?thesis by (auto simp: refs_where_def split: option.splits)
qed

lemma cleanup_spec:
  "group_at (cleanup_locked now m) r =
     (case group_at m r of None \<Rightarrow> None | Some g \<Rightarrow> if now < lg_expires g then Some g else None)"
  by (auto simp: cleanup_locked_def group_at_removes set_refs_where split: option.split)

lemma cleanup_keeps:
  "matcher_sound sha T m \<Longrightarrow> matcher_sound sha T (cleanup_locked now m)" "same_limits m (cleanup_locked now m)"
  "pm_access (cleanup_locked now m) = pm_access m"
  by (simp_all add: cleanup_locked_def matcher_sound_removes)

lemma matcher_sound_operations [simp]: "matcher_sound sha T (m\<lparr>pm_operations := a\<rparr>) = matcher_sound sha T m"
  by (simp add: matcher_sound_def over_limits_def)

lemma prepare_keeps:
  assumes "matcher_sound sha T m"
  shows "matcher_sound sha T (prepare_locked now m)" and "same_limits m (prepare_locked now m)"
    and "pm_access (prepare_locked now m) = pm_access m"
    and "group_at (prepare_locked now m) r = group_at m r \<or>
      group_at (prepare_locked now m) r = None \<and> (\<exists>g. group_at m r = Some g \<and> \<not> now < lg_expires g)"
proof -
  have o: "same_limits m (m\<lparr>pm_operations := a\<rparr>)" for a by (simp add: same_limits_def)
  show "matcher_sound sha T (prepare_locked now m)"
    using assms by (simp add: prepare_locked_def Let_def cleanup_keeps)
  show "same_limits m (prepare_locked now m)"
    using same_limits_trans [OF o cleanup_keeps(2)] o by (simp add: prepare_locked_def Let_def)
  show "pm_access (prepare_locked now m) = pm_access m" by (simp add: prepare_locked_def Let_def cleanup_keeps)
  show "group_at (prepare_locked now m) r = group_at m r \<or>
      group_at (prepare_locked now m) r = None \<and> (\<exists>g. group_at m r = Some g \<and> \<not> now < lg_expires g)"
    by (auto simp: prepare_locked_def Let_def cleanup_spec split: option.split)
qed

lemma prepare_live: "matcher_sound sha T m \<Longrightarrow> group_at m r = Some g \<Longrightarrow> now < lg_expires g \<Longrightarrow>
    group_at (prepare_locked now m) r = Some g"
  using prepare_keeps(4) [of sha T m now r] by auto

lemma prepare_some: "matcher_sound sha T m \<Longrightarrow> group_at (prepare_locked now m) r = Some g \<Longrightarrow> group_at m r = Some g"
  using prepare_keeps(4) [of sha T m now r] by auto

lemma sanitize_spec:
  assumes "sanitize_fingerprints m fps min_length = Some (fps', min')" and "0 < pm_max_turns m"
  shows "min' = min_length" and "fps' = take (pm_max_turns m) fps" and "0 < min'" and "min' \<le> length fps'"
  using assms by (auto simp: sanitize_fingerprints_def Let_def split: if_splits)

lemma sanitize_whole:
  "0 < min_length \<Longrightarrow> min_length \<le> length fps \<Longrightarrow> length fps \<le> pm_max_turns m \<Longrightarrow>
     sanitize_fingerprints m fps min_length = Some (fps, min_length)"
  by (auto simp: sanitize_fingerprints_def Let_def)

text \<open>Behind the checks of the arguments there is the operation under the lock.\<close>

lemma with_context_sanitized:
  assumes "sanitize_fingerprints m fps k = Some (fps', k')"
  shows "n \<noteq> [] \<Longrightarrow> match_fingerprints_with_context sha now n fps tails env k m =
      match_locked sha n fps' (tail_or_default tails fps) (env_or_default sha env fps k) k' now (prepare_locked now m)"
    and "trim_space n \<noteq> [] \<Longrightarrow> trim_space auth \<noteq> [] \<Longrightarrow> bind_fingerprints_with_context sha now n fps tails env k auth m =
      bind_locked sha n fps' (tail_or_default tails fps) (env_or_default sha env fps k) k' (trim_space auth) now (prepare_locked now m)"
    and "trim_space n \<noteq> [] \<Longrightarrow> trim_space auth \<noteq> [] \<Longrightarrow> touch_fingerprints_with_context sha now n fps tails env k auth m =
      touch_locked sha n fps' (tail_or_default tails fps) (env_or_default sha env fps k) k' (trim_space auth) now (prepare_locked now m)"
  using assms by (simp_all add: match_fingerprints_with_context_def bind_fingerprints_with_context_def
      touch_fingerprints_with_context_def)

section \<open>Lists that agree\<close>

text \<open>The shortest prefix that tells conversations apart depends on which fingerprints are the system's.\<close>

definition requested_min :: "(string \<Rightarrow> bool) \<Rightarrow> string list \<Rightarrow> nat" where
  "requested_min sys fps = (if list_all sys fps then 0 else length (takeWhile sys fps) + 1)"

lemma requested_min_roles:
  assumes "\<And>t. t \<in> set turns \<Longrightarrow> sys (fp t) \<longleftrightarrow> canonical_role (role t) = ''system''"
  shows "minimum_affinity_prefix_length (map role turns) = requested_min sys (map fp turns)"
proof -
  have "minimum_from i (map role turns) = (if list_all sys (map fp turns) then 0 else i + length (takeWhile sys (map fp turns)) + 1)" for i
    using assms by (induction turns arbitrary: i) auto
  then show ?thesis by (simp add: minimum_affinity_prefix_length_def requested_min_def)
qed

lemma requested_min_take:
  assumes "requested_min sys fps = k" and "0 < k" and "k \<le> length (take j fps)" and "take (length (take j fps)) gs = take j fps"
  shows "requested_min sys gs = k"
proof -
  have k: "k = length (takeWhile sys fps) + 1" "\<not> list_all sys fps" using assms(1,2) by (auto simp: requested_min_def split: if_splits)
  let ?n = "length (takeWhile sys fps)"
  have n: "?n < length fps" "\<not> sys (fps ! ?n)" "?n < length (take j fps)" "?n < j"
    using k assms(3) nth_length_takeWhile [of sys fps] by (auto simp: list_all_iff)
  have same: "gs ! i = fps ! i" if "i < length (take j fps)" for i
    using assms(4) that by (metis nth_take length_take min_less_iff_conj)
  have "takeWhile sys gs = takeWhile sys fps"
  proof -
    have split: "gs = take ?n gs @ drop ?n gs" by simp
    have len: "length (take j fps) \<le> length gs" using assms(4) by (metis length_take min.cobounded1 min.absorb_iff2 nat_le_linear)
    have "take ?n gs = take ?n fps"
      using n len same by (intro nth_equalityI) auto
    then have tk: "take ?n gs = takeWhile sys fps" by (simp add: takeWhile_eq_take [symmetric])
    have "drop ?n gs = gs ! ?n # drop (Suc ?n) gs" using n len by (intro Cons_nth_drop_Suc [symmetric]) simp
    moreover have "\<not> sys (gs ! ?n)" using same [OF n(3)] n(2) by simp
    ultimately show ?thesis
      using tk by (subst split) (auto simp: takeWhile_append dest: set_takeWhileD)
  qed
  moreover have "\<not> list_all sys gs"
  proof -
    have "?n < length gs" using n(3) assms(4) by (metis length_take min_less_iff_conj)
    then show ?thesis using same [OF n(3)] n(2) by (metis list_all_length)
  qed
  ultimately show ?thesis using k by (simp add: requested_min_def)
qed

text \<open>How much of the request a group remembers.\<close>

definition shared :: "string list \<Rightarrow> lcp_group \<Rightarrow> nat" where
  "shared fps g = length (longest_common_prefix (lg_fps g) fps)"

lemma shared_iff: "k \<le> length (longest_common_prefix xs ys) \<longleftrightarrow> k \<le> length xs \<and> k \<le> length ys \<and> take k xs = take k ys"
proof (induction xs ys arbitrary: k rule: longest_common_prefix.induct)
  case (1 x xs y ys)
  show ?case using 1 by (cases k) auto
qed auto

lemma shared_le: "shared fps g \<le> length fps" "shared fps g \<le> length (lg_fps g)"
  using shared_iff [of "shared fps g" "lg_fps g" fps] by (simp_all add: shared_def)

section \<open>Runs\<close>

datatype matcher_op =
    MO_Match string "string list" "string list" string nat
  | MO_Bind string "string list" "string list" string nat string
  | MO_Touch string "string list" "string list" string nat string
  | MO_Remove string "string list" string "64 word"
  | MO_Invalidate string
  | MO_Clear
  | MO_Lookup string

fun apply_matcher_op :: "(string \<Rightarrow> string) \<Rightarrow> instant \<Rightarrow> matcher_op \<Rightarrow> prefix_matcher \<Rightarrow> prefix_matcher" where
  "apply_matcher_op sha now (MO_Match n fps tails env k) m = snd (match_fingerprints_with_context sha now n fps tails env k m)"
| "apply_matcher_op sha now (MO_Bind n fps tails env k auth) m = snd (bind_fingerprints_with_context sha now n fps tails env k auth m)"
| "apply_matcher_op sha now (MO_Touch n fps tails env k auth) m = snd (touch_fingerprints_with_context sha now n fps tails env k auth m)"
| "apply_matcher_op sha now (MO_Remove n fps auth gen) m = snd (remove_fingerprints_before sha now n fps auth gen m)"
| "apply_matcher_op sha now (MO_Invalidate auth) m = invalidate_auth auth m"
| "apply_matcher_op sha now MO_Clear m = clear_matcher m"
| "apply_matcher_op sha now (MO_Lookup session) m = snd (lookup_session now session m)"

text \<open>The lists that are bound are among \<open>S\<close>, and come with the shortest prefix that their turns give.\<close>

fun op_fits :: "(string \<Rightarrow> bool) \<Rightarrow> string list set \<Rightarrow> prefix_matcher \<Rightarrow> matcher_op \<Rightarrow> bool" where
  "op_fits sys S m (MO_Bind n fps tails env k auth) \<longleftrightarrow> k = requested_min sys fps \<and> take (pm_max_turns m) fps \<in> S"
| "op_fits sys S m (MO_Touch n fps tails env k auth) \<longleftrightarrow> k = requested_min sys fps \<and> take (pm_max_turns m) fps \<in> S"
| "op_fits sys S m _ \<longleftrightarrow> True"

inductive matcher_step :: "(string \<Rightarrow> string) \<Rightarrow> (string \<Rightarrow> bool) \<Rightarrow> string list set \<Rightarrow>
    prefix_matcher \<times> instant \<Rightarrow> instant \<times> matcher_op \<Rightarrow> prefix_matcher \<times> instant \<Rightarrow> bool"
  for sha sys S where
  "T \<le> now \<Longrightarrow> op_fits sys S m op \<Longrightarrow> matcher_step sha sys S (m, T) (now, op) (apply_matcher_op sha now op m, now)"

inductive_cases matcher_stepE: "matcher_step sha sys S (m, T) (now, op) (m', T')"

definition book_ok :: "(string \<Rightarrow> bool) \<Rightarrow> string list set \<Rightarrow> prefix_matcher \<Rightarrow> bool" where
  "book_ok sys S m \<longleftrightarrow>
     (\<forall>r g. group_at m r = Some g \<longrightarrow> lg_fps g \<in> S \<and> 0 < lg_min g \<and> lg_min g \<le> length (lg_fps g) \<and>
        lg_min g = requested_min sys (lg_fps g))"

definition index_sound :: "(string \<Rightarrow> string) \<Rightarrow> (string \<Rightarrow> bool) \<Rightarrow> string list set \<Rightarrow> instant \<Rightarrow> prefix_matcher \<Rightarrow> bool" where
  "index_sound sha sys S T m \<longleftrightarrow> inj_on (sequence_key sha) S \<and> matcher_sound sha T m \<and> book_ok sys S m"

lemma index_sound_mono: "index_sound sha sys S T m \<Longrightarrow> T \<le> now \<Longrightarrow> index_sound sha sys S now m"
  by (auto simp: index_sound_def intro: matcher_sound_mono)

lemma book_okD:
  "book_ok sys S m \<Longrightarrow> group_at m r = Some g \<Longrightarrow>
     lg_fps g \<in> S \<and> 0 < lg_min g \<and> lg_min g \<le> length (lg_fps g) \<and> lg_min g = requested_min sys (lg_fps g)"
  unfolding book_ok_def by blast

lemma book_okI:
  "(\<And>r g. group_at m r = Some g \<Longrightarrow> lg_fps g \<in> S \<and> 0 < lg_min g \<and> lg_min g \<le> length (lg_fps g) \<and>
      lg_min g = requested_min sys (lg_fps g)) \<Longrightarrow> book_ok sys S m"
  unfolding book_ok_def by blast

lemma renewed_lists:
  "renewed now ttl x (Some g) \<Longrightarrow> \<exists>g0. x = Some g0 \<and> lg_fps g = lg_fps g0 \<and> lg_min g = lg_min g0 \<and> lg_auth g = lg_auth g0 \<and>
     lg_session g = lg_session g0"
  by (cases x) (auto simp: renewed_def)

lemma book_ok_refreshed: "book_ok sys S m \<Longrightarrow> refreshed now m m' \<Longrightarrow> book_ok sys S m'"
proof (rule book_okI)
  fix r g
  assume b: "book_ok sys S m" and "refreshed now m m'" and g: "group_at m' r = Some g"
  then have "renewed now (pm_ttl m) (group_at m r) (Some g)" by (metis refreshed_def)
  from renewed_lists [OF this] b show "lg_fps g \<in> S \<and> 0 < lg_min g \<and> lg_min g \<le> length (lg_fps g) \<and> lg_min g = requested_min sys (lg_fps g)"
    by (auto dest!: book_okD)
qed

lemma book_ok_written:
  assumes "book_ok sys S m" and "others_renewed now r m m'"
    and "group_at m' r = Some g0" and "lg_fps g0 \<in> S \<and> 0 < lg_min g0 \<and> lg_min g0 \<le> length (lg_fps g0) \<and>
      lg_min g0 = requested_min sys (lg_fps g0)"
  shows "book_ok sys S m'"
proof (rule book_okI)
  fix r' g
  assume g: "group_at m' r' = Some g"
  show "lg_fps g \<in> S \<and> 0 < lg_min g \<and> lg_min g \<le> length (lg_fps g) \<and> lg_min g = requested_min sys (lg_fps g)"
  proof (cases "r' = r")
    case True
    with g assms(3) have "g = g0" by simp
    with assms(4) show ?thesis by blast
  next
    case False
    with others_renewedD [OF assms(2)] g have "renewed now (pm_ttl m) (group_at m r') (Some g)"
      by (metis option.distinct(1))
    from renewed_lists [OF this] assms(1) show ?thesis by (auto dest!: book_okD)
  qed
qed

lemma book_ok_fewer:
  "book_ok sys S m \<Longrightarrow> (\<And>r g. group_at m' r = Some g \<Longrightarrow> group_at m r = Some g) \<Longrightarrow> book_ok sys S m'"
  unfolding book_ok_def by blast

lemma index_sound_no_collision:
  assumes "index_sound sha sys S T m" and "fps \<in> S" and "group_at m (n, sequence_key sha fps) = Some e"
  shows "lg_fps e = fps"
proof -
  have "group_ok sha (pm_max_turns m) (sequence_key sha fps) e"
    using assms(1,3) matcher_core_group [of sha T m "(n, sequence_key sha fps)" e] by (simp add: index_sound_def matcher_sound_def)
  moreover have "lg_fps e \<in> S" using assms(1,3) by (auto simp: index_sound_def dest: book_okD)
  ultimately show ?thesis using assms(1,2) by (auto simp: index_sound_def group_ok_def dest: inj_onD)
qed

lemma prepare_sound:
  assumes "index_sound sha sys S T m"
  shows "index_sound sha sys S T (prepare_locked now m)"
proof -
  have s: "matcher_sound sha T m" using assms by (simp add: index_sound_def)
  have "book_ok sys S (prepare_locked now m)"
    using assms prepare_some [OF s] by (auto simp: index_sound_def intro: book_ok_fewer)
  with assms prepare_keeps(1) [OF s] show ?thesis by (simp add: index_sound_def)
qed

lemma index_sound_positive: "index_sound sha sys S T m \<Longrightarrow> 0 < pm_max_turns m \<and> 0 < pm_ttl m"
  by (simp add: index_sound_def matcher_sound_def matcher_core_def)

lemma match_sound:
  assumes "index_sound sha sys S now m"
  shows "index_sound sha sys S now (snd (match_locked sha n fps tails env k now m))"
proof -
  have "matcher_core sha now m" using assms by (simp add: index_sound_def matcher_sound_def)
  from match_locked_keeps [OF this, of n fps tails env k] assms show ?thesis
    by (auto simp: index_sound_def matcher_sound_def keeps_def intro: book_ok_refreshed)
qed

text \<open>What the sanitised arguments of a binding operation have in common.\<close>

lemma sanitized_fits:
  assumes "index_sound sha sys S now m" and "take (pm_max_turns m) fps \<in> S" and "k = requested_min sys fps"
    and "sanitize_fingerprints m fps k = Some (fps', k')"
  shows "fps' \<in> S" and "k' = k" and "0 < k'" and "k' \<le> length fps'" and "fps' \<noteq> []" and "length fps' \<le> pm_max_turns m"
    and "k' = requested_min sys fps'"
proof -
  have pos: "0 < pm_max_turns m" using index_sound_positive [OF assms(1)] by simp
  note sn = sanitize_spec [OF assms(4) pos]
  show "fps' \<in> S" "k' = k" "0 < k'" "k' \<le> length fps'" using sn assms(2) by simp_all
  show "fps' \<noteq> []" using sn(3,4) by auto
  show "length fps' \<le> pm_max_turns m" by (simp add: sn(2))
  have "take (length (take (pm_max_turns m) fps)) (take (pm_max_turns m) fps) = take (pm_max_turns m) fps"
    by (rule take_all) simp
  then show "k' = requested_min sys fps'"
    using requested_min_take [of sys fps k' "pm_max_turns m" fps'] sn assms(3) by simp
qed

lemma bind_sound:
  assumes s: "index_sound sha sys S now m" and fps: "fps \<in> S" "0 < k" "k \<le> length fps" "length fps \<le> pm_max_turns m"
    and k: "k = requested_min sys fps" and b: "bind_locked sha n fps tails env k auth now m = (b, m')"
  shows "index_sound sha sys S now m'" and "bind_done sha now (n, sequence_key sha fps) fps k auth m b m'"
proof -
  have core: "matcher_core sha now m" using s by (simp add: index_sound_def matcher_sound_def)
  have ne: "fps \<noteq> []" using fps by auto
  show bd: "bind_done sha now (n, sequence_key sha fps) fps k auth m b m'"
    by (rule bind_locked_done [OF core ne fps(4) _ b]) (rule index_sound_no_collision [OF s fps(1)])
  from bd obtain g where g: "group_at m' (n, sequence_key sha fps) = Some g" "lg_fps g = fps" "lg_min g = k"
    and oth: "others_renewed now (n, sequence_key sha fps) m m'" and sd: "matcher_sound sha now m'"
    unfolding bind_done_def bound_group_def by blast
  have bk: "book_ok sys S m" and inj: "inj_on (sequence_key sha) S" using s by (simp_all add: index_sound_def)
  have "lg_fps g \<in> S \<and> 0 < lg_min g \<and> lg_min g \<le> length (lg_fps g) \<and> lg_min g = requested_min sys (lg_fps g)"
    unfolding g(2,3) using fps(1,2,3) k by blast
  then have "book_ok sys S m'" by (rule book_ok_written [OF bk oth g(1)])
  with sd inj show "index_sound sha sys S now m'" by (simp add: index_sound_def)
qed

lemma touch_sound:
  assumes s: "index_sound sha sys S now m" and fps: "fps \<in> S" "0 < k" "k \<le> length fps" "length fps \<le> pm_max_turns m"
    and k: "k = requested_min sys fps" and auth: "auth \<noteq> []"
    and t: "touch_locked sha n fps tails env k auth now m = (ok, m')"
  shows "index_sound sha sys S now m'" and "ok \<Longrightarrow> touched sha now (n, sequence_key sha fps) fps k auth m m'"
    and "\<not> ok \<Longrightarrow> m' = m"
proof -
  have ne: "fps \<noteq> []" using fps by auto
  have sd: "matcher_sound sha now m" using s by (simp add: index_sound_def)
  have td: "if ok then touched sha now (n, sequence_key sha fps) fps k auth m m'
    else m' = m \<and> (\<exists>e. group_at m (n, sequence_key sha fps) = Some e \<and> now < lg_expires e \<and> lg_auth e \<noteq> auth \<and>
      lg_auth e \<noteq> ''home-pending'' \<and> lg_auth e \<noteq> [])"
    by (rule touch_locked_done [OF sd ne fps(4) auth _ t]) (rule index_sound_no_collision [OF s fps(1)])
  show "\<not> ok \<Longrightarrow> m' = m" using td by simp
  show tc: "ok \<Longrightarrow> touched sha now (n, sequence_key sha fps) fps k auth m m'" using td by simp
  show "index_sound sha sys S now m'"
  proof (cases ok)
    case False
    with td s show ?thesis by simp
  next
    case True
    note tc = tc [OF True]
    from tc obtain g where g: "group_at m' (n, sequence_key sha fps) = Some g" "case group_at m (n, sequence_key sha fps) of
           Some e \<Rightarrow> if now < lg_expires e then lg_fps g = lg_fps e \<and> lg_min g = lg_min e \<and> lg_session g = lg_session e
                     else lg_fps g = fps \<and> lg_min g = k
         | None \<Rightarrow> lg_fps g = fps \<and> lg_min g = k"
      unfolding touched_def by blast
    have bk: "book_ok sys S m" and inj: "inj_on (sequence_key sha) S" using s by (simp_all add: index_sound_def)
    have new: "lg_fps g \<in> S \<and> 0 < lg_min g \<and> lg_min g \<le> length (lg_fps g) \<and> lg_min g = requested_min sys (lg_fps g)"
      if "lg_fps g = fps" "lg_min g = k"
      unfolding that using fps(1,2,3) k by blast
    have "lg_fps g \<in> S \<and> 0 < lg_min g \<and> lg_min g \<le> length (lg_fps g) \<and> lg_min g = requested_min sys (lg_fps g)"
    proof (cases "group_at m (n, sequence_key sha fps)")
      case None
      with g(2) new show ?thesis by simp
    next
      case (Some e)
      show ?thesis
      proof (cases "now < lg_expires e")
        case True
        with g(2) Some have e: "lg_fps g = lg_fps e" "lg_min g = lg_min e" by simp_all
        show ?thesis unfolding e by (rule book_okD [OF bk Some])
      next
        case False
        with g(2) Some new show ?thesis by simp
      qed
    qed
    moreover have oth: "others_renewed now (n, sequence_key sha fps) m m'" and sd: "matcher_sound sha now m'"
      using tc by (simp_all add: touched_def)
    ultimately have "book_ok sys S m'" by (intro book_ok_written [OF bk oth g(1)])
    with sd inj show ?thesis by (simp add: index_sound_def)
  qed
qed

lemma removes_sound:
  "index_sound sha sys S T m \<Longrightarrow> index_sound sha sys S T (fold remove_group rs m)"
  by (auto simp: index_sound_def matcher_sound_removes group_at_removes split: if_splits intro: book_ok_fewer)

lemma clear_sound: "index_sound sha sys S T m \<Longrightarrow> index_sound sha sys S T (clear_matcher m)"
  by (auto simp: index_sound_def matcher_sound_def matcher_core_def namespaces_ok_def uses_exact_def over_limits_def
      clear_matcher_def book_ok_def group_at_def)

lemma apply_matcher_op_sound:
  assumes s: "index_sound sha sys S now m" and f: "op_fits sys S m op"
  shows "index_sound sha sys S now (apply_matcher_op sha now op m)"
proof -
  have p: "index_sound sha sys S now (prepare_locked now m)" by (rule prepare_sound [OF s])
  have turns: "pm_max_turns (prepare_locked now m) = pm_max_turns m"
    using prepare_keeps(2) [of sha now m now] s by (simp add: index_sound_def same_limits_def)
  show ?thesis
  proof (cases op)
    case (MO_Match n fps tails env k)
    with s match_sound [OF p] show ?thesis
      by (auto simp: match_fingerprints_with_context_def split: option.split)
  next
    case (MO_Bind n fps tails env k auth)
    show ?thesis
    proof (cases "trim_space n = [] \<or> trim_space auth = [] \<or> sanitize_fingerprints m fps k = None")
      case True
      with MO_Bind s show ?thesis by (auto simp: bind_fingerprints_with_context_def)
    next
      case False
      then obtain fps' k' where sn: "sanitize_fingerprints m fps k = Some (fps', k')" by auto
      obtain b m' where b: "bind_locked sha n fps' (tail_or_default tails fps) (env_or_default sha env fps k) k' (trim_space auth)
          now (prepare_locked now m) = (b, m')" by fastforce
      have fit: "take (pm_max_turns m) fps \<in> S" "k = requested_min sys fps" using f MO_Bind by simp_all
      note ff = sanitized_fits [OF s fit sn]
      have "index_sound sha sys S now m'"
        by (rule bind_sound(1) [OF p ff(1) ff(3) ff(4) _ ff(7) b]) (simp add: turns ff(6))
      with MO_Bind False b show ?thesis by (simp add: with_context_sanitized(2) [OF sn])
    qed
  next
    case (MO_Touch n fps tails env k auth)
    show ?thesis
    proof (cases "trim_space n = [] \<or> trim_space auth = [] \<or> sanitize_fingerprints m fps k = None")
      case True
      with MO_Touch s show ?thesis by (auto simp: touch_fingerprints_with_context_def)
    next
      case False
      then obtain fps' k' where sn: "sanitize_fingerprints m fps k = Some (fps', k')" by auto
      obtain ok m' where t: "touch_locked sha n fps' (tail_or_default tails fps) (env_or_default sha env fps k) k' (trim_space auth)
          now (prepare_locked now m) = (ok, m')" by fastforce
      have fit: "take (pm_max_turns m) fps \<in> S" "k = requested_min sys fps" using f MO_Touch by simp_all
      note ff = sanitized_fits [OF s fit sn]
      have "index_sound sha sys S now m'"
        by (rule touch_sound(1) [OF p ff(1) ff(3) ff(4) _ ff(7) _ t]) (use False in \<open>simp_all add: turns ff(6)\<close>)
      with MO_Touch False t show ?thesis by (simp add: with_context_sanitized(3) [OF sn])
    qed
  next
    case (MO_Remove n fps auth gen)
    have "index_sound sha sys S now (remove_group r (prepare_locked now m))" for r
      using removes_sound [OF p, of "[r]"] by simp
    with MO_Remove s p show ?thesis
      by (auto simp: remove_fingerprints_before_def Let_def split: option.split)
  next
    case (MO_Invalidate auth)
    with s show ?thesis by (simp add: invalidate_auth_def removes_sound)
  next
    case MO_Clear
    with s show ?thesis by (simp add: clear_sound)
  next
    case (MO_Lookup session)
    with s show ?thesis by (simp add: lookup_session_def Let_def removes_sound split: list.split)
  qed
qed

lemma matcher_step_sound:
  "index_sound sha sys S (snd st) (fst st) \<Longrightarrow> matcher_step sha sys S st l st' \<Longrightarrow> index_sound sha sys S (snd st') (fst st')"
  by (erule matcher_step.cases) (auto intro: apply_matcher_op_sound index_sound_mono)

interpretation sessions: invariant_system "matcher_step sha sys S" "\<lambda>st. index_sound sha sys S (snd st) (fst st)" for sha sys S
  by unfold_locales (rule matcher_step_sound)

definition matcher_reachable :: "(string \<Rightarrow> string) \<Rightarrow> (string \<Rightarrow> bool) \<Rightarrow> string list set \<Rightarrow> prefix_matcher \<Rightarrow> instant \<Rightarrow> bool" where
  "matcher_reachable sha sys S m T \<longleftrightarrow>
     inj_on (sequence_key sha) S \<and> (\<exists>cfg T0 ls. run_of (matcher_step sha sys S) (new_matcher cfg, T0) ls (m, T))"

lemma new_index_sound: "inj_on (sequence_key sha) S \<Longrightarrow> index_sound sha sys S T (new_matcher cfg)"
proof -
  have "pm_groups (new_matcher cfg) = []" by (simp add: new_matcher_def Let_def)
  then have "book_ok sys S (new_matcher cfg)" by (simp add: book_ok_def group_at_def)
  then show "inj_on (sequence_key sha) S \<Longrightarrow> index_sound sha sys S T (new_matcher cfg)" by (simp add: index_sound_def)
qed

lemma matcher_reachable_sound: "matcher_reachable sha sys S m T \<Longrightarrow> T \<le> now \<Longrightarrow> index_sound sha sys S now m"
  unfolding matcher_reachable_def
  using sessions.inv_run new_index_sound by (fastforce intro: index_sound_mono)

lemma matcher_reachable_new: "inj_on (sequence_key sha) S \<Longrightarrow> matcher_reachable sha sys S (new_matcher cfg) T"
  unfolding matcher_reachable_def by (intro conjI exI) (assumption, rule run_Nil)

lemma matcher_reachable_op:
  assumes "matcher_reachable sha sys S m T" and "T \<le> now" and "op_fits sys S m op"
  shows "matcher_reachable sha sys S (apply_matcher_op sha now op m) now"
proof -
  from assms(1) obtain cfg T0 ls where "run_of (matcher_step sha sys S) (new_matcher cfg, T0) ls (m, T)"
    and i: "inj_on (sequence_key sha) S" by (auto simp: matcher_reachable_def)
  from run_snoc [OF this(1) matcher_step.intros [OF assms(2,3)]] i show ?thesis
    unfolding matcher_reachable_def by (intro conjI exI) simp_all
qed

end
