(* ===== verification/Session_Affinity.thy ===== *)
theory Session_Affinity
  imports Session_Runs
begin

text \<open>
  What the index of conversations promises to the selector: bounded and exact indexes, the longest
  remembered prefix, a binding that is found again, and bindings that neither a delayed success nor
  a delayed failure of an older request undoes.
\<close>

section \<open>The longest remembered prefix\<close>

definition live_groups :: "prefix_matcher \<Rightarrow> string \<Rightarrow> instant \<Rightarrow> lcp_group set" where
  "live_groups m n now = {g. \<exists>key. group_at m (n, key) = Some g \<and> now < lg_expires g}"

text \<open>A live group that shares most with the request, the preferred one of those.\<close>

definition longest :: "prefix_matcher \<Rightarrow> string \<Rightarrow> instant \<Rightarrow> string list \<Rightarrow> nat \<Rightarrow> lcp_group \<Rightarrow> bool" where
  "longest m n now fps k g \<longleftrightarrow>
     g \<in> live_groups m n now \<and> k \<le> shared fps g \<and>
     (\<forall>g' \<in> live_groups m n now. shared fps g' \<le> shared fps g \<and>
        (shared fps g' = shared fps g \<longrightarrow> group_rank g' \<le> group_rank g))"

lemma remembers_shared:
  assumes "book_ok sys S m" and "group_at m r = Some g" and "now < lg_expires g"
    and k: "requested_min sys fps = k" "0 < k" "k \<le> j" "j \<le> length fps"
  shows "remembers (take j fps) now g \<longleftrightarrow> j \<le> shared fps g"
proof
  assume "remembers (take j fps) now g"
  with k(4) show "j \<le> shared fps g" by (simp add: remembers_take shared_def shared_iff)
next
  assume j: "j \<le> shared fps g"
  then have s: "j \<le> length (lg_fps g)" "take j (lg_fps g) = take j fps" using k(4) by (simp_all add: shared_def shared_iff)
  have "requested_min sys (lg_fps g) = k"
    using k s by (intro requested_min_take [OF k(1,2), of j]) simp_all
  then have "lg_min g \<le> j" using book_okD [OF assms(1,2)] k(3) by simp
  with s assms(3) k(4) show "remembers (take j fps) now g" by (simp add: remembers_take)
qed

lemma remembers_live: "remembers fps now g \<Longrightarrow> now < lg_expires g"
  by (simp add: remembers_def)

lemma live_in_namespace:
  "map_of (pm_groups m) n = Some ns \<Longrightarrow> group_at m (n, key) = map_of (ln_groups ns) key"
  by (simp add: group_at_def)

lemma match_longest_core:
  assumes s: "index_sound sha sys S now m" and k: "requested_min sys fps = k" "0 < k" "k \<le> length fps"
    and res: "match_locked sha n fps tails env k now m = (res, m')"
  shows "case res of
      None \<Rightarrow> \<forall>g \<in> live_groups m n now. shared fps g < k
    | Some p \<Rightarrow>
        (\<exists>g. longest m n now fps k g \<and> matched sha n fps (shared fps g) g p) \<or>
        (\<exists>g. longest m n now fps k g \<and> shared fps g < length (lg_fps g) \<and> shared fps g < length fps \<and>
           continues n fps (tail_or_default tails fps) env k (shared fps g) now m p) \<or>
        (\<forall>g \<in> live_groups m n now. shared fps g < k) \<and> continues n fps (tail_or_default tails fps) env k 0 now m p"
proof (cases "map_of (pm_groups m) n")
  case None
  then have "res = None" "live_groups m n now = {}"
    using res by (auto simp: match_locked_def live_groups_def group_at_def)
  then show ?thesis by simp
next
  case (Some ns)
  have core: "matcher_core sha now m" and bk: "book_ok sys S m" using s by (simp_all add: index_sound_def matcher_sound_def)
  then have ok: "ns_ok sha (pm_max_turns m) now ns" using Some by (simp add: matcher_core_def namespaces_ok_def)
  let ?probe = "match_probe sha ns fps now"
  have none: "?probe j = None \<longleftrightarrow> (\<forall>g \<in> live_groups m n now. \<not> j \<le> shared fps g)" if "k \<le> j" "j \<le> length fps" for j
  proof -
    have "0 < j" using that(1) k(2) by simp
    from match_probe_spec(1) [OF ok this that(2)] have
      "?probe j = None \<longleftrightarrow> (\<forall>key g. group_at m (n, key) = Some g \<longrightarrow> \<not> remembers (take j fps) now g)"
      by (simp add: live_in_namespace [OF Some])
    also have "\<dots> \<longleftrightarrow> (\<forall>g \<in> live_groups m n now. \<not> j \<le> shared fps g)"
    proof -
      have "remembers (take j fps) now g \<longleftrightarrow> now < lg_expires g \<and> j \<le> shared fps g" if "group_at m (n, key) = Some g" for key g
        using remembers_shared [OF bk that _ k(1,2) \<open>k \<le> j\<close> \<open>j \<le> length fps\<close>] remembers_live by blast
      then show ?thesis unfolding live_groups_def by blast
    qed
    finally show ?thesis .
  qed
  have mono: "\<forall>i j. k \<le> i \<longrightarrow> i \<le> j \<longrightarrow> j < length fps + 1 \<longrightarrow> ?probe j \<noteq> None \<longrightarrow> ?probe i \<noteq> None"
    using none by (auto simp del: not_None_eq) (meson le_trans)+
  have out: "match_outcome sha n fps (tail_or_default tails fps) env k now m (prefix_search ?probe k (length fps + 1) None) res"
    using match_locked_spec [OF core Some k(2,3) res] by blast
  from prefix_search_longest [OF refl mono, of None] show ?thesis
  proof (elim disjE conjE exE)
    assume "prefix_search ?probe k (length fps + 1) None = None"
      and "\<forall>j. k \<le> j \<and> j < length fps + 1 \<longrightarrow> ?probe j = None"
    then have "\<forall>g \<in> live_groups m n now. shared fps g < k" using none [of k] k(3) by auto
    moreover have "\<forall>p. res = Some p \<longrightarrow> continues n fps (tail_or_default tails fps) env k 0 now m p"
      using out \<open>prefix_search _ _ _ _ = None\<close> by (simp add: match_outcome_def)
    ultimately show ?thesis by (auto split: option.split)
  next
    fix c L
    assume r: "prefix_search ?probe k (length fps + 1) None = Some (c, L)" and L: "k \<le> L" "L < length fps + 1"
      and p: "?probe L = Some c" and above: "\<forall>j. L < j \<and> j < length fps + 1 \<longrightarrow> ?probe j = None"
    obtain key g where c: "c = (key, g)" by (cases c)
    have Lk: "0 < L" "L \<le> length fps" using L k(2) by simp_all
    from match_probe_spec(2) [OF ok Lk] p c have g: "group_at m (n, key) = Some g" "remembers (take L fps) now g"
        "\<And>key' g'. group_at m (n, key') = Some g' \<Longrightarrow> remembers (take L fps) now g' \<Longrightarrow> group_rank g' \<le> group_rank g"
      by (auto simp: live_in_namespace [OF Some])
    have live: "now < lg_expires g" using g(2) by (simp add: remembers_def)
    have bound: "shared fps g' \<le> L" if "g' \<in> live_groups m n now" for g'
    proof (rule ccontr)
      assume "\<not> shared fps g' \<le> L"
      then have "?probe (L + 1) \<noteq> None"
        using none [of "L + 1"] that shared_le(1) [of fps g'] L by fastforce
      with above \<open>\<not> shared fps g' \<le> L\<close> shared_le(1) [of fps g'] show False by auto
    qed
    have gl: "g \<in> live_groups m n now" using g(1) live by (auto simp: live_groups_def)
    have sh: "shared fps g = L"
      using bound [OF gl] remembers_shared [OF bk g(1) live k(1,2) L(1) Lk(2)] g(2) by simp
    have "group_rank g' \<le> group_rank g" if g': "g' \<in> live_groups m n now" "shared fps g' = L" for g'
    proof -
      from g'(1) obtain key' where k': "group_at m (n, key') = Some g'" "now < lg_expires g'" by (auto simp: live_groups_def)
      then have "remembers (take L fps) now g'"
        using remembers_shared [OF bk k' k(1,2) L(1) Lk(2)] g'(2) by simp
      with g(3) k'(1) show ?thesis by blast
    qed
    then have "longest m n now fps k g" using gl sh bound L(1) by (simp add: longest_def)
    moreover obtain q where "res = Some q" "matched sha n fps L g q \<or> L < length (lg_fps g) \<and> L < length fps \<and>
        continues n fps (tail_or_default tails fps) env k L now m q"
      using out unfolding r c match_outcome_def by auto
    ultimately show ?thesis using sh by auto
  qed
qed

lemma live_groups_prepare:
  assumes "matcher_sound sha T m"
  shows "live_groups (prepare_locked now m) n now = live_groups m n now"
  using prepare_live [OF assms] prepare_some [OF assms] unfolding live_groups_def by blast

lemma continues_prepare:
  assumes "matcher_sound sha T m" and "continues n fps tail env k best now (prepare_locked now m) p"
  shows "continues n fps tail env k best now m p"
  using assms(2) prepare_some [OF assms(1)] unfolding continues_def by blast

lemma longest_prepare:
  "matcher_sound sha T m \<Longrightarrow> longest (prepare_locked now m) n now fps k g \<longleftrightarrow> longest m n now fps k g"
  by (simp add: longest_def live_groups_prepare)

lemma requested_min_le: "requested_min sys fps \<le> length fps"
proof -
  have "length (takeWhile sys fps) + length (dropWhile sys fps) = length fps"
    by (metis length_append takeWhile_dropWhile_id)
  moreover have "dropWhile sys fps \<noteq> []" if "\<not> list_all sys fps" using that by (simp add: list_all_iff)
  ultimately show ?thesis by (cases "dropWhile sys fps") (auto simp: requested_min_def)
qed

text \<open>C8: A match finds the live conversation that shares the longest prefix with the request, the most recent
  of the longest ones: its credential is returned, with its session when the request continues it and
  with a new one derived from the point of divergence when it forks it; only a request that diverges, or
  that shares with no conversation more than the system's turns, may continue another one after a compaction;
  and nothing is found only when no live conversation shares enough.\<close>

theorem match_finds_longest:
  assumes "matcher_reachable sha sys S m T" and "T \<le> now" and "n \<noteq> []"
    and "requested_min sys fps = k" and "0 < k" and "length fps \<le> pm_max_turns m"
  shows "case fst (match_fingerprints_with_context sha now n fps tails env k m) of
      None \<Rightarrow> \<forall>g \<in> live_groups m n now. shared fps g < k
    | Some p \<Rightarrow>
        (\<exists>g. longest m n now fps k g \<and> matched sha n fps (shared fps g) g p) \<or>
        (\<exists>g. longest m n now fps k g \<and> shared fps g < length (lg_fps g) \<and> shared fps g < length fps \<and>
           continues n fps (tail_or_default tails fps) (env_or_default sha env fps k) k (shared fps g) now m p) \<or>
        (\<forall>g \<in> live_groups m n now. shared fps g < k) \<and>
          continues n fps (tail_or_default tails fps) (env_or_default sha env fps k) k 0 now m p"
proof -
  let ?tails = "tail_or_default tails fps" and ?env = "env_or_default sha env fps k" and ?m = "prepare_locked now m"
  have s: "index_sound sha sys S now m" by (rule matcher_reachable_sound [OF assms(1,2)])
  then have sd: "matcher_sound sha now m" by (simp add: index_sound_def)
  have len: "k \<le> length fps" using requested_min_le [of sys fps] assms(4) by simp
  obtain res m' where res: "match_locked sha n fps ?tails ?env k now ?m = (res, m')" by fastforce
  have "fst (match_fingerprints_with_context sha now n fps tails env k m) = res"
    using res by (simp add: with_context_sanitized(1) [OF sanitize_whole [OF assms(5) len assms(6)] assms(3)])
  moreover have "?tails = tail_or_default ?tails fps" by (simp add: tail_or_default_def)
  ultimately show ?thesis
    using match_longest_core [OF prepare_sound [OF s] assms(4,5) len res] continues_prepare [OF sd]
    by (simp add: live_groups_prepare [OF sd] longest_prepare [OF sd] split: option.splits) metis
qed

section \<open>Bounded and exact\<close>


section \<open>A binding is found again\<close>

lemma bind_fingerprints_done:
  assumes "index_sound sha sys S now m" and "trim_space n \<noteq> []" and "trim_space auth \<noteq> []"
    and "requested_min sys fps = k" and "0 < k" and "length fps \<le> pm_max_turns m" and "fps \<in> S"
    and "bind_fingerprints_with_context sha now n fps tails env k auth m = (b, m')"
  shows "index_sound sha sys S now m'" and "same_limits m m'"
    and "bind_done sha now (n, sequence_key sha fps) fps k (trim_space auth) (prepare_locked now m) b m'"
proof -
  let ?m = "prepare_locked now m"
  have sd: "matcher_sound sha now m" using assms(1) by (simp add: index_sound_def)
  have len: "k \<le> length fps" using requested_min_le [of sys fps] assms(4) by simp
  have lim: "same_limits m ?m" by (rule prepare_keeps(2) [OF sd])
  then have turns: "length fps \<le> pm_max_turns ?m" using assms(6) by (simp add: same_limits_def)
  have b: "bind_locked sha n fps (tail_or_default tails fps) (env_or_default sha env fps k) k (trim_space auth) now ?m = (b, m')"
    using assms(8) by (simp add: with_context_sanitized(2) [OF sanitize_whole [OF assms(5) len assms(6)] assms(2,3)])
  note bs = bind_sound [OF prepare_sound [OF assms(1)] assms(7,5) len turns assms(4) [symmetric] b]
  show "index_sound sha sys S now m'" by (rule bs(1))
  show bd: "bind_done sha now (n, sequence_key sha fps) fps k (trim_space auth) ?m b m'" by (rule bs(2))
  show "same_limits m m'" using bd same_limits_trans [OF lim] by (simp add: bind_done_def)
qed

lemma prefix_shared: "shared (fps @ later) g = length fps + j \<Longrightarrow> take (length fps) (lg_fps g) = fps"
  using shared_iff [of "length fps" "lg_fps g" "fps @ later"] by (simp add: shared_def)

text \<open>C23: After a request has been bound to a credential, every continuation of it within the lifetime of the
  binding is matched to the same credential and the same session, unless the conversation had already been
  seen to go on differently.\<close>

theorem bind_then_match:
  assumes "matcher_reachable sha sys S m T" and "T \<le> now" and "trim_space n \<noteq> []" and "trim_space auth \<noteq> []"
    and "requested_min sys fps = k" and "0 < k" and "length (fps @ later) \<le> pm_max_turns m" and "fps \<in> S"
    and "bind_fingerprints_with_context sha now n fps tails env k auth m = (b, m')"
    and "\<forall>key g. group_at m (n, key) = Some g \<longrightarrow> take (length fps) (lg_fps g) = fps \<longrightarrow> lg_fps g = fps"
    and "now \<le> now'" and "now' < now + pm_ttl m"
  shows "\<exists>p. fst (match_fingerprints_with_context sha now' n (fps @ later) tails' env' k m') = Some p \<and>
    px_auth p = trim_space auth \<and> px_session p = br_session b \<and> px_length p = length fps \<and> \<not> px_is_fork p"
proof -
  let ?r = "(n, sequence_key sha fps)" and ?q = "fps @ later" and ?m = "prepare_locked now m"
  have s: "index_sound sha sys S now m" by (rule matcher_reachable_sound [OF assms(1,2)])
  then have sd: "matcher_sound sha now m" by (simp add: index_sound_def)
  have len: "k \<le> length fps" using requested_min_le [of sys fps] assms(5) by simp
  have short: "length fps \<le> pm_max_turns m" using assms(7) by simp
  note bd = bind_fingerprints_done [OF s assms(3,4,5,6) short assms(8,9)]
  have ttl: "pm_ttl ?m = pm_ttl m" using prepare_keeps(2) [OF sd] by (simp add: same_limits_def)
  obtain g where g: "group_at m' ?r = Some g" "lg_fps g = fps" "lg_auth g = trim_space auth" "lg_session g = br_session b"
      "lg_expires g = now + pm_ttl m" and oth: "others_renewed now ?r ?m m'"
    using bd(3) assms(4) ttl unfolding bind_done_def bound_group_def by auto
  have s': "index_sound sha sys S now' m'" by (rule index_sound_mono [OF bd(1) assms(11)])
  then have sd': "matcher_sound sha now' m'" by (simp add: index_sound_def)
  have kq: "requested_min sys ?q = k" using len by (intro requested_min_take [OF assms(5,6), of "length fps"]) simp_all
  have lq: "k \<le> length ?q" using len by simp
  have tq: "length ?q \<le> pm_max_turns m'" using assms(7) bd(2) by (simp add: same_limits_def)
  have ne: "n \<noteq> []" using assms(3) by auto
  let ?m' = "prepare_locked now' m'" and ?tails = "tail_or_default tails' ?q" and ?env = "env_or_default sha env' ?q k"
  obtain res m2 where res: "match_locked sha n ?q ?tails ?env k now' ?m' = (res, m2)" by fastforce
  have out: "fst (match_fingerprints_with_context sha now' n ?q tails' env' k m') = res"
    using res by (simp add: with_context_sanitized(1) [OF sanitize_whole [OF assms(6) lq tq] ne])
  have gl: "g \<in> live_groups m' n now'" using g(1,5) assms(12) by (auto simp: live_groups_def)
  have shg: "shared ?q g = length fps"
  proof -
    have "length fps \<le> shared ?q g" using g(2) by (simp add: shared_def shared_iff)
    with shared_le(2) [of ?q g] g(2) show ?thesis by simp
  qed
  have only: "g' = g" if g': "g' \<in> live_groups m' n now'" "length fps \<le> shared ?q g'" for g'
  proof -
    from g'(1) obtain key where key: "group_at m' (n, key) = Some g'" by (auto simp: live_groups_def)
    have pre: "take (length fps) (lg_fps g') = fps" using g'(2) prefix_shared [of fps later g'] by (metis le_Suc_ex)
    show ?thesis
    proof (cases "(n, key) = ?r")
      case True
      with key g(1) show ?thesis by simp
    next
      case False
      with others_renewedD [OF oth] key have "renewed now (pm_ttl ?m) (group_at ?m (n, key)) (Some g')"
        by (metis option.distinct(1))
      from renewed_lists [OF this] obtain g0 where g0: "group_at ?m (n, key) = Some g0" "lg_fps g' = lg_fps g0" by blast
      have "group_at m (n, key) = Some g0" by (rule prepare_some [OF sd g0(1)])
      with assms(10) pre g0(2) have "lg_fps g0 = fps" by simp
      moreover have "group_ok sha (pm_max_turns m) key g0"
        using matcher_core_group [of sha now m "(n, key)" g0] sd \<open>group_at m (n, key) = Some g0\<close> by (simp add: matcher_sound_def)
      ultimately show ?thesis using False by (simp add: group_ok_def)
    qed
  qed
  have lg: "h = g" if "longest m' n now' ?q k h" for h
    using that gl shg only [of h] unfolding longest_def by fastforce
  note ml = match_longest_core [OF prepare_sound [OF s'] kq assms(6) lq res,
      unfolded live_groups_prepare [OF sd'] longest_prepare [OF sd']]
  have some: "\<not> (\<forall>h \<in> live_groups m' n now'. shared ?q h < k)" using gl shg len by fastforce
  obtain p where p: "res = Some p" using ml some by (cases res) auto
  have "matched sha n ?q (shared ?q g) g p"
    using ml some lg shg g(2) unfolding p option.case by (metis less_irrefl)
  then show ?thesis using g shg unfolding out p by (simp add: matched_def)
qed

section \<open>What delayed outcomes leave alone\<close>

text \<open>C24: The delayed success of a credential does not take a conversation back from the credential that it was
  failed over to: touching a live binding of another owner answers no, and changes no live binding.\<close>

theorem delayed_success_keeps_failover:
  assumes "matcher_reachable sha sys S m T" and "T \<le> now"
    and "group_at m (n, sequence_key sha fps) = Some e" and "now < lg_expires e"
    and "lg_auth e \<noteq> trim_space auth" and "lg_auth e \<noteq> []" and "lg_auth e \<noteq> ''home-pending''"
    and "length fps \<le> pm_max_turns m"
  shows "\<not> fst (touch_fingerprints_with_context sha now n fps tails env k auth m) \<and>
    (\<forall>r g. group_at m r = Some g \<longrightarrow> now < lg_expires g \<longrightarrow>
       group_at (snd (touch_fingerprints_with_context sha now n fps tails env k auth m)) r = Some g)"
proof -
  have "matcher_sound sha now m"
    using matcher_reachable_sound [OF assms(1,2)] by (simp add: index_sound_def)
  note live = prepare_live [OF this]
  have sn: "sanitize_fingerprints m fps k = Some (fps', k') \<Longrightarrow> fps' = fps" for fps' k'
    using assms(8) by (auto simp: sanitize_fingerprints_def Let_def split: if_splits)
  have "touch_locked sha n fps ts en k' (trim_space auth) now (prepare_locked now m) = (False, prepare_locked now m)" for ts en k'
    using live [OF assms(3,4)] assms(4-7) by (simp add: touch_locked_def)
  then show ?thesis
    using live sn by (auto simp: touch_fingerprints_with_context_def split: option.split)
qed

lemma access_grows:
  fixes a :: "64 word"
  assumes "unat a + 16 < 2 ^ 64" and "i < j" and "j \<le> 16"
  shows "a + of_nat i < a + of_nat j" and "0 < j \<Longrightarrow> 0 < a + of_nat j"
proof -
  have u: "unat (a + of_nat l) = unat a + l" if "l \<le> 16" for l
  proof -
    have "unat (of_nat l :: 64 word) = l" using that by (simp add: unat_of_nat)
    with that assms(1) show ?thesis by (simp add: unat_word_ariths)
  qed
  show "a + of_nat i < a + of_nat j" using u [of i] u [of j] assms(2,3) by (simp add: word_less_nat_alt)
  show "0 < j \<Longrightarrow> 0 < a + of_nat j" using u [of j] assms(3) by (simp add: word_less_nat_alt)
qed

text \<open>C25: The delayed failure of a request does not remove a binding that was used again since: with the access
  number that the request got when it was bound, the removal answers no, and the binding stays.\<close>

theorem delayed_failure_keeps_reused:
  assumes "matcher_reachable sha sys S m T" and "T \<le> now" and "trim_space n \<noteq> []" and "trim_space auth \<noteq> []"
    and "requested_min sys fps = k" and "0 < k" and "length fps \<le> pm_max_turns m" and "fps \<in> S"
    and "bind_fingerprints_with_context sha now n fps tails env k auth m = (b, m1)"
    and "now \<le> now1" and "touch_fingerprints_with_context sha now1 n fps tails1 env1 k auth m1 = (True, m2)"
    and "now1 \<le> now2" and "now2 < now1 + pm_ttl m" and "unat (pm_access m) + 16 < 2 ^ 64"
  shows "\<not> fst (remove_fingerprints_before sha now2 n fps owner (br_access b) m2) \<and>
    (\<exists>g. group_at (snd (remove_fingerprints_before sha now2 n fps owner (br_access b) m2)) (n, sequence_key sha fps) = Some g \<and>
       lg_auth g = trim_space auth)"
proof -
  let ?r = "(n, sequence_key sha fps)"
  have s: "index_sound sha sys S now m" by (rule matcher_reachable_sound [OF assms(1,2)])
  have len: "k \<le> length fps" using requested_min_le [of sys fps] assms(5) by simp
  note bd = bind_fingerprints_done [OF s assms(3-9)]
  have a0: "pm_access (prepare_locked now m) = pm_access m"
    using prepare_keeps(3) [of sha now m now] s by (simp add: index_sound_def)
  from bd(3) obtain i where i: "0 < i" "i \<le> 4" "pm_access m1 = pm_access m + of_nat i" "br_access b = pm_access m1"
    unfolding bind_done_def a0 by blast
  have s1: "index_sound sha sys S now1 m1" by (rule index_sound_mono [OF bd(1) assms(10)])
  let ?m1 = "prepare_locked now1 m1"
  have sd1: "matcher_sound sha now1 m1" using s1 by (simp add: index_sound_def)
  have lim1: "same_limits m ?m1" by (rule same_limits_trans [OF bd(2) prepare_keeps(2) [OF sd1]])
  have t1: "length fps \<le> pm_max_turns m1" "length fps \<le> pm_max_turns ?m1"
    using assms(7) bd(2) lim1 by (simp_all add: same_limits_def)
  have "touch_locked sha n fps (tail_or_default tails1 fps) (env_or_default sha env1 fps k) k (trim_space auth) now1 ?m1 = (True, m2)"
    using assms(11) by (simp add: with_context_sanitized(3) [OF sanitize_whole [OF assms(6) len t1(1)] assms(3,4)])
  note ts = touch_sound [OF prepare_sound [OF s1] assms(8,6) len t1(2) assms(5) [symmetric] assms(4) this]
  have a1: "pm_access ?m1 = pm_access m1" by (rule prepare_keeps(3) [OF sd1])
  from ts(2) obtain j g where j: "0 < j" "j \<le> 4" "pm_access m2 = pm_access m1 + of_nat j"
    and g: "group_at m2 ?r = Some g" "lg_auth g = trim_space auth" "lg_access g = pm_access m2" "lg_expires g = now1 + pm_ttl ?m1"
    unfolding touched_def a1 by blast
  have "index_sound sha sys S now2 m2" by (rule index_sound_mono [OF ts(1) assms(12)])
  then have sd2: "matcher_sound sha now2 m2" by (simp add: index_sound_def)
  have lim2: "same_limits m m2" using ts(2) same_limits_trans [OF lim1] by (simp add: touched_def)
  have "now2 < lg_expires g" using g(4) assms(13) lim1 by (simp add: same_limits_def)
  note still = prepare_live [OF sd2 g(1) this]
  have "pm_access m2 = pm_access m + of_nat (i + j)" using i(3) j(3) by simp
  then have newer: "br_access b < lg_access g" "0 < br_access b"
    using access_grows(1) [OF assms(14), of i "i + j"] access_grows(2) [OF assms(14), of 0 i] i j g(3) by (simp_all add: add.assoc)
  have tk: "take (if pm_max_turns m2 = 0 then defaultMatcherMaxTurns else pm_max_turns m2) fps = fps"
  proof -
    have "pm_max_turns m2 = pm_max_turns m" "0 < pm_max_turns m"
      using lim2 index_sound_positive [OF s] by (simp_all add: same_limits_def)
    with assms(7) show ?thesis by simp
  qed
  have "remove_fingerprints_before sha now2 n fps owner (br_access b) m2 = (False, m2) \<or>
      remove_fingerprints_before sha now2 n fps owner (br_access b) m2 = (False, prepare_locked now2 m2)"
    using still newer unfolding remove_fingerprints_before_def Let_def tk by simp
  then show ?thesis using still g(1,2) by (elim disjE) simp_all
qed

text \<open>After a credential is invalidated no request is matched to it, at any time, until it is bound again.\<close>

theorem invalidated_auth_forgotten:
  assumes "matcher_reachable sha sys S m T" and "auth \<noteq> []" and "T \<le> now"
    and "fst (match_fingerprints_with_context sha now n fps tails env k (invalidate_auth auth m)) = Some p"
  shows "px_auth p \<noteq> auth"
proof -
  let ?m = "invalidate_auth auth m"
  have s: "index_sound sha sys S now m" by (rule matcher_reachable_sound [OF assms(1,3)])
  then have sd: "matcher_sound sha now ?m"
    using assms(2) by (simp add: invalidate_auth_def index_sound_def matcher_sound_removes)
  have gone: "lg_auth g \<noteq> auth" if "group_at ?m r = Some g" for r g
    using that assms(2) by (auto simp: invalidate_auth_def group_at_removes set_refs_where split: if_splits)
  let ?n = "prepare_locked now ?m"
  have gone': "lg_auth g \<noteq> auth" if "group_at ?n r = Some g" for r g
    using gone prepare_some [OF sd that] by blast
  have core: "matcher_core sha now ?n" using prepare_keeps(1) [OF sd] by (simp add: matcher_sound_def)
  from assms(4) obtain fps' k' where "sanitize_fingerprints ?m fps k = Some (fps', k')"
    and ml: "fst (match_locked sha n fps' (tail_or_default tails fps) (env_or_default sha env fps k) k' now ?n) = Some p"
    by (auto simp: match_fingerprints_with_context_def split: if_splits option.splits)
  obtain m' where res: "match_locked sha n fps' (tail_or_default tails fps) (env_or_default sha env fps k) k' now ?n = (Some p, m')"
    using ml by (metis prod.collapse)
  then obtain ns where ns: "map_of (pm_groups ?n) n = Some ns" and len: "0 < k'" "k' \<le> length fps'"
    by (auto simp: match_locked_def split: option.splits if_splits)
  have out: "match_outcome sha n fps' (tail_or_default (tail_or_default tails fps) fps') (env_or_default sha env fps k) k' now ?n
      (prefix_search (match_probe sha ns fps' now) k' (length fps' + 1) None) (Some p)"
    using match_locked_spec [OF core ns len res] by blast
  have cont: "px_auth p \<noteq> auth" if "continues n fps' tl en k' best now ?n p" for tl en best
    using that gone' unfolding continues_def by metis
  show ?thesis
  proof (cases "prefix_search (match_probe sha ns fps' now) k' (length fps' + 1) None")
    case None
    with out show ?thesis using cont by (simp add: match_outcome_def)
  next
    case (Some r)
    then obtain key g L where r: "r = ((key, g), L)" by (metis surj_pair)
    with Some prefix_search_sound [OF Some] have L: "k' \<le> L" "L \<le> length fps'" "match_probe sha ns fps' now L = Some (key, g)"
      by auto
    have "ns_ok sha (pm_max_turns ?n) now ns" using core ns by (simp add: matcher_core_def namespaces_ok_def)
    from match_probe_spec(2) [OF this _ L(2,3)] L(1) len have "map_of (ln_groups ns) key = Some g" by simp
    then have "group_at ?n (n, key) = Some g" by (simp add: live_in_namespace [OF ns])
    then have "lg_auth g \<noteq> auth" by (rule gone')
    with out cont show ?thesis unfolding Some r match_outcome_def by (auto simp: matched_def)
  qed
qed

section \<open>Witnesses\<close>

text \<open>A conversation whose first turn is the system's, bound to \<open>a\<close> and, one turn later, to \<open>b\<close>.\<close>

definition demo_sha :: "string \<Rightarrow> string" where "demo_sha x = [last x]"

definition demo_sys :: "string \<Rightarrow> bool" where "demo_sys f \<longleftrightarrow> f = ''s''"

definition demo_turns :: "string list" where "demo_turns = [''s'', ''u'']"

definition demo_longer :: "string list" where "demo_longer = [''s'', ''u'', ''v'']"

definition demo_lists :: "string list set" where "demo_lists = {demo_turns, demo_longer}"

definition demo_limits :: matcher_config where
  "demo_limits = \<lparr>mc_ttl = 100, mc_max_turns = 8, mc_max_groups = 4, mc_max_prefixes = 16\<rparr>"

definition demo_matcher :: prefix_matcher where
  "demo_matcher = apply_matcher_op demo_sha 1 (MO_Bind ''n'' demo_turns [] [] 2 ''a'') (new_matcher demo_limits)"

definition demo_failed_over :: prefix_matcher where
  "demo_failed_over = apply_matcher_op demo_sha 2 (MO_Bind ''n'' demo_longer [] [] 2 ''b'') demo_matcher"

lemma demo_inj: "inj_on (sequence_key demo_sha) demo_lists"
proof -
  have "sequence_key demo_sha demo_turns \<noteq> sequence_key demo_sha demo_longer" by code_simp
  then show ?thesis by (simp add: inj_on_def demo_lists_def)
qed

lemma demo_matcher_code [code]:
  "demo_matcher = snd (bind_locked demo_sha ''n'' demo_turns demo_turns
     ''00'' 2 ''a'' 1 (prepare_locked 1 (new_matcher demo_limits)))"
proof -
  have s: "sanitize_fingerprints (new_matcher demo_limits) demo_turns 2 = Some (demo_turns, 2)"
    "tail_or_default [] demo_turns = demo_turns" "env_or_default demo_sha [] demo_turns 2 = ''00''"
    "trim_space ''n'' \<noteq> []" "trim_space ''a'' = ''a''" by code_simp+
  then show ?thesis by (simp add: demo_matcher_def with_context_sanitized(2) [OF s(1)])
qed
lemma demo_failed_code [code]:
  "demo_failed_over = snd (bind_locked demo_sha ''n'' demo_longer demo_longer
     ''00'' 2 ''b'' 2 (prepare_locked 2 demo_matcher))"
proof -
  have s: "sanitize_fingerprints demo_matcher demo_longer 2 = Some (demo_longer, 2)"
    "tail_or_default [] demo_longer = demo_longer" "env_or_default demo_sha [] demo_longer 2 = ''00''"
    "trim_space ''n'' \<noteq> []" "trim_space ''b'' = ''b''" by code_simp+
  then show ?thesis by (simp add: demo_failed_over_def with_context_sanitized(2) [OF s(1)])
qed

lemma demo_tail: "tail_or_default [] demo_longer = demo_longer" "env_or_default demo_sha [] demo_longer 2 = ''00''"
  "tail_or_default [] demo_turns = demo_turns" "env_or_default demo_sha [] demo_turns 2 = ''00''"
  by code_simp+

lemma demo_match_eval:
  "map_option (\<lambda>p. (px_auth p, px_length p, px_kind p))
    (fst (match_locked demo_sha ''n'' demo_longer demo_longer ''00'' 2 2 (prepare_locked 2 demo_matcher))) = Some (''a'', 2, [])"
  by code_simp

lemma demo_group_eval:
  "map_option (\<lambda>e. (lg_expires e, lg_auth e)) (group_at demo_failed_over (''n'', sequence_key demo_sha demo_longer)) = Some (102, ''b'')"
  by code_simp

lemma demo_touch_eval:
  "fst (touch_locked demo_sha ''n'' demo_turns demo_turns ''00'' 2 ''a'' 2 (prepare_locked 2 demo_matcher))"
  by code_simp

lemma demo_invalid_eval:
  "fst (match_locked demo_sha ''n'' demo_longer demo_longer ''00'' 2 3 (prepare_locked 3 (invalidate_auth ''a'' demo_failed_over))) \<noteq> None"
  by code_simp
lemma demo_fits:
  "op_fits demo_sys demo_lists (new_matcher demo_limits) (MO_Bind ''n'' demo_turns [] [] 2 ''a'')"
  "op_fits demo_sys demo_lists demo_matcher (MO_Bind ''n'' demo_longer [] [] 2 ''b'')"
proof -
  have "requested_min demo_sys demo_turns = 2" "requested_min demo_sys demo_longer = 2" by code_simp+
  moreover have "take (pm_max_turns (new_matcher demo_limits)) demo_turns = demo_turns" by code_simp
  moreover have "take (pm_max_turns demo_matcher) demo_longer = demo_longer" by code_simp
  ultimately show "op_fits demo_sys demo_lists (new_matcher demo_limits) (MO_Bind ''n'' demo_turns [] [] 2 ''a'')"
    "op_fits demo_sys demo_lists demo_matcher (MO_Bind ''n'' demo_longer [] [] 2 ''b'')"
    by (simp_all add: demo_lists_def)
qed

lemma demo_matcher_reachable: "matcher_reachable demo_sha demo_sys demo_lists demo_matcher 1"
  unfolding demo_matcher_def
  by (rule matcher_reachable_op [OF matcher_reachable_new [OF demo_inj, where T = 1] _ demo_fits(1)]) simp

lemma demo_failed_over_reachable: "matcher_reachable demo_sha demo_sys demo_lists demo_failed_over 2"
  unfolding demo_failed_over_def
  by (rule matcher_reachable_op [OF demo_matcher_reachable _ demo_fits(2)]) simp


theorem match_finds_longest_witness:
  "\<exists>g. longest demo_matcher ''n'' 2 demo_longer 2 g \<and> lg_auth g = ''a'' \<and> shared demo_longer g = 2"
proof -
  have "sanitize_fingerprints demo_matcher demo_longer 2 = Some (demo_longer, 2)" by code_simp
  from with_context_sanitized(1) [OF this] demo_match_eval
  have ev: "map_option (\<lambda>p. (px_auth p, px_length p, px_kind p))
      (fst (match_fingerprints_with_context demo_sha 2 ''n'' demo_longer [] [] 2 demo_matcher)) = Some (''a'', 2, [])"
    by (simp add: demo_tail)
  have h: "requested_min demo_sys demo_longer = 2" "length demo_longer \<le> pm_max_turns demo_matcher" by code_simp+
  obtain p where p: "fst (match_fingerprints_with_context demo_sha 2 ''n'' demo_longer [] [] 2 demo_matcher) = Some p"
    "px_auth p = ''a''" "px_length p = 2" "px_kind p = []" using ev by auto
  show ?thesis
    using match_finds_longest [OF demo_matcher_reachable _ _ h(1) _ h(2), of 2 "''n''" "[]" "[]"] p
    by (auto simp: continues_def matched_def)
qed

theorem bind_then_match_witness:
  "\<exists>p. fst (match_fingerprints_with_context demo_sha 50 ''n'' (demo_turns @ [''v'']) [] [] 2 demo_matcher) = Some p \<and>
     px_auth p = ''a'' \<and> px_length p = 2 \<and> \<not> px_is_fork p"
proof -
  let ?m = "new_matcher demo_limits"
  obtain b where b: "bind_fingerprints_with_context demo_sha 1 ''n'' demo_turns [] [] 2 ''a'' ?m = (b, demo_matcher)"
    unfolding demo_matcher_def apply_matcher_op.simps by (metis prod.collapse)
  have h: "trim_space ''n'' \<noteq> []" "trim_space ''a'' \<noteq> []" "requested_min demo_sys demo_turns = 2"
      "length (demo_turns @ [''v'']) \<le> pm_max_turns ?m" "pm_ttl ?m = 100" "trim_space ''a'' = ''a''"
      "length demo_turns = 2" "pm_groups ?m = []"
    by code_simp+
  have none: "\<forall>key g. group_at ?m (''n'', key) = Some g \<longrightarrow> take (length demo_turns) (lg_fps g) = demo_turns \<longrightarrow> lg_fps g = demo_turns"
    by (simp add: group_at_def h(8))
  have "demo_turns \<in> demo_lists" by (simp add: demo_lists_def)
  from bind_then_match [OF matcher_reachable_new [OF demo_inj, where sys = demo_sys and cfg = demo_limits and T = 1] _ h(1,2,3) _ h(4) this b none, of 50 "[]" "[]"] h
  show ?thesis by auto
qed

theorem delayed_success_keeps_failover_witness:
  "\<not> fst (touch_fingerprints_with_context demo_sha 3 ''n'' demo_longer [] [] 2 ''a'' demo_failed_over)"
proof -
  obtain e where e: "group_at demo_failed_over (''n'', sequence_key demo_sha demo_longer) = Some e" "3 < lg_expires e" "lg_auth e = ''b''"
  proof -
    show ?thesis using that demo_group_eval by auto
  qed
  have "length demo_longer \<le> pm_max_turns demo_failed_over" "trim_space ''a'' = ''a''" by code_simp+
  with delayed_success_keeps_failover [OF demo_failed_over_reachable _ e(1,2), of "''a''" "[]" "[]" 2] e(3) show ?thesis by simp
qed

theorem delayed_failure_keeps_reused_witness:
  "\<exists>b m1 m2. bind_fingerprints_with_context demo_sha 1 ''n'' demo_turns [] [] 2 ''a'' (new_matcher demo_limits) = (b, m1) \<and>
     touch_fingerprints_with_context demo_sha 2 ''n'' demo_turns [] [] 2 ''a'' m1 = (True, m2) \<and>
     \<not> fst (remove_fingerprints_before demo_sha 3 ''n'' demo_turns ''a'' (br_access b) m2)"
proof -
  let ?m = "new_matcher demo_limits"
  obtain b where b: "bind_fingerprints_with_context demo_sha 1 ''n'' demo_turns [] [] 2 ''a'' ?m = (b, demo_matcher)"
    unfolding demo_matcher_def apply_matcher_op.simps by (metis prod.collapse)
  have sn: "sanitize_fingerprints demo_matcher demo_turns 2 = Some (demo_turns, 2)" and "trim_space ''n'' \<noteq> []" "trim_space ''a'' = ''a''"
    by code_simp+
  from with_context_sanitized(3) [OF sn] this(2,3) demo_touch_eval
  have "fst (touch_fingerprints_with_context demo_sha 2 ''n'' demo_turns [] [] 2 ''a'' demo_matcher)" by (simp add: demo_tail)
  then obtain m2 where t: "touch_fingerprints_with_context demo_sha 2 ''n'' demo_turns [] [] 2 ''a'' demo_matcher = (True, m2)"
    by (metis prod.collapse)
  have h: "trim_space ''n'' \<noteq> []" "trim_space ''a'' \<noteq> []" "requested_min demo_sys demo_turns = 2"
      "length demo_turns \<le> pm_max_turns ?m" "pm_ttl ?m = 100"
    by code_simp+
  have acc: "unat (pm_access ?m) + 16 < 2 ^ 64" by (simp add: new_matcher_def Let_def)
  have "demo_turns \<in> demo_lists" by (simp add: demo_lists_def)
  from delayed_failure_keeps_reused [OF matcher_reachable_new [OF demo_inj, where sys = demo_sys and cfg = demo_limits and T = 1] _ h(1,2,3) _ h(4) this b _ t, of 3 "''a''"] h acc b t
  show ?thesis by auto
qed

theorem invalidated_auth_forgotten_witness:
  "\<exists>p. fst (match_fingerprints_with_context demo_sha 3 ''n'' demo_longer [] [] 2 (invalidate_auth ''a'' demo_failed_over)) = Some p \<and>
     px_auth p \<noteq> ''a''"
proof -
  have "sanitize_fingerprints (invalidate_auth ''a'' demo_failed_over) demo_longer 2 = Some (demo_longer, 2)" by code_simp
  from with_context_sanitized(1) [OF this] demo_invalid_eval
  have "fst (match_fingerprints_with_context demo_sha 3 ''n'' demo_longer [] [] 2 (invalidate_auth ''a'' demo_failed_over)) \<noteq> None"
    by (simp add: demo_tail)
  then obtain p where "fst (match_fingerprints_with_context demo_sha 3 ''n'' demo_longer [] [] 2 (invalidate_auth ''a'' demo_failed_over)) = Some p"
    by auto
  with invalidated_auth_forgotten [OF demo_failed_over_reachable _ _ this] show ?thesis by simp
qed

end
