(* ===== verification/Refresh_Heap.thy ===== *)
theory Refresh_Heap
  imports Auth_Types
begin

text \<open>
  The timetable of the automatic refresh (sdk/cliproxy/auth/auto_refresh_loop.go): a binary heap of
  credentials by the time of their next check, the operations of Go's container/heap on it, and the
  index from a credential to its item, which holds the position in the heap. An item is referred to by the
  identifier of its credential, as the code refers to it by a pointer. The operations refine a table
  from credentials to times.
\<close>

section \<open>The heap\<close>

record heap_item =
  hi_next :: instant
  hi_index :: int

record refresh_queue =
  rq_queue :: "string list"
  rq_index :: "string \<rightharpoonup> heap_item"

definition empty_queue :: refresh_queue where
  "empty_queue = \<lparr>rq_queue = [], rq_index = Map.empty\<rparr>"

definition check_time :: "refresh_queue \<Rightarrow> string \<Rightarrow> instant" where
  "check_time h c = (case rq_index h c of None \<Rightarrow> zero_time | Some it \<Rightarrow> hi_next it)"

definition heap_less :: "refresh_queue \<Rightarrow> nat \<Rightarrow> nat \<Rightarrow> bool" where
  "heap_less h i j \<longleftrightarrow> check_time h (rq_queue h ! i) < check_time h (rq_queue h ! j)"

definition set_position :: "string \<Rightarrow> int \<Rightarrow> refresh_queue \<Rightarrow> refresh_queue" where
  "set_position c i h =
     (case rq_index h c of None \<Rightarrow> h | Some it \<Rightarrow> h\<lparr>rq_index := (rq_index h)(c \<mapsto> it\<lparr>hi_index := i\<rparr>)\<rparr>)"

definition heap_swap :: "nat \<Rightarrow> nat \<Rightarrow> refresh_queue \<Rightarrow> refresh_queue" where
  "heap_swap i j h =
     (let a = rq_queue h ! i; b = rq_queue h ! j;
          h = h\<lparr>rq_queue := (rq_queue h)[i := b, j := a]\<rparr>
      in set_position a (int j) (set_position b (int i) h))"

function heap_up :: "nat \<Rightarrow> refresh_queue \<Rightarrow> refresh_queue" where
  "heap_up j h =
     (let i = (j - 1) div 2 in if i = j \<or> \<not> heap_less h j i then h else heap_up i (heap_swap i j h))"
  by auto
termination
  by (relation "measure fst") auto

declare heap_up.simps [simp del]

definition earlier_child :: "nat \<Rightarrow> nat \<Rightarrow> refresh_queue \<Rightarrow> nat" where
  "earlier_child i n h =
     (let j1 = 2 * i + 1 in if j1 + 1 < n \<and> heap_less h (j1 + 1) j1 then j1 + 1 else j1)"

lemma earlier_child_cases: "earlier_child i n h = 2 * i + 1 \<or> earlier_child i n h = 2 * i + 2 \<and> 2 * i + 2 < n"
  by (simp add: earlier_child_def Let_def)

lemma earlier_child_gt: "i < earlier_child i n h"
  using earlier_child_cases [of i n h] by linarith

lemma earlier_child_lt: "2 * i + 1 < n \<Longrightarrow> earlier_child i n h < n"
  using earlier_child_cases [of i n h] by linarith

function sift_down :: "nat \<Rightarrow> nat \<Rightarrow> refresh_queue \<Rightarrow> nat \<times> refresh_queue" where
  "sift_down i n h =
     (if 2 * i + 1 \<ge> n then (i, h)
      else let j = earlier_child i n h in
        if \<not> heap_less h j i then (i, h) else sift_down j n (heap_swap i j h))"
  by auto
termination
proof (relation "measure (\<lambda>(i, n, h). n - i)")
  fix i n h j assume "\<not> n \<le> 2 * i + 1" and j: "j = earlier_child i n h"
  then show "((j, n, heap_swap i j h), i, n, h) \<in> measure (\<lambda>(i, n, h). n - i)"
    using earlier_child_gt [of i n h] by simp
qed simp

declare sift_down.simps [simp del]

definition heap_down :: "nat \<Rightarrow> nat \<Rightarrow> refresh_queue \<Rightarrow> bool \<times> refresh_queue" where
  "heap_down i0 n h = (let (i, h') = sift_down i0 n h in (i > i0, h'))"

text \<open>The last item of the list; its position is no longer valid.\<close>

definition pop_last :: "refresh_queue \<Rightarrow> string \<times> refresh_queue" where
  "pop_last h =
     (let c = last (rq_queue h) in (c, (set_position c (-1) h)\<lparr>rq_queue := butlast (rq_queue h)\<rparr>))"

definition heap_push :: "string \<Rightarrow> instant \<Rightarrow> refresh_queue \<Rightarrow> refresh_queue" where
  "heap_push c t h =
     (let n = length (rq_queue h);
          h = h\<lparr>rq_queue := rq_queue h @ [c], rq_index := (rq_index h)(c \<mapsto> \<lparr>hi_next = t, hi_index = int n\<rparr>)\<rparr>
      in heap_up n h)"

definition heap_pop :: "refresh_queue \<Rightarrow> string \<times> refresh_queue" where
  "heap_pop h =
     (let n = length (rq_queue h) - 1 in pop_last (snd (heap_down 0 n (heap_swap 0 n h))))"

definition heap_fix :: "nat \<Rightarrow> refresh_queue \<Rightarrow> refresh_queue" where
  "heap_fix i h =
     (let (moved, h) = heap_down i (length (rq_queue h)) h in if moved then h else heap_up i h)"

definition heap_remove :: "nat \<Rightarrow> refresh_queue \<Rightarrow> string \<times> refresh_queue" where
  "heap_remove i h0 =
     (let n = length (rq_queue h0) - 1;
          h = (if n \<noteq> i
               then let (moved, h) = heap_down i n (heap_swap i n h0) in if moved then h else heap_up i h
               else h0)
      in pop_last h)"

section \<open>The timetable\<close>

definition queue_peek :: "refresh_queue \<Rightarrow> instant option" where
  "queue_peek h = (case rq_queue h of [] \<Rightarrow> None | c # _ \<Rightarrow> Some (check_time h c))"

definition drop_index :: "string \<Rightarrow> refresh_queue \<Rightarrow> refresh_queue" where
  "drop_index c h = h\<lparr>rq_index := (rq_index h)(c := None)\<rparr>"

lemma set_position_queue [simp]: "rq_queue (set_position c i h) = rq_queue h"
  by (simp add: set_position_def split: option.split)

lemma heap_swap_queue: "rq_queue (heap_swap i j h) = (rq_queue h)[i := rq_queue h ! j, j := rq_queue h ! i]"
  by (simp add: heap_swap_def Let_def)

lemma heap_swap_length [simp]: "length (rq_queue (heap_swap i j h)) = length (rq_queue h)"
  by (simp add: heap_swap_queue)

lemma sift_down_length [simp]: "length (rq_queue (snd (sift_down i n h))) = length (rq_queue h)"
proof (induction i n h rule: sift_down.induct)
  case (1 i n h)
  then show ?case by (subst sift_down.simps) (simp add: Let_def)
qed

lemma pop_last_length [simp]: "length (rq_queue (snd (pop_last h))) = length (rq_queue h) - 1"
  by (simp add: pop_last_def Let_def)

lemma heap_pop_length [simp]: "length (rq_queue (snd (heap_pop h))) = length (rq_queue h) - 1"
  by (simp add: heap_pop_def heap_down_def Let_def split: prod.split) (metis heap_swap_length sift_down_length snd_conv)

function pop_due :: "instant \<Rightarrow> refresh_queue \<Rightarrow> string list \<times> refresh_queue" where
  "pop_due now h =
     (case rq_queue h of
        [] \<Rightarrow> ([], h)
      | c # _ \<Rightarrow>
          if check_time h c > now then ([], h)
          else let (popped, h) = heap_pop h; (due, h) = pop_due now (drop_index popped h) in (popped # due, h))"
  by auto
termination
proof (relation "measure (\<lambda>(now, h). length (rq_queue h))")
  fix now h x xs p popped h'
  assume "rq_queue h = x # xs" and "p = heap_pop h" and "(popped, h') = p"
  then show "((now, drop_index popped h'), (now, h)) \<in> measure (\<lambda>(now, h). length (rq_queue h))"
    using heap_pop_length [of h] by (cases "heap_pop h") (simp add: drop_index_def)
qed simp

declare pop_due.simps [simp del]

definition queue_upsert :: "string \<Rightarrow> instant \<Rightarrow> refresh_queue \<Rightarrow> refresh_queue" where
  "queue_upsert c t h =
     (if c = [] \<or> t = zero_time then h
      else case rq_index h c of
        Some it \<Rightarrow> heap_fix (nat (hi_index it)) (h\<lparr>rq_index := (rq_index h)(c \<mapsto> it\<lparr>hi_next := t\<rparr>)\<rparr>)
      | None \<Rightarrow> heap_push c t h)"

definition queue_remove :: "string \<Rightarrow> refresh_queue \<Rightarrow> refresh_queue" where
  "queue_remove c h =
     (if c = [] then h
      else case rq_index h c of
        None \<Rightarrow> h
      | Some it \<Rightarrow> drop_index c (snd (heap_remove (nat (hi_index it)) h)))"

section \<open>Positions\<close>

definition positions_ok :: "refresh_queue \<Rightarrow> bool" where
  "positions_ok h \<longleftrightarrow>
     distinct (rq_queue h) \<and> dom (rq_index h) = set (rq_queue h) \<and>
     (\<forall>i < length (rq_queue h). map_option hi_index (rq_index h (rq_queue h ! i)) = Some (int i))"

text \<open>The table that a heap stands for.\<close>

definition table_of :: "refresh_queue \<Rightarrow> string \<rightharpoonup> instant" where
  "table_of h = (\<lambda>c. map_option hi_next (rq_index h c))"

lemma check_time_table: "check_time h c = (case table_of h c of None \<Rightarrow> zero_time | Some t \<Rightarrow> t)"
  by (simp add: check_time_def table_of_def split: option.split)

lemma set_position_table [simp]: "table_of (set_position c i h) = table_of h"
  by (auto simp: set_position_def table_of_def fun_eq_iff split: option.split)

lemma table_of_queue [simp]: "table_of (h\<lparr>rq_queue := q\<rparr>) = table_of h"
  by (simp add: table_of_def)

lemma heap_swap_table [simp]: "table_of (heap_swap i j h) = table_of h"
  by (simp add: heap_swap_def Let_def)

lemma heap_up_table [simp]: "table_of (heap_up j h) = table_of h"
proof (induction j h rule: heap_up.induct)
  case (1 j h)
  then show ?case by (subst heap_up.simps) (simp add: Let_def)
qed

lemma sift_down_table [simp]: "table_of (snd (sift_down i n h)) = table_of h"
proof (induction i n h rule: sift_down.induct)
  case (1 i n h)
  then show ?case by (subst sift_down.simps) (simp add: Let_def)
qed

lemma heap_down_snd [simp]: "snd (heap_down i n h) = snd (sift_down i n h)"
  by (simp add: heap_down_def Let_def split: prod.split)

lemma heap_up_length [simp]: "length (rq_queue (heap_up j h)) = length (rq_queue h)"
proof (induction j h rule: heap_up.induct)
  case (1 j h)
  then show ?case by (subst heap_up.simps) (simp add: Let_def)
qed

lemma heap_swap_positions:
  assumes "positions_ok h" and "i < length (rq_queue h)" and "j < length (rq_queue h)"
  shows "positions_ok (heap_swap i j h)"
proof -
  let ?q = "rq_queue h"
  obtain a b where ab: "rq_index h (?q ! i) = Some a" "rq_index h (?q ! j) = Some b"
    using assms unfolding positions_ok_def by (metis option.map_disc_iff not_Some_eq)
  have inj: "?q ! x = ?q ! y \<longleftrightarrow> x = y" if "x < length ?q" "y < length ?q" for x y
    using assms(1) that by (simp add: positions_ok_def nth_eq_iff_index_eq)
  have ix: "rq_index (heap_swap i j h) = (if i = j then (rq_index h)(?q ! i \<mapsto> a\<lparr>hi_index := int i\<rparr>)
      else (rq_index h)(?q ! j \<mapsto> b\<lparr>hi_index := int i\<rparr>, ?q ! i \<mapsto> a\<lparr>hi_index := int j\<rparr>))"
    using ab inj [OF assms(2,3)] by (auto simp: heap_swap_def Let_def set_position_def)
  have "distinct (rq_queue (heap_swap i j h))" "set (rq_queue (heap_swap i j h)) = set ?q"
    using assms by (simp_all add: heap_swap_queue positions_ok_def distinct_swap set_swap)
  moreover have "dom (rq_index (heap_swap i j h)) = set ?q"
    using assms ab unfolding ix positions_ok_def by (auto simp: insert_absorb)
  moreover have "map_option hi_index (rq_index (heap_swap i j h) (rq_queue (heap_swap i j h) ! x)) = Some (int x)"
    if "x < length ?q" for x
    using assms that inj unfolding ix heap_swap_queue positions_ok_def
    by (auto simp: nth_list_update)
  ultimately show ?thesis by (simp add: positions_ok_def)
qed

lemma heap_up_positions: "positions_ok h \<Longrightarrow> j < length (rq_queue h) \<Longrightarrow> positions_ok (heap_up j h)"
proof (induction j h rule: heap_up.induct)
  case (1 j h)
  then have "(j - 1) div 2 < length (rq_queue h)" by linarith
  with 1 show ?case by (subst heap_up.simps) (simp add: Let_def heap_swap_positions)
qed

lemma sift_down_positions:
  "positions_ok h \<Longrightarrow> i < length (rq_queue h) \<Longrightarrow> n \<le> length (rq_queue h) \<Longrightarrow> positions_ok (snd (sift_down i n h))"
proof (induction i n h rule: sift_down.induct)
  case (1 i n h)
  then show ?case using earlier_child_lt [of i n h]
    by (subst sift_down.simps) (auto simp: Let_def heap_swap_positions)
qed

section \<open>Order\<close>

abbreviation time_at :: "refresh_queue \<Rightarrow> nat \<Rightarrow> instant" where
  "time_at h x \<equiv> check_time h (rq_queue h ! x)"

definition heap_ordered :: "nat \<Rightarrow> refresh_queue \<Rightarrow> bool" where
  "heap_ordered n h \<longleftrightarrow> (\<forall>x < n. 0 < x \<longrightarrow> time_at h ((x - 1) div 2) \<le> time_at h x)"

text \<open>Ordered but for the position that is too early for its parent, or too late for its children.\<close>

definition ordered_but_up :: "nat \<Rightarrow> nat \<Rightarrow> refresh_queue \<Rightarrow> bool" where
  "ordered_but_up j n h \<longleftrightarrow>
     (\<forall>x < n. 0 < x \<longrightarrow> x \<noteq> j \<longrightarrow> time_at h ((x - 1) div 2) \<le> time_at h x) \<and>
     (\<forall>x < n. 0 < x \<longrightarrow> (x - 1) div 2 = j \<longrightarrow> 0 < j \<longrightarrow> time_at h ((j - 1) div 2) \<le> time_at h x)"

definition ordered_but_down :: "nat \<Rightarrow> nat \<Rightarrow> refresh_queue \<Rightarrow> bool" where
  "ordered_but_down i n h \<longleftrightarrow>
     (\<forall>x < n. 0 < x \<longrightarrow> (x - 1) div 2 \<noteq> i \<longrightarrow> x \<noteq> i \<longrightarrow> time_at h ((x - 1) div 2) \<le> time_at h x) \<and>
     (\<forall>x < n. 0 < x \<longrightarrow> (x - 1) div 2 = i \<longrightarrow> 0 < i \<longrightarrow> time_at h ((i - 1) div 2) \<le> time_at h x)"

lemma check_time_swap [simp]: "check_time (heap_swap i j h) = check_time h"
  by (simp add: fun_eq_iff check_time_table)

lemma time_at_swap:
  "i < length (rq_queue h) \<Longrightarrow> j < length (rq_queue h) \<Longrightarrow> x < length (rq_queue h) \<Longrightarrow>
   time_at (heap_swap i j h) x = time_at h (if x = i then j else if x = j then i else x)"
  by (auto simp: heap_swap_queue nth_list_update)

lemma heap_up_ordered:
  "ordered_but_up j n h \<Longrightarrow> j < n \<Longrightarrow> n \<le> length (rq_queue h) \<Longrightarrow> heap_ordered n (heap_up j h)"
proof (induction j h rule: heap_up.induct)
  case (1 j h)
  let ?i = "(j - 1) div 2"
  show ?case
  proof (cases "?i = j \<or> \<not> heap_less h j ?i")
    case True
    then have "0 < j \<Longrightarrow> time_at h ?i \<le> time_at h j" by (auto simp: heap_less_def)
    with 1(2) True show ?thesis
      by (subst heap_up.simps) (auto simp: Let_def heap_ordered_def ordered_but_up_def)
  next
    case False
    then have j: "0 < j" "?i < j" and less: "time_at h j < time_at h ?i" by (auto simp: heap_less_def)
    have t: "time_at (heap_swap ?i j h) x = time_at h (if x = ?i then j else if x = j then ?i else x)" if "x < n" for x
      using that 1(3,4) j by (intro time_at_swap) linarith+
    have pn: "(x - 1) div 2 < n" if "x < n" for x using that by linarith
    have "ordered_but_up ?i n (heap_swap ?i j h)"
      unfolding ordered_but_up_def
    proof (intro conjI allI impI)
      fix x assume x: "x < n" "0 < x" "x \<noteq> ?i"
      show "time_at (heap_swap ?i j h) ((x - 1) div 2) \<le> time_at (heap_swap ?i j h) x"
      proof (cases "x = j")
        case True
        with less j show ?thesis unfolding t [OF x(1)] t [OF pn [OF x(1)]] by simp
      next
        case False
        have up: "time_at h ((x - 1) div 2) \<le> time_at h x" using 1(2) x False by (simp add: ordered_but_up_def)
        have "time_at h ?i \<le> time_at h x" if "(x - 1) div 2 = j" using 1(2) x that j by (simp add: ordered_but_up_def)
        with up less x(3) False show ?thesis unfolding t [OF x(1)] t [OF pn [OF x(1)]] by auto
      qed
    next
      fix x assume x: "x < n" "0 < x" "(x - 1) div 2 = ?i" and i: "0 < ?i"
      have n: "(?i - 1) div 2 < n" using 1(3) by linarith
      have ne: "(?i - 1) div 2 \<noteq> ?i" "(?i - 1) div 2 \<noteq> j" using i j by linarith+
      have up: "time_at h ((?i - 1) div 2) \<le> time_at h ?i"
        using 1(2,3) i j by (simp add: ordered_but_up_def)
      show "time_at (heap_swap ?i j h) ((?i - 1) div 2) \<le> time_at (heap_swap ?i j h) x"
      proof (cases "x = j")
        case True
        with up ne j show ?thesis unfolding t [OF x(1)] t [OF n] by simp
      next
        case False
        then have "time_at h ?i \<le> time_at h x" using 1(2) x unfolding ordered_but_up_def by metis
        moreover have "x \<noteq> ?i" using x(2,3) i by linarith
        ultimately show ?thesis using up ne False unfolding t [OF x(1)] t [OF n] by simp
      qed
    qed
    with 1(1) [OF refl False] 1(3,4) j False show ?thesis by (subst heap_up.simps) (simp add: Let_def)
  qed
qed

text \<open>Sifting down leaves the first position when it moves, and then all is in order.\<close>

lemma sift_down_stop: "2 * i + 1 \<ge> n \<or> \<not> heap_less h (earlier_child i n h) i \<Longrightarrow> sift_down i n h = (i, h)"
  by (subst sift_down.simps) (auto simp: Let_def)

lemma sift_down_step:
  "\<not> (2 * i + 1 \<ge> n \<or> \<not> heap_less h (earlier_child i n h) i) \<Longrightarrow>
   sift_down i n h = sift_down (earlier_child i n h) n (heap_swap i (earlier_child i n h) h)"
  by (subst sift_down.simps) (auto simp: Let_def)

lemma sift_down_ge: "i \<le> fst (sift_down i n h)"
proof (induction i n h rule: sift_down.induct)
  case (1 i n h)
  show ?case
  proof (cases "2 * i + 1 \<ge> n \<or> \<not> heap_less h (earlier_child i n h) i")
    case False
    then have "earlier_child i n h \<le> fst (sift_down i n h)" using 1 [OF _ refl] by (simp add: sift_down_step)
    with earlier_child_gt [of i n h] show ?thesis by linarith
  qed (simp add: sift_down_stop)
qed

lemma earlier_child_least:
  assumes "x < n" and "0 < x" and "(x - 1) div 2 = i"
  shows "time_at h (earlier_child i n h) \<le> time_at h x"
proof -
  have "x = 2 * i + 1 \<or> x = 2 * i + 2" using assms(2,3) by linarith
  with assms(1) show ?thesis by (auto simp: earlier_child_def Let_def heap_less_def)
qed

lemma sift_down_ordered:
  assumes "ordered_but_down i n h" and "0 < i \<Longrightarrow> i < n \<Longrightarrow> time_at h ((i - 1) div 2) \<le> time_at h i"
    and "i < length (rq_queue h)" and "n \<le> length (rq_queue h)"
  shows "heap_ordered n (snd (sift_down i n h))"
  using assms
proof (induction i n h rule: sift_down.induct)
  case (1 i n h)
  let ?j = "earlier_child i n h"
  note least = earlier_child_least [of _ n i h]
  show ?case
  proof (cases "2 * i + 1 \<ge> n \<or> \<not> heap_less h ?j i")
    case True
    have kids: "time_at h i \<le> time_at h x" if "x < n" "0 < x" "(x - 1) div 2 = i" for x
    proof -
      have "\<not> 2 * i + 1 \<ge> n" using that by linarith
      with True least [OF that] show ?thesis by (simp add: heap_less_def)
    qed
    have "time_at h ((x - 1) div 2) \<le> time_at h x" if "x < n" "0 < x" for x
    proof (cases "(x - 1) div 2 = i")
      case par: False
      show ?thesis
      proof (cases "x = i")
        case True
        with 1(3) that show ?thesis by simp
      qed (use 1(2) that par in \<open>simp add: ordered_but_down_def\<close>)
    qed (use kids that in simp)
    then show ?thesis by (simp add: sift_down_stop [OF True] heap_ordered_def)
  next
    case False
    have jn: "?j < n" "i < ?j" "(?j - 1) div 2 = i" and less: "time_at h ?j < time_at h i"
      using False earlier_child_lt [of i n h] earlier_child_gt [of i n h] earlier_child_cases [of i n h]
      by (auto simp: heap_less_def)
    let ?h = "heap_swap i ?j h"
    have jl: "?j < length (rq_queue h)" using jn(1) 1(5) by linarith
    have t: "time_at ?h x = time_at h (if x = i then ?j else if x = ?j then i else x)" if "x < n" for x
      using that 1(4,5) jl by (intro time_at_swap) linarith+
    have pn: "(x - 1) div 2 < n" if "x < n" for x using that by linarith
    have "ordered_but_down ?j n ?h"
      unfolding ordered_but_down_def
    proof (intro conjI allI impI)
      fix x assume x: "x < n" "0 < x" "(x - 1) div 2 \<noteq> ?j" "x \<noteq> ?j"
      show "time_at ?h ((x - 1) div 2) \<le> time_at ?h x"
      proof (cases "(x - 1) div 2 = i")
        case True
        then have "x \<noteq> i" using x(2) by linarith
        with least [OF x(1,2) True] True x(4) show ?thesis unfolding t [OF x(1)] t [OF pn [OF x(1)]] by simp
      next
        case par: False
        show ?thesis
        proof (cases "x = i")
          case True
          have "time_at h ((i - 1) div 2) \<le> time_at h ?j"
            using 1(2) jn True x(2) unfolding ordered_but_down_def by (metis gr_implies_not0 neq0_conv)
          with True x(3) par show ?thesis unfolding t [OF x(1)] t [OF pn [OF x(1)]] by simp
        next
          case False
          then have "time_at h ((x - 1) div 2) \<le> time_at h x" using 1(2) x(1,2) par by (simp add: ordered_but_down_def)
          with False x(3,4) par show ?thesis unfolding t [OF x(1)] t [OF pn [OF x(1)]] by simp
        qed
      qed
    next
      fix x assume x: "x < n" "0 < x" "(x - 1) div 2 = ?j" and "0 < ?j"
      have "(?j - 1) div 2 < n" using jn by linarith
      have ne: "x \<noteq> ?j" "x \<noteq> i" using x(2,3) jn(2) by linarith+
      have "time_at h ?j \<le> time_at h x"
        using 1(2) x ne jn(2) unfolding ordered_but_down_def by (metis nat_neq_iff)
      with ne show "time_at ?h ((?j - 1) div 2) \<le> time_at ?h x"
        unfolding t [OF x(1)] t [OF \<open>(?j - 1) div 2 < n\<close>] unfolding jn(3) by simp
    qed
    moreover have "time_at ?h ((?j - 1) div 2) \<le> time_at ?h ?j"
      using less jn t [OF jn(1)] t [of i] unfolding jn(3) by simp
    ultimately have "heap_ordered n (snd (sift_down ?j n ?h))"
      using 1(1) [OF _ refl] False jl 1(5) by simp
    then show ?thesis by (simp add: sift_down_step [OF False])
  qed
qed

section \<open>The operations refine a table\<close>

definition queue_ok :: "refresh_queue \<Rightarrow> bool" where
  "queue_ok h \<longleftrightarrow> positions_ok h \<and> heap_ordered (length (rq_queue h)) h"

lemma positions_dom: "positions_ok h \<Longrightarrow> dom (table_of h) = set (rq_queue h)"
proof -
  assume "positions_ok h"
  moreover have "dom (table_of h) = dom (rq_index h)" by (auto simp: table_of_def)
  ultimately show ?thesis by (simp add: positions_ok_def)
qed

lemma positions_index:
  assumes "positions_ok h" and "rq_index h c = Some it"
  shows "nat (hi_index it) < length (rq_queue h) \<and> rq_queue h ! nat (hi_index it) = c"
proof -
  from assms obtain i where i: "i < length (rq_queue h)" "rq_queue h ! i = c"
    by (metis domI in_set_conv_nth positions_ok_def)
  with assms have "hi_index it = int i" by (auto simp: positions_ok_def)
  with i show ?thesis by simp
qed

lemma heap_ordered_first: "heap_ordered n h \<Longrightarrow> x < n \<Longrightarrow> time_at h 0 \<le> time_at h x"
proof (induction x rule: less_induct)
  case (less x)
  show ?case
  proof (cases "x = 0")
    case False
    then have "(x - 1) div 2 < x" by linarith
    with less have "time_at h 0 \<le> time_at h ((x - 1) div 2)" by simp
    also have "\<dots> \<le> time_at h x" using less.prems False by (simp add: heap_ordered_def)
    finally show ?thesis .
  qed simp
qed

lemma time_at_cong:
  "rq_queue h' = rq_queue h \<Longrightarrow> table_of h' = table_of h \<Longrightarrow> time_at h' x = time_at h x"
  by (simp add: check_time_table)

lemma check_time_cong: "table_of h' = table_of h \<Longrightarrow> check_time h' = check_time h"
  by (simp add: check_time_table fun_eq_iff)

text \<open>Taking the last item away from an array whose other items are in order.\<close>

lemma pop_last_spec:
  assumes "positions_ok h" and "rq_queue h \<noteq> []" and "heap_ordered (length (rq_queue h) - 1) h"
  shows "fst (pop_last h) = last (rq_queue h)"
    and "queue_ok (drop_index (last (rq_queue h)) (snd (pop_last h)))"
    and "table_of (drop_index (last (rq_queue h)) (snd (pop_last h))) = (table_of h)(last (rq_queue h) := None)"
proof -
  let ?q = "rq_queue h" and ?c = "last (rq_queue h)"
  let ?h = "drop_index ?c (snd (pop_last h))"
  have q: "rq_queue ?h = butlast ?q" by (simp add: drop_index_def pop_last_def Let_def)
  have ix: "rq_index ?h = (rq_index h)(?c := None)"
    by (auto simp: drop_index_def pop_last_def Let_def set_position_def split: option.split)
  show tb: "table_of ?h = (table_of h)(?c := None)" by (simp add: table_of_def ix fun_eq_iff)
  show "fst (pop_last h) = ?c" by (simp add: pop_last_def Let_def)
  have d: "distinct (butlast ?q)" "?c \<notin> set (butlast ?q)" "set ?q = insert ?c (set (butlast ?q))"
    using assms(1,2) by (simp_all add: positions_ok_def distinct_butlast) (metis append_butlast_last_id distinct_append
        disjoint_iff list.set_intros(1), metis append_butlast_last_id empty_set list.simps(15) set_append Un_insert_right sup_bot_right)
  have ne: "butlast ?q ! i \<noteq> ?c" if "i < length ?q - 1" for i
    using d(2) that by (metis length_butlast nth_mem)
  have "positions_ok ?h"
    using assms(1) d ne unfolding positions_ok_def q ix by (auto simp: nth_butlast)
  moreover have "heap_ordered (length (butlast ?q)) ?h"
  proof -
    have "time_at ?h x = time_at h x" if "x < length ?q - 1" for x
      using ne [OF that] that by (simp add: q tb check_time_table nth_butlast)
    then show ?thesis using assms(3) by (auto simp: heap_ordered_def)
  qed
  ultimately show "queue_ok ?h" by (simp add: queue_ok_def q)
qed

lemma heap_up_first: "heap_up 0 h = h"
  by (subst heap_up.simps) simp

text \<open>Repairing the order at one position, which is what fixing and removing an item both end with.\<close>

definition repair :: "nat \<Rightarrow> nat \<Rightarrow> refresh_queue \<Rightarrow> refresh_queue" where
  "repair i n h = (let (moved, h) = heap_down i n h in if moved then h else heap_up i h)"

definition ordered_but :: "nat \<Rightarrow> nat \<Rightarrow> refresh_queue \<Rightarrow> bool" where
  "ordered_but i n h \<longleftrightarrow>
     (\<forall>x < n. 0 < x \<longrightarrow> x \<noteq> i \<longrightarrow> (x - 1) div 2 \<noteq> i \<longrightarrow> time_at h ((x - 1) div 2) \<le> time_at h x) \<and>
     (\<forall>x < n. 0 < x \<longrightarrow> (x - 1) div 2 = i \<longrightarrow> 0 < i \<longrightarrow> time_at h ((i - 1) div 2) \<le> time_at h x)"

lemma ordered_but_down_iff: "ordered_but_down i n h \<longleftrightarrow> ordered_but i n h"
  by (auto simp: ordered_but_def ordered_but_down_def)

lemma repair_spec:
  assumes "ordered_but i n h" and "i < n" and "n \<le> length (rq_queue h)" and "positions_ok h"
  shows "heap_ordered n (repair i n h)" and "positions_ok (repair i n h)" and "table_of (repair i n h) = table_of h"
    and "length (rq_queue (repair i n h)) = length (rq_queue h)"
proof -
  obtain i' h' where s: "sift_down i n h = (i', h')" by fastforce
  have ge: "i \<le> i'" using sift_down_ge [of i n h] s by simp
  have p: "positions_ok h'" using sift_down_positions [of h i n] assms s by simp
  have l: "length (rq_queue h') = length (rq_queue h)" using sift_down_length [of i n h] s by simp
  have tb: "table_of h' = table_of h" using sift_down_table [of i n h] s by simp
  have eq: "repair i n h = (if i < i' then h' else heap_up i h')"
    by (simp add: repair_def heap_down_def s)
  show "positions_ok (repair i n h)" using p assms(2,3) l by (simp add: eq heap_up_positions)
  show "table_of (repair i n h) = table_of h" "length (rq_queue (repair i n h)) = length (rq_queue h)"
    using tb l by (simp_all add: eq)
  show "heap_ordered n (repair i n h)"
  proof (cases "0 < i \<longrightarrow> time_at h ((i - 1) div 2) \<le> time_at h i")
    case True
    have o: "heap_ordered n h'"
      using sift_down_ordered [of i n h] assms True s by (simp add: ordered_but_down_iff)
    show ?thesis
    proof (cases "i < i'")
      case False
      from o have "ordered_but_up i n h'"
        unfolding ordered_but_up_def heap_ordered_def
      proof (intro conjI allI impI)
        fix x assume *: "\<forall>x<n. 0 < x \<longrightarrow> time_at h' ((x - 1) div 2) \<le> time_at h' x"
          and x: "x < n" "0 < x" "(x - 1) div 2 = i" "0 < i"
        have "time_at h' ((i - 1) div 2) \<le> time_at h' i" using * x assms(2) by simp
        also have "\<dots> \<le> time_at h' x" using * x by force
        finally show "time_at h' ((i - 1) div 2) \<le> time_at h' x" .
      qed simp
      with assms(2,3) l False show ?thesis by (simp add: eq heap_up_ordered)
    qed (use o eq in simp)
  next
    case False
    have stop: "i' = i \<and> h' = h"
    proof (cases "2 * i + 1 \<ge> n \<or> \<not> heap_less h (earlier_child i n h) i")
      case True
      then show ?thesis using s by (simp add: sift_down_stop)
    next
      case moves: False
      then have "earlier_child i n h < n" "(earlier_child i n h - 1) div 2 = i" "0 < earlier_child i n h"
        using earlier_child_lt [of i n h] earlier_child_cases [of i n h] by auto
      then have "time_at h ((i - 1) div 2) \<le> time_at h (earlier_child i n h)"
        using assms(1) False by (simp add: ordered_but_def)
      with moves False show ?thesis by (simp add: heap_less_def)
    qed
    have kids: "time_at h i \<le> time_at h x" if "x < n" "0 < x" "(x - 1) div 2 = i" for x
    proof -
      have "time_at h ((i - 1) div 2) \<le> time_at h x" using assms(1) that False by (simp add: ordered_but_def)
      with False show ?thesis by simp
    qed
    have "ordered_but_up i n h"
      using assms(1) kids False unfolding ordered_but_up_def ordered_but_def by metis
    with assms(2,3) show ?thesis by (simp add: eq stop heap_up_ordered)
  qed
qed

lemma queue_ok_ordered_but:
  "heap_ordered n h \<Longrightarrow> i < n \<Longrightarrow> (\<And>x. x < n \<Longrightarrow> x \<noteq> i \<Longrightarrow> time_at h' x = time_at h x) \<Longrightarrow> ordered_but i n h'"
  unfolding ordered_but_def
proof (intro conjI allI impI)
  assume o: "heap_ordered n h" and i: "i < n" and same: "\<And>x. x < n \<Longrightarrow> x \<noteq> i \<Longrightarrow> time_at h' x = time_at h x"
  { fix x assume x: "x < n" "0 < x" "x \<noteq> i" "(x - 1) div 2 \<noteq> i"
    then have "(x - 1) div 2 < n" by linarith
    with o x same show "time_at h' ((x - 1) div 2) \<le> time_at h' x" by (simp add: heap_ordered_def) }
  fix x assume x: "x < n" "0 < x" "(x - 1) div 2 = i" "0 < i"
  have "(i - 1) div 2 < n" "(i - 1) div 2 \<noteq> i" "x \<noteq> i" using x i by linarith+
  then have "time_at h' ((i - 1) div 2) = time_at h ((i - 1) div 2)" "time_at h' x = time_at h x" using same x(1) by blast+
  moreover have "time_at h ((i - 1) div 2) \<le> time_at h i" "time_at h i \<le> time_at h x"
    using o x i by (force simp: heap_ordered_def)+
  ultimately show "time_at h' ((i - 1) div 2) \<le> time_at h' x" by simp
qed

lemma heap_fix_spec:
  assumes "queue_ok h" and "rq_index h c = Some it"
  shows "queue_ok (heap_fix (nat (hi_index it)) (h\<lparr>rq_index := (rq_index h)(c \<mapsto> it\<lparr>hi_next := t\<rparr>)\<rparr>))"
    and "table_of (heap_fix (nat (hi_index it)) (h\<lparr>rq_index := (rq_index h)(c \<mapsto> it\<lparr>hi_next := t\<rparr>)\<rparr>)) = (table_of h)(c \<mapsto> t)"
proof -
  let ?i = "nat (hi_index it)" and ?h = "h\<lparr>rq_index := (rq_index h)(c \<mapsto> it\<lparr>hi_next := t\<rparr>)\<rparr>" and ?n = "length (rq_queue h)"
  have p: "positions_ok h" and o: "heap_ordered ?n h" using assms(1) by (simp_all add: queue_ok_def)
  note i = positions_index [OF p assms(2)]
  have tb: "table_of ?h = (table_of h)(c \<mapsto> t)" by (simp add: table_of_def fun_eq_iff)
  have p': "positions_ok ?h"
    using p assms(2) by (fastforce simp: positions_ok_def insert_absorb)
  have "time_at ?h x = time_at h x" if "x < ?n" "x \<noteq> ?i" for x
  proof -
    have "rq_queue h ! x \<noteq> c" using that i p by (metis nth_eq_iff_index_eq positions_ok_def)
    then show ?thesis by (simp add: tb check_time_table)
  qed
  from queue_ok_ordered_but [OF o _ this] i have "ordered_but ?i ?n ?h" by blast
  from repair_spec [OF this] i p' have
    "heap_ordered ?n (repair ?i ?n ?h)" "positions_ok (repair ?i ?n ?h)" "table_of (repair ?i ?n ?h) = table_of ?h"
    "length (rq_queue (repair ?i ?n ?h)) = ?n" by simp_all
  moreover have "heap_fix ?i ?h = repair ?i ?n ?h" by (simp add: heap_fix_def repair_def)
  ultimately show "queue_ok (heap_fix ?i ?h)" "table_of (heap_fix ?i ?h) = (table_of h)(c \<mapsto> t)"
    using tb by (simp_all add: queue_ok_def)
qed

lemma heap_push_spec:
  assumes "queue_ok h" and "rq_index h c = None"
  shows "queue_ok (heap_push c t h)" and "table_of (heap_push c t h) = (table_of h)(c \<mapsto> t)"
proof -
  let ?n = "length (rq_queue h)"
  let ?h = "h\<lparr>rq_queue := rq_queue h @ [c], rq_index := (rq_index h)(c \<mapsto> \<lparr>hi_next = t, hi_index = int ?n\<rparr>)\<rparr>"
  have p: "positions_ok h" and o: "heap_ordered ?n h" using assms(1) by (simp_all add: queue_ok_def)
  have new: "c \<notin> set (rq_queue h)" using p assms(2) by (auto simp: positions_ok_def)
  have tb: "table_of ?h = (table_of h)(c \<mapsto> t)" by (simp add: table_of_def fun_eq_iff)
  have p': "positions_ok ?h"
  proof -
    have "rq_queue h ! i \<noteq> c" if "i < ?n" for i using new that by auto
    with p new show ?thesis by (auto simp: positions_ok_def nth_append less_Suc_eq)
  qed
  have same: "time_at ?h x = time_at h x" if "x < ?n" for x
  proof -
    have "rq_queue h ! x \<noteq> c" using new that by auto
    with that show ?thesis by (simp add: tb check_time_table nth_append)
  qed
  have "ordered_but_up ?n (Suc ?n) ?h"
    unfolding ordered_but_up_def
  proof (intro conjI allI impI)
    fix x assume x: "x < Suc ?n" "0 < x" "x \<noteq> ?n"
    then have "(x - 1) div 2 < ?n" "x < ?n" by linarith+
    with o x same show "time_at ?h ((x - 1) div 2) \<le> time_at ?h x" by (simp add: heap_ordered_def)
  next
    fix x assume "x < Suc ?n" "0 < x" "(x - 1) div 2 = ?n"
    then have False by linarith
    then show "time_at ?h ((?n - 1) div 2) \<le> time_at ?h x" ..
  qed
  from heap_up_ordered [OF this] have "heap_ordered (Suc ?n) (heap_up ?n ?h)" by simp
  with heap_up_positions [OF p', of ?n] show "queue_ok (heap_push c t h)" by (simp add: heap_push_def Let_def queue_ok_def)
  show "table_of (heap_push c t h) = (table_of h)(c \<mapsto> t)" by (simp add: heap_push_def Let_def tb)
qed

text \<open>Swapping an item with the last one and repairing its place.\<close>

lemma swap_last_spec:
  assumes "queue_ok h" and "i < length (rq_queue h)" and "i \<noteq> length (rq_queue h) - 1"
  shows "ordered_but i (length (rq_queue h) - 1) (heap_swap i (length (rq_queue h) - 1) h)"
    and "positions_ok (heap_swap i (length (rq_queue h) - 1) h)"
    and "last (rq_queue (heap_swap i (length (rq_queue h) - 1) h)) = rq_queue h ! i"
proof -
  let ?n = "length (rq_queue h) - 1"
  have n: "?n < length (rq_queue h)" "i < ?n" using assms(2,3) by linarith+
  have p: "positions_ok h" and o: "heap_ordered (length (rq_queue h)) h" using assms(1) by (simp_all add: queue_ok_def)
  show "positions_ok (heap_swap i ?n h)" by (rule heap_swap_positions [OF p assms(2) n(1)])
  have "rq_queue h \<noteq> []" using assms(2) by auto
  then show "last (rq_queue (heap_swap i ?n h)) = rq_queue h ! i"
    by (simp add: heap_swap_queue last_list_update)
  have "time_at (heap_swap i ?n h) x = time_at h x" if "x < ?n" "x \<noteq> i" for x
    using that n assms(2) time_at_swap [of i h ?n x] by simp
  moreover from o have "heap_ordered ?n h" by (simp add: heap_ordered_def)
  ultimately show "ordered_but i ?n (heap_swap i ?n h)" using queue_ok_ordered_but [OF _ n(2)] by blast
qed

lemma sift_down_last:
  "n < length (rq_queue h) \<Longrightarrow> i < n \<Longrightarrow> rq_queue (snd (sift_down i n h)) ! n = rq_queue h ! n"
proof (induction i n h rule: sift_down.induct)
  case (1 i n h)
  show ?case
  proof (cases "2 * i + 1 \<ge> n \<or> \<not> heap_less h (earlier_child i n h) i")
    case False
    then have "earlier_child i n h < n" using earlier_child_lt [of i n h] by simp
    with 1 False show ?thesis by (simp add: sift_down_step heap_swap_queue)
  qed (simp add: sift_down_stop)
qed

lemma heap_up_last:
  "n < length (rq_queue h) \<Longrightarrow> i < n \<Longrightarrow> rq_queue (heap_up i h) ! n = rq_queue h ! n"
proof (induction i h rule: heap_up.induct)
  case (1 j h)
  have "(j - 1) div 2 < n" using 1(3) by linarith
  with 1 show ?case by (subst heap_up.simps) (simp add: Let_def heap_swap_queue)
qed

lemma repair_last:
  assumes "n < length (rq_queue h)" and "i < n"
  shows "rq_queue (repair i n h) ! n = rq_queue h ! n"
proof -
  obtain i' h' where s: "sift_down i n h = (i', h')" by fastforce
  with sift_down_last [OF assms] sift_down_length [of i n h] assms heap_up_last [of n h' i] show ?thesis
    by (simp add: repair_def heap_down_def)
qed

lemma heap_remove_spec:
  assumes "queue_ok h" and "i < length (rq_queue h)"
  shows "fst (heap_remove i h) = rq_queue h ! i"
    and "queue_ok (drop_index (rq_queue h ! i) (snd (heap_remove i h)))"
    and "table_of (drop_index (rq_queue h ! i) (snd (heap_remove i h))) = (table_of h)(rq_queue h ! i := None)"
proof -
  let ?n = "length (rq_queue h) - 1"
  have n: "?n < length (rq_queue h)" using assms(2) by linarith
  define h' where "h' = (if ?n \<noteq> i then repair i ?n (heap_swap i ?n h) else h)"
  have r: "heap_remove i h = pop_last h'"
    by (simp add: heap_remove_def h'_def repair_def Let_def)
  have h': "heap_ordered ?n h' \<and> positions_ok h' \<and> table_of h' = table_of h \<and> length (rq_queue h') = length (rq_queue h) \<and>
      last (rq_queue h') = rq_queue h ! i"
  proof (cases "?n = i")
    case True
    have "rq_queue h \<noteq> []" using assms(2) by auto
    with assms(1) True show ?thesis by (auto simp: h'_def queue_ok_def heap_ordered_def last_conv_nth)
  next
    case False
    then have "i \<noteq> ?n" "i < ?n" using assms(2) by linarith+
    note sw = swap_last_spec [OF assms this(1)]
    note rs = repair_spec [OF sw(1) \<open>i < ?n\<close> _ sw(2)]
    have eq: "h' = repair i ?n (heap_swap i ?n h)" using False by (simp add: h'_def)
    then have len: "length (rq_queue h') = length (rq_queue h)" using rs(4) n by simp
    then have "rq_queue h' \<noteq> []" using n by auto
    then have "last (rq_queue h') = rq_queue h' ! ?n" by (simp add: last_conv_nth len)
    note this eq
    moreover have "rq_queue (heap_swap i ?n h) ! ?n = rq_queue h ! i"
      using n assms(2) by (simp add: heap_swap_queue)
    ultimately show ?thesis using rs False n repair_last [of ?n "heap_swap i ?n h" i] \<open>i < ?n\<close> by simp
  qed
  have "rq_queue h' \<noteq> []" using h' assms(2) by auto
  from pop_last_spec [OF _ this] h' show "fst (heap_remove i h) = rq_queue h ! i"
    "queue_ok (drop_index (rq_queue h ! i) (snd (heap_remove i h)))"
    "table_of (drop_index (rq_queue h ! i) (snd (heap_remove i h))) = (table_of h)(rq_queue h ! i := None)"
    by (simp_all add: r)
qed

lemma heap_swap_same:
  assumes "positions_ok h" and "i < length (rq_queue h)"
  shows "heap_swap i i h = h"
proof -
  obtain it where "rq_index h (rq_queue h ! i) = Some it" "hi_index it = int i"
    using assms by (auto simp: positions_ok_def)
  then show ?thesis by (simp add: heap_swap_def Let_def set_position_def fun_upd_idem)
qed

lemma heap_pop_remove:
  assumes "queue_ok h" and "rq_queue h \<noteq> []"
  shows "heap_pop h = heap_remove 0 h"
proof (cases "length (rq_queue h) - 1 = 0")
  case True
  with assms heap_swap_same [of h 0] show ?thesis
    by (simp add: heap_pop_def heap_remove_def Let_def queue_ok_def sift_down_stop)
next
  case False
  then show ?thesis
    by (simp add: heap_pop_def heap_remove_def heap_down_def Let_def heap_up_first split: prod.split)
qed

lemma heap_pop_spec:
  assumes "queue_ok h" and "rq_queue h = c # q"
  shows "fst (heap_pop h) = c" and "queue_ok (drop_index c (snd (heap_pop h)))"
    and "table_of (drop_index c (snd (heap_pop h))) = (table_of h)(c := None)"
  using heap_pop_remove [OF assms(1)] heap_remove_spec [OF assms(1), of 0] assms(2) by simp_all

lemma queue_first:
  assumes "queue_ok h" and "rq_queue h = c # q"
  shows "table_of h c = Some (check_time h c)" and "table_of h d = Some t \<Longrightarrow> check_time h c \<le> t"
proof -
  have p: "positions_ok h" and o: "heap_ordered (length (rq_queue h)) h" using assms(1) by (simp_all add: queue_ok_def)
  from positions_dom [OF p] assms(2) have "c \<in> dom (table_of h)" by simp
  then show "table_of h c = Some (check_time h c)" by (auto simp: check_time_table)
  assume d: "table_of h d = Some t"
  then obtain x where "x < length (rq_queue h)" "rq_queue h ! x = d"
    using positions_dom [OF p] by (metis domI in_set_conv_nth)
  with heap_ordered_first [OF o] d assms(2) show "check_time h c \<le> t" by (fastforce simp: check_time_table)
qed

lemma queue_peek_spec:
  assumes "queue_ok h"
  shows "queue_peek h = None \<longleftrightarrow> table_of h = Map.empty"
    and "queue_peek h = Some t \<Longrightarrow> (\<exists>c. table_of h c = Some t) \<and> (\<forall>d u. table_of h d = Some u \<longrightarrow> t \<le> u)"
proof -
  have p: "positions_ok h" using assms by (simp add: queue_ok_def)
  show "queue_peek h = None \<longleftrightarrow> table_of h = Map.empty"
    using positions_dom [OF p] by (auto simp: queue_peek_def split: list.split)
  assume "queue_peek h = Some t"
  then obtain c q where "rq_queue h = c # q" "t = check_time h c" by (auto simp: queue_peek_def split: list.splits)
  with queue_first [OF assms] show "(\<exists>c. table_of h c = Some t) \<and> (\<forall>d u. table_of h d = Some u \<longrightarrow> t \<le> u)" by blast
qed

lemma queue_upsert_spec:
  assumes "queue_ok h"
  shows "queue_ok (queue_upsert c t h)"
    and "table_of (queue_upsert c t h) = (if c = [] \<or> t = zero_time then table_of h else (table_of h)(c \<mapsto> t))"
  using assms heap_fix_spec [OF assms] heap_push_spec [OF assms]
  by (simp_all add: queue_upsert_def split: option.split)

lemma queue_remove_spec:
  assumes "queue_ok h"
  shows "queue_ok (queue_remove c h)"
    and "table_of (queue_remove c h) = (if c = [] then table_of h else (table_of h)(c := None))"
proof -
  have p: "positions_ok h" using assms by (simp add: queue_ok_def)
  have "queue_ok (queue_remove c h) \<and>
    table_of (queue_remove c h) = (if c = [] then table_of h else (table_of h)(c := None))"
  proof (cases "rq_index h c")
    case None
    then have "(table_of h)(c := None) = table_of h" by (simp add: table_of_def fun_eq_iff)
    with assms None show ?thesis by (simp add: queue_remove_def)
  next
    case (Some it)
    note i = positions_index [OF p Some]
    with Some assms heap_remove_spec(2,3) [OF assms, of "nat (hi_index it)"] show ?thesis by (simp add: queue_remove_def)
  qed
  then show "queue_ok (queue_remove c h)"
    "table_of (queue_remove c h) = (if c = [] then table_of h else (table_of h)(c := None))" by blast+
qed

lemma pop_due_spec:
  assumes "queue_ok h" and "pop_due now h = (due, h')"
  shows "queue_ok h' \<and> table_of h' = (\<lambda>c. case table_of h c of Some t \<Rightarrow> if t \<le> now then None else Some t | None \<Rightarrow> None) \<and>
    distinct due \<and> set due = {c. \<exists>t. table_of h c = Some t \<and> t \<le> now} \<and> sorted (map (check_time h) due)"
  using assms
proof (induction now h arbitrary: due h' rule: pop_due.induct)
  case (1 now h)
  show ?case
  proof (cases "rq_queue h")
    case Nil
    then have "table_of h = Map.empty" using queue_peek_spec(1) [OF 1(2)] by (simp add: queue_peek_def)
    with 1(2,3) Nil show ?thesis by (subst (asm) pop_due.simps) (auto simp: fun_eq_iff)
  next
    case (Cons c q)
    note first = queue_first [OF 1(2) Cons]
    show ?thesis
    proof (cases "check_time h c > now")
      case True
      then have late: "\<not> u \<le> now" if "table_of h d = Some u" for d u using first(2) [OF that] by linarith
      have "due = [] \<and> h' = h" using 1(3) Cons True by (subst (asm) pop_due.simps) simp
      with 1(2) late show ?thesis by (auto simp: fun_eq_iff split: option.split)
    next
      case False
      obtain h1 where pop: "heap_pop h = (c, h1)" using heap_pop_spec(1) [OF 1(2) Cons] by (metis prod.collapse)
      let ?h = "drop_index c h1"
      have ok: "queue_ok ?h" and tb: "table_of ?h = (table_of h)(c := None)"
        using heap_pop_spec(2,3) [OF 1(2) Cons] pop by simp_all
      obtain due1 where d1: "pop_due now ?h = (due1, h')" "due = c # due1"
        using 1(3) Cons False pop by (subst (asm) pop_due.simps) (auto split: prod.splits)
      have ih: "queue_ok h' \<and> table_of h' = (\<lambda>c. case table_of ?h c of Some t \<Rightarrow> if t \<le> now then None else Some t | None \<Rightarrow> None) \<and>
          distinct due1 \<and> set due1 = {c. \<exists>t. table_of ?h c = Some t \<and> t \<le> now} \<and> sorted (map (check_time ?h) due1)"
        using 1(1) [OF Cons False _ refl ok d1(1)] pop by simp
      have new: "c \<notin> set due1" using ih tb by simp
      have same: "check_time ?h d = check_time h d" if "d \<in> set due1" for d
        using that new by (auto simp: check_time_table tb)
      have "check_time h c \<le> check_time h d" if "d \<in> set due1" for d
      proof -
        have "\<exists>t. table_of ?h d = Some t" using ih that by auto
        then obtain t where "table_of h d = Some t" using tb by (auto split: if_splits)
        then show ?thesis using first(2) [of d] by (simp add: check_time_table [of h d])
      qed
      moreover have "map (check_time ?h) due1 = map (check_time h) due1" by (rule map_cong [OF refl same])
      ultimately have "sorted (map (check_time h) due)" using ih by (simp add: d1(2) del: map_eq_conv)
      moreover have "table_of h' = (\<lambda>c. case table_of h c of Some t \<Rightarrow> if t \<le> now then None else Some t | None \<Rightarrow> None)"
        using ih tb first(1) False by (auto simp: fun_eq_iff)
      moreover have "set due = {c. \<exists>t. table_of h c = Some t \<and> t \<le> now}"
        using ih tb first(1) False d1(2) by (auto split: if_splits)
      ultimately show ?thesis using ih d1(2) new by simp
    qed
  qed
qed

section \<open>The interface of a timetable\<close>

text \<open>What the refresh loop relies on: entries come in, go out, and leave when they are due.\<close>

locale timetable =
  fixes ok :: "'q \<Rightarrow> bool" and table :: "'q \<Rightarrow> 'c \<rightharpoonup> instant"
    and upsert :: "'c \<Rightarrow> instant \<Rightarrow> 'q \<Rightarrow> 'q" and remove :: "'c \<Rightarrow> 'q \<Rightarrow> 'q"
    and due :: "instant \<Rightarrow> 'q \<Rightarrow> 'c list \<times> 'q"
    and admitted :: "'c \<Rightarrow> instant \<Rightarrow> bool"
  assumes upsert_ok: "ok q \<Longrightarrow> ok (upsert c t q)"
    and upsert_table: "ok q \<Longrightarrow> table (upsert c t q) = (if admitted c t then (table q)(c \<mapsto> t) else table q)"
    and remove_ok: "ok q \<Longrightarrow> ok (remove c q)"
    and remove_table: "ok q \<Longrightarrow> d \<noteq> c \<Longrightarrow> table (remove c q) d = table q d"
    and due_ok: "ok q \<Longrightarrow> ok (snd (due now q))"
    and due_set: "ok q \<Longrightarrow> set (fst (due now q)) = {c. \<exists>t. table q c = Some t \<and> t \<le> now}"
    and due_table: "ok q \<Longrightarrow> table (snd (due now q)) = (\<lambda>c. case table q c of Some t \<Rightarrow> if t \<le> now then None else Some t | None \<Rightarrow> None)"
begin

lemma upsert_dom: "ok q \<Longrightarrow> dom (table q) \<subseteq> dom (table (upsert c t q))"
  by (auto simp: upsert_table)

lemma upsert_mem: "ok q \<Longrightarrow> admitted c t \<Longrightarrow> c \<in> dom (table (upsert c t q))"
  by (simp add: upsert_table)

lemma remove_dom: "ok q \<Longrightarrow> d \<noteq> c \<Longrightarrow> d \<in> dom (table (remove c q)) \<longleftrightarrow> d \<in> dom (table q)"
  by (simp add: remove_table domIff)

text \<open>An entry that is no longer in the table is among the due ones.\<close>

lemma due_split: "ok q \<Longrightarrow> dom (table q) = set (fst (due now q)) \<union> dom (table (snd (due now q)))"
  by (auto simp: due_set due_table split: option.splits if_splits)

lemma due_later: "ok q \<Longrightarrow> table (snd (due now q)) c = Some t \<Longrightarrow> now < t"
  by (auto simp: due_table split: option.splits if_splits)

end

interpretation checks: timetable queue_ok table_of queue_upsert queue_remove pop_due "\<lambda>c t. c \<noteq> [] \<and> t \<noteq> zero_time"
proof unfold_locales
  fix q :: refresh_queue and c d :: string and t now :: instant
  assume q: "queue_ok q"
  show "queue_ok (queue_upsert c t q)" by (rule queue_upsert_spec(1) [OF q])
  show "table_of (queue_upsert c t q) = (if c \<noteq> [] \<and> t \<noteq> zero_time then (table_of q)(c \<mapsto> t) else table_of q)"
    using queue_upsert_spec(2) [OF q] by auto
  show "queue_ok (queue_remove c q)" by (rule queue_remove_spec(1) [OF q])
  { assume "d \<noteq> c" then show "table_of (queue_remove c q) d = table_of q d" using queue_remove_spec(2) [OF q] by simp }
  obtain due q' where p: "pop_due now q = (due, q')" by fastforce
  note sp = pop_due_spec [OF q p]
  show "queue_ok (snd (pop_due now q))" using sp p by simp
  show "set (fst (pop_due now q)) = {c. \<exists>t. table_of q c = Some t \<and> t \<le> now}" using sp p by simp
  show "table_of (snd (pop_due now q)) = (\<lambda>c. case table_of q c of Some t \<Rightarrow> if t \<le> now then None else Some t | None \<Rightarrow> None)"
    using sp p by simp
qed

section \<open>Histories of operations\<close>

datatype timetable_op = Q_Upsert string instant | Q_Remove string | Q_Pop instant

fun apply_timetable_op :: "timetable_op \<Rightarrow> refresh_queue \<Rightarrow> refresh_queue" where
  "apply_timetable_op (Q_Upsert c t) q = queue_upsert c t q"
| "apply_timetable_op (Q_Remove c) q = queue_remove c q"
| "apply_timetable_op (Q_Pop now) q = snd (pop_due now q)"

fun apply_table_op :: "timetable_op \<Rightarrow> (string \<rightharpoonup> instant) \<Rightarrow> (string \<rightharpoonup> instant)" where
  "apply_table_op (Q_Upsert c t) m = (if c \<noteq> [] \<and> t \<noteq> zero_time then m(c \<mapsto> t) else m)"
| "apply_table_op (Q_Remove c) m = (if c = [] then m else m(c := None))"
| "apply_table_op (Q_Pop now) m = (\<lambda>c. case m c of Some t \<Rightarrow> if t \<le> now then None else Some t | None \<Rightarrow> None)"

lemma empty_queue_ok: "queue_ok empty_queue" "table_of empty_queue = Map.empty"
  by (simp_all add: queue_ok_def positions_ok_def heap_ordered_def empty_queue_def table_of_def fun_eq_iff)

lemma apply_timetable_op_refines:
  "queue_ok q \<Longrightarrow> queue_ok (apply_timetable_op op q) \<and> table_of (apply_timetable_op op q) = apply_table_op op (table_of q)"
  by (cases op) (auto simp: checks.upsert_ok checks.upsert_table checks.remove_ok checks.due_ok checks.due_table queue_remove_spec)

lemma apply_timetable_ops_refine:
  "queue_ok q \<Longrightarrow> queue_ok (fold apply_timetable_op ops q) \<and> table_of (fold apply_timetable_op ops q) = fold apply_table_op ops (table_of q)"
  by (induction ops arbitrary: q) (simp_all add: apply_timetable_op_refines)

text \<open>C20: The heap with its index of positions answers every history of changes as a plain table from
  credentials to times does: the next wake-up is the earliest time of the table, the due credentials are those
  whose time has come, each once and the earliest first, and every item knows its position.\<close>

theorem refresh_heap_refines:
  "let q = fold apply_timetable_op ops empty_queue; m = fold apply_table_op ops Map.empty; due = fst (pop_due now q) in
     table_of q = m \<and> queue_peek q = (if m = Map.empty then None else Some (Min (ran m))) \<and>
     distinct due \<and> set due = {c. \<exists>t. m c = Some t \<and> t \<le> now} \<and> sorted (map (\<lambda>c. the (m c)) due) \<and> positions_ok q"
proof -
  let ?q = "fold apply_timetable_op ops empty_queue" and ?m = "fold apply_table_op ops Map.empty"
  have q: "queue_ok ?q" "table_of ?q = ?m" using apply_timetable_ops_refine [OF empty_queue_ok(1)] empty_queue_ok(2) by simp_all
  have p: "positions_ok ?q" using q(1) by (simp add: queue_ok_def)
  have fin: "finite (ran ?m)"
    using positions_dom [OF p] unfolding q(2) by (metis List.finite_set finite_ran)
  have "queue_peek ?q = (if ?m = Map.empty then None else Some (Min (ran ?m)))"
  proof (cases "queue_peek ?q")
    case None
    then show ?thesis using queue_peek_spec(1) [OF q(1)] q(2) by simp
  next
    case (Some t)
    with queue_peek_spec [OF q(1)] have "t \<in> ran ?m" "\<forall>u \<in> ran ?m. t \<le> u" "?m \<noteq> Map.empty"
      unfolding q(2) by (auto simp: ran_def)
    moreover from this fin have "Min (ran ?m) = t" by (intro Min_eqI) simp_all
    ultimately show ?thesis using Some by simp
  qed
  moreover obtain due q' where d: "pop_due now ?q = (due, q')" by fastforce
  note sp = pop_due_spec [OF q(1) d, unfolded q(2)]
  moreover have "map (check_time ?q) due = map (\<lambda>c. the (?m c)) due"
    using sp by (auto simp: check_time_table q(2))
  ultimately show ?thesis using p q(2) d by (auto simp: Let_def)
qed

end
