(* ===== verification/Refresh_Credential.thy ===== *)
theory Refresh_Credential
  imports Auth_Cooldown "HOL-Library.Word"
begin

text \<open>
  When the tokens of a credential are refreshed, and what an attempt does to the credential
  (sdk/cliproxy/auth/auto_refresh_loop.go, conductor.go, types.go). What the code reads from tokens,
  from free-form metadata and from the runtime object of a provider is a parameter; the operations
  read the clock once.
\<close>

section \<open>Credentials\<close>

definition refreshCheckInterval :: duration where [time_simps]: "refreshCheckInterval = 5 * second"
definition refreshPendingBackoff :: duration where [time_simps]: "refreshPendingBackoff = minute"
definition refreshFailureBackoff :: duration where [time_simps]: "refreshFailureBackoff = 5 * minute"
definition invalidGrantBackoffBase :: duration where [time_simps]: "invalidGrantBackoffBase = minute"
definition invalidGrantBackoffMax :: duration where [time_simps]: "invalidGrantBackoffMax = 30 * minute"
definition refreshIneffectiveBackoff :: duration where [time_simps]: "refreshIneffectiveBackoff = 30 * second"

record refreshable =
  rf_auth :: auth
  rf_last_refreshed :: instant
  rf_failures :: int
  rf_generation :: "64 word"
  rf_epoch :: "64 word"

text \<open>The parameters: the JSON parser, the provider's own verdict, the time of the last refresh and the
  expiry that are written in the metadata, the expiry that is written in a token, the interval that
  is asked for, and how long before the expiry the runtime and the provider ask to be refreshed.\<close>

record refresh_hooks =
  rh_json :: "string \<Rightarrow> json option"
  rh_evaluator :: "auth \<Rightarrow> (instant \<Rightarrow> bool) option"
  rh_last_refresh :: "auth \<Rightarrow> instant option"
  rh_metadata_expiry :: "auth \<Rightarrow> instant option"
  rh_jwt_expiry :: "string \<Rightarrow> instant option"
  rh_interval :: "auth \<Rightarrow> duration"
  rh_runtime_lead :: "auth \<Rightarrow> duration option"
  rh_lead_factory :: "string \<Rightarrow> duration option"

definition metadata_string :: "auth \<Rightarrow> string \<Rightarrow> string" where
  "metadata_string a key = (case map_of (au_metadata a) key of Some (GString s) \<Rightarrow> trim_space s | _ \<Rightarrow> [])"

definition account_info :: "auth \<Rightarrow> string \<times> string" where
  "account_info a =
     (let email = metadata_string a ''email''; project = metadata_string a ''project_id''; key = attribute a ''api_key'' in
      if to_lower (au_provider a) = ''gemini-cli'' \<and> email \<noteq> [] then
        (''oauth'', if project \<noteq> [] then email @ '' ('' @ project @ '')'' else email)
      else if email \<noteq> [] then (''oauth'', email)
      else if key \<noteq> [] then (''api_key'', key) else ([], []))"

definition auth_access_token :: "auth \<Rightarrow> string" where
  "auth_access_token a =
     (let t = metadata_string a ''access_token'' in if t \<noteq> [] then t else metadata_string a ''accessToken'')"

lemma auth_access_token_cong: "au_metadata b = au_metadata a \<Longrightarrow> auth_access_token b = auth_access_token a"
  by (simp only: auth_access_token_def metadata_string_def Let_def)

definition expiration_time :: "refresh_hooks \<Rightarrow> auth \<Rightarrow> instant option" where
  "expiration_time h a =
     (case (if auth_access_token a \<noteq> [] then rh_jwt_expiry h (auth_access_token a) else None) of
        Some t \<Rightarrow> Some t
      | None \<Rightarrow> rh_metadata_expiry h a)"

definition access_token_expiration_time :: "refresh_hooks \<Rightarrow> auth \<Rightarrow> instant option" where
  "access_token_expiration_time h a =
     (if auth_access_token a = [] then None
      else case rh_jwt_expiry h (auth_access_token a) of Some t \<Rightarrow> Some t | None \<Rightarrow> expiration_time h a)"

definition has_valid_access_token :: "refresh_hooks \<Rightarrow> instant \<Rightarrow> auth \<Rightarrow> bool" where
  "has_valid_access_token h now a \<longleftrightarrow>
     auth_access_token a \<noteq> [] \<and>
     (case access_token_expiration_time h a of None \<Rightarrow> True | Some t \<Rightarrow> t > now)"

definition is_disabled :: "auth \<Rightarrow> bool" where
  "is_disabled a \<longleftrightarrow> au_disabled a \<or> au_status a = StatusDisabled"

definition has_disabled_invalid_grant_failure :: "(string \<Rightarrow> json option) \<Rightarrow> auth \<Rightarrow> bool" where
  "has_disabled_invalid_grant_failure js a \<longleftrightarrow>
     is_disabled a \<and>
     (case au_error a of None \<Rightarrow> False
      | Some e \<Rightarrow> is_invalid_grant_result_error js (Some e) \<or> is_invalid_grant_error_message js (ae_message e) \<or>
          is_invalid_grant_error_message js (ae_code e))"

text \<open>Only a positive lead counts.\<close>

definition positive_lead :: "duration option \<Rightarrow> duration option" where
  "positive_lead d = (case d of None \<Rightarrow> None | Some t \<Rightarrow> if t > 0 then Some t else None)"

definition provider_refresh_lead :: "refresh_hooks \<Rightarrow> auth \<Rightarrow> duration option" where
  "provider_refresh_lead h a =
     (case positive_lead (rh_runtime_lead h a) of
        Some t \<Rightarrow> Some t
      | None \<Rightarrow> positive_lead (rh_lead_factory h (to_lower (trim_space (to_lower (au_provider a))))))"

definition last_refresh_of :: "refresh_hooks \<Rightarrow> refreshable \<Rightarrow> instant" where
  "last_refresh_of h a =
     (if rf_last_refreshed a = zero_time then (case rh_last_refresh h (rf_auth a) of Some t \<Rightarrow> t | None \<Rightarrow> zero_time)
      else rf_last_refreshed a)"

definition known_expiry :: "refresh_hooks \<Rightarrow> auth \<Rightarrow> instant option" where
  "known_expiry h a = (case expiration_time h a of Some t \<Rightarrow> if t = zero_time then None else Some t | None \<Rightarrow> None)"

section \<open>When to look, and when to refresh\<close>

definition not_before :: "instant \<Rightarrow> instant \<Rightarrow> instant" where
  "not_before now t = (if \<not> t > now then now else t)"

definition next_by_interval :: "instant \<Rightarrow> instant option \<Rightarrow> instant \<Rightarrow> duration \<Rightarrow> instant" where
  "next_by_interval now expiry lst pref =
     (case expiry of
        Some e \<Rightarrow>
          if \<not> e > now \<or> time_sub e now \<le> pref then now
          else if lst = zero_time then now
          else not_before now (if lst + pref < e - pref then lst + pref else e - pref)
      | None \<Rightarrow> if lst = zero_time then now else not_before now (lst + pref))"

definition next_by_lead :: "instant \<Rightarrow> instant option \<Rightarrow> instant \<Rightarrow> duration \<Rightarrow> instant" where
  "next_by_lead now expiry lst lead =
     (case expiry of
        Some e \<Rightarrow> not_before now (e - lead)
      | None \<Rightarrow> if lst \<noteq> zero_time then not_before now (lst + lead) else now)"

definition next_refresh_check_at :: "refresh_hooks \<Rightarrow> duration \<Rightarrow> instant \<Rightarrow> refreshable \<Rightarrow> instant option" where
  "next_refresh_check_at h interval now a =
     (let au = rf_auth a; lst = last_refresh_of h a; expiry = known_expiry h au; pref = rh_interval h au in
      if has_unauthorized_auth_failure au \<or> has_disabled_invalid_grant_failure (rh_json h) au then None
      else if fst (account_info au) = ''api_key'' then None
      else if au_next_refresh au \<noteq> zero_time \<and> now < au_next_refresh au then Some (au_next_refresh au)
      else if rh_evaluator h au \<noteq> None then Some (now + (if interval \<le> 0 then refreshCheckInterval else interval))
      else if pref > 0 then Some (next_by_interval now expiry lst pref)
      else case provider_refresh_lead h au of
             None \<Rightarrow> None
           | Some lead \<Rightarrow> Some (next_by_lead now expiry lst lead))"

definition due_by_interval :: "instant \<Rightarrow> instant option \<Rightarrow> instant \<Rightarrow> duration \<Rightarrow> bool" where
  "due_by_interval now expiry lst interval \<longleftrightarrow>
     (case expiry of Some e \<Rightarrow> \<not> e > now \<or> time_sub e now \<le> interval | None \<Rightarrow> False) \<or>
     lst = zero_time \<or> time_sub now lst \<ge> interval"

definition due_by_lead :: "instant \<Rightarrow> instant option \<Rightarrow> instant \<Rightarrow> duration \<Rightarrow> bool" where
  "due_by_lead now expiry lst lead \<longleftrightarrow>
     (if lead \<le> 0 then (case expiry of Some e \<Rightarrow> now > e | None \<Rightarrow> False)
      else case expiry of
        Some e \<Rightarrow> time_sub e now \<le> lead
      | None \<Rightarrow> lst = zero_time \<or> time_sub now lst \<ge> lead)"

definition should_refresh :: "refresh_hooks \<Rightarrow> instant \<Rightarrow> refreshable \<Rightarrow> bool" where
  "should_refresh h now a \<longleftrightarrow>
     (let au = rf_auth a; lst = last_refresh_of h a; expiry = known_expiry h au; interval = rh_interval h au in
      if has_unauthorized_auth_failure au \<or> has_disabled_invalid_grant_failure (rh_json h) au then False
      else if au_next_refresh au \<noteq> zero_time \<and> now < au_next_refresh au then False
      else case rh_evaluator h au of
        Some verdict \<Rightarrow> verdict now
      | None \<Rightarrow>
          if interval > 0 then due_by_interval now expiry lst interval
          else case provider_refresh_lead h au of None \<Rightarrow> False | Some lead \<Rightarrow> due_by_lead now expiry lst lead)"

section \<open>The outcome of an attempt\<close>

text \<open>An error of a refresh: its text, the status that it carries, and the manager's own error in its chain.\<close>

record refresh_error =
  re_text :: string
  re_status :: int
  re_auth_error :: "auth_error option"

definition is_unauthorized_error :: "refresh_error \<Rightarrow> bool" where
  "is_unauthorized_error e \<longleftrightarrow>
     re_status e = 401 \<or> contains (to_lower (re_text e)) ''status 401'' \<or> contains (to_lower (re_text e)) ''401 unauthorized''"

definition is_invalid_grant_error :: "(string \<Rightarrow> json option) \<Rightarrow> refresh_error \<Rightarrow> bool" where
  "is_invalid_grant_error js e \<longleftrightarrow>
     (re_status e = 400 \<or> re_status e = 401 \<or> re_status e = 0) \<and>
     (case re_auth_error e of
        Some ae \<Rightarrow> is_invalid_grant_identifier (ae_code ae) \<or> is_invalid_grant_error_message js (ae_message ae)
      | None \<Rightarrow> is_invalid_grant_error_message js (re_text e))"

definition refresh_error_from_error :: "refresh_error \<Rightarrow> auth_error" where
  "refresh_error_from_error e =
     (let status = (if re_status e = 0 \<and> is_unauthorized_error e then 401 else re_status e)
      in \<lparr>ae_code = (if status = 401 then ''unauthorized'' else []), ae_message = re_text e, ae_retryable = False,
          ae_status = status\<rparr>)"

definition invalid_grant_backoff_duration :: "int \<Rightarrow> duration" where
  "invalid_grant_backoff_duration failures =
     (if failures \<le> 1 then invalidGrantBackoffBase
      else let backoff = invalidGrantBackoffBase * 2 ^ nat (min (failures - 1) 10)
        in if backoff > invalidGrantBackoffMax then invalidGrantBackoffMax else backoff)"

text \<open>What is left to do with the timetable.\<close>

datatype refresh_notice = Reschedule | Unschedule | NoNotice

definition failure_backoff :: "refresh_hooks \<Rightarrow> instant \<Rightarrow> bool \<Rightarrow> refreshable \<Rightarrow> int \<times> instant" where
  "failure_backoff h now invalid_grant a =
     (let failures = (if invalid_grant then s64 (rf_failures a + 1) else 0);
          retry = now + (if invalid_grant then invalid_grant_backoff_duration failures else refreshFailureBackoff)
      in (failures, retry))"

definition refresh_failed :: "refresh_hooks \<Rightarrow> instant \<Rightarrow> refresh_error \<Rightarrow> refreshable \<Rightarrow> refreshable \<times> refresh_notice" where
  "refresh_failed h now e a0 =
     (let invalid_grant = is_invalid_grant_error (rh_json h) e;
          au = (rf_auth a0)\<lparr>au_updated_at := now, au_error := Some (refresh_error_from_error e)\<rparr>;
          a = a0\<lparr>rf_auth := au, rf_generation := rf_generation a0 + 1\<rparr>;
          (failures, retry) = failure_backoff h now invalid_grant a
      in if is_disabled au \<and> invalid_grant then
           (a\<lparr>rf_auth := au\<lparr>au_unavailable := True, au_status := StatusDisabled, au_next_refresh := zero_time,
                             au_message := ''disabled (invalid grant)''\<rparr>,
              rf_failures := 0\<rparr>, Unschedule)
         else if is_disabled au then
           (a\<lparr>rf_auth := au\<lparr>au_unavailable := True, au_status := StatusDisabled,
                             au_next_refresh := now + refreshFailureBackoff,
                             au_message := (if au_message au = [] then ''disabled'' else au_message au)\<rparr>\<rparr>, Reschedule)
         else if \<not> has_valid_access_token h now au then
           (let au = au\<lparr>au_unavailable := True, au_status := StatusError\<rparr> in
            if is_unauthorized_error e then
              (a\<lparr>rf_auth := au\<lparr>au_next_refresh := zero_time, au_message := ''unauthorized''\<rparr>, rf_failures := 0\<rparr>, NoNotice)
            else if invalid_grant then
              (a\<lparr>rf_auth := au\<lparr>au_next_refresh := retry, au_message := ''invalid grant (retrying)''\<rparr>,
                 rf_failures := failures\<rparr>, Reschedule)
            else
              (a\<lparr>rf_auth := au\<lparr>au_next_refresh := retry, au_message := ''token expired''\<rparr>,
                 rf_failures := failures\<rparr>, Reschedule))
         else
           (let retry = (case access_token_expiration_time h au of
                           Some t \<Rightarrow> if t \<noteq> zero_time \<and> retry > t then t else retry
                         | None \<Rightarrow> retry)
            in (a\<lparr>rf_auth := au\<lparr>au_next_refresh := retry\<rparr>, rf_failures := failures\<rparr>, Reschedule)))"

text \<open>The states of models that were refused for want of authorisation are reset.\<close>

definition unauthorized_state :: "model_state \<Rightarrow> bool" where
  "unauthorized_state s \<longleftrightarrow>
     (case ms_error s of None \<Rightarrow> False
      | Some e \<Rightarrow> ae_status e = 401 \<or> equal_fold (ae_code e) ''unauthorized'' \<or>
          is_unauthorized_error \<lparr>re_text = (if ae_code e = [] then ae_message e else ae_code e @ '': '' @ ae_message e),
                                 re_status = ae_status e, re_auth_error = Some e\<rparr>) \<or>
     contains (to_lower (ms_message s)) ''unauthorized''"

definition clear_unauthorized_model_states :: "instant \<Rightarrow> auth \<Rightarrow> auth" where
  "clear_unauthorized_model_states now a =
     (if list_ex (\<lambda>(_, s). unauthorized_state s) (au_states a)
      then update_aggregated_availability now
             (a\<lparr>au_states := map (\<lambda>(m, s). (m, if unauthorized_state s then reset_model_state now s else s)) (au_states a)\<rparr>)
      else a)"

definition refresh_succeeded :: "refresh_hooks \<Rightarrow> instant \<Rightarrow> refreshable \<Rightarrow> refreshable" where
  "refresh_succeeded h now updated =
     (let au = rf_auth updated;
          au = au\<lparr>au_next_refresh := zero_time, au_error := None, au_message := [], au_unavailable := False,
                  au_status := (if au_status au = StatusError \<or> au_status au = [] then StatusActive else au_status au),
                  au_updated_at := now\<rparr>;
          a = updated\<lparr>rf_auth := clear_unauthorized_model_states now au, rf_last_refreshed := now, rf_failures := 0\<rparr>
      in if should_refresh h now a
         then a\<lparr>rf_auth := (rf_auth a)\<lparr>au_next_refresh := now + refreshIneffectiveBackoff\<rparr>\<rparr>
         else a)"

section \<open>A credential that is not due waits\<close>

definition durations_fit :: "refresh_hooks \<Rightarrow> bool" where
  "durations_fit h \<longleftrightarrow> (\<forall>a. rh_interval h a \<le> int64_max)"

lemma refreshCheckInterval_pos: "0 < refreshCheckInterval"
  by (simp add: time_simps)

lemma positive_lead_pos: "positive_lead d = Some t \<Longrightarrow> 0 < t"
  by (simp add: positive_lead_def split: option.splits if_splits)

lemma provider_refresh_lead_pos: "provider_refresh_lead h a = Some t \<Longrightarrow> 0 < t"
  by (auto simp: provider_refresh_lead_def dest: positive_lead_pos split: option.splits)

lemma time_sub_greater: "0 < d \<Longrightarrow> \<not> time_sub t u \<le> d \<Longrightarrow> d < t - u"
  by (auto simp: time_sub_def int64_min_def min_def max_def split: if_splits)

lemma time_sub_less: "d \<le> int64_max \<Longrightarrow> \<not> time_sub t u \<ge> d \<Longrightarrow> t - u < d"
  by (auto simp: time_sub_def min_def max_def split: if_splits)

lemma next_by_interval_later:
  assumes "0 < d" and "d \<le> int64_max" and "\<not> due_by_interval now expiry lst d"
  shows "now < next_by_interval now expiry lst d"
proof -
  have "lst \<noteq> zero_time" "now - lst < d"
    using assms by (auto simp: due_by_interval_def intro: time_sub_less)
  moreover have "e > now \<and> \<not> time_sub e now \<le> d \<and> d < e - now" if "expiry = Some e" for e
    using assms that time_sub_greater [of d e now] by (simp add: due_by_interval_def)
  ultimately show ?thesis by (auto simp: next_by_interval_def not_before_def split: option.split)
qed

lemma next_by_lead_later:
  assumes "0 < d" and "\<not> due_by_lead now expiry lst d"
  shows "now < next_by_lead now expiry lst d \<or> expiry = None \<and> d > int64_max"
proof (cases expiry)
  case None
  then have l: "lst \<noteq> zero_time" "\<not> time_sub now lst \<ge> d" using assms by (simp_all add: due_by_lead_def)
  show ?thesis
  proof (cases "d \<le> int64_max")
    case True
    from time_sub_less [OF this l(2)] l(1) show ?thesis by (simp add: next_by_lead_def not_before_def None)
  qed (use None in simp)
next
  case (Some e)
  then have "\<not> time_sub e now \<le> d" using assms by (simp add: due_by_lead_def)
  from time_sub_greater [OF assms(1) this] show ?thesis by (simp add: Some next_by_lead_def not_before_def)
qed

definition leads_fit :: "refresh_hooks \<Rightarrow> bool" where
  "leads_fit h \<longleftrightarrow> (\<forall>a t. provider_refresh_lead h a = Some t \<longrightarrow> t \<le> int64_max)"

text \<open>C21: A credential that is looked at and need not be refreshed is put back for a later instant, whatever it
  says of its expiry, its last refresh and its intervals: the refresh loop does not spin.\<close>

theorem not_due_waits:
  assumes "durations_fit h" and "leads_fit h"
    and "next_refresh_check_at h interval now a = Some t" and "\<not> should_refresh h now a"
  shows "now < t"
proof -
  let ?au = "rf_auth a"
  consider "au_next_refresh ?au \<noteq> zero_time" "now < au_next_refresh ?au" "t = au_next_refresh ?au"
    | "t = now + (if interval \<le> 0 then refreshCheckInterval else interval)"
    | "rh_interval h ?au > 0" "t = next_by_interval now (known_expiry h ?au) (last_refresh_of h a) (rh_interval h ?au)"
        "\<not> due_by_interval now (known_expiry h ?au) (last_refresh_of h a) (rh_interval h ?au)"
    | lead where "provider_refresh_lead h ?au = Some lead" "t = next_by_lead now (known_expiry h ?au) (last_refresh_of h a) lead"
        "\<not> due_by_lead now (known_expiry h ?au) (last_refresh_of h a) lead"
    using assms(3,4)
    by (auto simp: next_refresh_check_at_def should_refresh_def Let_def split: if_splits option.splits)
  then show ?thesis
  proof cases
    case 2
    then show ?thesis using refreshCheckInterval_pos by (simp split: if_splits)
  next
    case 3
    with assms(1) next_by_interval_later show ?thesis by (simp add: durations_fit_def)
  next
    case 4
    with assms(2) next_by_lead_later [of lead now] provider_refresh_lead_pos show ?thesis by (fastforce simp: leads_fit_def)
  qed simp
qed

section \<open>After an attempt\<close>

lemma invalid_grant_backoff_range:
  "invalidGrantBackoffBase \<le> invalid_grant_backoff_duration n" "invalid_grant_backoff_duration n \<le> invalidGrantBackoffMax"
proof -
  have "1 * (1::int) \<le> 1 * 2 ^ nat (min (n - 1) 10)" by simp
  then show "invalidGrantBackoffBase \<le> invalid_grant_backoff_duration n"
    by (simp add: invalid_grant_backoff_duration_def Let_def time_simps)
  show "invalid_grant_backoff_duration n \<le> invalidGrantBackoffMax"
    by (simp add: invalid_grant_backoff_duration_def Let_def time_simps)
qed

lemma held_back_not_due: "0 < now \<Longrightarrow> now < au_next_refresh (rf_auth a) \<Longrightarrow> \<not> should_refresh h now a"
  by (simp add: should_refresh_def Let_def zero_time_def)

definition plain_refresh_error :: "refresh_error \<Rightarrow> bool" where
  "plain_refresh_error e \<longleftrightarrow> re_auth_error e = None \<and> (is_unauthorized_error e \<longrightarrow> re_status e = 0 \<or> re_status e = 401)"

lemma failure_backoff_range:
  "failure_backoff h now ig a = (n, retry) \<Longrightarrow> now < retry \<and> retry \<le> now + invalidGrantBackoffMax"
  using invalid_grant_backoff_range [of n]
  by (auto simp: failure_backoff_def Let_def refreshFailureBackoff_def invalidGrantBackoffMax_def
      invalidGrantBackoffBase_def time_simps split: if_splits)


text \<open>After a successful attempt the credential is not due either, even when the provider handed out the
  same expiry again.\<close>

lemma refreshed_not_due:
  assumes "0 < now"
  shows "\<not> should_refresh h now (refresh_succeeded h now a)"
  using assms held_back_not_due [of now "_\<lparr>rf_auth := _\<lparr>au_next_refresh := now + refreshIneffectiveBackoff\<rparr>\<rparr>" h]
  by (simp add: refresh_succeeded_def Let_def time_simps)

text \<open>An error that says 401 in its text and carries another status is not remembered as unauthorised, and
  gets no backoff: the credential is due again at once.\<close>

lemma refresh_without_backoff:
  assumes "re_text e = ''token endpoint: status 401''" and "re_status e = 403" and "re_auth_error e = None"
    and "\<not> is_disabled (rf_auth a)" and "auth_access_token (rf_auth a) = []"
    and "rh_json h (trim_space (re_text e)) = None" and "rh_evaluator h = (\<lambda>_. None)" and "rh_interval h = (\<lambda>_. 0)"
    and "rh_lead_factory h = (\<lambda>_. Some lead)" and "0 < lead" and "rh_runtime_lead h = (\<lambda>_. None)"
    and "rf_last_refreshed a = zero_time" and "rh_last_refresh h = (\<lambda>_. None)" and "rh_metadata_expiry h = (\<lambda>_. None)"
  shows "should_refresh h now (fst (refresh_failed h now e a)) \<and> snd (refresh_failed h now e a) = NoNotice"
proof -
  have u: "is_unauthorized_error e"
  proof -
    have "contains (to_lower ''token endpoint: status 401'') ''status 401''" by code_simp
    with assms(1) show ?thesis by (simp add: is_unauthorized_error_def)
  qed
  have ig: "\<not> is_invalid_grant_error js e" for js using assms(2) by (simp add: is_invalid_grant_error_def)
  define au where "au = (rf_auth a)\<lparr>au_updated_at := now, au_error := Some (refresh_error_from_error e)\<rparr>"
  have tok: "auth_access_token au = auth_access_token (rf_auth a)"
    by (rule auth_access_token_cong) (simp add: au_def)
  have au: "\<not> is_disabled au" "auth_access_token au = []" "ae_status (refresh_error_from_error e) = 403"
    "ae_code (refresh_error_from_error e) = []"
    using assms(2,4,5) tok by (simp_all add: au_def is_disabled_def refresh_error_from_error_def Let_def)
  have nv: "\<not> has_valid_access_token h now au" using au(2) by (simp add: has_valid_access_token_def)
  let ?b = "au\<lparr>au_unavailable := True, au_status := StatusError, au_next_refresh := zero_time, au_message := ''unauthorized''\<rparr>"
  obtain n retry where fb: "failure_backoff h now False (a\<lparr>rf_auth := au, rf_generation := rf_generation a + 1\<rparr>) = (n, retry)"
    by fastforce
  have out: "refresh_failed h now e a = (a\<lparr>rf_generation := rf_generation a + 1, rf_auth := ?b, rf_failures := 0\<rparr>, NoNotice)"
    using u ig au(1) nv fb by (simp add: refresh_failed_def Let_def flip: au_def)
  have b: "\<not> is_disabled ?b" using au(1) by (simp add: is_disabled_def status_defs)
  have tok': "auth_access_token ?b = []" using auth_access_token_cong [of ?b au] au(2) by simp
  have "\<not> has_unauthorized_auth_failure ?b"
    using au(3,4) by (simp add: has_unauthorized_auth_failure_def au_def equal_fold_def)
  with b assms(7-14) show ?thesis
    by (simp add: out should_refresh_def Let_def has_disabled_invalid_grant_failure_def last_refresh_of_def provider_refresh_lead_def
        positive_lead_def due_by_lead_def known_expiry_def expiration_time_def tok')
qed

section \<open>Witnesses\<close>

definition demo_refresh_hooks :: refresh_hooks where
  "demo_refresh_hooks =
     \<lparr>rh_json = (\<lambda>_. None), rh_evaluator = (\<lambda>_. None), rh_last_refresh = (\<lambda>_. None), rh_metadata_expiry = (\<lambda>_. None),
      rh_jwt_expiry = (\<lambda>_. None), rh_interval = (\<lambda>_. 0), rh_runtime_lead = (\<lambda>_. None), rh_lead_factory = (\<lambda>_. Some minute)\<rparr>"

definition demo_refreshable :: refreshable where
  "demo_refreshable = \<lparr>rf_auth = demo_auth, rf_last_refreshed = zero_time, rf_failures = 0, rf_generation = 1, rf_epoch = 1\<rparr>"

lemma demo_account: "fst (account_info demo_auth) = []"
  by (simp add: account_info_def demo_auth_def metadata_string_def attribute_def)

lemma demo_not_failed:
  "\<not> has_unauthorized_auth_failure demo_auth" "\<not> has_disabled_invalid_grant_failure js demo_auth"
  "au_next_refresh demo_auth = zero_time" "known_expiry demo_refresh_hooks demo_auth = None"
  "provider_refresh_lead demo_refresh_hooks demo_auth = Some minute"
  by (simp_all add: has_unauthorized_auth_failure_def has_disabled_invalid_grant_failure_def demo_auth_def zero_time_def
      known_expiry_def expiration_time_def demo_refresh_hooks_def provider_refresh_lead_def positive_lead_def time_simps)

lemma demo_lead: "rh_interval demo_refresh_hooks = (\<lambda>_. 0)" "rh_evaluator demo_refresh_hooks = (\<lambda>_. None)" "last_refresh_of demo_refresh_hooks demo_refreshable = zero_time"
  by (simp_all add: demo_refresh_hooks_def last_refresh_of_def demo_refreshable_def)

lemma demo_due:
  "next_refresh_check_at demo_refresh_hooks i now demo_refreshable = Some now" "should_refresh demo_refresh_hooks now demo_refreshable"
  using demo_account demo_not_failed demo_lead
  by (simp_all add: next_refresh_check_at_def should_refresh_def Let_def next_by_lead_def due_by_lead_def demo_refreshable_def time_simps)

lemma demo_refresh_hooks_fit: "durations_fit demo_refresh_hooks" "leads_fit demo_refresh_hooks"
  by (simp_all add: durations_fit_def leads_fit_def demo_refresh_hooks_def provider_refresh_lead_def positive_lead_def int64_max_def
      time_simps)

theorem not_due_waits_witness:
  "\<exists>t. next_refresh_check_at demo_refresh_hooks 0 9 (demo_refreshable\<lparr>rf_last_refreshed := 8\<rparr>) = Some t \<and> 9 < t"
proof -
  let ?a = "demo_refreshable\<lparr>rf_last_refreshed := 8\<rparr>"
  have lst: "last_refresh_of demo_refresh_hooks ?a = 8" by (simp add: last_refresh_of_def zero_time_def)
  have "\<exists>t. next_refresh_check_at demo_refresh_hooks 0 9 ?a = Some t" "\<not> should_refresh demo_refresh_hooks 9 ?a"
    using demo_account demo_not_failed demo_lead lst
    by (simp_all add: next_refresh_check_at_def should_refresh_def Let_def due_by_lead_def demo_refreshable_def zero_time_def
        time_sub_def int64_max_def int64_min_def time_simps)
  with not_due_waits [OF demo_refresh_hooks_fit] show ?thesis by blast
qed


end
