(* ===== verification/Refresh_Loop.thy ===== *)
theory Refresh_Loop
  imports Refresh_Heap Refresh_Credential Transition_Systems
begin

text \<open>
  The background refresh (sdk/cliproxy/auth/auto_refresh_loop.go, conductor.go): one goroutine that keeps
  the timetable and hands out jobs, workers that take them, and the callers that change
  credentials. What runs under one mutex is one step; between its steps the position of the loop is
  kept in the state, so that every interleaving is a run.
\<close>

section \<open>State\<close>

definition refreshMaxConcurrency :: nat where "refreshMaxConcurrency = 16"
definition maxRefreshTimerWait :: duration where [time_simps]: "maxRefreshTimerWait = 30 * second"

record refresh_job =
  rj_id :: string
  rj_epoch :: "64 word"
  rj_pending_until :: instant
  rj_loop :: nat
  rj_running :: bool

text \<open>What the loop has still to handle after a wake-up: the due credentials, or the changed ones.\<close>

datatype loop_rest = Due_first "string list" | Dirty_last "string list"

text \<open>Between two critical sections: nothing built yet, entries read, waiting, going through the rest, about to
  apply a decision (a new time, or the removal), about to mark a credential, unable to mark it, about
  to send a job, releasing jobs at the end.\<close>

datatype loop_position =
    Unbuilt | Built "(string \<times> instant) list" | Waiting | Draining | Handling loop_rest
  | Applying string "instant option" loop_rest | Marking string "64 word" loop_rest | Unmarked string loop_rest
  | Sending nat loop_rest | Releasing "nat list" | Ended

record refresh_loop =
  rl_interval :: duration
  rl_capacity :: nat
  rl_timetable :: refresh_queue
  rl_dirty :: "string list"
  rl_wake :: bool
  rl_jobs :: "nat list"
  rl_now :: instant
  rl_position :: loop_position
  rl_cancelled :: bool

datatype worker_stage = Taken | Running | Leaving

text \<open>Credentials by identifier, the job of each, all jobs and loops that were made, the current loop, the workers
  that hold a job, and the calls that are about to be made to the current loop.\<close>

record refresh_system =
  rs_auths :: "(string \<times> refreshable) list"
  rs_jobs :: "string \<rightharpoonup> nat"
  rs_store :: "nat \<Rightarrow> refresh_job"
  rs_made :: nat
  rs_loops :: "nat \<Rightarrow> refresh_loop"
  rs_started :: nat
  rs_current :: "nat option"
  rs_workers :: "(nat \<times> worker_stage) list"
  rs_notices :: "string list"
  rs_unschedules :: "string list"
  rs_clock :: instant

section \<open>The loop\<close>

definition new_auto_refresh_loop :: "duration \<Rightarrow> int \<Rightarrow> refresh_loop" where
  "new_auto_refresh_loop interval concurrency =
     (let workers = (if concurrency \<le> 0 then refreshMaxConcurrency else nat concurrency); buffer = workers * 4 in
      \<lparr>rl_interval = (if interval \<le> 0 then refreshCheckInterval else interval),
       rl_capacity = (if buffer < 64 then 64 else buffer), rl_timetable = empty_queue, rl_dirty = [], rl_wake = False,
       rl_jobs = [], rl_now = zero_time, rl_position = Unbuilt, rl_cancelled = False\<rparr>)"

definition queue_reschedule :: "string \<Rightarrow> refresh_loop \<Rightarrow> refresh_loop" where
  "queue_reschedule c l =
     (if c = [] then l
      else l\<lparr>rl_dirty := (if c \<in> set (rl_dirty l) then rl_dirty l else rl_dirty l @ [c]), rl_wake := True\<rparr>)"

definition loop_upsert :: "string \<Rightarrow> instant \<Rightarrow> refresh_loop \<Rightarrow> refresh_loop" where
  "loop_upsert c t l = l\<lparr>rl_timetable := queue_upsert c t (rl_timetable l)\<rparr>"

definition loop_remove :: "string \<Rightarrow> refresh_loop \<Rightarrow> refresh_loop" where
  "loop_remove c l =
     (if c = [] then l
      else l\<lparr>rl_dirty := removeAll c (rl_dirty l), rl_timetable := queue_remove c (rl_timetable l)\<rparr>)"

definition rebuild_loop_entries :: "refresh_hooks \<Rightarrow> duration \<Rightarrow> instant \<Rightarrow> (string \<times> refreshable) list \<Rightarrow> (string \<times> instant) list" where
  "rebuild_loop_entries h interval now auths =
     List.map_filter (\<lambda>(c, a). map_option (Pair c) (next_refresh_check_at h interval now a)) auths"

definition install_entries :: "(string \<times> instant) list \<Rightarrow> refresh_queue" where
  "install_entries es = fold (\<lambda>(c, t). heap_push c t) es empty_queue"

definition next_wait :: "instant \<Rightarrow> refresh_loop \<Rightarrow> duration option" where
  "next_wait now l =
     (case queue_peek (rl_timetable l) of
        None \<Rightarrow> None
      | Some t \<Rightarrow>
          (let wait = time_sub t now; wait = (if wait < 0 then 0 else wait)
           in Some (if wait > maxRefreshTimerWait then maxRefreshTimerWait else wait)))"

text \<open>What to do with a credential that is due: \<open>exec\<close> says whether its provider has an executor.\<close>

datatype due_action = Drop | Put instant | Start "64 word"

definition due_action_of :: "refresh_hooks \<Rightarrow> duration \<Rightarrow> instant \<Rightarrow> bool \<Rightarrow> refreshable \<Rightarrow> due_action" where
  "due_action_of h interval now exec a =
     (case next_refresh_check_at h interval now a of
        None \<Rightarrow> Drop
      | Some t \<Rightarrow>
          if \<not> should_refresh h now a then Put t
          else if \<not> exec then Put (now + interval)
          else Start (rf_epoch a))"

definition check_of :: "refresh_hooks \<Rightarrow> duration \<Rightarrow> instant \<Rightarrow> refreshable option \<Rightarrow> instant option" where
  "check_of h interval now a = (case a of None \<Rightarrow> None | Some a \<Rightarrow> next_refresh_check_at h interval now a)"

definition unmarked_check :: "refresh_hooks \<Rightarrow> duration \<Rightarrow> instant \<Rightarrow> refreshable option \<Rightarrow> instant option" where
  "unmarked_check h interval now a =
     map_option (\<lambda>t. if \<not> t > now then now + interval else t) (check_of h interval now a)"

datatype refresh_event = Removal string | Silent string | Tau

text \<open>The loop's own steps, from one critical section to the next.\<close>

definition loop_turn ::
  "refresh_hooks \<Rightarrow> bool \<Rightarrow> instant \<Rightarrow> (string \<times> refreshable) list \<Rightarrow> refresh_loop \<Rightarrow> (refresh_event \<times> refresh_loop) option" where
  "loop_turn h exec now auths l =
     (case rl_position l of
        Unbuilt \<Rightarrow> Some (Tau, l\<lparr>rl_position := Built (rebuild_loop_entries h (rl_interval l) now auths)\<rparr>)
      | Built es \<Rightarrow> Some (Tau, l\<lparr>rl_timetable := install_entries es, rl_position := Waiting\<rparr>)
      | Draining \<Rightarrow> Some (Tau, l\<lparr>rl_dirty := [], rl_position := Handling (Dirty_last (rl_dirty l))\<rparr>)
      | Handling (Due_first []) \<Rightarrow> Some (Tau, l\<lparr>rl_position := Draining\<rparr>)
      | Handling (Due_first (c # cs)) \<Rightarrow>
          (case (if c = [] then None else map_of auths c) of
             None \<Rightarrow> Some (Tau, l\<lparr>rl_position := Handling (Due_first cs)\<rparr>)
           | Some a \<Rightarrow>
               Some (Tau, l\<lparr>rl_position :=
                 (case due_action_of h (rl_interval l) (rl_now l) exec a of
                    Drop \<Rightarrow> Applying c None (Due_first cs)
                  | Put t \<Rightarrow> Applying c (Some t) (Due_first cs)
                  | Start e \<Rightarrow> Marking c e (Due_first cs))\<rparr>))
      | Handling (Dirty_last []) \<Rightarrow> Some (Tau, l\<lparr>rl_position := Waiting\<rparr>)
      | Handling (Dirty_last (c # cs)) \<Rightarrow>
          Some (Tau, l\<lparr>rl_position :=
            Applying c (check_of h (rl_interval l) (rl_now l) (map_of auths c)) (Dirty_last cs)\<rparr>)
      | Applying c None rest \<Rightarrow> Some (Removal c, (loop_remove c l)\<lparr>rl_position := Handling rest\<rparr>)
      | Applying c (Some t) rest \<Rightarrow> Some (Tau, (loop_upsert c t l)\<lparr>rl_position := Handling rest\<rparr>)
      | Unmarked c rest \<Rightarrow>
          Some (Tau, l\<lparr>rl_position :=
            Applying c (unmarked_check h (rl_interval l) (rl_now l) (map_of auths c)) rest\<rparr>)
      | _ \<Rightarrow> None)"

definition on_timer :: "instant \<Rightarrow> refresh_loop \<Rightarrow> refresh_loop" where
  "on_timer now l =
     (let (due, q) = pop_due now (rl_timetable l)
      in l\<lparr>rl_timetable := q, rl_now := now, rl_position := Handling (Due_first due)\<rparr>)"

definition on_wake :: "instant \<Rightarrow> refresh_loop \<Rightarrow> refresh_loop" where
  "on_wake now l = l\<lparr>rl_wake := False, rl_now := now, rl_position := Draining\<rparr>"

section \<open>Jobs\<close>

definition set_loop :: "nat \<Rightarrow> refresh_loop \<Rightarrow> refresh_system \<Rightarrow> refresh_system" where
  "set_loop L l s = s\<lparr>rs_loops := (rs_loops s)(L := l)\<rparr>"

definition queue_refresh_reschedule :: "string \<Rightarrow> refresh_system \<Rightarrow> refresh_system" where
  "queue_refresh_reschedule c s =
     (case rs_current s of None \<Rightarrow> s | Some L \<Rightarrow> set_loop L (queue_reschedule c (rs_loops s L)) s)"

definition queue_refresh_unschedule :: "string \<Rightarrow> refresh_system \<Rightarrow> refresh_system" where
  "queue_refresh_unschedule c s =
     (case rs_current s of None \<Rightarrow> s | Some L \<Rightarrow> set_loop L (loop_remove c (rs_loops s L)) s)"

definition pending_marked :: "refresh_job \<Rightarrow> instant \<Rightarrow> refreshable \<Rightarrow> refreshable" where
  "pending_marked j now a =
     a\<lparr>rf_auth := (rf_auth a)\<lparr>au_next_refresh := rj_pending_until j, au_updated_at := now\<rparr>, rf_generation := rf_generation a + 1\<rparr>"

definition mark_refresh_pending ::
  "refresh_hooks \<Rightarrow> nat \<Rightarrow> string \<Rightarrow> 64 word \<Rightarrow> instant \<Rightarrow> refresh_system \<Rightarrow> nat option \<times> refresh_system" where
  "mark_refresh_pending h L c epoch now s =
     (case map_of (rs_auths s) c of
        None \<Rightarrow> (None, s)
      | Some a \<Rightarrow>
          if rf_epoch a \<noteq> epoch \<or> has_unauthorized_auth_failure (rf_auth a) \<or>
             has_disabled_invalid_grant_failure (rh_json h) (rf_auth a) then (None, s)
          else if rs_jobs s c \<noteq> None \<or>
                  au_next_refresh (rf_auth a) \<noteq> zero_time \<and> now < au_next_refresh (rf_auth a) then (None, s)
          else
            let j = rs_made s;
                job = \<lparr>rj_id = c, rj_epoch = epoch, rj_pending_until = now + refreshPendingBackoff, rj_loop = L,
                       rj_running = False\<rparr>
            in (Some j,
                s\<lparr>rs_jobs := (rs_jobs s)(c \<mapsto> j), rs_store := (rs_store s)(j := job), rs_made := j + 1,
                  rs_auths := AList.update c (pending_marked job now a) (rs_auths s),
                  rs_notices := c # rs_notices s\<rparr>))"

definition begin_refresh_job :: "bool \<Rightarrow> nat \<Rightarrow> refresh_system \<Rightarrow> bool \<times> refresh_system" where
  "begin_refresh_job cancelled j s =
     (let job = rs_store s j in
      case map_of (rs_auths s) (rj_id job) of
        None \<Rightarrow> (False, s)
      | Some a \<Rightarrow>
          if cancelled \<or> rs_jobs s (rj_id job) \<noteq> Some j \<or> rf_epoch a \<noteq> rj_epoch job then (False, s)
          else (True, s\<lparr>rs_store := (rs_store s)(j := job\<lparr>rj_running := True\<rparr>)\<rparr>))"

text \<open>Only the marker of this job is cleared.\<close>

definition unmarked_auths :: "refresh_job \<Rightarrow> instant \<Rightarrow> instant \<Rightarrow> (string \<times> refreshable) list \<Rightarrow> (string \<times> refreshable) list" where
  "unmarked_auths job retry_at now auths =
     (case map_of auths (rj_id job) of
        None \<Rightarrow> auths
      | Some a \<Rightarrow>
          if rf_epoch a = rj_epoch job \<and> au_next_refresh (rf_auth a) = rj_pending_until job then
            AList.update (rj_id job)
              (a\<lparr>rf_auth := (rf_auth a)\<lparr>au_next_refresh := retry_at, au_updated_at := now\<rparr>,
                 rf_generation := rf_generation a + 1\<rparr>) auths
          else auths)"

definition finish_refresh_job :: "nat \<Rightarrow> instant \<Rightarrow> bool \<Rightarrow> instant \<Rightarrow> refresh_system \<Rightarrow> refresh_system" where
  "finish_refresh_job j retry_at queued_only now s =
     (let job = rs_store s j in
      if rs_jobs s (rj_id job) \<noteq> Some j \<or> queued_only \<and> rj_running job then s
      else s\<lparr>rs_jobs := (rs_jobs s)(rj_id job := None), rs_auths := unmarked_auths job retry_at now (rs_auths s),
             rs_notices := rj_id job # rs_notices s\<rparr>)"

definition queued_jobs :: "nat \<Rightarrow> refresh_system \<Rightarrow> nat list" where
  "queued_jobs L s =
     filter (\<lambda>j. rs_jobs s (rj_id (rs_store s j)) = Some j \<and> rj_loop (rs_store s j) = L \<and> \<not> rj_running (rs_store s j))
       [0..<rs_made s]"

text \<open>The loop marks a credential; without a job it looks at it again. A full queue gives the job back.\<close>

definition loop_mark :: "refresh_hooks \<Rightarrow> nat \<Rightarrow> string \<Rightarrow> 64 word \<Rightarrow> loop_rest \<Rightarrow> refresh_system \<Rightarrow> refresh_system" where
  "loop_mark h L c epoch rest s0 =
     (let (job, s) = mark_refresh_pending h L c epoch (rl_now (rs_loops s0 L)) s0; l = rs_loops s L
      in set_loop L (l\<lparr>rl_position := (case job of Some j \<Rightarrow> Sending j rest | None \<Rightarrow> Unmarked c rest)\<rparr>) s)"

definition loop_send :: "nat \<Rightarrow> nat \<Rightarrow> loop_rest \<Rightarrow> refresh_system \<Rightarrow> refresh_system" where
  "loop_send L j rest s =
     (let l = rs_loops s L in set_loop L (l\<lparr>rl_jobs := rl_jobs l @ [j], rl_position := Handling rest\<rparr>) s)"

definition loop_give_back :: "nat \<Rightarrow> nat \<Rightarrow> loop_rest \<Rightarrow> instant \<Rightarrow> refresh_system \<Rightarrow> refresh_system" where
  "loop_give_back L j rest now s0 =
     (let l = rs_loops s0 L; retry_at = rl_now l + rl_interval l; s = finish_refresh_job j retry_at False now s0
      in set_loop L (l\<lparr>rl_position := Applying (rj_id (rs_store s0 j)) (Some retry_at) rest\<rparr>) s)"

section \<open>Steps\<close>

definition take_away :: "'a \<Rightarrow> 'a list \<Rightarrow> 'a list" where
  "take_away x xs = remove1 x xs"

inductive refresh_step :: "refresh_hooks \<Rightarrow> refresh_system \<Rightarrow> refresh_event \<Rightarrow> refresh_system \<Rightarrow> bool" for h :: refresh_hooks where
  st_clock: "rs_clock s \<le> now \<Longrightarrow> refresh_step h s Tau (s\<lparr>rs_clock := now\<rparr>)"
| st_update: "refresh_step h s Tau (s\<lparr>rs_auths := AList.update c a (rs_auths s), rs_notices := c # rs_notices s\<rparr>)"
| st_silent: "refresh_step h s (Silent c) (s\<lparr>rs_auths := AList.update c a (rs_auths s)\<rparr>)"
| st_give_up: "refresh_failed h (rs_clock s) e a = (a', Unschedule) \<Longrightarrow> map_of (rs_auths s) c = Some a \<Longrightarrow>
    refresh_step h s (Silent c) (s\<lparr>rs_auths := AList.update c a' (rs_auths s), rs_unschedules := c # rs_unschedules s\<rparr>)"
| st_forget: "refresh_step h s Tau (s\<lparr>rs_auths := AList.delete c (rs_auths s)\<rparr>)"
| st_notify: "c \<in> set (rs_notices s) \<Longrightarrow>
    refresh_step h s Tau (queue_refresh_reschedule c (s\<lparr>rs_notices := take_away c (rs_notices s)\<rparr>))"
| st_unschedule: "c \<in> set (rs_unschedules s) \<Longrightarrow>
    refresh_step h s (Removal c) (queue_refresh_unschedule c (s\<lparr>rs_unschedules := take_away c (rs_unschedules s)\<rparr>))"
| st_stop: "refresh_step h s Tau (s\<lparr>rs_current := None\<rparr>)"
| st_cancel: "refresh_step h s Tau (set_loop L ((rs_loops s L)\<lparr>rl_cancelled := True\<rparr>) s)"
| st_start: "refresh_step h s Tau (set_loop (rs_started s) (new_auto_refresh_loop interval workers)
    (s\<lparr>rs_current := Some (rs_started s), rs_started := rs_started s + 1\<rparr>))"
| st_turn: "L < rs_started s \<Longrightarrow> loop_turn h exec (rs_clock s) (rs_auths s) (rs_loops s L) = Some (ev, l) \<Longrightarrow>
    refresh_step h s ev (set_loop L l s)"
| st_timer: "L < rs_started s \<Longrightarrow> rl_position (rs_loops s L) = Waiting \<Longrightarrow>
    refresh_step h s Tau (set_loop L (on_timer (rs_clock s) (rs_loops s L)) s)"
| st_wake: "L < rs_started s \<Longrightarrow> rl_position (rs_loops s L) = Waiting \<Longrightarrow> rl_wake (rs_loops s L) \<Longrightarrow>
    refresh_step h s Tau (set_loop L (on_wake (rs_clock s) (rs_loops s L)) s)"
| st_mark: "L < rs_started s \<Longrightarrow> rl_position (rs_loops s L) = Marking c epoch rest \<Longrightarrow>
    refresh_step h s Tau (loop_mark h L c epoch rest s)"
| st_send: "L < rs_started s \<Longrightarrow> rl_position (rs_loops s L) = Sending j rest \<Longrightarrow>
    length (rl_jobs (rs_loops s L)) < rl_capacity (rs_loops s L) \<Longrightarrow> refresh_step h s Tau (loop_send L j rest s)"
| st_give_back: "L < rs_started s \<Longrightarrow> rl_position (rs_loops s L) = Sending j rest \<Longrightarrow>
    rl_cancelled (rs_loops s L) \<or> \<not> length (rl_jobs (rs_loops s L)) < rl_capacity (rs_loops s L) \<Longrightarrow>
    refresh_step h s Tau (loop_give_back L j rest (rs_clock s) s)"
| st_end: "L < rs_started s \<Longrightarrow> rl_position (rs_loops s L) = Waiting \<Longrightarrow> rl_cancelled (rs_loops s L) \<Longrightarrow>
    refresh_step h s Tau (set_loop L ((rs_loops s L)\<lparr>rl_position := Releasing (queued_jobs L s)\<rparr>) s)"
| st_release: "L < rs_started s \<Longrightarrow> rl_position (rs_loops s L) = Releasing (j # js) \<Longrightarrow>
    refresh_step h s Tau (set_loop L ((rs_loops s L)\<lparr>rl_position := Releasing js\<rparr>)
      (finish_refresh_job j zero_time True (rs_clock s) s))"
| st_released: "L < rs_started s \<Longrightarrow> rl_position (rs_loops s L) = Releasing [] \<Longrightarrow>
    refresh_step h s Tau (set_loop L ((rs_loops s L)\<lparr>rl_position := Ended\<rparr>) s)"
| st_take: "L < rs_started s \<Longrightarrow> rl_jobs (rs_loops s L) = j # js \<Longrightarrow>
    refresh_step h s Tau (set_loop L ((rs_loops s L)\<lparr>rl_jobs := js\<rparr>) (s\<lparr>rs_workers := (j, Taken) # rs_workers s\<rparr>))"
| st_begin: "(j, Taken) \<in> set (rs_workers s) \<Longrightarrow>
    begin_refresh_job cancelled j (s\<lparr>rs_workers := take_away (j, Taken) (rs_workers s)\<rparr>) = (ok, t) \<Longrightarrow>
    refresh_step h s Tau (t\<lparr>rs_workers := (j, if ok then Running else Leaving) # rs_workers t\<rparr>)"
| st_finish: "(j, st) \<in> set (rs_workers s) \<Longrightarrow> st \<noteq> Taken \<Longrightarrow>
    refresh_step h s Tau (finish_refresh_job j zero_time False (rs_clock s)
      (s\<lparr>rs_workers := take_away (j, st) (rs_workers s)\<rparr>))"

end
