(* ===== verification/Refresh_Runs.thy ===== *)
theory Refresh_Runs
  imports Refresh_Loop
begin

text \<open>
  What every run of the background refresh keeps: timetables that are heaps, credentials that stay in
  view of the current loop, and jobs that are somewhere until they are finished.
\<close>

section \<open>Checks and the clock\<close>

lemma not_before_ge: "now \<le> not_before now t"
  by (simp add: not_before_def)

lemma next_check_ge:
  assumes "next_refresh_check_at h interval now a = Some t"
  shows "now \<le> t"
proof -
  have "now \<le> next_by_interval now e l d" "now \<le> next_by_lead now e l d" for e l d
    by (simp_all add: next_by_interval_def next_by_lead_def not_before_ge split: option.split)
  with assms refreshCheckInterval_pos show ?thesis
    by (auto simp: next_refresh_check_at_def Let_def split: if_splits option.splits)
qed

definition refresh_scheduled :: "refresh_hooks \<Rightarrow> instant \<Rightarrow> refreshable \<Rightarrow> bool" where
  "refresh_scheduled h now a \<longleftrightarrow> next_refresh_check_at h refreshCheckInterval now a \<noteq> None"

lemma refresh_scheduled_check: "next_refresh_check_at h interval now a = None \<longleftrightarrow> \<not> refresh_scheduled h now a"
  by (simp add: refresh_scheduled_def next_refresh_check_at_def Let_def split: option.split)

text \<open>A credential that is not scheduled stays so as time goes by, while it is not changed.\<close>

lemma refresh_scheduled_earlier: "refresh_scheduled h now' a \<Longrightarrow> now \<le> now' \<Longrightarrow> refresh_scheduled h now a"
  by (auto simp: refresh_scheduled_def next_refresh_check_at_def Let_def split: option.splits if_splits)

section \<open>Loops\<close>

definition position_ok :: "instant \<Rightarrow> loop_position \<Rightarrow> bool" where
  "position_ok now p \<longleftrightarrow>
     (case p of
        Unbuilt \<Rightarrow> True | Built es \<Rightarrow> distinct (map fst es) | Waiting \<Rightarrow> True
      | Applying c t rest \<Rightarrow> 0 < now \<and> (case t of Some t \<Rightarrow> 0 < t | None \<Rightarrow> True)
      | Releasing js \<Rightarrow> True | Ended \<Rightarrow> True
      | _ \<Rightarrow> 0 < now)"

definition loop_ok :: "instant \<Rightarrow> refresh_loop \<Rightarrow> bool" where
  "loop_ok T l \<longleftrightarrow> queue_ok (rl_timetable l) \<and> 0 < rl_interval l \<and> rl_now l \<le> T \<and>
     position_ok (rl_now l) (rl_position l)"

definition loops_ok :: "refresh_system \<Rightarrow> bool" where
  "loops_ok s \<longleftrightarrow> 0 < rs_clock s \<and> distinct (map fst (rs_auths s)) \<and> (\<forall>L < rs_started s. loop_ok (rs_clock s) (rs_loops s L))"

lemma set_loop_simps [simp]:
  "rs_auths (set_loop L l s) = rs_auths s" "rs_jobs (set_loop L l s) = rs_jobs s" "rs_store (set_loop L l s) = rs_store s"
  "rs_made (set_loop L l s) = rs_made s" "rs_started (set_loop L l s) = rs_started s"
  "rs_current (set_loop L l s) = rs_current s" "rs_workers (set_loop L l s) = rs_workers s"
  "rs_notices (set_loop L l s) = rs_notices s" "rs_unschedules (set_loop L l s) = rs_unschedules s"
  "rs_clock (set_loop L l s) = rs_clock s" "rs_loops (set_loop L l s) = (rs_loops s)(L := l)"
  by (simp_all add: set_loop_def)

lemma queue_reschedule_ok [simp]: "loop_ok T (queue_reschedule c l) = loop_ok T l"
  by (simp add: queue_reschedule_def loop_ok_def)

lemma loop_remove_ok: "loop_ok T l \<Longrightarrow> loop_ok T (loop_remove c l)"
  by (simp add: loop_remove_def loop_ok_def checks.remove_ok)

lemma new_loop_ok: "0 < T \<Longrightarrow> loop_ok T (new_auto_refresh_loop interval workers)"
  by (simp add: new_auto_refresh_loop_def loop_ok_def position_ok_def empty_queue_ok Let_def refreshCheckInterval_pos zero_time_def)

lemma install_entries_table:
  assumes "distinct (map fst es)"
  shows "queue_ok (install_entries es)" and "dom (table_of (install_entries es)) = fst ` set es"
proof -
  have "queue_ok (fold (\<lambda>(c, t). heap_push c t) es q) \<and> dom (table_of (fold (\<lambda>(c, t). heap_push c t) es q)) = dom (table_of q) \<union> fst ` set es"
    if "queue_ok q" "distinct (map fst es)" "fst ` set es \<inter> dom (table_of q) = {}" for q
    using that
  proof (induction es arbitrary: q)
    case (Cons e es)
    obtain c t where e: "e = (c, t)" by fastforce
    from Cons.prems(3) have "rq_index q c = None" by (auto simp: e table_of_def)
    note push = heap_push_spec [OF Cons.prems(1) this, of t]
    have "fst ` set es \<inter> dom (table_of (heap_push c t q)) = {}"
      using Cons.prems(2,3) push(2) by (auto simp: e)
    from Cons.IH [OF push(1) _ this] Cons.prems(2) push(2) show ?case by (auto simp: e)
  qed simp
  from this [of empty_queue] assms empty_queue_ok
  show "queue_ok (install_entries es)" "dom (table_of (install_entries es)) = fst ` set es"
    by (simp_all add: install_entries_def)
qed

lemma rebuild_loop_entries_simps [simp]:
  "rebuild_loop_entries h i now [] = []"
  "rebuild_loop_entries h i now ((c, a) # auths) =
     (case next_refresh_check_at h i now a of
        None \<Rightarrow> rebuild_loop_entries h i now auths
      | Some t \<Rightarrow> (c, t) # rebuild_loop_entries h i now auths)"
  by (simp_all add: rebuild_loop_entries_def List.map_filter_def split: option.split)

lemma rebuild_loop_entries_fst: "fst ` set (rebuild_loop_entries h i now auths) = {c. \<exists>a. (c, a) \<in> set auths \<and> refresh_scheduled h now a}"
proof (induction auths)
  case (Cons x auths)
  obtain c a where x: "x = (c, a)" by fastforce
  show ?case
  proof (cases "next_refresh_check_at h i now a")
    case None
    then have "\<not> refresh_scheduled h now a" by (simp add: refresh_scheduled_check)
    with Cons None show ?thesis by (auto simp: x)
  next
    case (Some t)
    then have "refresh_scheduled h now a" using refresh_scheduled_check [of h i now a] by simp
    with Cons Some show ?thesis by (auto simp: x)
  qed
qed simp

lemma rebuild_loop_entries_distinct: "distinct (map fst auths) \<Longrightarrow> distinct (map fst (rebuild_loop_entries h i now auths))"
proof (induction auths)
  case (Cons x auths)
  obtain c a where x: "x = (c, a)" by fastforce
  have "fst ` set (rebuild_loop_entries h i now auths) \<subseteq> fst ` set auths"
    unfolding rebuild_loop_entries_fst by force
  with Cons show ?case by (auto simp: x split: option.split)
qed simp

lemma on_timer_ok: "loop_ok T l \<Longrightarrow> 0 < T \<Longrightarrow> loop_ok T (on_timer T l)"
  using checks.due_ok [of "rl_timetable l" T]
  by (simp add: on_timer_def loop_ok_def position_ok_def split: prod.split) (metis snd_conv)

lemma on_wake_ok: "loop_ok T l \<Longrightarrow> 0 < T \<Longrightarrow> loop_ok T (on_wake T l)"
  by (simp add: on_wake_def loop_ok_def position_ok_def)

lemma check_of_positive: "0 < now \<Longrightarrow> check_of h i now a = Some t \<Longrightarrow> 0 < t"
  using next_check_ge by (fastforce simp: check_of_def split: option.splits)

lemma unmarked_check_positive: "0 < now \<Longrightarrow> 0 < i \<Longrightarrow> unmarked_check h i now a = Some t \<Longrightarrow> 0 < t"
  using check_of_positive by (auto simp: unmarked_check_def split: if_splits)

lemma due_action_positive: "0 < now \<Longrightarrow> 0 < i \<Longrightarrow> due_action_of h i now exec a = Put t \<Longrightarrow> 0 < t"
  using next_check_ge by (fastforce simp: due_action_of_def split: option.splits if_splits)

lemma loop_turn_ok:
  assumes "loop_turn h exec T auths l = Some (ev, l')" and "loop_ok T l" and "distinct (map fst auths)"
  shows "loop_ok T l'"
proof (cases "rl_position l")
  case Unbuilt
  with assms show ?thesis by (auto simp: loop_turn_def loop_ok_def position_ok_def rebuild_loop_entries_distinct)
next
  case (Built es)
  with assms show ?thesis by (auto simp: loop_turn_def loop_ok_def position_ok_def install_entries_table)
next
  case (Handling rest)
  then have now: "0 < rl_now l" "0 < rl_interval l" using assms(2) by (simp_all add: loop_ok_def position_ok_def)
  show ?thesis
  proof (cases rest)
    case (Due_first cs)
    show ?thesis
    proof (cases cs)
      case (Cons c cs')
      with assms Handling Due_first now due_action_positive [OF now]
      show ?thesis by (auto simp: loop_turn_def loop_ok_def position_ok_def split: option.splits due_action.splits)
    qed (use assms Handling Due_first in \<open>auto simp: loop_turn_def loop_ok_def position_ok_def\<close>)
  next
    case (Dirty_last cs)
    show ?thesis
    proof (cases cs)
      case (Cons c cs')
      with assms Handling Dirty_last now check_of_positive [OF now(1)]
      show ?thesis by (auto simp: loop_turn_def loop_ok_def position_ok_def split: option.splits)
    qed (use assms Handling Dirty_last in \<open>auto simp: loop_turn_def loop_ok_def position_ok_def\<close>)
  qed
next
  case (Applying c t rest)
  show ?thesis
  proof (cases t)
    case None
    with Applying assms(1) have "l' = (loop_remove c l)\<lparr>rl_position := Handling rest\<rparr>" by (simp add: loop_turn_def)
    with Applying assms(2) show ?thesis by (simp add: loop_remove_def loop_ok_def position_ok_def checks.remove_ok)
  next
    case (Some u)
    with Applying assms show ?thesis by (auto simp: loop_turn_def loop_upsert_def loop_ok_def position_ok_def checks.upsert_ok)
  qed
next
  case (Unmarked c rest)
  then have now: "0 < rl_now l" "0 < rl_interval l" using assms(2) by (simp_all add: loop_ok_def position_ok_def)
  with Unmarked assms unmarked_check_positive [OF now]
  show ?thesis by (auto simp: loop_turn_def loop_ok_def position_ok_def split: option.splits)
qed (use assms in \<open>auto simp: loop_turn_def loop_ok_def position_ok_def\<close>)

lemma finish_refresh_job_simps [simp]:
  "rs_loops (finish_refresh_job j t q now s) = rs_loops s" "rs_started (finish_refresh_job j t q now s) = rs_started s"
  "rs_current (finish_refresh_job j t q now s) = rs_current s" "rs_clock (finish_refresh_job j t q now s) = rs_clock s"
  "rs_workers (finish_refresh_job j t q now s) = rs_workers s" "rs_store (finish_refresh_job j t q now s) = rs_store s"
  "rs_made (finish_refresh_job j t q now s) = rs_made s"
  by (simp_all add: finish_refresh_job_def Let_def)

lemma begin_refresh_job_simps [simp]:
  "rs_loops (snd (begin_refresh_job b j s)) = rs_loops s" "rs_started (snd (begin_refresh_job b j s)) = rs_started s"
  "rs_current (snd (begin_refresh_job b j s)) = rs_current s" "rs_clock (snd (begin_refresh_job b j s)) = rs_clock s"
  "rs_workers (snd (begin_refresh_job b j s)) = rs_workers s" "rs_auths (snd (begin_refresh_job b j s)) = rs_auths s"
  "rs_notices (snd (begin_refresh_job b j s)) = rs_notices s" "rs_jobs (snd (begin_refresh_job b j s)) = rs_jobs s"
  "rs_made (snd (begin_refresh_job b j s)) = rs_made s"
  by (simp_all add: begin_refresh_job_def Let_def split: option.split)

lemma mark_refresh_pending_simps [simp]:
  "rs_loops (snd (mark_refresh_pending h L c e now s)) = rs_loops s"
  "rs_started (snd (mark_refresh_pending h L c e now s)) = rs_started s"
  "rs_current (snd (mark_refresh_pending h L c e now s)) = rs_current s"
  "rs_clock (snd (mark_refresh_pending h L c e now s)) = rs_clock s"
  "rs_workers (snd (mark_refresh_pending h L c e now s)) = rs_workers s"
  by (simp_all add: mark_refresh_pending_def Let_def split: option.split)

lemma loop_mark_eq:
  "loop_mark h L c e rest s =
     (let M = mark_refresh_pending h L c e (rl_now (rs_loops s L)) s in
      set_loop L ((rs_loops s L)\<lparr>rl_position := (case fst M of Some j \<Rightarrow> Sending j rest | None \<Rightarrow> Unmarked c rest)\<rparr>) (snd M))"
proof (cases "mark_refresh_pending h L c e (rl_now (rs_loops s L)) s")
  case (Pair j t)
  then have "rs_loops t = rs_loops s" using mark_refresh_pending_simps(1) [of h L c e _ s] by (metis snd_conv)
  with Pair show ?thesis by (simp add: loop_mark_def Let_def)
qed

lemma unmarked_auths_distinct: "distinct (map fst xs) \<Longrightarrow> distinct (map fst (unmarked_auths job t now xs))"
  by (simp add: unmarked_auths_def distinct_update split: option.split)

lemma finish_distinct: "distinct (map fst (rs_auths s)) \<Longrightarrow> distinct (map fst (rs_auths (finish_refresh_job j t q now s)))"
  by (simp add: finish_refresh_job_def Let_def unmarked_auths_distinct)

lemma mark_distinct: "distinct (map fst (rs_auths s)) \<Longrightarrow> distinct (map fst (rs_auths (snd (mark_refresh_pending h L c e now s))))"
  by (simp add: mark_refresh_pending_def Let_def distinct_update split: option.split)

lemma loops_ok_step: "refresh_step h s ev t \<Longrightarrow> loops_ok s \<Longrightarrow> loops_ok t"
proof (induction rule: refresh_step.induct)
  case (st_clock s now)
  then show ?case by (auto simp: loops_ok_def loop_ok_def)
next
  case (st_turn L s exec ev l)
  then show ?case using loop_turn_ok [OF st_turn(2)] by (simp add: loops_ok_def)
next
  case (st_timer L s)
  then show ?case by (simp add: loops_ok_def on_timer_ok)
next
  case (st_wake L s)
  then show ?case by (simp add: loops_ok_def on_wake_ok)
next
  case (st_start s interval workers)
  then show ?case by (auto simp: loops_ok_def new_loop_ok less_Suc_eq)
next
  case (st_notify c s)
  then show ?case by (auto simp: loops_ok_def queue_refresh_reschedule_def split: option.split)
next
  case (st_unschedule c s)
  then show ?case by (auto simp: loops_ok_def queue_refresh_unschedule_def loop_remove_ok split: option.split)
next
  case (st_mark L s c epoch rest)
  then show ?case
    by (auto simp: loops_ok_def loop_mark_eq Let_def mark_distinct loop_ok_def position_ok_def split: option.split)
next
  case (st_cancel s L)
  then show ?case by (simp add: loops_ok_def loop_ok_def)
next
  case (st_take L s j js)
  then show ?case by (simp add: loops_ok_def loop_ok_def)
next
  case (st_send L s j rest)
  then show ?case by (auto simp: loops_ok_def loop_send_def Let_def loop_ok_def position_ok_def)
next
  case (st_give_back L s j rest)
  then show ?case
    by (auto simp: loops_ok_def loop_give_back_def Let_def loop_ok_def position_ok_def finish_distinct)
next
  case (st_begin j s cancelled ok t)
  then have "t = snd (begin_refresh_job cancelled j (s\<lparr>rs_workers := take_away (j, Taken) (rs_workers s)\<rparr>))" by simp
  with st_begin show ?case by (simp add: loops_ok_def)
qed (auto simp: loops_ok_def loop_ok_def position_ok_def distinct_update distinct_delete finish_distinct)

interpretation refresh_loops: invariant_system "refresh_step h" loops_ok for h
  by unfold_locales (rule loops_ok_step)

section \<open>Credentials stay in view\<close>

fun rest_ids :: "loop_rest \<Rightarrow> string set" where
  "rest_ids (Due_first cs) = set cs"
| "rest_ids (Dirty_last cs) = set cs"

fun pending_ids :: "loop_position \<Rightarrow> string set" where
  "pending_ids (Built es) = fst ` set es"
| "pending_ids (Handling rest) = rest_ids rest"
| "pending_ids (Applying c t rest) = insert c (rest_ids rest)"
| "pending_ids (Marking c e rest) = insert c (rest_ids rest)"
| "pending_ids (Unmarked c rest) = insert c (rest_ids rest)"
| "pending_ids (Sending j rest) = rest_ids rest"
| "pending_ids _ = {}"

text \<open>The loop has the credential in its timetable, once that is built, among the changed ones, or in its hands.\<close>

fun unbuilt :: "loop_position \<Rightarrow> bool" where
  "unbuilt Unbuilt = True"
| "unbuilt (Built es) = True"
| "unbuilt _ = False"

definition minded :: "refresh_loop \<Rightarrow> string \<Rightarrow> bool" where
  "minded l c \<longleftrightarrow>
     rl_position l = Unbuilt \<or> \<not> unbuilt (rl_position l) \<and> c \<in> dom (table_of (rl_timetable l)) \<or> c \<in> set (rl_dirty l) \<or> c \<in> pending_ids (rl_position l)"

definition wants_refresh :: "refresh_hooks \<Rightarrow> refresh_system \<Rightarrow> string \<Rightarrow> bool" where
  "wants_refresh h s c \<longleftrightarrow>
     c \<noteq> [] \<and> (case map_of (rs_auths s) c of None \<Rightarrow> False | Some a \<Rightarrow> refresh_scheduled h (rs_clock s) a)"

definition in_view :: "refresh_hooks \<Rightarrow> refresh_system \<Rightarrow> bool" where
  "in_view h s \<longleftrightarrow>
     (\<forall>L. rs_current s = Some L \<longrightarrow> L < rs_started s \<and>
        (\<not> rl_cancelled (rs_loops s L) \<longrightarrow>
           (\<forall>c. wants_refresh h s c \<longrightarrow> c \<in> set (rs_notices s) \<or> minded (rs_loops s L) c)))"

text \<open>Steps that take a credential out of view: a removal that was decided before the credential changed,
  and a change that is not announced and makes the credential one to be refreshed.\<close>

fun disturbs :: "refresh_hooks \<Rightarrow> refresh_system \<Rightarrow> refresh_event \<Rightarrow> refresh_system \<Rightarrow> bool" where
  "disturbs h s (Removal c) t = wants_refresh h s c"
| "disturbs h s (Silent c) t = (wants_refresh h t c \<and> \<not> wants_refresh h s c)"
| "disturbs h s Tau t = False"

lemma loop_turn_event: "loop_turn h exec now auths l = Some (Silent c, l') \<Longrightarrow> False"
  by (auto simp: loop_turn_def split: loop_position.splits loop_rest.splits list.splits option.splits)

lemma loop_turn_cancelled: "loop_turn h exec now auths l = Some (ev, l') \<Longrightarrow> rl_cancelled l' = rl_cancelled l"
  by (auto simp: loop_turn_def loop_remove_def loop_upsert_def
      split: loop_position.splits loop_rest.splits list.splits option.splits if_splits)

lemma minded_remove: "queue_ok (rl_timetable l) \<Longrightarrow> d \<noteq> c \<Longrightarrow> minded l d \<Longrightarrow> minded (loop_remove c l) d"
  by (auto simp: minded_def loop_remove_def checks.remove_table domIff)

lemma minded_reschedule: "minded l d \<Longrightarrow> minded (queue_reschedule c l) d"
  by (auto simp: minded_def queue_reschedule_def)

lemma loop_turn_minded:
  assumes turn: "loop_turn h exec T auths l = Some (ev, l')" and ok: "loop_ok T l" and d: "distinct (map fst auths)"
    and m: "minded l c" and w: "c \<noteq> []" "map_of auths c = Some a" "refresh_scheduled h T a" and ev: "ev \<noteq> Removal c"
  shows "minded l' c"
proof (cases "rl_position l")
  case Unbuilt
  then have "l' = l\<lparr>rl_position := Built (rebuild_loop_entries h (rl_interval l) T auths)\<rparr>" using turn by (simp add: loop_turn_def)
  moreover have "c \<in> fst ` set (rebuild_loop_entries h (rl_interval l) T auths)"
    unfolding rebuild_loop_entries_fst using w map_of_SomeD [OF w(2)] by blast
  ultimately show ?thesis by (simp add: minded_def)
next
  case (Built es)
  then have es: "distinct (map fst es)" using ok by (simp add: loop_ok_def position_ok_def)
  have "l' = l\<lparr>rl_timetable := install_entries es, rl_position := Waiting\<rparr>" using turn Built by (simp add: loop_turn_def)
  with m Built install_entries_table(2) [OF es] show ?thesis by (auto simp: minded_def)
next
  case (Handling rest)
  show ?thesis
  proof (cases rest)
    case (Due_first cs)
    show ?thesis
    proof (cases cs)
      case Nil
      with turn Handling Due_first m show ?thesis by (auto simp: loop_turn_def minded_def)
    next
      case (Cons b cs')
      show ?thesis
      proof (cases "if b = [] then None else map_of auths b")
        case None
        then have "b \<noteq> c" using w by auto
        with None turn Handling Due_first Cons m show ?thesis by (auto simp: loop_turn_def minded_def)
      next
        case (Some x)
        with turn Handling Due_first Cons m show ?thesis
          by (auto simp: loop_turn_def minded_def split: due_action.splits)
      qed
    qed
  next
    case (Dirty_last cs)
    with turn Handling m show ?thesis by (cases cs) (auto simp: loop_turn_def minded_def)
  qed
next
  case (Applying b t rest)
  have q: "queue_ok (rl_timetable l)" using ok by (simp add: loop_ok_def)
  show ?thesis
  proof (cases t)
    case None
    with turn Applying have l': "l' = (loop_remove b l)\<lparr>rl_position := Handling rest\<rparr>" "ev = Removal b"
      by (simp_all add: loop_turn_def)
    with ev have "c \<noteq> b" by simp
    with m q Applying show ?thesis
      by (auto simp: l'(1) minded_def loop_remove_def checks.remove_table domIff)
  next
    case (Some u)
    with turn Applying have l': "l' = (loop_upsert b u l)\<lparr>rl_position := Handling rest\<rparr>" by (simp add: loop_turn_def)
    have "0 < u" using ok Applying Some by (simp add: loop_ok_def position_ok_def)
    then have "c \<in> dom (table_of (queue_upsert b u (rl_timetable l)))" if "c = b \<or> c \<in> dom (table_of (rl_timetable l))"
      using that w(1) checks.upsert_mem [OF q, of c u] checks.upsert_dom [OF q, of b u] by (auto simp: zero_time_def)
    with m Applying show ?thesis by (auto simp: l' minded_def loop_upsert_def)
  qed
qed (use turn m in \<open>auto simp: loop_turn_def minded_def\<close>)

lemma wants_refresh_cong:
  "map_of (rs_auths t) c = map_of (rs_auths s) c \<Longrightarrow> rs_clock t = rs_clock s \<Longrightarrow> wants_refresh h t c = wants_refresh h s c"
  by (simp add: wants_refresh_def cong: option.case_cong)

text \<open>It is enough to look at what a step does to the credentials, the notices and the current loop.\<close>

lemma in_view_keep:
  assumes "in_view h s" and "rs_current t = rs_current s" and "rs_started s \<le> rs_started t"
    and "\<And>L. rl_cancelled (rs_loops s L) \<Longrightarrow> rl_cancelled (rs_loops t L)"
    and "\<And>L c. rs_current s = Some L \<Longrightarrow> L < rs_started s \<Longrightarrow> \<not> rl_cancelled (rs_loops s L) \<Longrightarrow> wants_refresh h t c \<Longrightarrow>
      c \<notin> set (rs_notices t) \<Longrightarrow> wants_refresh h s c"
    and "\<And>L c. rs_current s = Some L \<Longrightarrow> L < rs_started s \<Longrightarrow> \<not> rl_cancelled (rs_loops s L) \<Longrightarrow> wants_refresh h s c \<Longrightarrow>
      wants_refresh h t c \<Longrightarrow>
      c \<in> set (rs_notices s) \<or> minded (rs_loops s L) c \<Longrightarrow> c \<in> set (rs_notices t) \<or> minded (rs_loops t L) c"
  shows "in_view h t"
  unfolding in_view_def
proof (intro allI impI conjI)
  fix L assume cur: "rs_current t = Some L"
  then have L: "rs_current s = Some L" "L < rs_started s" using assms(1,2) by (simp_all add: in_view_def)
  then show "L < rs_started t" using assms(3) by simp
  fix c assume live: "\<not> rl_cancelled (rs_loops t L)" and w: "wants_refresh h t c"
  have ls: "\<not> rl_cancelled (rs_loops s L)" using live assms(4) by blast
  show "c \<in> set (rs_notices t) \<or> minded (rs_loops t L) c"
  proof (cases "c \<in> set (rs_notices t)")
    case False
    from assms(5) [OF L ls w False] have ws: "wants_refresh h s c" .
    with assms(1) L ls have "c \<in> set (rs_notices s) \<or> minded (rs_loops s L) c" by (simp add: in_view_def)
    from assms(6) [OF L ls ws w this] show ?thesis .
  qed simp
qed

lemma finish_effect:
  "(\<forall>c. c \<in> set (rs_notices s) \<longrightarrow> c \<in> set (rs_notices (finish_refresh_job j t q now s))) \<and>
   (\<forall>c. c \<notin> set (rs_notices (finish_refresh_job j t q now s)) \<longrightarrow>
      map_of (rs_auths (finish_refresh_job j t q now s)) c = map_of (rs_auths s) c)"
  by (auto simp: finish_refresh_job_def Let_def unmarked_auths_def update_conv' split: option.split)

lemma mark_effect:
  "(\<forall>d. d \<in> set (rs_notices s) \<longrightarrow> d \<in> set (rs_notices (snd (mark_refresh_pending h L c e now s)))) \<and>
   (\<forall>d. d \<notin> set (rs_notices (snd (mark_refresh_pending h L c e now s))) \<longrightarrow>
      map_of (rs_auths (snd (mark_refresh_pending h L c e now s))) d = map_of (rs_auths s) d) \<and>
   (fst (mark_refresh_pending h L c e now s) \<noteq> None \<longrightarrow> c \<in> set (rs_notices (snd (mark_refresh_pending h L c e now s))))"
  by (auto simp: mark_refresh_pending_def Let_def update_conv' split: option.split)

lemma in_view_finish:
  assumes "in_view h s" and "rs_auths t = rs_auths (finish_refresh_job j u q now s)"
    and "rs_notices t = rs_notices (finish_refresh_job j u q now s)"
    and "rs_current t = rs_current s" "rs_started t = rs_started s" "rs_clock t = rs_clock s"
    and "\<And>L. rl_cancelled (rs_loops t L) = rl_cancelled (rs_loops s L)"
    and "\<And>L c. minded (rs_loops s L) c \<Longrightarrow> minded (rs_loops t L) c"
  shows "in_view h t"
proof (rule in_view_keep [OF assms(1,4)])
  fix L c
  note fe = finish_effect [of s j u q now]
  { assume "wants_refresh h t c" "c \<notin> set (rs_notices t)"
    with fe show "wants_refresh h s c" using wants_refresh_cong [of t c s h] assms(2,3,6) by simp }
  { assume "c \<in> set (rs_notices s) \<or> minded (rs_loops s L) c"
    with fe assms(3,8) show "c \<in> set (rs_notices t) \<or> minded (rs_loops t L) c" by auto }
qed (use assms(5,7) in simp_all)

lemma in_view_same:
  assumes "in_view h s" and "rs_auths t = rs_auths s" and "rs_notices t = rs_notices s" and "rs_current t = rs_current s"
    and "rs_started t = rs_started s" and "rs_clock t = rs_clock s"
    and "\<And>L. rl_cancelled (rs_loops s L) \<Longrightarrow> rl_cancelled (rs_loops t L)"
    and "\<And>L c. L < rs_started s \<Longrightarrow> wants_refresh h s c \<Longrightarrow> minded (rs_loops s L) c \<Longrightarrow> minded (rs_loops t L) c"
  shows "in_view h t"
proof (rule in_view_keep [OF assms(1,4)])
  fix L c assume "wants_refresh h t c"
  then show "wants_refresh h s c" using wants_refresh_cong [of t c s h] assms(2,6) by simp
next
  fix L c assume "L < rs_started s" "wants_refresh h s c" "c \<in> set (rs_notices s) \<or> minded (rs_loops s L) c"
  then show "c \<in> set (rs_notices t) \<or> minded (rs_loops t L) c" using assms(3,8) by auto
qed (use assms(5,7) in simp_all)

lemma in_view_step:
  "refresh_step h s ev t \<Longrightarrow> loops_ok s \<Longrightarrow> in_view h s \<Longrightarrow> \<not> disturbs h s ev t \<Longrightarrow> in_view h t"
proof (induction rule: refresh_step.induct)
  case (st_clock s now)
  show ?case
  proof (rule in_view_keep [OF st_clock(3)])
    fix L c assume "wants_refresh h (s\<lparr>rs_clock := now\<rparr>) c"
    then show "wants_refresh h s c"
      using refresh_scheduled_earlier [OF _ st_clock(1)] by (simp add: wants_refresh_def split: option.splits)
  qed simp_all
next
  case (st_update s c a)
  show ?case
  proof (rule in_view_keep [OF st_update(2)])
    let ?t = "s\<lparr>rs_auths := AList.update c a (rs_auths s), rs_notices := c # rs_notices s\<rparr>"
    fix L d assume d: "wants_refresh h ?t d" "d \<notin> set (rs_notices ?t)"
    then have "map_of (rs_auths ?t) d = map_of (rs_auths s) d" by (simp add: update_conv')
    from wants_refresh_cong [OF this, of h] d(1) show "wants_refresh h s d" by simp
  qed auto
next
  case (st_silent s c a)
  let ?t = "s\<lparr>rs_auths := AList.update c a (rs_auths s)\<rparr>"
  show ?case
  proof (rule in_view_keep [OF st_silent(2)])
    fix L d assume d: "wants_refresh h ?t d"
    show "wants_refresh h s d"
    proof (cases "d = c")
      case True
      with d st_silent(3) show ?thesis by simp
    next
      case False
      then have "map_of (rs_auths ?t) d = map_of (rs_auths s) d" by (simp add: update_conv')
      from wants_refresh_cong [OF this, of h] d show ?thesis by simp
    qed
  qed simp_all
next
  case (st_give_up s e a a' c)
  let ?t = "s\<lparr>rs_auths := AList.update c a' (rs_auths s), rs_unschedules := c # rs_unschedules s\<rparr>"
  show ?case
  proof (rule in_view_keep [OF st_give_up(4)])
    fix L d assume d: "wants_refresh h ?t d"
    show "wants_refresh h s d"
    proof (cases "d = c")
      case True
      with d st_give_up(5) show ?thesis by simp
    next
      case False
      then have "map_of (rs_auths ?t) d = map_of (rs_auths s) d" by (simp add: update_conv')
      from wants_refresh_cong [OF this, of h] d show ?thesis by simp
    qed
  qed simp_all
next
  case (st_forget s c)
  show ?case
  proof (rule in_view_keep [OF st_forget(2)])
    fix L d assume d: "wants_refresh h (s\<lparr>rs_auths := AList.delete c (rs_auths s)\<rparr>) d"
    then show "wants_refresh h s d" by (auto simp: wants_refresh_def delete_conv' split: if_splits option.splits)
  qed simp_all
next
  case (st_notify c s)
  show ?case
  proof (cases "rs_current s")
    case None
    then show ?thesis by (simp add: in_view_def queue_refresh_reschedule_def)
  next
    case (Some L)
    let ?s = "s\<lparr>rs_notices := take_away c (rs_notices s)\<rparr>"
    have t: "queue_refresh_reschedule c ?s = set_loop L (queue_reschedule c (rs_loops s L)) ?s"
      using Some by (simp add: queue_refresh_reschedule_def)
    show ?thesis unfolding t
    proof (rule in_view_keep [OF st_notify(3)])
      fix M d assume M: "rs_current s = Some M" and w: "wants_refresh h s d"
        and v: "d \<in> set (rs_notices s) \<or> minded (rs_loops s M) d"
      have "d \<in> set (take_away c (rs_notices s)) \<or> minded (queue_reschedule c (rs_loops s L)) d"
        using v w Some M minded_reschedule
        by (cases "d = c") (auto simp: take_away_def minded_def queue_reschedule_def wants_refresh_def)
      with Some M show "d \<in> set (rs_notices (set_loop L (queue_reschedule c (rs_loops s L)) ?s)) \<or>
          minded (rs_loops (set_loop L (queue_reschedule c (rs_loops s L)) ?s) M) d" by simp
    next
      fix M d assume "wants_refresh h (set_loop L (queue_reschedule c (rs_loops s L)) ?s) d"
      then show "wants_refresh h s d" by (simp add: wants_refresh_def cong: option.case_cong)
    qed (auto simp: queue_reschedule_def)
  qed
next
  case (st_unschedule c s)
  show ?case
  proof (cases "rs_current s")
    case None
    then show ?thesis by (simp add: in_view_def queue_refresh_unschedule_def)
  next
    case (Some L)
    let ?s = "s\<lparr>rs_unschedules := take_away c (rs_unschedules s)\<rparr>"
    have t: "queue_refresh_unschedule c ?s = set_loop L (loop_remove c (rs_loops s L)) ?s"
      using Some by (simp add: queue_refresh_unschedule_def)
    have L: "L < rs_started s" using st_unschedule(3) Some by (simp add: in_view_def)
    then have q: "queue_ok (rl_timetable (rs_loops s L))" using st_unschedule(2) by (simp add: loops_ok_def loop_ok_def)
    show ?thesis unfolding t
    proof (rule in_view_same [OF st_unschedule(3)])
      fix M d assume "wants_refresh h s d" "minded (rs_loops s M) d"
      then show "minded (rs_loops (set_loop L (loop_remove c (rs_loops s L)) ?s) M) d"
        using minded_remove [OF q] st_unschedule(4) by (cases "d = c") auto
    qed (auto simp: loop_remove_def)
  qed
next
  case (st_stop s)
  then show ?case by (simp add: in_view_def)
next
  case (st_cancel s L)
  show ?case by (rule in_view_same [OF st_cancel(2)]) (auto simp: minded_def)
next
  case (st_start s interval workers)
  then show ?case by (simp add: in_view_def minded_def new_auto_refresh_loop_def Let_def)
next
  case (st_turn L s exec ev l)
  have ok: "loop_ok (rs_clock s) (rs_loops s L)" "distinct (map fst (rs_auths s))"
    using st_turn by (simp_all add: loops_ok_def)
  show ?case
  proof (rule in_view_same [OF st_turn(4)])
    fix M c assume w: "wants_refresh h s c" and m: "minded (rs_loops s M) c"
    obtain a where a: "c \<noteq> []" "map_of (rs_auths s) c = Some a" "refresh_scheduled h (rs_clock s) a"
      using w by (auto simp: wants_refresh_def split: option.splits)
    have "ev \<noteq> Removal c" using st_turn(5) w by auto
    with loop_turn_minded [OF st_turn(2) ok _ a] m show "minded (rs_loops (set_loop L l s) M) c" by auto
  next
    fix M assume "rl_cancelled (rs_loops s M)"
    with loop_turn_cancelled [OF st_turn(2)] show "rl_cancelled (rs_loops (set_loop L l s) M)" by auto
  qed simp_all
next
  case (st_timer L s)
  have q: "queue_ok (rl_timetable (rs_loops s L))" using st_timer by (simp add: loops_ok_def loop_ok_def)
  have "minded (on_timer (rs_clock s) (rs_loops s L)) c" if "minded (rs_loops s L) c" for c
    using that st_timer(2) checks.due_split [OF q, of "rs_clock s"]
    by (cases "pop_due (rs_clock s) (rl_timetable (rs_loops s L))") (auto simp: minded_def on_timer_def)
  moreover have "rl_cancelled (on_timer (rs_clock s) (rs_loops s L)) = rl_cancelled (rs_loops s L)"
    by (simp add: on_timer_def split: prod.split)
  ultimately show ?case by (intro in_view_same [OF st_timer(4)]) auto
next
  case (st_wake L s)
  show ?case by (rule in_view_same [OF st_wake(5)]) (use st_wake(2) in \<open>auto simp: minded_def on_wake_def\<close>)
next
  case (st_mark L s c epoch rest)
  let ?M = "mark_refresh_pending h L c epoch (rl_now (rs_loops s L)) s"
  note me = mark_effect [of s h L c epoch "rl_now (rs_loops s L)"]
  show ?case unfolding loop_mark_eq Let_def
  proof (rule in_view_keep [OF st_mark(4)])
    let ?t = "set_loop L (rs_loops s L\<lparr>rl_position := case fst ?M of None \<Rightarrow> Unmarked c rest | Some j \<Rightarrow> Sending j rest\<rparr>) (snd ?M)"
    { fix N d assume "wants_refresh h ?t d" "d \<notin> set (rs_notices ?t)"
      with me show "wants_refresh h s d" using wants_refresh_cong [of ?t d s h] by simp }
    fix N d assume "d \<in> set (rs_notices s) \<or> minded (rs_loops s N) d"
    with me st_mark(2) show "d \<in> set (rs_notices ?t) \<or> minded (rs_loops ?t N) d"
      by (cases "fst ?M") (auto simp: minded_def)
  qed auto
next
  case (st_send L s j rest)
  show ?case by (rule in_view_same [OF st_send(5)]) (use st_send(2) in \<open>auto simp: minded_def loop_send_def Let_def\<close>)
next
  case (st_give_back L s j rest)
  show ?case
    by (rule in_view_finish [OF st_give_back(5)])
      (use st_give_back(2) in \<open>auto simp: minded_def loop_give_back_def Let_def\<close>)
next
  case (st_end L s)
  show ?case by (rule in_view_same [OF st_end(5)]) (use st_end(2) in \<open>auto simp: minded_def\<close>)
next
  case (st_release L s j js)
  show ?case by (rule in_view_finish [OF st_release(4)]) (use st_release(2) in \<open>auto simp: minded_def\<close>)
next
  case (st_released L s)
  show ?case by (rule in_view_same [OF st_released(4)]) (use st_released(2) in \<open>auto simp: minded_def\<close>)
next
  case (st_take L s j js)
  show ?case by (rule in_view_same [OF st_take(4)]) (auto simp: minded_def)
next
  case (st_begin j s cancelled ok t)
  then have "t = snd (begin_refresh_job cancelled j (s\<lparr>rs_workers := take_away (j, Taken) (rs_workers s)\<rparr>))" by simp
  then show ?case by (intro in_view_same [OF st_begin(4)]) simp_all
next
  case (st_finish j st s)
  have "in_view h (s\<lparr>rs_workers := take_away (j, st) (rs_workers s)\<rparr>)"
    by (rule in_view_same [OF st_finish(4)]) simp_all
  then show ?case by (rule in_view_finish) simp_all
qed

definition undisturbed_step :: "refresh_hooks \<Rightarrow> refresh_system \<Rightarrow> refresh_event \<Rightarrow> refresh_system \<Rightarrow> bool" where
  "undisturbed_step h s ev t \<longleftrightarrow> refresh_step h s ev t \<and> \<not> disturbs h s ev t"

interpretation refresh_view: invariant_system "undisturbed_step h" "\<lambda>s. loops_ok s \<and> in_view h s" for h
  by unfold_locales (auto simp: undisturbed_step_def intro: loops_ok_step in_view_step)

end
