(* ===== verification/Refresh_Jobs.thy ===== *)
theory Refresh_Jobs
  imports Refresh_Runs
begin

text \<open>
  The jobs of the background refresh along every run: a job is in one place, only one worker runs a
  job of a credential, and a credential that is marked as pending has its job somewhere. Then the
  properties of the refresh and their witnesses.
\<close>

section \<open>Where jobs are\<close>

definition sending :: "refresh_loop \<Rightarrow> nat \<Rightarrow> bool" where
  "sending l j \<longleftrightarrow> (\<exists>rest. rl_position l = Sending j rest)"

fun closing :: "loop_position \<Rightarrow> bool" where
  "closing (Releasing js) = True"
| "closing Ended = True"
| "closing _ = False"

fun to_release :: "loop_position \<Rightarrow> nat set" where
  "to_release (Releasing js) = set js"
| "to_release _ = {}"

abbreviation held :: "refresh_system \<Rightarrow> nat set" where
  "held s \<equiv> fst ` set (rs_workers s)"

definition jobs_named :: "refresh_system \<Rightarrow> bool" where
  "jobs_named s \<longleftrightarrow>
     (\<forall>c j. rs_jobs s c = Some j \<longrightarrow> j < rs_made s \<and> rj_id (rs_store s j) = c) \<and>
     (\<forall>j < rs_made s. rj_loop (rs_store s j) < rs_started s)"

definition jobs_placed :: "refresh_system \<Rightarrow> bool" where
  "jobs_placed s \<longleftrightarrow>
     (\<forall>L < rs_started s. distinct (rl_jobs (rs_loops s L)) \<and>
        (\<forall>j \<in> set (rl_jobs (rs_loops s L)).
           j < rs_made s \<and> rj_loop (rs_store s j) = L \<and> \<not> sending (rs_loops s L) j \<and> j \<notin> held s) \<and>
        (\<forall>j. sending (rs_loops s L) j \<longrightarrow> j < rs_made s \<and> rj_loop (rs_store s j) = L \<and> j \<notin> held s)) \<and>
     distinct (map fst (rs_workers s)) \<and> (\<forall>j \<in> held s. j < rs_made s)"

definition jobs_running :: "refresh_system \<Rightarrow> bool" where
  "jobs_running s \<longleftrightarrow>
     (\<forall>j. (j, Running) \<in> set (rs_workers s) \<longrightarrow> rs_jobs s (rj_id (rs_store s j)) = Some j \<and> rj_running (rs_store s j)) \<and>
     (\<forall>j. rs_jobs s (rj_id (rs_store s j)) = Some j \<and> rj_running (rs_store s j) \<longrightarrow> (j, Running) \<in> set (rs_workers s))"

definition accounted :: "refresh_system \<Rightarrow> nat \<Rightarrow> bool" where
  "accounted s j \<longleftrightarrow>
     (let l = rs_loops s (rj_loop (rs_store s j)) in
      sending l j \<or> j \<in> set (rl_jobs l) \<and> \<not> closing (rl_position l) \<or> j \<in> to_release (rl_position l) \<or> j \<in> held s)"

definition jobs_accounted :: "refresh_system \<Rightarrow> bool" where
  "jobs_accounted s \<longleftrightarrow> (\<forall>c j. rs_jobs s c = Some j \<longrightarrow> accounted s j)"

lemma loop_turn_jobs:
  "loop_turn h exec now auths l = Some (ev, l') \<Longrightarrow>
   rl_jobs l' = rl_jobs l \<and> \<not> sending l j \<and> \<not> sending l' j \<and> \<not> closing (rl_position l) \<and> \<not> closing (rl_position l') \<and>
   to_release (rl_position l) = {} \<and> to_release (rl_position l') = {}"
  by (auto simp: loop_turn_def loop_remove_def loop_upsert_def sending_def
      split: loop_position.splits loop_rest.splits list.splits option.splits if_splits due_action.splits)

lemma on_timer_simps [simp]:
  "rl_jobs (on_timer now l) = rl_jobs l" "sending (on_timer now l) j = False" "closing (rl_position (on_timer now l)) = False"
  by (simp_all add: on_timer_def sending_def split: prod.split)

lemma on_wake_simps [simp]:
  "rl_jobs (on_wake now l) = rl_jobs l" "sending (on_wake now l) j = False" "closing (rl_position (on_wake now l)) = False"
  by (simp_all add: on_wake_def sending_def)

lemma queue_reschedule_simps [simp]:
  "rl_jobs (queue_reschedule c l) = rl_jobs l" "rl_position (queue_reschedule c l) = rl_position l"
  by (simp_all add: queue_reschedule_def)

lemma loop_remove_simps [simp]: "rl_jobs (loop_remove c l) = rl_jobs l" "rl_position (loop_remove c l) = rl_position l"
  by (simp_all add: loop_remove_def)

lemma sending_cong: "rl_position l = rl_position l' \<Longrightarrow> sending l = sending l'"
  by (simp add: sending_def fun_eq_iff)

text \<open>Steps that touch neither jobs nor workers, and leave the places in every loop as they are.\<close>

definition same_jobs :: "refresh_system \<Rightarrow> refresh_system \<Rightarrow> bool" where
  "same_jobs s t \<longleftrightarrow>
     rs_jobs t = rs_jobs s \<and> rs_store t = rs_store s \<and> rs_made t = rs_made s \<and> rs_workers t = rs_workers s \<and>
     rs_started t = rs_started s \<and>
     (\<forall>L < rs_started s. rl_jobs (rs_loops t L) = rl_jobs (rs_loops s L) \<and>
        (\<forall>j. sending (rs_loops t L) j = sending (rs_loops s L) j) \<and>
        closing (rl_position (rs_loops t L)) = closing (rl_position (rs_loops s L)) \<and>
        to_release (rl_position (rs_loops t L)) = to_release (rl_position (rs_loops s L)))"

definition jobs_ok :: "refresh_system \<Rightarrow> bool" where
  "jobs_ok s \<longleftrightarrow> jobs_named s \<and> jobs_placed s \<and> jobs_running s \<and> jobs_accounted s"

lemma jobs_ok_same:
  assumes "jobs_ok s" and "same_jobs s t"
  shows "jobs_ok t"
proof -
  have eq: "rs_jobs t = rs_jobs s" "rs_store t = rs_store s" "rs_made t = rs_made s" "rs_workers t = rs_workers s"
    "rs_started t = rs_started s"
    using assms(2) unfolding same_jobs_def by blast+
  have lp: "rl_jobs (rs_loops t L) = rl_jobs (rs_loops s L)" "sending (rs_loops t L) j = sending (rs_loops s L) j"
    "closing (rl_position (rs_loops t L)) = closing (rl_position (rs_loops s L))"
    "to_release (rl_position (rs_loops t L)) = to_release (rl_position (rs_loops s L))" if "L < rs_started s" for L j
    using assms(2) that unfolding same_jobs_def by blast+
  have named: "jobs_named s" and placed: "jobs_placed s" and running: "jobs_running s" and acc: "jobs_accounted s"
    using assms(1) by (simp_all add: jobs_ok_def)
  have "jobs_named t" using named by (simp add: jobs_named_def eq)
  moreover have "jobs_placed t"
  proof -
    have "jobs_placed t = jobs_placed s" unfolding jobs_placed_def eq by (simp add: lp)
    with placed show ?thesis by simp
  qed
  moreover have "jobs_running t" using running unfolding jobs_running_def eq .
  moreover have "jobs_accounted t"
    unfolding jobs_accounted_def
  proof (intro allI impI)
    fix c j assume j: "rs_jobs t c = Some j"
    then have "rj_loop (rs_store s j) < rs_started s" using named by (simp add: jobs_named_def eq)
    with acc j show "accounted t j" by (simp add: jobs_accounted_def accounted_def Let_def eq lp)
  qed
  ultimately show ?thesis by (simp add: jobs_ok_def)
qed

lemma same_jobs_set_loop:
  assumes "rl_jobs l = rl_jobs (rs_loops s L)" and "\<And>j. sending l j = sending (rs_loops s L) j"
    and "closing (rl_position l) = closing (rl_position (rs_loops s L))"
    and "to_release (rl_position l) = to_release (rl_position (rs_loops s L))"
  shows "same_jobs s (set_loop L l s)"
  using assms by (simp add: same_jobs_def)

text \<open>A job that is given up is in none of the places that count.\<close>

lemma jobs_ok_finish:
  assumes "jobs_ok s" and "(j, Running) \<notin> set (rs_workers s)"
  shows "jobs_ok (finish_refresh_job j u q now s)"
proof -
  let ?t = "finish_refresh_job j u q now s"
  have named: "jobs_named s" and placed: "jobs_placed s" and running: "jobs_running s" and acc: "jobs_accounted s"
    using assms(1) by (simp_all add: jobs_ok_def)
  have fewer: "rs_jobs s c = Some k" if "rs_jobs ?t c = Some k" for c k
    using that by (auto simp: finish_refresh_job_def Let_def split: if_splits)
  have kept: "rs_jobs ?t c = Some k" if "rs_jobs s c = Some k" "k \<noteq> j" for c k
    using that by (auto simp: finish_refresh_job_def Let_def)
  have "jobs_named ?t" using named fewer unfolding jobs_named_def finish_refresh_job_simps by blast
  moreover have "jobs_placed ?t" using placed unfolding jobs_placed_def finish_refresh_job_simps .
  moreover have "jobs_running ?t"
    unfolding jobs_running_def
  proof (intro conjI allI impI)
    fix k assume "(k, Running) \<in> set (rs_workers ?t)"
    then have k: "(k, Running) \<in> set (rs_workers s)" by simp
    with assms(2) have "k \<noteq> j" by auto
    moreover have "rs_jobs s (rj_id (rs_store s k)) = Some k" "rj_running (rs_store s k)"
      using running k unfolding jobs_running_def by blast+
    ultimately show "rs_jobs ?t (rj_id (rs_store ?t k)) = Some k" "rj_running (rs_store ?t k)"
      using kept by simp_all
  next
    fix k assume "rs_jobs ?t (rj_id (rs_store ?t k)) = Some k \<and> rj_running (rs_store ?t k)"
    with running fewer show "(k, Running) \<in> set (rs_workers ?t)"
      unfolding jobs_running_def finish_refresh_job_simps by blast
  qed
  moreover have "jobs_accounted ?t"
    using acc fewer unfolding jobs_accounted_def accounted_def finish_refresh_job_simps by blast
  ultimately show ?thesis by (simp add: jobs_ok_def)
qed

lemma finish_fewer: "rs_jobs (finish_refresh_job j u q now s) c = Some k \<Longrightarrow> rs_jobs s c = Some k"
  by (auto simp: finish_refresh_job_def Let_def split: if_splits)

lemma finish_gone:
  assumes "rs_jobs (finish_refresh_job j u q now s) c = Some j" and "jobs_named s"
  shows "q \<and> rj_running (rs_store s j)"
proof -
  have "rj_id (rs_store s j) = c" using finish_fewer [OF assms(1)] assms(2) unfolding jobs_named_def by blast
  with assms(1) finish_fewer [OF assms(1)] show ?thesis by (auto simp: finish_refresh_job_def Let_def split: if_splits)
qed

lemma namedD: "jobs_ok s \<Longrightarrow> rs_jobs s c = Some j \<Longrightarrow> j < rs_made s \<and> rj_id (rs_store s j) = c \<and> rj_loop (rs_store s j) < rs_started s"
  unfolding jobs_ok_def jobs_named_def by blast

lemma queuedD:
  "jobs_ok s \<Longrightarrow> L < rs_started s \<Longrightarrow> j \<in> set (rl_jobs (rs_loops s L)) \<Longrightarrow>
   j < rs_made s \<and> rj_loop (rs_store s j) = L \<and> \<not> sending (rs_loops s L) j \<and> j \<notin> held s"
  unfolding jobs_ok_def jobs_placed_def by blast

lemma sendingD:
  "jobs_ok s \<Longrightarrow> L < rs_started s \<Longrightarrow> sending (rs_loops s L) j \<Longrightarrow> j < rs_made s \<and> rj_loop (rs_store s j) = L \<and> j \<notin> held s"
  unfolding jobs_ok_def jobs_placed_def by blast

text \<open>A change of one loop and of the workers: the places that it leaves and takes.\<close>

lemma jobs_ok_change:
  assumes ok: "jobs_ok s" and L: "L < rs_started s"
    and same: "rs_jobs t = rs_jobs s" "rs_store t = rs_store s" "rs_made t = rs_made s" "rs_started t = rs_started s"
      "rs_loops t = (rs_loops s)(L := l)"
    and d: "distinct (rl_jobs l)" "distinct (map fst (rs_workers t))"
    and q: "\<And>j. j \<in> set (rl_jobs l) \<Longrightarrow> j < rs_made s \<and> rj_loop (rs_store s j) = L \<and> \<not> sending l j \<and> j \<notin> held t"
    and sd: "\<And>j. sending l j \<Longrightarrow> j < rs_made s \<and> rj_loop (rs_store s j) = L \<and> j \<notin> held t"
    and w: "\<And>j. j \<in> held t \<Longrightarrow> j \<in> held s \<or> j < rs_made s \<and> rj_loop (rs_store s j) = L"
    and r: "\<And>j. (j, Running) \<in> set (rs_workers t) \<longleftrightarrow> (j, Running) \<in> set (rs_workers s)"
    and a: "\<And>c j. rs_jobs s c = Some j \<Longrightarrow> rj_loop (rs_store s j) = L \<Longrightarrow>
      sending (rs_loops s L) j \<or> j \<in> set (rl_jobs (rs_loops s L)) \<and> \<not> closing (rl_position (rs_loops s L)) \<or>
      j \<in> to_release (rl_position (rs_loops s L)) \<Longrightarrow>
      sending l j \<or> j \<in> set (rl_jobs l) \<and> \<not> closing (rl_position l) \<or> j \<in> to_release (rl_position l) \<or> j \<in> held t"
    and h: "\<And>c j. rs_jobs s c = Some j \<Longrightarrow> j \<in> held s \<Longrightarrow> j \<in> held t"
  shows "jobs_ok t"
proof -
  have named: "jobs_named s" and placed: "jobs_placed s" and running: "jobs_running s" and acc: "jobs_accounted s"
    using ok by (simp_all add: jobs_ok_def)
  have "jobs_named t" using named unfolding jobs_named_def same .
  moreover have "jobs_placed t"
    unfolding jobs_placed_def same
  proof (intro conjI allI impI ballI)
    fix M assume M: "M < rs_started s"
    show "distinct (rl_jobs (((rs_loops s)(L := l)) M))" using placed M d(1) by (simp add: jobs_placed_def)
    { fix j assume j: "j \<in> set (rl_jobs (((rs_loops s)(L := l)) M))"
      have "j < rs_made s \<and> rj_loop (rs_store s j) = M \<and> \<not> sending (((rs_loops s)(L := l)) M) j \<and> j \<notin> held t"
      proof (cases "M = L")
        case True
        with q j show ?thesis by simp
      next
        case False
        with queuedD [OF ok M] j w [of j] show ?thesis by auto
      qed
      then show "j < rs_made s" "rj_loop (rs_store s j) = M" "\<not> sending (((rs_loops s)(L := l)) M) j" "j \<notin> held t" by blast+ }
    { fix j assume j: "sending (((rs_loops s)(L := l)) M) j"
      have "j < rs_made s \<and> rj_loop (rs_store s j) = M \<and> j \<notin> held t"
      proof (cases "M = L")
        case True
        with sd j show ?thesis by simp
      next
        case False
        with sendingD [OF ok M] j w [of j] show ?thesis by auto
      qed
      then show "j < rs_made s" "rj_loop (rs_store s j) = M" "j \<notin> held t" by blast+ }
  next
    show "distinct (map fst (rs_workers t))" by (rule d(2))
    fix j assume "j \<in> held t"
    from w [OF this] show "j < rs_made s"
    proof
      assume "j \<in> held s"
      with placed show ?thesis unfolding jobs_placed_def by blast
    qed simp
  qed
  moreover have "jobs_running t" using running unfolding jobs_running_def same r .
  moreover have "jobs_accounted t"
    unfolding jobs_accounted_def
  proof (intro allI impI)
    fix c j assume "rs_jobs t c = Some j"
    then have j: "rs_jobs s c = Some j" by (simp add: same)
    with acc have "accounted s j" by (simp add: jobs_accounted_def)
    then show "accounted t j"
      using a [OF j] h [OF j] by (cases "rj_loop (rs_store s j) = L") (auto simp: accounted_def Let_def same)
  qed
  ultimately show ?thesis by (simp add: jobs_ok_def)
qed

lemma sending_position: "rl_position l = Sending j rest \<Longrightarrow> sending l k \<longleftrightarrow> k = j"
  by (auto simp: sending_def)

lemma jobs_distinct: "jobs_ok s \<Longrightarrow> L < rs_started s \<Longrightarrow> distinct (rl_jobs (rs_loops s L))"
  "jobs_ok s \<Longrightarrow> distinct (map fst (rs_workers s))"
  unfolding jobs_ok_def jobs_placed_def by blast+

lemma jobs_ok_send:
  assumes "jobs_ok s" and L: "L < rs_started s" and p: "rl_position (rs_loops s L) = Sending j rest"
  shows "jobs_ok (loop_send L j rest s)"
proof -
  let ?l = "(rs_loops s L)\<lparr>rl_jobs := rl_jobs (rs_loops s L) @ [j], rl_position := Handling rest\<rparr>"
  note sp = sending_position [OF p]
  have j: "j < rs_made s" "rj_loop (rs_store s j) = L" "j \<notin> held s" using sendingD [OF assms(1) L] sp by blast+
  have new: "j \<notin> set (rl_jobs (rs_loops s L))" using queuedD [OF assms(1) L] sp by blast
  have ns: "\<not> sending ?l k" for k by (simp add: sending_def)
  have "jobs_ok (set_loop L ?l s)"
  proof (rule jobs_ok_change [OF assms(1) L])
    fix k assume "k \<in> set (rl_jobs ?l)"
    with j ns queuedD [OF assms(1) L, of k] show "k < rs_made s \<and> rj_loop (rs_store s k) = L \<and> \<not> sending ?l k \<and> k \<notin> held (set_loop L ?l s)"
      by auto
  qed (use ns new sp p jobs_distinct [OF assms(1)] L in auto)
  then show ?thesis by (simp add: loop_send_def Let_def)
qed

lemma jobs_ok_take:
  assumes "jobs_ok s" and L: "L < rs_started s" and p: "rl_jobs (rs_loops s L) = j # js"
  shows "jobs_ok (set_loop L ((rs_loops s L)\<lparr>rl_jobs := js\<rparr>) (s\<lparr>rs_workers := (j, Taken) # rs_workers s\<rparr>))"
proof -
  let ?l = "(rs_loops s L)\<lparr>rl_jobs := js\<rparr>"
  have sl: "sending ?l = sending (rs_loops s L)" by (rule sending_cong) simp
  have j: "j < rs_made s" "rj_loop (rs_store s j) = L" "\<not> sending (rs_loops s L) j" "j \<notin> held s" "j \<notin> set js"
    using queuedD [OF assms(1) L, of j] jobs_distinct(1) [OF assms(1) L] p by simp_all
  have dj: "distinct js" using jobs_distinct(1) [OF assms(1) L] p by simp
  show ?thesis
  proof (rule jobs_ok_change [OF assms(1) L])
    fix k assume "k \<in> set (rl_jobs ?l)"
    with j queuedD [OF assms(1) L, of k] p
    show "k < rs_made s \<and> rj_loop (rs_store s k) = L \<and> \<not> sending ?l k \<and>
        k \<notin> held (set_loop L ?l (s\<lparr>rs_workers := (j, Taken) # rs_workers s\<rparr>))"
      unfolding sl by auto
  next
    fix k assume "sending ?l k"
    with j sendingD [OF assms(1) L, of k]
    show "k < rs_made s \<and> rj_loop (rs_store s k) = L \<and> k \<notin> held (set_loop L ?l (s\<lparr>rs_workers := (j, Taken) # rs_workers s\<rparr>))"
      unfolding sl by auto
  qed (use j p dj jobs_distinct(2) [OF assms(1)] in \<open>auto simp: sl\<close>)
qed

lemma jobs_ok_end:
  assumes "jobs_ok s" and L: "L < rs_started s" and p: "rl_position (rs_loops s L) = Waiting"
  shows "jobs_ok (set_loop L ((rs_loops s L)\<lparr>rl_position := Releasing (queued_jobs L s)\<rparr>) s)"
proof -
  let ?l = "(rs_loops s L)\<lparr>rl_position := Releasing (queued_jobs L s)\<rparr>"
  have ns: "\<not> sending ?l k" for k by (simp add: sending_def)
  show ?thesis
  proof (rule jobs_ok_change [OF assms(1) L])
    fix k assume "k \<in> set (rl_jobs ?l)"
    with ns queuedD [OF assms(1) L, of k] show "k < rs_made s \<and> rj_loop (rs_store s k) = L \<and> \<not> sending ?l k \<and> k \<notin> held (set_loop L ?l s)"
      by auto
  next
    fix c k assume k: "rs_jobs s c = Some k" "rj_loop (rs_store s k) = L"
    have "k \<in> held s" if "rj_running (rs_store s k)"
      using assms(1) k that namedD [OF assms(1) k(1)] unfolding jobs_ok_def jobs_running_def by force
    with k namedD [OF assms(1) k(1)] show "sending ?l k \<or> k \<in> set (rl_jobs ?l) \<and> \<not> closing (rl_position ?l) \<or>
        k \<in> to_release (rl_position ?l) \<or> k \<in> held (set_loop L ?l s)"
      by (auto simp: queued_jobs_def)
  qed (use ns jobs_distinct [OF assms(1)] L in auto)
qed

lemma jobs_ok_released:
  assumes "jobs_ok s" and L: "L < rs_started s" and p: "rl_position (rs_loops s L) = Releasing []"
  shows "jobs_ok (set_loop L ((rs_loops s L)\<lparr>rl_position := Ended\<rparr>) s)"
  by (rule jobs_ok_same [OF assms(1)], rule same_jobs_set_loop) (simp_all add: sending_def p)

lemma jobs_ok_release:
  assumes "jobs_ok s" and L: "L < rs_started s" and p: "rl_position (rs_loops s L) = Releasing (j # js)"
  shows "jobs_ok (set_loop L ((rs_loops s L)\<lparr>rl_position := Releasing js\<rparr>) (finish_refresh_job j zero_time True now s))"
proof -
  let ?l = "(rs_loops s L)\<lparr>rl_position := Releasing js\<rparr>" and ?f = "finish_refresh_job j zero_time True now s"
  have ns: "\<not> sending ?l k" for k by (simp add: sending_def)
  have np: "\<not> sending (rs_loops s L) k" for k by (simp add: sending_def p)
  have named: "jobs_named s" using assms(1) by (simp add: jobs_ok_def)
  have ok: "jobs_ok ?f"
  proof (cases "(j, Running) \<in> set (rs_workers s)")
    case True
    then have "rj_running (rs_store s j)" using assms(1) unfolding jobs_ok_def jobs_running_def by blast
    then have "?f = s" by (simp add: finish_refresh_job_def Let_def)
    with assms(1) show ?thesis by simp
  qed (rule jobs_ok_finish [OF assms(1)])
  have away: "j \<in> held s" if "rs_jobs ?f c = Some j" for c
  proof -
    have r: "rj_running (rs_store s j)" using finish_gone [OF that named] ..
    have "rs_jobs s c = Some j" by (rule finish_fewer [OF that])
    with namedD [OF assms(1) this] r have "(j, Running) \<in> set (rs_workers s)"
      using assms(1) unfolding jobs_ok_def jobs_running_def by blast
    then show ?thesis by force
  qed
  show ?thesis
  proof (rule jobs_ok_change [OF ok])
    show "L < rs_started ?f" using L by simp
    fix k assume "k \<in> set (rl_jobs ?l)"
    with ns queuedD [OF assms(1) L, of k] show "k < rs_made ?f \<and> rj_loop (rs_store ?f k) = L \<and> \<not> sending ?l k \<and> k \<notin> held (set_loop L ?l ?f)"
      by auto
  next
    fix c k assume k: "rs_jobs ?f c = Some k" and
      "sending (rs_loops ?f L) k \<or> k \<in> set (rl_jobs (rs_loops ?f L)) \<and> \<not> closing (rl_position (rs_loops ?f L)) \<or>
       k \<in> to_release (rl_position (rs_loops ?f L))"
    then have "k = j \<or> k \<in> set js" using np p by simp
    then show "sending ?l k \<or> k \<in> set (rl_jobs ?l) \<and> \<not> closing (rl_position ?l) \<or>
        k \<in> to_release (rl_position ?l) \<or> k \<in> held (set_loop L ?l ?f)"
      using away [of c] k by auto
  qed (use ns jobs_distinct [OF assms(1)] L in auto)
qed

lemma jobs_ok_give_back:
  assumes "jobs_ok s" and L: "L < rs_started s" and p: "rl_position (rs_loops s L) = Sending j rest"
  shows "jobs_ok (loop_give_back L j rest now s)"
proof -
  let ?u = "rl_now (rs_loops s L) + rl_interval (rs_loops s L)"
  let ?l = "(rs_loops s L)\<lparr>rl_position := Applying (rj_id (rs_store s j)) (Some ?u) rest\<rparr>"
  let ?f = "finish_refresh_job j ?u False now s"
  note sp = sending_position [OF p]
  have ns: "\<not> sending ?l k" for k by (simp add: sending_def)
  have named: "jobs_named s" using assms(1) by (simp add: jobs_ok_def)
  have "j \<notin> held s" using sendingD [OF assms(1) L] sp by blast
  then have "(j, Running) \<notin> set (rs_workers s)" by force
  note ok = jobs_ok_finish [OF assms(1) this]
  have "jobs_ok (set_loop L ?l ?f)"
  proof (rule jobs_ok_change [OF ok])
    show "L < rs_started ?f" using L by simp
    fix k assume "k \<in> set (rl_jobs ?l)"
    with ns queuedD [OF assms(1) L, of k] show "k < rs_made ?f \<and> rj_loop (rs_store ?f k) = L \<and> \<not> sending ?l k \<and> k \<notin> held (set_loop L ?l ?f)"
      by auto
  next
    fix c k assume k: "rs_jobs ?f c = Some k" and
      or: "sending (rs_loops ?f L) k \<or> k \<in> set (rl_jobs (rs_loops ?f L)) \<and> \<not> closing (rl_position (rs_loops ?f L)) \<or>
       k \<in> to_release (rl_position (rs_loops ?f L))"
    have "k \<noteq> j" using finish_gone [of j ?u False now s c] k named by auto
    with or sp p show "sending ?l k \<or> k \<in> set (rl_jobs ?l) \<and> \<not> closing (rl_position ?l) \<or>
        k \<in> to_release (rl_position ?l) \<or> k \<in> held (set_loop L ?l ?f)"
      by auto
  qed (use ns jobs_distinct [OF assms(1)] L in auto)
  then show ?thesis by (simp add: loop_give_back_def Let_def)
qed

lemma set_take_away:
  "distinct (map fst ws) \<Longrightarrow> (j, st) \<in> set ws \<Longrightarrow> set (take_away (j, st) ws) = set ws - {(j, st)}"
  by (metis distinct_map set_remove1_eq take_away_def)

lemma held_take_away:
  assumes "distinct (map fst ws)" and "(j, st) \<in> set ws"
  shows "fst ` set (take_away (j, st) ws) = fst ` set ws - {j}"
proof -
  have "inj_on fst (set ws)" using assms(1) by (simp add: distinct_map)
  then have "fst ` (set ws - {(j, st)}) = fst ` set ws - fst ` {(j, st)}"
    using assms(2) by (simp add: inj_on_image_set_diff)
  then show ?thesis using set_take_away [OF assms] by simp
qed

lemma distinct_take_away: "distinct (map fst ws) \<Longrightarrow> distinct (map fst (take_away w ws))"
proof (induction ws)
  case (Cons x ws)
  have "fst ` set (take_away w ws) \<subseteq> fst ` set ws" unfolding take_away_def by (intro image_mono set_remove1_subset)
  with Cons show ?case by (auto simp: take_away_def)
qed (simp add: take_away_def)

lemma worker_once: "distinct (map fst ws) \<Longrightarrow> (j, st) \<in> set ws \<Longrightarrow> (j, st') \<in> set ws \<Longrightarrow> st = st'"
  by (rule eq_key_imp_eq_value)

lemma jobs_ok_stage:
  assumes ok: "jobs_ok s" and j: "(j, Taken) \<in> set (rs_workers s)"
    and b: "b \<Longrightarrow> rs_jobs s (rj_id (rs_store s j)) = Some j"
    and t: "rs_jobs t = rs_jobs s" "rs_made t = rs_made s" "rs_started t = rs_started s" "rs_loops t = rs_loops s"
      "rs_store t = (if b then (rs_store s)(j := (rs_store s j)\<lparr>rj_running := True\<rparr>) else rs_store s)"
      "rs_workers t = (j, if b then Running else Leaving) # take_away (j, Taken) (rs_workers s)"
  shows "jobs_ok t"
proof -
  have named: "jobs_named s" and placed: "jobs_placed s" and running: "jobs_running s" and acc: "jobs_accounted s"
    using ok by (simp_all add: jobs_ok_def)
  note d = jobs_distinct(2) [OF ok]
  have st: "rj_id (rs_store t k) = rj_id (rs_store s k)" "rj_loop (rs_store t k) = rj_loop (rs_store s k)"
    "rj_running (rs_store t k) \<longleftrightarrow> k = j \<and> b \<or> rj_running (rs_store s k)" for k
    by (simp_all add: t(5))
  have held: "held t = held s" using held_take_away [OF d j] j by (force simp: t(6))
  have run: "(k, Running) \<in> set (rs_workers t) \<longleftrightarrow> k = j \<and> b \<or> (k, Running) \<in> set (rs_workers s)" for k
    using set_take_away [OF d j] worker_once [OF d j, of Running] by (auto simp: t(6))
  have dt: "distinct (map fst (rs_workers t))"
    using distinct_take_away [OF d] held_take_away [OF d j] by (auto simp: t(6))
  have "jobs_named t" using named unfolding jobs_named_def t(1-4) st .
  moreover have "jobs_placed t" using placed dt unfolding jobs_placed_def t(2-4) st held by blast
  moreover have "jobs_running t" using running b unfolding jobs_running_def t(1) st run by blast
  moreover have "jobs_accounted t" using acc unfolding jobs_accounted_def accounted_def t(1,4) st held .
  ultimately show ?thesis by (simp add: jobs_ok_def)
qed

lemma jobs_ok_begin:
  assumes ok: "jobs_ok s" and j: "(j, Taken) \<in> set (rs_workers s)"
    and b: "begin_refresh_job cancelled j (s\<lparr>rs_workers := take_away (j, Taken) (rs_workers s)\<rparr>) = (b, u)"
  shows "jobs_ok (u\<lparr>rs_workers := (j, if b then Running else Leaving) # rs_workers u\<rparr>)"
proof -
  let ?s = "s\<lparr>rs_workers := take_away (j, Taken) (rs_workers s)\<rparr>"
  have u: "u = (if b then ?s\<lparr>rs_store := (rs_store s)(j := (rs_store s j)\<lparr>rj_running := True\<rparr>)\<rparr> else ?s)"
    and g: "b \<Longrightarrow> rs_jobs s (rj_id (rs_store s j)) = Some j"
    using b by (auto simp: begin_refresh_job_def Let_def split: option.splits if_splits)
  show ?thesis
    by (rule jobs_ok_stage [OF ok j, of b]) (use g in \<open>simp_all add: u split: if_split\<close>)
qed

lemma jobs_ok_worker_finish:
  assumes ok: "jobs_ok s" and j: "(j, st) \<in> set (rs_workers s)"
  shows "jobs_ok (finish_refresh_job j u False now (s\<lparr>rs_workers := take_away (j, st) (rs_workers s)\<rparr>))"
proof -
  let ?s = "s\<lparr>rs_workers := take_away (j, st) (rs_workers s)\<rparr>"
  let ?t = "finish_refresh_job j u False now ?s"
  have named: "jobs_named s" and placed: "jobs_placed s" and running: "jobs_running s" and acc: "jobs_accounted s"
    using ok by (simp_all add: jobs_ok_def)
  note d = jobs_distinct(2) [OF ok]
  have held: "held ?t = held s - {j}" using held_take_away [OF d j] by simp
  have ws: "set (rs_workers ?t) = set (rs_workers s) - {(j, st)}" using set_take_away [OF d j] by simp
  have named': "jobs_named ?s" using named by (simp add: jobs_named_def)
  have fewer: "rs_jobs s c = Some k \<and> k \<noteq> j" if "rs_jobs ?t c = Some k" for c k
    using finish_fewer [OF that] finish_gone [of j u False now ?s c] that named' by auto
  have kept: "rs_jobs ?t c = Some k" if "rs_jobs s c = Some k" "k \<noteq> j" for c k
    using that by (auto simp: finish_refresh_job_def Let_def)
  have "jobs_named ?t"
    unfolding jobs_named_def
  proof (intro conjI allI impI)
    fix c k assume "rs_jobs ?t c = Some k"
    then have "rs_jobs s c = Some k" using fewer by blast
    from namedD [OF ok this] show "k < rs_made ?t" "rj_id (rs_store ?t k) = c" by simp_all
  next
    fix k assume "k < rs_made ?t"
    with named show "rj_loop (rs_store ?t k) < rs_started ?t" by (simp add: jobs_named_def)
  qed
  moreover have "k < rs_made s" if "k \<in> held s" for k using placed that unfolding jobs_placed_def by blast
  then have "jobs_placed ?t"
    using placed distinct_take_away [OF d] held unfolding jobs_placed_def finish_refresh_job_simps by (simp, blast)
  moreover have "jobs_running ?t"
    unfolding jobs_running_def
  proof (intro conjI allI impI)
    fix k assume "(k, Running) \<in> set (rs_workers ?t)"
    then have k: "(k, Running) \<in> set (rs_workers s)" "(k, Running) \<noteq> (j, st)" unfolding ws by simp_all
    then have "k \<noteq> j" using worker_once [OF d j, of Running] by auto
    moreover have "rs_jobs s (rj_id (rs_store s k)) = Some k" "rj_running (rs_store s k)"
      using running k(1) unfolding jobs_running_def by blast+
    ultimately show "rs_jobs ?t (rj_id (rs_store ?t k)) = Some k" "rj_running (rs_store ?t k)"
      using kept by simp_all
  next
    fix k assume k: "rs_jobs ?t (rj_id (rs_store ?t k)) = Some k \<and> rj_running (rs_store ?t k)"
    then have "rs_jobs s (rj_id (rs_store s k)) = Some k" "k \<noteq> j" "rj_running (rs_store s k)"
      using fewer by auto
    with running show "(k, Running) \<in> set (rs_workers ?t)" unfolding ws jobs_running_def by blast
  qed
  moreover have "jobs_accounted ?t"
    unfolding jobs_accounted_def
  proof (intro allI impI)
    fix c k assume "rs_jobs ?t c = Some k"
    from fewer [OF this] have k: "rs_jobs s c = Some k" "k \<noteq> j" by simp_all
    with acc have "accounted s k" by (simp add: jobs_accounted_def)
    with k(2) held show "accounted ?t k" by (simp add: accounted_def Let_def)
  qed
  ultimately show ?thesis by (simp add: jobs_ok_def)
qed

lemma jobs_ok_start:
  assumes ok: "jobs_ok s"
  shows "jobs_ok (set_loop (rs_started s) (new_auto_refresh_loop i w) (s\<lparr>rs_current := cur, rs_started := rs_started s + 1\<rparr>))"
proof -
  let ?l = "new_auto_refresh_loop i w"
  let ?t = "set_loop (rs_started s) ?l (s\<lparr>rs_current := cur, rs_started := rs_started s + 1\<rparr>)"
  have named: "jobs_named s" and placed: "jobs_placed s" and running: "jobs_running s" and acc: "jobs_accounted s"
    using ok by (simp_all add: jobs_ok_def)
  have new: "rl_jobs ?l = []" "\<not> sending ?l k" for k by (simp_all add: new_auto_refresh_loop_def sending_def Let_def)
  have "jobs_named ?t" using named unfolding jobs_named_def by (simp add: less_SucI)
  moreover have "jobs_placed ?t" using placed new unfolding jobs_placed_def by (simp add: less_Suc_eq)
  moreover have "jobs_running ?t"
  proof -
    have "jobs_running ?t = jobs_running s" by (simp add: jobs_running_def)
    with running show ?thesis by simp
  qed
  moreover have "jobs_accounted ?t"
    unfolding jobs_accounted_def
  proof (intro allI impI)
    fix c k assume "rs_jobs ?t c = Some k"
    then have k: "rs_jobs s c = Some k" by simp
    with namedD [OF ok k] acc show "accounted ?t k" by (simp add: jobs_accounted_def accounted_def Let_def)
  qed
  ultimately show ?thesis by (simp add: jobs_ok_def)
qed

lemma jobs_ok_mark:
  assumes ok: "jobs_ok s" and L: "L < rs_started s" and p: "rl_position (rs_loops s L) = Marking c e rest"
  shows "jobs_ok (loop_mark h L c e rest s)"
proof -
  let ?now = "rl_now (rs_loops s L)"
  let ?M = "mark_refresh_pending h L c e ?now s"
  have np: "\<not> sending (rs_loops s L) k" for k by (simp add: sending_def p)
  show ?thesis
  proof (cases "fst ?M")
    case None
    then have "snd ?M = s" by (auto simp: mark_refresh_pending_def Let_def split: option.splits if_splits)
    moreover have "same_jobs s (set_loop L ((rs_loops s L)\<lparr>rl_position := Unmarked c rest\<rparr>) s)"
      by (rule same_jobs_set_loop) (simp_all add: sending_def p)
    ultimately show ?thesis using None jobs_ok_same [OF ok] by (simp add: loop_mark_eq Let_def)
  next
    case (Some j)
    let ?u = "snd ?M" and ?l = "(rs_loops s L)\<lparr>rl_position := Sending j rest\<rparr>"
    have none: "rs_jobs s c = None" and j: "j = rs_made s" and u: "rs_jobs ?u = (rs_jobs s)(c \<mapsto> j)" "rs_made ?u = j + 1"
      "\<And>k. k \<noteq> j \<Longrightarrow> rs_store ?u k = rs_store s k"
      "rj_id (rs_store ?u j) = c" "rj_loop (rs_store ?u j) = L" "\<not> rj_running (rs_store ?u j)"
      using Some by (auto simp: mark_refresh_pending_def Let_def split: option.splits if_splits)
    have named: "jobs_named s" and placed: "jobs_placed s" and running: "jobs_running s" and acc: "jobs_accounted s"
      using ok by (simp_all add: jobs_ok_def)
    have old: "k \<noteq> j" if "k < rs_made s" for k using that j by simp
    have old_held: "k < rs_made s" if "k \<in> held s" for k using placed that unfolding jobs_placed_def by blast
    let ?t = "set_loop L ?l ?u"
    have sl: "sending ?l k \<longleftrightarrow> k = j" for k by (rule sending_position) simp
    have "jobs_named ?t"
      unfolding jobs_named_def
    proof (intro conjI allI impI)
      fix d k assume dk: "rs_jobs ?t d = Some k"
      have "k < rs_made ?t \<and> rj_id (rs_store ?t k) = d"
      proof (cases "d = c")
        case True
        with dk u(1) have "k = j" by simp
        with True u(2,4) show ?thesis by simp
      next
        case False
        with dk u(1) have k: "rs_jobs s d = Some k" by simp
        with namedD [OF ok k] old u(2,3) j show ?thesis by simp
      qed
      then show "k < rs_made ?t" "rj_id (rs_store ?t k) = d" by blast+
    next
      fix k assume "k < rs_made ?t"
      then have "k = j \<or> k < rs_made s" using u(2) j by auto
      then show "rj_loop (rs_store ?t k) < rs_started ?t"
        using named L old u(3,5) by (auto simp: jobs_named_def)
    qed
    moreover have "jobs_placed ?t"
      unfolding jobs_placed_def
    proof (intro conjI allI impI ballI)
      fix M assume M: "M < rs_started ?t"
      then have M': "M < rs_started s" by simp
      show "distinct (rl_jobs (rs_loops ?t M))" using jobs_distinct(1) [OF ok M'] by auto
      { fix k assume "k \<in> set (rl_jobs (rs_loops ?t M))"
        then have "k \<in> set (rl_jobs (rs_loops s M))" by (simp split: if_splits)
        note qd = queuedD [OF ok M' this]
        with old u(3) have "rs_store ?u k = rs_store s k" "k \<noteq> j" by blast+
        with qd sl j show "k < rs_made ?t" "rj_loop (rs_store ?t k) = M" "\<not> sending (rs_loops ?t M) k" "k \<notin> held ?t"
          by (simp_all add: u) }
      { fix k assume k: "sending (rs_loops ?t M) k"
        have "k < rs_made ?t \<and> rj_loop (rs_store ?t k) = M \<and> k \<notin> held ?t"
        proof (cases "M = L")
          case True
          with k sl have "k = j" by simp
          with True u old_held j show ?thesis by auto
        next
          case False
          with k have "sending (rs_loops s M) k" by simp
          note sd = sendingD [OF ok M' this]
          with old u(3) have "rs_store ?u k = rs_store s k" by blast
          with sd j show ?thesis by (simp add: u)
        qed
        then show "k < rs_made ?t" "rj_loop (rs_store ?t k) = M" "k \<notin> held ?t" by blast+ }
    next
      show "distinct (map fst (rs_workers ?t))" using jobs_distinct(2) [OF ok] by simp
      fix k assume "k \<in> held ?t"
      with old_held [of k] j show "k < rs_made ?t" by (simp add: u)
    qed
    moreover have "jobs_running ?t"
      unfolding jobs_running_def
    proof (intro conjI allI impI)
      fix k assume "(k, Running) \<in> set (rs_workers ?t)"
      then have k: "(k, Running) \<in> set (rs_workers s)" by simp
      then have "k \<in> held s" by force
      with old_held old have "k \<noteq> j" by blast
      moreover have r: "rs_jobs s (rj_id (rs_store s k)) = Some k" "rj_running (rs_store s k)"
        using running k unfolding jobs_running_def by blast+
      moreover have "rj_id (rs_store s k) \<noteq> c" using r(1) none by auto
      ultimately show "rs_jobs ?t (rj_id (rs_store ?t k)) = Some k" "rj_running (rs_store ?t k)"
        by (simp_all add: u)
    next
      fix k assume k: "rs_jobs ?t (rj_id (rs_store ?t k)) = Some k \<and> rj_running (rs_store ?t k)"
      then have kj: "k \<noteq> j" using u(6) by auto
      with k have "rs_jobs s (rj_id (rs_store s k)) = Some k" "rj_running (rs_store s k)"
        using u(3) [OF kj] by (auto simp: u(1) split: if_splits)
      with running have "(k, Running) \<in> set (rs_workers s)" unfolding jobs_running_def by blast
      then show "(k, Running) \<in> set (rs_workers ?t)" by simp
    qed
    moreover have "jobs_accounted ?t"
      unfolding jobs_accounted_def
    proof (intro allI impI)
      fix d k assume dk: "rs_jobs ?t d = Some k"
      show "accounted ?t k"
      proof (cases "d = c")
        case True
        with dk u sl show ?thesis by (simp add: accounted_def Let_def)
      next
        case False
        with dk have k: "rs_jobs s d = Some k" by (simp add: u)
        with old namedD [OF ok k] have kj: "k \<noteq> j" by blast
        from k acc have "accounted s k" by (simp add: jobs_accounted_def)
        with np p sl kj u(3) [OF kj] show ?thesis by (auto simp: accounted_def Let_def)
      qed
    qed
    ultimately show ?thesis using Some by (simp add: loop_mark_eq Let_def jobs_ok_def)
  qed
qed

lemma jobs_ok_step: "refresh_step h s ev t \<Longrightarrow> jobs_ok s \<Longrightarrow> jobs_ok t"
proof (induction rule: refresh_step.induct)
  case (st_turn L s exec ev l)
  show ?case
    by (rule jobs_ok_same [OF st_turn(3)], rule same_jobs_set_loop) (use loop_turn_jobs [OF st_turn(2)] in simp_all)
next
  case (st_start s interval workers)
  then show ?case by (rule jobs_ok_start)
next
  case (st_mark L s c epoch rest)
  then show ?case by (intro jobs_ok_mark)
next
  case (st_send L s j rest)
  then show ?case by (intro jobs_ok_send)
next
  case (st_give_back L s j rest)
  then show ?case by (intro jobs_ok_give_back)
next
  case (st_end L s)
  then show ?case by (intro jobs_ok_end)
next
  case (st_release L s j js)
  then show ?case by (intro jobs_ok_release)
next
  case (st_released L s)
  then show ?case by (intro jobs_ok_released)
next
  case (st_take L s j js)
  then show ?case by (intro jobs_ok_take)
next
  case (st_begin j s cancelled ok t)
  from jobs_ok_begin [OF st_begin(3,1,2)] show ?case .
next
  case (st_finish j st s)
  then show ?case by (intro jobs_ok_worker_finish)
next
  case (st_timer L s)
  show ?case
    by (rule jobs_ok_same [OF st_timer(3)], rule same_jobs_set_loop)
      (use st_timer(2) in \<open>simp_all add: sending_def on_timer_def split: prod.split\<close>)
next
  case (st_wake L s)
  show ?case
    by (rule jobs_ok_same [OF st_wake(4)], rule same_jobs_set_loop)
      (use st_wake(2) in \<open>simp_all add: sending_def on_wake_def\<close>)
next
  case (st_notify c s)
  show ?case
    by (rule jobs_ok_same [OF st_notify(2)])
      (simp add: same_jobs_def queue_refresh_reschedule_def sending_def split: option.split)
next
  case (st_unschedule c s)
  show ?case
    by (rule jobs_ok_same [OF st_unschedule(2)])
      (simp add: same_jobs_def queue_refresh_unschedule_def sending_def split: option.split)
next
  case (st_cancel s L)
  show ?case by (rule jobs_ok_same [OF st_cancel], rule same_jobs_set_loop) (simp_all add: sending_def)
qed (erule jobs_ok_same, simp add: same_jobs_def)+

interpretation refresh_jobs: invariant_system "refresh_step h" jobs_ok for h
  by unfold_locales (rule jobs_ok_step)

section \<open>Properties\<close>

text \<open>A manager before its first loop: credentials, and nothing else.\<close>

definition no_job :: refresh_job where
  "no_job = \<lparr>rj_id = [], rj_epoch = 0, rj_pending_until = zero_time, rj_loop = 0, rj_running = False\<rparr>"

definition refresh_start :: "instant \<Rightarrow> (string \<times> refreshable) list \<Rightarrow> refresh_system" where
  "refresh_start T auths =
     \<lparr>rs_auths = auths, rs_jobs = Map.empty, rs_store = (\<lambda>_. no_job), rs_made = 0,
      rs_loops = (\<lambda>_. new_auto_refresh_loop 0 0), rs_started = 0, rs_current = None, rs_workers = [], rs_notices = [],
      rs_unschedules = [], rs_clock = T\<rparr>"

lemma refresh_start_simps [simp]:
  "rs_auths (refresh_start T auths) = auths" "rs_jobs (refresh_start T auths) = Map.empty" "rs_made (refresh_start T auths) = 0"
  "rs_started (refresh_start T auths) = 0" "rs_current (refresh_start T auths) = None" "rs_workers (refresh_start T auths) = []"
  "rs_notices (refresh_start T auths) = []" "rs_unschedules (refresh_start T auths) = []" "rs_clock (refresh_start T auths) = T"
  by (simp_all add: refresh_start_def)

lemma refresh_start_ok:
  "0 < T \<Longrightarrow> distinct (map fst auths) \<Longrightarrow> loops_ok (refresh_start T auths)"
  "in_view h (refresh_start T auths)" "jobs_ok (refresh_start T auths)"
  by (simp_all add: loops_ok_def in_view_def jobs_ok_def jobs_named_def jobs_placed_def jobs_running_def jobs_accounted_def
      no_job_def refresh_start_def)

text \<open>C4: Whatever the interleaving of the loop, its workers and the callers that change credentials, a credential
  that is to be refreshed is in view of the current loop until that is cancelled: a notice for it is
  about to be given, or the loop has it in its timetable, among the changed ones or in its hands. The
  run has no step that disturbs: no removal of a credential that is to be refreshed, and no change
  without a notice that makes it one.\<close>

theorem credentials_stay_scheduled:
  assumes "run_of (undisturbed_step h) (refresh_start T auths) evs s" and "0 < T" and "distinct (map fst auths)"
    and "rs_current s = Some L" and "\<not> rl_cancelled (rs_loops s L)" and "wants_refresh h s c"
  shows "c \<in> set (rs_notices s) \<or> minded (rs_loops s L) c"
  using refresh_view.inv_run [OF assms(1)] refresh_start_ok(1) [OF assms(2,3)] refresh_start_ok(2) assms(4-6)
  by (simp add: in_view_def)

text \<open>C5: At any time a credential is refreshed by at most one worker of all loops, a job that is pending is the
  job of its credential, and is somewhere: about to be queued, in the queue of a loop that still
  runs, to be released at its end, or with a worker. No queue and no worker has a job twice.\<close>

theorem one_refresh_per_credential:
  assumes "run_of (refresh_step h) (refresh_start T auths) evs s"
  shows "((j, Running) \<in> set (rs_workers s) \<and> (k, Running) \<in> set (rs_workers s) \<and>
       rj_id (rs_store s j) = rj_id (rs_store s k) \<longrightarrow> j = k) \<and>
    distinct (map fst (rs_workers s)) \<and> (\<forall>L < rs_started s. distinct (rl_jobs (rs_loops s L))) \<and>
    (rs_jobs s c = Some i \<longrightarrow>
       rj_id (rs_store s i) = c \<and>
       (let l = rs_loops s (rj_loop (rs_store s i)) in
        (\<exists>rest. rl_position l = Sending i rest) \<or> i \<in> set (rl_jobs l) \<and> \<not> closing (rl_position l) \<or>
        i \<in> to_release (rl_position l) \<or> i \<in> fst ` set (rs_workers s)))"
proof -
  have ok: "jobs_ok s" by (rule refresh_jobs.inv_run [OF assms refresh_start_ok(3)])
  then have running: "jobs_running s" and acc: "jobs_accounted s" by (simp_all add: jobs_ok_def)
  have "j = k" if "(j, Running) \<in> set (rs_workers s)" "(k, Running) \<in> set (rs_workers s)"
    "rj_id (rs_store s j) = rj_id (rs_store s k)"
    using that running unfolding jobs_running_def by (metis option.inject)
  moreover have "accounted s i" if "rs_jobs s c = Some i" using acc that by (simp add: jobs_accounted_def)
  ultimately show ?thesis
    using namedD [OF ok, of c i] jobs_distinct [OF ok] unfolding accounted_def sending_def by blast
qed

section \<open>A removal that comes too late\<close>

text \<open>A manager with one loop, to write runs down.\<close>

definition one_loop :: "instant \<Rightarrow> (string \<times> refreshable) list \<Rightarrow> string list \<Rightarrow> refresh_loop \<Rightarrow> refresh_system" where
  "one_loop T auths notices l =
     set_loop 0 l ((refresh_start T auths)\<lparr>rs_notices := notices, rs_current := Some 0, rs_started := 1\<rparr>)"

lemma one_loop_simps [simp]:
  "rs_auths (one_loop T A N l) = A" "rs_notices (one_loop T A N l) = N" "rs_loops (one_loop T A N l) 0 = l"
  "rs_current (one_loop T A N l) = Some 0" "rs_started (one_loop T A N l) = 1" "rs_clock (one_loop T A N l) = T"
  "rs_jobs (one_loop T A N l) = Map.empty" "rs_made (one_loop T A N l) = 0" "rs_workers (one_loop T A N l) = []"
  by (simp_all add: one_loop_def)

lemma one_loop_set [simp]: "set_loop 0 l' (one_loop T A N l) = one_loop T A N l'"
  by (simp add: one_loop_def set_loop_def)

lemma one_loop_start: "refresh_step h (refresh_start T A) Tau (one_loop T A [] (new_auto_refresh_loop interval workers))"
  using st_start [of h "refresh_start T A" interval workers] by (simp add: one_loop_def set_loop_def refresh_start_def)

lemma one_loop_turn:
  "loop_turn h exec T A l = Some (ev, l') \<Longrightarrow> refresh_step h (one_loop T A N l) ev (one_loop T A N l')"
  using st_turn [of 0 "one_loop T A N l" h exec ev l'] by simp

lemma one_loop_update: "refresh_step h (one_loop T A N l) Tau (one_loop T (AList.update c a A) (c # N) l)"
  using st_update [of h "one_loop T A N l" c a] by (simp add: one_loop_def set_loop_def refresh_start_def)

lemma one_loop_notify: "refresh_step h (one_loop T A [c] l) Tau (one_loop T A [] (queue_reschedule c l))"
proof -
  have "(one_loop T A [c] l)\<lparr>rs_notices := []\<rparr> = one_loop T A [] l" by (simp add: one_loop_def set_loop_def)
  with st_notify [of c "one_loop T A [c] l" h] show ?thesis by (simp add: take_away_def queue_refresh_reschedule_def)
qed

lemma one_loop_wake:
  "rl_position l = Waiting \<Longrightarrow> rl_wake l \<Longrightarrow> refresh_step h (one_loop T A N l) Tau (one_loop T A N (on_wake T l))"
  using st_wake [of 0 "one_loop T A N l" h] by simp

lemma one_loop_timer:
  "rl_position l = Waiting \<Longrightarrow> refresh_step h (one_loop T A N l) Tau (one_loop T A N (on_timer T l))"
  using st_timer [of 0 "one_loop T A N l" h] by simp

text \<open>The loop decides that a credential is not to be refreshed and, before it takes it out of the timetable, the
  credential changes and its notice arrives. The removal deletes the notice too: the credential is to
  be refreshed, no notice is left, and the loop, which waits, no longer knows of it.\<close>

lemma late_removal_loses_credential:
  assumes c: "c \<noteq> []" and a: "\<not> refresh_scheduled h T a" and b: "refresh_scheduled h T b"
  shows "\<exists>evs s. run_of (refresh_step h) (refresh_start T []) evs s \<and> wants_refresh h s c \<and>
    rs_current s = Some 0 \<and> \<not> rl_cancelled (rs_loops s 0) \<and> rl_position (rs_loops s 0) = Waiting \<and>
    rs_notices s = [] \<and> \<not> minded (rs_loops s 0) c"
proof -
  let ?l0 = "new_auto_refresh_loop 0 0"
  let ?w = "?l0\<lparr>rl_timetable := install_entries [], rl_position := Waiting\<rparr>"
  let ?k = "on_wake T (queue_reschedule c ?w)"
  let ?h = "?k\<lparr>rl_dirty := [], rl_position := Handling (Dirty_last [c])\<rparr>"
  let ?p = "?h\<lparr>rl_position := Applying c None (Dirty_last [])\<rparr>"
  let ?r = "(loop_remove c (queue_reschedule c ?p))\<lparr>rl_position := Handling (Dirty_last [])\<rparr>"
  let ?A = "[(c, a)]" and ?B = "[(c, b)]"
  let ?f = "?r\<lparr>rl_position := Waiting\<rparr>"
  have q: "queue_ok (install_entries [])" "table_of (install_entries []) = Map.empty"
    using install_entries_table [of "[]"] by simp_all
  have none: "check_of h i T (Some a) = None" for i using a by (simp add: check_of_def refresh_scheduled_check)
  have r: "run_of (refresh_step h) (refresh_start T []) [Tau, Tau, Tau, Tau, Tau, Tau, Tau, Tau, Tau, Tau, Removal c, Tau]
      (one_loop T ?B [] ?f)"
    unfolding run_Cons_iff run_Nil_iff
  proof (intro exI conjI)
    show "refresh_step h (refresh_start T []) Tau (one_loop T [] [] ?l0)" by (rule one_loop_start)
    show "refresh_step h (one_loop T [] [] ?l0) Tau (one_loop T [] [] (?l0\<lparr>rl_position := Built []\<rparr>))"
      by (rule one_loop_turn [where exec = True]) (simp add: loop_turn_def new_auto_refresh_loop_def Let_def)
    show "refresh_step h (one_loop T [] [] (?l0\<lparr>rl_position := Built []\<rparr>)) Tau (one_loop T [] [] ?w)"
      by (rule one_loop_turn [where exec = True]) (simp add: loop_turn_def)
    show "refresh_step h (one_loop T [] [] ?w) Tau (one_loop T ?A [c] ?w)" using one_loop_update [of h T "[]" "[]" ?w c a] by simp
    show "refresh_step h (one_loop T ?A [c] ?w) Tau (one_loop T ?A [] (queue_reschedule c ?w))" by (rule one_loop_notify)
    show "refresh_step h (one_loop T ?A [] (queue_reschedule c ?w)) Tau (one_loop T ?A [] ?k)"
      by (rule one_loop_wake) (simp_all add: queue_reschedule_def c)
    show "refresh_step h (one_loop T ?A [] ?k) Tau (one_loop T ?A [] ?h)"
      by (rule one_loop_turn [where exec = True])
        (simp add: loop_turn_def on_wake_def queue_reschedule_def c new_auto_refresh_loop_def Let_def)
    show "refresh_step h (one_loop T ?A [] ?h) Tau (one_loop T ?A [] ?p)"
      by (rule one_loop_turn [where exec = True]) (simp add: loop_turn_def none on_wake_def)
    show "refresh_step h (one_loop T ?A [] ?p) Tau (one_loop T ?B [c] ?p)" using one_loop_update [of h T ?A "[]" ?p c b] by simp
    show "refresh_step h (one_loop T ?B [c] ?p) Tau (one_loop T ?B [] (queue_reschedule c ?p))" by (rule one_loop_notify)
    show "refresh_step h (one_loop T ?B [] (queue_reschedule c ?p)) (Removal c) (one_loop T ?B [] ?r)"
      by (rule one_loop_turn [where exec = True]) (simp add: loop_turn_def)
    show "refresh_step h (one_loop T ?B [] ?r) Tau (one_loop T ?B [] ?f)"
      by (rule one_loop_turn [where exec = True]) (simp add: loop_turn_def)
  qed simp
  have table: "rl_timetable ?f = queue_remove c (install_entries [])" "rl_dirty ?f = []"
    by (simp_all add: loop_remove_def c queue_reschedule_def on_wake_def)
  have "c \<notin> dom (table_of (queue_remove c (install_entries [])))"
    by (simp add: install_entries_def queue_remove_def empty_queue_def table_of_def)
  with table have "\<not> minded ?f c" by (simp add: minded_def)
  moreover have "wants_refresh h (one_loop T ?B [] ?f) c" using b c by (simp add: wants_refresh_def)
  moreover have "\<not> rl_cancelled ?f"
    by (simp add: loop_remove_def queue_reschedule_def on_wake_def new_auto_refresh_loop_def Let_def c)
  ultimately show ?thesis using r
    by (intro exI [of _ "[Tau, Tau, Tau, Tau, Tau, Tau, Tau, Tau, Tau, Tau, Removal c, Tau]"] exI [of _ "one_loop T ?B [] ?f"]) simp
qed

section \<open>Witnesses\<close>

text \<open>The first steps of a manager with this credential: it gets into the timetable and is popped from it.\<close>

abbreviation (input) demo_auths :: "(string \<times> refreshable) list" where
  "demo_auths \<equiv> [(''a1'', demo_refreshable)]"

definition demo_waiting :: refresh_loop where
  "demo_waiting = (new_auto_refresh_loop 0 0)\<lparr>rl_timetable := install_entries [(''a1'', 5)], rl_position := Waiting\<rparr>"

lemma demo_loop_turns:
  "loop_turn demo_refresh_hooks exec 5 demo_auths (new_auto_refresh_loop 0 0) =
     Some (Tau, (new_auto_refresh_loop 0 0)\<lparr>rl_position := Built [(''a1'', 5)]\<rparr>)"
  "loop_turn demo_refresh_hooks exec 5 demo_auths ((new_auto_refresh_loop 0 0)\<lparr>rl_position := Built [(''a1'', 5)]\<rparr>) = Some (Tau, demo_waiting)"
  by (simp_all add: loop_turn_def new_auto_refresh_loop_def Let_def demo_due demo_waiting_def)

lemma demo_refresh_run:
  "run_of (refresh_step demo_refresh_hooks) (refresh_start 5 demo_auths) [Tau, Tau, Tau] (one_loop 5 demo_auths [] demo_waiting)"
  "run_of (undisturbed_step demo_refresh_hooks) (refresh_start 5 demo_auths) [Tau, Tau, Tau] (one_loop 5 demo_auths [] demo_waiting)"
  unfolding run_Cons_iff run_Nil_iff undisturbed_step_def
  by (rule exI conjI one_loop_start one_loop_turn [OF demo_loop_turns(1)] one_loop_turn [OF demo_loop_turns(2)] refl | simp)+

theorem credentials_stay_scheduled_witness:
  "wants_refresh demo_refresh_hooks (one_loop 5 demo_auths [] demo_waiting) ''a1'' \<and> minded demo_waiting ''a1''"
proof
  show w: "wants_refresh demo_refresh_hooks (one_loop 5 demo_auths [] demo_waiting) ''a1''"
    by (simp add: wants_refresh_def refresh_scheduled_def demo_due)
  have "\<not> rl_cancelled demo_waiting" by (simp add: demo_waiting_def new_auto_refresh_loop_def Let_def)
  with credentials_stay_scheduled [OF demo_refresh_run(2), of 0 "''a1''"] w show "minded demo_waiting ''a1''" by simp
qed

text \<open>From there: the credential is due, is marked, its job is queued, taken and begun.\<close>

definition demo_marking :: refresh_loop where
  "demo_marking = (on_timer 5 demo_waiting)\<lparr>rl_position := Marking ''a1'' 1 (Due_first [])\<rparr>"

lemma demo_popped: "fst (pop_due 5 (install_entries [(''a1'', 5)])) = [''a1'']"
  by code_simp

lemma demo_timer:
  "rl_position (on_timer 5 demo_waiting) = Handling (Due_first [''a1''])" "rl_now (on_timer 5 demo_waiting) = 5"
  using demo_popped by (auto simp: on_timer_def demo_waiting_def split: prod.split)

lemma demo_due_turn: "loop_turn demo_refresh_hooks True 5 demo_auths (on_timer 5 demo_waiting) = Some (Tau, demo_marking)"
  by (simp add: loop_turn_def demo_timer demo_marking_def due_action_of_def demo_due) (simp add: demo_refreshable_def)

lemma demo_marked:
  "\<exists>u. mark_refresh_pending demo_refresh_hooks 0 ''a1'' 1 5 (one_loop 5 demo_auths [] demo_marking) = (Some 0, u) \<and>
     rs_loops u 0 = demo_marking \<and> rs_started u = 1 \<and> rs_jobs u = [''a1'' \<mapsto> 0] \<and> rj_id (rs_store u 0) = ''a1'' \<and>
     rj_epoch (rs_store u 0) = 1 \<and> rs_workers u = [] \<and> (\<exists>a. map_of (rs_auths u) ''a1'' = Some a \<and> rf_epoch a = 1)"
  using demo_not_failed
  by (simp add: mark_refresh_pending_def Let_def) (simp add: demo_refreshable_def pending_marked_def)

lemma demo_running:
  "\<exists>evs s. run_of (refresh_step demo_refresh_hooks) (refresh_start 5 demo_auths) evs s \<and> rs_jobs s ''a1'' = Some 0 \<and>
     (0, Running) \<in> set (rs_workers s)"
proof -
  let ?run = "\<lambda>s. \<exists>evs. run_of (refresh_step demo_refresh_hooks) (refresh_start 5 demo_auths) evs s"
  have next_run: "?run t" if "?run s" "refresh_step demo_refresh_hooks s ev t" for s ev t using that run_snoc by fast
  obtain u where u: "mark_refresh_pending demo_refresh_hooks 0 ''a1'' 1 5 (one_loop 5 demo_auths [] demo_marking) = (Some 0, u)"
    "rs_loops u 0 = demo_marking" "rs_started u = 1" "rs_jobs u = [''a1'' \<mapsto> 0]" "rj_id (rs_store u 0) = ''a1''"
    "rj_epoch (rs_store u 0) = 1" "rs_workers u = []" "\<exists>a. map_of (rs_auths u) ''a1'' = Some a \<and> rf_epoch a = 1"
    using demo_marked by blast
  have pos: "rl_position demo_marking = Marking ''a1'' 1 (Due_first [])" "rl_now demo_marking = 5" "rl_jobs demo_marking = []"
    "0 < rl_capacity demo_marking"
    using demo_timer(2) by (simp_all add: demo_marking_def demo_waiting_def new_auto_refresh_loop_def Let_def on_timer_def split: prod.split)
  define v where "v = set_loop 0 (demo_marking\<lparr>rl_position := Sending 0 (Due_first [])\<rparr>) u"
  define w where "w = loop_send 0 0 (Due_first []) v"
  define x where "x = set_loop 0 ((rs_loops w 0)\<lparr>rl_jobs := []\<rparr>) (w\<lparr>rs_workers := (0, Taken) # rs_workers w\<rparr>)"
  have "?run (one_loop 5 demo_auths [] demo_waiting)" using demo_refresh_run(1) by blast
  from next_run [OF this one_loop_timer] have "?run (one_loop 5 demo_auths [] (on_timer 5 demo_waiting))"
    by (simp add: demo_waiting_def)
  from next_run [OF this one_loop_turn [OF demo_due_turn]] have "?run (one_loop 5 demo_auths [] demo_marking)" .
  from next_run [OF this st_mark [of 0 _ "''a1''" 1 "Due_first []"]] have "?run v"
    using pos u(1,2) by (simp add: loop_mark_def v_def)
  from next_run [OF this st_send [of 0 _ 0 "Due_first []"]] have "?run w"
    using pos u(3) by (simp add: v_def w_def)
  from next_run [OF this st_take [of 0 _ 0 "[]"]] have "?run x"
    using pos u(3) by (simp add: w_def v_def x_def loop_send_def)
  from next_run [OF this st_begin [of 0 _ False]] have
    "?run ((snd (begin_refresh_job False 0 (x\<lparr>rs_workers := []\<rparr>)))\<lparr>rs_workers := [(0, Running)]\<rparr>)"
    using u by (auto simp: x_def w_def v_def loop_send_def Let_def begin_refresh_job_def take_away_def)
  moreover have "rs_jobs x = [''a1'' \<mapsto> 0]" using u(4) by (simp add: x_def w_def v_def loop_send_def)
  ultimately show ?thesis by fastforce
qed

theorem one_refresh_per_credential_witness:
  "\<exists>evs s. run_of (refresh_step demo_refresh_hooks) (refresh_start 5 demo_auths) evs s \<and> rs_jobs s ''a1'' = Some 0 \<and>
     (\<forall>k. (k, Running) \<in> set (rs_workers s) \<and> rj_id (rs_store s k) = ''a1'' \<longrightarrow> k = 0)"
proof -
  obtain evs s where r: "run_of (refresh_step demo_refresh_hooks) (refresh_start 5 demo_auths) evs s" "rs_jobs s ''a1'' = Some 0"
    "(0, Running) \<in> set (rs_workers s)"
    using demo_running by blast
  have "rj_id (rs_store s 0) = ''a1''" using one_refresh_per_credential [OF r(1), where c = "''a1''" and i = 0] r(2) by simp
  then have "k = 0" if "(k, Running) \<in> set (rs_workers s)" "rj_id (rs_store s k) = ''a1''" for k
    using one_refresh_per_credential [OF r(1), of k 0] that r(3) by simp
  with r show ?thesis by blast
qed

end
