(* ===== verification/Spec2Isabelle.thy ===== *)
theory Spec2Isabelle
  imports Thinking_Validate Quota_Service Exec_Registry Usage_Queue Scheduler_Runs Registry_Answers Session_Affinity
    Refresh_Jobs
begin

text \<open>
  A verification library for the request gateway.

  The program. The gateway accepts requests for language models, chooses one of the configured
  upstream credentials, rewrites the request for that provider and relays the answer. The parts
  modelled here are those that decide, rather than those that move bytes: what reasoning effort a
  request may ask for, which credential serves it, what a failure does to that credential, how
  running requests are counted and released across a cluster, where usage records wait until they
  are stored, and when an operator is alerted about a quota.

  How the parts interact. A request's model name may carry a thinking suffix; \<open>parse_suffix\<close> splits it
  off and \<open>validate_config\<close> fits the wish to the model (internal/thinking). The manager
  (sdk/cliproxy/auth) asks a selector for a credential among those that are not blocked, and
  reports the outcome of the execution with \<open>mark_result\<close>, which sets the cooldowns that the selector
  reads. For the built-in selectors the manager asks the scheduler instead, to which it hands a
  snapshot of a credential after every change and which keeps the free credentials of each model
  ready in buckets. The manager also tells the model registry (internal/registry) which client offers which model and
  marks models as exceeded or suspended there; the handlers answer listings and route requests
  from the registry's tables. A conversation is kept on one credential: the turns of a request are
  fingerprinted, and the index of conversations (sdk/cliproxy/session) finds the session that the
  request continues, forks or compacts, and the credential that served it. In the background a loop
  refreshes the tokens of credentials before they expire. The execution holds a token and a scope of the execution registry
  (sdk/cliproxy/executionregistry). Its usage record goes to the queue of internal/redisqueue. The
  quota monitor (internal/quotaalert) polls the providers, evaluates what it observes and delivers
  notifications.

  Theories.

  \<^item> \<open>Go_Prelude\<close>: the integers, instants, strings and results of Go that all parts use.
  \<^item> \<open>Transition_Systems\<close>: labelled step relations; the locales \<open>invariant_system\<close> and
    \<open>history_system\<close> carry an invariant, or a relation of history and state, along every run.
  \<^item> \<open>Thinking_Config\<close>, \<open>Thinking_Validate\<close>: internal/thinking (types.go, suffix.go, convert.go,
    errors.go, validate.go and parts of apply.go). \<open>validate_config\<close> is the composition of the stages of
    \<open>ValidateConfig\<close>; the lemmas give for each stage the shape of what it hands on, and the
    properties what comes out for the model's declared support: a level of its list, a budget
    in its range, an error exactly where the strict path demands it.
  \<^item> \<open>Quota_Types\<close>, \<open>Quota_Evaluator\<close>, \<open>Quota_Service\<close>: internal/quotaalert (types.go, evaluator.go,
    service.go). Validation is idempotent and keys separate identities; the evaluation of one
    observation is given on every branch; a cycle yields one state for each identity and
    partitions its events into batches; the service keeps failure streaks, adapts its polling
    interval within bounds, walks all pages of the store and resolves each claim once.
  \<^item> \<open>Exec_Registry\<close>: sdk/cliproxy/executionregistry. Each critical section is an atomic operation, and
    \<open>reg_step\<close> interleaves them freely. The invariant relates pending dispatches, scopes, sequence
    numbers and the lifecycle; from it follow that a published barrier covers every dispatch
    before it, that each group's release sequences are 1, 2, 3 and so on, that a removed scope has
    closed its resources, and that draining can complete.
  \<^item> \<open>Usage_Queue\<close>: internal/redisqueue/queue.go. The array with its head and compaction refines the
    plain list of live items (the locale \<open>window_fifo\<close>, interpreted on the code's operations); a
    subscriber receives a contiguous stream until it is dropped; and rows handed to the
    durable store are never lost, only the oldest are dropped when the buffer is full.
  \<^item> \<open>Auth_Types\<close>, \<open>Auth_Cooldown\<close>, \<open>Auth_Selection\<close>: sdk/cliproxy/auth (types.go, errors.go,
    credential_weight.go, quota_signals.go, conductor.go, selector.go). \<open>mark_result\<close> on one credential:
    backoff, deadlines, the credential-wide quota, the watermark against stale successes; then
    blocking, the candidates, and the rotations, with exact fairness of round robin and of smooth
    weighted round robin.
  \<^item> \<open>Model_Info\<close>, \<open>Model_Registry\<close>, \<open>Model_Queries\<close>: internal/registry/model_registry.go and
    model_definitions.go: descriptions of models, the operations that change the registry, and the
    queries with their cache of listings. \<open>Registry_Invariant\<close> shows that registering and
    unregistering keep the tables (counts, providers, descriptions of each model) exactly those the
    clients' declarations give; \<open>Registry_Runs\<close> adds marks, projections, capabilities and clean-up and
    carries the invariant, the freshness of cached listings and the 64-bit epochs along every run;
    \<open>Registry_Answers\<close> reads off it what the queries answer.
  \<^item> \<open>Auth_Scheduler\<close>: sdk/cliproxy/auth/scheduler.go. A provider keeps its credentials and a shard for
    every model asked for; a shard keeps the state of each credential, the ready ones in buckets by
    priority and the blocked ones by deadline. \<open>Scheduler_Shards\<close> shows that every operation of a
    shard leaves the indexes exactly those of its entries and that the entries agree with the
    verdict of the selectors' rule; \<open>Scheduler_Invariant\<close> lifts that to providers and to picks for one
    provider, \<open>Scheduler_Mixed\<close> to picks over several; \<open>Scheduler_Runs\<close> carries it along every run of
    operations, with the epochs that keep a removed credential away.
  \<^item> \<open>Session_Matcher\<close>: sdk/cliproxy/session/lcp.go, the index of conversations. \<open>Session_Index\<close> shows
    that adding, removing, refreshing and evicting groups keep the prefix and tail indexes exactly
    those of the groups; \<open>Session_Match\<close> that the binary search of a match finds the longest remembered
    prefix; \<open>Session_Runs\<close> carries the invariant over matches, bindings, touches and removals along
    every run; \<open>Session_Affinity\<close> draws the promises to the selector: the longest prefix, a
    binding that is found again, late outcomes that undo nothing.
  \<^item> \<open>Refresh_Heap\<close>, \<open>Refresh_Credential\<close>, \<open>Refresh_Loop\<close>: sdk/cliproxy/auth/auto_refresh_loop.go with
    conductor.go and types.go. The timetable of checks is container/heap with an index of positions,
    and refines a plain table (the locale \<open>timetable\<close>); when a credential is checked and refreshed, and
    what an attempt leaves behind; then the loop, its workers and the callers that change
    credentials as a step relation, one step for each critical section. \<open>Refresh_Runs\<close> shows along every run
    that a credential to be refreshed stays in view of the loop, \<open>Refresh_Jobs\<close> that it has one
    worker at most and that a pending job is somewhere; there too is the run in which a late
    removal loses a credential.

  Conventions. Go's \<open>int\<close> and \<open>int64\<close> are integers, wrapped by \<open>s64\<close> where the code can overflow. An
  instant is a number of nanoseconds with 0 the zero time. A string is a list of bytes. A Go error
  is the left side of a sum. A Go map is an association list with distinct keys; where the code
  ranges over one and the order could show, the definition takes the order of the list, and
  the theorems hold for every order. Mutexes are not modelled: what runs under one is one
  operation. Log calls are left out.

  Termination and bounds. Every function is total: loops of the code are structural recursions or
  come with a measure, except the paging of \<open>list_all_states\<close>, which takes fuel, and whose
  property shows that a fuel above the number of pages gives the complete list. Properties about
  integers state the range in which no 64-bit operation wraps, or allow the wrap-around.

  Parameters. Code outside the repository is an argument of the definitions: the hash and the printing
  of floats and times (\<open>digest\<close>), the JSON parser (\<open>js\<close>), the durable stores, collectors and senders
  (their answers), the static catalogue of models and the order of \<open>sort.Slice\<close> among equals, the
  registry's hooks being left out, the provider metadata read when blocking a credential (\<open>block_hooks\<close>),
  what is read from the tokens, dates, durations and runtime of a credential (\<open>refresh_hooks\<close>),
  and SHA-256 (\<open>sha\<close>), of which the properties of the index of conversations assume that it has no
  collision on the lists of fingerprints that occur.

  Not modelled. The translators, executors and provider appliers rewrite JSON through the gjson and
  sjson libraries, whose semantics would have to be invented. Login flows, stores, the home client,
  the HTTP server, the management API, logging, the updater, the watchers and the user interfaces are
  I/O and wiring. Of the manager, the retry and streaming loops, the call of
  a provider within a refresh, and the selector of session affinity around the index of conversations,
  are not modelled. A caller finds the current refresh loop and tells it of a change in one step, and the timer of
  that loop may fire at any time. Two readings of the clock within one operation of the scheduler are one here, and
  the theorems on its runs take identifiers without surrounding blanks, since the code looks up a
  credential by its trimmed identifier in one table and by the identifier as given in another.
\<close>

end
